(* ===== verification/Cambium_Prelude.thy ===== *)
theory Cambium_Prelude
  imports Main "HOL-Library.Word" "HOL-Library.Sublist" "HOL-Library.Code_Target_Nat" "HOL-Library.Code_Target_Int"
begin

text \<open>
  Shared ground of the development: Go's fixed-width unsigned integers as words, code
  points as integers, decimal text, and the list facts several components use.  The
  collections declared here gather the facts a group of proofs shares:
  \<open>u64_unat\<close> reads 64-bit arithmetic as arithmetic on natural numbers.
\<close>

named_theorems u64_unat "64-bit unsigned arithmetic read through unat"

type_synonym u64 = "64 word"

text \<open>A Go \<open>rune\<close>: a code point, or a (possibly negative) integer that claims to be one.\<close>
type_synonym rune = int

abbreviation maxRune :: int where "maxRune \<equiv> 0x10FFFF"

text \<open>The code points of ASCII text in the source.\<close>
abbreviation rn :: "char \<Rightarrow> rune" where "rn c \<equiv> of_char c"

definition runes_of :: "string \<Rightarrow> rune list" where "runes_of s = map of_char s"

subsection \<open>Lengths as 64-bit words\<close>

abbreviation len64 :: "'a list \<Rightarrow> u64" where
  "len64 xs \<equiv> of_nat (length xs)"

lemma unat_of_nat64: "n < 2 ^ 64 \<Longrightarrow> unat (of_nat n :: u64) = n"
  by (simp add: unat_of_nat take_bit_eq_mod)

lemma unat_u64_less: "unat (w :: u64) < 2 ^ 64"
  using unsigned_less[of w] by simp

lemma unat_u64_le: "unat (w :: u64) \<le> 2 ^ 64 - 1"
  using unat_u64_less[of w] by simp

subsection \<open>Decimal text\<close>

definition digit_char :: "nat \<Rightarrow> char" where
  "digit_char n = char_of (48 + n)"

definition digit_val :: "char \<Rightarrow> nat" where
  "digit_val c = of_char c - 48"

definition is_digit :: "char \<Rightarrow> bool" where
  "is_digit c \<longleftrightarrow> 48 \<le> (of_char c :: nat) \<and> (of_char c :: nat) \<le> 57"

text \<open>The number a string of decimal digits denotes.\<close>
definition nat_of_dec :: "string \<Rightarrow> nat" where
  "nat_of_dec s = foldl (\<lambda>n c. n * 10 + digit_val c) 0 s"

text \<open>The shortest decimal text of a number (\<open>strconv.FormatUint(n, 10)\<close>).\<close>
fun dec_of_nat :: "nat \<Rightarrow> string" where
  "dec_of_nat n =
     (if n < 10 then [digit_char n] else dec_of_nat (n div 10) @ [digit_char (n mod 10)])"

declare dec_of_nat.simps [simp del]

lemma digit_val_char [simp]: "n < 10 \<Longrightarrow> digit_val (digit_char n) = n"
  by (simp add: digit_val_def digit_char_def)

lemma is_digit_char [simp]: "n < 10 \<Longrightarrow> is_digit (digit_char n)"
  by (simp add: is_digit_def digit_char_def)

lemma digit_val_less: "is_digit c \<Longrightarrow> digit_val c < 10"
  by (auto simp: is_digit_def digit_val_def)

lemma nat_of_dec_Nil [simp]: "nat_of_dec [] = 0"
  by (simp add: nat_of_dec_def)

lemma nat_of_dec_snoc [simp]: "nat_of_dec (s @ [c]) = nat_of_dec s * 10 + digit_val c"
  by (simp add: nat_of_dec_def)

lemma nat_of_dec_single [simp]: "nat_of_dec [c] = digit_val c"
  by (simp add: nat_of_dec_def)

lemma nat_of_dec_dec_of_nat [simp]: "nat_of_dec (dec_of_nat n) = n"
proof (induction n rule: dec_of_nat.induct)
  case (1 n)
  then show ?case
    by (subst dec_of_nat.simps) (auto simp: dec_of_nat.simps[of n])
qed

lemma dec_of_nat_digits: "\<forall>c \<in> set (dec_of_nat n). is_digit c"
proof (induction n rule: dec_of_nat.induct)
  case (1 n)
  then show ?case
    by (subst dec_of_nat.simps) auto
qed

lemma dec_of_nat_nonempty [simp]: "dec_of_nat n \<noteq> []"
  by (subst dec_of_nat.simps) simp

lemma digit_char_0: "digit_char 0 = CHR ''0''"
  by (simp add: digit_char_def char_of_def bit_0)

lemma hd_dec_of_nat: "hd (dec_of_nat n) = CHR ''0'' \<longleftrightarrow> n = 0"
proof (induction n rule: dec_of_nat.induct)
  case (1 n)
  show ?case
  proof (cases "n < 10")
    case True
    have "digit_char n = CHR ''0'' \<longleftrightarrow> n = 0"
      using digit_val_char[OF True] digit_val_char[of 0] digit_char_0 by auto
    with True show ?thesis by (simp add: dec_of_nat.simps[of n])
  next
    case False
    with 1 show ?thesis by (simp add: dec_of_nat.simps[of n])
  qed
qed

lemma nat_of_dec_bound: "\<forall>c \<in> set s. is_digit c \<Longrightarrow> nat_of_dec s < 10 ^ length s"
proof (induction s rule: rev_induct)
  case (snoc c s)
  then have "nat_of_dec s < 10 ^ length s" and "digit_val c < 10"
    by (auto intro: digit_val_less)
  then have "nat_of_dec s + 1 \<le> 10 ^ length s" by simp
  then have "(nat_of_dec s + 1) * 10 \<le> 10 ^ length s * 10" by simp
  with \<open>digit_val c < 10\<close> show ?case by simp
qed simp

end
