(* ===== verification/Pattern_Limits.thy ===== *)
theory Pattern_Limits
  imports Cambium_Prelude
begin

text \<open>
  Resource policy of the pattern engine (\<open>go/yangpattern/runtime_limits.go\<close>): the two error
  kinds, the three policies with their defaults, saturating 64-bit arithmetic, and the ledger
  every stage charges its storage and work to.  The lemmas show that the arithmetic saturates
  exactly, that a ledger never exceeds its allowance, and that its first error is final.
\<close>

subsection \<open>Errors\<close>

datatype pattern_error =
    ResourceError (Phase: string) (Stage: string) (Limit: string) (Allowance: u64) (Observed: u64)
  | ConfigurationError (Detail: string)

fun pattern_error_text :: "pattern_error \<Rightarrow> string" where
  "pattern_error_text (ResourceError ph st lim allowance observed) =
     ''pattern '' @ ph @ ''/'' @ st @ '': '' @ lim @ '' allowance '' @ dec_of_nat (unat allowance)
       @ '' exceeded by '' @ dec_of_nat (unat observed)"
| "pattern_error_text (ConfigurationError detail) = ''pattern configuration: '' @ detail"

subsection \<open>Policies\<close>

record compile_limits =
  cSourceBytes :: u64
  cNodes :: u64
  cEdges :: u64
  cDepth :: u64
  cDigits :: u64
  cRanges :: u64
  cBytes :: u64
  cWork :: u64

record restore_limits =
  rBytes :: u64
  rNodes :: u64
  rEdges :: u64
  rDepth :: u64
  rDigits :: u64
  rRanges :: u64
  rWork :: u64

record match_limits =
  mNodes :: u64
  mTransitions :: u64
  mBytes :: u64
  mWork :: u64
  mNativeInstructions :: u64
  mNativeSourceBytes :: u64
  mNativeWork :: u64

definition defaultValue :: "u64 \<Rightarrow> u64 \<Rightarrow> u64" where
  "defaultValue v d = (if v = 0 then d else v)"

definition compile_defaults :: "compile_limits \<Rightarrow> compile_limits" where
  "compile_defaults l = \<lparr>
     cSourceBytes = defaultValue (cSourceBytes l) (push_bit 10 256),
     cNodes = defaultValue (cNodes l) 32768,
     cEdges = defaultValue (cEdges l) 65536,
     cDepth = defaultValue (cDepth l) 256,
     cDigits = defaultValue (cDigits l) 65536,
     cRanges = defaultValue (cRanges l) 131072,
     cBytes = defaultValue (cBytes l) (push_bit 20 16),
     cWork = defaultValue (cWork l) 5000000 \<rparr>"

definition restore_defaults :: "restore_limits \<Rightarrow> restore_limits" where
  "restore_defaults l = \<lparr>
     rBytes = defaultValue (rBytes l) (push_bit 20 16),
     rNodes = defaultValue (rNodes l) 32768,
     rEdges = defaultValue (rEdges l) 65536,
     rDepth = defaultValue (rDepth l) 256,
     rDigits = defaultValue (rDigits l) 65536,
     rRanges = defaultValue (rRanges l) 131072,
     rWork = defaultValue (rWork l) 5000000 \<rparr>"

definition match_defaults :: "match_limits \<Rightarrow> match_limits" where
  "match_defaults l = \<lparr>
     mNodes = defaultValue (mNodes l) 32768,
     mTransitions = defaultValue (mTransitions l) 131072,
     mBytes = defaultValue (mBytes l) (push_bit 20 16),
     mWork = defaultValue (mWork l) 5000000,
     mNativeInstructions = defaultValue (mNativeInstructions l) 16384,
     mNativeSourceBytes = defaultValue (mNativeSourceBytes l) (push_bit 10 256),
     mNativeWork = defaultValue (mNativeWork l) 200000000 \<rparr>"

text \<open>The zero value of each policy, which selects every default.\<close>

definition compile_limits0 :: compile_limits where
  "compile_limits0 = \<lparr>cSourceBytes = 0, cNodes = 0, cEdges = 0, cDepth = 0, cDigits = 0,
     cRanges = 0, cBytes = 0, cWork = 0\<rparr>"

definition restore_limits0 :: restore_limits where
  "restore_limits0 = \<lparr>rBytes = 0, rNodes = 0, rEdges = 0, rDepth = 0, rDigits = 0, rRanges = 0,
     rWork = 0\<rparr>"

definition match_limits0 :: match_limits where
  "match_limits0 = \<lparr>mNodes = 0, mTransitions = 0, mBytes = 0, mWork = 0,
     mNativeInstructions = 0, mNativeSourceBytes = 0, mNativeWork = 0\<rparr>"

subsection \<open>Saturating arithmetic\<close>

text \<open>\<open>^uint64(0)\<close>\<close>
abbreviation maxU64 :: u64 where "maxU64 \<equiv> - 1"

definition addSat :: "u64 \<Rightarrow> u64 \<Rightarrow> u64" where
  "addSat a b = (if maxU64 - a < b then maxU64 else a + b)"

definition mulSat :: "u64 \<Rightarrow> u64 \<Rightarrow> u64" where
  "mulSat a b = (if a \<noteq> 0 \<and> b > maxU64 div a then maxU64 else a * b)"

lemma unat_maxU64 [u64_unat]: "unat maxU64 = 2 ^ 64 - 1"
  by (simp add: unsigned_minus_1_eq_mask mask_eq_exp_minus_1)

lemma unat_addSat [u64_unat]: "unat (addSat a b) = min (unat a + unat b) (2 ^ 64 - 1)"
proof -
  have sub: "unat (maxU64 - a) = 2 ^ 64 - 1 - unat a"
    by (simp add: unat_sub unat_maxU64)
  show ?thesis
  proof (cases "maxU64 - a < b")
    case True
    then have "2 ^ 64 - 1 - unat a < unat b"
      by (simp add: word_less_nat_alt sub)
    with True show ?thesis
      by (simp add: addSat_def unat_maxU64)
  next
    case False
    then have "unat a + unat b \<le> 2 ^ 64 - 1"
      using unat_u64_le[of a] by (simp add: word_less_nat_alt sub)
    with False show ?thesis
      by (simp add: addSat_def unat_word_ariths)
  qed
qed

lemma unat_mulSat [u64_unat]: "unat (mulSat a b) = min (unat a * unat b) (2 ^ 64 - 1)"
proof (cases "a = 0")
  case True
  then show ?thesis by (simp add: mulSat_def)
next
  case False
  then have pos: "0 < unat a" by (simp add: unat_gt_0)
  have q: "unat (maxU64 div a) = (2 ^ 64 - 1) div unat a"
    by (simp add: unat_div unat_maxU64)
  show ?thesis
  proof (cases "b > maxU64 div a")
    case True
    then have "(2 ^ 64 - 1) div unat a < unat b"
      by (simp add: word_less_nat_alt q)
    then have "2 ^ 64 - 1 < unat a * unat b"
      using pos by (simp add: div_less_iff_less_mult mult.commute)
    with True False show ?thesis
      by (simp add: mulSat_def unat_maxU64)
  next
    case False
    then have "unat b \<le> (2 ^ 64 - 1) div unat a"
      by (simp add: word_less_nat_alt q)
    then have "unat a * unat b \<le> 2 ^ 64 - 1"
      using pos by (simp add: less_eq_div_iff_mult_less_eq mult.commute)
    with False show ?thesis
      by (simp add: mulSat_def unat_word_ariths)
  qed
qed

subsection \<open>The limit check\<close>

definition limitError :: "string \<Rightarrow> string \<Rightarrow> string \<Rightarrow> u64 \<Rightarrow> u64 \<Rightarrow> pattern_error option" where
  "limitError ph st name limit observed =
     (if observed = maxU64
      then Some (ResourceError ph st (name @ '' overflow'') (min limit (observed - 1)) observed)
      else if observed > limit then Some (ResourceError ph st name limit observed)
      else None)"

lemma limitError_None:
  "limitError ph st name limit observed = None \<longleftrightarrow> observed \<le> limit \<and> observed \<noteq> maxU64"
  by (auto simp: limitError_def not_less split: if_splits)

lemma limitError_None_unat:
  "limitError ph st name limit observed = None \<Longrightarrow>
     unat observed \<le> unat limit \<and> unat observed < 2 ^ 64 - 1"
proof -
  assume "limitError ph st name limit observed = None"
  then have le: "observed \<le> limit" and ne: "observed \<noteq> maxU64"
    by (simp_all add: limitError_None)
  from ne have "unat observed \<noteq> 2 ^ 64 - 1"
    by (metis unat_maxU64 word_unat_eq_iff)
  with le unat_u64_le[of observed] show ?thesis
    by (simp add: word_le_nat_alt)
qed

subsection \<open>The ledger\<close>

record ledger =
  lPhase :: string
  lStage :: string
  lBytes :: u64
  lWork :: u64
  lByteLimit :: u64
  lWorkLimit :: u64
  lErr :: "pattern_error option"

definition new_ledger :: "string \<Rightarrow> string \<Rightarrow> u64 \<Rightarrow> u64 \<Rightarrow> ledger" where
  "new_ledger ph st byteLimit workLimit = \<lparr>lPhase = ph, lStage = st, lBytes = 0, lWork = 0,
     lByteLimit = byteLimit, lWorkLimit = workLimit, lErr = None\<rparr>"

definition charge :: "u64 \<Rightarrow> u64 \<Rightarrow> ledger \<Rightarrow> bool \<times> ledger" where
  "charge bytes work b =
     (if lErr b \<noteq> None then (False, b)
      else
        let nextBytes = addSat (lBytes b) bytes; nextWork = addSat (lWork b) work in
        case limitError (lPhase b) (lStage b) ''bytes'' (lByteLimit b) nextBytes of
          Some e \<Rightarrow> (False, b\<lparr>lErr := Some e\<rparr>)
        | None \<Rightarrow>
          (case limitError (lPhase b) (lStage b) ''work'' (lWorkLimit b) nextWork of
             Some e \<Rightarrow> (False, b\<lparr>lErr := Some e\<rparr>)
           | None \<Rightarrow> (True, b\<lparr>lBytes := nextBytes, lWork := nextWork\<rparr>)))"

lemma charge_True:
  "charge bytes work b = (True, b') \<Longrightarrow>
     lErr b = None \<and> lErr b' = None \<and>
     lBytes b' = addSat (lBytes b) bytes \<and> lWork b' = addSat (lWork b) work \<and>
     lByteLimit b' = lByteLimit b \<and> lWorkLimit b' = lWorkLimit b \<and>
     lBytes b' \<le> lByteLimit b' \<and> lWork b' \<le> lWorkLimit b'"
  by (auto simp: charge_def Let_def limitError_None split: if_splits option.splits)

lemma charge_False: "charge bytes work b = (False, b') \<Longrightarrow> lErr b' \<noteq> None"
  by (auto simp: charge_def Let_def split: if_splits option.splits)

lemma charge_sticky: "lErr b \<noteq> None \<Longrightarrow> charge bytes work b = (False, b)"
  by (simp add: charge_def)

lemma charge_ok_iff: "charge bytes work b = (ok, b') \<Longrightarrow> ok \<longleftrightarrow> lErr b' = None"
  by (cases ok) (auto dest: charge_True charge_False)

text \<open>A ledger is sound when what it has accepted is within both allowances.\<close>
definition ledger_ok :: "ledger \<Rightarrow> bool" where
  "ledger_ok b \<longleftrightarrow> lBytes b \<le> lByteLimit b \<and> lWork b \<le> lWorkLimit b"

lemma ledger_ok_new: "ledger_ok (new_ledger ph st bl wl)"
  by (simp add: ledger_ok_def new_ledger_def)

lemma charge_ledger_ok: "ledger_ok b \<Longrightarrow> charge bytes work b = (ok, b') \<Longrightarrow> ledger_ok b'"
  by (auto simp: ledger_ok_def charge_def Let_def limitError_None split: if_splits option.splits)

subsection \<open>A sequence of charges\<close>

fun charge_all :: "(u64 \<times> u64) list \<Rightarrow> ledger \<Rightarrow> ledger" where
  "charge_all [] b = b"
| "charge_all ((bytes, work) # cs) b = charge_all cs (snd (charge bytes work b))"

text \<open>A total fits a limit when it is within it and not the reserved greatest value.\<close>
definition fits :: "nat \<Rightarrow> u64 \<Rightarrow> bool" where
  "fits n limit \<longleftrightarrow> n \<le> unat limit \<and> n < 2 ^ 64 - 1"

lemma limitError_fits:
  "limitError ph st name limit (addSat a b) = None \<longleftrightarrow> fits (unat a + unat b) limit"
proof -
  have "addSat a b = maxU64 \<longleftrightarrow> unat a + unat b \<ge> 2 ^ 64 - 1"
    by (auto simp: word_unat_eq_iff u64_unat min_def)
  then show ?thesis
    using unat_u64_le[of limit] by (auto simp: limitError_None fits_def word_le_nat_alt u64_unat min_def)
qed

lemma charge_iff:
  assumes "lErr b = None"
  shows "lErr (snd (charge bytes work b)) = None \<longleftrightarrow>
      fits (unat (lBytes b) + unat bytes) (lByteLimit b) \<and> fits (unat (lWork b) + unat work) (lWorkLimit b)"
    and "lErr (snd (charge bytes work b)) = None \<Longrightarrow>
      unat (lBytes (snd (charge bytes work b))) = unat (lBytes b) + unat bytes \<and>
      unat (lWork (snd (charge bytes work b))) = unat (lWork b) + unat work"
proof -
  let ?e = "limitError (lPhase b) (lStage b) ''bytes'' (lByteLimit b) (addSat (lBytes b) bytes)"
  let ?f = "limitError (lPhase b) (lStage b) ''work'' (lWorkLimit b) (addSat (lWork b) work)"
  have e: "lErr (snd (charge bytes work b)) = None \<longleftrightarrow> ?e = None \<and> ?f = None"
    using assms by (auto simp: charge_def Let_def split: option.splits)
  then show "lErr (snd (charge bytes work b)) = None \<longleftrightarrow>
      fits (unat (lBytes b) + unat bytes) (lByteLimit b) \<and> fits (unat (lWork b) + unat work) (lWorkLimit b)"
    by (simp only: limitError_fits)
  show "unat (lBytes (snd (charge bytes work b))) = unat (lBytes b) + unat bytes \<and>
      unat (lWork (snd (charge bytes work b))) = unat (lWork b) + unat work"
    if "lErr (snd (charge bytes work b)) = None"
  proof -
    from that e have n: "?e = None" "?f = None" by simp_all
    then have "fits (unat (lBytes b) + unat bytes) (lByteLimit b)" "fits (unat (lWork b) + unat work) (lWorkLimit b)"
      by (simp_all only: limitError_fits)
    with n assms show ?thesis by (simp add: charge_def fits_def u64_unat min_def)
  qed
qed

lemma charge_limits [simp]:
  "lByteLimit (snd (charge bytes work b)) = lByteLimit b" "lWorkLimit (snd (charge bytes work b)) = lWorkLimit b"
  by (auto simp: charge_def Let_def split: option.splits)

lemma charge_all_sticky: "lErr b \<noteq> None \<Longrightarrow> charge_all cs b = b"
  by (induction cs b rule: charge_all.induct) (auto simp: charge_sticky)

lemma charge_all_ledger_ok: "ledger_ok b \<Longrightarrow> ledger_ok (charge_all cs b)"
  by (induction cs b rule: charge_all.induct) (auto intro: charge_ledger_ok prod.collapse[symmetric])

lemma charge_all_limits [simp]:
  "lByteLimit (charge_all cs b) = lByteLimit b" "lWorkLimit (charge_all cs b) = lWorkLimit b"
  by (induction cs b rule: charge_all.induct) auto

lemma fits_mono: "fits n l \<Longrightarrow> m \<le> n \<Longrightarrow> fits m l"
  by (auto simp: fits_def)

lemma charge_all_iff:
  "lErr b = None \<Longrightarrow> fits (unat (lBytes b)) (lByteLimit b) \<Longrightarrow> fits (unat (lWork b)) (lWorkLimit b) \<Longrightarrow>
   (lErr (charge_all cs b) = None \<longleftrightarrow>
      fits (unat (lBytes b) + sum_list (map (\<lambda>c. unat (fst c)) cs)) (lByteLimit b) \<and>
      fits (unat (lWork b) + sum_list (map (\<lambda>c. unat (snd c)) cs)) (lWorkLimit b)) \<and>
   (lErr (charge_all cs b) = None \<longrightarrow>
      unat (lBytes (charge_all cs b)) = unat (lBytes b) + sum_list (map (\<lambda>c. unat (fst c)) cs) \<and>
      unat (lWork (charge_all cs b)) = unat (lWork b) + sum_list (map (\<lambda>c. unat (snd c)) cs))"
proof (induction cs b rule: charge_all.induct)
  case (2 bytes work cs b)
  let ?b = "snd (charge bytes work b)"
  show ?case
  proof (cases "lErr ?b = None")
    case True
    with charge_iff[OF 2(2), of bytes work] 2(1)[OF True] show ?thesis
      by (simp add: add.assoc)
  next
    case False
    then have "\<not> (fits (unat (lBytes b) + unat bytes) (lByteLimit b) \<and> fits (unat (lWork b) + unat work) (lWorkLimit b))"
      by (simp only: charge_iff(1)[OF 2(2)]) simp
    then have "\<not> (fits (unat (lBytes b) + sum_list (map (\<lambda>c. unat (fst c)) ((bytes, work) # cs))) (lByteLimit b) \<and>
        fits (unat (lWork b) + sum_list (map (\<lambda>c. unat (snd c)) ((bytes, work) # cs))) (lWorkLimit b))"
      using fits_mono by fastforce
    with False show ?thesis by (auto simp: charge_all_sticky)
  qed
qed auto

end
