(* ===== verification/Pattern_Lang.thy ===== *)
theory Pattern_Lang
  imports Cambium_Prelude
begin

text \<open>
  The language algebra the pattern proofs share: concatenation, bounded repetition and the
  left quotient of a set of words, with the equations the derivative engine and the compiler
  rely on.  Nothing here models code; it is the vocabulary of the specifications.
\<close>

type_synonym 'a lang = "'a list set"

subsection \<open>Concatenation\<close>

definition conc :: "'a lang \<Rightarrow> 'a lang \<Rightarrow> 'a lang" where
  "conc A B = {x @ y | x y. x \<in> A \<and> y \<in> B}"

lemma concI [intro]: "x \<in> A \<Longrightarrow> y \<in> B \<Longrightarrow> x @ y \<in> conc A B"
  by (auto simp: conc_def)

lemma concE [elim]: "w \<in> conc A B \<Longrightarrow> (\<And>x y. w = x @ y \<Longrightarrow> x \<in> A \<Longrightarrow> y \<in> B \<Longrightarrow> P) \<Longrightarrow> P"
  by (auto simp: conc_def)

lemma conc_empty [simp]: "conc {} B = {}" "conc A {} = {}"
  by (auto simp: conc_def)

lemma conc_eps [simp]: "conc {[]} B = B" "conc A {[]} = A"
  by (auto simp: conc_def)

lemma conc_assoc: "conc (conc A B) C = conc A (conc B C)"
  by (auto simp: conc_def) (metis append_assoc)+

lemma conc_Un: "conc (A \<union> B) C = conc A C \<union> conc B C" "conc A (B \<union> C) = conc A B \<union> conc A C"
  by (auto simp: conc_def)

lemma Nil_in_conc [simp]: "[] \<in> conc A B \<longleftrightarrow> [] \<in> A \<and> [] \<in> B"
  by (auto simp: conc_def)

subsection \<open>Bounded repetition\<close>

text \<open>Words made of at least \<open>lo\<close> and at most \<open>hi\<close> factors, with no upper bound for \<open>None\<close>.\<close>

fun below :: "nat \<Rightarrow> nat option \<Rightarrow> bool" where
  "below n None \<longleftrightarrow> True"
| "below n (Some h) \<longleftrightarrow> n \<le> h"

definition reps :: "'a lang \<Rightarrow> nat \<Rightarrow> nat option \<Rightarrow> 'a lang" where
  "reps A lo hi = {concat ws | ws. set ws \<subseteq> A \<and> lo \<le> length ws \<and> below (length ws) hi}"

lemma repsI: "set ws \<subseteq> A \<Longrightarrow> lo \<le> length ws \<Longrightarrow> below (length ws) hi \<Longrightarrow> concat ws \<in> reps A lo hi"
  by (auto simp: reps_def)

lemma repsE:
  assumes "w \<in> reps A lo hi"
  obtains ws where "w = concat ws" "set ws \<subseteq> A" "lo \<le> length ws" "below (length ws) hi"
  using assms by (auto simp: reps_def)

lemma reps_zero_hi [simp]: "reps A 0 (Some 0) = {[]}"
  by (auto simp: reps_def)

lemma reps_empty: "reps {} lo hi = (if lo = 0 then {[]} else {})"
proof -
  have "below 0 hi" by (cases hi) auto
  then show ?thesis by (auto simp: reps_def)
qed

lemma concat_eps: "set ws \<subseteq> {[]} \<Longrightarrow> concat ws = []"
  by (induction ws) auto

lemma reps_eps: "(\<And>h. hi = Some h \<Longrightarrow> lo \<le> h) \<Longrightarrow> reps {[]} lo hi = {[]}"
proof -
  assume b: "\<And>h. hi = Some h \<Longrightarrow> lo \<le> h"
  have "concat (replicate lo []) \<in> reps {[]} lo hi"
    using b by (intro repsI) (cases hi; auto simp: set_replicate_conv_if)+
  moreover have "concat (replicate lo []) = ([] :: 'a list)"
    by (induction lo) auto
  ultimately have "([] :: 'a list) \<in> reps {[]} lo hi" by simp
  moreover have "reps {[]} lo hi \<subseteq> {[] :: 'a list}"
    by (auto elim!: repsE)
  ultimately show ?thesis by auto
qed

lemma length_1_conv: "length ws = Suc 0 \<longleftrightarrow> (\<exists>w. ws = [w])"
  by (cases ws) auto

lemma reps_one [simp]: "reps A (Suc 0) (Some (Suc 0)) = A"
proof -
  have "set [w] \<subseteq> A \<Longrightarrow> concat [w] \<in> reps A (Suc 0) (Some (Suc 0))" for w
    by (rule repsI) auto
  then show ?thesis
    by (auto simp: reps_def length_1_conv le_antisym)
      (metis concat.simps empty_iff insert_subset le_antisym length_1_conv list.simps(15)
        append_Nil2)+
qed

lemma Nil_in_reps: "[] \<notin> A \<Longrightarrow> [] \<in> reps A lo hi \<longleftrightarrow> lo = 0"
proof
  assume nn: "[] \<notin> A" and "[] \<in> reps A lo hi"
  then obtain ws where ws: "[] = concat ws" "set ws \<subseteq> A" "lo \<le> length ws"
    by (auto elim: repsE)
  from ws nn have "ws = []" by (cases ws) auto
  with ws show "lo = 0" by simp
next
  assume "lo = 0"
  have "below 0 hi" by (cases hi) auto
  with \<open>lo = 0\<close> repsI[of "[]" A lo hi] show "[] \<in> reps A lo hi" by simp
qed

subsection \<open>The left quotient by one letter\<close>

definition quot :: "'a \<Rightarrow> 'a lang \<Rightarrow> 'a lang" where
  "quot c A = {w. c # w \<in> A}"

lemma quot_simps [simp]:
  "quot c {} = {}" "quot c {[]} = {}" "quot c (A \<union> B) = quot c A \<union> quot c B"
  by (auto simp: quot_def)

lemma quot_conc:
  "quot c (conc A B) = conc (quot c A) B \<union> (if [] \<in> A then quot c B else {})"
proof -
  have "w \<in> conc (quot c A) B \<union> (if [] \<in> A then quot c B else {})" if "w \<in> quot c (conc A B)" for w
  proof -
    from that obtain x y where xy: "c # w = x @ y" "x \<in> A" "y \<in> B"
      by (auto simp: quot_def)
    then show ?thesis by (cases x) (auto simp: quot_def)
  qed
  moreover have "w \<in> quot c (conc A B)" if "w \<in> conc (quot c A) B" for w
  proof -
    from that obtain x y where "w = x @ y" "c # x \<in> A" "y \<in> B"
      by (auto simp: quot_def)
    then have "(c # x) @ y \<in> conc A B" by blast
    with \<open>w = x @ y\<close> show ?thesis by (simp add: quot_def)
  qed
  moreover have "w \<in> quot c (conc A B)" if "[] \<in> A" "w \<in> quot c B" for w
  proof -
    from that have "[] @ (c # w) \<in> conc A B" unfolding quot_def by blast
    then show ?thesis by (simp add: quot_def)
  qed
  ultimately have "w \<in> quot c (conc A B) \<longleftrightarrow>
      w \<in> conc (quot c A) B \<union> (if [] \<in> A then quot c B else {})" for w
    by (cases "[] \<in> A") (simp_all, metis+)
  then show ?thesis by (rule set_eqI)
qed

text \<open>
  One factor consumed: the quotient of a repetition needs no assumption on empty factors,
  because the factors before the first nonempty one contribute nothing and can be counted
  after it.
\<close>

lemma concat_first_nonempty:
  "concat ws = c # v \<Longrightarrow> \<exists>u ws'. c # u \<in> set ws \<and> set ws' \<subseteq> set ws \<and> length ws' = length ws - 1
     \<and> ws \<noteq> [] \<and> v = u @ concat ws'"
proof (induction ws)
  case (Cons w ws)
  show ?case
  proof (cases w)
    case Nil
    with Cons obtain u ws' where "c # u \<in> set ws" "set ws' \<subseteq> set ws" "length ws' = length ws - 1"
      "ws \<noteq> []" "v = u @ concat ws'" by auto
    with Nil show ?thesis
      by (intro exI[of _ u] exI[of _ "[] # ws'"]) auto
  next
    case (Cons b u)
    with Cons.prems show ?thesis
      by (intro exI[of _ u] exI[of _ ws]) auto
  qed
qed simp

lemma quot_reps:
  assumes "hi \<noteq> Some 0"
  shows "quot c (reps A lo hi) = conc (quot c A) (reps A (lo - 1) (map_option (\<lambda>h. h - 1) hi))"
proof (intro equalityI subsetI)
  fix v assume "v \<in> quot c (reps A lo hi)"
  then obtain ws where ws: "c # v = concat ws" "set ws \<subseteq> A" "lo \<le> length ws" "below (length ws) hi"
    by (auto simp: quot_def elim: repsE)
  from concat_first_nonempty[OF ws(1)[symmetric]] obtain u ws' where
    u: "c # u \<in> set ws" "set ws' \<subseteq> set ws" "length ws' = length ws - 1" "ws \<noteq> []" "v = u @ concat ws'"
    by blast
  have "concat ws' \<in> reps A (lo - 1) (map_option (\<lambda>h. h - 1) hi)"
    using u ws by (intro repsI) (cases hi; auto)+
  moreover have "u \<in> quot c A"
    using u ws by (auto simp: quot_def)
  ultimately show "v \<in> conc (quot c A) (reps A (lo - 1) (map_option (\<lambda>h. h - 1) hi))"
    using u by auto
next
  fix v assume "v \<in> conc (quot c A) (reps A (lo - 1) (map_option (\<lambda>h. h - 1) hi))"
  then obtain u ws where u: "v = u @ concat ws" "c # u \<in> A" "set ws \<subseteq> A" "lo - 1 \<le> length ws"
    "below (length ws) (map_option (\<lambda>h. h - 1) hi)"
    by (auto simp: quot_def elim!: repsE)
  have "concat ((c # u) # ws) \<in> reps A lo hi"
    using u assms by (intro repsI) (cases hi; auto)+
  with u show "v \<in> quot c (reps A lo hi)"
    by (simp add: quot_def)
qed

lemma quot_reps_zero [simp]: "quot c (reps A lo (Some 0)) = {}"
  by (auto simp: quot_def reps_def)

subsection \<open>Joining adjacent repetition intervals\<close>

definition covers :: "nat \<Rightarrow> nat option \<Rightarrow> nat \<Rightarrow> bool" where
  "covers lo hi n \<longleftrightarrow> lo \<le> n \<and> below n hi"

lemma reps_covers: "reps A lo hi = {concat ws | ws. set ws \<subseteq> A \<and> covers lo hi (length ws)}"
  by (auto simp: reps_def covers_def)

lemma reps_join:
  assumes "\<And>n. covers lo hi n \<longleftrightarrow> covers l1 h1 n \<or> covers l2 h2 n"
  shows "reps A lo hi = reps A l1 h1 \<union> reps A l2 h2"
  using assms by (auto simp: reps_covers)

subsection \<open>Shortest words\<close>

lemma length_concat_ge:
  "\<forall>w \<in> set ws. m \<le> length w \<Longrightarrow> length ws * m \<le> length (concat ws)"
  by (induction ws) auto

lemma reps_length:
  assumes "\<And>w. w \<in> A \<Longrightarrow> m \<le> length w" and "v \<in> reps A lo hi"
  shows "lo * m \<le> length v"
proof -
  from assms(2) obtain ws where ws: "v = concat ws" "set ws \<subseteq> A" "lo \<le> length ws"
    by (auto elim: repsE)
  have "lo * m \<le> length ws * m" using ws by simp
  also have "\<dots> \<le> length (concat ws)"
    using ws assms(1) by (intro length_concat_ge) auto
  finally show ?thesis using ws by simp
qed

text \<open>
  A repetition restricted to words no longer than \<open>n\<close>: each factor has at least \<open>m\<close>
  letters, so an upper bound of \<open>n div m\<close> factors or more is no bound at all.
\<close>

lemma reps_clip:
  assumes m: "\<And>w. w \<in> A \<Longrightarrow> m \<le> length w" and pos: "0 < m"
    and v: "length v \<le> n" and h: "n div m \<le> h"
  shows "v \<in> reps A lo None \<longleftrightarrow> v \<in> reps A lo (Some h)"
proof
  assume "v \<in> reps A lo None"
  then obtain ws where ws: "v = concat ws" "set ws \<subseteq> A" "lo \<le> length ws"
    by (auto elim: repsE)
  have "length ws * m \<le> length v"
    using ws m by (auto intro!: length_concat_ge)
  with v have "length ws * m \<le> n" by simp
  then have "length ws \<le> n div m"
    using pos by (simp add: less_eq_div_iff_mult_less_eq)
  with h ws show "v \<in> reps A lo (Some h)"
    by (auto intro!: repsI)
next
  assume "v \<in> reps A lo (Some h)"
  then show "v \<in> reps A lo None" by (auto simp: reps_def)
qed

lemma length_factor_le: "w \<in> set ws \<Longrightarrow> length w \<le> length (concat ws)"
  by (induction ws) auto

text \<open>Two languages that agree on short words have repetitions that agree on short words.\<close>

lemma reps_short_cong:
  assumes "\<And>w. length w \<le> n \<Longrightarrow> w \<in> A \<longleftrightarrow> w \<in> B" and "length v \<le> n"
  shows "v \<in> reps A lo hi \<longleftrightarrow> v \<in> reps B lo hi"
proof -
  have "v \<in> reps D lo hi"
    if "v \<in> reps C lo hi" and CD: "\<And>w. length w \<le> n \<Longrightarrow> w \<in> C \<Longrightarrow> w \<in> D" for C D
  proof -
    from that(1) obtain ws where ws: "v = concat ws" "set ws \<subseteq> C" "lo \<le> length ws" "below (length ws) hi"
      by (auto elim: repsE)
    have "set ws \<subseteq> D"
    proof
      fix w assume "w \<in> set ws"
      with ws assms(2) have "length w \<le> n"
        by (metis length_factor_le le_trans)
      with \<open>w \<in> set ws\<close> ws CD show "w \<in> D" by auto
    qed
    with ws show ?thesis by (auto intro: repsI)
  qed
  with assms(1) show ?thesis by blast
qed

lemma conc_short_cong:
  assumes "\<And>w. length w \<le> n \<Longrightarrow> w \<in> A \<longleftrightarrow> w \<in> A'" "\<And>w. length w \<le> n \<Longrightarrow> w \<in> B \<longleftrightarrow> w \<in> B'"
    and "length v \<le> n"
  shows "v \<in> conc A B \<longleftrightarrow> v \<in> conc A' B'"
  using assms by (auto elim!: concE)

end
