(* ===== verification/Pattern_Program.thy ===== *)
theory Pattern_Program
  imports Pattern_Limits Pattern_Lang
begin

text \<open>
  The portable program (\<open>go/yangpattern/runtime_program.go\<close>): a table of language nodes that
  refer to each other by index, and \<open>Restore\<close>, which validates such a table and computes for
  every node whether it accepts the empty word, the length of its shortest word, and its
  numeric repetition bounds.  The meaning of a node is the inductive predicate \<open>plang\<close>; the
  lemmas show that a restored table is well formed (indexes in range, no cycles, canonical
  bounds, scalar ranges) and that the computed tables agree with \<open>plang\<close>.
\<close>

subsection \<open>Data\<close>

datatype pop = OpEmpty | OpEpsilon | OpClass | OpAlternate | OpConcat | OpRepeat | OpUnknown "8 word"

record rune_range =
  rLo :: rune
  rHi :: rune

text \<open>Indexes are \<open>uint32\<close> in the code and only compared and used as indexes.\<close>
record node_data =
  nOp :: pop
  nChildren :: "nat list"
  nRanges :: "rune_range list"
  nMin :: string
  nMax :: string
  nUnbounded :: bool

record program_data =
  pVersion :: nat
  pSource :: string
  pNodes :: "node_data list"
  pRoot :: nat

record repetition_bounds =
  lower :: u64
  upper :: u64

text \<open>
  The compiled \<open>native\<close> regexp is determined by its source, so the pair of source and
  instruction count stands for it.
\<close>
record program =
  gData :: program_data
  gNullable :: "bool list"
  gMinimum :: "u64 list"
  gBounds :: "repetition_bounds list"
  gNative :: "(string \<times> u64) option"

definition FormatVersion :: nat where "FormatVersion = 1"

text \<open>The zero node, with the fields a literal leaves out.\<close>
definition node0 :: node_data where
  "node0 = \<lparr>nOp = OpEmpty, nChildren = [], nRanges = [], nMin = [], nMax = [], nUnbounded = False\<rparr>"

subsection \<open>Decimal metadata\<close>

definition canonicalDecimal :: "string \<Rightarrow> bool" where
  "canonicalDecimal s =
     (if s = [] \<or> (length s > 1 \<and> s ! 0 = CHR ''0'') then False
      else list_all is_digit s)"

text \<open>\<open>strings.Compare\<close>: bytewise, a proper prefix is smaller.\<close>
fun string_compare :: "string \<Rightarrow> string \<Rightarrow> int" where
  "string_compare [] [] = 0"
| "string_compare [] (_ # _) = -1"
| "string_compare (_ # _) [] = 1"
| "string_compare (a # as) (b # bs) =
     (if (of_char a :: nat) < of_char b then -1
      else if (of_char a :: nat) > of_char b then 1
      else string_compare as bs)"

definition decimalCompare :: "string \<Rightarrow> string \<Rightarrow> int" where
  "decimalCompare a b =
     (if length a < length b then -1
      else if length a > length b then 1
      else string_compare a b)"

text \<open>The byte difference \<open>s[i]-'0'\<close> is taken modulo 256 before it is widened.\<close>
definition decimalUint :: "string \<Rightarrow> u64" where
  "decimalUint s =
     foldl (\<lambda>n c. addSat (mulSat n 10) (ucast ((of_char c :: 8 word) - 48))) 0 s"

lemma unat_digit_byte:
  "is_digit c \<Longrightarrow> unat (ucast ((of_char c :: 8 word) - 48) :: u64) = digit_val c"
proof -
  assume d: "is_digit c"
  then have r: "48 \<le> (of_char c :: nat)" "(of_char c :: nat) \<le> 57" by (auto simp: is_digit_def)
  have "unat (of_nat (of_char c) :: 8 word) = of_char c"
    using r by (simp only: unat_of_nat take_bit_eq_mod) simp
  then have u: "unat (of_char c :: 8 word) = of_char c"
    by (simp only: of_nat_of_char)
  then have "unat ((of_char c :: 8 word) - 48) = of_char c - 48"
    using r by (subst unat_sub) (auto simp: word_le_nat_alt)
  then show ?thesis
    using r by (simp add: unsigned_ucast_eq take_bit_eq_mod digit_val_def)
qed

lemma unat_decimalUint:
  "list_all is_digit s \<Longrightarrow> unat (decimalUint s) = min (nat_of_dec s) (2 ^ 64 - 1)"
proof (induction s rule: rev_induct)
  case (snoc c s)
  then have IH: "unat (decimalUint s) = min (nat_of_dec s) (2 ^ 64 - 1)" and c: "is_digit c"
    by auto
  have "decimalUint (s @ [c]) =
      addSat (mulSat (decimalUint s) 10) (ucast ((of_char c :: 8 word) - 48))"
    by (simp add: decimalUint_def)
  then show ?case
    using IH unat_digit_byte[OF c] by (auto simp: u64_unat min_def)
qed (simp add: decimalUint_def)

lemma canonicalDecimal_digits: "canonicalDecimal s \<Longrightarrow> list_all is_digit s"
  by (auto simp: canonicalDecimal_def split: if_splits)

subsection \<open>The language of a node\<close>

definition in_ranges :: "rune_range list \<Rightarrow> rune \<Rightarrow> bool" where
  "in_ranges rs c \<longleftrightarrow> (\<exists>r \<in> set rs. rLo r \<le> c \<and> c \<le> rHi r)"

definition repeat_hi :: "node_data \<Rightarrow> nat option" where
  "repeat_hi n = (if nUnbounded n then None else Some (nat_of_dec (nMax n)))"

text \<open>
  What the table means.  A node refers to other nodes only through a finite derivation, so the
  predicate is defined for every table, cyclic ones included.
\<close>
inductive plang :: "node_data list \<Rightarrow> nat \<Rightarrow> rune list \<Rightarrow> bool" for ns where
  epsilon: "nOp (ns ! i) = OpEpsilon \<Longrightarrow> plang ns i []"
| class_node: "nOp (ns ! i) = OpClass \<Longrightarrow> in_ranges (nRanges (ns ! i)) c \<Longrightarrow> plang ns i [c]"
| alternate_left: "nOp (ns ! i) = OpAlternate \<Longrightarrow> nChildren (ns ! i) = [a, b] \<Longrightarrow>
    plang ns a w \<Longrightarrow> plang ns i w"
| alternate_right: "nOp (ns ! i) = OpAlternate \<Longrightarrow> nChildren (ns ! i) = [a, b] \<Longrightarrow>
    plang ns b w \<Longrightarrow> plang ns i w"
| concat_node: "nOp (ns ! i) = OpConcat \<Longrightarrow> nChildren (ns ! i) = [a, b] \<Longrightarrow>
    plang ns a v \<Longrightarrow> plang ns b w \<Longrightarrow> plang ns i (v @ w)"
| repeat_node: "nOp (ns ! i) = OpRepeat \<Longrightarrow> nChildren (ns ! i) = [c] \<Longrightarrow>
    \<forall>w \<in> set ws. plang ns c w \<Longrightarrow> nat_of_dec (nMin (ns ! i)) \<le> length ws \<Longrightarrow>
    below (length ws) (repeat_hi (ns ! i)) \<Longrightarrow> plang ns i (concat ws)"

definition plangs :: "node_data list \<Rightarrow> nat \<Rightarrow> rune lang" where
  "plangs ns i = {w. plang ns i w}"

lemma plangs_empty: "nOp (ns ! i) = OpEmpty \<Longrightarrow> plangs ns i = {}"
  by (auto simp: plangs_def elim: plang.cases)

lemma plangs_epsilon: "nOp (ns ! i) = OpEpsilon \<Longrightarrow> plangs ns i = {[]}"
  by (auto simp: plangs_def elim: plang.cases intro: plang.intros)

lemma plangs_class:
  "nOp (ns ! i) = OpClass \<Longrightarrow> plangs ns i = {[c] | c. in_ranges (nRanges (ns ! i)) c}"
  by (auto simp: plangs_def elim: plang.cases intro: plang.intros)

lemma plangs_alternate:
  "nOp (ns ! i) = OpAlternate \<Longrightarrow> nChildren (ns ! i) = [a, b] \<Longrightarrow>
     plangs ns i = plangs ns a \<union> plangs ns b"
  by (auto simp: plangs_def elim: plang.cases intro: plang.intros)

lemma plangs_concat:
  "nOp (ns ! i) = OpConcat \<Longrightarrow> nChildren (ns ! i) = [a, b] \<Longrightarrow>
     plangs ns i = conc (plangs ns a) (plangs ns b)"
  by (auto simp: plangs_def conc_def intro: concat_node) (erule plang.cases; auto)

lemma plangs_repeat:
  assumes "nOp (ns ! i) = OpRepeat" "nChildren (ns ! i) = [c]"
  shows "plangs ns i = reps (plangs ns c) (nat_of_dec (nMin (ns ! i))) (repeat_hi (ns ! i))"
proof (intro equalityI subsetI)
  fix w assume "w \<in> plangs ns i"
  then have "plang ns i w" by (simp add: plangs_def)
  then show "w \<in> reps (plangs ns c) (nat_of_dec (nMin (ns ! i))) (repeat_hi (ns ! i))"
    using assms by cases (auto simp: plangs_def intro!: repsI)
next
  fix w assume "w \<in> reps (plangs ns c) (nat_of_dec (nMin (ns ! i))) (repeat_hi (ns ! i))"
  then obtain ws where "w = concat ws" "set ws \<subseteq> plangs ns c"
    "nat_of_dec (nMin (ns ! i)) \<le> length ws" "below (length ws) (repeat_hi (ns ! i))"
    by (auto elim: repsE)
  then show "w \<in> plangs ns i"
    using assms by (auto simp: plangs_def subset_iff intro!: repeat_node)
qed

lemmas plangs_node = plangs_empty plangs_epsilon plangs_class plangs_alternate plangs_concat
  plangs_repeat

subsection \<open>Validation of one node\<close>

definition arity :: "pop \<Rightarrow> nat" where
  "arity op = (case op of OpAlternate \<Rightarrow> 2 | OpConcat \<Rightarrow> 2 | OpRepeat \<Rightarrow> 1 | _ \<Rightarrow> 0)"

fun scalar_ranges :: "int \<Rightarrow> rune_range list \<Rightarrow> bool" where
  "scalar_ranges previous [] = True"
| "scalar_ranges previous (r # rs) =
     (if rLo r < 0 \<or> rHi r < rLo r \<or> rHi r > maxRune \<or> rLo r \<le> previous
         \<or> (rLo r \<le> 0xDFFF \<and> rHi r \<ge> 0xD800)
      then False else scalar_ranges (rHi r) rs)"

text \<open>The checks on one node after its storage has been charged, in the order of the code.\<close>
definition check_node :: "nat \<Rightarrow> node_data \<Rightarrow> pattern_error option" where
  "check_node count n =
     (if nOp n = OpClass \<and> nRanges n = []
        then Some (ConfigurationError ''empty class must use empty-language node'')
      else if (case nOp n of OpUnknown _ \<Rightarrow> True | _ \<Rightarrow> False)
        then Some (ConfigurationError ''unknown opcode'')
      else if length (nChildren n) \<noteq> arity (nOp n)
        then Some (ConfigurationError ''invalid node arity'')
      else if nOp n \<noteq> OpClass \<and> nRanges n \<noteq> []
        then Some (ConfigurationError ''ranges on non-class node'')
      else if nOp n \<noteq> OpRepeat \<and> (nMin n \<noteq> [] \<or> nMax n \<noteq> [] \<or> nUnbounded n)
        then Some (ConfigurationError ''bounds on non-repeat node'')
      else if nOp n = OpRepeat \<and>
          (\<not> canonicalDecimal (nMin n)
           \<or> (\<not> nUnbounded n \<and> (\<not> canonicalDecimal (nMax n) \<or> decimalCompare (nMin n) (nMax n) > 0))
           \<or> (nUnbounded n \<and> nMax n \<noteq> []))
        then Some (ConfigurationError ''invalid repetition bounds'')
      else if \<exists>c \<in> set (nChildren n). c \<ge> count
        then Some (ConfigurationError ''child index out of bounds'')
      else if \<not> scalar_ranges (-1) (nRanges n)
        then Some (ConfigurationError ''invalid scalar ranges'')
      else None)"

text \<open>The loop over the table, with its running totals.\<close>
fun check_nodes ::
  "restore_limits \<Rightarrow> nat \<Rightarrow> u64 \<Rightarrow> u64 \<Rightarrow> u64 \<Rightarrow> node_data list \<Rightarrow> ledger \<Rightarrow> pattern_error + ledger"
where
  "check_nodes l count edges ranges digits [] b = Inr b"
| "check_nodes l count edges ranges digits (n # ns) b =
     (let edges = addSat edges (len64 (nChildren n));
          ranges = addSat ranges (len64 (nRanges n));
          digits = addSat digits (of_nat (length (nMin n) + length (nMax n))) in
      case limitError ''restore'' ''validate'' ''edges'' (rEdges l) edges of Some e \<Rightarrow> Inl e | None \<Rightarrow>
      case limitError ''restore'' ''validate'' ''ranges'' (rRanges l) ranges of Some e \<Rightarrow> Inl e | None \<Rightarrow>
      case limitError ''restore'' ''validate'' ''digits'' (rDigits l) digits of Some e \<Rightarrow> Inl e | None \<Rightarrow>
      case charge
          (addSat (mulSat (len64 (nChildren n)) 8)
            (addSat (mulSat (len64 (nRanges n)) 16) (of_nat (length (nMin n) + length (nMax n)))))
          (addSat (of_nat (length (nChildren n) + length (nRanges n)))
            (mulSat (of_nat (length (nMin n) + length (nMax n))) 2)) b of
        (False, b) \<Rightarrow> Inl (the (lErr b))
      | (True, b) \<Rightarrow>
        (case check_node count n of
           Some e \<Rightarrow> Inl e
         | None \<Rightarrow> check_nodes l count edges ranges digits ns b))"

lemma check_nodes_ok:
  "check_nodes l count edges ranges digits ns b = Inr b' \<Longrightarrow> n \<in> set ns \<Longrightarrow> check_node count n = None"
  by (induction l count edges ranges digits ns b rule: check_nodes.induct)
    (auto simp: Let_def split: option.splits prod.splits bool.splits)

subsection \<open>The depth-first pass\<close>

text \<open>
  Node colours are 0 (not seen), 1 (on the stack) and 2 (done).  Every error ends
  \<open>Restore\<close>, so it is the whole result.
\<close>
record vstate =
  vColor :: "nat list"
  vNullable :: "bool list"
  vMinimum :: "u64 list"
  vBounds :: "repetition_bounds list"
  vDepths :: "u64 list"
  vLedger :: ledger

definition finish_node :: "node_data list \<Rightarrow> nat \<Rightarrow> vstate \<Rightarrow> pattern_error + vstate" where
  "finish_node ns i st =
     (let n = ns ! i in
      case nOp n of
        OpEmpty \<Rightarrow> Inr (st\<lparr>vMinimum := (vMinimum st)[i := maxU64]\<rparr>)
      | OpEpsilon \<Rightarrow> Inr (st\<lparr>vNullable := (vNullable st)[i := True]\<rparr>)
      | OpClass \<Rightarrow> Inr (st\<lparr>vMinimum := (vMinimum st)[i := 1]\<rparr>)
      | OpAlternate \<Rightarrow>
          (let a = nChildren n ! 0; z = nChildren n ! 1 in
           Inr (st\<lparr>vNullable := (vNullable st)[i := vNullable st ! a \<or> vNullable st ! z],
                   vMinimum := (vMinimum st)[i := min (vMinimum st ! a) (vMinimum st ! z)]\<rparr>))
      | OpConcat \<Rightarrow>
          (let a = nChildren n ! 0; z = nChildren n ! 1 in
           Inr (st\<lparr>vNullable := (vNullable st)[i := vNullable st ! a \<and> vNullable st ! z],
                   vMinimum := (vMinimum st)[i := addSat (vMinimum st ! a) (vMinimum st ! z)]\<rparr>))
      | OpRepeat \<Rightarrow>
          (let c = nChildren n ! 0 in
           if vNullable st ! c then Inl (ConfigurationError ''nullable repetition child'')
           else
             case charge 0 (of_nat (length (nMin n) + length (nMax n))) (vLedger st) of
               (False, b) \<Rightarrow> Inl (the (lErr b))
             | (True, b) \<Rightarrow>
                 (let bd = \<lparr>lower = decimalUint (nMin n), upper = decimalUint (nMax n)\<rparr> in
                  Inr (st\<lparr>vLedger := b,
                          vBounds := (vBounds st)[i := bd],
                          vNullable := (vNullable st)[i := nMin n = ''0''],
                          vMinimum := (vMinimum st)[i :=
                            (if nMin n = ''0'' then 0 else mulSat (lower bd) (vMinimum st ! c))]\<rparr>)))
      | OpUnknown _ \<Rightarrow> Inr st)"

text \<open>
  The recursion needs no colour argument to stop: every call goes one level deeper, and the
  depth check rejects a depth above the policy (or the saturated one).
\<close>
function (sequential) visit ::
    "node_data list \<Rightarrow> u64 \<Rightarrow> nat \<Rightarrow> u64 \<Rightarrow> vstate \<Rightarrow> pattern_error + vstate"
  and visit_children ::
    "node_data list \<Rightarrow> u64 \<Rightarrow> nat list \<Rightarrow> u64 \<Rightarrow> u64 \<Rightarrow> vstate \<Rightarrow> pattern_error + (u64 \<times> vstate)"
where
  "visit ns lim i depth st =
     (case limitError ''restore'' ''validate'' ''depth'' lim depth of
        Some e \<Rightarrow> Inl e
      | None \<Rightarrow>
        if vColor st ! i = 1 then Inl (ConfigurationError ''cyclic program'')
        else if vColor st ! i = 2 then
          (case limitError ''restore'' ''validate'' ''depth'' lim (addSat depth (vDepths st ! i) - 1) of
             Some e \<Rightarrow> Inl e | None \<Rightarrow> Inr st)
        else
          (case charge 0 1 (vLedger st) of
             (False, b) \<Rightarrow> Inl (the (lErr b))
           | (True, b) \<Rightarrow>
             (case visit_children ns lim (nChildren (ns ! i)) (depth + 1) 1
                     (st\<lparr>vLedger := b, vColor := (vColor st)[i := 1]\<rparr>) of
                Inl e \<Rightarrow> Inl e
              | Inr (height, st1) \<Rightarrow>
                (case finish_node ns i st1 of
                   Inl e \<Rightarrow> Inl e
                 | Inr st2 \<Rightarrow>
                     Inr (st2\<lparr>vColor := (vColor st2)[i := 2], vDepths := (vDepths st2)[i := height]\<rparr>)))))"
| "visit_children ns lim [] depth height st = Inr (height, st)"
| "visit_children ns lim (c # cs) depth height st =
     (case visit ns lim c depth st of
        Inl e \<Rightarrow> Inl e
      | Inr st1 \<Rightarrow> visit_children ns lim cs depth (max height (vDepths st1 ! c + 1)) st1)"
  by pat_completeness auto

lemma depth_step:
  "limitError ph s name lim depth = None \<Longrightarrow> 2 ^ 64 - unat (depth + 1) < 2 ^ 64 - unat depth"
proof -
  assume "limitError ph s name lim depth = None"
  then have "unat depth < 2 ^ 64 - 1" by (auto dest!: limitError_None_unat)
  then show ?thesis by (simp add: unat_word_ariths)
qed

termination visit
  by (relation "measures [\<lambda>x. case x of
        Inl (ns, lim, i, depth, st) \<Rightarrow> 2 ^ 64 - unat depth
      | Inr (ns, lim, cs, depth, h, st) \<Rightarrow> 2 ^ 64 - unat depth,
      \<lambda>x. case x of
        Inl (ns, lim, i, depth, st) \<Rightarrow> 0
      | Inr (ns, lim, cs, depth, h, st) \<Rightarrow> Suc (length cs)]")
    (auto dest: depth_step)

declare visit.simps [simp del]

fun visit_all :: "node_data list \<Rightarrow> u64 \<Rightarrow> nat list \<Rightarrow> vstate \<Rightarrow> pattern_error + vstate" where
  "visit_all ns lim [] st = Inr st"
| "visit_all ns lim (i # is) st =
     (case visit ns lim i 1 st of Inl e \<Rightarrow> Inl e | Inr st1 \<Rightarrow> visit_all ns lim is st1)"

definition vstate0 :: "nat \<Rightarrow> ledger \<Rightarrow> vstate" where
  "vstate0 n b = \<lparr>vColor = replicate n 0, vNullable = replicate n False, vMinimum = replicate n 0,
     vBounds = replicate n \<lparr>lower = 0, upper = 0\<rparr>, vDepths = replicate n 0, vLedger = b\<rparr>"

text \<open>
  \<open>RestoreWithLimits\<close> up to the construction of the program, with the ledger the optional
  native preparation goes on from.  Copying the metadata is the identity on values.
\<close>
definition restore_core ::
  "program_data \<Rightarrow> restore_limits \<Rightarrow> pattern_error + (program \<times> ledger)" where
  "restore_core d limits =
     (let l = restore_defaults limits;
          b = new_ledger ''restore'' ''validate'' (rBytes l) (rWork l);
          count = length (pNodes d) in
      if pVersion d \<noteq> FormatVersion \<or> count = 0 \<or> pRoot d \<ge> count
      then Inl (ConfigurationError ''invalid version, root, or empty node table'')
      else
        case limitError ''restore'' ''validate'' ''nodes'' (rNodes l) (of_nat count) of
          Some e \<Rightarrow> Inl e
        | None \<Rightarrow>
        (case charge (addSat (len64 (pSource d)) (mulSat (of_nat count) 272)) (of_nat count) b of
           (False, b) \<Rightarrow> Inl (the (lErr b))
         | (True, b) \<Rightarrow>
           (case check_nodes l count 0 0 0 (pNodes d) b of
              Inl e \<Rightarrow> Inl e
            | Inr b \<Rightarrow>
              (case visit_all (pNodes d) (rDepth l) [0..<count] (vstate0 count b) of
                 Inl e \<Rightarrow> Inl e
               | Inr st \<Rightarrow>
                   Inr (\<lparr>gData = d, gNullable = vNullable st, gMinimum = vMinimum st,
                         gBounds = vBounds st, gNative = None\<rparr>, vLedger st)))))"

end
