(* ===== verification/Pattern_Restore.thy ===== *)
theory Pattern_Restore
  imports Pattern_Program
begin

text \<open>
  What \<open>Restore\<close> establishes: decimal comparison is numeric comparison on canonical text, an
  accepted table is well formed and acyclic, and the three computed tables (acceptance of the
  empty word, shortest word, numeric bounds) agree with the language of every node.
\<close>

subsection \<open>Decimal text\<close>

lemma nat_of_dec_Cons: "nat_of_dec (c # s) = digit_val c * 10 ^ length s + nat_of_dec s"
proof (induction s rule: rev_induct)
  case (snoc d s)
  have "nat_of_dec (c # s @ [d]) = nat_of_dec ((c # s) @ [d])" by simp
  also have "\<dots> = nat_of_dec (c # s) * 10 + digit_val d" by (rule nat_of_dec_snoc)
  finally show ?case using snoc by (simp add: algebra_simps)
qed simp

lemma digit_val_pos: "is_digit c \<Longrightarrow> c \<noteq> CHR ''0'' \<Longrightarrow> 0 < digit_val c"
proof -
  assume d: "is_digit c" and n: "c \<noteq> CHR ''0''"
  have "(of_char c :: nat) \<noteq> of_char (CHR ''0'')" by (metis n of_char_eq_iff)
  moreover have "(of_char (CHR ''0'') :: nat) = 48" by simp
  ultimately have "(of_char c :: nat) \<noteq> 48" by simp
  with d show ?thesis by (auto simp: digit_val_def is_digit_def)
qed

lemma canonicalDecimal_pos:
  assumes "canonicalDecimal s" "s \<noteq> ''0''"
  shows "10 ^ (length s - 1) \<le> nat_of_dec s"
proof -
  from assms obtain c t where s: "s = c # t" by (cases s) (auto simp: canonicalDecimal_def)
  with assms have "is_digit c" "c \<noteq> CHR ''0''"
    by (auto simp: canonicalDecimal_def split: if_splits)
  then have "1 \<le> digit_val c" by (auto dest: digit_val_pos)
  then have "1 * 10 ^ length t \<le> digit_val c * 10 ^ length t" by (rule mult_le_mono1)
  with s show ?thesis by (simp add: nat_of_dec_Cons trans_le_add1)
qed

lemma canonicalDecimal_zero: "canonicalDecimal s \<Longrightarrow> nat_of_dec s = 0 \<longleftrightarrow> s = ''0''"
proof -
  assume c: "canonicalDecimal s"
  have "nat_of_dec ''0'' = 0" by (simp add: digit_val_def)
  moreover have "0 < nat_of_dec s" if "s \<noteq> ''0''"
    using canonicalDecimal_pos[OF c that] by (metis less_le_trans zero_less_power zero_less_numeral)
  ultimately show ?thesis by (metis less_not_refl)
qed

lemma string_compare_digits:
  "length a = length b \<Longrightarrow> list_all is_digit a \<Longrightarrow> list_all is_digit b \<Longrightarrow>
     (string_compare a b > 0 \<longleftrightarrow> nat_of_dec a > nat_of_dec b) \<and>
     (string_compare a b < 0 \<longleftrightarrow> nat_of_dec a < nat_of_dec b)"
proof (induction a b rule: list_induct2)
  case (Cons x xs y ys)
  have bx: "nat_of_dec xs < 10 ^ length ys" and bY: "nat_of_dec ys < 10 ^ length ys"
    using Cons nat_of_dec_bound[of xs] nat_of_dec_bound[of ys] by (auto simp: list_all_iff)
  have dx: "is_digit x" and dy: "is_digit y" using Cons.prems by auto
  have lead: "p * 10 ^ length ys + nat_of_dec us < q * 10 ^ length ys + nat_of_dec vs"
    if "p < q" "nat_of_dec us < 10 ^ length ys" for p q us vs
  proof -
    have "(p + 1) * 10 ^ length ys \<le> q * 10 ^ length ys" using that(1) by (intro mult_le_mono1) simp
    with that(2) show ?thesis by simp
  qed
  consider "(of_char x :: nat) < of_char y" | "(of_char x :: nat) > of_char y" | "x = y"
    by (metis linorder_neqE_nat of_char_eq_iff)
  then show ?case
  proof cases
    case 1
    then have "digit_val x < digit_val y" using dx dy by (auto simp: digit_val_def is_digit_def)
    from lead[OF this bx, of ys] 1 show ?thesis
      by (auto simp: nat_of_dec_Cons Cons.hyps)
  next
    case 2
    then have "digit_val y < digit_val x" using dx dy by (auto simp: digit_val_def is_digit_def)
    from lead[OF this bY, of xs] 2 show ?thesis
      by (auto simp: nat_of_dec_Cons Cons.hyps)
  next
    case 3
    with Cons show ?thesis by (simp add: nat_of_dec_Cons)
  qed
qed simp

lemma nat_of_dec_shorter:
  assumes "canonicalDecimal a" "canonicalDecimal b" "length a < length b"
  shows "nat_of_dec a < nat_of_dec b"
proof -
  have "b \<noteq> ''0''" using assms by (cases a) (auto simp: canonicalDecimal_def)
  then have "10 ^ (length b - 1) \<le> nat_of_dec b" using assms(2) by (rule canonicalDecimal_pos[rotated])
  moreover have "nat_of_dec a < 10 ^ length a"
    using canonicalDecimal_digits[OF assms(1)] by (intro nat_of_dec_bound) (simp add: list_all_iff)
  moreover have "(10 :: nat) ^ length a \<le> 10 ^ (length b - 1)"
    using assms(3) by (intro power_increasing) auto
  ultimately show ?thesis by linarith
qed

lemma decimalCompare_numeric:
  assumes "canonicalDecimal a" "canonicalDecimal b"
  shows "(decimalCompare a b > 0 \<longleftrightarrow> nat_of_dec a > nat_of_dec b) \<and>
         (decimalCompare a b < 0 \<longleftrightarrow> nat_of_dec a < nat_of_dec b)"
proof -
  consider "length a < length b" | "length b < length a" | "length a = length b" by linarith
  then show ?thesis
  proof cases
    case 1
    with nat_of_dec_shorter[OF assms 1] show ?thesis by (simp add: decimalCompare_def)
  next
    case 2
    with nat_of_dec_shorter[OF assms(2,1) 2] show ?thesis by (simp add: decimalCompare_def)
  next
    case 3
    with string_compare_digits[OF 3] assms show ?thesis
      by (simp add: decimalCompare_def canonicalDecimal_digits)
  qed
qed

subsection \<open>Well-formed tables\<close>

text \<open>A node is grounded when every path from it down the table ends.\<close>
inductive grounded :: "node_data list \<Rightarrow> nat \<Rightarrow> bool" for ns where
  groundedI: "(\<And>c. c \<in> set (nChildren (ns ! i)) \<Longrightarrow> grounded ns c) \<Longrightarrow> grounded ns i"

definition table_ok :: "node_data list \<Rightarrow> bool" where
  "table_ok ns \<longleftrightarrow> (\<forall>n \<in> set ns. check_node (length ns) n = None)"

lemma table_okD:
  assumes "table_ok ns" "i < length ns"
  shows "length (nChildren (ns ! i)) = arity (nOp (ns ! i))"
    and "c \<in> set (nChildren (ns ! i)) \<Longrightarrow> c < length ns"
    and "nOp (ns ! i) \<noteq> OpUnknown u"
    and "nOp (ns ! i) = OpClass \<Longrightarrow> nRanges (ns ! i) \<noteq> []"
    and "scalar_ranges (-1) (nRanges (ns ! i))"
  using assms(1)[unfolded table_ok_def, rule_format, OF nth_mem[OF assms(2)]]
  by (auto simp: check_node_def not_le split: if_splits)

lemma table_ok_repeat:
  assumes "table_ok ns" "i < length ns" "nOp (ns ! i) = OpRepeat"
  shows "canonicalDecimal (nMin (ns ! i))"
    and "\<not> nUnbounded (ns ! i) \<Longrightarrow> canonicalDecimal (nMax (ns ! i))"
    and "\<not> nUnbounded (ns ! i) \<Longrightarrow> nat_of_dec (nMin (ns ! i)) \<le> nat_of_dec (nMax (ns ! i))"
  using assms(1)[unfolded table_ok_def, rule_format, OF nth_mem[OF assms(2)]] assms(3)
    decimalCompare_numeric[of "nMin (ns ! i)" "nMax (ns ! i)"]
  by (auto simp: check_node_def not_less split: if_splits)

lemma table_ok_children:
  assumes "table_ok ns" "i < length ns"
  shows "nOp (ns ! i) \<in> {OpAlternate, OpConcat} \<Longrightarrow>
      nChildren (ns ! i) = [nChildren (ns ! i) ! 0, nChildren (ns ! i) ! 1]"
    and "nOp (ns ! i) = OpRepeat \<Longrightarrow> nChildren (ns ! i) = [nChildren (ns ! i) ! 0]"
    and "nOp (ns ! i) \<in> {OpEmpty, OpEpsilon, OpClass} \<Longrightarrow> nChildren (ns ! i) = []"
  using table_okD(1)[OF assms]
  by (auto simp: arity_def length_Suc_conv eval_nat_numeral)

subsection \<open>What the pass has established for a finished node\<close>

definition done_ok :: "node_data list \<Rightarrow> vstate \<Rightarrow> nat \<Rightarrow> bool" where
  "done_ok ns st i \<longleftrightarrow>
     (\<forall>c \<in> set (nChildren (ns ! i)). vColor st ! c = 2) \<and>
     grounded ns i \<and>
     (vNullable st ! i \<longleftrightarrow> [] \<in> plangs ns i) \<and>
     (\<forall>w \<in> plangs ns i. unat (vMinimum st ! i) \<le> length w) \<and>
     (vMinimum st ! i = 0 \<longleftrightarrow> vNullable st ! i) \<and>
     (nOp (ns ! i) = OpRepeat \<longrightarrow>
        \<not> vNullable st ! (nChildren (ns ! i) ! 0) \<and>
        vBounds st ! i = \<lparr>lower = decimalUint (nMin (ns ! i)), upper = decimalUint (nMax (ns ! i))\<rparr> \<and>
        vMinimum st ! i = (if nMin (ns ! i) = ''0'' then 0
          else mulSat (decimalUint (nMin (ns ! i))) (vMinimum st ! (nChildren (ns ! i) ! 0))))"

definition fresh :: "vstate \<Rightarrow> nat \<Rightarrow> bool" where
  "fresh st i \<longleftrightarrow> vColor st ! i \<le> 1 \<and> \<not> vNullable st ! i \<and> vMinimum st ! i = 0"

definition vinv :: "node_data list \<Rightarrow> vstate \<Rightarrow> bool" where
  "vinv ns st \<longleftrightarrow>
     length (vColor st) = length ns \<and> length (vNullable st) = length ns \<and>
     length (vMinimum st) = length ns \<and> length (vBounds st) = length ns \<and>
     length (vDepths st) = length ns \<and>
     (\<forall>i < length ns. if vColor st ! i = 2 then done_ok ns st i else fresh st i)"

text \<open>Nothing already seen changes, and what is newly seen is finished.\<close>
definition stable :: "node_data list \<Rightarrow> vstate \<Rightarrow> vstate \<Rightarrow> bool" where
  "stable ns st st' \<longleftrightarrow> (\<forall>j < length ns.
     (vColor st ! j \<noteq> 0 \<longrightarrow> vColor st' ! j = vColor st ! j) \<and>
     (vColor st ! j = 0 \<longrightarrow> vColor st' ! j = 0 \<or> vColor st' ! j = 2))"

lemma stable_refl [simp]: "stable ns st st"
  by (simp add: stable_def)

lemma stable_trans: "stable ns a b \<Longrightarrow> stable ns b c \<Longrightarrow> stable ns a c"
  unfolding stable_def by (metis zero_neq_numeral)

lemma stable_done: "stable ns st st' \<Longrightarrow> j < length ns \<Longrightarrow> vColor st ! j = 2 \<Longrightarrow> vColor st' ! j = 2"
  by (simp add: stable_def)

text \<open>The facts the finishing step relies on: the children are done, the node itself is untouched.\<close>

lemma addSat_eq_0: "addSat a b = 0 \<longleftrightarrow> a = 0 \<and> b = 0"
  by (auto simp: unat_eq_0[symmetric] u64_unat min_def simp del: unat_eq_0)

lemma mulSat_eq_0: "mulSat a b = 0 \<longleftrightarrow> a = 0 \<or> b = 0"
  by (auto simp: unat_eq_0[symmetric] u64_unat min_def simp del: unat_eq_0 intro: Nat.gr0I)

lemma min_eq_0: "min a b = (0 :: u64) \<longleftrightarrow> a = 0 \<or> b = 0"
  by (auto simp: min_def)

lemma unat_min: "unat (min a b :: u64) = min (unat a) (unat b)"
  by (auto simp: min_def word_le_nat_alt)

lemma conc_min_length:
  assumes "\<And>w. w \<in> A \<Longrightarrow> unat m \<le> length w" "\<And>w. w \<in> B \<Longrightarrow> unat n \<le> length w" "v \<in> conc A B"
  shows "unat (addSat m n) \<le> length v"
proof -
  from assms(3) obtain x y where v: "v = x @ y" "x \<in> A" "y \<in> B" by (rule concE)
  have "unat m + unat n \<le> length v" using v assms(1)[of x] assms(2)[of y] by simp
  then show ?thesis by (simp add: unat_addSat min_def)
qed

lemma reps_min_length:
  assumes "\<And>w. w \<in> A \<Longrightarrow> unat m \<le> length w" "unat k \<le> lo" "v \<in> reps A lo hi"
  shows "unat (mulSat k m) \<le> length v"
proof -
  have "unat k * unat m \<le> lo * unat m" using assms(2) by simp
  also have "\<dots> \<le> length v" using assms(1,3) by (rule reps_length)
  finally show ?thesis by (simp add: unat_mulSat min_def)
qed

text \<open>
  One node after its children: the three values the code stores are right for its language.
\<close>
lemma finish_node_value:
  assumes tab: "table_ok ns" and i: "i < length ns" and inv: "vinv ns st" and fr: "vColor st ! i \<noteq> 2"
    and kids: "\<forall>c \<in> set (nChildren (ns ! i)). vColor st ! c = 2"
    and fin: "finish_node ns i st = Inr st2"
  shows "(vNullable st2 ! i \<longleftrightarrow> [] \<in> plangs ns i) \<and>
     (\<forall>w \<in> plangs ns i. unat (vMinimum st2 ! i) \<le> length w) \<and>
     (vMinimum st2 ! i = 0 \<longleftrightarrow> vNullable st2 ! i) \<and>
     (nOp (ns ! i) = OpRepeat \<longrightarrow>
        \<not> vNullable st ! (nChildren (ns ! i) ! 0) \<and>
        vBounds st2 ! i = \<lparr>lower = decimalUint (nMin (ns ! i)), upper = decimalUint (nMax (ns ! i))\<rparr> \<and>
        vMinimum st2 ! i = (if nMin (ns ! i) = ''0'' then 0
          else mulSat (decimalUint (nMin (ns ! i))) (vMinimum st ! (nChildren (ns ! i) ! 0))))"
proof -
  have len: "i < length (vNullable st)" "i < length (vMinimum st)" "i < length (vBounds st)"
    using inv i by (simp_all add: vinv_def)
  have fresh: "\<not> vNullable st ! i" "vMinimum st ! i = 0"
    using inv i fr by (auto simp: vinv_def fresh_def)
  have kid: "(vNullable st ! c \<longleftrightarrow> [] \<in> plangs ns c)" "\<And>w. w \<in> plangs ns c \<Longrightarrow> unat (vMinimum st ! c) \<le> length w"
    "(vMinimum st ! c = 0 \<longleftrightarrow> vNullable st ! c)" if "c \<in> set (nChildren (ns ! i))" for c
    using that inv kids table_okD(2)[OF tab i that] by (auto simp: vinv_def done_ok_def)
  note two = table_ok_children(1)[OF tab i] and one = table_ok_children(2)[OF tab i]
  show ?thesis
  proof (cases "nOp (ns ! i)")
    case OpEmpty
    with fin len fresh show ?thesis by (auto simp: finish_node_def Let_def plangs_empty)
  next
    case OpEpsilon
    with fin len fresh show ?thesis by (auto simp: finish_node_def Let_def plangs_epsilon)
  next
    case OpClass
    with fin len fresh show ?thesis by (auto simp: finish_node_def Let_def plangs_class)
  next
    case OpAlternate
    define a z where "a = nChildren (ns ! i) ! 0" and "z = nChildren (ns ! i) ! 1"
    have az: "nChildren (ns ! i) = [a, z]" using two OpAlternate by (simp add: a_def z_def)
    then have "a \<in> set (nChildren (ns ! i))" "z \<in> set (nChildren (ns ! i))" by auto
    note ka = kid[OF this(1)] and kz = kid[OF this(2)]
    from fin OpAlternate len az ka kz show ?thesis
      by (auto simp: finish_node_def Let_def plangs_alternate[OF OpAlternate az] min_eq_0 unat_min
          min_le_iff_disj)
  next
    case OpConcat
    define a z where "a = nChildren (ns ! i) ! 0" and "z = nChildren (ns ! i) ! 1"
    have az: "nChildren (ns ! i) = [a, z]" using two OpConcat by (simp add: a_def z_def)
    then have "a \<in> set (nChildren (ns ! i))" "z \<in> set (nChildren (ns ! i))" by auto
    note ka = kid[OF this(1)] and kz = kid[OF this(2)]
    from fin OpConcat len az ka kz show ?thesis
      by (auto simp: finish_node_def Let_def plangs_concat[OF OpConcat az] addSat_eq_0
          simp del: concE intro!: conc_min_length[of "plangs ns a" _ "plangs ns z"])
  next
    case OpRepeat
    define c where "c = nChildren (ns ! i) ! 0"
    have c: "nChildren (ns ! i) = [c]" using one OpRepeat by (simp add: c_def)
    then have "c \<in> set (nChildren (ns ! i))" by simp
    note kc = kid[OF this]
    have canon: "canonicalDecimal (nMin (ns ! i))" using table_ok_repeat(1)[OF tab i OpRepeat] .
    have lo: "unat (decimalUint (nMin (ns ! i))) = min (nat_of_dec (nMin (ns ! i))) (2 ^ 64 - 1)"
      using canon by (intro unat_decimalUint canonicalDecimal_digits)
    have z: "nMin (ns ! i) = ''0'' \<longleftrightarrow> nat_of_dec (nMin (ns ! i)) = 0"
      using canonicalDecimal_zero[OF canon] by simp
    have lz: "decimalUint (nMin (ns ! i)) = 0 \<longleftrightarrow> nat_of_dec (nMin (ns ! i)) = 0"
      using lo by (auto simp: unat_eq_0[symmetric] min_def simp del: unat_eq_0 split: if_splits)
    from fin OpRepeat c obtain b where nn: "\<not> vNullable st ! c"
      and st2: "st2 = st\<lparr>vLedger := b,
          vBounds := (vBounds st)[i := \<lparr>lower = decimalUint (nMin (ns ! i)), upper = decimalUint (nMax (ns ! i))\<rparr>],
          vNullable := (vNullable st)[i := nMin (ns ! i) = ''0''],
          vMinimum := (vMinimum st)[i := (if nMin (ns ! i) = ''0'' then 0
             else mulSat (decimalUint (nMin (ns ! i))) (vMinimum st ! c))]\<rparr>"
      by (auto simp: finish_node_def Let_def split: if_splits prod.splits bool.splits)
    have nc: "[] \<notin> plangs ns c" using nn kc by simp
    have nul: "vNullable st2 ! i \<longleftrightarrow> [] \<in> plangs ns i"
      using len z by (simp add: st2 plangs_repeat[OF OpRepeat c] Nil_in_reps[OF nc])
    have mn: "unat (vMinimum st2 ! i) \<le> length w" if "w \<in> plangs ns i" for w
    proof -
      from that have "w \<in> reps (plangs ns c) (nat_of_dec (nMin (ns ! i))) (repeat_hi (ns ! i))"
        by (simp add: plangs_repeat[OF OpRepeat c])
      from reps_min_length[OF kc(2) _ this, of "decimalUint (nMin (ns ! i))"] lo
      show ?thesis using len by (simp add: st2)
    qed
    have "vMinimum st2 ! i = 0 \<longleftrightarrow> vNullable st2 ! i"
      using len z lz nn kc by (auto simp: st2 mulSat_eq_0)
    with nul mn nn c len show ?thesis by (simp add: st2)
  next
    case (OpUnknown u)
    with table_okD(3)[OF tab i] show ?thesis by blast
  qed
qed

text \<open>The finishing step writes one row of each table and leaves colours and depths alone.\<close>

lemma finish_node_frame:
  assumes "finish_node ns i st = Inr st2"
  shows "vColor st2 = vColor st \<and> vDepths st2 = vDepths st \<and>
     length (vNullable st2) = length (vNullable st) \<and> length (vMinimum st2) = length (vMinimum st) \<and>
     length (vBounds st2) = length (vBounds st) \<and>
     (\<forall>j. j \<noteq> i \<longrightarrow> vNullable st2 ! j = vNullable st ! j \<and> vMinimum st2 ! j = vMinimum st ! j
        \<and> vBounds st2 ! j = vBounds st ! j)"
  using assms
  by (auto simp: finish_node_def Let_def split: pop.splits if_splits prod.splits bool.splits)

definition close_node :: "nat \<Rightarrow> u64 \<Rightarrow> vstate \<Rightarrow> vstate" where
  "close_node i height st = st\<lparr>vColor := (vColor st)[i := 2], vDepths := (vDepths st)[i := height]\<rparr>"

lemma finish_node_inv:
  assumes tab: "table_ok ns" and i: "i < length ns" and inv: "vinv ns st" and gray: "vColor st ! i = 1"
    and kids: "\<forall>c \<in> set (nChildren (ns ! i)). vColor st ! c = 2"
    and fin: "finish_node ns i st = Inr st2"
  shows "vinv ns (close_node i h st2)"
proof -
  define st3 where "st3 = close_node i h st2"
  note fr = finish_node_frame[OF fin]
  have len: "length (vColor st) = length ns" using inv by (simp add: vinv_def)
  have col: "vColor st3 ! j = (if j = i then 2 else vColor st ! j)" if "j < length ns" for j
    using that fr len i by (simp add: st3_def close_node_def)
  have same: "vNullable st3 ! j = vNullable st ! j" "vMinimum st3 ! j = vMinimum st ! j"
    "vBounds st3 ! j = vBounds st ! j" if "j \<noteq> i" for j
    using that fr by (simp_all add: st3_def close_node_def)
  have kid_lt: "c < length ns" if "j < length ns" "c \<in> set (nChildren (ns ! j))" for j c
    using table_okD(2)[OF tab that] .
  have done_i: "done_ok ns st3 i"
  proof -
    have g: "grounded ns i"
    proof (rule groundedI)
      fix c assume c: "c \<in> set (nChildren (ns ! i))"
      with kids have "vColor st ! c = 2" by simp
      with inv kid_lt[OF i c] show "grounded ns c" by (auto simp: vinv_def done_ok_def)
    qed
    have ne: "c \<noteq> i" if "c \<in> set (nChildren (ns ! i))" for c
      using that kids gray by auto
    have head: "nChildren (ns ! i) ! 0 \<in> set (nChildren (ns ! i))" if "nOp (ns ! i) = OpRepeat"
      using table_ok_children(2)[OF tab i that] by (metis list.set_intros(1))
    have "vColor st3 ! c = 2" if "c \<in> set (nChildren (ns ! i))" for c
      using that kids col[OF kid_lt[OF i that]] by simp
    moreover have "vNullable st3 ! i = vNullable st2 ! i" "vMinimum st3 ! i = vMinimum st2 ! i"
      "vBounds st3 ! i = vBounds st2 ! i"
      by (simp_all add: st3_def close_node_def)
    ultimately show ?thesis
      using finish_node_value[OF tab i inv _ kids fin] gray g same(1,2)[OF ne[OF head]]
      by (auto simp: done_ok_def)
  qed
  have "if vColor st3 ! j = 2 then done_ok ns st3 j else fresh st3 j" if j: "j < length ns" for j
  proof (cases "j = i")
    case True
    with done_i col i show ?thesis by simp
  next
    case False
    have inv_j: "if vColor st ! j = 2 then done_ok ns st j else fresh st j"
      using inv j by (simp add: vinv_def)
    show ?thesis
    proof (cases "vColor st ! j = 2")
      case True
      with inv_j have d: "done_ok ns st j" by simp
      have black: "vColor st ! c = 2" if "c \<in> set (nChildren (ns ! j))" for c
        using d that by (simp add: done_ok_def)
      have ne: "c \<noteq> i" if "c \<in> set (nChildren (ns ! j))" for c
        using black[OF that] gray by auto
      have head: "nChildren (ns ! j) ! 0 \<in> set (nChildren (ns ! j))" if "nOp (ns ! j) = OpRepeat"
        using table_ok_children(2)[OF tab j that] by (metis list.set_intros(1))
      have "done_ok ns st3 j"
        using d same[OF False] same(1,2)[OF ne[OF head]] black col kid_lt[OF j]
        by (auto simp: done_ok_def)
      with True col[OF j] False show ?thesis by simp
    next
      case notblack: False
      with inv_j same[OF False] col[OF j] False show ?thesis by (simp add: fresh_def)
    qed
  qed
  moreover have "length (vColor st3) = length ns \<and> length (vNullable st3) = length ns \<and>
     length (vMinimum st3) = length ns \<and> length (vBounds st3) = length ns \<and> length (vDepths st3) = length ns"
    using inv fr by (simp add: st3_def close_node_def vinv_def)
  ultimately show ?thesis unfolding st3_def[symmetric] vinv_def by blast
qed

lemma stable_close:
  assumes "finish_node ns i st = Inr st2" "vColor st ! i \<noteq> 2" "length (vColor st) = length ns" "i < length ns"
  shows "vColor (close_node i h st2) ! i = 2"
    and "j \<noteq> i \<Longrightarrow> vColor (close_node i h st2) ! j = vColor st ! j"
  using finish_node_frame[OF assms(1)] assms by (simp_all add: close_node_def)

lemma vinv_gray:
  assumes "vinv ns st" "i < length ns" "vColor st ! i = 0"
  shows "vinv ns (st\<lparr>vLedger := b, vColor := (vColor st)[i := 1]\<rparr>)" (is "vinv ns ?st1")
proof -
  have len: "length (vColor st) = length ns" using assms(1) by (simp add: vinv_def)
  have keep: "vColor ?st1 ! c = 2" if "vColor st ! c = 2" for c
    using that assms(3) len assms(2) by (cases "c = i") auto
  have "if vColor ?st1 ! j = 2 then done_ok ns ?st1 j else fresh ?st1 j" if j: "j < length ns" for j
  proof (cases "vColor st ! j = 2")
    case True
    then have "done_ok ns st j" using assms(1) j by (auto simp: vinv_def split: if_splits)
    then have "done_ok ns ?st1 j" using keep by (auto simp: done_ok_def)
    with keep[OF True] show ?thesis by simp
  next
    case False
    then have "fresh st j" using assms(1) j by (auto simp: vinv_def split: if_splits)
    then have "fresh ?st1 j" "vColor ?st1 ! j \<noteq> 2"
      using len j False by (cases "j = i"; simp add: fresh_def)+
    then show ?thesis by simp
  qed
  moreover have "length (vColor ?st1) = length ns \<and> length (vNullable ?st1) = length ns \<and>
     length (vMinimum ?st1) = length ns \<and> length (vBounds ?st1) = length ns \<and>
     length (vDepths ?st1) = length ns"
    using assms(1) by (simp add: vinv_def)
  ultimately show ?thesis unfolding vinv_def by blast
qed

lemma visit_both_inv:
  assumes tab: "table_ok ns"
  shows visit_inv: "vinv ns st \<Longrightarrow> i < length ns \<Longrightarrow> visit ns lim i depth st = Inr st' \<Longrightarrow>
      vinv ns st' \<and> stable ns st st' \<and> vColor st' ! i = 2"
    and visit_children_inv: "vinv ns st \<Longrightarrow> \<forall>c \<in> set cs. c < length ns \<Longrightarrow>
      visit_children ns lim cs depth h st = Inr (h', st') \<Longrightarrow>
      vinv ns st' \<and> stable ns st st' \<and> (\<forall>c \<in> set cs. vColor st' ! c = 2)"
  using tab
proof (induction ns lim i depth st and ns lim cs depth h st arbitrary: st' and h' st'
    rule: visit_visit_children.induct)
  case (1 ns lim i depth st)
  note inv = "1.prems"(1) and i = "1.prems"(2) and tab = "1.prems"(4)
  from "1.prems"(3) have lim_ok: "limitError ''restore'' ''validate'' ''depth'' lim depth = None"
    and not1: "vColor st ! i \<noteq> 1"
    by (auto simp: visit.simps[of ns lim i] split: option.splits if_splits)
  show ?case
  proof (cases "vColor st ! i = 2")
    case True
    with "1.prems"(3) lim_ok have "st' = st"
      by (auto simp: visit.simps[of ns lim i] split: option.splits)
    with True inv show ?thesis by simp
  next
    case not2: False
    with not1 inv i have zero: "vColor st ! i = 0" by (auto simp: vinv_def fresh_def)
    from "1.prems"(3) lim_ok not1 not2 obtain b height st1 st2 where
      ch: "charge 0 1 (vLedger st) = (True, b)"
      and kids: "visit_children ns lim (nChildren (ns ! i)) (depth + 1) 1
          (st\<lparr>vLedger := b, vColor := (vColor st)[i := 1]\<rparr>) = Inr (height, st1)"
      and fin: "finish_node ns i st1 = Inr st2"
      and st': "st' = close_node i height st2"
      by (auto simp: visit.simps[of ns lim i] close_node_def
          split: option.splits if_splits prod.splits bool.splits sum.splits)
    define st0 where "st0 = st\<lparr>vLedger := b, vColor := (vColor st)[i := 1]\<rparr>"
    have inv0: "vinv ns st0" unfolding st0_def using inv i zero by (rule vinv_gray)
    have kin: "\<forall>c \<in> set (nChildren (ns ! i)). c < length ns" using table_okD(2)[OF tab i] by blast
    from "1.IH"[OF lim_ok not1 not2 ch[symmetric] refl inv0[unfolded st0_def] kin kids tab]
    have inv1: "vinv ns st1" and stab: "stable ns st0 st1"
      and black: "\<forall>c \<in> set (nChildren (ns ! i)). vColor st1 ! c = 2"
      by (auto simp: st0_def)
    have len: "length (vColor st) = length ns" "length (vColor st1) = length ns"
      using inv inv1 by (simp_all add: vinv_def)
    have gray: "vColor st1 ! i = 1"
      using stab i len by (simp add: stable_def st0_def)
    have inv': "vinv ns st'" unfolding st' using finish_node_inv[OF tab i inv1 gray black fin] .
    have ne2: "vColor st1 ! i \<noteq> 2" using gray by simp
    note cl = stable_close[OF fin ne2 len(2) i]
    have "stable ns st st'"
      unfolding stable_def st'
    proof (intro allI impI)
      fix j assume j: "j < length ns"
      show "(vColor st ! j \<noteq> 0 \<longrightarrow> vColor (close_node i height st2) ! j = vColor st ! j) \<and>
        (vColor st ! j = 0 \<longrightarrow>
           vColor (close_node i height st2) ! j = 0 \<or> vColor (close_node i height st2) ! j = 2)"
      proof (cases "j = i")
        case True
        with zero cl show ?thesis by simp
      next
        case False
        then have "vColor st0 ! j = vColor st ! j" by (simp add: st0_def)
        with stab j False cl(2)[OF False] show ?thesis by (auto simp: stable_def)
      qed
    qed
    with inv' cl(1) show ?thesis by (simp add: st')
  qed
next
  case (2 ns lim depth h st)
  then show ?case by simp
next
  case (3 ns lim c cs depth h st)
  from "3.prems"(3) obtain st1 where v: "visit ns lim c depth st = Inr st1"
    and vc: "visit_children ns lim cs depth (max h (vDepths st1 ! c + 1)) st1 = Inr (h', st')"
    by (auto split: sum.splits)
  from "3.prems" have c: "c < length ns" and cs: "\<forall>c \<in> set cs. c < length ns" by auto
  from "3.IH"(1)[OF "3.prems"(1) c v "3.prems"(4)]
  have 1: "vinv ns st1" "stable ns st st1" "vColor st1 ! c = 2" by auto
  from "3.IH"(2)[OF v 1(1) cs vc "3.prems"(4)]
  have 2: "vinv ns st'" "stable ns st1 st'" "\<forall>c \<in> set cs. vColor st' ! c = 2" by auto
  from stable_trans[OF 1(2) 2(2)] stable_done[OF 2(2) c 1(3)] 2 show ?case by simp
qed

lemma visit_all_inv:
  assumes "table_ok ns" "vinv ns st" "\<forall>i \<in> set is. i < length ns" "visit_all ns lim is st = Inr st'"
  shows "vinv ns st' \<and> stable ns st st' \<and> (\<forall>i \<in> set is. vColor st' ! i = 2)"
  using assms(2-)
proof (induction "is" arbitrary: st)
  case Nil
  then show ?case by simp
next
  case (Cons i "is")
  from Cons.prems(3) obtain st1 where v: "visit ns lim i 1 st = Inr st1"
    and va: "visit_all ns lim is st1 = Inr st'"
    by (auto split: sum.splits)
  from Cons.prems(2) have i: "i < length ns" and "is": "\<forall>i \<in> set is. i < length ns" by auto
  from visit_inv[OF assms(1) Cons.prems(1) i v]
  have 1: "vinv ns st1" "stable ns st st1" "vColor st1 ! i = 2" by auto
  from Cons.IH[OF 1(1) "is" va]
  have 2: "vinv ns st'" "stable ns st1 st'" "\<forall>i \<in> set is. vColor st' ! i = 2" by auto
  from stable_trans[OF 1(2) 2(2)] stable_done[OF 2(2) i 1(3)] 2 show ?case by simp
qed

lemma vinv_start: "vinv ns (vstate0 (length ns) b)"
  by (simp add: vinv_def vstate0_def fresh_def)

subsection \<open>Restored programs\<close>

text \<open>
  The contract of a program that \<open>Restore\<close> has accepted: every node of the table is
  well formed and grounded, and the tables of the program are right for it.
\<close>
definition program_ok :: "program \<Rightarrow> bool" where
  "program_ok p \<longleftrightarrow>
     (let ns = pNodes (gData p) in
      table_ok ns \<and> pRoot (gData p) < length ns \<and>
      length (gNullable p) = length ns \<and> length (gMinimum p) = length ns \<and> length (gBounds p) = length ns \<and>
      (\<forall>i < length ns.
         grounded ns i \<and>
         (gNullable p ! i \<longleftrightarrow> [] \<in> plangs ns i) \<and>
         (\<forall>w \<in> plangs ns i. unat (gMinimum p ! i) \<le> length w) \<and>
         (gMinimum p ! i = 0 \<longleftrightarrow> gNullable p ! i) \<and>
         (nOp (ns ! i) = OpRepeat \<longrightarrow>
            \<not> gNullable p ! (nChildren (ns ! i) ! 0) \<and>
            gBounds p ! i = \<lparr>lower = decimalUint (nMin (ns ! i)), upper = decimalUint (nMax (ns ! i))\<rparr> \<and>
            gMinimum p ! i = (if nMin (ns ! i) = ''0'' then 0
              else mulSat (decimalUint (nMin (ns ! i))) (gMinimum p ! (nChildren (ns ! i) ! 0))))))"

lemma program_okD:
  assumes "program_ok p" "i < length (pNodes (gData p))"
  shows "grounded (pNodes (gData p)) i"
    and "gNullable p ! i \<longleftrightarrow> [] \<in> plangs (pNodes (gData p)) i"
    and "w \<in> plangs (pNodes (gData p)) i \<Longrightarrow> unat (gMinimum p ! i) \<le> length w"
    and "gMinimum p ! i = 0 \<longleftrightarrow> gNullable p ! i"
    and "nOp (pNodes (gData p) ! i) = OpRepeat \<Longrightarrow> \<not> gNullable p ! (nChildren (pNodes (gData p) ! i) ! 0)"
    and "nOp (pNodes (gData p) ! i) = OpRepeat \<Longrightarrow> gBounds p ! i =
      \<lparr>lower = decimalUint (nMin (pNodes (gData p) ! i)), upper = decimalUint (nMax (pNodes (gData p) ! i))\<rparr>"
    and "nOp (pNodes (gData p) ! i) = OpRepeat \<Longrightarrow> gMinimum p ! i =
      (if nMin (pNodes (gData p) ! i) = ''0'' then 0
       else mulSat (decimalUint (nMin (pNodes (gData p) ! i))) (gMinimum p ! (nChildren (pNodes (gData p) ! i) ! 0)))"
  using assms by (auto simp: program_ok_def Let_def)

lemma program_ok_table: "program_ok p \<Longrightarrow> table_ok (pNodes (gData p))"
  by (simp add: program_ok_def Let_def)

lemma program_ok_root: "program_ok p \<Longrightarrow> pRoot (gData p) < length (pNodes (gData p))"
  by (simp add: program_ok_def Let_def)

lemma restore_core_ok:
  assumes "restore_core d limits = Inr (p, b)"
  shows "program_ok p \<and> gData p = d"
proof -
  define l where "l = restore_defaults limits"
  define ns where "ns = pNodes d"
  from assms obtain b1 b2 st where
    root: "pRoot d < length ns" and
    nodes: "check_nodes l (length ns) 0 0 0 ns b1 = Inr b2" and
    vis: "visit_all ns (rDepth l) [0..<length ns] (vstate0 (length ns) b2) = Inr st" and
    p: "p = \<lparr>gData = d, gNullable = vNullable st, gMinimum = vMinimum st, gBounds = vBounds st, gNative = None\<rparr>"
    by (auto simp: restore_core_def Let_def l_def ns_def
        split: if_splits option.splits prod.splits bool.splits sum.splits)
  have tab: "table_ok ns"
    using check_nodes_ok[OF nodes] by (simp add: table_ok_def)
  from visit_all_inv[OF tab vinv_start _ vis]
  have inv: "vinv ns st" and black: "\<forall>i < length ns. vColor st ! i = 2"
    by auto
  then have "done_ok ns st i" if "i < length ns" for i
    using that by (auto simp: vinv_def split: if_splits)
  with inv tab root show ?thesis
    by (simp add: program_ok_def p Let_def vinv_def done_ok_def flip: ns_def)
qed

end
