(* ===== verification/Pattern_Derivative.thy ===== *)
theory Pattern_Derivative
  imports Pattern_Restore "HOL-Library.AList"
begin

text \<open>
  The derivative engine (\<open>go/yangpattern/runtime_derivative.go\<close>): an arena of hash-consed
  residual languages, its smart constructors \<open>seq\<close>, \<open>rep\<close> and \<open>alt\<close>, and the memoised
  derivative.  Every operation passes the arena on; a charge the ledger refuses leaves an error
  in it, and the result of an operation means something only while there is none.  The depth
  counter of the code is restored by a \<open>defer\<close> on every exit, so here it is an argument.
  The transition map is an association list without duplicate keys, because its size is checked.
\<close>

subsection \<open>Data\<close>

record residual =
  sOp :: pop
  sA :: nat
  sB :: nat
  sLo :: int
  sHi :: int
  sNullable :: bool

definition residual0 :: residual where
  "residual0 = \<lparr>sOp = OpEmpty, sA = 0, sB = 0, sLo = 0, sHi = 0, sNullable = False\<rparr>"

record arena =
  aNodes :: "residual list"
  aIntern :: "residual \<rightharpoonup> nat"
  aTransitions :: "((nat \<times> int) \<times> nat) list"
  aEndpoints :: "rune list"
  aProgram :: program
  aLimits :: match_limits
  aLedger :: ledger

abbreviation aErr :: "arena \<Rightarrow> pattern_error option" where
  "aErr a \<equiv> lErr (aLedger a)"

definition aCharge :: "u64 \<Rightarrow> u64 \<Rightarrow> arena \<Rightarrow> bool \<times> arena" where
  "aCharge bytes work a =
     (let (ok, b) = charge bytes work (aLedger a) in (ok, a\<lparr>aLedger := b\<rparr>))"

definition aFail :: "pattern_error \<Rightarrow> arena \<Rightarrow> arena" where
  "aFail e a = a\<lparr>aLedger := (aLedger a)\<lparr>lErr := Some e\<rparr>\<rparr>"

text \<open>\<open>bits.Len64\<close>\<close>
fun bitsLen :: "nat \<Rightarrow> nat" where
  "bitsLen n = (if n = 0 then 0 else Suc (bitsLen (n div 2)))"

declare bitsLen.simps [simp del]

text \<open>\<open>slices.Sort\<close> and \<open>slices.Compact\<close>\<close>
definition sortCompact :: "'a::linorder list \<Rightarrow> 'a list" where
  "sortCompact xs = remdups_adj (sort xs)"

subsection \<open>Symbols\<close>

text \<open>
  A binary search of a sorted list returns the first position that is not below the target.
\<close>
definition searchPos :: "('a \<Rightarrow> bool) \<Rightarrow> 'a list \<Rightarrow> nat" where
  "searchPos isBelow xs = length (takeWhile isBelow xs)"

definition containsRune :: "rune_range list \<Rightarrow> rune \<Rightarrow> bool" where
  "containsRune ranges r =
     (let i = searchPos (\<lambda>v. rHi v < r) ranges in
      i < length ranges \<and> rLo (ranges ! i) \<le> r \<and> rHi (ranges ! i) \<ge> r)"

definition symbol :: "arena \<Rightarrow> rune \<Rightarrow> int" where
  "symbol a r =
     (let i = searchPos (\<lambda>e. e < r) (aEndpoints a) in
      if i < length (aEndpoints a) \<and> aEndpoints a ! i = r then int i else int i - 1)"

subsection \<open>Interning\<close>

definition enter :: "nat \<Rightarrow> arena \<Rightarrow> bool \<times> arena" where
  "enter depth a =
     (case aCharge 0 1 a of
        (False, a) \<Rightarrow> (False, a)
      | (True, a) \<Rightarrow>
          if Suc depth > 512
          then (False, aFail (ResourceError ''match'' ''derivative'' ''recursion depth'' 512
                  (of_nat (Suc depth))) a)
          else (True, a))"

definition put :: "residual \<Rightarrow> arena \<Rightarrow> nat \<times> arena" where
  "put n a =
     (case aCharge 0 1 a of
        (False, a) \<Rightarrow> (0, a)
      | (True, a) \<Rightarrow>
        (case aIntern a n of
           Some i \<Rightarrow> (i, a)
         | None \<Rightarrow>
           (case limitError ''match'' ''derivative'' ''nodes'' (mNodes (aLimits a))
                   (of_nat (length (aNodes a) + 1)) of
              Some e \<Rightarrow> (0, aFail e a)
            | None \<Rightarrow>
              (case aCharge 256 1 a of
                 (False, a) \<Rightarrow> (0, a)
               | (True, a) \<Rightarrow>
                 (let i = length (aNodes a) in
                  (i, a\<lparr>aNodes := aNodes a @ [n], aIntern := (aIntern a)(n \<mapsto> i)\<rparr>))))))"

definition newArena :: "match_limits \<Rightarrow> program \<Rightarrow> arena" where
  "newArena l p =
     (let a = \<lparr>aNodes = [], aIntern = Map.empty, aTransitions = [], aEndpoints = [],
               aProgram = p, aLimits = l,
               aLedger = new_ledger ''match'' ''derivative'' (mBytes l) (mWork l)\<rparr> in
      case aCharge 1024 1 a of
        (False, a) \<Rightarrow> a
      | (True, a) \<Rightarrow>
        (let a = snd (put residual0 a);
             a = snd (put (residual0\<lparr>sOp := OpEpsilon, sNullable := True\<rparr>) a);
             nr = foldl (\<lambda>nr n. addSat nr (len64 (nRanges n))) 0 (pNodes (gData p)) in
         case aCharge (mulSat nr 16) (mulSat nr (of_nat (bitsLen (unat nr)) + 1)) a of
           (False, a) \<Rightarrow> a
         | (True, a) \<Rightarrow>
             a\<lparr>aEndpoints := sortCompact
                (concat (map (\<lambda>n. concat (map (\<lambda>r. [rLo r, rHi r + 1]) (nRanges n)))
                   (pNodes (gData p))))\<rparr>))"

subsection \<open>Smart constructors\<close>

definition rep :: "nat \<Rightarrow> int \<Rightarrow> int \<Rightarrow> arena \<Rightarrow> nat \<times> arena" where
  "rep x lo hi a =
     (case aCharge 0 1 a of
        (False, a) \<Rightarrow> (0, a)
      | (True, a) \<Rightarrow>
          if hi = 0 \<or> x = 1 then (1, a)
          else if x = 0 then (if lo = 0 then 1 else 0, a)
          else if lo = 1 \<and> hi = 1 then (x, a)
          else put (residual0\<lparr>sOp := OpRepeat, sA := x, sLo := lo, sHi := hi, sNullable := lo = 0\<rparr>) a)"

text \<open>
  The operands of nested alternatives, left to right.  The code walks twice, once to count and
  once to collect; each walk is charged.
\<close>
function leaves :: "nat \<Rightarrow> nat \<Rightarrow> arena \<Rightarrow> nat list \<times> arena" where
  "leaves depth i a =
     (case enter depth a of
        (False, a) \<Rightarrow> ([], a)
      | (True, a) \<Rightarrow>
          let n = aNodes a ! i in
          if sOp n = OpAlternate then
            let (xs, a) = leaves (Suc depth) (sA n) a;
                (ys, a) = leaves (Suc depth) (sB n) a
            in (xs @ ys, a)
          else ([i], a))"
  by pat_completeness auto

lemma enter_depth: "enter depth a = (True, a') \<Longrightarrow> depth < 512"
  by (auto simp: enter_def split: prod.splits bool.splits if_splits)

termination leaves
  by (relation "measure (\<lambda>(depth, i, a). 512 - depth)") (auto dest!: enter_depth[OF sym])

declare leaves.simps [simp del]

text \<open>Two alternatives the merge loop can join: a common first factor, or touching intervals.\<close>

definition maxInt :: int where "maxInt = 2 ^ 63 - 1"

definition touching :: "residual \<Rightarrow> residual \<Rightarrow> bool" where
  "touching left right =
     (let lh = (if sHi left < 0 then maxInt else sHi left);
          rh = (if sHi right < 0 then maxInt else sHi right) in
      (sLo left \<le> rh \<or> sLo left - 1 = rh) \<and> (sLo right \<le> lh \<or> sLo right - 1 = lh))"

definition mergeable :: "residual \<Rightarrow> residual \<Rightarrow> bool" where
  "mergeable left right \<longleftrightarrow>
     (sOp left = OpConcat \<and> sOp right = OpConcat \<and> sA left = sA right) \<or>
     (sOp left = OpRepeat \<and> sOp right = OpRepeat \<and> sA left = sA right \<and> touching left right)"

definition index_pairs :: "nat \<Rightarrow> (nat \<times> nat) list" where
  "index_pairs n = concat (map (\<lambda>i. map (Pair i) [i + 1..<n]) [0..<n])"

fun scan_pairs :: "(nat \<times> nat) list \<Rightarrow> nat list \<Rightarrow> arena \<Rightarrow> (nat \<times> nat) option \<times> arena" where
  "scan_pairs [] terms a = (None, a)"
| "scan_pairs ((i, j) # ps) terms a =
     (case aCharge 0 1 a of
        (False, a) \<Rightarrow> (None, a)
      | (True, a) \<Rightarrow>
          if mergeable (aNodes a ! (terms ! i)) (aNodes a ! (terms ! j)) then (Some (i, j), a)
          else scan_pairs ps terms a)"

definition delete_at :: "nat \<Rightarrow> 'a list \<Rightarrow> 'a list" where
  "delete_at j xs = take j xs @ drop (Suc j) xs"

text \<open>Adjacent operands are paired until one is left.\<close>

fun pair_up :: "nat list \<Rightarrow> arena \<Rightarrow> nat list \<times> arena" where
  "pair_up (x # y # rest) a =
     (let (i, a) = put (residual0\<lparr>sOp := OpAlternate, sA := x, sB := y,
                          sNullable := sNullable (aNodes a ! x) \<or> sNullable (aNodes a ! y)\<rparr>) a;
          (is, a) = pair_up rest a
      in (i # is, a))"
| "pair_up xs a = (xs, a)"

lemma pair_up_length: "pair_up xs a = (ys, a') \<Longrightarrow> length ys = (length xs + 1) div 2"
  by (induction xs a arbitrary: ys a' rule: pair_up.induct) (auto split: prod.splits)

lemma pair_up_case_length:
  "(case pair_up xs a of (ys, a) \<Rightarrow> length ys) = (length xs + 1) div 2"
  by (cases "pair_up xs a") (simp add: pair_up_length)

function balance :: "nat list \<Rightarrow> arena \<Rightarrow> nat \<times> arena" where
  "balance terms a =
     (if length terms > 1 then let (next, a) = pair_up terms a in balance next a
      else (hd terms, a))"
  by pat_completeness auto

termination
  by (relation "measure (\<lambda>(terms, a). length terms)") (auto simp: pair_up_case_length)

declare balance.simps [simp del]

lemma scan_pairs_in: "scan_pairs ps terms a = (Some p, a') \<Longrightarrow> p \<in> set ps"
  by (induction ps terms a arbitrary: a' rule: scan_pairs.induct)
    (auto split: prod.splits bool.splits if_splits)

lemma index_pairs_bound: "(i, j) \<in> set (index_pairs n) \<Longrightarrow> i < j \<and> j < n"
  by (auto simp: index_pairs_def)

lemma length_delete_at: "j < length xs \<Longrightarrow> length (delete_at j xs) = length xs - 1"
  by (simp add: delete_at_def)

function (sequential) seq :: "nat \<Rightarrow> nat \<Rightarrow> nat \<Rightarrow> arena \<Rightarrow> nat \<times> arena"
  and alt :: "nat \<Rightarrow> nat \<Rightarrow> nat \<Rightarrow> arena \<Rightarrow> nat \<times> arena"
  and merge_terms :: "nat \<Rightarrow> nat list \<Rightarrow> arena \<Rightarrow> nat list \<times> arena"
where
  "seq depth x y a =
     (case enter depth a of
        (False, a) \<Rightarrow> (0, a)
      | (True, a) \<Rightarrow>
          if x = 0 \<or> y = 0 then (0, a)
          else if x = 1 then (y, a)
          else if y = 1 then (x, a)
          else
            let n = aNodes a ! x in
            if sOp n = OpConcat then
              let (t, a) = seq (Suc depth) (sB n) y a in seq (Suc depth) (sA n) t a
            else if sOp n = OpAlternate then
              let (s, a) = seq (Suc depth) (sA n) y a;
                  (t, a) = seq (Suc depth) (sB n) y a
              in alt (Suc depth) s t a
            else put (residual0\<lparr>sOp := OpConcat, sA := x, sB := y,
                        sNullable := sNullable n \<and> sNullable (aNodes a ! y)\<rparr>) a)"
| "alt depth x y a =
     (case enter depth a of
        (False, a) \<Rightarrow> (0, a)
      | (True, a) \<Rightarrow>
          if x = 0 \<or> x = y then (y, a)
          else if y = 0 then (x, a)
          else
            let (cx, a) = leaves (Suc depth) x a;
                (cy, a) = leaves (Suc depth) y a;
                count = length cx + length cy
            in
            (case aCharge (mulSat (of_nat count) 16)
                    (mulSat (of_nat count) (of_nat (bitsLen count) + 1)) a of
               (False, a) \<Rightarrow> (0, a)
             | (True, a) \<Rightarrow>
                 let (tx, a) = leaves (Suc depth) x a;
                     (ty, a) = leaves (Suc depth) y a
                 in
                 if aErr a \<noteq> None then (0, a)
                 else
                   let (terms, a) = merge_terms (Suc depth) (sortCompact (tx @ ty)) a in
                   if aErr a \<noteq> None then (0, a)
                   else balance (sortCompact terms) a))"
| "merge_terms depth terms a =
     (case scan_pairs (index_pairs (length terms)) terms a of
        (None, a) \<Rightarrow> (terms, a)
      | (Some (i, j), a) \<Rightarrow>
          let left = aNodes a ! (terms ! i); right = aNodes a ! (terms ! j);
              (merged, a) =
                (if sOp left = OpConcat then
                   let (t, a) = alt depth (sB left) (sB right) a in seq depth (sA left) t a
                 else
                   rep (sA left) (min (sLo left) (sLo right))
                     (if sHi left < 0 \<or> sHi right < 0 then -1 else max (sHi left) (sHi right)) a);
              terms = delete_at j (terms[i := merged])
          in if aErr a \<noteq> None then (terms, a) else merge_terms depth terms a)"
  by pat_completeness auto

termination
  by (relation "measures [\<lambda>x. case x of
        Inl (depth, x, y, a) \<Rightarrow> 513 - depth
      | Inr (Inl (depth, x, y, a)) \<Rightarrow> 513 - depth
      | Inr (Inr (depth, terms, a)) \<Rightarrow> 513 - depth,
      \<lambda>x. case x of Inr (Inr (depth, terms, a)) \<Rightarrow> Suc (length terms) | _ \<Rightarrow> 0]")
    (auto dest!: enter_depth[OF sym] scan_pairs_in[OF sym] index_pairs_bound simp: length_delete_at)

declare seq.simps [simp del] alt.simps [simp del] merge_terms.simps [simp del]

subsection \<open>The derivative\<close>

function derive :: "nat \<Rightarrow> nat \<Rightarrow> int \<Rightarrow> arena \<Rightarrow> nat \<times> arena" where
  "derive depth i symb a =
     (case map_of (aTransitions a) (i, symb) of
        Some out \<Rightarrow> (out, a)
      | None \<Rightarrow>
        (case enter depth a of
           (False, a) \<Rightarrow> (0, a)
         | (True, a) \<Rightarrow>
           let n = aNodes a ! i;
               (result, a) =
                 (case sOp n of
                    OpClass \<Rightarrow>
                      (if 0 \<le> symb \<and> containsRune (nRanges (pNodes (gData (aProgram a)) ! sA n))
                                      (aEndpoints a ! nat symb)
                       then 1 else 0, a)
                  | OpAlternate \<Rightarrow>
                      (let (s, a) = derive (Suc depth) (sA n) symb a;
                           (t, a) = derive (Suc depth) (sB n) symb a
                       in alt (Suc depth) s t a)
                  | OpConcat \<Rightarrow>
                      (let (s, a) = derive (Suc depth) (sA n) symb a;
                           (result, a) = seq (Suc depth) s (sB n) a
                       in if sNullable (aNodes a ! sA n) then
                            let (t, a) = derive (Suc depth) (sB n) symb a
                            in alt (Suc depth) result t a
                          else (result, a))
                  | OpRepeat \<Rightarrow>
                      (let upper = (if sHi n \<ge> 0 then sHi n - 1 else sHi n);
                           (s, a) = derive (Suc depth) (sA n) symb a;
                           (t, a) = rep (sA n) (max 0 (sLo n - 1)) upper a
                       in seq (Suc depth) s t a)
                  | _ \<Rightarrow> (0, a))
           in
           if aErr a \<noteq> None then (0, a)
           else
             (case limitError ''match'' ''derivative'' ''transitions'' (mTransitions (aLimits a))
                     (of_nat (length (aTransitions a) + 1)) of
                Some e \<Rightarrow> (0, aFail e a)
              | None \<Rightarrow>
                (case aCharge 96 1 a of
                   (False, a) \<Rightarrow> (0, a)
                 | (True, a) \<Rightarrow>
                     (result, a\<lparr>aTransitions := AList.update (i, symb) result (aTransitions a)\<rparr>)))))"
  by pat_completeness auto

termination
  by (relation "measure (\<lambda>(depth, i, symb, a). 512 - depth)") (auto dest!: enter_depth[OF sym])

declare derive.simps [simp del]

end
