(* ===== verification/Pattern_Store.thy ===== *)
theory Pattern_Store
  imports Pattern_Lang
begin

text \<open>
  The interface between a table of language nodes that only grows and the operations that add
  to it.  Both the derivative arena and the pattern compiler are such stores: an operation
  takes the store, may fail (and then leaves the store failed for good), and otherwise returns
  an index whose language it promises.  The locale states what the operations rely on, and its
  lemmas are the rules for running one operation after another.
\<close>

locale node_store =
  fixes inv :: "'s \<Rightarrow> bool"
    and failed :: "'s \<Rightarrow> bool"
    and ext :: "'s \<Rightarrow> 's \<Rightarrow> bool"
    and valid :: "'s \<Rightarrow> nat \<Rightarrow> bool"
    and lang :: "'s \<Rightarrow> nat \<Rightarrow> 'a lang"
  assumes ext_refl: "ext s s"
    and ext_trans: "ext s t \<Longrightarrow> ext t u \<Longrightarrow> ext s u"
    and valid_ext: "inv s \<Longrightarrow> ext s t \<Longrightarrow> valid s i \<Longrightarrow> valid t i"
    and lang_ext: "inv s \<Longrightarrow> ext s t \<Longrightarrow> valid s i \<Longrightarrow> lang t i = lang s i"
begin

text \<open>
  \<open>yields s P r\<close>: unless it fails, the outcome \<open>r\<close> of an operation on \<open>s\<close> is a store that
  extends \<open>s\<close> and keeps the invariant, and a value with the property \<open>P\<close>.
\<close>
definition yields :: "'s \<Rightarrow> ('s \<Rightarrow> 'v \<Rightarrow> bool) \<Rightarrow> 'v \<times> 's \<Rightarrow> bool" where
  "yields s P r \<longleftrightarrow>
     (\<not> failed (snd r) \<longrightarrow>
        \<not> failed s \<and> inv (snd r) \<and> ext s (snd r) \<and> P (snd r) (fst r))"

text \<open>The property that names a language.\<close>
definition denotes :: "'s \<Rightarrow> 'a lang \<Rightarrow> nat \<times> 's \<Rightarrow> bool" where
  "denotes s L = yields s (\<lambda>t i. valid t i \<and> lang t i = L)"

lemma yieldsI:
  "(\<not> failed t \<Longrightarrow> \<not> failed s \<and> inv t \<and> ext s t \<and> P t v) \<Longrightarrow> yields s P (v, t)"
  by (auto simp: yields_def)

lemma yields_failed: "failed t \<Longrightarrow> yields s P (v, t)"
  by (simp add: yields_def)

lemma yields_same: "inv s \<Longrightarrow> P s v \<Longrightarrow> yields s P (v, s)"
  by (simp add: yields_def ext_refl)

lemma yields_mono: "yields s P r \<Longrightarrow> (\<And>t v. inv t \<Longrightarrow> ext s t \<Longrightarrow> P t v \<Longrightarrow> Q t v) \<Longrightarrow> yields s Q r"
  by (auto simp: yields_def)

text \<open>Sequencing: the second operation must stay failed on a failed store.\<close>
lemma yields_bind:
  assumes "yields s P r"
    and "\<And>v t. failed t \<Longrightarrow> failed (snd (f v t))"
    and "\<And>v t. r = (v, t) \<Longrightarrow> \<not> failed t \<Longrightarrow> inv t \<Longrightarrow> ext s t \<Longrightarrow> P t v \<Longrightarrow> yields t Q (f v t)"
  shows "yields s Q (case r of (v, t) \<Rightarrow> f v t)"
proof (cases r)
  case (Pair v t)
  show ?thesis
  proof (cases "failed t")
    case True
    with assms(2) Pair show ?thesis by (simp add: yields_def)
  next
    case False
    with assms(1) Pair have t: "\<not> failed s" "inv t" "ext s t" "P t v" by (auto simp: yields_def)
    from assms(3)[OF Pair False t(2-4)] t Pair show ?thesis
      by (auto simp: yields_def intro: ext_trans)
  qed
qed

lemma denotes_bind:
  assumes "denotes s L r"
    and "\<And>v t. failed t \<Longrightarrow> failed (snd (f v t))"
    and "\<And>v t. r = (v, t) \<Longrightarrow> \<not> failed t \<Longrightarrow> inv t \<Longrightarrow> ext s t \<Longrightarrow> valid t v \<Longrightarrow> lang t v = L \<Longrightarrow>
           denotes t M (f v t)"
  shows "denotes s M (case r of (v, t) \<Rightarrow> f v t)"
  using assms unfolding denotes_def by (rule yields_bind) auto

lemma denotes_same: "inv s \<Longrightarrow> valid s i \<Longrightarrow> lang s i = L \<Longrightarrow> denotes s L (i, s)"
  by (simp add: denotes_def yields_same)

lemma denotes_failed: "failed t \<Longrightarrow> denotes s L (i, t)"
  by (simp add: denotes_def yields_failed)

lemma denotesD:
  assumes "denotes s L (i, t)" "\<not> failed t"
  shows "\<not> failed s" "inv t" "ext s t" "valid t i" "lang t i = L"
  using assms by (auto simp: denotes_def yields_def)

lemma denotes_cong: "denotes s L r \<Longrightarrow> L = M \<Longrightarrow> denotes s M r"
  by simp

end

end
