(* ===== verification/Pattern_Residuals.thy ===== *)
theory Pattern_Residuals
  imports Pattern_Derivative Pattern_Store
begin

text \<open>
  Correctness of the derivative engine.  The language \<open>alang\<close> of an arena index is defined on
  the arena; the invariant \<open>ainv\<close> says that nodes refer to earlier nodes, that the stored
  acceptance flags are right, and that both caches are sound.  Each smart constructor is shown
  to denote the language operation it stands for, and \<open>derive\<close> the left quotient.
\<close>

subsection \<open>The language of a residual\<close>

definition hi_opt :: "int \<Rightarrow> nat option" where
  "hi_opt h = (if h < 0 then None else Some (nat h))"

function rlang :: "node_data list \<Rightarrow> residual list \<Rightarrow> nat \<Rightarrow> rune lang" where
  "rlang ps rs i =
     (if i < length rs then
        (let n = rs ! i in
         case sOp n of
           OpEmpty \<Rightarrow> {}
         | OpEpsilon \<Rightarrow> {[]}
         | OpClass \<Rightarrow> {[c] | c. in_ranges (nRanges (ps ! sA n)) c}
         | OpAlternate \<Rightarrow>
             (if sA n < i \<and> sB n < i then rlang ps rs (sA n) \<union> rlang ps rs (sB n) else {})
         | OpConcat \<Rightarrow>
             (if sA n < i \<and> sB n < i then conc (rlang ps rs (sA n)) (rlang ps rs (sB n)) else {})
         | OpRepeat \<Rightarrow>
             (if sA n < i then reps (rlang ps rs (sA n)) (nat (sLo n)) (hi_opt (sHi n)) else {})
         | OpUnknown _ \<Rightarrow> {})
      else {})"
  by pat_completeness auto
termination by (relation "measure (\<lambda>(ps, rs, i). i)") auto

declare rlang.simps [simp del]

lemma rlang_append: "i < length rs \<Longrightarrow> rlang ps (rs @ xs) i = rlang ps rs i"
proof (induction i rule: less_induct)
  case (less i)
  then have "rlang ps (rs @ xs) j = rlang ps rs j" if "j < i" for j
    using that by simp
  with less.prems show ?case
    by (auto simp: rlang.simps[of ps "rs @ xs" i] rlang.simps[of ps rs i] nth_append Let_def
        split: pop.splits)
qed

text \<open>The language a node would have on top of a given table.\<close>
definition node_lang :: "node_data list \<Rightarrow> residual list \<Rightarrow> residual \<Rightarrow> rune lang" where
  "node_lang ps rs n =
     (case sOp n of
        OpEmpty \<Rightarrow> {}
      | OpEpsilon \<Rightarrow> {[]}
      | OpClass \<Rightarrow> {[c] | c. in_ranges (nRanges (ps ! sA n)) c}
      | OpAlternate \<Rightarrow> rlang ps rs (sA n) \<union> rlang ps rs (sB n)
      | OpConcat \<Rightarrow> conc (rlang ps rs (sA n)) (rlang ps rs (sB n))
      | OpRepeat \<Rightarrow> reps (rlang ps rs (sA n)) (nat (sLo n)) (hi_opt (sHi n))
      | OpUnknown _ \<Rightarrow> {})"

subsection \<open>The invariant\<close>

definition hi_ok :: "int \<Rightarrow> int \<Rightarrow> bool" where
  "hi_ok lo hi \<longleftrightarrow> 0 \<le> lo \<and> (hi < 0 \<or> lo \<le> hi)"

text \<open>A node that may sit at index \<open>i\<close>: it refers to earlier nodes and its flag is right.\<close>
definition rnode_ok :: "node_data list \<Rightarrow> residual list \<Rightarrow> nat \<Rightarrow> residual \<Rightarrow> bool" where
  "rnode_ok ps rs i n \<longleftrightarrow>
     (sOp n = OpAlternate \<or> sOp n = OpConcat \<longrightarrow> sA n < i \<and> sB n < i) \<and>
     (sOp n = OpRepeat \<longrightarrow> sA n < i \<and> hi_ok (sLo n) (sHi n) \<and> sHi n \<noteq> 0 \<and> [] \<notin> rlang ps rs (sA n)) \<and>
     (sOp n = OpClass \<longrightarrow> sA n < length ps) \<and>
     (sNullable n \<longleftrightarrow> [] \<in> node_lang ps rs n)"

abbreviation aps :: "arena \<Rightarrow> node_data list" where
  "aps a \<equiv> pNodes (gData (aProgram a))"

definition alang :: "arena \<Rightarrow> nat \<Rightarrow> rune lang" where
  "alang a i = rlang (aps a) (aNodes a) i"

definition avalid :: "arena \<Rightarrow> nat \<Rightarrow> bool" where
  "avalid a i \<longleftrightarrow> i < length (aNodes a)"

definition afailed :: "arena \<Rightarrow> bool" where
  "afailed a \<longleftrightarrow> aErr a \<noteq> None"

definition aext :: "arena \<Rightarrow> arena \<Rightarrow> bool" where
  "aext a b \<longleftrightarrow> (\<exists>xs. aNodes b = aNodes a @ xs) \<and> aProgram b = aProgram a \<and>
     aLimits b = aLimits a \<and> aEndpoints b = aEndpoints a"

definition nodes_ok :: "node_data list \<Rightarrow> residual list \<Rightarrow> bool" where
  "nodes_ok ps rs \<longleftrightarrow>
     2 \<le> length rs \<and> sOp (rs ! 0) = OpEmpty \<and> sOp (rs ! 1) = OpEpsilon \<and>
     (\<forall>i < length rs. rnode_ok ps rs i (rs ! i))"

definition trans_ok :: "arena \<Rightarrow> bool" where
  "trans_ok a \<longleftrightarrow> (\<forall>i s out. map_of (aTransitions a) (i, s) = Some out \<longrightarrow>
     avalid a i \<and> avalid a out \<and> (\<forall>r. symbol a r = s \<longrightarrow> alang a out = quot r (alang a i)))"

definition ainv :: "arena \<Rightarrow> bool" where
  "ainv a \<longleftrightarrow> nodes_ok (aps a) (aNodes a) \<and>
     (\<forall>n i. aIntern a n = Some i \<longrightarrow> i < length (aNodes a) \<and> aNodes a ! i = n) \<and> trans_ok a"

lemma aext_refl: "aext a a" by (simp add: aext_def)

lemma aext_trans: "aext a b \<Longrightarrow> aext b c \<Longrightarrow> aext a c" by (auto simp: aext_def)

lemma aext_valid: "aext a b \<Longrightarrow> avalid a i \<Longrightarrow> avalid b i" by (auto simp: aext_def avalid_def)

lemma aext_lang: "aext a b \<Longrightarrow> avalid a i \<Longrightarrow> alang b i = alang a i"
  by (auto simp: aext_def avalid_def alang_def rlang_append)

lemma aext_node: "aext a b \<Longrightarrow> avalid a i \<Longrightarrow> aNodes b ! i = aNodes a ! i"
  by (auto simp: aext_def avalid_def nth_append)

interpretation ar: node_store ainv afailed aext avalid alang
  by unfold_locales (auto intro: aext_refl aext_trans aext_valid simp: aext_lang)

lemma node_lang_append:
  assumes "sOp n \<in> {OpAlternate, OpConcat} \<Longrightarrow> sA n < length rs \<and> sB n < length rs"
    and "sOp n = OpRepeat \<Longrightarrow> sA n < length rs"
  shows "node_lang ps (rs @ xs) n = node_lang ps rs n"
  using assms by (auto simp: node_lang_def rlang_append split: pop.splits)

lemma rlang_node:
  "i < length rs \<Longrightarrow> rnode_ok ps rs i (rs ! i) \<Longrightarrow> rlang ps rs i = node_lang ps rs (rs ! i)"
  by (subst rlang.simps) (auto simp: node_lang_def rnode_ok_def Let_def split: pop.splits)

lemma alang_node:
  assumes "ainv a" "avalid a i"
  shows "alang a i = node_lang (aps a) (aNodes a) (aNodes a ! i)"
    and "rnode_ok (aps a) (aNodes a) i (aNodes a ! i)"
  using assms by (auto simp: ainv_def nodes_ok_def avalid_def alang_def intro!: rlang_node)

lemma ainv_base:
  assumes "ainv a"
  shows "avalid a 0" "avalid a 1" "alang a 0 = {}" "alang a 1 = {[]}"
proof -
  have l: "2 \<le> length (aNodes a)" "sOp (aNodes a ! 0) = OpEmpty" "sOp (aNodes a ! 1) = OpEpsilon"
    using assms by (auto simp: ainv_def nodes_ok_def)
  show v: "avalid a 0" "avalid a 1" using l(1) by (auto simp: avalid_def)
  show "alang a 0 = {}" "alang a 1 = {[]}"
    using alang_node(1)[OF assms v(1)] alang_node(1)[OF assms v(2)] l by (simp_all add: node_lang_def)
qed

lemma anullable: "ainv a \<Longrightarrow> avalid a i \<Longrightarrow> sNullable (aNodes a ! i) \<longleftrightarrow> [] \<in> alang a i"
  using alang_node[of a i] by (simp add: rnode_ok_def)

subsection \<open>Charging\<close>

lemma ledger_update [simp]:
  "avalid (a\<lparr>aLedger := b\<rparr>) = avalid a" "alang (a\<lparr>aLedger := b\<rparr>) = alang a"
  "symbol (a\<lparr>aLedger := b\<rparr>) = symbol a"
  by (auto simp: avalid_def alang_def symbol_def fun_eq_iff Let_def)

lemma trans_ok_ledger [simp]: "trans_ok (a\<lparr>aLedger := b\<rparr>) = trans_ok a"
  by (simp add: trans_ok_def)

lemma ainv_ledger [simp]: "ainv (a\<lparr>aLedger := b\<rparr>) = ainv a"
  by (simp add: ainv_def avalid_def)

lemma aext_ledger [simp]: "aext (a\<lparr>aLedger := b\<rparr>) c = aext a c" "aext c (a\<lparr>aLedger := b\<rparr>) = aext c a"
  by (auto simp: aext_def)

lemma afailed_ledger [simp]: "afailed (a\<lparr>aLedger := b\<rparr>) \<longleftrightarrow> lErr b \<noteq> None"
  by (simp add: afailed_def)

lemma aFail_failed [simp]: "afailed (aFail e a)"
  by (simp add: aFail_def afailed_def)

lemma aCharge_cases:
  obtains (ok) b where "aCharge bytes work a = (True, a\<lparr>aLedger := b\<rparr>)" "\<not> afailed a" "lErr b = None"
  | (refused) a' where "aCharge bytes work a = (False, a')" "afailed a'"
proof (cases "charge bytes work (aLedger a)")
  case (Pair ok' b)
  show ?thesis
  proof (cases ok')
    case True
    with Pair have "charge bytes work (aLedger a) = (True, b)" by simp
    from charge_True[OF this] ok[of b] this show ?thesis
      by (auto simp: aCharge_def afailed_def)
  next
    case False
    with Pair charge_False[of bytes work "aLedger a" b] refused show ?thesis
      by (auto simp: aCharge_def afailed_def)
  qed
qed

lemma aCharge_sticky: "afailed a \<Longrightarrow> aCharge bytes work a = (False, a)"
  by (simp add: aCharge_def afailed_def charge_sticky Let_def)

lemma enter_cases:
  obtains (ok) b where "enter depth a = (True, a\<lparr>aLedger := b\<rparr>)" "\<not> afailed a" "lErr b = None" "depth < 512"
  | (refused) a' where "enter depth a = (False, a')" "afailed a'"
proof (cases rule: aCharge_cases[of 0 1 a])
  case (ok b)
  show ?thesis
  proof (cases "Suc depth > 512")
    case True
    with ok that(2) show ?thesis by (simp add: enter_def)
  next
    case False
    with ok that(1)[of b] show ?thesis by (simp add: enter_def)
  qed
next
  case (refused a')
  with that(2) show ?thesis by (simp add: enter_def)
qed

lemma enter_sticky: "afailed a \<Longrightarrow> enter depth a = (False, a)"
  by (simp add: enter_def aCharge_sticky)

text \<open>A failed arena stays failed, whatever is run on it.\<close>

lemma put_sticky: "afailed a \<Longrightarrow> afailed (snd (put n a))"
  by (simp add: put_def aCharge_sticky)

lemma rep_sticky: "afailed a \<Longrightarrow> afailed (snd (rep x lo hi a))"
  by (simp add: rep_def aCharge_sticky)

lemma leaves_sticky: "afailed a \<Longrightarrow> afailed (snd (leaves depth i a))"
  by (simp add: leaves.simps[of depth] enter_sticky)

lemma seq_sticky: "afailed a \<Longrightarrow> afailed (snd (seq depth x y a))"
  by (simp add: seq.simps[of depth] enter_sticky)

lemma alt_sticky: "afailed a \<Longrightarrow> afailed (snd (alt depth x y a))"
  by (simp add: alt.simps[of depth] enter_sticky)

lemma derive_sticky: "afailed a \<Longrightarrow> afailed (snd (derive depth i s a))"
  by (simp add: derive.simps[of depth] enter_sticky split: option.splits)

lemma scan_pairs_sticky: "afailed a \<Longrightarrow> scan_pairs ps terms a = (None, a)"
  by (cases "(ps, terms, a)" rule: scan_pairs.cases) (simp_all add: aCharge_sticky)

lemma merge_terms_sticky: "afailed a \<Longrightarrow> afailed (snd (merge_terms depth terms a))"
  by (simp add: merge_terms.simps[of depth] scan_pairs_sticky)

lemma pair_up_sticky: "afailed a \<Longrightarrow> afailed (snd (pair_up xs a))"
proof (induction xs a rule: pair_up.induct)
  case (1 x y rest a)
  obtain i a1 where p: "put (residual0\<lparr>sOp := OpAlternate, sA := x, sB := y,
      sNullable := sNullable (aNodes a ! x) \<or> sNullable (aNodes a ! y)\<rparr>) a = (i, a1)"
    by fastforce
  with put_sticky[OF "1.prems"] have "afailed a1" by (metis snd_conv)
  from "1.IH"[OF p[symmetric] refl this] p show ?case by (auto split: prod.splits)
qed simp_all

lemma balance_sticky: "afailed a \<Longrightarrow> afailed (snd (balance terms a))"
proof (induction terms a rule: balance.induct)
  case (1 terms a)
  obtain xs a1 where p: "pair_up terms a = (xs, a1)" by fastforce
  with pair_up_sticky[OF "1.prems"] have "afailed a1" by (metis snd_conv)
  with "1.IH"[OF _ p[symmetric] refl] p "1.prems" show ?case
    by (subst balance.simps) simp
qed

lemmas sticky = put_sticky rep_sticky leaves_sticky seq_sticky alt_sticky derive_sticky
  merge_terms_sticky pair_up_sticky balance_sticky

subsection \<open>Interning a node\<close>

lemma ainv_snoc:
  assumes inv: "ainv a" and ok: "rnode_ok (aps a) (aNodes a) (length (aNodes a)) n"
  defines "b \<equiv> a\<lparr>aNodes := aNodes a @ [n], aIntern := (aIntern a)(n \<mapsto> length (aNodes a))\<rparr>"
  shows "ainv b" "aext a b" "alang b (length (aNodes a)) = node_lang (aps a) (aNodes a) n"
proof -
  show e: "aext a b" by (simp add: aext_def b_def)
  have ps: "aps b = aps a" by (simp add: b_def)
  have nl: "node_lang (aps a) (aNodes a @ [n]) m = node_lang (aps a) (aNodes a) m"
    if "rnode_ok (aps a) (aNodes a) k m" "k \<le> length (aNodes a)" for k m
    using that by (intro node_lang_append) (auto simp: rnode_ok_def)
  have rok: "rnode_ok (aps a) (aNodes a @ [n]) k m"
    if "rnode_ok (aps a) (aNodes a) k m" "k \<le> length (aNodes a)" for k m
  proof -
    have "sOp m = OpRepeat \<Longrightarrow>
        rlang (aps a) (aNodes a @ [n]) (sA m) = rlang (aps a) (aNodes a) (sA m)"
      using that by (intro rlang_append) (simp add: rnode_ok_def)
    then show ?thesis using that(1) unfolding rnode_ok_def nl[OF that] by simp
  qed
  have nodes: "nodes_ok (aps a) (aNodes a @ [n])"
  proof -
    have "rnode_ok (aps a) (aNodes a @ [n]) i ((aNodes a @ [n]) ! i)" if "i < Suc (length (aNodes a))" for i
    proof (cases "i = length (aNodes a)")
      case True
      with rok[OF ok] show ?thesis by simp
    next
      case False
      with that have "i < length (aNodes a)" by simp
      with inv rok[of i] show ?thesis by (simp add: ainv_def nodes_ok_def nth_append)
    qed
    moreover have "2 \<le> length (aNodes a)" using inv by (simp add: ainv_def nodes_ok_def)
    then have "0 < length (aNodes a)" "1 < length (aNodes a)" by linarith+
    then have "(aNodes a @ [n]) ! 0 = aNodes a ! 0" "(aNodes a @ [n]) ! 1 = aNodes a ! 1"
      by (simp_all only: nth_append if_True)
    ultimately show ?thesis using inv by (simp add: ainv_def nodes_ok_def)
  qed
  have "trans_ok b"
    unfolding trans_ok_def
  proof (intro allI impI)
    fix i s out
    assume "map_of (aTransitions b) (i, s) = Some out"
    then have "map_of (aTransitions a) (i, s) = Some out" by (simp add: b_def)
    with inv have t: "avalid a i" "avalid a out" "\<And>r. symbol a r = s \<Longrightarrow> alang a out = quot r (alang a i)"
      by (auto simp: ainv_def trans_ok_def)
    have "symbol b r = symbol a r" for r by (simp add: symbol_def b_def)
    with t aext_lang[OF e] aext_valid[OF e]
    show "avalid b i \<and> avalid b out \<and> (\<forall>r. symbol b r = s \<longrightarrow> alang b out = quot r (alang b i))"
      by simp
  qed
  moreover have "\<forall>m i. aIntern b m = Some i \<longrightarrow> i < length (aNodes b) \<and> aNodes b ! i = m"
    using inv by (auto simp: ainv_def b_def nth_append dest: less_SucI split: if_splits)
  ultimately show "ainv b" using nodes by (simp add: ainv_def ps) (simp add: b_def)
  have "alang b (length (aNodes a)) = node_lang (aps b) (aNodes b) (aNodes b ! length (aNodes a))"
    using \<open>ainv b\<close> by (rule alang_node) (simp add: avalid_def b_def)
  then show "alang b (length (aNodes a)) = node_lang (aps a) (aNodes a) n"
    using nl[OF ok] by (simp add: b_def)
qed

lemma put_denotes:
  assumes inv: "ainv a" and ok: "rnode_ok (aps a) (aNodes a) (length (aNodes a)) n"
  shows "ar.denotes a (node_lang (aps a) (aNodes a) n) (put n a)"
proof (cases rule: aCharge_cases[of 0 1 a])
  case (refused a')
  then show ?thesis by (simp add: put_def ar.denotes_failed)
next
  case (ok b)
  define a1 where "a1 = a\<lparr>aLedger := b\<rparr>"
  have inv1: "ainv a1" using inv by (simp add: a1_def)
  show ?thesis
  proof (cases "aIntern a1 n")
    case (Some i)
    with inv1 have i: "i < length (aNodes a)" "aNodes a ! i = n" by (auto simp: ainv_def a1_def)
    then have "alang a i = node_lang (aps a) (aNodes a) n"
      using alang_node(1)[OF inv, of i] by (simp add: avalid_def)
    with i inv ok Some show ?thesis
      by (auto simp: put_def ar.denotes_def ar.yields_def a1_def avalid_def aext_refl)
  next
    case None
    show ?thesis
    proof (cases "limitError ''match'' ''derivative'' ''nodes'' (mNodes (aLimits a1))
        (of_nat (length (aNodes a1) + 1))")
      case (Some e)
      with ok None show ?thesis by (simp add: put_def ar.denotes_failed a1_def)
    next
      case lim: None
      show ?thesis
      proof (cases rule: aCharge_cases[of 256 1 a1])
        case (refused a')
        with ok None lim show ?thesis by (simp add: put_def ar.denotes_failed a1_def)
      next
        case charged: (ok b2)
        define a2 where "a2 = a1\<lparr>aLedger := b2\<rparr>"
        have inv2: "ainv a2" using inv1 by (simp add: a2_def)
        have same: "aps a2 = aps a" "aNodes a2 = aNodes a" by (simp_all add: a2_def a1_def)
        from ainv_snoc[OF inv2, of n] assms(2) same
        have r: "ainv (a2\<lparr>aNodes := aNodes a2 @ [n], aIntern := (aIntern a2)(n \<mapsto> length (aNodes a2))\<rparr>)"
          "aext a2 (a2\<lparr>aNodes := aNodes a2 @ [n], aIntern := (aIntern a2)(n \<mapsto> length (aNodes a2))\<rparr>)"
          "alang (a2\<lparr>aNodes := aNodes a2 @ [n], aIntern := (aIntern a2)(n \<mapsto> length (aNodes a2))\<rparr>)
            (length (aNodes a)) = node_lang (aps a) (aNodes a) n"
          by simp_all
        have put_eq: "put n a = (length (aNodes a2),
            a2\<lparr>aNodes := aNodes a2 @ [n], aIntern := (aIntern a2)(n \<mapsto> length (aNodes a2))\<rparr>)"
          using ok None lim charged by (simp add: put_def a1_def a2_def Let_def)
        from r(2) have "aext a (a2\<lparr>aNodes := aNodes a2 @ [n], aIntern := (aIntern a2)(n \<mapsto> length (aNodes a2))\<rparr>)"
          by (simp add: a2_def a1_def)
        with r ok(2) same show ?thesis
          by (simp add: put_eq ar.denotes_def ar.yields_def avalid_def)
      qed
    qed
  qed
qed

subsection \<open>Repetition\<close>

lemma denotes_charged:
  "\<not> afailed a \<Longrightarrow> ar.denotes (a\<lparr>aLedger := b\<rparr>) L r \<Longrightarrow> ar.denotes a L r"
  by (simp add: ar.denotes_def ar.yields_def)

lemma yields_charged:
  "\<not> afailed a \<Longrightarrow> ar.yields (a\<lparr>aLedger := b\<rparr>) P r \<Longrightarrow> ar.yields a P r"
  by (simp add: ar.yields_def)

lemma covers_int:
  "0 \<le> lo \<Longrightarrow> covers (nat lo) (hi_opt hi) n \<longleftrightarrow> lo \<le> int n \<and> (hi < 0 \<or> int n \<le> hi)"
  by (auto simp: covers_def hi_opt_def)

lemma rep_denotes:
  assumes "ainv a" "avalid a x" "hi_ok lo hi" "[] \<notin> alang a x"
  shows "ar.denotes a (reps (alang a x) (nat lo) (hi_opt hi)) (rep x lo hi a)"
proof (cases rule: aCharge_cases[of 0 1 a])
  case (refused a')
  then show ?thesis by (simp add: rep_def ar.denotes_failed)
next
  case (ok b)
  define a1 where "a1 = a\<lparr>aLedger := b\<rparr>"
  have inv1: "ainv a1" and al: "alang a1 = alang a" "avalid a1 = avalid a" using assms(1) by (simp_all add: a1_def)
  note base = ainv_base[OF inv1]
  have ne1: "x \<noteq> 1" using base assms(4) al by auto
  have "ar.denotes a1 (reps (alang a x) (nat lo) (hi_opt hi)) (rep x lo hi a)"
  proof -
    consider "hi = 0" | "hi \<noteq> 0" "x = 0" | "lo = 1" "hi = 1" "x \<noteq> 0" | "hi \<noteq> 0" "x \<noteq> 0" "\<not> (lo = 1 \<and> hi = 1)"
      by blast
    then show ?thesis
    proof cases
      case 1
      then have "lo = 0" using assms(3) by (auto simp: hi_ok_def)
      with 1 ok base inv1 show ?thesis
        by (auto simp: rep_def hi_opt_def simp flip: a1_def intro!: ar.denotes_same)
    next
      case 2
      have nz: "nat lo = 0 \<longleftrightarrow> lo = 0" using assms(3) by (auto simp: hi_ok_def)
      have "alang a 0 = {}" using base al by simp
      with 2 ok base inv1 ne1 nz show ?thesis
        by (cases "lo = 0") (auto simp: rep_def reps_empty simp flip: a1_def intro!: ar.denotes_same)
    next
      case 3
      with ok ne1 inv1 assms(2) al show ?thesis
        by (auto simp: rep_def hi_opt_def simp flip: a1_def intro!: ar.denotes_same)
    next
      case 4
      define n where "n = residual0\<lparr>sOp := OpRepeat, sA := x, sLo := lo, sHi := hi, sNullable := lo = 0\<rparr>"
      have nl: "node_lang (aps a1) (aNodes a1) n = reps (alang a x) (nat lo) (hi_opt hi)"
        by (simp add: n_def node_lang_def alang_def a1_def)
      have rok: "rnode_ok (aps a1) (aNodes a1) (length (aNodes a1)) n"
        unfolding rnode_ok_def nl Nil_in_reps[OF assms(4)]
        using 4 assms by (auto simp: n_def avalid_def a1_def alang_def hi_ok_def)
      have "rep x lo hi a = put n a1"
        using 4 ok ne1 by (auto simp: rep_def n_def simp flip: a1_def)
      with put_denotes[OF inv1 rok] nl show ?thesis by simp
    qed
  qed
  with ok show ?thesis by (auto simp: a1_def intro: denotes_charged)
qed

subsection \<open>Lists of alternatives\<close>

definition terms_ok :: "rune lang \<Rightarrow> arena \<Rightarrow> nat list \<Rightarrow> bool" where
  "terms_ok L a xs \<longleftrightarrow> (\<forall>x \<in> set xs. avalid a x) \<and> (\<Union>x \<in> set xs. alang a x) = L"

lemma terms_ok_ext: "aext a b \<Longrightarrow> terms_ok L a xs \<Longrightarrow> terms_ok L b xs"
  by (auto simp: terms_ok_def aext_lang intro: aext_valid)

lemma terms_ok_append: "terms_ok L a xs \<Longrightarrow> terms_ok M a ys \<Longrightarrow> terms_ok (L \<union> M) a (xs @ ys)"
  by (auto simp: terms_ok_def)

lemma terms_ok_Cons: "avalid a x \<Longrightarrow> terms_ok M a ys \<Longrightarrow> terms_ok (alang a x \<union> M) a (x # ys)"
  by (auto simp: terms_ok_def)

lemma terms_ok_sortCompact [simp]: "terms_ok L a (sortCompact xs) = terms_ok L a xs"
  by (simp add: terms_ok_def sortCompact_def)

lemma sortCompact_Nil [simp]: "sortCompact xs = [] \<longleftrightarrow> xs = []"
  unfolding sortCompact_def by (metis remdups_adj_Nil_iff set_empty set_sort)

lemma alternate_node:
  assumes "ainv a" "avalid a i" "sOp (aNodes a ! i) = OpAlternate"
  shows "avalid a (sA (aNodes a ! i))" "avalid a (sB (aNodes a ! i))"
    and "alang a i = alang a (sA (aNodes a ! i)) \<union> alang a (sB (aNodes a ! i))"
  using alang_node[OF assms(1,2)] assms(2,3)
  by (auto simp: rnode_ok_def avalid_def node_lang_def alang_def)

lemma concat_node_parts:
  assumes "ainv a" "avalid a i" "sOp (aNodes a ! i) = OpConcat"
  shows "avalid a (sA (aNodes a ! i))" "avalid a (sB (aNodes a ! i))"
    and "alang a i = conc (alang a (sA (aNodes a ! i))) (alang a (sB (aNodes a ! i)))"
  using alang_node[OF assms(1,2)] assms(2,3)
  by (auto simp: rnode_ok_def avalid_def node_lang_def alang_def)

lemma repeat_node_parts:
  assumes "ainv a" "avalid a i" "sOp (aNodes a ! i) = OpRepeat"
  shows "avalid a (sA (aNodes a ! i))" "hi_ok (sLo (aNodes a ! i)) (sHi (aNodes a ! i))"
    and "sHi (aNodes a ! i) \<noteq> 0" "[] \<notin> alang a (sA (aNodes a ! i))"
    and "alang a i = reps (alang a (sA (aNodes a ! i))) (nat (sLo (aNodes a ! i))) (hi_opt (sHi (aNodes a ! i)))"
  using alang_node[OF assms(1,2)] assms(2,3)
  by (auto simp: rnode_ok_def avalid_def node_lang_def alang_def)

lemma leaves_yields:
  "ainv a \<Longrightarrow> avalid a i \<Longrightarrow>
     ar.yields a (\<lambda>t xs. xs \<noteq> [] \<and> terms_ok (alang a i) t xs) (leaves depth i a)"
proof (induction "512 - depth" arbitrary: depth i a rule: less_induct)
  case less
  show ?case
  proof (cases rule: enter_cases[of depth a])
    case (refused a')
    then show ?thesis by (simp add: leaves.simps[of depth] ar.yields_failed)
  next
    case (ok b)
    define a1 where "a1 = a\<lparr>aLedger := b\<rparr>"
    have inv1: "ainv a1" and v1: "avalid a1 i" and al: "alang a1 = alang a" using less.prems by (simp_all add: a1_def)
    have IH: "ainv t \<Longrightarrow> avalid t j \<Longrightarrow>
        ar.yields t (\<lambda>t' xs. xs \<noteq> [] \<and> terms_ok (alang t j) t' xs) (leaves (Suc depth) j t)" for t j
      using less.hyps[of "Suc depth"] ok by simp
    have "ar.yields a1 (\<lambda>t xs. xs \<noteq> [] \<and> terms_ok (alang a i) t xs) (leaves depth i a)"
    proof (cases "sOp (aNodes a1 ! i) = OpAlternate")
      case True
      note parts = alternate_node[OF inv1 v1 True]
      have eq: "leaves depth i a = (case leaves (Suc depth) (sA (aNodes a1 ! i)) a1 of (xs, t) \<Rightarrow>
          case leaves (Suc depth) (sB (aNodes a1 ! i)) t of (ys, u) \<Rightarrow> (xs @ ys, u))"
        using ok True by (simp add: leaves.simps[of depth] a1_def Let_def)
      show ?thesis
        unfolding eq
      proof (rule ar.yields_bind[OF IH[OF inv1 parts(1)]], goal_cases)
        case (1 v t)
        from leaves_sticky[OF 1, of "Suc depth" "sB (aNodes a1 ! i)"] show ?case by (auto split: prod.splits)
      next
        case (2 v t)
        have vB: "avalid t (sB (aNodes a1 ! i))" using parts(2) 2 aext_valid by blast
        show ?case
        proof (rule ar.yields_bind[OF IH[OF 2(3) vB]], goal_cases)
          case (2 w u)
          have "terms_ok (alang a1 (sA (aNodes a1 ! i))) u v"
            using \<open>v \<noteq> [] \<and> _\<close> terms_ok_ext[OF 2(4)] by blast
          moreover have "terms_ok (alang a1 (sB (aNodes a1 ! i))) u w"
            using 2(5) aext_lang[OF \<open>aext a1 t\<close> parts(2)] by simp
          ultimately have "terms_ok (alang a i) u (v @ w)"
            using terms_ok_append parts(3) al by metis
          with 2 show ?case by (intro ar.yields_same) auto
        qed simp
      qed
    next
      case False
      then have "leaves depth i a = ([i], a1)"
        using ok by (simp add: leaves.simps[of depth] a1_def)
      with inv1 v1 al show ?thesis by (auto intro!: ar.yields_same simp: terms_ok_def)
    qed
    with ok show ?thesis by (auto simp: a1_def intro: yields_charged)
  qed
qed

lemma pair_up_yields:
  "ainv a \<Longrightarrow> terms_ok L a xs \<Longrightarrow> ar.yields a (terms_ok L) (pair_up xs a)"
proof (induction xs a arbitrary: L rule: pair_up.induct)
  case (1 x y rest a)
  define n where "n = residual0\<lparr>sOp := OpAlternate, sA := x, sB := y,
      sNullable := sNullable (aNodes a ! x) \<or> sNullable (aNodes a ! y)\<rparr>"
  define R where "R = (\<Union>z \<in> set rest. alang a z)"
  from "1.prems" have v: "avalid a x" "avalid a y" and rest: "terms_ok R a rest"
    and L: "L = (alang a x \<union> alang a y) \<union> R"
    by (auto simp: terms_ok_def R_def)
  have nl: "node_lang (aps a) (aNodes a) n = alang a x \<union> alang a y"
    by (simp add: n_def node_lang_def alang_def)
  have "rnode_ok (aps a) (aNodes a) (length (aNodes a)) n"
    unfolding rnode_ok_def nl using v anullable[OF "1.prems"(1)]
    by (auto simp: n_def avalid_def)
  from put_denotes[OF "1.prems"(1) this] nl
  have put_ok: "ar.yields a (\<lambda>t i. avalid t i \<and> alang t i = alang a x \<union> alang a y) (put n a)"
    by (simp add: ar.denotes_def)
  have eq: "pair_up (x # y # rest) a =
      (case put n a of (i, t) \<Rightarrow> case pair_up rest t of (is, u) \<Rightarrow> (i # is, u))"
    by (simp add: n_def)
  show ?case
    unfolding eq
  proof (rule ar.yields_bind[OF put_ok], goal_cases)
    case (1 v t)
    from pair_up_sticky[OF 1, of rest] show ?case by (auto split: prod.splits)
  next
    case (2 i t)
    have "terms_ok R t rest" using rest 2 terms_ok_ext by blast
    from "1.IH"[OF 2(1)[symmetric, unfolded n_def] refl 2(3) this]
    show ?case
    proof (rule ar.yields_bind, goal_cases)
      case (2 "is" u)
      with \<open>avalid t i \<and> _\<close> show ?case
        using terms_ok_Cons[of u i R "is"] L by (auto intro!: ar.yields_same simp: aext_lang aext_valid)
    qed simp
  qed
qed (auto intro: ar.yields_same)

lemma balance_denotes:
  "ainv a \<Longrightarrow> terms \<noteq> [] \<Longrightarrow> terms_ok L a terms \<Longrightarrow> ar.denotes a L (balance terms a)"
proof (induction terms a rule: balance.induct)
  case (1 terms a)
  show ?case
  proof (cases "length terms > 1")
    case True
    then have eq: "balance terms a = (case pair_up terms a of (xs, t) \<Rightarrow> balance xs t)"
      by (subst balance.simps) simp
    show ?thesis
      unfolding eq ar.denotes_def
    proof (rule ar.yields_bind[OF pair_up_yields[OF "1.prems"(1,3)]], goal_cases)
      case (1 v t)
      then show ?case by (rule balance_sticky)
    next
      case (2 xs t)
      from pair_up_length[OF 2(1)] True have "xs \<noteq> []" by auto
      with 2 "1.IH"[OF True 2(1)[symmetric] refl] show ?case by (simp add: ar.denotes_def)
    qed
  next
    case False
    with "1.prems" obtain x where "terms = [x]" by (cases terms) auto
    with "1.prems" False show ?thesis
      by (subst balance.simps) (auto simp: terms_ok_def intro: ar.denotes_same)
  qed
qed

subsection \<open>Merging alternatives\<close>

lemma set_delete_at: "j < length ys \<Longrightarrow> set (delete_at j ys) = {ys ! k | k. k < length ys \<and> k \<noteq> j}"
proof -
  assume j: "j < length ys"
  have "set (take j ys) = {ys ! k | k. k < j}"
    using j nth_image[of j ys] by (auto simp: image_def atLeast0LessThan)
  moreover have "set (drop (Suc j) ys) = {ys ! k | k. j < k \<and> k < length ys}"
  proof (intro equalityI subsetI)
    fix x assume "x \<in> set (drop (Suc j) ys)"
    then obtain k where "k < length ys - Suc j" "x = ys ! (Suc j + k)"
      using j by (auto simp: set_conv_nth)
    then show "x \<in> {ys ! k | k. j < k \<and> k < length ys}"
      by (intro CollectI exI[of _ "Suc j + k"]) auto
  next
    fix x assume "x \<in> {ys ! k | k. j < k \<and> k < length ys}"
    then obtain k where k: "j < k" "k < length ys" "x = ys ! k" by blast
    then have "drop (Suc j) ys ! (k - Suc j) = x" "k - Suc j < length (drop (Suc j) ys)" by auto
    then show "x \<in> set (drop (Suc j) ys)" by (metis nth_mem)
  qed
  ultimately show ?thesis using j by (auto simp: delete_at_def) (metis less_trans linorder_neqE_nat)+
qed

lemma terms_ok_merge:
  assumes "terms_ok L a terms" "i < j" "j < length terms" "avalid a m"
    "alang a m = alang a (terms ! i) \<union> alang a (terms ! j)"
  shows "terms_ok L a (delete_at j (terms[i := m]))"
proof -
  let ?ys = "terms[i := m]"
  have set: "set (delete_at j ?ys) = {?ys ! k | k. k < length terms \<and> k \<noteq> j}"
    using set_delete_at[of j ?ys] assms(3) by simp
  have "avalid a x" if "x \<in> set (delete_at j ?ys)" for x
    using that set assms by (auto simp: nth_list_update terms_ok_def)
  moreover have "(\<Union>x \<in> set (delete_at j ?ys). alang a x) = (\<Union>x \<in> set terms. alang a x)"
  proof (intro equalityI UN_least)
    fix x assume "x \<in> set (delete_at j ?ys)"
    with set obtain k where k: "k < length terms" "x = ?ys ! k" by auto
    show "alang a x \<subseteq> (\<Union>x \<in> set terms. alang a x)"
    proof (cases "k = i")
      case True
      with k have "x = m" by simp
      have "terms ! i \<in> set terms" "terms ! j \<in> set terms" using assms(2,3) by auto
      with assms(5) \<open>x = m\<close> show ?thesis by blast
    next
      case False
      with k show ?thesis by (auto intro: nth_mem)
    qed
  next
    fix x assume "x \<in> set terms"
    then obtain k where k: "k < length terms" "x = terms ! k" by (auto simp: in_set_conv_nth)
    have m: "m \<in> set (delete_at j ?ys)"
      unfolding set using assms(2,3) by (intro CollectI exI[of _ i]) auto
    show "alang a x \<subseteq> (\<Union>x \<in> set (delete_at j ?ys). alang a x)"
    proof (cases "k = i \<or> k = j")
      case True
      with k assms(5) have "alang a x \<subseteq> alang a m" by auto
      with m show ?thesis by blast
    next
      case False
      then have "x \<in> set (delete_at j ?ys)"
        unfolding set using k by (intro CollectI exI[of _ k]) auto
      then show ?thesis by blast
    qed
  qed
  ultimately show ?thesis using assms(1) by (auto simp: terms_ok_def)
qed

lemma scan_pairs_yields:
  "ainv a \<Longrightarrow>
     ar.yields a (\<lambda>t r. aNodes t = aNodes a \<and> (\<forall>i j. r = Some (i, j) \<longrightarrow>
         (i, j) \<in> set ps \<and> mergeable (aNodes a ! (terms ! i)) (aNodes a ! (terms ! j))))
       (scan_pairs ps terms a)"
proof (induction ps terms a rule: scan_pairs.induct)
  case (1 terms a)
  then show ?case by (auto intro: ar.yields_same)
next
  case (2 i j ps terms a)
  show ?case
  proof (cases rule: aCharge_cases[of 0 1 a])
    case (refused a')
    then show ?thesis by (simp add: ar.yields_failed)
  next
    case (ok b)
    define a1 where "a1 = a\<lparr>aLedger := b\<rparr>"
    have inv1: "ainv a1" "aNodes a1 = aNodes a" using 2 by (simp_all add: a1_def)
    have "ar.yields a1 (\<lambda>t r. aNodes t = aNodes a \<and> (\<forall>i' j'. r = Some (i', j') \<longrightarrow>
         (i', j') \<in> set ((i, j) # ps) \<and> mergeable (aNodes a ! (terms ! i')) (aNodes a ! (terms ! j'))))
       (scan_pairs ((i, j) # ps) terms a)"
    proof (cases "mergeable (aNodes a1 ! (terms ! i)) (aNodes a1 ! (terms ! j))")
      case True
      with ok inv1 show ?thesis by (auto simp flip: a1_def intro: ar.yields_same)
    next
      case False
      have "scan_pairs ((i, j) # ps) terms a = scan_pairs ps terms a1"
        using ok False by (simp flip: a1_def)
      moreover have "True = True" "a1 = a\<lparr>aLedger := b\<rparr>" by (simp_all add: a1_def)
      ultimately show ?thesis
        using 2(1)[OF ok(1)[symmetric] refl, folded a1_def, OF False inv1(1)] inv1(2)
        by (auto elim!: ar.yields_mono)
    qed
    with ok show ?thesis by (auto simp: a1_def intro: yields_charged)
  qed
qed

lemma alt_seq_sticky:
  "afailed a \<Longrightarrow> afailed (snd (case alt depth x y a of (t, a) \<Rightarrow> seq depth z t a))"
  by (metis (no_types, lifting) alt_sticky case_prod_unfold seq_sticky)

definition seq_spec :: "nat \<Rightarrow> bool" where
  "seq_spec depth \<longleftrightarrow> (\<forall>x y a. ainv a \<longrightarrow> avalid a x \<longrightarrow> avalid a y \<longrightarrow>
     ar.denotes a (conc (alang a x) (alang a y)) (seq depth x y a))"

definition alt_spec :: "nat \<Rightarrow> bool" where
  "alt_spec depth \<longleftrightarrow> (\<forall>x y a. ainv a \<longrightarrow> avalid a x \<longrightarrow> avalid a y \<longrightarrow>
     ar.denotes a (alang a x \<union> alang a y) (alt depth x y a))"

text \<open>What joining two mergeable alternatives yields.\<close>

lemma merge_pair_denotes:
  assumes ss: "seq_spec depth" "alt_spec depth" and inv: "ainv a" and v: "avalid a x" "avalid a y"
    and m: "mergeable (aNodes a ! x) (aNodes a ! y)"
  defines "left \<equiv> aNodes a ! x" and "right \<equiv> aNodes a ! y"
  shows "ar.denotes a (alang a x \<union> alang a y)
    (if sOp left = OpConcat then
       let (t, a) = alt depth (sB left) (sB right) a in seq depth (sA left) t a
     else
       rep (sA left) (min (sLo left) (sLo right))
         (if sHi left < 0 \<or> sHi right < 0 then -1 else max (sHi left) (sHi right)) a)"
proof (cases "sOp left = OpConcat")
  case True
  with m have r: "sOp right = OpConcat" "sA left = sA right"
    by (auto simp: mergeable_def left_def right_def)
  note pl = concat_node_parts[OF inv v(1) True[unfolded left_def], folded left_def]
  note pr = concat_node_parts[OF inv v(2) r(1)[unfolded right_def], folded right_def]
  have alt1: "ar.denotes a (alang a (sB left) \<union> alang a (sB right)) (alt depth (sB left) (sB right) a)"
    using ss(2) inv pl(2) pr(2) by (auto simp: alt_spec_def)
  have "ar.denotes a (alang a x \<union> alang a y)
     (case alt depth (sB left) (sB right) a of (t, a) \<Rightarrow> seq depth (sA left) t a)"
  proof (rule ar.denotes_bind[OF alt1], goal_cases)
    case 1
    then show ?case by (rule seq_sticky)
  next
    case (2 t u)
    have "avalid u (sA left)" "alang u (sA left) = alang a (sA left)"
      using 2 pl(1) aext_valid aext_lang by blast+
    with 2 ss(1)[unfolded seq_spec_def, rule_format, of u "sA left" t]
    have "ar.denotes u (conc (alang a (sA left)) (alang a (sB left) \<union> alang a (sB right)))
        (seq depth (sA left) t u)"
      by simp
    then show ?case by (rule ar.denotes_cong) (simp add: pl(3) pr(3) r(2) conc_Un)
  qed
  with True show ?thesis by simp
next
  case False
  with m have r: "sOp left = OpRepeat" "sOp right = OpRepeat" "sA left = sA right" "touching left right"
    by (auto simp: mergeable_def left_def right_def)
  note pl = repeat_node_parts[OF inv v(1) r(1)[unfolded left_def], folded left_def]
  note pr = repeat_node_parts[OF inv v(2) r(2)[unfolded right_def], folded right_def]
  define lo where "lo = min (sLo left) (sLo right)"
  define hi where "hi = (if sHi left < 0 \<or> sHi right < 0 then -1 else max (sHi left) (sHi right))"
  have ok: "hi_ok lo hi" using pl(2) pr(2) by (auto simp: hi_ok_def min_def max_def lo_def hi_def)
  have lo: "0 \<le> sLo left" "0 \<le> sLo right" using pl(2) pr(2) by (auto simp: hi_ok_def)
  have "covers (nat lo) (hi_opt hi) n \<longleftrightarrow>
      covers (nat (sLo left)) (hi_opt (sHi left)) n \<or> covers (nat (sLo right)) (hi_opt (sHi right)) n" for n
  proof -
    have "0 \<le> lo" using lo by (simp add: lo_def)
    then show ?thesis
      using r(4) lo pl(2) pr(2) unfolding lo_def hi_def
      by (simp only: covers_int) (auto simp: touching_def Let_def hi_ok_def split: if_splits)
  qed
  from reps_join[OF this] have "reps (alang a (sA left)) (nat lo) (hi_opt hi) = alang a x \<union> alang a y"
    using pl(5) pr(5) r(3) by simp
  then have "ar.denotes a (alang a x \<union> alang a y) (rep (sA left) lo hi a)"
    by (rule ar.denotes_cong[OF rep_denotes[OF inv pl(1) ok pl(4)]])
  with False show ?thesis by (simp only: if_not_P if_False lo_def hi_def)
qed

lemma merge_terms_yields:
  assumes ss: "seq_spec depth" "alt_spec depth"
  shows "ainv a \<Longrightarrow> terms \<noteq> [] \<Longrightarrow> terms_ok L a terms \<Longrightarrow>
    ar.yields a (\<lambda>t ys. ys \<noteq> [] \<and> terms_ok L t ys) (merge_terms depth terms a)"
proof (induction "length terms" arbitrary: terms a rule: less_induct)
  case less
  define Q where "Q = (\<lambda>t ys. ys \<noteq> [] \<and> terms_ok L t ys)"
  define merge where "merge = (\<lambda>i j u.
      let left = aNodes u ! (terms ! i); right = aNodes u ! (terms ! j) in
      if sOp left = OpConcat then
        let (t, a) = alt depth (sB left) (sB right) u in seq depth (sA left) t a
      else
        rep (sA left) (min (sLo left) (sLo right))
          (if sHi left < 0 \<or> sHi right < 0 then -1 else max (sHi left) (sHi right)) u)"
  have eq: "merge_terms depth terms a = (case scan_pairs (index_pairs (length terms)) terms a of
      (r, u) \<Rightarrow> (case r of None \<Rightarrow> (terms, u) | Some (i, j) \<Rightarrow>
        (case merge i j u of (merged, w) \<Rightarrow>
           if aErr w \<noteq> None then (delete_at j (terms[i := merged]), w)
           else merge_terms depth (delete_at j (terms[i := merged])) w)))"
    by (subst merge_terms.simps) (simp add: merge_def Let_def split: prod.splits option.splits)
  have "ar.yields a Q (merge_terms depth terms a)"
    unfolding eq
  proof (rule ar.yields_bind[OF scan_pairs_yields[OF less.prems(1)]], goal_cases)
    case (1 r u)
    have "afailed (snd (merge i j u))" for i j
      using 1 by (simp add: merge_def Let_def rep_sticky alt_seq_sticky)
    with 1 show ?case
      by (auto split: option.splits prod.splits simp: merge_terms_sticky) (metis afailed_def snd_conv option.distinct(1))+
  next
    case (2 r u)
    have tu: "terms_ok L u terms" using 2 less.prems(3) terms_ok_ext by blast
    show ?case
    proof (cases r)
      case None
      with 2 less.prems tu show ?thesis by (auto simp: Q_def intro: ar.yields_same)
    next
      case (Some p)
      obtain i j where p: "p = (i, j)" by fastforce
      from 2 Some p have ij: "i < j" "j < length terms"
        and mg: "mergeable (aNodes u ! (terms ! i)) (aNodes u ! (terms ! j))"
        using index_pairs_bound by auto
      then have vv: "avalid u (terms ! i)" "avalid u (terms ! j)"
        using tu by (auto simp: terms_ok_def)
      have m: "ar.denotes u (alang u (terms ! i) \<union> alang u (terms ! j)) (merge i j u)"
        unfolding merge_def using merge_pair_denotes[OF ss 2(3) vv mg] by (simp only: Let_def)
      have "ar.yields u Q (case merge i j u of (merged, w) \<Rightarrow>
           if aErr w \<noteq> None then (delete_at j (terms[i := merged]), w)
           else merge_terms depth (delete_at j (terms[i := merged])) w)"
      proof (rule ar.yields_bind[OF m[unfolded ar.denotes_def]], goal_cases)
        case (1 v t)
        then show ?case by (simp add: afailed_def)
      next
        case (2 merged w)
        have "terms_ok L w terms" using 2 tu terms_ok_ext by blast
        moreover have "alang w merged = alang w (terms ! i) \<union> alang w (terms ! j)"
          using 2 vv by (simp add: aext_lang)
        ultimately have tm: "terms_ok L w (delete_at j (terms[i := merged]))"
          using terms_ok_merge[of L w terms i j merged] ij 2 by blast
        have len: "length (delete_at j (terms[i := merged])) < length terms"
          "delete_at j (terms[i := merged]) \<noteq> []"
          using ij by (auto simp: length_delete_at delete_at_def)
        from less.hyps[OF len(1) 2(3) len(2) tm] 2(2) show ?case
          by (simp add: Q_def afailed_def)
      qed
      with Some p show ?thesis by simp
    qed
  qed
  then show ?case by (simp add: Q_def)
qed

subsection \<open>Concatenation and alternation\<close>

lemma aCharge_yields:
  assumes "\<And>b. lErr b = None \<Longrightarrow> ar.yields (a\<lparr>aLedger := b\<rparr>) P (f (a\<lparr>aLedger := b\<rparr>))"
  shows "ar.yields a P (case aCharge bytes work a of (False, a) \<Rightarrow> (v0, a) | (True, a) \<Rightarrow> f a)"
  by (cases rule: aCharge_cases[of bytes work a])
    (auto simp: ar.yields_failed intro: yields_charged assms)

lemma enter_yields:
  assumes "\<And>b. lErr b = None \<Longrightarrow> depth < 512 \<Longrightarrow> ar.yields (a\<lparr>aLedger := b\<rparr>) P (f (a\<lparr>aLedger := b\<rparr>))"
  shows "ar.yields a P (case enter depth a of (False, a) \<Rightarrow> (v0, a) | (True, a) \<Rightarrow> f a)"
  by (cases rule: enter_cases[of depth a])
    (auto simp: ar.yields_failed intro: yields_charged assms)

lemma enter_denotes:
  assumes "\<And>b. lErr b = None \<Longrightarrow> depth < 512 \<Longrightarrow> ar.denotes (a\<lparr>aLedger := b\<rparr>) L (f (a\<lparr>aLedger := b\<rparr>))"
  shows "ar.denotes a L (case enter depth a of (False, a) \<Rightarrow> (v0, a) | (True, a) \<Rightarrow> f a)"
  using assms unfolding ar.denotes_def by (rule enter_yields)

lemma seq_step:
  assumes IH: "depth < 512 \<Longrightarrow> seq_spec (Suc depth)" "depth < 512 \<Longrightarrow> alt_spec (Suc depth)"
  shows "seq_spec depth"
  unfolding seq_spec_def
proof (intro allI impI)
  fix x y a assume inv: "ainv a" and x: "avalid a x" and y: "avalid a y"
  show "ar.denotes a (conc (alang a x) (alang a y)) (seq depth x y a)"
    unfolding seq.simps[of depth]
  proof (rule enter_denotes, goal_cases)
    case (1 b)
    define t where "t = a\<lparr>aLedger := b\<rparr>"
    have invt: "ainv t" and v: "avalid t x" "avalid t y" and al: "alang a = alang t"
      using inv x y by (simp_all add: t_def)
    note base = ainv_base[OF invt]
    note IH = IH[OF 1(2)]
    let ?n = "aNodes t ! x"
    consider "x = 0 \<or> y = 0" | "x \<noteq> 0" "y \<noteq> 0" "x = 1 \<or> y = 1"
      | (conc) "x \<noteq> 0" "y \<noteq> 0" "x \<noteq> 1" "y \<noteq> 1" "sOp ?n = OpConcat"
      | (alt) "x \<noteq> 0" "y \<noteq> 0" "x \<noteq> 1" "y \<noteq> 1" "sOp ?n = OpAlternate"
      | (new) "x \<noteq> 0" "y \<noteq> 0" "x \<noteq> 1" "y \<noteq> 1" "sOp ?n \<noteq> OpConcat" "sOp ?n \<noteq> OpAlternate"
      by blast
    then show ?case
    proof cases
      case 1
      then show ?thesis
        unfolding al t_def[symmetric] using base invt by (auto intro!: ar.denotes_same)
    next
      case 2
      then show ?thesis
        unfolding al t_def[symmetric] using base invt v by (auto intro!: ar.denotes_same)
    next
      case conc
      note parts = concat_node_parts[OF invt v(1) conc(5)]
      have "ar.denotes t (conc (alang t x) (alang t y))
          (case seq (Suc depth) (sB ?n) y t of (s, u) \<Rightarrow> seq (Suc depth) (sA ?n) s u)"
      proof (rule ar.denotes_bind[OF IH(1)[unfolded seq_spec_def, rule_format, OF invt parts(2) v(2)]], goal_cases)
        case 1
        then show ?case by (rule seq_sticky)
      next
        case (2 s u)
        have "avalid u (sA ?n)" "alang u (sA ?n) = alang t (sA ?n)"
          using 2 parts(1) aext_valid aext_lang by blast+
        with 2 IH(1)[unfolded seq_spec_def, rule_format, of u "sA ?n" s]
        show ?case by (simp add: parts(3) conc_assoc)
      qed
      with conc show ?thesis unfolding al t_def[symmetric] Let_def by simp
    next
      case alt
      note parts = alternate_node[OF invt v(1) alt(5)]
      have "ar.denotes t (conc (alang t x) (alang t y))
          (case seq (Suc depth) (sA ?n) y t of (s, u) \<Rightarrow>
             case seq (Suc depth) (sB ?n) y u of (r, w) \<Rightarrow> alt (Suc depth) s r w)"
      proof (rule ar.denotes_bind[OF IH(1)[unfolded seq_spec_def, rule_format, OF invt parts(1) v(2)]], goal_cases)
        case (1 s u)
        from seq_sticky[OF 1, of "Suc depth" "sB ?n" y] show ?case
          by (auto split: prod.splits intro: alt_sticky)
      next
        case (2 s u)
        have vu: "avalid u (sB ?n)" "avalid u y" "alang u (sB ?n) = alang t (sB ?n)" "alang u y = alang t y"
          using 2 parts(2) v(2) aext_valid aext_lang by blast+
        show ?case
        proof (rule ar.denotes_bind[OF IH(1)[unfolded seq_spec_def, rule_format, OF 2(3) vu(1,2)]], goal_cases)
          case 1
          then show ?case by (rule alt_sticky)
        next
          case (2 r w)
          have "avalid w s" "alang w s = alang u s"
            using 2 \<open>avalid u s\<close> aext_valid aext_lang by blast+
          with 2 IH(2)[unfolded alt_spec_def, rule_format, of w s r] \<open>alang u s = _\<close> vu
          show ?case by (simp add: parts(3) conc_Un)
        qed
      qed
      with alt show ?thesis unfolding al t_def[symmetric] Let_def by simp
    next
      case new
      define n where "n = residual0\<lparr>sOp := OpConcat, sA := x, sB := y,
          sNullable := sNullable ?n \<and> sNullable (aNodes t ! y)\<rparr>"
      have nl: "node_lang (aps t) (aNodes t) n = conc (alang t x) (alang t y)"
        by (simp add: n_def node_lang_def alang_def)
      have "rnode_ok (aps t) (aNodes t) (length (aNodes t)) n"
        unfolding rnode_ok_def nl using v anullable[OF invt] by (auto simp: n_def avalid_def)
      from put_denotes[OF invt this] new show ?thesis
        unfolding al nl by (simp add: n_def flip: t_def)
    qed
  qed
qed

lemma alt_step:
  assumes IH: "depth < 512 \<Longrightarrow> seq_spec (Suc depth)" "depth < 512 \<Longrightarrow> alt_spec (Suc depth)"
  shows "alt_spec depth"
  unfolding alt_spec_def
proof (intro allI impI)
  fix x y a assume inv: "ainv a" and x: "avalid a x" and y: "avalid a y"
  show "ar.denotes a (alang a x \<union> alang a y) (alt depth x y a)"
    unfolding alt.simps[of depth]
  proof (rule enter_denotes, goal_cases)
    case (1 b)
    define t where "t = a\<lparr>aLedger := b\<rparr>"
    have invt: "ainv t" and v: "avalid t x" "avalid t y" and al: "alang a = alang t"
      using inv x y by (simp_all add: t_def)
    note base = ainv_base[OF invt]
    note IH = IH[OF 1(2)]
    let ?L = "alang t x \<union> alang t y"
    consider "x = 0 \<or> x = y" | "\<not> (x = 0 \<or> x = y)" "y = 0" | (merge) "\<not> (x = 0 \<or> x = y)" "y \<noteq> 0"
      by blast
    then show ?case
    proof cases
      case 1
      then show ?thesis
        unfolding al t_def[symmetric] using base invt v by (auto intro!: ar.denotes_same)
    next
      case 2
      then show ?thesis
        unfolding al t_def[symmetric] using base invt v by (auto intro!: ar.denotes_same)
    next
      case merge
      define tail where "tail = (\<lambda>tx ty u. if aErr u \<noteq> None then (0, u)
          else case merge_terms (Suc depth) (sortCompact (tx @ ty)) u of (terms, u) \<Rightarrow>
             if aErr u \<noteq> None then (0, u) else balance (sortCompact terms) u)"
      have tail: "ar.denotes u ?L (tail tx ty u)"
        if "ainv u" "tx @ ty \<noteq> []" "terms_ok ?L u (tx @ ty)" for tx ty u
      proof (cases "aErr u = None")
        case True
        have "ar.denotes u ?L (case merge_terms (Suc depth) (sortCompact (tx @ ty)) u of (terms, u) \<Rightarrow>
             if aErr u \<noteq> None then (0, u) else balance (sortCompact terms) u)"
          unfolding ar.denotes_def
        proof (rule ar.yields_bind[OF merge_terms_yields[OF IH, of u _ ?L]], goal_cases)
          case (4 v w)
          then show ?case by (simp add: afailed_def)
        next
          case (5 terms w)
          then show ?case
            using balance_denotes[of w "sortCompact terms" ?L] by (simp add: ar.denotes_def afailed_def)
        qed (use that in simp_all)
        with True show ?thesis by (simp add: tail_def)
      next
        case False
        then show ?thesis by (simp add: tail_def ar.denotes_failed afailed_def)
      qed
      have tail_sticky: "afailed (snd (tail tx ty u))" if "afailed u" for tx ty u
        using that by (simp add: tail_def afailed_def)
      have collect: "ar.denotes u ?L (case leaves (Suc depth) x u of (tx, u) \<Rightarrow>
          case leaves (Suc depth) y u of (ty, u) \<Rightarrow> tail tx ty u)"
        if "ainv u" "aext t u" for u
        unfolding ar.denotes_def
      proof (rule ar.yields_bind[OF leaves_yields], goal_cases)
        case (3 tx w)
        from leaves_sticky[OF 3, of "Suc depth" y] tail_sticky show ?case by (auto split: prod.splits)
      next
        case (4 tx w)
        have y': "avalid w y" "alang w y = alang t y"
          using v(2) that(2) 4(4) aext_valid aext_lang aext_trans by blast+
        have x': "alang u x = alang t x" using that(2) v(1) aext_lang by blast
        show ?case
        proof (rule ar.yields_bind[OF leaves_yields[OF 4(3) y'(1)]], goal_cases)
          case (1 ty z)
          then show ?case by (rule tail_sticky)
        next
          case (2 ty z)
          have "terms_ok (alang t x) z tx" using 2(4) 4(5) x' terms_ok_ext by metis
          with 2(5) y' have "terms_ok ?L z (tx @ ty)" using terms_ok_append by metis
          then show ?case using tail[of z tx ty] 2 by (simp add: ar.denotes_def)
        qed
      qed (use that v aext_valid in blast)+
      define gather where "gather = (\<lambda>u. case leaves (Suc depth) x u of (tx, u) \<Rightarrow>
          case leaves (Suc depth) y u of (ty, u) \<Rightarrow> tail tx ty u)"
      define main where "main = (\<lambda>count u.
          case aCharge (mulSat (of_nat count) 16) (mulSat (of_nat count) (of_nat (bitsLen count) + 1)) u of
            (False, u) \<Rightarrow> (0, u) | (True, u) \<Rightarrow> gather u)"
      have main: "ar.denotes u ?L (main count u)" if "ainv u" "aext t u" for count u
        unfolding main_def ar.denotes_def
        by (rule aCharge_yields) (use collect that in \<open>simp add: gather_def flip: ar.denotes_def\<close>)
      have main_sticky: "afailed (snd (main count u))" if "afailed u" for count u
        using that by (simp add: main_def aCharge_sticky)
      have "ar.denotes t ?L (case leaves (Suc depth) x t of (cx, u) \<Rightarrow>
          case leaves (Suc depth) y u of (cy, u) \<Rightarrow> main (length cx + length cy) u)"
        unfolding ar.denotes_def
      proof (rule ar.yields_bind[OF leaves_yields[OF invt v(1)]], goal_cases)
        case (1 cx u)
        from leaves_sticky[OF 1, of "Suc depth" y] main_sticky show ?case by (auto split: prod.splits)
      next
        case (2 cx u)
        have y': "avalid u y" using v(2) 2(4) aext_valid by blast
        show ?case
        proof (rule ar.yields_bind[OF leaves_yields[OF 2(3) y']], goal_cases)
          case (1 cy z)
          then show ?case by (rule main_sticky)
        next
          case (2 cy z)
          then show ?case using main[of z] \<open>aext t u\<close> aext_trans by (simp add: ar.denotes_def)
        qed
      qed
      with merge show ?thesis
        unfolding al t_def[symmetric] main_def gather_def tail_def Let_def by simp
    qed
  qed
qed

theorem seq_alt_spec: "seq_spec depth \<and> alt_spec depth"
proof (induction "512 - depth" arbitrary: depth rule: less_induct)
  case less
  have "depth < 512 \<Longrightarrow> seq_spec (Suc depth) \<and> alt_spec (Suc depth)" by (rule less) simp
  with seq_step alt_step show ?case by blast
qed

lemma seq_denotes:
  "ainv a \<Longrightarrow> avalid a x \<Longrightarrow> avalid a y \<Longrightarrow> ar.denotes a (conc (alang a x) (alang a y)) (seq depth x y a)"
  using seq_alt_spec by (auto simp: seq_spec_def)

lemma alt_denotes:
  "ainv a \<Longrightarrow> avalid a x \<Longrightarrow> avalid a y \<Longrightarrow> ar.denotes a (alang a x \<union> alang a y) (alt depth x y a)"
  using seq_alt_spec by (auto simp: alt_spec_def)

end
