(* ===== verification/Pattern_Quotient.thy ===== *)
theory Pattern_Quotient
  imports Pattern_Residuals
begin

text \<open>
  The derivative itself: symbols stand for the runes between two endpoints, every class treats
  such runes alike, and \<open>derive\<close> computes the left quotient by any rune with the symbol it is
  given.  The arena that \<open>newArena\<close> builds satisfies the invariant all of this rests on.
\<close>

subsection \<open>Membership in a class\<close>

lemma scalar_ranges_bounds:
  "scalar_ranges p rs \<Longrightarrow> q \<in> set rs \<Longrightarrow> p < rLo q \<and> rLo q \<le> rHi q"
proof (induction rs arbitrary: p)
  case (Cons r rs)
  then have s: "scalar_ranges (rHi r) rs" "p < rLo r" "rLo r \<le> rHi r" by (auto split: if_splits)
  show ?case
  proof (cases "q = r")
    case False
    with Cons.prems have "q \<in> set rs" by simp
    from Cons.IH[OF s(1) this] s show ?thesis by linarith
  qed (use s in simp)
qed simp

lemma containsRune_iff:
  "scalar_ranges p rs \<Longrightarrow> containsRune rs c \<longleftrightarrow> in_ranges rs c"
proof (induction rs arbitrary: p)
  case Nil
  then show ?case by (simp add: containsRune_def searchPos_def in_ranges_def)
next
  case (Cons r rs)
  then have s: "scalar_ranges (rHi r) rs" "rLo r \<le> rHi r" by (auto split: if_splits)
  show ?case
  proof (cases "rHi r < c")
    case True
    then have "containsRune (r # rs) c = containsRune rs c"
      by (simp add: containsRune_def searchPos_def Let_def)
    with Cons.IH[OF s(1)] True show ?thesis by (simp add: in_ranges_def)
  next
    case False
    then have "\<not> in_ranges rs c" using scalar_ranges_bounds[OF s(1)] by (fastforce simp: in_ranges_def)
    with False show ?thesis by (auto simp: containsRune_def searchPos_def in_ranges_def Let_def)
  qed
qed

subsection \<open>Symbols\<close>

definition classes_ok :: "arena \<Rightarrow> bool" where
  "classes_ok a \<longleftrightarrow> sorted (aEndpoints a) \<and> distinct (aEndpoints a) \<and>
     (\<forall>n \<in> set (aps a). scalar_ranges (-1) (nRanges n) \<and>
        (\<forall>q \<in> set (nRanges n). rLo q \<in> set (aEndpoints a) \<and> rHi q + 1 \<in> set (aEndpoints a)))"

lemma classes_ok_ext: "aext a b \<Longrightarrow> classes_ok b = classes_ok a"
  by (auto simp: aext_def classes_ok_def)

lemma symbol_ext: "aext a b \<Longrightarrow> symbol b = symbol a"
  by (auto simp: aext_def symbol_def fun_eq_iff)

text \<open>The symbol of a rune is the position of the greatest endpoint that is not above it.\<close>
lemma searchPos_sorted:
  fixes es :: "int list"
  assumes "sorted es"
  shows "i < searchPos (\<lambda>e. e < r) es \<Longrightarrow> es ! i < r"
    and "searchPos (\<lambda>e. e < r) es \<le> i \<Longrightarrow> i < length es \<Longrightarrow> r \<le> es ! i"
proof -
  show "es ! i < r" if "i < searchPos (\<lambda>e. e < r) es"
    using that takeWhile_nth[of i "\<lambda>e. e < r" es] nth_mem[of i "takeWhile (\<lambda>e. e < r) es"]
    by (metis searchPos_def set_takeWhileD)
  let ?k = "searchPos (\<lambda>e. e < r) es"
  assume i: "?k \<le> i" "i < length es"
  then have "\<not> es ! ?k < r"
    using nth_length_takeWhile[of "\<lambda>e. e < r" es] by (simp add: searchPos_def)
  moreover have "es ! ?k \<le> es ! i" using assms i sorted_iff_nth_mono by blast
  ultimately show "r \<le> es ! i" by linarith
qed

lemma symbol_endpoint:
  assumes s: "sorted (aEndpoints a)" "distinct (aEndpoints a)" and e: "e \<in> set (aEndpoints a)"
  shows "e \<le> r \<longleftrightarrow> 0 \<le> symbol a r \<and> e \<le> aEndpoints a ! nat (symbol a r)"
    and "0 \<le> symbol a r \<Longrightarrow> nat (symbol a r) < length (aEndpoints a)"
proof -
  let ?es = "aEndpoints a"
  define k where "k = searchPos (\<lambda>e. e < r) ?es"
  have k: "\<And>i. i < k \<Longrightarrow> ?es ! i < r" "\<And>i. k \<le> i \<Longrightarrow> i < length ?es \<Longrightarrow> r \<le> ?es ! i"
    using searchPos_sorted[OF s(1)] unfolding k_def by blast+
  have kl: "k \<le> length ?es" by (simp add: k_def searchPos_def length_takeWhile_le)
  have sy: "symbol a r = (if k < length ?es \<and> ?es ! k = r then int k else int k - 1)"
    by (simp add: symbol_def k_def Let_def)
  obtain m where m: "m < length ?es" "?es ! m = e" using e by (auto simp: in_set_conv_nth)
  show "0 \<le> symbol a r \<Longrightarrow> nat (symbol a r) < length ?es" using kl m(1) by (auto simp: sy nat_less_iff split: if_splits)
  have mono: "\<And>i j. i < j \<Longrightarrow> j < length ?es \<Longrightarrow> ?es ! i < ?es ! j"
    using s by (metis nth_eq_iff_index_eq order_less_le sorted_iff_nth_mono dual_order.strict_trans less_imp_le_nat)
  show "e \<le> r \<longleftrightarrow> 0 \<le> symbol a r \<and> e \<le> ?es ! nat (symbol a r)"
  proof (cases "k < length ?es \<and> ?es ! k = r")
    case True
    then show ?thesis by (simp add: sy)
  next
    case False
    then have le: "e \<le> r \<longleftrightarrow> m < k"
    proof -
      have "m < k \<Longrightarrow> e \<le> r" using k(1) m by (metis less_imp_le)
      moreover have "k \<le> m \<Longrightarrow> r < e"
        using False k(2)[of m] m mono[of k m] k(2)[of k] by (cases "k = m") force+
      ultimately show ?thesis by force
    qed
    show ?thesis
    proof (cases k)
      case 0
      with False le show ?thesis by (simp add: sy)
    next
      case (Suc j)
      then have "m < k \<longleftrightarrow> e \<le> ?es ! j"
        using mono[of j m] mono[of m j] m kl by (cases m j rule: linorder_cases) auto
      with le Suc False show ?thesis unfolding sy if_not_P[OF False] by simp
    qed
  qed
qed

lemma symbol_class:
  assumes c: "classes_ok a" and n: "n \<in> set (aps a)"
  shows "in_ranges (nRanges n) r \<longleftrightarrow>
    0 \<le> symbol a r \<and> in_ranges (nRanges n) (aEndpoints a ! nat (symbol a r))"
proof -
  let ?s = "symbol a r" and ?e = "aEndpoints a ! nat (symbol a r)"
  have s: "sorted (aEndpoints a)" "distinct (aEndpoints a)"
    and mem: "\<And>q. q \<in> set (nRanges n) \<Longrightarrow> rLo q \<in> set (aEndpoints a) \<and> rHi q + 1 \<in> set (aEndpoints a)"
    using c n by (auto simp: classes_ok_def)
  have "rLo q \<le> r \<and> r \<le> rHi q \<longleftrightarrow> 0 \<le> ?s \<and> rLo q \<le> ?e \<and> ?e \<le> rHi q" if "q \<in> set (nRanges n)" for q
    using symbol_endpoint(1)[OF s, of "rLo q" r] symbol_endpoint(1)[OF s, of "rHi q + 1" r] mem[OF that]
    by auto
  then show ?thesis unfolding in_ranges_def by blast
qed

text \<open>Runes with the same symbol have the same quotients.\<close>

lemma quot_singleton: "quot r {[c] | c. P c} = (if P r then {[]} else {})"
  by (auto simp: quot_def)

lemma quot_node_reps:
  assumes "hi_ok lo hi" "hi \<noteq> 0"
  shows "quot r (reps A (nat lo) (hi_opt hi)) =
    conc (quot r A) (reps A (nat (max 0 (lo - 1))) (hi_opt (if hi \<ge> 0 then hi - 1 else hi)))"
proof -
  have "hi_opt hi \<noteq> Some 0" using assms by (auto simp: hi_opt_def)
  moreover have "nat lo - 1 = nat (max 0 (lo - 1))" by auto
  moreover have "map_option (\<lambda>h. h - 1) (hi_opt hi) = hi_opt (if hi \<ge> 0 then hi - 1 else hi)"
    using assms(2) by (auto simp: hi_opt_def)
  ultimately show ?thesis using quot_reps[of "hi_opt hi" r A "nat lo"] by simp
qed

lemma class_node:
  assumes "ainv a" "avalid a i" "sOp (aNodes a ! i) = OpClass"
  shows "aps a ! sA (aNodes a ! i) \<in> set (aps a)"
    and "alang a i = {[c] | c. in_ranges (nRanges (aps a ! sA (aNodes a ! i))) c}"
  using alang_node[OF assms(1,2)] assms(3) by (auto simp: rnode_ok_def node_lang_def)

lemma plain_node:
  assumes "ainv a" "avalid a i"
    "sOp (aNodes a ! i) \<notin> {OpClass, OpAlternate, OpConcat, OpRepeat}"
  shows "quot r (alang a i) = {}"
  using alang_node(1)[OF assms(1,2)] assms(3) by (cases "sOp (aNodes a ! i)") (auto simp: node_lang_def)

lemma earlier_node:
  assumes "ainv a" "avalid a i"
  shows "sOp (aNodes a ! i) \<in> {OpAlternate, OpConcat} \<Longrightarrow> sA (aNodes a ! i) < i \<and> sB (aNodes a ! i) < i"
    and "sOp (aNodes a ! i) = OpRepeat \<Longrightarrow> sA (aNodes a ! i) < i"
  using alang_node(2)[OF assms] by (auto simp: rnode_ok_def)

lemma quot_symbol_cong:
  assumes inv: "ainv a" and c: "classes_ok a" and s: "symbol a r = symbol a r'"
  shows "avalid a i \<Longrightarrow> quot r (alang a i) = quot r' (alang a i)"
proof (induction i rule: less_induct)
  case (less i)
  let ?n = "aNodes a ! i"
  note early = earlier_node[OF inv less.prems]
  consider "sOp ?n = OpClass" | "sOp ?n = OpAlternate" | "sOp ?n = OpConcat" | "sOp ?n = OpRepeat"
    | "sOp ?n \<notin> {OpClass, OpAlternate, OpConcat, OpRepeat}" by blast
  then show ?case
  proof cases
    case 1
    note cl = class_node[OF inv less.prems 1]
    show ?thesis
      unfolding cl(2) quot_singleton using symbol_class[OF c cl(1), of r] symbol_class[OF c cl(1), of r'] s
      by simp
  next
    case 2
    note parts = alternate_node[OF inv less.prems 2]
    show ?thesis unfolding parts(3) using less.IH parts(1,2) early 2 by simp
  next
    case 3
    note parts = concat_node_parts[OF inv less.prems 3]
    show ?thesis unfolding parts(3) quot_conc using less.IH parts(1,2) early 3 by simp
  next
    case 4
    note parts = repeat_node_parts[OF inv less.prems 4]
    show ?thesis
      unfolding parts(5) quot_node_reps[OF parts(2,3)] using less.IH parts(1) early 4 by simp
  next
    case 5
    then show ?thesis using plain_node[OF inv less.prems] by simp
  qed
qed

subsection \<open>Interning and the transition cache\<close>

lemma trans_update:
  assumes inv: "ainv a" and v: "avalid a i" "avalid a out"
    and q: "\<And>r. symbol a r = s \<Longrightarrow> alang a out = quot r (alang a i)"
  shows "ainv (a\<lparr>aTransitions := AList.update (i, s) out (aTransitions a)\<rparr>)"
proof -
  let ?b = "a\<lparr>aTransitions := AList.update (i, s) out (aTransitions a)\<rparr>"
  have same: "avalid ?b = avalid a" "alang ?b = alang a" "symbol ?b = symbol a"
    by (auto simp: avalid_def alang_def symbol_def fun_eq_iff Let_def)
  have "trans_ok ?b"
    unfolding trans_ok_def same
  proof (intro allI impI)
    fix j u out' assume m: "map_of (aTransitions ?b) (j, u) = Some out'"
    show "avalid a j \<and> avalid a out' \<and> (\<forall>r. symbol a r = u \<longrightarrow> alang a out' = quot r (alang a j))"
    proof (cases "(j, u) = (i, s)")
      case True
      with m have "out' = out" by (simp add: update_conv')
      with True v q show ?thesis by simp
    next
      case False
      with m have "map_of (aTransitions a) (j, u) = Some out'" by (auto simp: update_conv')
      with inv show ?thesis by (auto simp: ainv_def trans_ok_def)
    qed
  qed
  with inv show ?thesis by (simp add: ainv_def)
qed

definition memoize :: "nat \<Rightarrow> int \<Rightarrow> nat \<times> arena \<Rightarrow> nat \<times> arena" where
  "memoize i symb r =
     (case r of (result, a) \<Rightarrow>
        if aErr a \<noteq> None then (0, a)
        else
          (case limitError ''match'' ''derivative'' ''transitions'' (mTransitions (aLimits a))
                  (of_nat (length (aTransitions a) + 1)) of
             Some e \<Rightarrow> (0, aFail e a)
           | None \<Rightarrow>
             (case aCharge 96 1 a of
                (False, a) \<Rightarrow> (0, a)
              | (True, a) \<Rightarrow>
                  (result, a\<lparr>aTransitions := AList.update (i, symb) result (aTransitions a)\<rparr>))))"

lemma memoize_denotes:
  assumes r: "ar.denotes a (quot r (alang a i)) res" and inv: "ainv a" and v: "avalid a i" and c: "classes_ok a"
  shows "ar.denotes a (quot r (alang a i)) (memoize i (symbol a r) res)"
proof (cases res)
  case (Pair result t)
  show ?thesis
  proof (cases "afailed t")
    case True
    with Pair show ?thesis by (simp add: memoize_def ar.denotes_failed afailed_def)
  next
    case False
    note d = ar.denotesD[OF r[unfolded Pair] False]
    show ?thesis
    proof (cases "limitError ''match'' ''derivative'' ''transitions'' (mTransitions (aLimits t))
        (of_nat (length (aTransitions t) + 1))")
      case (Some e)
      with Pair False have "memoize i (symbol a r) res = (0, aFail e t)" by (simp add: memoize_def afailed_def)
      then show ?thesis by (simp add: ar.denotes_failed)
    next
      case None
      show ?thesis
      proof (cases rule: aCharge_cases[of 96 1 t])
        case (refused a')
        with Pair False None show ?thesis by (simp add: memoize_def ar.denotes_failed afailed_def)
      next
        case (ok b)
        define u where "u = t\<lparr>aLedger := b\<rparr>"
        define w where "w = u\<lparr>aTransitions := AList.update (i, symbol a r) result (aTransitions u)\<rparr>"
        have u: "ainv u" "avalid u i" "avalid u result" "alang u result = quot r (alang a i)"
          "alang u i = alang a i" "symbol u = symbol a" "classes_ok u"
          using d v c aext_valid[OF d(3)] aext_lang[OF d(3)] symbol_ext[OF d(3)] classes_ok_ext[OF d(3)]
          by (simp_all add: u_def classes_ok_def)
        have "ainv w"
          unfolding w_def
        proof (rule trans_update[OF u(1-3)])
          fix r' assume "symbol u r' = symbol a r"
          then show "alang u result = quot r' (alang u i)"
            using quot_symbol_cong[OF u(1,7) _ u(2), of r' r] u by simp
        qed
        moreover have "memoize i (symbol a r) res = (result, w)"
          using Pair False None ok by (simp add: memoize_def afailed_def u_def w_def)
        moreover have "avalid w = avalid u" "alang w = alang u" "aext a w = aext a t"
          by (auto simp: w_def u_def avalid_def alang_def fun_eq_iff aext_def)
        ultimately show ?thesis using d u by (simp add: ar.denotes_def ar.yields_def)
      qed
    qed
  qed
qed

lemma memoize_sticky: "afailed (snd r) \<Longrightarrow> afailed (snd (memoize i symb r))"
  by (cases r) (auto simp: memoize_def afailed_def)

text \<open>One step of the derivative, before it is stored.\<close>

definition derive_step :: "nat \<Rightarrow> nat \<Rightarrow> int \<Rightarrow> arena \<Rightarrow> nat \<times> arena" where
  "derive_step depth i symb a =
     (let n = aNodes a ! i in
      case sOp n of
        OpClass \<Rightarrow>
          (if 0 \<le> symb \<and> containsRune (nRanges (aps a ! sA n)) (aEndpoints a ! nat symb) then 1 else 0, a)
      | OpAlternate \<Rightarrow>
          (case derive (Suc depth) (sA n) symb a of (s, a) \<Rightarrow>
           case derive (Suc depth) (sB n) symb a of (t, a) \<Rightarrow> alt (Suc depth) s t a)
      | OpConcat \<Rightarrow>
          (case derive (Suc depth) (sA n) symb a of (s, a) \<Rightarrow>
           case seq (Suc depth) s (sB n) a of (result, a) \<Rightarrow>
             if sNullable (aNodes a ! sA n) then
               case derive (Suc depth) (sB n) symb a of (t, a) \<Rightarrow> alt (Suc depth) result t a
             else (result, a))
      | OpRepeat \<Rightarrow>
          (case derive (Suc depth) (sA n) symb a of (s, a) \<Rightarrow>
           case rep (sA n) (max 0 (sLo n - 1)) (if sHi n \<ge> 0 then sHi n - 1 else sHi n) a of (t, a) \<Rightarrow>
             seq (Suc depth) s t a)
      | _ \<Rightarrow> (0, a))"

lemma derive_eq:
  "derive depth i symb a =
     (case map_of (aTransitions a) (i, symb) of
        Some out \<Rightarrow> (out, a)
      | None \<Rightarrow> (case enter depth a of (False, a) \<Rightarrow> (0, a)
                 | (True, a) \<Rightarrow> memoize i symb (derive_step depth i symb a)))"
  by (subst derive.simps) (simp only: memoize_def derive_step_def Let_def)

subsection \<open>The derivative is the left quotient\<close>

lemma bind_sticky: "afailed (snd r) \<Longrightarrow> (\<And>v t. afailed t \<Longrightarrow> afailed (snd (f v t))) \<Longrightarrow>
    afailed (snd (case r of (v, t) \<Rightarrow> f v t))"
  by (cases r) auto

lemma derive_step_denotes:
  assumes inv: "ainv a" and v: "avalid a i" and c: "classes_ok a"
    and IH: "\<And>j t. ainv t \<Longrightarrow> avalid t j \<Longrightarrow> aext a t \<Longrightarrow>
      ar.denotes t (quot r (alang t j)) (derive (Suc depth) j (symbol a r) t)"
  shows "ar.denotes a (quot r (alang a i)) (derive_step depth i (symbol a r) a)"
proof -
  let ?n = "aNodes a ! i"
  note base = ainv_base[OF inv]
  consider "sOp ?n = OpClass" | "sOp ?n = OpAlternate" | "sOp ?n = OpConcat" | "sOp ?n = OpRepeat"
    | "sOp ?n \<notin> {OpClass, OpAlternate, OpConcat, OpRepeat}" by blast
  then show ?thesis
  proof cases
    case 1
    note cl = class_node[OF inv v 1]
    have "scalar_ranges (-1) (nRanges (aps a ! sA ?n))" using c cl(1) by (auto simp: classes_ok_def)
    note cr = containsRune_iff[OF this]
    have "quot r (alang a i) = (if 0 \<le> symbol a r \<and>
        containsRune (nRanges (aps a ! sA ?n)) (aEndpoints a ! nat (symbol a r)) then {[]} else {})"
      unfolding cl(2) quot_singleton cr using symbol_class[OF c cl(1), of r] by simp
    with 1 base inv show ?thesis by (auto simp: derive_step_def intro!: ar.denotes_same)
  next
    case 2
    note parts = alternate_node[OF inv v 2]
    have "ar.denotes a (quot r (alang a i))
       (case derive (Suc depth) (sA ?n) (symbol a r) a of (s, t) \<Rightarrow>
        case derive (Suc depth) (sB ?n) (symbol a r) t of (z, u) \<Rightarrow> alt (Suc depth) s z u)"
    proof (rule ar.denotes_bind[OF IH[OF inv parts(1) aext_refl]], goal_cases)
      case (1 s t)
      then show ?case by (intro bind_sticky derive_sticky alt_sticky)
    next
      case (2 s t)
      note st = 2
      have vB: "avalid t (sB ?n)" "alang t (sB ?n) = alang a (sB ?n)"
        using parts(2) 2 aext_valid aext_lang by blast+
      show ?case
      proof (rule ar.denotes_bind[OF IH[OF 2(3) vB(1) 2(4)]], goal_cases)
        case 1
        then show ?case by (rule alt_sticky)
      next
        case (2 z u)
        have "avalid u s" "alang u s = quot r (alang a (sA ?n))" using 2 st aext_valid aext_lang by metis+
        with 2 vB alt_denotes[of u s z "Suc depth"] show ?case by (simp add: parts(3))
      qed
    qed
    with 2 show ?thesis by (simp add: derive_step_def Let_def)
  next
    case 3
    note parts = concat_node_parts[OF inv v 3]
    let ?A = "alang a (sA ?n)" and ?B = "alang a (sB ?n)"
    have null: "sNullable (aNodes w ! sA ?n) \<longleftrightarrow> [] \<in> ?A" if "aext a w" for w
      using aext_node[OF that parts(1)] anullable[OF inv parts(1)] by simp
    have tail: "ar.denotes w (quot r (alang a i)) (if sNullable (aNodes w ! sA ?n) then
            case derive (Suc depth) (sB ?n) (symbol a r) w of (t, u) \<Rightarrow> alt (Suc depth) x t u
          else (x, w))"
      if w: "ainv w" "aext a w" "avalid w x" "alang w x = conc (quot r ?A) ?B" for x w
    proof (cases "[] \<in> ?A")
      case True
      have vB: "avalid w (sB ?n)" "alang w (sB ?n) = ?B"
        using parts(2) w aext_valid aext_lang by blast+
      have "ar.denotes w (quot r (alang a i))
          (case derive (Suc depth) (sB ?n) (symbol a r) w of (t, u) \<Rightarrow> alt (Suc depth) x t u)"
      proof (rule ar.denotes_bind[OF IH[OF w(1) vB(1) w(2)]], goal_cases)
        case 1
        then show ?case by (rule alt_sticky)
      next
        case (2 t u)
        have "avalid u x" "alang u x = conc (quot r ?A) ?B" using 2 w aext_valid aext_lang by metis+
        with 2 vB True alt_denotes[of u x t "Suc depth"] show ?case by (simp add: parts(3) quot_conc)
      qed
      with True null[OF w(2)] show ?thesis by simp
    next
      case False
      with null[OF w(2)] w show ?thesis by (auto simp: parts(3) quot_conc intro: ar.denotes_same)
    qed
    have "ar.denotes a (quot r (alang a i))
      (case derive (Suc depth) (sA ?n) (symbol a r) a of (s, t) \<Rightarrow>
       case seq (Suc depth) s (sB ?n) t of (x, w) \<Rightarrow>
         if sNullable (aNodes w ! sA ?n) then
           case derive (Suc depth) (sB ?n) (symbol a r) w of (t, u) \<Rightarrow> alt (Suc depth) x t u
         else (x, w))"
    proof (rule ar.denotes_bind[OF IH[OF inv parts(1) aext_refl]], goal_cases)
      case (1 s t)
      from seq_sticky[OF 1] show ?case
        by (rule bind_sticky) (auto intro!: bind_sticky derive_sticky alt_sticky)
    next
      case (2 s t)
      have vB: "avalid t (sB ?n)" "alang t (sB ?n) = ?B"
        using parts(2) 2 aext_valid aext_lang by blast+
      show ?case
      proof (rule ar.denotes_bind[OF seq_denotes[OF 2(3) 2(5) vB(1)]], goal_cases)
        case (1 x w)
        then show ?case by (auto intro!: bind_sticky derive_sticky alt_sticky)
      next
        case (2 x w)
        then show ?case using \<open>aext a t\<close> vB \<open>alang t s = _\<close> aext_trans by (intro tail) auto
      qed
    qed
    with 3 show ?thesis by (simp add: derive_step_def Let_def)
  next
    case 4
    note parts = repeat_node_parts[OF inv v 4]
    let ?lo = "max 0 (sLo ?n - 1)" and ?hi = "if sHi ?n \<ge> 0 then sHi ?n - 1 else sHi ?n"
    have ok: "hi_ok ?lo ?hi" using parts(2,3) by (auto simp: hi_ok_def)
    have "ar.denotes a (quot r (alang a i))
      (case derive (Suc depth) (sA ?n) (symbol a r) a of (s, t) \<Rightarrow>
       case rep (sA ?n) ?lo ?hi t of (z, u) \<Rightarrow> seq (Suc depth) s z u)"
    proof (rule ar.denotes_bind[OF IH[OF inv parts(1) aext_refl]], goal_cases)
      case (1 s t)
      then show ?case by (intro bind_sticky rep_sticky seq_sticky)
    next
      case (2 s t)
      note st = 2
      have vA: "avalid t (sA ?n)" "alang t (sA ?n) = alang a (sA ?n)"
        using parts(1) 2 aext_valid aext_lang by blast+
      have ne: "[] \<notin> alang t (sA ?n)" using vA parts(4) by simp
      show ?case
      proof (rule ar.denotes_bind[OF rep_denotes[OF 2(3) vA(1) ok ne]], goal_cases)
        case 1
        then show ?case by (rule seq_sticky)
      next
        case (2 z u)
        have "avalid u s" "alang u s = quot r (alang a (sA ?n))" using 2 st aext_valid aext_lang by metis+
        with 2 vA seq_denotes[of u s z "Suc depth"] show ?case
          unfolding parts(5) quot_node_reps[OF parts(2,3)] by simp
      qed
    qed
    with 4 show ?thesis by (simp add: derive_step_def Let_def)
  next
    case 5
    then have "derive_step depth i (symbol a r) a = (0, a)"
      by (cases "sOp ?n") (auto simp: derive_step_def)
    with plain_node[OF inv v 5] base inv show ?thesis by (simp add: ar.denotes_same)
  qed
qed

theorem derive_denotes:
  "ainv a \<Longrightarrow> avalid a i \<Longrightarrow> classes_ok a \<Longrightarrow>
     ar.denotes a (quot r (alang a i)) (derive depth i (symbol a r) a)"
proof (induction "512 - depth" arbitrary: depth i a rule: less_induct)
  case less
  show ?case
    unfolding derive_eq[of depth]
  proof (cases "map_of (aTransitions a) (i, symbol a r)")
    case (Some out)
    with less.prems have "avalid a out" "alang a out = quot r (alang a i)"
      by (auto simp: ainv_def trans_ok_def)
    with Some less.prems show "ar.denotes a (quot r (alang a i))
      (case map_of (aTransitions a) (i, symbol a r) of
         None \<Rightarrow> case enter depth a of (True, t) \<Rightarrow> memoize i (symbol a r) (derive_step depth i (symbol a r) t)
           | (False, t) \<Rightarrow> (0, t)
       | Some out \<Rightarrow> (out, a))" by (simp add: ar.denotes_same)
  next
    case None
    have "ar.denotes a (quot r (alang a i)) (case enter depth a of (False, t) \<Rightarrow> (0, t)
        | (True, t) \<Rightarrow> memoize i (symbol a r) (derive_step depth i (symbol a r) t))"
    proof (rule enter_denotes, goal_cases)
      case (1 b)
      define t where "t = a\<lparr>aLedger := b\<rparr>"
      have t: "ainv t" "avalid t i" "classes_ok t" "symbol t = symbol a" "alang t = alang a"
        using less.prems by (simp_all add: t_def classes_ok_def)
      have "ar.denotes t (quot r (alang t i)) (derive_step depth i (symbol t r) t)"
      proof (rule derive_step_denotes[OF t(1-3)])
        fix j u assume "ainv u" "avalid u j" "aext t u"
        with less.hyps[of "Suc depth" u j] 1 t(3) show
          "ar.denotes u (quot r (alang u j)) (derive (Suc depth) j (symbol t r) u)"
          by (simp add: classes_ok_ext symbol_ext[of t u])
      qed
      from memoize_denotes[OF this t(1-3)] t(4,5) show ?case by (simp add: t_def)
    qed
    with None show "ar.denotes a (quot r (alang a i))
      (case map_of (aTransitions a) (i, symbol a r) of
         None \<Rightarrow> case enter depth a of (True, t) \<Rightarrow> memoize i (symbol a r) (derive_step depth i (symbol a r) t)
           | (False, t) \<Rightarrow> (0, t)
       | Some out \<Rightarrow> (out, a))" by simp
  qed
qed

subsection \<open>A new arena\<close>

lemma put_new:
  assumes "aIntern a n = None" and ok: "\<not> afailed (snd (put n a))"
  obtains b where "put n a = (length (aNodes a),
      a\<lparr>aNodes := aNodes a @ [n], aIntern := (aIntern a)(n \<mapsto> length (aNodes a)), aLedger := b\<rparr>)"
    "lErr b = None"
proof (cases rule: aCharge_cases[of 0 1 a])
  case (refused a')
  with ok show ?thesis by (simp add: put_def)
next
  case c1: (ok b1)
  show ?thesis
  proof (cases "limitError ''match'' ''derivative'' ''nodes'' (mNodes (aLimits a)) (of_nat (length (aNodes a) + 1))")
    case (Some e)
    with ok c1 assms(1) show ?thesis by (simp add: put_def)
  next
    case None
    show ?thesis
    proof (cases rule: aCharge_cases[of 256 1 "a\<lparr>aLedger := b1\<rparr>"])
      case (refused a')
      with ok c1 None assms(1) show ?thesis by (simp add: put_def)
    next
      case (ok b2)
      with c1 None assms(1) that[of b2] show ?thesis by (simp add: put_def Let_def)
    qed
  qed
qed

definition endpoint_list :: "node_data list \<Rightarrow> int list" where
  "endpoint_list ns = sortCompact (concat (map (\<lambda>n. concat (map (\<lambda>r. [rLo r, rHi r + 1]) (nRanges n))) ns))"

lemma set_sortCompact [simp]: "set (sortCompact xs) = set xs"
  by (simp add: sortCompact_def)

lemma distinct_remdups_adj: "sorted xs \<Longrightarrow> distinct (remdups_adj xs)"
  by (induction xs rule: remdups_adj.induct) (auto simp: less_le)

lemma sorted_sortCompact: "sorted (sortCompact xs)" "distinct (sortCompact xs)"
  by (simp_all add: sortCompact_def sorted_remdups_adj distinct_remdups_adj)

theorem newArena_ok:
  assumes tab: "table_ok (pNodes (gData p))" and ok: "\<not> afailed (newArena l p)"
  shows "ainv (newArena l p)" "classes_ok (newArena l p)"
    and "aProgram (newArena l p) = p" "aLimits (newArena l p) = l"
proof -
  define e where "e = residual0\<lparr>sOp := OpEpsilon, sNullable := True\<rparr>"
  define a0 where "a0 = \<lparr>aNodes = [], aIntern = Map.empty, aTransitions = [], aEndpoints = [],
      aProgram = p, aLimits = l, aLedger = new_ledger ''match'' ''derivative'' (mBytes l) (mWork l)\<rparr>"
  define fin where "fin = (\<lambda>a. let nr = foldl (\<lambda>nr n. addSat nr (len64 (nRanges n))) 0 (pNodes (gData p)) in
      case aCharge (mulSat nr 16) (mulSat nr (of_nat (bitsLen (unat nr)) + 1)) a of
        (False, a) \<Rightarrow> a
      | (True, a) \<Rightarrow> a\<lparr>aEndpoints := endpoint_list (pNodes (gData p))\<rparr>)"
  have eq: "newArena l p = (case aCharge 1024 1 a0 of (False, a) \<Rightarrow> a
      | (True, a) \<Rightarrow> fin (snd (put e (snd (put residual0 a)))))"
    by (simp add: newArena_def a0_def e_def fin_def endpoint_list_def Let_def cong: prod.case_cong bool.case_cong)
  have fin_sticky: "afailed a \<Longrightarrow> afailed (fin a)" for a
    by (simp add: fin_def aCharge_sticky Let_def)
  from ok eq obtain b where c: "aCharge 1024 1 a0 = (True, a0\<lparr>aLedger := b\<rparr>)"
    by (cases rule: aCharge_cases[of 1024 1 a0]) auto
  define a1 where "a1 = a0\<lparr>aLedger := b\<rparr>"
  from ok eq c have f: "\<not> afailed (fin (snd (put e (snd (put residual0 a1)))))" by (simp add: a1_def)
  then have f1: "\<not> afailed (snd (put residual0 a1))" using fin_sticky put_sticky by blast
  have a1: "aNodes a1 = []" "aIntern a1 = Map.empty" "aTransitions a1 = []" "aProgram a1 = p" "aLimits a1 = l"
    by (simp_all add: a1_def a0_def)
  then have "aIntern a1 residual0 = None" by simp
  from this f1 obtain b1 where "put residual0 a1 = (length (aNodes a1), a1\<lparr>aNodes := aNodes a1 @ [residual0],
      aIntern := (aIntern a1)(residual0 \<mapsto> length (aNodes a1)), aLedger := b1\<rparr>)"
    by (rule put_new)
  then have p1: "snd (put residual0 a1) =
      a1\<lparr>aNodes := [residual0], aIntern := [residual0 \<mapsto> 0], aLedger := b1\<rparr>"
    by (simp add: a1)
  define a2 where "a2 = snd (put residual0 a1)"
  have "residual0 \<noteq> e" by (simp add: e_def residual0_def)
  then have "aIntern a2 e = None" by (simp add: a2_def p1)
  moreover have "\<not> afailed (snd (put e a2))" using f fin_sticky a2_def by blast
  ultimately obtain b2 where "put e a2 = (length (aNodes a2), a2\<lparr>aNodes := aNodes a2 @ [e],
      aIntern := (aIntern a2)(e \<mapsto> length (aNodes a2)), aLedger := b2\<rparr>)"
    by (rule put_new)
  moreover have a2: "aNodes a2 = [residual0]" "aIntern a2 = [residual0 \<mapsto> 0]"
    "aTransitions a2 = []" "aProgram a2 = p" "aLimits a2 = l"
    by (simp_all add: a2_def p1 a1)
  ultimately have p2: "snd (put e a2) = a2\<lparr>aNodes := [residual0, e],
      aIntern := [residual0 \<mapsto> 0, e \<mapsto> 1], aLedger := b2\<rparr>"
    by simp
  define a3 where "a3 = snd (put e a2)"
  have a3: "aNodes a3 = [residual0, e]" "aIntern a3 = [residual0 \<mapsto> 0, e \<mapsto> 1]" "aTransitions a3 = []"
    "aProgram a3 = p" "aLimits a3 = l"
    by (simp_all add: a3_def p2 a2)
  have N: "newArena l p = fin a3" using eq c by (simp add: a3_def a2_def a1_def)
  obtain b3 where r: "newArena l p = a3\<lparr>aLedger := b3, aEndpoints := endpoint_list (pNodes (gData p))\<rparr>"
  proof (cases rule: aCharge_cases[of "mulSat (foldl (\<lambda>nr n. addSat nr (len64 (nRanges n))) 0 (pNodes (gData p))) 16"
      "mulSat (foldl (\<lambda>nr n. addSat nr (len64 (nRanges n))) 0 (pNodes (gData p)))
        (of_nat (bitsLen (unat (foldl (\<lambda>nr n. addSat nr (len64 (nRanges n))) 0 (pNodes (gData p))))) + 1)" a3])
    case (ok b3)
    then show ?thesis using that[of b3] N by (simp add: fin_def Let_def)
  next
    case (refused a')
    then show ?thesis using N \<open>\<not> afailed (newArena l p)\<close> by (simp add: fin_def Let_def)
  qed
  show "aProgram (newArena l p) = p" "aLimits (newArena l p) = l" by (simp_all add: r a3)
  have rn: "rlang ps [residual0, e] 0 = {}" for ps by (subst rlang.simps) (simp add: residual0_def)
  have ok0: "rnode_ok ps [residual0, e] 0 residual0" for ps
    by (simp add: rnode_ok_def node_lang_def residual0_def)
  have ok1: "rnode_ok ps [residual0, e] (Suc 0) e" for ps
    by (simp add: rnode_ok_def node_lang_def residual0_def e_def)
  have "nodes_ok ps [residual0, e]" for ps
    using ok0 ok1 by (auto simp: nodes_ok_def less_Suc_eq e_def) (simp add: residual0_def)
  then show "ainv (newArena l p)"
    by (auto simp: ainv_def trans_ok_def r a3 split: if_splits)
  have "scalar_ranges (-1) (nRanges n)" if "n \<in> set (pNodes (gData p))" for n
    using that table_okD(5)[OF tab] by (auto simp: in_set_conv_nth)
  then show "classes_ok (newArena l p)"
    unfolding classes_ok_def
    by (auto simp: r a3 endpoint_list_def sorted_sortCompact)
qed

end
