(* ===== verification/Go_Regexp.thy ===== *)
theory Go_Regexp
  imports Pattern_Lang
begin

text \<open>
  The part of Go's standard library the pattern engine runs values through.  First the UTF-8
  decoding of a string into runes (\<open>range value\<close>, \<open>utf8.RuneCountInString\<close>).  Then the
  regular expressions of package \<open>regexp\<close>, as far as the engine writes them: a whole-text
  anchored expression \<open>^...$\<close> over groups, alternation, classes of \<open>\x{..}\<close> ranges and counted
  repetition, with the count limit of 1000.  The expression is read by a lexer and a stack
  machine, and matched by derivatives; matching is shown to decide the language.
\<close>

subsection \<open>UTF-8\<close>

abbreviation byte_at :: "string \<Rightarrow> nat \<Rightarrow> int" where
  "byte_at s k \<equiv> of_char (s ! k)"

abbreviation contByte :: "int \<Rightarrow> bool" where
  "contByte b \<equiv> 0x80 \<le> b \<and> b \<le> 0xBF"

text \<open>The first rune of a nonempty string and its width; an invalid sequence is \<open>U+FFFD\<close>, width 1.\<close>
definition decodeRune :: "string \<Rightarrow> rune \<times> nat" where
  "decodeRune s =
     (let b0 = byte_at s 0; b1 = byte_at s 1; b2 = byte_at s 2; b3 = byte_at s 3; n = length s in
      if b0 < 0x80 then (b0, 1)
      else if 0xC2 \<le> b0 \<and> b0 \<le> 0xDF \<and> 2 \<le> n \<and> contByte b1
        then ((b0 - 0xC0) * 64 + (b1 - 0x80), 2)
      else if 0xE0 \<le> b0 \<and> b0 \<le> 0xEF \<and> 3 \<le> n \<and> contByte b1 \<and> (b0 = 0xE0 \<longrightarrow> 0xA0 \<le> b1)
          \<and> (b0 = 0xED \<longrightarrow> b1 \<le> 0x9F) \<and> contByte b2
        then ((b0 - 0xE0) * 4096 + (b1 - 0x80) * 64 + (b2 - 0x80), 3)
      else if 0xF0 \<le> b0 \<and> b0 \<le> 0xF4 \<and> 4 \<le> n \<and> contByte b1 \<and> (b0 = 0xF0 \<longrightarrow> 0x90 \<le> b1)
          \<and> (b0 = 0xF4 \<longrightarrow> b1 \<le> 0x8F) \<and> contByte b2 \<and> contByte b3
        then ((b0 - 0xF0) * 262144 + (b1 - 0x80) * 4096 + (b2 - 0x80) * 64 + (b3 - 0x80), 4)
      else (0xFFFD, 1))"

lemma width_if: "0 < snd x \<Longrightarrow> 0 < snd y \<Longrightarrow> (0 :: nat) < snd (if c then x else y)"
  by simp

lemma decodeRune_width: "0 < snd (decodeRune s)"
  unfolding decodeRune_def Let_def by (intro width_if) simp_all

function utf8_runes :: "string \<Rightarrow> rune list" where
  "utf8_runes s = (if s = [] then [] else
     let (r, w) = decodeRune s in r # utf8_runes (drop w s))"
  by pat_completeness auto
termination
proof (relation "measure length", simp, goal_cases)
  case (1 s x r w)
  then have "w = snd (decodeRune s)" by (metis snd_conv)
  then have "0 < w" using decodeRune_width by metis
  moreover have "s \<noteq> []" by (rule 1(1))
  ultimately show ?case by (cases s) auto
qed

text \<open>\<open>strings.Builder.WriteRune\<close>\<close>
definition encodeRune :: "rune \<Rightarrow> string" where
  "encodeRune r =
     (if r < 0 \<or> r > maxRune \<or> (0xD800 \<le> r \<and> r \<le> 0xDFFF) then [CHR 0xEF, CHR 0xBF, CHR 0xBD]
      else if r < 0x80 then [char_of r]
      else if r < 0x800 then [char_of (0xC0 + r div 64), char_of (0x80 + r mod 64)]
      else if r < 0x10000 then
        [char_of (0xE0 + r div 4096), char_of (0x80 + r div 64 mod 64), char_of (0x80 + r mod 64)]
      else [char_of (0xF0 + r div 262144), char_of (0x80 + r div 4096 mod 64),
            char_of (0x80 + r div 64 mod 64), char_of (0x80 + r mod 64)])"

declare utf8_runes.simps [simp del]

lemma length_utf8_runes: "length (utf8_runes s) \<le> length s"
proof (induction s rule: utf8_runes.induct)
  case (1 s)
  obtain r w where d: "decodeRune s = (r, w)" by fastforce
  with decodeRune_width[of s] have w: "0 < w" by simp
  show ?case
  proof (cases "s = []")
    case False
    with 1[OF False d[symmetric] refl] w have "length (utf8_runes (drop w s)) < length s" by (cases s) auto
    with False d show ?thesis by (simp add: utf8_runes.simps[of s])
  qed (simp add: utf8_runes.simps)
qed

subsection \<open>Hexadecimal text\<close>

definition hex_char :: "nat \<Rightarrow> char" where
  "hex_char n = (if n < 10 then char_of (48 + n) else char_of (55 + n))"

definition hex_val :: "char \<Rightarrow> nat option" where
  "hex_val c = (let b = of_char c in
     if 48 \<le> b \<and> b \<le> 57 then Some (b - 48)
     else if 65 \<le> b \<and> b \<le> 70 then Some (b - 55)
     else if 97 \<le> b \<and> b \<le> 102 then Some (b - 87) else None)"

text \<open>\<open>fmt\<close>'s \<open>%X\<close>\<close>
fun hex_of_nat :: "nat \<Rightarrow> string" where
  "hex_of_nat n = (if n < 16 then [hex_char n] else hex_of_nat (n div 16) @ [hex_char (n mod 16)])"

declare hex_of_nat.simps [simp del]

fun nat_of_hex :: "nat \<Rightarrow> string \<Rightarrow> nat option" where
  "nat_of_hex acc [] = Some acc"
| "nat_of_hex acc (c # s) = Option.bind (hex_val c) (\<lambda>v. nat_of_hex (acc * 16 + v) s)"

lemma nat_of_hex_append:
  "nat_of_hex acc (s @ t) = Option.bind (nat_of_hex acc s) (\<lambda>n. nat_of_hex n t)"
  by (induction s arbitrary: acc) (auto split: Option.bind_splits)

lemma hex_val_char [simp]: "n < 16 \<Longrightarrow> hex_val (hex_char n) = Some n"
  by (auto simp: hex_val_def hex_char_def Let_def)

lemma nat_of_hex_of_nat [simp]: "nat_of_hex 0 (hex_of_nat n) = Some n"
proof (induction n rule: hex_of_nat.induct)
  case (1 n)
  show ?case
  proof (cases "n < 16")
    case True
    then show ?thesis by (subst hex_of_nat.simps) simp
  next
    case False
    with 1 show ?thesis by (subst hex_of_nat.simps) (simp add: nat_of_hex_append)
  qed
qed

lemma hex_of_nat_chars: "c \<in> set (hex_of_nat n) \<Longrightarrow> hex_val c \<noteq> None"
proof (induction n rule: hex_of_nat.induct)
  case (1 n)
  show ?case
  proof (cases "n < 16")
    case True
    with 1(2) show ?thesis by (simp add: hex_of_nat.simps[of n])
  next
    case False
    with 1 show ?thesis by (auto simp: hex_of_nat.simps[of n])
  qed
qed

lemma hex_of_nat_nonempty [simp]: "hex_of_nat n \<noteq> []"
  by (subst hex_of_nat.simps) simp

subsection \<open>Expressions and matching\<close>

datatype gre =
    GEps
  | GClass bool "(int \<times> int) list"
  | GCat gre gre
  | GAlt gre gre
  | GRep gre nat "nat option"

text \<open>A negated class is complemented within the code points.\<close>
definition class_has :: "bool \<Rightarrow> (int \<times> int) list \<Rightarrow> rune \<Rightarrow> bool" where
  "class_has neg rs c \<longleftrightarrow>
     (let inside = list_ex (\<lambda>(lo, hi). lo \<le> c \<and> c \<le> hi) rs in
      if neg then 0 \<le> c \<and> c \<le> maxRune \<and> \<not> inside else inside)"

fun gre_lang :: "gre \<Rightarrow> rune lang" where
  "gre_lang GEps = {[]}"
| "gre_lang (GClass neg rs) = {[c] | c. class_has neg rs c}"
| "gre_lang (GCat r s) = conc (gre_lang r) (gre_lang s)"
| "gre_lang (GAlt r s) = gre_lang r \<union> gre_lang s"
| "gre_lang (GRep r lo hi) = reps (gre_lang r) lo hi"

fun gre_nullable :: "gre \<Rightarrow> bool" where
  "gre_nullable GEps = True"
| "gre_nullable (GClass neg rs) = False"
| "gre_nullable (GCat r s) = (gre_nullable r \<and> gre_nullable s)"
| "gre_nullable (GAlt r s) = (gre_nullable r \<or> gre_nullable s)"
| "gre_nullable (GRep r lo hi) = (below lo hi \<and> (lo = 0 \<or> gre_nullable r))"

fun gre_deriv :: "rune \<Rightarrow> gre \<Rightarrow> gre" where
  "gre_deriv c GEps = GClass False []"
| "gre_deriv c (GClass neg rs) = (if class_has neg rs c then GEps else GClass False [])"
| "gre_deriv c (GCat r s) =
     (if gre_nullable r then GAlt (GCat (gre_deriv c r) s) (gre_deriv c s) else GCat (gre_deriv c r) s)"
| "gre_deriv c (GAlt r s) = GAlt (gre_deriv c r) (gre_deriv c s)"
| "gre_deriv c (GRep r lo hi) =
     (if hi = Some 0 then GClass False []
      else GCat (gre_deriv c r) (GRep r (lo - 1) (map_option (\<lambda>h. h - 1) hi)))"

fun gre_match :: "gre \<Rightarrow> rune list \<Rightarrow> bool" where
  "gre_match r [] = gre_nullable r"
| "gre_match r (c # w) = gre_match (gre_deriv c r) w"

lemma gre_nullable_iff: "gre_nullable r \<longleftrightarrow> [] \<in> gre_lang r"
proof (induction r)
  case (GRep r lo hi)
  show ?case
  proof (cases "lo = 0 \<or> [] \<in> gre_lang r")
    case True
    have "below lo hi \<Longrightarrow> concat (replicate lo []) \<in> reps (gre_lang r) lo hi"
      using True by (intro repsI) auto
    moreover have "[] \<in> reps (gre_lang r) lo hi \<Longrightarrow> below lo hi"
      by (cases hi) (auto elim!: repsE)
    ultimately show ?thesis using True GRep by auto
  next
    case False
    with GRep Nil_in_reps[of "gre_lang r" lo hi] show ?thesis by simp
  qed
qed simp_all

lemma class_empty [simp]: "gre_lang (GClass False []) = {}"
  by (simp add: class_has_def)

lemma gre_deriv_quot: "gre_lang (gre_deriv c r) = quot c (gre_lang r)"
proof (induction r)
  case (GClass neg rs)
  then show ?case by (auto simp: quot_def class_has_def)
next
  case (GCat r s)
  then show ?case by (simp add: quot_conc gre_nullable_iff)
next
  case (GRep r lo hi)
  then show ?case by (simp add: quot_reps class_has_def)
qed (simp_all add: class_has_def)

text \<open>Matching by derivatives decides the language of an expression.\<close>
theorem gre_match_iff: "gre_match r w \<longleftrightarrow> w \<in> gre_lang r"
  by (induction w arbitrary: r) (simp_all add: gre_nullable_iff gre_deriv_quot quot_def)

subsection \<open>Reading an expression\<close>

datatype token = TOpen | TClose | TBar | TClass bool "(int \<times> int) list" | TRepeat nat "nat option"

text \<open>One escape \<open>\x{..}\<close>, with what follows it.\<close>
definition escape :: "string \<Rightarrow> (int \<times> string) option" where
  "escape s =
     (if take 3 s = [CHR 0x5C, CHR ''x'', CHR ''{''] then
        let h = takeWhile (\<lambda>c. c \<noteq> CHR ''}'') (drop 3 s) in
        (case dropWhile (\<lambda>c. c \<noteq> CHR ''}'') (drop 3 s) of
           [] \<Rightarrow> None
         | _ # r \<Rightarrow>
             if h = [] then None
             else
               (case nat_of_hex 0 h of
                  None \<Rightarrow> None
                | Some n \<Rightarrow> if int n > maxRune then None else Some (int n, r)))
      else None)"

lemma escape_shorter: "escape s = Some (n, r) \<Longrightarrow> length r < length s"
proof -
  assume a: "escape s = Some (n, r)"
  have "length (dropWhile (\<lambda>c. c \<noteq> CHR ''}'') (drop 3 s)) \<le> length s"
    using length_dropWhile_le[of "\<lambda>c. c \<noteq> CHR ''}''" "drop 3 s"] by simp
  with a show ?thesis by (auto simp: escape_def Let_def split: list.splits option.splits if_splits)
qed

function class_elems :: "string \<Rightarrow> (int \<times> int) list option" where
  "class_elems s =
     (if s = [] then Some []
      else case escape s of
        None \<Rightarrow> None
      | Some (lo, r) \<Rightarrow>
          if r \<noteq> [] \<and> hd r = CHR ''-'' then
            (case escape (tl r) of
               None \<Rightarrow> None
             | Some (hi, r') \<Rightarrow>
                 if hi < lo then None else map_option ((#) (lo, hi)) (class_elems r'))
          else map_option ((#) (lo, lo)) (class_elems r))"
  by pat_completeness auto
termination
  by (relation "measure length") (auto dest!: escape_shorter)

declare class_elems.simps [simp del]

definition class_body :: "string \<Rightarrow> token option" where
  "class_body s =
     (if s = [] then None
      else if hd s = CHR ''^'' then
        (if tl s = [] then None else map_option (TClass True) (class_elems (tl s)))
      else map_option (TClass False) (class_elems s))"

text \<open>A count: decimal, without a leading zero, at most 1000.\<close>
definition count_text :: "string \<Rightarrow> nat option" where
  "count_text s =
     (if s = [] \<or> \<not> list_all is_digit s \<or> (1 < length s \<and> hd s = CHR ''0'') \<or> 1000 < nat_of_dec s
      then None else Some (nat_of_dec s))"

definition braces_body :: "string \<Rightarrow> token option" where
  "braces_body s =
     (case count_text (takeWhile (\<lambda>c. c \<noteq> CHR '','') s) of
        None \<Rightarrow> None
      | Some m \<Rightarrow>
        (case dropWhile (\<lambda>c. c \<noteq> CHR '','') s of
           [] \<Rightarrow> Some (TRepeat m (Some m))
         | _ # r \<Rightarrow>
             if r = [] then Some (TRepeat m None)
             else (case count_text r of
                     None \<Rightarrow> None
                   | Some n \<Rightarrow> if n < m then None else Some (TRepeat m (Some n)))))"

definition emit_token :: "token \<Rightarrow> token list option \<Rightarrow> token list option" where
  "emit_token t = map_option ((#) t)"

text \<open>A token up to its closing delimiter.\<close>
definition delimited ::
  "char \<Rightarrow> (string \<Rightarrow> token option) \<Rightarrow> string \<Rightarrow> (token \<times> string) option" where
  "delimited d body s =
     (case dropWhile (\<lambda>c. c \<noteq> d) s of
        [] \<Rightarrow> None
      | _ # r \<Rightarrow> map_option (\<lambda>t. (t, r)) (body (takeWhile (\<lambda>c. c \<noteq> d) s)))"

lemma delimited_shorter: "delimited d body s = Some (t, r) \<Longrightarrow> length r < length s"
  using length_dropWhile_le[of "\<lambda>c. c \<noteq> d" s] by (auto simp: delimited_def split: list.splits)

function read_tokens :: "string \<Rightarrow> token list option" where
  "read_tokens [] = Some []"
| "read_tokens (c # s) =
     (if c = CHR ''('' then (if take 2 s = ''?:'' then emit_token TOpen (read_tokens (drop 2 s)) else None)
      else if c = CHR '')'' then emit_token TClose (read_tokens s)
      else if c = CHR ''|'' then emit_token TBar (read_tokens s)
      else if c = CHR ''*'' then emit_token (TRepeat 0 None) (read_tokens s)
      else if c = CHR ''?'' then emit_token (TRepeat 0 (Some 1)) (read_tokens s)
      else if c = CHR ''['' then
        (case delimited (CHR '']'') class_body s of None \<Rightarrow> None | Some (t, r) \<Rightarrow> emit_token t (read_tokens r))
      else if c = CHR ''{'' then
        (case delimited (CHR ''}'') braces_body s of None \<Rightarrow> None | Some (t, r) \<Rightarrow> emit_token t (read_tokens r))
      else None)"
  by pat_completeness auto
termination
  by (relation "measure length") (auto dest!: delimited_shorter)

declare read_tokens.simps [simp del]

text \<open>
  The stack machine.  A frame is an open group: the alternatives before the current one, the
  sequence read so far, and the last item, which a repetition may still take.
\<close>
type_synonym frame = "gre option \<times> gre \<times> gre option"

definition flush :: "frame \<Rightarrow> gre" where
  "flush f = (case snd (snd f) of None \<Rightarrow> fst (snd f) | Some r \<Rightarrow> GCat (fst (snd f)) r)"

definition close :: "frame \<Rightarrow> gre" where
  "close f = (case fst f of None \<Rightarrow> flush f | Some a \<Rightarrow> GAlt a (flush f))"

fun run :: "frame \<Rightarrow> frame list \<Rightarrow> token list \<Rightarrow> gre option" where
  "run f fs [] = (if fs = [] then Some (close f) else None)"
| "run f fs (TOpen # ts) = run (None, GEps, None) ((fst f, flush f, None) # fs) ts"
| "run f [] (TClose # ts) = None"
| "run f (g # fs) (TClose # ts) = run (fst g, fst (snd g), Some (close f)) fs ts"
| "run f fs (TBar # ts) = (if fs = [] then None else run (Some (close f), GEps, None) fs ts)"
| "run f fs (TClass neg rs # ts) = run (fst f, flush f, Some (GClass neg rs)) fs ts"
| "run f fs (TRepeat lo hi # ts) =
     (case snd (snd f) of
        None \<Rightarrow> None
      | Some r \<Rightarrow> run (fst f, GCat (fst (snd f)) (GRep r lo hi), None) fs ts)"

definition regexp_parse :: "string \<Rightarrow> gre option" where
  "regexp_parse src =
     (if src \<noteq> [] \<and> hd src = CHR ''^'' \<and> tl src \<noteq> [] \<and> last src = CHR ''$''
      then Option.bind (read_tokens (butlast (tl src))) (run (None, GEps, None) []) else None)"

text \<open>\<open>(*Regexp).MatchString\<close> on the runes of its argument.\<close>
definition regexp_match :: "string \<Rightarrow> rune list \<Rightarrow> bool" where
  "regexp_match src w = (case regexp_parse src of None \<Rightarrow> False | Some r \<Rightarrow> gre_match r w)"

subsection \<open>Text that reads as a language\<close>

text \<open>
  \<open>writes t L\<close>: wherever it stands in an open group, the text \<open>t\<close> reads as further items of
  the current sequence, and they stand for the language \<open>L\<close>.
\<close>

definition lexes :: "string \<Rightarrow> token list \<Rightarrow> bool" where
  "lexes t toks \<longleftrightarrow> (\<forall>s. read_tokens (t @ s) = map_option ((@) toks) (read_tokens s))"

definition reads :: "token list \<Rightarrow> rune lang \<Rightarrow> bool" where
  "reads toks L \<longleftrightarrow> (\<forall>f fs ts. fs \<noteq> [] \<longrightarrow> (\<exists>f'. run f fs (toks @ ts) = run f' fs ts \<and> fst f' = fst f \<and>
     gre_lang (flush f') = conc (gre_lang (flush f)) L))"

definition writes :: "string \<Rightarrow> rune lang \<Rightarrow> bool" where
  "writes t L \<longleftrightarrow> (\<exists>toks. lexes t toks \<and> reads toks L)"

lemma lexes_Nil: "lexes [] []"
  by (simp add: lexes_def map_option_case split: option.splits)

lemma lexes_append: "lexes t a \<Longrightarrow> lexes u b \<Longrightarrow> lexes (t @ u) (a @ b)"
  by (simp add: lexes_def map_option_case split: option.splits)

lemma lexes_single:
  "(\<And>s. read_tokens (t @ s) = emit_token tok (read_tokens s)) \<Longrightarrow> lexes t [tok]"
  by (simp add: lexes_def emit_token_def map_option_case split: option.splits)

lemma lexes_open: "lexes ''(?:'' [TOpen]"
  by (rule lexes_single) (simp add: read_tokens.simps)

lemma lexes_close: "lexes '')'' [TClose]"
  by (rule lexes_single) (simp add: read_tokens.simps)

lemma lexes_bar: "lexes ''|'' [TBar]"
  by (rule lexes_single) (simp add: read_tokens.simps)

lemma lexes_star: "lexes ''*'' [TRepeat 0 None]"
  by (rule lexes_single) (simp add: read_tokens.simps)

lemma lexes_quest: "lexes ''?'' [TRepeat 0 (Some 1)]"
  by (rule lexes_single) (simp add: read_tokens.simps)

lemma delimited_text:
  "d \<notin> set b \<Longrightarrow> body b = Some t \<Longrightarrow> delimited d body (b @ d # s) = Some (t, s)"
  by (simp add: delimited_def takeWhile_tail dropWhile_append3 takeWhile_append dropWhile_append)

lemma lexes_class: "CHR '']'' \<notin> set b \<Longrightarrow> class_body b = Some t \<Longrightarrow> lexes (''['' @ b @ '']'') [t]"
  by (rule lexes_single) (simp add: read_tokens.simps delimited_text)

lemma lexes_braces: "CHR ''}'' \<notin> set b \<Longrightarrow> braces_body b = Some t \<Longrightarrow> lexes (''{'' @ b @ ''}'') [t]"
  by (rule lexes_single) (simp add: read_tokens.simps delimited_text)

lemma reads_Nil: "reads [] {[]}"
  by (auto simp: reads_def)

lemma reads_append: "reads a L \<Longrightarrow> reads b M \<Longrightarrow> reads (a @ b) (conc L M)"
  unfolding reads_def
proof (intro allI impI)
  fix f and fs :: "frame list" and ts :: "token list"
  assume a: "\<forall>f fs ts. fs \<noteq> [] \<longrightarrow> (\<exists>f'. run f fs (a @ ts) = run f' fs ts \<and> fst f' = fst f \<and>
       gre_lang (flush f') = conc (gre_lang (flush f)) L)"
    and b: "\<forall>f fs ts. fs \<noteq> [] \<longrightarrow> (\<exists>f'. run f fs (b @ ts) = run f' fs ts \<and> fst f' = fst f \<and>
       gre_lang (flush f') = conc (gre_lang (flush f)) M)"
    and fs: "fs \<noteq> []"
  from a fs obtain g where g: "run f fs (a @ b @ ts) = run g fs (b @ ts)" "fst g = fst f"
    "gre_lang (flush g) = conc (gre_lang (flush f)) L" by blast
  from b fs obtain h where "run g fs (b @ ts) = run h fs ts" "fst h = fst g"
    "gre_lang (flush h) = conc (gre_lang (flush g)) M" by blast
  with g show "\<exists>f'. run f fs ((a @ b) @ ts) = run f' fs ts \<and> fst f' = fst f \<and>
       gre_lang (flush f') = conc (gre_lang (flush f)) (conc L M)"
    by (intro exI[of _ h]) (simp add: conc_assoc)
qed

lemma reads_class: "reads [TClass neg rs] (gre_lang (GClass neg rs))"
  unfolding reads_def
proof (intro allI impI)
  fix f and fs :: "frame list" and ts :: "token list"
  show "\<exists>f'. run f fs ([TClass neg rs] @ ts) = run f' fs ts \<and> fst f' = fst f \<and>
       gre_lang (flush f') = conc (gre_lang (flush f)) (gre_lang (GClass neg rs))"
    by (intro exI[of _ "(fst f, flush f, Some (GClass neg rs))"]) (simp add: flush_def)
qed

text \<open>A group leaves its expression as an item, which a repetition may follow.\<close>

lemma run_group:
  assumes "reads toks L"
  obtains r where "gre_lang r = L"
    "run f fs (TOpen # toks @ TClose # ts) = run (fst f, flush f, Some r) fs ts"
proof -
  let ?g = "(fst f, flush f, None)"
  from assms[unfolded reads_def, rule_format, of "?g # fs" "(None, GEps, None)" "TClose # ts"]
  obtain f' where f': "run (None, GEps, None) (?g # fs) (toks @ TClose # ts) = run f' (?g # fs) (TClose # ts)"
    "fst f' = None" "gre_lang (flush f') = L" by (auto simp: flush_def)
  with that[of "close f'"] show ?thesis by (simp add: close_def)
qed

lemma reads_group: "reads toks L \<Longrightarrow> reads (TOpen # toks @ [TClose]) L"
  unfolding reads_def[of "TOpen # toks @ [TClose]"]
proof (intro allI impI)
  fix f and fs :: "frame list" and ts :: "token list"
  assume "reads toks L"
  then obtain r where "gre_lang r = L" "run f fs (TOpen # toks @ TClose # ts) = run (fst f, flush f, Some r) fs ts"
    by (rule run_group)
  then show "\<exists>f'. run f fs ((TOpen # toks @ [TClose]) @ ts) = run f' fs ts \<and> fst f' = fst f \<and>
       gre_lang (flush f') = conc (gre_lang (flush f)) L"
    by (intro exI[of _ "(fst f, flush f, Some r)"]) (simp add: flush_def)
qed

lemma reads_repeat: "reads toks L \<Longrightarrow> reads (TOpen # toks @ [TClose, TRepeat lo hi]) (reps L lo hi)"
  unfolding reads_def[of "TOpen # toks @ [TClose, TRepeat lo hi]"]
proof (intro allI impI)
  fix f and fs :: "frame list" and ts :: "token list"
  assume "reads toks L"
  then obtain r where "gre_lang r = L"
    "run f fs (TOpen # toks @ TClose # TRepeat lo hi # ts) = run (fst f, flush f, Some r) fs (TRepeat lo hi # ts)"
    by (rule run_group)
  then show "\<exists>f'. run f fs ((TOpen # toks @ [TClose, TRepeat lo hi]) @ ts) = run f' fs ts \<and> fst f' = fst f \<and>
       gre_lang (flush f') = conc (gre_lang (flush f)) (reps L lo hi)"
    by (intro exI[of _ "(fst f, GCat (flush f) (GRep r lo hi), None)"]) (simp add: flush_def)
qed

lemma reads_alternate:
  assumes a: "reads as L" and b: "reads bs M"
  shows "reads (TOpen # as @ TBar # bs @ [TClose]) (L \<union> M)"
  unfolding reads_def[of "TOpen # _"]
proof (intro allI impI)
  fix f and fs :: "frame list" and ts :: "token list"
  let ?g = "(fst f, flush f, None)"
  from a[unfolded reads_def, rule_format, of "?g # fs" "(None, GEps, None)" "TBar # bs @ TClose # ts"]
  obtain f1 where f1: "run (None, GEps, None) (?g # fs) (as @ TBar # bs @ TClose # ts) =
      run f1 (?g # fs) (TBar # bs @ TClose # ts)" "fst f1 = None" "gre_lang (flush f1) = L"
    by (auto simp: flush_def)
  let ?h = "(Some (close f1), GEps, None)"
  from b[unfolded reads_def, rule_format, of "?g # fs" ?h "TClose # ts"]
  obtain f2 where f2: "run ?h (?g # fs) (bs @ TClose # ts) = run f2 (?g # fs) (TClose # ts)"
    "fst f2 = Some (close f1)" "gre_lang (flush f2) = M"
    by (auto simp: flush_def)
  have "gre_lang (close f2) = L \<union> M" using f1 f2 by (simp add: close_def)
  with f1 f2 show "\<exists>f'. run f fs ((TOpen # as @ TBar # bs @ [TClose]) @ ts) = run f' fs ts \<and>
      fst f' = fst f \<and> gre_lang (flush f') = conc (gre_lang (flush f)) (L \<union> M)"
    by (intro exI[of _ "(fst f, flush f, Some (close f2))"]) (simp add: flush_def)
qed

subsubsection \<open>Putting text together\<close>

lemma writes_Nil: "writes [] {[]}"
  unfolding writes_def using lexes_Nil reads_Nil by blast

lemma writes_append: "writes t L \<Longrightarrow> writes u M \<Longrightarrow> writes (t @ u) (conc L M)"
  unfolding writes_def using lexes_append reads_append by meson

lemma writes_group: "writes t L \<Longrightarrow> writes (''(?:'' @ t @ '')'') L"
proof -
  assume "writes t L"
  then obtain toks where "lexes t toks" "reads toks L" by (auto simp: writes_def)
  with lexes_append[OF lexes_open lexes_append[OF this(1) lexes_close]] reads_group
  show ?thesis by (auto simp: writes_def)
qed

lemma writes_suffix:
  assumes "writes t L" "lexes u [TRepeat lo hi]"
  shows "writes (''(?:'' @ t @ '')'' @ u) (reps L lo hi)"
proof -
  from assms(1) obtain toks where "lexes t toks" "reads toks L" by (auto simp: writes_def)
  with lexes_append[OF lexes_open lexes_append[OF this(1) lexes_append[OF lexes_close assms(2)]]] reads_repeat
  show ?thesis by (auto simp: writes_def)
qed

lemma writes_alternate:
  assumes "writes t L" "writes u M"
  shows "writes (''(?:'' @ t @ ''|'' @ u @ '')'') (L \<union> M)"
proof -
  from assms obtain as bs where a: "lexes t as" "reads as L" and b: "lexes u bs" "reads bs M"
    by (auto simp: writes_def)
  with lexes_append[OF lexes_open lexes_append[OF a(1) lexes_append[OF lexes_bar
      lexes_append[OF b(1) lexes_close]]]] reads_alternate
  show ?thesis by (auto simp: writes_def)
qed

lemma writes_class:
  "CHR '']'' \<notin> set b \<Longrightarrow> class_body b = Some (TClass neg rs) \<Longrightarrow>
     writes (''['' @ b @ '']'') (gre_lang (GClass neg rs))"
  unfolding writes_def using lexes_class reads_class by blast

text \<open>A whole anchored expression.\<close>

theorem writes_parse:
  assumes "writes t L"
  obtains r where "regexp_parse (''^(?:'' @ t @ '')$'') = Some r" "gre_lang r = L"
proof -
  from assms obtain toks where t: "lexes t toks" "reads toks L" by (auto simp: writes_def)
  have "lexes (''(?:'' @ t @ '')'') (TOpen # toks @ [TClose])"
    using lexes_append[OF lexes_open lexes_append[OF t(1) lexes_close]] by simp
  then have "read_tokens ((''(?:'' @ t @ '')'') @ []) = Some (TOpen # toks @ [TClose])"
    unfolding lexes_def by (simp only: read_tokens.simps(1)) simp
  then have l: "read_tokens (butlast (tl (''^(?:'' @ t @ '')$''))) = Some (TOpen # toks @ [TClose])"
    by (simp add: butlast_append)
  obtain r where r: "gre_lang r = L"
    "run (None, GEps, None) [] (TOpen # toks @ TClose # []) = run (None, GEps, Some r) [] []"
    using run_group[OF t(2), of "(None, GEps, None)" "[]" "[]"] by (auto simp: flush_def)
  from that[of "GCat GEps r"] l r show ?thesis
    by (simp add: regexp_parse_def close_def flush_def)
qed

corollary writes_match:
  "writes t L \<Longrightarrow> regexp_match (''^(?:'' @ t @ '')$'') w \<longleftrightarrow> w \<in> L"
  by (erule writes_parse) (simp add: regexp_match_def gre_match_iff)

end
