(* ===== verification/Pattern_Native.thy ===== *)
theory Pattern_Native
  imports Pattern_Restore Go_Regexp
begin

text \<open>
  The native engine (\<open>go/yangpattern/runtime_native.go\<close>): a program is written out as a Go
  regular expression, after a pass that measures it against the policy.  In full form every
  count is written out (\<open>expand\<close>); otherwise counts stay, as long as Go's syntax allows them.
  Both recursions follow the node graph, so they are partial functions that are shown to
  return on a grounded table, and the text is shown to denote the language of the root.

  What Go's \<open>regexp\<close> and \<open>regexp/syntax\<close> packages decide about a source beyond its language
  (whether it compiles, and to how many instructions) is the record \<open>engine\<close>, a parameter.
\<close>

record engine =
  eInsts :: "string \<Rightarrow> u64 option"
  eCompiles :: "string \<Rightarrow> bool"

record native_size =
  zSource :: u64
  zInstructions :: u64

text \<open>The state of the measuring pass: the work counter, and the sizes of the nodes seen.\<close>
record measure_state =
  msWork :: u64
  msSizes :: "nat \<rightharpoonup> native_size"

definition measure_state0 :: measure_state where
  "measure_state0 = \<lparr>msWork = 0, msSizes = Map.empty\<rparr>"

definition settle ::
  "match_limits \<Rightarrow> nat \<Rightarrow> native_size \<Rightarrow> measure_state \<Rightarrow> pattern_error + native_size \<times> measure_state" where
  "settle l i s st =
     (case limitError ''match'' ''native'' ''source bytes'' (mNativeSourceBytes l) (addSat (zSource s) 8) of
        Some e \<Rightarrow> Inl e
      | None \<Rightarrow>
        (case limitError ''match'' ''native'' ''instructions'' (mNativeInstructions l)
                (addSat (zInstructions s) 4) of
           Some e \<Rightarrow> Inl e
         | None \<Rightarrow> Inr (s, st\<lparr>msSizes := (msSizes st)(i \<mapsto> s)\<rparr>)))"

text \<open>The sizes of a binary node and of a repetition, from those of the children.\<close>

definition binary_size :: "pop \<Rightarrow> native_size \<Rightarrow> native_size \<Rightarrow> native_size" where
  "binary_size op a b = \<lparr>zSource = addSat 8 (addSat (zSource a) (zSource b)),
     zInstructions = addSat (zInstructions a) (zInstructions b) + (if op = OpAlternate then 1 else 0)\<rparr>"

definition repeat_size :: "bool \<Rightarrow> bool \<Rightarrow> u64 \<Rightarrow> u64 \<Rightarrow> native_size \<Rightarrow> native_size" where
  "repeat_size expand unbounded lo hi child =
     (let copies = (if unbounded then addSat lo 1 else hi);
          splits = (if unbounded then 1 else hi - lo) in
      \<lparr>zSource = (if expand then mulSat (addSat (zSource child) 8) copies else addSat (zSource child) 32),
       zInstructions = addSat (mulSat (zInstructions child) copies) splits\<rparr>)"

definition leaf_size :: "node_data \<Rightarrow> native_size" where
  "leaf_size n =
     (case nOp n of
        OpEmpty \<Rightarrow> \<lparr>zSource = 26, zInstructions = 1\<rparr>
      | OpEpsilon \<Rightarrow> \<lparr>zSource = 8, zInstructions = 0\<rparr>
      | OpClass \<Rightarrow> \<lparr>zSource = addSat 2 (mulSat (len64 (nRanges n)) 24), zInstructions = 1\<rparr>
      | _ \<Rightarrow> \<lparr>zSource = 8, zInstructions = 1\<rparr>)"

partial_function (option) measure_node ::
  "program \<Rightarrow> bool \<Rightarrow> match_limits \<Rightarrow> nat \<Rightarrow> measure_state \<Rightarrow>
     (pattern_error + native_size \<times> measure_state) option"
where
  "measure_node p expand l i st =
     (case msSizes st i of
        Some s \<Rightarrow> Some (Inr (s, st))
      | None \<Rightarrow>
        (case limitError ''match'' ''native'' ''work'' (mWork l) (msWork st + 1) of
           Some e \<Rightarrow> Some (Inl e)
         | None \<Rightarrow>
           (let n = pNodes (gData p) ! i; st = st\<lparr>msWork := msWork st + 1\<rparr> in
            if nOp n = OpAlternate \<or> nOp n = OpConcat then
              Option.bind (measure_node p expand l (nChildren n ! 0) st) (\<lambda>r.
                case r of Inl e \<Rightarrow> Some (Inl e) | Inr (a, st) \<Rightarrow>
                Option.bind (measure_node p expand l (nChildren n ! 1) st) (\<lambda>r.
                  case r of Inl e \<Rightarrow> Some (Inl e) | Inr (b, st) \<Rightarrow>
                  Some (settle l i (binary_size (nOp n) a b) st)))
            else if nOp n = OpRepeat then
              Option.bind (measure_node p expand l (nChildren n ! 0) st) (\<lambda>r.
                case r of Inl e \<Rightarrow> Some (Inl e) | Inr (child, st) \<Rightarrow>
                let lo = lower (gBounds p ! i); hi = upper (gBounds p ! i) in
                if \<not> expand \<and> (lo > 1000 \<or> (\<not> nUnbounded n \<and> hi > 1000))
                then Some (Inl (ConfigurationError ''count cannot be represented by native regexp syntax''))
                else Some (settle l i (repeat_size expand (nUnbounded n) lo hi child) st))
            else Some (settle l i (leaf_size n) st))))"

text \<open>Writing the expression.  \<open>%X\<close> of a negative number has a sign.\<close>

definition hexX :: "int \<Rightarrow> string" where
  "hexX r = (if r < 0 then CHR ''-'' # hex_of_nat (nat (- r)) else hex_of_nat (nat r))"

definition rune_text :: "rune \<Rightarrow> string" where
  "rune_text r = [CHR 0x5C, CHR ''x'', CHR ''{''] @ hexX r @ ''}''"

definition range_text :: "rune_range \<Rightarrow> string" where
  "range_text q = rune_text (rLo q) @ (if rHi q \<noteq> rLo q then ''-'' @ rune_text (rHi q) else [])"

definition empty_text :: string where
  "empty_text = ''[^'' @ rune_text 0 @ ''-'' @ rune_text maxRune @ '']''"

definition group_text :: "string \<Rightarrow> string" where
  "group_text t = ''(?:'' @ t @ '')''"

definition counts_text :: "node_data \<Rightarrow> string" where
  "counts_text n = ''{'' @ nMin n @
     (if nUnbounded n \<or> nMin n \<noteq> nMax n then '','' @ nMax n else []) @ ''}''"

definition copies_text :: "bool \<Rightarrow> u64 \<Rightarrow> u64 \<Rightarrow> string \<Rightarrow> string" where
  "copies_text unbounded lo hi t =
     concat (replicate (unat lo) (group_text t)) @
     (if unbounded then group_text t @ ''*''
      else concat (replicate (unat hi - unat lo) (group_text t @ ''?'')))"

partial_function (option) emit_node :: "program \<Rightarrow> bool \<Rightarrow> nat \<Rightarrow> string option" where
  "emit_node p expand i =
     (let n = pNodes (gData p) ! i in
      if nOp n = OpEmpty then Some empty_text
      else if nOp n = OpEpsilon then Some ''(?:)''
      else if nOp n = OpClass then Some (''['' @ concat (map range_text (nRanges n)) @ '']'')
      else if nOp n = OpAlternate \<or> nOp n = OpConcat then
        Option.bind (emit_node p expand (nChildren n ! 0)) (\<lambda>s.
        Option.bind (emit_node p expand (nChildren n ! 1)) (\<lambda>t.
          Some (''(?:'' @ s @ (if nOp n = OpAlternate then ''|'' else []) @ t @ '')'')))
      else if nOp n = OpRepeat then
        Option.bind (emit_node p expand (nChildren n ! 0)) (\<lambda>t.
          if \<not> expand then Some (group_text t @ counts_text n)
          else Some (copies_text (nUnbounded n) (lower (gBounds p ! i)) (upper (gBounds p ! i)) t))
      else Some [])"

definition nativeExpression ::
  "program \<Rightarrow> bool \<Rightarrow> match_limits \<Rightarrow> (pattern_error + string \<times> u64) option" where
  "nativeExpression p expand l =
     (let tableBytes = mulSat (len64 (pNodes (gData p))) 64; root = pRoot (gData p) in
      case limitError ''match'' ''native'' ''bytes'' (mBytes l) tableBytes of Some e \<Rightarrow> Some (Inl e) | None \<Rightarrow>
      Option.bind (measure_node p expand l root measure_state0) (\<lambda>r.
        case r of Inl e \<Rightarrow> Some (Inl e) | Inr (sz, st) \<Rightarrow>
        case limitError ''match'' ''native'' ''bytes'' (mBytes l)
               (addSat tableBytes (addSat (mulSat (zSource sz) 8) (mulSat (zInstructions sz) 256))) of
          Some e \<Rightarrow> Some (Inl e) | None \<Rightarrow>
        case limitError ''match'' ''native'' ''work'' (mWork l)
               (addSat (msWork st) (addSat (zSource sz) (zInstructions sz))) of
          Some e \<Rightarrow> Some (Inl e) | None \<Rightarrow>
        if zSource sz > 2 ^ 63 - 1 - 8
        then Some (Inl (ResourceError ''match'' ''native'' ''source address space'' (2 ^ 63 - 1 - 8) (zSource sz)))
        else Option.bind (emit_node p expand root) (\<lambda>t.
          Some (Inr (''^(?:'' @ t @ '')$'', zInstructions sz + 4)))))"

definition nativeInstructionCount :: "engine \<Rightarrow> string \<Rightarrow> u64 option" where
  "nativeInstructionCount eng source = eInsts eng source"

definition prepareNative :: "engine \<Rightarrow> u64 \<Rightarrow> u64 \<Rightarrow> program \<Rightarrow> program option" where
  "prepareNative eng bytes work p =
     (if bytes = 0 \<or> work = 0 then Some p
      else
        let l = match_defaults match_limits0;
            l = l\<lparr>mWork := min (mWork l) work\<rparr>;
            l = l\<lparr>mBytes := min (mBytes l) bytes\<rparr>;
            l = l\<lparr>mNativeSourceBytes := min (mNativeSourceBytes l) work\<rparr> in
        Option.bind (nativeExpression p False l) (\<lambda>r.
          case r of
            Inl _ \<Rightarrow> Some p
          | Inr (source, _) \<Rightarrow>
            (case nativeInstructionCount eng source of
               None \<Rightarrow> Some p
             | Some instructions \<Rightarrow>
                 if instructions > mNativeInstructions l then Some p
                 else if \<not> eCompiles eng source then Some p
                 else Some (p\<lparr>gNative := Some (source, instructions)\<rparr>))))"

text \<open>\<open>Restore\<close> and \<open>RestoreWithLimits\<close>: validation, then the optional preparation.\<close>

definition RestoreWithLimits ::
  "engine \<Rightarrow> program_data \<Rightarrow> restore_limits \<Rightarrow> (pattern_error + program) option" where
  "RestoreWithLimits eng d limits =
     (case restore_core d limits of
        Inl e \<Rightarrow> Some (Inl e)
      | Inr (p, b) \<Rightarrow>
          let l = restore_defaults limits in
          map_option Inr (prepareNative eng (rBytes l - lBytes b) (rWork l - lWork b) p))"

definition Restore :: "engine \<Rightarrow> program_data \<Rightarrow> (pattern_error + program) option" where
  "Restore eng d = RestoreWithLimits eng d restore_limits0"

definition nativeEligible :: "u64 \<Rightarrow> u64 \<Rightarrow> u64 \<Rightarrow> match_limits \<Rightarrow> pattern_error option" where
  "nativeEligible sourceBytes instructions runes limits =
     (let l = match_defaults limits in
      case limitError ''match'' ''native'' ''bytes'' (mBytes l)
             (addSat (mulSat instructions 128) (mulSat sourceBytes 4)) of Some e \<Rightarrow> Some e | None \<Rightarrow>
      case limitError ''match'' ''native'' ''source bytes'' (mNativeSourceBytes l) sourceBytes of
        Some e \<Rightarrow> Some e | None \<Rightarrow>
      case limitError ''match'' ''native'' ''instructions'' (mNativeInstructions l) instructions of
        Some e \<Rightarrow> Some e | None \<Rightarrow>
      limitError ''match'' ''native'' ''instruction*rune work'' (mNativeWork l)
        (mulSat instructions (addSat runes 1)))"

lemma table_ok_unbounded:
  assumes "table_ok ns" "i < length ns" "nOp (ns ! i) = OpRepeat" "nUnbounded (ns ! i)"
  shows "nMax (ns ! i) = []"
  using assms(1)[unfolded table_ok_def, rule_format, OF nth_mem[OF assms(2)]] assms(3,4)
  by (auto simp: check_node_def split: if_splits)

subsection \<open>Both passes return\<close>

lemma measure_node_returns:
  assumes tab: "table_ok (pNodes (gData p))"
  shows "grounded (pNodes (gData p)) i \<Longrightarrow> i < length (pNodes (gData p)) \<Longrightarrow>
    \<exists>r. measure_node p expand l i st = Some r"
proof (induction i arbitrary: st rule: grounded.induct)
  case (groundedI i)
  let ?ns = "pNodes (gData p)"
  note kids = table_ok_children[OF tab groundedI.prems]
  note lt = table_okD(2)[OF tab groundedI.prems]
  have IH: "\<exists>r. measure_node p expand l (nChildren (?ns ! i) ! k) st = Some r"
    if "k < length (nChildren (?ns ! i))" for k st
    using groundedI.IH[OF nth_mem[OF that]] lt[OF nth_mem[OF that]] by blast
  show ?case
  proof (cases "nOp (?ns ! i) = OpAlternate \<or> nOp (?ns ! i) = OpConcat")
    case True
    then have "length (nChildren (?ns ! i)) = 2"
      using table_okD(1)[OF tab groundedI.prems] by (auto simp: arity_def)
    with IH[of 0] IH[of 1] True show ?thesis
      by (subst measure_node.simps)
        (auto simp: Let_def split: option.splits sum.splits Option.bind_splits; metis option.distinct(1))
  next
    case False
    show ?thesis
    proof (cases "nOp (?ns ! i) = OpRepeat")
      case True
      then have "length (nChildren (?ns ! i)) = 1"
        using table_okD(1)[OF tab groundedI.prems] by (auto simp: arity_def)
      with IH[of 0] True show ?thesis
        by (subst measure_node.simps)
          (auto simp: Let_def split: option.splits sum.splits Option.bind_splits; metis option.distinct(1))
    next
      case rep: False
      with False show ?thesis
        by (subst measure_node.simps) (auto simp: Let_def split: option.splits)
    qed
  qed
qed

subsection \<open>What a successful measurement guarantees\<close>

text \<open>The counts of a repetition as the text needs them.\<close>
definition counts_fit :: "program \<Rightarrow> bool \<Rightarrow> nat \<Rightarrow> bool" where
  "counts_fit p expand i \<longleftrightarrow>
     (let n = pNodes (gData p) ! i; b = gBounds p ! i in
      nOp n = OpRepeat \<longrightarrow>
        (if expand then unat (lower b) = nat_of_dec (nMin n) \<and>
           (\<not> nUnbounded n \<longrightarrow> unat (upper b) = nat_of_dec (nMax n))
         else nat_of_dec (nMin n) \<le> 1000 \<and> (\<not> nUnbounded n \<longrightarrow> nat_of_dec (nMax n) \<le> 1000)))"

definition seen_ok :: "program \<Rightarrow> bool \<Rightarrow> measure_state \<Rightarrow> bool" where
  "seen_ok p expand st \<longleftrightarrow> (\<forall>i \<in> dom (msSizes st). i < length (pNodes (gData p)) \<and>
     (\<forall>c \<in> set (nChildren (pNodes (gData p) ! i)). c \<in> dom (msSizes st)) \<and>
     (\<not> expand \<longrightarrow> counts_fit p False i))"

lemma settle_ok:
  assumes "settle l i s st = Inr (z, st')" "seen_ok p expand st" "i < length (pNodes (gData p))"
    "\<forall>c \<in> set (nChildren (pNodes (gData p) ! i)). c \<in> dom (msSizes st)"
    "\<not> expand \<Longrightarrow> counts_fit p False i"
  shows "seen_ok p expand st' \<and> i \<in> dom (msSizes st') \<and> dom (msSizes st) \<subseteq> dom (msSizes st')"
proof -
  from assms(1) have st': "msSizes st' = (msSizes st)(i \<mapsto> s)"
    by (auto simp: settle_def split: option.splits)
  have "j < length (pNodes (gData p)) \<and>
      (\<forall>c \<in> set (nChildren (pNodes (gData p) ! j)). c \<in> dom (msSizes st')) \<and>
      (\<not> expand \<longrightarrow> counts_fit p False j)" if "j \<in> dom (msSizes st')" for j
  proof (cases "j = i")
    case True
    with assms st' show ?thesis by auto
  next
    case False
    with that st' have "j \<in> dom (msSizes st)" by auto
    with assms(2) have "j < length (pNodes (gData p))"
      "\<forall>c \<in> set (nChildren (pNodes (gData p) ! j)). c \<in> dom (msSizes st)"
      "\<not> expand \<longrightarrow> counts_fit p False j" by (simp_all add: seen_ok_def)
    with st' show ?thesis by auto
  qed
  then show ?thesis using st' by (auto simp: seen_ok_def)
qed

lemma bind_result_Inr:
  "Option.bind m (\<lambda>r. case r of Inl e \<Rightarrow> Some (Inl e) | Inr (a, s) \<Rightarrow> f a s) = Some (Inr y) \<longleftrightarrow>
     (\<exists>a s. m = Some (Inr (a, s)) \<and> f a s = Some (Inr y))"
  by (cases m) (auto split: sum.splits)

lemma seen_ok_work [simp]: "seen_ok p expand (st\<lparr>msWork := w\<rparr>) = seen_ok p expand st"
  by (simp add: seen_ok_def)

text \<open>Bounds that are small as machine words are small as numbers.\<close>
lemma small_decimalUint:
  assumes "canonicalDecimal s" "decimalUint s \<le> 1000"
  shows "nat_of_dec s \<le> 1000"
proof -
  have "unat (decimalUint s) \<le> 1000" using assms(2) by (simp add: word_le_nat_alt)
  then show ?thesis
    using unat_decimalUint[OF canonicalDecimal_digits[OF assms(1)]] by (simp add: min_def split: if_splits)
qed

definition bounds_ok :: "program \<Rightarrow> bool" where
  "bounds_ok p \<longleftrightarrow> (\<forall>i < length (pNodes (gData p)). nOp (pNodes (gData p) ! i) = OpRepeat \<longrightarrow>
     gBounds p ! i = \<lparr>lower = decimalUint (nMin (pNodes (gData p) ! i)),
                      upper = decimalUint (nMax (pNodes (gData p) ! i))\<rparr>)"

lemma measure_node_seen:
  assumes tab: "table_ok (pNodes (gData p))" and b: "\<not> expand \<Longrightarrow> bounds_ok p"
  shows "grounded (pNodes (gData p)) i \<Longrightarrow> i < length (pNodes (gData p)) \<Longrightarrow> seen_ok p expand st \<Longrightarrow>
    measure_node p expand l i st = Some (Inr (z, st')) \<Longrightarrow>
    seen_ok p expand st' \<and> i \<in> dom (msSizes st') \<and> dom (msSizes st) \<subseteq> dom (msSizes st')"
proof (induction i arbitrary: st z st' rule: grounded.induct)
  case (groundedI i)
  let ?ns = "pNodes (gData p)"
  define n where "n = ?ns ! i"
  note kids = table_ok_children[OF tab groundedI.prems(1), folded n_def]
  note lt = table_okD(2)[OF tab groundedI.prems(1), folded n_def]
  note IH = groundedI.IH[folded n_def]
  define s0 where "s0 = st\<lparr>msWork := msWork st + 1\<rparr>"
  have s0: "seen_ok p expand s0" "dom (msSizes s0) = dom (msSizes st)"
    using groundedI.prems(2) by (simp_all add: s0_def)
  show ?case
  proof (cases "msSizes st i")
    case (Some s)
    with groundedI.prems show ?thesis by (subst (asm) measure_node.simps) auto
  next
    case None
    note m = groundedI.prems(3)[unfolded measure_node.simps[of p expand l i], unfolded None, simplified,
        folded n_def s0_def, unfolded Let_def]
    consider (bin) "nOp n = OpAlternate \<or> nOp n = OpConcat" | (rep) "nOp n = OpRepeat"
      | (leaf) "nOp n \<notin> {OpAlternate, OpConcat, OpRepeat}" by blast
    then show ?thesis
    proof cases
      case bin
      from m bin obtain a s1 b s2 where
        1: "measure_node p expand l (nChildren n ! 0) s0 = Some (Inr (a, s1))" and
        2: "measure_node p expand l (nChildren n ! 1) s1 = Some (Inr (b, s2))" and
        3: "settle l i (binary_size (nOp n) a b) s2 = Inr (z, st')"
        by (auto simp: bind_result_Inr split: option.splits if_splits)
      from kids(1) bin have k: "set (nChildren n) = {nChildren n ! 0, nChildren n ! 1}"
        by (metis insertCI list.set(1) list.simps(15))
      have f1: "seen_ok p expand s1" "nChildren n ! 0 \<in> dom (msSizes s1)" "dom (msSizes s0) \<subseteq> dom (msSizes s1)"
        using IH[OF _ _ s0(1) 1] lt k by simp_all
      have f2: "seen_ok p expand s2" "nChildren n ! 1 \<in> dom (msSizes s2)" "dom (msSizes s1) \<subseteq> dom (msSizes s2)"
        using IH[OF _ _ f1(1) 2] lt k by simp_all
      have "\<forall>c \<in> set (nChildren (?ns ! i)). c \<in> dom (msSizes s2)"
        using subsetD[OF f2(3) f1(2)] f2(2) k unfolding n_def by (simp del: domIff)
      moreover have "counts_fit p False i" using bin by (auto simp: counts_fit_def n_def Let_def)
      ultimately have "seen_ok p expand st' \<and> i \<in> dom (msSizes st') \<and> dom (msSizes s2) \<subseteq> dom (msSizes st')"
        using settle_ok[OF 3 f2(1) groundedI.prems(1)] by blast
      with f1(3) f2(3) s0(2) show ?thesis by blast
    next
      case rep
      from m rep obtain a s1 where
        1: "measure_node p expand l (nChildren n ! 0) s0 = Some (Inr (a, s1))" and
        2: "expand \<or> \<not> (lower (gBounds p ! i) > 1000 \<or> (\<not> nUnbounded n \<and> upper (gBounds p ! i) > 1000))" and
        3: "settle l i (repeat_size expand (nUnbounded n) (lower (gBounds p ! i)) (upper (gBounds p ! i)) a) s1
              = Inr (z, st')"
        by (auto simp: bind_result_Inr split: option.splits if_splits)
      from kids(2) rep have k: "set (nChildren n) = {nChildren n ! 0}"
        by (metis list.set(1) list.simps(15))
      have f1: "seen_ok p expand s1" "nChildren n ! 0 \<in> dom (msSizes s1)" "dom (msSizes s0) \<subseteq> dom (msSizes s1)"
        using IH[OF _ _ s0(1) 1] lt k by simp_all
      have "\<forall>c \<in> set (nChildren (?ns ! i)). c \<in> dom (msSizes s1)"
        using f1(2) k unfolding n_def by (simp del: domIff)
      moreover have "counts_fit p False i" if "\<not> expand"
      proof -
        have "gBounds p ! i = \<lparr>lower = decimalUint (nMin n), upper = decimalUint (nMax n)\<rparr>"
          using b[OF that] groundedI.prems(1) rep by (simp add: bounds_ok_def n_def)
        with 2 that have "decimalUint (nMin n) \<le> 1000" "\<not> nUnbounded n \<Longrightarrow> decimalUint (nMax n) \<le> 1000"
          by auto
        with small_decimalUint table_ok_repeat[OF tab groundedI.prems(1)] rep
        show ?thesis by (simp add: counts_fit_def n_def Let_def)
      qed
      ultimately have "seen_ok p expand st' \<and> i \<in> dom (msSizes st') \<and> dom (msSizes s1) \<subseteq> dom (msSizes st')"
        using settle_ok[OF 3 f1(1) groundedI.prems(1)] by blast
      with f1(3) s0(2) show ?thesis by blast
    next
      case leaf
      from m leaf have 3: "settle l i (leaf_size n) s0 = Inr (z, st')"
        by (auto split: option.splits if_splits)
      have "nChildren n = []" using leaf table_okD(1)[OF tab groundedI.prems(1), folded n_def]
        by (auto simp: arity_def split: pop.splits)
      moreover have "counts_fit p False i" using leaf by (auto simp: counts_fit_def n_def Let_def)
      ultimately show ?thesis
        using settle_ok[OF 3 s0(1) groundedI.prems(1)] s0(2) by (simp add: n_def)
    qed
  qed
qed

subsection \<open>The text denotes the language\<close>

lemma hexX_code: "0 \<le> r \<Longrightarrow> hexX r = hex_of_nat (nat r)"
  by (simp add: hexX_def)

lemma rune_text_chars: "0 \<le> r \<Longrightarrow> CHR '']'' \<notin> set (rune_text r) \<and> CHR ''-'' \<notin> set (rune_text r)"
  using hex_of_nat_chars[of "CHR '']''" "nat r"] hex_of_nat_chars[of "CHR ''-''" "nat r"]
  by (auto simp: rune_text_def hexX_code hex_val_def)

lemma escape_rune_text:
  assumes "0 \<le> r" "r \<le> maxRune"
  shows "escape (rune_text r @ s) = Some (r, s)"
proof -
  let ?h = "hex_of_nat (nat r)"
  have nb: "CHR ''}'' \<notin> set ?h" using hex_of_nat_chars[of "CHR ''}''" "nat r"] by (auto simp: hex_val_def)
  then have "takeWhile (\<lambda>c. c \<noteq> CHR ''}'') (?h @ CHR ''}'' # s) = ?h"
    "dropWhile (\<lambda>c. c \<noteq> CHR ''}'') (?h @ CHR ''}'' # s) = CHR ''}'' # s"
    by (simp_all add: takeWhile_tail dropWhile_append3 takeWhile_append dropWhile_append)
  with assms show ?thesis by (simp add: escape_def rune_text_def hexX_code Let_def)
qed

lemma rune_text_hd [simp]: "rune_text r \<noteq> []" "hd (rune_text r @ s) = CHR 0x5C" "rune_text r @ s \<noteq> []"
  by (simp_all add: rune_text_def)

definition range_fits :: "rune_range \<Rightarrow> bool" where
  "range_fits q \<longleftrightarrow> 0 \<le> rLo q \<and> rLo q \<le> rHi q \<and> rHi q \<le> maxRune"

lemma class_elems_ranges:
  "\<forall>q \<in> set rs. range_fits q \<Longrightarrow>
     class_elems (concat (map range_text rs)) = Some (map (\<lambda>q. (rLo q, rHi q)) rs)"
proof (induction rs)
  case Nil
  then show ?case by (simp add: class_elems.simps)
next
  case (Cons q rs)
  let ?s = "concat (map range_text rs)"
  have q: "0 \<le> rLo q" "rLo q \<le> rHi q" "rHi q \<le> maxRune" using Cons.prems by (simp_all add: range_fits_def)
  have IH: "class_elems ?s = Some (map (\<lambda>q. (rLo q, rHi q)) rs)" using Cons by simp
  have hd: "?s \<noteq> [] \<Longrightarrow> hd ?s \<noteq> CHR ''-''"
    by (cases rs) (simp_all add: range_text_def rune_text_def)
  show ?case
  proof (cases "rHi q = rLo q")
    case True
    then have t: "concat (map range_text (q # rs)) = rune_text (rLo q) @ ?s" by (simp add: range_text_def)
    show ?thesis
      unfolding t class_elems.simps[of "rune_text (rLo q) @ ?s"]
      using q hd IH True by (auto simp: escape_rune_text simp del: concat_eq_Nil_conv)
  next
    case False
    then have t: "concat (map range_text (q # rs)) = rune_text (rLo q) @ CHR ''-'' # rune_text (rHi q) @ ?s"
      by (simp add: range_text_def)
    show ?thesis
      unfolding t class_elems.simps[of "rune_text (rLo q) @ _"]
      using q IH by (simp add: escape_rune_text)
  qed
qed

lemma class_text_brackets:
  "\<forall>q \<in> set rs. range_fits q \<Longrightarrow> CHR '']'' \<notin> set (concat (map range_text rs))"
  using rune_text_chars by (fastforce simp: range_text_def range_fits_def split: if_splits)

lemma writes_class_text:
  assumes "rs \<noteq> []" "\<forall>q \<in> set rs. range_fits q"
  shows "writes (''['' @ concat (map range_text rs) @ '']'') {[c] | c. in_ranges rs c}"
proof -
  let ?t = "concat (map range_text rs)"
  obtain q qs where "rs = q # qs" using assms(1) by (cases rs) auto
  then have h: "?t \<noteq> []" "hd ?t = CHR 0x5C" by (simp_all add: range_text_def rune_text_def)
  then have "class_body ?t = Some (TClass False (map (\<lambda>q. (rLo q, rHi q)) rs))"
    using class_elems_ranges[OF assms(2)] by (simp add: class_body_def)
  from writes_class[OF class_text_brackets[OF assms(2)] this]
  have "writes (''['' @ ?t @ '']'') (gre_lang (GClass False (map (\<lambda>q. (rLo q, rHi q)) rs)))" .
  moreover have "gre_lang (GClass False (map (\<lambda>q. (rLo q, rHi q)) rs)) = {[c] | c. in_ranges rs c}"
    by (auto simp: class_has_def in_ranges_def list_ex_iff)
  ultimately show ?thesis by simp
qed

lemma scalar_ranges_fit: "scalar_ranges k rs \<Longrightarrow> \<forall>q \<in> set rs. range_fits q"
  by (induction rs arbitrary: k) (auto simp: range_fits_def split: if_splits)

lemma writes_empty_text: "writes empty_text {}"
proof -
  let ?b = "CHR ''^'' # rune_text 0 @ ''-'' @ rune_text maxRune"
  have "class_elems (concat (map range_text [\<lparr>rLo = 0, rHi = maxRune\<rparr>])) = Some [(0, maxRune)]"
    using class_elems_ranges[of "[\<lparr>rLo = 0, rHi = maxRune\<rparr>]"] by (simp add: range_fits_def)
  then have "class_body ?b = Some (TClass True [(0, maxRune)])"
    by (simp add: class_body_def range_text_def)
  moreover have "CHR '']'' \<notin> set ?b" using rune_text_chars[of 0] rune_text_chars[of maxRune] by simp
  ultimately have "writes (''['' @ ?b @ '']'') (gre_lang (GClass True [(0, maxRune)]))"
    by (intro writes_class)
  moreover have "gre_lang (GClass True [(0, maxRune)]) = {}" by (auto simp: class_has_def)
  ultimately show ?thesis by (simp add: empty_text_def)
qed

subsubsection \<open>Counts\<close>

lemma count_text_canonical:
  "canonicalDecimal s \<Longrightarrow> nat_of_dec s \<le> 1000 \<Longrightarrow> count_text s = Some (nat_of_dec s)"
  by (cases s) (auto simp: count_text_def canonicalDecimal_def split: if_splits)

lemma digits_no:
  "list_all is_digit s \<Longrightarrow> \<not> is_digit d \<Longrightarrow> d \<notin> set s"
  by (auto simp: list_all_iff)

lemma lexes_counts:
  assumes mn: "canonicalDecimal (nMin n)" "nat_of_dec (nMin n) \<le> 1000"
    and mx: "\<not> nUnbounded n \<Longrightarrow> canonicalDecimal (nMax n) \<and> nat_of_dec (nMax n) \<le> 1000 \<and>
      nat_of_dec (nMin n) \<le> nat_of_dec (nMax n)"
    and un: "nUnbounded n \<Longrightarrow> nMax n = []"
  shows "lexes (counts_text n) [TRepeat (nat_of_dec (nMin n)) (repeat_hi n)]"
proof -
  let ?b = "nMin n @ (if nUnbounded n \<or> nMin n \<noteq> nMax n then '','' @ nMax n else [])"
  have dm: "list_all is_digit (nMin n)" using canonicalDecimal_digits[OF mn(1)] .
  have dx: "list_all is_digit (nMax n)"
    using mx un canonicalDecimal_digits by (cases "nUnbounded n") auto
  have nc: "CHR '','' \<notin> set (nMin n)" "CHR ''}'' \<notin> set (nMin n)" "CHR ''}'' \<notin> set (nMax n)"
    using digits_no[OF dm, of "CHR '',''"] digits_no[OF dm, of "CHR ''}''"] digits_no[OF dx, of "CHR ''}''"]
    by (simp_all add: is_digit_def)
  have tw: "takeWhile (\<lambda>c. c \<noteq> CHR '','') (nMin n @ CHR '','' # nMax n) = nMin n"
    "dropWhile (\<lambda>c. c \<noteq> CHR '','') (nMin n @ CHR '','' # nMax n) = CHR '','' # nMax n"
    "takeWhile (\<lambda>c. c \<noteq> CHR '','') (nMin n) = nMin n" "dropWhile (\<lambda>c. c \<noteq> CHR '','') (nMin n) = []"
    using nc by (auto simp: takeWhile_tail takeWhile_append dropWhile_append)
  have nx: "\<not> nUnbounded n \<Longrightarrow> nMax n \<noteq> []" using mx by (auto simp: canonicalDecimal_def)
  have cn: "count_text (nMin n) = Some (nat_of_dec (nMin n))" using mn by (rule count_text_canonical)
  have "braces_body ?b = Some (TRepeat (nat_of_dec (nMin n)) (repeat_hi n))"
  proof (cases "nUnbounded n")
    case True
    then have b: "?b = nMin n @ CHR '','' # nMax n" by simp
    show ?thesis
      unfolding b braces_body_def tw cn using un[OF True] True by (simp add: repeat_hi_def)
  next
    case False
    have cx: "count_text (nMax n) = Some (nat_of_dec (nMax n))" using mx[OF False] by (simp add: count_text_canonical)
    show ?thesis
    proof (cases "nMin n = nMax n")
      case True
      with False have "?b = nMin n" by simp
      then show ?thesis using False by (simp only: braces_body_def tw cn) (simp add: repeat_hi_def True)
    next
      case ne: False
      with False have b: "?b = nMin n @ CHR '','' # nMax n" by simp
      show ?thesis
        unfolding b braces_body_def tw cn using cx nx[OF False] mx[OF False] False
        by (simp add: repeat_hi_def not_less)
    qed
  qed
  moreover have "CHR ''}'' \<notin> set ?b" using nc by auto
  ultimately show ?thesis using lexes_braces[of ?b] by (simp add: counts_text_def)
qed

subsubsection \<open>Written-out repetition\<close>

fun hi_add :: "nat option \<Rightarrow> nat option \<Rightarrow> nat option" where
  "hi_add (Some a) (Some b) = Some (a + b)"
| "hi_add _ _ = None"

lemma conc_reps:
  assumes "below a h" "below b k"
  shows "conc (reps A a h) (reps A b k) = reps A (a + b) (hi_add h k)"
proof (intro equalityI subsetI)
  fix w assume "w \<in> conc (reps A a h) (reps A b k)"
  then obtain us vs where w: "w = concat (us @ vs)" "set us \<subseteq> A" "set vs \<subseteq> A"
    "a \<le> length us" "below (length us) h" "b \<le> length vs" "below (length vs) k"
    by (auto elim!: repsE concE)
  then show "w \<in> reps A (a + b) (hi_add h k)"
    unfolding w(1) by (intro repsI) (cases h; cases k; auto)+
next
  fix w assume "w \<in> reps A (a + b) (hi_add h k)"
  then obtain ws where w: "w = concat ws" "set ws \<subseteq> A" "a + b \<le> length ws" "below (length ws) (hi_add h k)"
    by (auto elim!: repsE)
  define n where "n = (case k of None \<Rightarrow> a | Some m \<Rightarrow> max a (length ws - m))"
  have n: "a \<le> n" "n \<le> length ws" "below n h" "b \<le> length ws - n" "below (length ws - n) k"
    using w assms by (cases h; cases k; auto simp: n_def)+
  have "concat (take n ws) \<in> reps A a h" "concat (drop n ws) \<in> reps A b k"
    using n w(2) by (auto intro!: repsI dest: in_set_takeD in_set_dropD)
  then have "concat (take n ws) @ concat (drop n ws) \<in> conc (reps A a h) (reps A b k)" by (rule concI)
  then show "w \<in> conc (reps A a h) (reps A b k)" by (simp add: w(1) flip: concat_append)
qed

lemma writes_copies: "writes t L \<Longrightarrow> writes (concat (replicate k (group_text t))) (reps L k (Some k))"
proof (induction k)
  case 0
  then show ?case using writes_Nil by simp
next
  case (Suc k)
  have "writes (group_text t @ concat (replicate k (group_text t))) (conc L (reps L k (Some k)))"
    using Suc writes_group[OF Suc.prems] by (intro writes_append) (simp_all add: group_text_def)
  moreover have "conc L (reps L k (Some k)) = reps L (Suc k) (Some (Suc k))"
    using conc_reps[of 1 "Some 1" k "Some k" L] by simp
  ultimately show ?case by simp
qed

lemma writes_options: "writes t L \<Longrightarrow> writes (concat (replicate k (group_text t @ ''?''))) (reps L 0 (Some k))"
proof (induction k)
  case 0
  then show ?case using writes_Nil by simp
next
  case (Suc k)
  have "writes (group_text t @ ''?'') (reps L 0 (Some 1))"
    using writes_suffix[OF Suc.prems lexes_quest] by (simp add: group_text_def)
  then have "writes ((group_text t @ ''?'') @ concat (replicate k (group_text t @ ''?'')))
      (conc (reps L 0 (Some 1)) (reps L 0 (Some k)))"
    using Suc by (intro writes_append) auto
  moreover have "conc (reps L 0 (Some 1)) (reps L 0 (Some k)) = reps L 0 (Some (Suc k))"
    using conc_reps[of 0 "Some 1" 0 "Some k" L] by simp
  ultimately show ?case by simp
qed

lemma writes_copies_text:
  assumes t: "writes t L" and le: "\<not> u \<Longrightarrow> unat lo \<le> unat hi"
  shows "writes (copies_text u lo hi t) (reps L (unat lo) (if u then None else Some (unat hi)))"
proof (cases u)
  case True
  have "writes (group_text t @ ''*'') (reps L 0 None)"
    using writes_suffix[OF t lexes_star] by (simp add: group_text_def)
  from writes_append[OF writes_copies[OF t, of "unat lo"] this] True
  show ?thesis using conc_reps[of "unat lo" "Some (unat lo)" 0 None L] by (simp add: copies_text_def)
next
  case False
  from writes_append[OF writes_copies[OF t, of "unat lo"] writes_options[OF t, of "unat hi - unat lo"]] False le
  show ?thesis
    using conc_reps[of "unat lo" "Some (unat lo)" 0 "Some (unat hi - unat lo)" L]
    by (simp add: copies_text_def)
qed

subsubsection \<open>The whole table\<close>

lemma emit_node_writes:
  assumes tab: "table_ok (pNodes (gData p))"
    and S: "\<And>i. i \<in> S \<Longrightarrow> i < length (pNodes (gData p)) \<and>
      set (nChildren (pNodes (gData p) ! i)) \<subseteq> S \<and> counts_fit p expand i"
  shows "grounded (pNodes (gData p)) i \<Longrightarrow> i \<in> S \<Longrightarrow>
    \<exists>t. emit_node p expand i = Some t \<and> writes t (plangs (pNodes (gData p)) i)"
proof (induction i rule: grounded.induct)
  case (groundedI i)
  let ?ns = "pNodes (gData p)"
  define n where "n = ?ns ! i"
  from S[OF groundedI.prems] have i: "i < length ?ns" and ch: "set (nChildren n) \<subseteq> S"
    and fit: "counts_fit p expand i" by (simp_all add: n_def)
  note kids = table_ok_children[OF tab i, folded n_def]
  have IH: "\<exists>t. emit_node p expand c = Some t \<and> writes t (plangs ?ns c)" if "c \<in> set (nChildren n)" for c
    using groundedI.IH that ch by (auto simp: n_def)
  note eq = emit_node.simps[of p expand i, folded n_def, unfolded Let_def]
  consider "nOp n = OpEmpty" | "nOp n = OpEpsilon" | "nOp n = OpClass" | "nOp n = OpAlternate"
    | "nOp n = OpConcat" | "nOp n = OpRepeat"
    using table_okD(3)[OF tab i] by (cases "nOp n") (auto simp: n_def)
  then show ?case
  proof cases
    case 1
    with eq show ?thesis using writes_empty_text plangs_empty[of ?ns i] by (auto simp: n_def)
  next
    case 2
    with eq show ?thesis
      using writes_group[OF writes_Nil] plangs_epsilon[of ?ns i] by (auto simp: n_def)
  next
    case 3
    have "writes (''['' @ concat (map range_text (nRanges n)) @ '']'') {[c] | c. in_ranges (nRanges n) c}"
      using table_okD(4,5)[OF tab i] 3 by (intro writes_class_text) (auto simp: n_def dest: scalar_ranges_fit)
    with 3 eq show ?thesis using plangs_class[of ?ns i] by (auto simp: n_def)
  next
    case 4
    from kids(1) 4 obtain a b where ab: "nChildren n = [a, b]" by auto
    from IH[of a] IH[of b] ab obtain s t where
      st: "emit_node p expand a = Some s" "emit_node p expand b = Some t"
      "writes s (plangs ?ns a)" "writes t (plangs ?ns b)" by auto
    from writes_alternate[OF st(3,4)] 4 eq ab st show ?thesis
      using plangs_alternate[of ?ns i a b] by (auto simp: n_def)
  next
    case 5
    from kids(1) 5 obtain a b where ab: "nChildren n = [a, b]" by auto
    from IH[of a] IH[of b] ab obtain s t where
      st: "emit_node p expand a = Some s" "emit_node p expand b = Some t"
      "writes s (plangs ?ns a)" "writes t (plangs ?ns b)" by auto
    from writes_group[OF writes_append[OF st(3,4)]] 5 eq ab st show ?thesis
      using plangs_concat[of ?ns i a b] by (auto simp: n_def)
  next
    case 6
    from kids(2) 6 obtain c where c: "nChildren n = [c]" by auto
    from IH[of c] c obtain t where t: "emit_node p expand c = Some t" "writes t (plangs ?ns c)" by auto
    note rep = table_ok_repeat[OF tab i, folded n_def, OF 6]
    have pl: "plangs ?ns i = reps (plangs ?ns c) (nat_of_dec (nMin n)) (repeat_hi n)"
      using plangs_repeat[of ?ns i c] 6 c by (simp add: n_def)
    show ?thesis
    proof (cases expand)
      case True
      let ?lo = "lower (gBounds p ! i)" and ?hi = "upper (gBounds p ! i)"
      have "unat ?lo = nat_of_dec (nMin n)" "\<not> nUnbounded n \<Longrightarrow> unat ?hi = nat_of_dec (nMax n)"
        using fit True 6 by (simp_all add: counts_fit_def n_def Let_def)
      with writes_copies_text[OF t(2), of "nUnbounded n" ?lo ?hi] rep(3)
      have "writes (copies_text (nUnbounded n) ?lo ?hi t) (plangs ?ns i)"
        unfolding pl by (simp add: repeat_hi_def split: if_splits)
      with 6 eq c t True show ?thesis by simp
    next
      case False
      have "nat_of_dec (nMin n) \<le> 1000" "\<not> nUnbounded n \<Longrightarrow> nat_of_dec (nMax n) \<le> 1000"
        using fit False 6 by (simp_all add: counts_fit_def n_def Let_def)
      with rep table_ok_unbounded[OF tab i, folded n_def, OF 6]
      have "lexes (counts_text n) [TRepeat (nat_of_dec (nMin n)) (repeat_hi n)]"
        by (intro lexes_counts) auto
      from writes_suffix[OF t(2) this] have "writes (group_text t @ counts_text n) (plangs ?ns i)"
        unfolding pl by (simp add: group_text_def)
      with 6 eq c t False show ?thesis by simp
    qed
  qed
qed

subsection \<open>The whole expression\<close>

text \<open>A program whose table, bounds and root are those of a restored one.\<close>
lemma nativeExpression_returns:
  assumes tab: "table_ok (pNodes (gData p))"
    and root: "pRoot (gData p) < length (pNodes (gData p))"
    and gr: "grounded (pNodes (gData p)) (pRoot (gData p))"
    and fit: "\<And>i. expand \<Longrightarrow> i < length (pNodes (gData p)) \<Longrightarrow> counts_fit p True i"
    and b: "\<not> expand \<Longrightarrow> bounds_ok p"
  shows "\<exists>r. nativeExpression p expand l = Some r \<and>
    (\<forall>src k. r = Inr (src, k) \<longrightarrow> (\<forall>w. regexp_match src w \<longleftrightarrow> w \<in> plangs (pNodes (gData p)) (pRoot (gData p))))"
proof -
  let ?ns = "pNodes (gData p)" and ?root = "pRoot (gData p)"
  obtain r where m: "measure_node p expand l ?root measure_state0 = Some r"
    using measure_node_returns[OF tab gr root] by blast
  have emits: "\<exists>t. emit_node p expand ?root = Some t \<and> writes t (plangs ?ns ?root)"
    if r: "r = Inr (z, st)" for z st
  proof -
    have "seen_ok p expand st \<and> ?root \<in> dom (msSizes st)"
      using measure_node_seen[OF tab b gr root _ m[unfolded r]]
      by (simp add: seen_ok_def measure_state0_def)
    then have "seen_ok p expand st" "?root \<in> dom (msSizes st)" by auto
    then show ?thesis
    proof (intro emit_node_writes[OF tab _ gr, where S = "dom (msSizes st)"])
      fix i assume "i \<in> dom (msSizes st)"
      with \<open>seen_ok p expand st\<close> have "i < length ?ns"
        "\<forall>c \<in> set (nChildren (?ns ! i)). c \<in> dom (msSizes st)" "\<not> expand \<longrightarrow> counts_fit p False i"
        by (simp_all add: seen_ok_def)
      with fit show "i < length ?ns \<and> set (nChildren (?ns ! i)) \<subseteq> dom (msSizes st) \<and> counts_fit p expand i"
        by (cases expand) (auto simp: subset_iff simp del: domIff)
    qed auto
  qed
  show ?thesis
  proof (cases r)
    case (Inl e)
    with m show ?thesis by (auto simp: nativeExpression_def Let_def split: option.splits)
  next
    case (Inr zs)
    obtain z st where "zs = (z, st)" by fastforce
    with Inr emits obtain t where t: "emit_node p expand ?root = Some t" "writes t (plangs ?ns ?root)"
      and r: "r = Inr (z, st)" by blast
    have "nativeExpression p expand l = Some r' \<Longrightarrow> r' = Inr (src, k) \<Longrightarrow> src = ''^(?:'' @ t @ '')$''" for r' src k
      using m t(1) r by (auto simp: nativeExpression_def Let_def split: option.splits if_splits)
    moreover have "\<exists>r'. nativeExpression p expand l = Some r'"
      using m t(1) r by (auto simp: nativeExpression_def Let_def split: option.splits)
    ultimately show ?thesis using writes_match[OF t(2)] by metis
  qed
qed

text \<open>
  A program from \<open>Restore\<close>: the table is sound, and a prepared native expression matches
  exactly the language of the root.
\<close>
definition restored :: "program \<Rightarrow> bool" where
  "restored p \<longleftrightarrow> program_ok p \<and>
     (\<forall>src k. gNative p = Some (src, k) \<longrightarrow>
        (\<forall>w. regexp_match src w \<longleftrightarrow> w \<in> plangs (pNodes (gData p)) (pRoot (gData p))))"

lemma program_ok_bounds: "program_ok p \<Longrightarrow> bounds_ok p"
  by (auto simp: bounds_ok_def dest: program_okD(6))

lemma prepareNative_restored:
  assumes "program_ok p" "gNative p = None"
  shows "\<exists>q. prepareNative eng bytes work p = Some q \<and> restored q \<and> gData q = gData p"
proof (cases "bytes = 0 \<or> work = 0")
  case True
  with assms show ?thesis by (simp add: prepareNative_def restored_def)
next
  case False
  define l where "l = (let l = match_defaults match_limits0; l = l\<lparr>mWork := min (mWork l) work\<rparr>;
      l = l\<lparr>mBytes := min (mBytes l) bytes\<rparr> in l\<lparr>mNativeSourceBytes := min (mNativeSourceBytes l) work\<rparr>)"
  note ok = program_ok_table[OF assms(1)] program_ok_root[OF assms(1)]
  from nativeExpression_returns[OF ok program_okD(1)[OF assms(1) ok(2)], of False l]
    program_ok_bounds[OF assms(1)]
  obtain r where r: "nativeExpression p False l = Some r" "\<And>src k. r = Inr (src, k) \<Longrightarrow>
      \<forall>w. regexp_match src w \<longleftrightarrow> w \<in> plangs (pNodes (gData p)) (pRoot (gData p))"
    by auto
  have "restored p" using assms by (simp add: restored_def)
  have set: "restored (p\<lparr>gNative := Some (src, k)\<rparr>)" if "r = Inr (src, j)" for src k j
    using r(2)[OF that] assms(1) by (auto simp: restored_def program_ok_def Let_def)
  have eq: "prepareNative eng bytes work p = (case r of Inl _ \<Rightarrow> Some p
      | Inr (source, _) \<Rightarrow> (case nativeInstructionCount eng source of None \<Rightarrow> Some p
         | Some instructions \<Rightarrow> if instructions > mNativeInstructions l then Some p
             else if \<not> eCompiles eng source then Some p
             else Some (p\<lparr>gNative := Some (source, instructions)\<rparr>)))"
    using False r(1) unfolding prepareNative_def l_def Let_def by simp
  show ?thesis
    unfolding eq using set \<open>restored p\<close> by (auto split: sum.splits option.splits prod.splits)
qed

theorem RestoreWithLimits_restored:
  "\<exists>r. RestoreWithLimits eng d limits = Some r \<and> (\<forall>p. r = Inr p \<longrightarrow> restored p \<and> gData p = d)"
proof (cases "restore_core d limits")
  case (Inl e)
  then show ?thesis by (simp add: RestoreWithLimits_def)
next
  case (Inr pb)
  obtain p b where pb: "pb = (p, b)" by fastforce
  with Inr have p: "restore_core d limits = Inr (p, b)" by simp
  from restore_core_ok[OF this] have ok: "program_ok p" "gData p = d" by auto
  have "gNative p = None"
    using p by (auto simp: restore_core_def Let_def split: if_splits option.splits prod.splits bool.splits sum.splits)
  from prepareNative_restored[OF ok(1) this, of eng "rBytes (restore_defaults limits) - lBytes b"
      "rWork (restore_defaults limits) - lWork b"] ok(2) p
  show ?thesis by (auto simp: RestoreWithLimits_def Let_def)
qed

end
