(* ===== verification/Pattern_Match.thy ===== *)
theory Pattern_Match
  imports Pattern_Quotient Pattern_Native
begin

text \<open>
  Matching (\<open>go/yangpattern/runtime_match.go\<close>).  A value is tried against the cheap routes
  first (length, empty word, one class, the prepared native expression); otherwise the program
  is specialised to the length of the value and run through derivatives, and if the policy
  stops that, an expanded native expression of the specialised program is the last resort.
  The central theorem: whichever route answers, the answer is membership in the language of
  the root; and a match of a restored program always returns.
\<close>

subsection \<open>Specialisation\<close>

type_synonym build_result = "(nat \<times> (nat \<rightharpoonup> nat)) \<times> arena"

definition remember :: "nat \<Rightarrow> (nat \<rightharpoonup> nat) \<Rightarrow> nat \<times> arena \<Rightarrow> build_result" where
  "remember i memo r = (case r of (out, a) \<Rightarrow> ((out, memo(i \<mapsto> out)), a))"

text \<open>
  The interval of a repetition, cut to what a word of \<open>count\<close> runes can use.  The conversions
  to \<open>int\<close> are the signed reading of the word.
\<close>
definition clip_upper :: "program \<Rightarrow> u64 \<Rightarrow> nat \<Rightarrow> node_data \<Rightarrow> int" where
  "clip_upper p count i n =
     (let maximum = count div gMinimum p ! (nChildren n ! 0) in
      if \<not> nUnbounded n \<and> upper (gBounds p ! i) < maximum then sint (upper (gBounds p ! i)) else -1)"

partial_function (option) build ::
  "program \<Rightarrow> u64 \<Rightarrow> nat \<Rightarrow> (nat \<rightharpoonup> nat) \<Rightarrow> arena \<Rightarrow> build_result option"
where
  "build p count i memo a =
     (if aErr a \<noteq> None then Some ((0, memo), a)
      else case memo i of
        Some out \<Rightarrow> Some ((out, memo), a)
      | None \<Rightarrow>
        if gMinimum p ! i > count then Some ((0, memo), a)
        else
          let n = pNodes (gData p) ! i in
          if nOp n = OpEpsilon then Some (remember i memo (1, a))
          else if nOp n = OpClass then
            Some (remember i memo (put (residual0\<lparr>sOp := OpClass, sA := i\<rparr>) a))
          else if nOp n = OpAlternate then
            Option.bind (build p count (nChildren n ! 0) memo a) (\<lambda>((x, memo), a).
            Option.bind (build p count (nChildren n ! 1) memo a) (\<lambda>((y, memo), a).
              Some (remember i memo (alt 0 x y a))))
          else if nOp n = OpConcat then
            Option.bind (build p count (nChildren n ! 0) memo a) (\<lambda>((x, memo), a).
            Option.bind (build p count (nChildren n ! 1) memo a) (\<lambda>((y, memo), a).
              Some (remember i memo (seq 0 x y a))))
          else if nOp n = OpRepeat then
            Option.bind (build p count (nChildren n ! 0) memo a) (\<lambda>((x, memo), a).
              Some (remember i memo
                (rep x (sint (lower (gBounds p ! i))) (clip_upper p count i n) a)))
          else Some (remember i memo (0, a)))"

definition specialize :: "program \<Rightarrow> u64 \<Rightarrow> match_limits \<Rightarrow> (arena \<times> nat) option" where
  "specialize p count l =
     (case aCharge (mulSat (len64 (pNodes (gData p))) 64) (len64 (pNodes (gData p))) (newArena l p) of
        (False, a) \<Rightarrow> Some (a, 0)
      | (True, a) \<Rightarrow>
          map_option (\<lambda>((root, memo), a). (a, root)) (build p count (pRoot (gData p)) Map.empty a))"

text \<open>The table of the fallback program.\<close>

definition fallback_node :: "program \<Rightarrow> u64 \<Rightarrow> nat \<Rightarrow> node_data \<Rightarrow> node_data" where
  "fallback_node p count i n =
     (if gMinimum p ! i > count then node0
      else if nOp n = OpRepeat then
        let maximum = count div gMinimum p ! (nChildren n ! 0) in
        if nUnbounded n \<or> upper (gBounds p ! i) \<ge> maximum then n\<lparr>nUnbounded := True, nMax := []\<rparr> else n
      else n)"

definition specializedProgram :: "program \<Rightarrow> u64 \<Rightarrow> match_limits \<Rightarrow> pattern_error + program" where
  "specializedProgram p count l =
     (let ns = pNodes (gData p) in
      case limitError ''match'' ''fallback'' ''bytes'' (mBytes l) (mulSat (len64 ns) 256) of Some e \<Rightarrow> Inl e | None \<Rightarrow>
      case limitError ''match'' ''fallback'' ''work'' (mWork l) (len64 ns) of Some e \<Rightarrow> Inl e | None \<Rightarrow>
      Inr \<lparr>gData = (gData p)\<lparr>pNodes := map (\<lambda>i. fallback_node p count i (ns ! i)) [0..<length ns]\<rparr>,
           gNullable = [], gMinimum = [], gBounds = gBounds p, gNative = None\<rparr>)"

subsection \<open>The match\<close>

text \<open>\<open>Engine\<close> stands for an error of the regular-expression package itself.\<close>
datatype match_error = Policy pattern_error | Joined pattern_error pattern_error | Engine string

fun derive_word :: "rune list \<Rightarrow> nat \<Rightarrow> arena \<Rightarrow> bool option \<times> nat \<times> arena" where
  "derive_word [] state a = (None, state, a)"
| "derive_word (r # rs) state a =
     (if aErr a \<noteq> None then (None, state, a)
      else
        let (state, a) = derive 0 state (symbol a r) a in
        if aErr a \<noteq> None then (None, state, a)
        else if state = 0 then (Some False, state, a)
        else derive_word rs state a)"

type_synonym match_result = "bool \<times> string \<times> match_error option"

definition fallback_match ::
  "engine \<Rightarrow> program \<Rightarrow> rune list \<Rightarrow> match_limits \<Rightarrow> pattern_error \<Rightarrow> pattern_error option \<Rightarrow> match_result option"
where
  "fallback_match eng p runes l derivativeErr ordinaryErr =
     (let count = len64 runes in
      case specializedProgram p count l of
        Inl e \<Rightarrow> Some (False, ''fallback'', Some (Joined derivativeErr e))
      | Inr fallback \<Rightarrow>
        Option.bind (nativeExpression fallback True l) (\<lambda>r.
          case r of
            Inl e \<Rightarrow> Some (False, ''fallback'', Some (Joined derivativeErr e))
          | Inr (source, estimate) \<Rightarrow>
            if source = (case gNative p of None \<Rightarrow> [] | Some (src, _) \<Rightarrow> src) \<and> ordinaryErr \<noteq> None
            then Some (False, ''fallback'', Some (Joined derivativeErr (the ordinaryErr)))
            else
              (case nativeEligible (len64 source) estimate count l of
                 Some e \<Rightarrow> Some (False, ''fallback'', Some (Joined derivativeErr e))
               | None \<Rightarrow>
                 (case nativeInstructionCount eng source of
                    None \<Rightarrow> Some (False, ''fallback'', Some (Engine ''instruction count''))
                  | Some instructions \<Rightarrow>
                    (case nativeEligible (len64 source) instructions count l of
                       Some e \<Rightarrow> Some (False, ''fallback'', Some (Joined derivativeErr e))
                     | None \<Rightarrow>
                       if \<not> eCompiles eng source
                       then Some (False, ''fallback'', Some (Engine ''native pattern''))
                       else Some (regexp_match source runes, ''fallback'', None))))))"

definition derivative_match ::
  "engine \<Rightarrow> program \<Rightarrow> rune list \<Rightarrow> match_limits \<Rightarrow> pattern_error option \<Rightarrow> match_result option"
where
  "derivative_match eng p runes l ordinaryErr =
     Option.bind (specialize p (len64 runes) l) (\<lambda>(a, root).
       case derive_word runes root a of
         (Some b, _, _) \<Rightarrow> Some (b, ''derivative'', None)
       | (None, state, a) \<Rightarrow>
         (case aErr a of
            None \<Rightarrow> Some (sNullable (aNodes a ! state), ''derivative'', None)
          | Some e \<Rightarrow> fallback_match eng p runes l e ordinaryErr))"

definition direct_match ::
  "program \<Rightarrow> rune list \<Rightarrow> match_limits \<Rightarrow> nat \<Rightarrow> u64 \<Rightarrow> u64 \<Rightarrow> bool \<Rightarrow> match_result"
where
  "direct_match p runes l cls lo hi unb =
     (case limitError ''match'' ''direct'' ''bytes'' (mBytes l) 128 of
        Some e \<Rightarrow> (False, ''direct'', Some (Policy e))
      | None \<Rightarrow>
        (case limitError ''match'' ''direct'' ''work'' (mWork l) 1 of
           Some e \<Rightarrow> (False, ''direct'', Some (Policy e))
         | None \<Rightarrow>
           if len64 runes < lo \<or> (\<not> unb \<and> len64 runes > hi) then (False, ''direct'', None)
           else (list_all (containsRune (nRanges (pNodes (gData p) ! cls))) runes, ''direct'', None)))"

definition match_runes :: "engine \<Rightarrow> program \<Rightarrow> rune list \<Rightarrow> match_limits \<Rightarrow> match_result option" where
  "match_runes eng p runes limits =
     (if pNodes (gData p) = [] then Some (False, [], Some (Policy (ConfigurationError ''uninitialized program'')))
      else
        let l = match_defaults limits;
            count = len64 runes;
            root = pRoot (gData p);
            n = pNodes (gData p) ! root in
        if gMinimum p ! root > count then Some (False, ''length'', None)
        else if count = 0 then Some (gNullable p ! root, ''empty'', None)
        else
          let (cls, lo, hi, unb) =
            (if nOp n = OpRepeat
             then (nChildren n ! 0, lower (gBounds p ! root), upper (gBounds p ! root), nUnbounded n)
             else (root, 1, 1, False)) in
          if nOp (pNodes (gData p) ! cls) = OpClass then Some (direct_match p runes l cls lo hi unb)
          else
            (case gNative p of
               None \<Rightarrow> derivative_match eng p runes l None
             | Some (src, instructions) \<Rightarrow>
               (case nativeEligible (len64 src) instructions count l of
                  None \<Rightarrow> Some (regexp_match src runes, ''native'', None)
                | Some e \<Rightarrow> derivative_match eng p runes l (Some e))))"

text \<open>\<open>match\<close> of a string, whose runes are its decoding.\<close>
definition match_value :: "engine \<Rightarrow> program \<Rightarrow> string \<Rightarrow> match_limits \<Rightarrow> match_result option" where
  "match_value eng p s limits = match_runes eng p (utf8_runes s) limits"

definition MatchStringWithLimits ::
  "engine \<Rightarrow> program \<Rightarrow> string \<Rightarrow> match_limits \<Rightarrow> (bool \<times> match_error option) option" where
  "MatchStringWithLimits eng p s limits =
     map_option (\<lambda>(matched, route, err). (matched, err)) (match_value eng p s limits)"

definition MatchString :: "engine \<Rightarrow> program \<Rightarrow> string \<Rightarrow> (bool \<times> match_error option) option" where
  "MatchString eng p s = MatchStringWithLimits eng p s match_limits0"

subsection \<open>Languages that agree on short words\<close>

definition agree :: "nat \<Rightarrow> rune lang \<Rightarrow> rune lang \<Rightarrow> bool" where
  "agree n L M \<longleftrightarrow> (\<forall>w. length w \<le> n \<longrightarrow> (w \<in> L \<longleftrightarrow> w \<in> M))"

lemma agree_refl [simp]: "agree n L L"
  by (simp add: agree_def)

lemma agree_trans: "agree n K L \<Longrightarrow> agree n L M \<Longrightarrow> agree n K M"
  by (simp add: agree_def)

lemma agree_conc: "agree n A A' \<Longrightarrow> agree n B B' \<Longrightarrow> agree n (conc A B) (conc A' B')"
  unfolding agree_def using conc_short_cong[of n A A' B B'] by blast

lemma agree_Un: "agree n A A' \<Longrightarrow> agree n B B' \<Longrightarrow> agree n (A \<union> B) (A' \<union> B')"
  by (auto simp: agree_def)

lemma agree_reps: "agree n A B \<Longrightarrow> agree n (reps A lo hi) (reps B lo hi)"
  unfolding agree_def using reps_short_cong[of n A B] by blast

lemma agree_empty: "(\<And>w. w \<in> L \<Longrightarrow> n < length w) \<Longrightarrow> agree n {} L"
  unfolding agree_def by (metis empty_iff not_le)

lemma agree_Nil: "agree n L M \<Longrightarrow> [] \<in> L \<longleftrightarrow> [] \<in> M"
  by (simp add: agree_def)

subsection \<open>Bounds of a repetition that a short word can reach\<close>

lemma sint_small: "unat (w :: u64) < 2 ^ 63 \<Longrightarrow> sint w = int (unat w)"
proof -
  assume "unat w < 2 ^ 63"
  then have "int (unat w) < int (2 ^ 63)" by (simp only: of_nat_less_iff)
  then have "uint w < 2 ^ 63" by simp
  then show ?thesis by (simp add: sint_uint signed_take_bit_int_eq_self_iff order_trans[OF _ uint_ge_0])
qed

text \<open>A repetition that is not too long for a word of \<open>count\<close> runes.\<close>
definition live_repeat :: "program \<Rightarrow> u64 \<Rightarrow> nat \<Rightarrow> bool" where
  "live_repeat p count i \<longleftrightarrow> program_ok p \<and> i < length (pNodes (gData p)) \<and>
     nOp (pNodes (gData p) ! i) = OpRepeat \<and> unat count < 2 ^ 63 \<and> \<not> gMinimum p ! i > count"

lemma live_repeatD:
  assumes "live_repeat p count i"
  shows "program_ok p" "i < length (pNodes (gData p))" "nOp (pNodes (gData p) ! i) = OpRepeat"
    "unat count < 2 ^ 63" "\<not> gMinimum p ! i > count"
  using assms by (simp_all add: live_repeat_def)

lemma repeat_child:
  assumes lr: "live_repeat p count i"
  shows "nChildren (pNodes (gData p) ! i) = [nChildren (pNodes (gData p) ! i) ! 0]"
    "nChildren (pNodes (gData p) ! i) ! 0 < length (pNodes (gData p))"
proof -
  note ok = live_repeatD(1)[OF lr] and i = live_repeatD(2)[OF lr] and rep = live_repeatD(3)[OF lr]
    and small = live_repeatD(4)[OF lr] and fits = live_repeatD(5)[OF lr]
  show c: "nChildren (pNodes (gData p) ! i) = [nChildren (pNodes (gData p) ! i) ! 0]"
    using table_ok_children(2)[OF program_ok_table[OF ok] i rep] .
  have "nChildren (pNodes (gData p) ! i) ! 0 \<in> set (nChildren (pNodes (gData p) ! i))"
    by (subst (2) c) simp
  then show "nChildren (pNodes (gData p) ! i) ! 0 < length (pNodes (gData p))"
    by (rule table_okD(2)[OF program_ok_table[OF ok] i])
qed

lemma child_minimum:
  assumes lr: "live_repeat p count i"
  shows "0 < unat (gMinimum p ! (nChildren (pNodes (gData p) ! i) ! 0))"
  using program_okD(5)[OF live_repeatD(1-3)[OF lr]]
    program_okD(4)[OF live_repeatD(1)[OF lr] repeat_child(2)[OF lr]] by (simp add: unat_gt_0)

lemma exact_lower:
  assumes lr: "live_repeat p count i"
  shows "unat (lower (gBounds p ! i)) = nat_of_dec (nMin (pNodes (gData p) ! i))"
    "unat (lower (gBounds p ! i)) < 2 ^ 63"
proof -
  note ok = live_repeatD(1)[OF lr] and i = live_repeatD(2)[OF lr] and rep = live_repeatD(3)[OF lr]
    and small = live_repeatD(4)[OF lr] and fits = live_repeatD(5)[OF lr]
  let ?n = "pNodes (gData p) ! i" and ?m = "gMinimum p ! (nChildren (pNodes (gData p) ! i) ! 0)"
  have canon: "canonicalDecimal (nMin ?n)"
    using table_ok_repeat(1)[OF program_ok_table[OF ok] i rep] .
  have lo: "lower (gBounds p ! i) = decimalUint (nMin ?n)" using program_okD(6)[OF ok i rep] by simp
  have u: "unat (decimalUint (nMin ?n)) = min (nat_of_dec (nMin ?n)) (2 ^ 64 - 1)"
    using unat_decimalUint[OF canonicalDecimal_digits[OF canon]] .
  have "unat (lower (gBounds p ! i)) < 2 ^ 63"
  proof (cases "nMin ?n = ''0''")
    case True
    then show ?thesis using lo u canonicalDecimal_zero[OF canon] by simp
  next
    case False
    have "unat (mulSat (decimalUint (nMin ?n)) ?m) \<le> unat count"
      using fits program_okD(7)[OF ok i rep] False by (simp add: not_less word_le_nat_alt)
    then have "unat (decimalUint (nMin ?n)) * unat ?m < 2 ^ 63"
      using small by (simp add: unat_mulSat min_def split: if_splits)
    moreover have "unat (decimalUint (nMin ?n)) * 1 \<le> unat (decimalUint (nMin ?n)) * unat ?m"
      using child_minimum[OF lr] by (intro mult_le_mono2) simp
    ultimately show ?thesis unfolding lo by linarith
  qed
  then show "unat (lower (gBounds p ! i)) < 2 ^ 63"
    "unat (lower (gBounds p ! i)) = nat_of_dec (nMin ?n)"
    using u lo by (auto simp: min_def split: if_splits)
qed

lemma exact_upper:
  assumes lr: "live_repeat p count i" and nu: "\<not> nUnbounded (pNodes (gData p) ! i)"
    and lt: "upper (gBounds p ! i) < count div gMinimum p ! (nChildren (pNodes (gData p) ! i) ! 0)"
  shows "unat (upper (gBounds p ! i)) = nat_of_dec (nMax (pNodes (gData p) ! i))"
    "unat (upper (gBounds p ! i)) < 2 ^ 63"
proof -
  note ok = live_repeatD(1)[OF lr] and i = live_repeatD(2)[OF lr] and rep = live_repeatD(3)[OF lr]
    and small = live_repeatD(4)[OF lr] and fits = live_repeatD(5)[OF lr]
  let ?n = "pNodes (gData p) ! i" and ?m = "gMinimum p ! (nChildren (pNodes (gData p) ! i) ! 0)"
  have canon: "canonicalDecimal (nMax ?n)"
    using table_ok_repeat(2)[OF program_ok_table[OF ok] i rep nu] .
  have up: "upper (gBounds p ! i) = decimalUint (nMax ?n)" using program_okD(6)[OF ok i rep] by simp
  have "unat (upper (gBounds p ! i)) < unat count div unat ?m"
    using lt by (simp add: word_less_nat_alt unat_div)
  also have "\<dots> \<le> unat count" by simp
  finally show "unat (upper (gBounds p ! i)) < 2 ^ 63" using small by linarith
  then show "unat (upper (gBounds p ! i)) = nat_of_dec (nMax ?n)"
    using unat_decimalUint[OF canonicalDecimal_digits[OF canon]] up by (auto simp: min_def split: if_splits)
qed

lemma agree_unbounded:
  assumes lr: "live_repeat p count i" and ub: "nUnbounded (pNodes (gData p) ! i) \<or>
    upper (gBounds p ! i) \<ge> count div gMinimum p ! (nChildren (pNodes (gData p) ! i) ! 0)"
  shows "agree (unat count) (reps (plangs (pNodes (gData p)) (nChildren (pNodes (gData p) ! i) ! 0)) lo None)
    (reps (plangs (pNodes (gData p)) (nChildren (pNodes (gData p) ! i) ! 0)) lo (repeat_hi (pNodes (gData p) ! i)))"
proof (cases "nUnbounded (pNodes (gData p) ! i)")
  case True
  then show ?thesis by (simp add: repeat_hi_def)
next
  case False
  note ok = live_repeatD(1)[OF lr] and i = live_repeatD(2)[OF lr] and rep = live_repeatD(3)[OF lr]
    and small = live_repeatD(4)[OF lr] and fits = live_repeatD(5)[OF lr]
  let ?n = "pNodes (gData p) ! i" and ?m = "gMinimum p ! (nChildren (pNodes (gData p) ! i) ! 0)"
  have canon: "canonicalDecimal (nMax ?n)"
    using table_ok_repeat(2)[OF program_ok_table[OF ok] i rep False] .
  have "unat count div unat ?m \<le> unat (upper (gBounds p ! i))"
    using ub False by (simp add: word_le_nat_alt unat_div)
  also have "\<dots> \<le> nat_of_dec (nMax ?n)"
    using program_okD(6)[OF ok i rep] unat_decimalUint[OF canonicalDecimal_digits[OF canon]] by simp
  finally have h: "unat count div unat ?m \<le> nat_of_dec (nMax ?n)" .
  show ?thesis
    unfolding agree_def repeat_hi_def
    using reps_clip[OF program_okD(3)[OF ok repeat_child(2)[OF lr]] child_minimum[OF lr] _ h] False by simp
qed

lemma clip_agree:
  assumes lr: "live_repeat p count i"
  defines "n \<equiv> pNodes (gData p) ! i"
  shows "hi_ok (sint (lower (gBounds p ! i))) (clip_upper p count i n)"
    and "agree (unat count)
      (reps (plangs (pNodes (gData p)) (nChildren n ! 0)) (nat (sint (lower (gBounds p ! i))))
         (hi_opt (clip_upper p count i n)))
      (plangs (pNodes (gData p)) i)"
proof -
  note ok = live_repeatD(1)[OF lr] and i = live_repeatD(2)[OF lr] and rep = live_repeatD(3)[OF lr]
    and small = live_repeatD(4)[OF lr] and fits = live_repeatD(5)[OF lr]
  have pl: "plangs (pNodes (gData p)) i =
      reps (plangs (pNodes (gData p)) (nChildren n ! 0)) (nat_of_dec (nMin n)) (repeat_hi n)"
    using plangs_repeat[OF rep repeat_child(1)[OF lr]] by (simp add: n_def)
  have lo: "sint (lower (gBounds p ! i)) = int (nat_of_dec (nMin n))"
    unfolding sint_small[OF exact_lower(2)[OF lr]] exact_lower(1)[OF lr] n_def ..
  consider (cut) "\<not> nUnbounded n" "upper (gBounds p ! i) < count div gMinimum p ! (nChildren n ! 0)"
    | (free) "nUnbounded n \<or> upper (gBounds p ! i) \<ge> count div gMinimum p ! (nChildren n ! 0)"
    using not_le by blast
  then have "hi_ok (sint (lower (gBounds p ! i))) (clip_upper p count i n) \<and> agree (unat count)
      (reps (plangs (pNodes (gData p)) (nChildren n ! 0)) (nat (sint (lower (gBounds p ! i))))
         (hi_opt (clip_upper p count i n))) (plangs (pNodes (gData p)) i)"
  proof cases
    case cut
    note ex = exact_upper[OF lr, folded n_def, OF cut]
    from cut have "clip_upper p count i n = int (nat_of_dec (nMax n))"
      using ex(1) by (simp add: clip_upper_def Let_def sint_small[OF ex(2)] del: uint_nat)
    moreover have "nat_of_dec (nMin n) \<le> nat_of_dec (nMax n)"
      using table_ok_repeat(3)[OF program_ok_table[OF ok] i rep] cut by (simp add: n_def)
    ultimately show ?thesis using cut by (simp add: lo pl hi_ok_def hi_opt_def repeat_hi_def)
  next
    case free
    then have "clip_upper p count i n = -1" by (auto simp: clip_upper_def Let_def)
    with agree_unbounded[OF lr, folded n_def, OF free] show ?thesis
      by (simp add: lo pl hi_ok_def hi_opt_def)
  qed
  then show "hi_ok (sint (lower (gBounds p ! i))) (clip_upper p count i n)"
    "agree (unat count)
      (reps (plangs (pNodes (gData p)) (nChildren n ! 0)) (nat (sint (lower (gBounds p ! i))))
         (hi_opt (clip_upper p count i n))) (plangs (pNodes (gData p)) i)" by auto
qed

subsection \<open>Building the specialised residual\<close>

definition memo_ok :: "program \<Rightarrow> nat \<Rightarrow> arena \<Rightarrow> (nat \<rightharpoonup> nat) \<Rightarrow> bool" where
  "memo_ok p n a memo \<longleftrightarrow> (\<forall>i out. memo i = Some out \<longrightarrow>
     avalid a out \<and> agree n (alang a out) (plangs (pNodes (gData p)) i))"

definition built :: "program \<Rightarrow> nat \<Rightarrow> nat \<Rightarrow> arena \<Rightarrow> build_result \<Rightarrow> bool" where
  "built p n i a = ar.yields a (\<lambda>t v. avalid t (fst v) \<and>
     agree n (alang t (fst v)) (plangs (pNodes (gData p)) i) \<and> memo_ok p n t (snd v))"

lemma memo_ok_ext: "aext a b \<Longrightarrow> memo_ok p n a memo \<Longrightarrow> memo_ok p n b memo"
  by (auto simp: memo_ok_def aext_lang aext_valid)

lemma remember_built:
  assumes "ar.denotes a L r" "agree n L (plangs (pNodes (gData p)) i)" "memo_ok p n a memo"
  shows "built p n i a (remember i memo r)"
proof (cases r)
  case (Pair out t)
  show ?thesis
  proof (cases "afailed t")
    case True
    with Pair show ?thesis by (simp add: built_def remember_def ar.yields_failed)
  next
    case False
    note d = ar.denotesD[OF assms(1)[unfolded Pair] False]
    have "memo_ok p n t (memo(i \<mapsto> out))"
      using memo_ok_ext[OF d(3) assms(3)] d assms(2) by (auto simp: memo_ok_def)
    with d Pair assms(2) show ?thesis by (auto simp: built_def remember_def intro!: ar.yieldsI)
  qed
qed

lemma built_bind:
  assumes "built p n j a ((x, memo), t)"
    and "afailed t \<Longrightarrow> afailed (snd res)"
    and "\<not> afailed t \<Longrightarrow> ainv t \<Longrightarrow> aext a t \<Longrightarrow> avalid t x \<Longrightarrow>
      agree n (alang t x) (plangs (pNodes (gData p)) j) \<Longrightarrow> memo_ok p n t memo \<Longrightarrow> built p n i t res"
  shows "built p n i a res"
  using ar.yields_bind[of a _ "((x, memo), t)" "\<lambda>_ _. res"] assms
  by (auto simp: built_def ar.yields_def dest: aext_trans)

lemma build_failed: "afailed a \<Longrightarrow> build p count i memo a = Some ((0, memo), a)"
  by (subst build.simps) (simp add: afailed_def)

lemma remember_sticky: "afailed (snd r) \<Longrightarrow> afailed (snd (remember i memo r))"
  by (cases r) (simp add: remember_def)

theorem build_built:
  assumes ok: "program_ok p" and small: "unat count < 2 ^ 63"
  shows "grounded (pNodes (gData p)) i \<Longrightarrow> i < length (pNodes (gData p)) \<Longrightarrow>
    ainv a \<Longrightarrow> aProgram a = p \<Longrightarrow> memo_ok p (unat count) a memo \<Longrightarrow>
    \<exists>res. build p count i memo a = Some res \<and> built p (unat count) i a res"
proof (induction i arbitrary: memo a rule: grounded.induct)
  case (groundedI i)
  note i = groundedI.prems(1) and inv = groundedI.prems(2) and pa = groundedI.prems(3) and memo = groundedI.prems(4)
  define ns where "ns = pNodes (gData p)"
  define n where "n = ns ! i"
  have tab: "table_ok ns" using program_ok_table[OF ok] by (simp add: ns_def)
  have i': "i < length ns" using i by (simp add: ns_def)
  note kids = table_ok_children[OF tab i', folded n_def]
  note base = ainv_base[OF inv]
  have IH: "\<exists>res. build p count c memo a = Some res \<and> built p (unat count) c a res"
    if "c \<in> set (nChildren n)" "ainv a" "aProgram a = p" "memo_ok p (unat count) a memo" for c memo a
    using groundedI.IH[of c a memo] that table_okD(2)[OF tab i' that(1)[unfolded n_def]] by (simp add: n_def ns_def)
  have two: "\<exists>res. Option.bind (build p count (nChildren n ! 0) memo a) (\<lambda>((x, memo), a).
        Option.bind (build p count (nChildren n ! 1) memo a) (\<lambda>((y, memo), a).
          Some (remember i memo (f x y a)))) = Some res \<and> built p (unat count) i a res"
    if nc: "length (nChildren n) = 2"
      and f: "\<And>x y t. afailed t \<Longrightarrow> afailed (snd (f x y t))"
        "\<And>x y t. ainv t \<Longrightarrow> avalid t x \<Longrightarrow> avalid t y \<Longrightarrow>
           agree (unat count) (alang t x) (plangs ns (nChildren n ! 0)) \<Longrightarrow>
           agree (unat count) (alang t y) (plangs ns (nChildren n ! 1)) \<Longrightarrow>
           \<exists>L. ar.denotes t L (f x y t) \<and> agree (unat count) L (plangs ns i)" for f
  proof -
    have c: "nChildren n ! 0 \<in> set (nChildren n)" "nChildren n ! 1 \<in> set (nChildren n)" using nc by auto
    from IH[OF c(1) inv pa memo] obtain x m1 t where
      1: "build p count (nChildren n ! 0) memo a = Some ((x, m1), t)"
        "built p (unat count) (nChildren n ! 0) a ((x, m1), t)" by (metis prod.collapse)
    show ?thesis
    proof (cases "afailed t")
      case True
      with f(1)[OF True] have "afailed (snd (remember i m1 (f x 0 t)))" by (intro remember_sticky)
      with 1 build_failed[OF True, of p count "nChildren n ! 1" m1] show ?thesis
        by (auto simp: built_def ar.yields_def)
    next
      case False
      with 1(2) have t: "ainv t" "aext a t" "avalid t x" "memo_ok p (unat count) t m1"
        "agree (unat count) (alang t x) (plangs ns (nChildren n ! 0))"
        by (auto simp: built_def ar.yields_def ns_def)
      have "aProgram t = p" using t(2) pa by (simp add: aext_def)
      from IH[OF c(2) t(1) this t(4)] obtain y m2 u where
        2: "build p count (nChildren n ! 1) m1 t = Some ((y, m2), u)"
          "built p (unat count) (nChildren n ! 1) t ((y, m2), u)" by (metis prod.collapse)
      have "built p (unat count) i t (remember i m2 (f x y u))"
      proof (rule built_bind[OF 2(2)])
        assume "afailed u"
        then show "afailed (snd (remember i m2 (f x y u)))" by (intro remember_sticky f(1))
      next
        assume u: "\<not> afailed u" "ainv u" "aext t u" "avalid u y" "memo_ok p (unat count) u m2"
          "agree (unat count) (alang u y) (plangs (pNodes (gData p)) (nChildren n ! 1))"
        have x: "avalid u x" "alang u x = alang t x" using t(3) u(3) aext_valid aext_lang by blast+
        from f(2)[OF u(2) x(1) u(4) _ u(6)[folded ns_def]] t(5) x(2) obtain L where
          "ar.denotes u L (f x y u)" "agree (unat count) L (plangs ns i)" by auto
        with remember_built[OF _ _ u(5)] show "built p (unat count) i u (remember i m2 (f x y u))"
          by (simp add: ns_def)
      qed
      with 1 2 built_bind[OF 1(2)] False show ?thesis by auto
    qed
  qed
  show ?case
  proof (cases "afailed a")
    case True
    with build_failed[OF True] show ?thesis by (simp add: built_def ar.yields_failed)
  next
    case na: False
    then have ne: "\<not> aErr a \<noteq> None" by (simp add: afailed_def)
    show ?thesis
    proof (cases "memo i")
      case (Some out)
      with memo na ne inv show ?thesis
        by (subst build.simps) (auto simp: built_def memo_ok_def intro!: ar.yields_same)
    next
      case None
      note eq = build.simps[of p count i memo a, unfolded if_not_P[OF ne] None option.case(1), folded ns_def,
          folded n_def, unfolded Let_def]
      show ?thesis
      proof (cases "gMinimum p ! i > count")
        case True
        have "agree (unat count) {} (plangs ns i)"
          using program_okD(3)[OF ok i] True
          by (intro agree_empty) (fastforce simp: ns_def word_less_nat_alt intro: less_le_trans)
        with True eq base memo inv show ?thesis
          by (auto simp: built_def ns_def intro!: ar.yields_same)
      next
        case fits: False
        note eq = eq[unfolded if_not_P[OF fits]]
        consider (none) "nOp n = OpEmpty" | (eps) "nOp n = OpEpsilon" | (cls) "nOp n = OpClass"
          | (alt) "nOp n = OpAlternate" | (conc) "nOp n = OpConcat" | (rep) "nOp n = OpRepeat"
          using table_okD(3)[OF tab i'] by (cases "nOp n") (auto simp: n_def)
        then show ?thesis
        proof cases
          case none
          have "built p (unat count) i a (remember i memo (0, a))"
            using plangs_empty[of ns i] none base inv memo
            by (intro remember_built[where L = "{}"] ar.denotes_same) (auto simp: n_def ns_def)
          with eq none show ?thesis by simp
        next
          case eps
          have "built p (unat count) i a (remember i memo (1, a))"
            using plangs_epsilon[of ns i] eps base inv memo
            by (intro remember_built[where L = "{[]}"] ar.denotes_same) (auto simp: n_def ns_def)
          with eq eps show ?thesis by simp
        next
          case cls
          define r where "r = residual0\<lparr>sOp := OpClass, sA := i\<rparr>"
          have nl: "node_lang (aps a) (aNodes a) r = plangs ns i"
            using plangs_class[of ns i] cls pa by (simp add: r_def node_lang_def n_def ns_def)
          have "rnode_ok (aps a) (aNodes a) (length (aNodes a)) r"
            unfolding rnode_ok_def nl using plangs_class[of ns i] cls pa i by (auto simp: r_def residual0_def n_def ns_def)
          from put_denotes[OF inv this] nl have "ar.denotes a (plangs ns i) (put r a)" by simp
          then have "built p (unat count) i a (remember i memo (put r a))"
            using memo by (intro remember_built[where L = "plangs ns i"]) (simp_all add: ns_def)
          with eq cls show ?thesis by (simp add: r_def)
        next
          case alt
          with kids(1) obtain c d where cd: "nChildren n = [c, d]" by auto
          have "\<exists>L. ar.denotes t L (alt 0 x y t) \<and> agree (unat count) L (plangs ns i)"
            if "ainv t" "avalid t x" "avalid t y" "agree (unat count) (alang t x) (plangs ns (nChildren n ! 0))"
              "agree (unat count) (alang t y) (plangs ns (nChildren n ! 1))" for x y t
            using alt_denotes[OF that(1-3), of 0] agree_Un[OF that(4,5)] plangs_alternate[of ns i c d] alt cd
            by (auto simp: n_def)
          from two[of "\<lambda>x y. alt 0 x y", OF _ alt_sticky this] eq alt cd show ?thesis by simp
        next
          case conc
          with kids(1) obtain c d where cd: "nChildren n = [c, d]" by auto
          have "\<exists>L. ar.denotes t L (seq 0 x y t) \<and> agree (unat count) L (plangs ns i)"
            if "ainv t" "avalid t x" "avalid t y" "agree (unat count) (alang t x) (plangs ns (nChildren n ! 0))"
              "agree (unat count) (alang t y) (plangs ns (nChildren n ! 1))" for x y t
            using seq_denotes[OF that(1-3), of 0] agree_conc[OF that(4,5)] plangs_concat[of ns i c d] conc cd
            by (auto simp: n_def)
          from two[of "\<lambda>x y. seq 0 x y", OF _ seq_sticky this] eq conc cd show ?thesis by simp
        next
          case rep
          have lr: "live_repeat p count i"
            using ok i rep small fits by (simp add: live_repeat_def n_def ns_def)
          note clip = clip_agree[OF lr, folded ns_def, folded n_def]
          from kids(2) rep obtain c where c: "nChildren n = [c]" by auto
          from IH[of c, OF _ inv pa memo] c obtain x m1 t where
            1: "build p count c memo a = Some ((x, m1), t)" "built p (unat count) c a ((x, m1), t)"
            by (metis prod.collapse list.set_intros(1))
          let ?lo = "sint (lower (gBounds p ! i))" and ?hi = "clip_upper p count i n"
          have "built p (unat count) i a (remember i m1 (rep x ?lo ?hi t))"
          proof (rule built_bind[OF 1(2)])
            assume "afailed t"
            then show "afailed (snd (remember i m1 (rep x ?lo ?hi t)))" by (intro remember_sticky rep_sticky)
          next
            assume t: "\<not> afailed t" "ainv t" "aext a t" "avalid t x" "memo_ok p (unat count) t m1"
              "agree (unat count) (alang t x) (plangs (pNodes (gData p)) c)"
            have "[] \<notin> plangs ns c"
              using program_okD(5)[OF ok i] program_okD(2)[OF ok repeat_child(2)[OF lr]] rep c
              by (simp add: n_def ns_def)
            then have "[] \<notin> alang t x" using agree_Nil[OF t(6)] by (simp add: ns_def)
            from rep_denotes[OF t(2,4) clip(1) this]
            have "ar.denotes t (reps (alang t x) (nat ?lo) (hi_opt ?hi)) (rep x ?lo ?hi t)" .
            moreover have "agree (unat count) (reps (alang t x) (nat ?lo) (hi_opt ?hi)) (plangs ns i)"
              using agree_trans[OF agree_reps[OF t(6)]] clip(2) c by (simp add: ns_def)
            ultimately show "built p (unat count) i t (remember i m1 (rep x ?lo ?hi t))"
              unfolding ns_def using t(5) by (rule remember_built)
          qed
          with eq rep c 1 show ?thesis by simp
        qed
      qed
    qed
  qed
qed

theorem specialize_ok:
  assumes ok: "program_ok p" and small: "unat count < 2 ^ 63"
  shows "\<exists>a root. specialize p count l = Some (a, root) \<and> (\<not> afailed a \<longrightarrow>
     ainv a \<and> classes_ok a \<and> avalid a root \<and>
     agree (unat count) (alang a root) (plangs (pNodes (gData p)) (pRoot (gData p))))"
proof (cases rule: aCharge_cases[of "mulSat (len64 (pNodes (gData p))) 64" "len64 (pNodes (gData p))" "newArena l p"])
  case (refused a')
  then show ?thesis by (simp add: specialize_def)
next
  case (ok b)
  note tab = program_ok_table[OF assms(1)] and root = program_ok_root[OF assms(1)]
  define a where "a = newArena l p\<lparr>aLedger := b\<rparr>"
  have a: "ainv a" "classes_ok a" "aProgram a = p"
    using newArena_ok[OF tab ok(2)] by (simp_all add: a_def classes_ok_def)
  from build_built[OF assms program_okD(1)[OF assms(1) root] root a(1,3), of Map.empty]
  obtain r memo t where t: "build p count (pRoot (gData p)) Map.empty a = Some ((r, memo), t)"
    "built p (unat count) (pRoot (gData p)) a ((r, memo), t)"
    by (auto simp: memo_ok_def)
  have "specialize p count l = Some (t, r)"
    using ok t(1) by (simp add: specialize_def a_def)
  moreover have "classes_ok t" if "\<not> afailed t"
    using t(2) that a(2) classes_ok_ext by (auto simp: built_def ar.yields_def)
  ultimately show ?thesis using t(2) by (auto simp: built_def ar.yields_def)
qed

subsection \<open>Running a value through derivatives\<close>

lemma derive_word_failed: "afailed a \<Longrightarrow> derive_word rs state a = (None, state, a)"
  by (cases rs) (simp_all add: afailed_def)

theorem derive_word_ok:
  "ainv a \<Longrightarrow> classes_ok a \<Longrightarrow> avalid a state \<Longrightarrow> derive_word rs state a = (r, state', a') \<Longrightarrow>
     case r of
       Some b \<Rightarrow> b \<longleftrightarrow> rs \<in> alang a state
     | None \<Rightarrow> afailed a' \<or> (sNullable (aNodes a' ! state') \<longleftrightarrow> rs \<in> alang a state)"
proof (induction rs arbitrary: state a)
  case Nil
  then show ?case by (auto simp: anullable)
next
  case (Cons c rs)
  obtain s1 a1 where d: "derive 0 state (symbol a c) a = (s1, a1)" by fastforce
  show ?case
  proof (cases "afailed a \<or> afailed a1")
    case True
    with Cons.prems(4) d show ?thesis by (auto simp: afailed_def split: if_splits)
  next
    case False
    note dd = ar.denotesD[OF derive_denotes[OF Cons.prems(1,3,2), of c 0, unfolded d]]
    have a1: "ainv a1" "aext a a1" "avalid a1 s1" "alang a1 s1 = quot c (alang a state)"
      using dd False by auto
    have mem: "c # rs \<in> alang a state \<longleftrightarrow> rs \<in> alang a1 s1" using a1(4) by (simp add: quot_def)
    show ?thesis
    proof (cases "s1 = 0")
      case True
      with False Cons.prems(4) d have "r = Some False" by (auto simp: afailed_def)
      with True mem ainv_base[OF a1(1)] show ?thesis by simp
    next
      case nz: False
      with False Cons.prems(4) d have "derive_word rs s1 a1 = (r, state', a')" by (simp add: afailed_def)
      from Cons.IH[OF a1(1) _ a1(3) this] classes_ok_ext[OF a1(2)] Cons.prems(2) show ?thesis
        unfolding mem by simp
    qed
  qed
qed

subsection \<open>The fallback program\<close>

definition fallback_table :: "program \<Rightarrow> u64 \<Rightarrow> node_data list" where
  "fallback_table p count =
     map (\<lambda>i. fallback_node p count i (pNodes (gData p) ! i)) [0..<length (pNodes (gData p))]"

lemma fallback_children: "set (nChildren (fallback_node p count i n)) \<subseteq> set (nChildren n)"
  by (auto simp: fallback_node_def node0_def Let_def split: if_splits)

lemma fallback_check: "check_node k n = None \<Longrightarrow> check_node k (fallback_node p count i n) = None"
  by (auto simp: fallback_node_def Let_def node0_def)
    (auto simp: check_node_def arity_def split: if_splits)

lemma fallback_table_ok:
  assumes "table_ok (pNodes (gData p))"
  shows "table_ok (fallback_table p count)"
  using assms by (auto simp: table_ok_def fallback_table_def intro!: fallback_check)

lemma fallback_grounded:
  assumes tab: "table_ok (pNodes (gData p))"
  shows "grounded (pNodes (gData p)) i \<Longrightarrow> i < length (pNodes (gData p)) \<Longrightarrow> grounded (fallback_table p count) i"
proof (induction i rule: grounded.induct)
  case (groundedI i)
  show ?case
  proof (rule grounded.groundedI)
    fix c assume "c \<in> set (nChildren (fallback_table p count ! i))"
    then have "c \<in> set (nChildren (pNodes (gData p) ! i))"
      using subsetD[OF fallback_children[of p count i "pNodes (gData p) ! i"]] groundedI.prems
      by (simp add: fallback_table_def)
    with groundedI table_okD(2)[OF tab groundedI.prems] show "grounded (fallback_table p count) c" by blast
  qed
qed

lemma fallback_agree:
  assumes ok: "program_ok p" and small: "unat count < 2 ^ 63"
  shows "grounded (pNodes (gData p)) i \<Longrightarrow> i < length (pNodes (gData p)) \<Longrightarrow>
    agree (unat count) (plangs (fallback_table p count) i) (plangs (pNodes (gData p)) i)"
proof (induction i rule: grounded.induct)
  case (groundedI i)
  define ns where "ns = pNodes (gData p)"
  define fs where "fs = fallback_table p count"
  note i = groundedI.prems
  have tab: "table_ok ns" using program_ok_table[OF ok] by (simp add: ns_def)
  have i': "i < length ns" using i by (simp add: ns_def)
  have fi: "fs ! i = fallback_node p count i (ns ! i)" using i by (simp add: fs_def ns_def fallback_table_def)
  have IH: "agree (unat count) (plangs fs c) (plangs ns c)" if "c \<in> set (nChildren (ns ! i))" for c
    using groundedI.IH that table_okD(2)[OF tab i' that] by (simp add: ns_def fs_def)
  note kids = table_ok_children[OF tab i']
  show ?case
  proof (cases "gMinimum p ! i > count")
    case True
    then have "plangs fs i = {}" using fi by (intro plangs_empty) (simp add: fallback_node_def node0_def)
    moreover have "agree (unat count) {} (plangs ns i)"
      using program_okD(3)[OF ok i] True
      by (intro agree_empty) (fastforce simp: ns_def word_less_nat_alt intro: less_le_trans)
    ultimately show ?thesis by (simp add: fs_def ns_def)
  next
    case fits: False
    show ?thesis
    proof (cases "nOp (ns ! i) = OpRepeat")
      case True
      have lr: "live_repeat p count i" using ok i True small fits by (simp add: live_repeat_def ns_def)
      let ?c = "nChildren (ns ! i) ! 0"
      have c: "nChildren (ns ! i) = [?c]" "?c \<in> set (nChildren (ns ! i))"
        using kids(2)[OF True] by (metis, metis list.set_intros(1))
      have f: "nOp (fs ! i) = OpRepeat" "nChildren (fs ! i) = [?c]" "nMin (fs ! i) = nMin (ns ! i)"
        using fi fits True c(1) by (simp_all add: fallback_node_def Let_def)
      have "agree (unat count) (reps (plangs ns ?c) lo (repeat_hi (fs ! i))) (reps (plangs ns ?c) lo (repeat_hi (ns ! i)))" for lo
      proof (cases "nUnbounded (ns ! i) \<or> upper (gBounds p ! i) \<ge> count div gMinimum p ! ?c")
        case u: True
        then have "repeat_hi (fs ! i) = None"
          using fi fits True by (simp add: fallback_node_def repeat_hi_def Let_def)
        with agree_unbounded[OF lr] u show ?thesis by (simp add: ns_def)
      next
        case False
        then have "fs ! i = ns ! i" using fi fits True by (simp add: fallback_node_def Let_def)
        then show ?thesis by simp
      qed
      then show ?thesis
        using agree_trans[OF agree_reps[OF IH[OF c(2)]]] plangs_repeat[OF True c(1)] plangs_repeat[OF f(1,2)] f(3)
        by (simp add: ns_def fs_def)
    next
      case False
      then have same: "fs ! i = ns ! i" using fi fits by (simp add: fallback_node_def)
      consider "nOp (ns ! i) = OpEmpty" | "nOp (ns ! i) = OpEpsilon" | "nOp (ns ! i) = OpClass"
        | "nOp (ns ! i) = OpAlternate" | "nOp (ns ! i) = OpConcat"
        using table_okD(3)[OF tab i'] False by (cases "nOp (ns ! i)") auto
      then have "agree (unat count) (plangs fs i) (plangs ns i)"
      proof cases
        case 1
        with same show ?thesis by (simp add: plangs_empty)
      next
        case 2
        with same show ?thesis by (simp add: plangs_epsilon)
      next
        case 3
        with same show ?thesis by (simp add: plangs_class)
      next
        case 4
        with kids(1) obtain a b where ab: "nChildren (ns ! i) = [a, b]" by auto
        with 4 same agree_Un[OF IH[of a] IH[of b]] show ?thesis
          by (simp add: plangs_alternate[of _ i a b])
      next
        case 5
        with kids(1) obtain a b where ab: "nChildren (ns ! i) = [a, b]" by auto
        with 5 same agree_conc[OF IH[of a] IH[of b]] show ?thesis
          by (simp add: plangs_concat[of _ i a b])
      qed
      then show ?thesis by (simp add: ns_def fs_def)
    qed
  qed
qed

lemma fallback_counts_fit:
  assumes ok: "program_ok p" and small: "unat count < 2 ^ 63" and i: "i < length (pNodes (gData p))"
    and q: "pNodes (gData q) = fallback_table p count" "gBounds q = gBounds p"
  shows "counts_fit q True i"
proof (cases "gMinimum p ! i > count \<or> nOp (pNodes (gData p) ! i) \<noteq> OpRepeat")
  case True
  then have "nOp (fallback_table p count ! i) \<noteq> OpRepeat"
    using i by (auto simp: fallback_table_def fallback_node_def node0_def)
  with q show ?thesis by (simp add: counts_fit_def Let_def)
next
  case False
  then have lr: "live_repeat p count i" using ok small i by (simp add: live_repeat_def)
  let ?n = "pNodes (gData p) ! i" and ?f = "fallback_table p count ! i"
  have f: "?f = fallback_node p count i ?n" using i by (simp add: fallback_table_def)
  have "nMin ?f = nMin ?n" using f False by (simp add: fallback_node_def Let_def)
  moreover have "unat (upper (gBounds p ! i)) = nat_of_dec (nMax ?f)" if "\<not> nUnbounded ?f"
  proof -
    have u: "\<not> nUnbounded ?n" "upper (gBounds p ! i) < count div gMinimum p ! (nChildren ?n ! 0)" "?f = ?n"
      using that f False by (auto simp: fallback_node_def Let_def split: if_splits)
    from exact_upper(1)[OF lr u(1,2)] u(3) show ?thesis by simp
  qed
  ultimately show ?thesis
    using exact_lower(1)[OF lr] q by (simp add: counts_fit_def Let_def)
qed

lemma specializedProgram_value:
  assumes "specializedProgram p count l = Inr q"
  shows "pNodes (gData q) = fallback_table p count" "gBounds q = gBounds p" "pRoot (gData q) = pRoot (gData p)"
  using assms by (auto simp: specializedProgram_def fallback_table_def Let_def split: option.splits)

lemma length_fallback_table [simp]: "length (fallback_table p count) = length (pNodes (gData p))"
  by (simp add: fallback_table_def)

theorem fallback_match_ok:
  assumes ok: "program_ok p" and len: "length runes < 2 ^ 63"
  shows "\<exists>b route err. fallback_match eng p runes l e1 e2 = Some (b, route, err) \<and>
    (err = None \<longrightarrow> (b \<longleftrightarrow> runes \<in> plangs (pNodes (gData p)) (pRoot (gData p))))"
proof (cases "specializedProgram p (len64 runes) l")
  case (Inl e)
  then show ?thesis by (simp add: fallback_match_def ex_bool_eq)
next
  case (Inr q)
  let ?count = "len64 runes :: u64"
  have cnt: "unat ?count = length runes" using len by (intro unat_of_nat64) simp
  have small: "unat ?count < 2 ^ 63" using len cnt by simp
  note q = specializedProgram_value[OF Inr]
  note tab = program_ok_table[OF ok] and root = program_ok_root[OF ok]
  note gr = program_okD(1)[OF ok root]
  have "table_ok (pNodes (gData q))" using fallback_table_ok[OF tab] q by simp
  moreover have "pRoot (gData q) < length (pNodes (gData q))" using root q by simp
  moreover have "grounded (pNodes (gData q)) (pRoot (gData q))"
    using fallback_grounded[OF tab gr root] q by simp
  moreover have "counts_fit q True i" if "i < length (pNodes (gData q))" for i
    using fallback_counts_fit[OF ok small _ q(1,2)] that q by simp
  ultimately obtain r where r: "nativeExpression q True l = Some r"
    "\<And>src k. r = Inr (src, k) \<Longrightarrow> \<forall>w. regexp_match src w \<longleftrightarrow> w \<in> plangs (pNodes (gData q)) (pRoot (gData q))"
    using nativeExpression_returns[of q True l] by auto
  have sem: "regexp_match src runes \<longleftrightarrow> runes \<in> plangs (pNodes (gData p)) (pRoot (gData p))"
    if "r = Inr (src, k)" for src k
    using r(2)[OF that] fallback_agree[OF ok small gr root] cnt q by (simp add: agree_def)
  show ?thesis
  proof (cases r)
    case (Inl e)
    with r(1) Inr show ?thesis by (simp add: fallback_match_def Let_def ex_bool_eq)
  next
    case (Inr sk)
    obtain src k where sk: "sk = (src, k)" by fastforce
    have "\<exists>b route err. fallback_match eng p runes l e1 e2 = Some (b, route, err) \<and>
        (err = None \<longrightarrow> b = regexp_match src runes)"
      using r(1) Inr sk \<open>specializedProgram p _ l = _\<close>
      by (simp add: fallback_match_def Let_def ex_bool_eq split: option.splits)
    with sem Inr sk show ?thesis by blast
  qed
qed

theorem derivative_match_ok:
  assumes ok: "program_ok p" and len: "length runes < 2 ^ 63"
  shows "\<exists>b route err. derivative_match eng p runes l e2 = Some (b, route, err) \<and>
    (err = None \<longrightarrow> (b \<longleftrightarrow> runes \<in> plangs (pNodes (gData p)) (pRoot (gData p))))"
proof -
  let ?count = "len64 runes :: u64"
  have cnt: "unat ?count = length runes" using len by (intro unat_of_nat64) simp
  have small: "unat ?count < 2 ^ 63" using len cnt by simp
  from specialize_ok[OF ok small] obtain a root where s: "specialize p ?count l = Some (a, root)"
    "\<not> afailed a \<Longrightarrow> ainv a \<and> classes_ok a \<and> avalid a root \<and>
     agree (unat ?count) (alang a root) (plangs (pNodes (gData p)) (pRoot (gData p)))" by blast
  obtain r state t where d: "derive_word runes root a = (r, state, t)" by (cases "derive_word runes root a") auto
  have fb: "\<exists>b route err. fallback_match eng p runes l e e2 = Some (b, route, err) \<and>
    (err = None \<longrightarrow> (b \<longleftrightarrow> runes \<in> plangs (pNodes (gData p)) (pRoot (gData p))))" for e
    by (rule fallback_match_ok[OF ok len])
  show ?thesis
  proof (cases "afailed a")
    case True
    with d have "r = None" "t = a" using derive_word_failed by auto
    with True s(1) d fb show ?thesis by (auto simp: derivative_match_def afailed_def)
  next
    case False
    note inv = s(2)[OF False]
    have mem: "runes \<in> alang a root \<longleftrightarrow> runes \<in> plangs (pNodes (gData p)) (pRoot (gData p))"
      using inv cnt by (simp add: agree_def)
    note dw = derive_word_ok[OF _ _ _ d]
    show ?thesis
    proof (cases r)
      case (Some b)
      with dw inv mem s(1) d show ?thesis by (simp add: derivative_match_def)
    next
      case None
      show ?thesis
      proof (cases "aErr t")
        case aok: None
        with dw inv mem s(1) d None show ?thesis by (simp add: derivative_match_def afailed_def)
      next
        case (Some e)
        with s(1) d None fb show ?thesis by (simp add: derivative_match_def)
      qed
    qed
  qed
qed

lemma reps_single_class:
  "w \<in> reps {[c] | c. P c} lo hi \<longleftrightarrow> (\<forall>c \<in> set w. P c) \<and> lo \<le> length w \<and> below (length w) hi"
proof
  assume "w \<in> reps {[c] | c. P c} lo hi"
  then obtain ws where w: "w = concat ws" "set ws \<subseteq> {[c] | c. P c}" "lo \<le> length ws" "below (length ws) hi"
    by (auto elim: repsE)
  from w(2) have "length (concat ws) = length ws \<and> (\<forall>c \<in> set (concat ws). P c)"
    by (induction ws) auto
  with w show "(\<forall>c \<in> set w. P c) \<and> lo \<le> length w \<and> below (length w) hi" by simp
next
  assume a: "(\<forall>c \<in> set w. P c) \<and> lo \<le> length w \<and> below (length w) hi"
  have "concat (map (\<lambda>c. [c]) w) \<in> reps {[c] | c. P c} lo hi"
    using a by (intro repsI) auto
  then show "w \<in> reps {[c] | c. P c} lo hi" by simp
qed

text \<open>The direct route reads a class, possibly repeated.\<close>
lemma direct_match_ok:
  assumes ok: "program_ok p" and len: "length runes < 2 ^ 63" and i: "cls < length (pNodes (gData p))"
    and cls: "nOp (pNodes (gData p) ! cls) = OpClass"
    and b: "\<And>n. n < 2 ^ 63 \<Longrightarrow> (unat lo \<le> n \<longleftrightarrow> l \<le> n) \<and> (\<not> unb \<longrightarrow> (n \<le> unat hi \<longleftrightarrow> below n h))"
    and u: "unb \<Longrightarrow> h = None"
    and res: "direct_match p runes lim cls lo hi unb = (m, route, None)"
  shows "m \<longleftrightarrow> runes \<in> reps (plangs (pNodes (gData p)) cls) l h"
proof -
  let ?rs = "nRanges (pNodes (gData p) ! cls)"
  have cnt: "unat (len64 runes :: u64) = length runes" using len by (intro unat_of_nat64) simp
  have "scalar_ranges (-1) ?rs" using table_okD(5)[OF program_ok_table[OF ok] i] .
  note cr = containsRune_iff[OF this]
  have "m \<longleftrightarrow> unat lo \<le> length runes \<and> (unb \<or> length runes \<le> unat hi) \<and> list_all (in_ranges ?rs) runes"
    using res cnt by (auto simp: direct_match_def cr word_less_nat_alt not_less not_le cong: list.pred_cong split: option.splits if_splits)
  with b[OF len] u show ?thesis
    by (auto simp: plangs_class[OF cls] reps_single_class list_all_iff)
qed

text \<open>The bounds as the direct route reads them.\<close>
lemma direct_bounds:
  assumes ok: "program_ok p" and i: "i < length (pNodes (gData p))" and rep: "nOp (pNodes (gData p) ! i) = OpRepeat"
    and n: "n < 2 ^ 63"
  shows "unat (lower (gBounds p ! i)) \<le> n \<longleftrightarrow> nat_of_dec (nMin (pNodes (gData p) ! i)) \<le> n"
    and "\<not> nUnbounded (pNodes (gData p) ! i) \<Longrightarrow>
      n \<le> unat (upper (gBounds p ! i)) \<longleftrightarrow> below n (repeat_hi (pNodes (gData p) ! i))"
proof -
  note tr = table_ok_repeat[OF program_ok_table[OF ok] i rep]
  note b = program_okD(6)[OF ok i rep]
  show "unat (lower (gBounds p ! i)) \<le> n \<longleftrightarrow> nat_of_dec (nMin (pNodes (gData p) ! i)) \<le> n"
    using unat_decimalUint[OF canonicalDecimal_digits[OF tr(1)]] b n by (auto simp: min_def)
  assume nu: "\<not> nUnbounded (pNodes (gData p) ! i)"
  then show "n \<le> unat (upper (gBounds p ! i)) \<longleftrightarrow> below n (repeat_hi (pNodes (gData p) ! i))"
    using unat_decimalUint[OF canonicalDecimal_digits[OF tr(2)[OF nu]]] b n
    by (auto simp: min_def repeat_hi_def)
qed

theorem match_runes_ok:
  assumes p: "restored p" and len: "length runes < 2 ^ 63"
  shows "\<exists>b route err. match_runes eng p runes limits = Some (b, route, err) \<and>
    (err = None \<longrightarrow> (b \<longleftrightarrow> runes \<in> plangs (pNodes (gData p)) (pRoot (gData p))))"
proof -
  define ns where "ns = pNodes (gData p)"
  define root where "root = pRoot (gData p)"
  define l where "l = match_defaults limits"
  let ?n = "ns ! root"
  have ok: "program_ok p" using p by (simp add: restored_def)
  have cnt: "unat (len64 runes :: u64) = length runes" using len by (intro unat_of_nat64) simp
  note tab = program_ok_table[OF ok, folded ns_def] and rt = program_ok_root[OF ok, folded ns_def root_def]
  have ne: "ns \<noteq> []" using rt by auto
  let ?goal = "\<lambda>r. \<exists>b route err. r = Some (b, route, err) \<and> (err = None \<longrightarrow> (b \<longleftrightarrow> runes \<in> plangs ns root))"
  have dm: "?goal (derivative_match eng p runes l e)" for e
    using derivative_match_ok[OF ok len] by (simp add: ns_def root_def)
  note eq = match_runes_def[of eng p runes limits, folded ns_def root_def l_def, unfolded Let_def, folded root_def l_def]
  have "?goal (match_runes eng p runes limits)"
  proof (cases "gMinimum p ! root > len64 runes")
    case True
    have "runes \<notin> plangs ns root"
    proof
      assume "runes \<in> plangs ns root"
      then have "unat (gMinimum p ! root) \<le> length runes"
        using program_okD(3)[OF ok rt[unfolded ns_def]] by (simp add: ns_def)
      with True cnt show False by (simp add: word_less_nat_alt)
    qed
    with True ne show ?thesis by (simp add: eq ex_bool_eq)
  next
    case min: False
    show ?thesis
    proof (cases "runes = []")
      case True
      have "match_runes eng p runes limits = Some (gNullable p ! root, ''empty'', None)"
        unfolding eq using min ne True by simp
      with program_okD(2)[OF ok rt[unfolded ns_def]] True show ?thesis by (simp add: ns_def)
    next
      case False
      then have nz: "(len64 runes :: u64) \<noteq> 0" using cnt by (metis length_0_conv unat_0)
      define cls where "cls = (if nOp ?n = OpRepeat then nChildren ?n ! 0 else root)"
      have rest: "?goal (case gNative p of None \<Rightarrow> derivative_match eng p runes l None
          | Some (src, k) \<Rightarrow> (case nativeEligible (len64 src) k (len64 runes) l of
              None \<Rightarrow> Some (regexp_match src runes, ''native'', None)
            | Some e \<Rightarrow> derivative_match eng p runes l (Some e)))"
        using p dm by (auto simp: restored_def ns_def root_def split: option.splits)
      show ?thesis
      proof (cases "nOp ?n = OpRepeat")
        case rep: True
        let ?c = "nChildren ?n ! 0"
        have c: "nChildren ?n = [?c]" using table_ok_children(2)[OF tab rt rep] .
        then have cl: "?c < length ns" using table_okD(2)[OF tab rt, of ?c] by (metis list.set_intros(1))
        show ?thesis
        proof (cases "nOp (ns ! ?c) = OpClass")
          case cls: True
          obtain m route err where m: "direct_match p runes l ?c (lower (gBounds p ! root))
              (upper (gBounds p ! root)) (nUnbounded ?n) = (m, route, err)" by (cases "direct_match p runes l ?c (lower (gBounds p ! root))
              (upper (gBounds p ! root)) (nUnbounded ?n)") auto
          have "err = None \<Longrightarrow> m \<longleftrightarrow> runes \<in> reps (plangs ns ?c) (nat_of_dec (nMin ?n)) (repeat_hi ?n)"
            unfolding ns_def
            by (rule direct_match_ok[OF ok len cl[unfolded ns_def] cls[unfolded ns_def]])
              (use m direct_bounds[OF ok rt[unfolded ns_def] rep[unfolded ns_def]] in \<open>auto simp: ns_def repeat_hi_def\<close>)
          with min ne nz rep cls m plangs_repeat[OF rep c] show ?thesis by (simp add: eq)
        next
          case False
          with min ne nz rep rest show ?thesis by (simp add: eq)
        qed
      next
        case nrep: False
        show ?thesis
        proof (cases "nOp ?n = OpClass")
          case cls: True
          obtain m route err where m: "direct_match p runes l root 1 1 False = (m, route, err)"
            by (cases "direct_match p runes l root 1 1 False") auto
          have "err = None \<Longrightarrow> m \<longleftrightarrow> runes \<in> reps (plangs ns root) 1 (Some 1)"
            unfolding ns_def
            by (rule direct_match_ok[OF ok len rt[unfolded ns_def] cls[unfolded ns_def]]) (use m in auto)
          with min ne nz nrep cls m show ?thesis by (simp add: eq)
        next
          case False
          with min ne nz nrep rest show ?thesis by (simp add: eq)
        qed
      qed
    qed
  qed
  then show ?thesis by (simp add: ns_def root_def)
qed

end
