(* ===== verification/Pattern_Properties.thy ===== *)
theory Pattern_Properties
  imports Pattern_Match
begin

text \<open>
  The properties of the pattern runtime (\<open>go/yangpattern/runtime_*.go\<close>), each stated over the
  definitions of the component theories and derived from their lemmas, and an instance of each
  one that has hypotheses.
\<close>

subsection \<open>A concrete program and engine\<close>

text \<open>The table of \<open>[a-c]{2,3}\<close>, and an engine that prices every expression alike.\<close>

definition sample_data :: program_data where
  "sample_data = \<lparr>pVersion = 1, pSource = ''[a-c]{2,3}'',
     pNodes = [node0, node0\<lparr>nOp := OpEpsilon\<rparr>,
       node0\<lparr>nOp := OpClass, nRanges := [\<lparr>rLo = 97, rHi = 99\<rparr>]\<rparr>,
       node0\<lparr>nOp := OpRepeat, nChildren := [2], nMin := ''2'', nMax := ''3''\<rparr>],
     pRoot = 3\<rparr>"

definition sample_engine :: engine where
  "sample_engine = \<lparr>eInsts = (\<lambda>_. Some 20), eCompiles = (\<lambda>_. True)\<rparr>"

definition sample_program :: program where
  "sample_program = \<lparr>gData = sample_data, gNullable = [False, True, False, False],
     gMinimum = [maxU64, 0, 1, 2], gBounds = [\<lparr>lower = 0, upper = 0\<rparr>, \<lparr>lower = 0, upper = 0\<rparr>, \<lparr>lower = 0, upper = 0\<rparr>,
       \<lparr>lower = 2, upper = 3\<rparr>],
     gNative = Some (''^(?:(?:['' @ [CHR 0x5C] @ ''x{61}-'' @ [CHR 0x5C] @ ''x{63}]){2,3})$'', 20)\<rparr>"

lemmas limit_eval = defaultValue_def restore_defaults_def restore_limits0_def match_defaults_def
  match_limits0_def new_ledger_def charge_def limitError_def addSat_def mulSat_def push_bit_eq_mult
  Let_def

lemmas table_eval = check_node_def node0_def arity_def canonicalDecimal_def decimalCompare_def
  is_digit_def decimalUint_def nat_of_dec_def digit_val_def

lemmas sample_eval = sample_data_def sample_program_def limit_eval table_eval FormatVersion_def

lemma sample_core: "restore_core sample_data restore_limits0 =
    Inr (sample_program\<lparr>gNative := None\<rparr>,
      \<lparr>lPhase = ''restore'', lStage = ''validate'', lBytes = 1124, lWork = 16,
        lByteLimit = 16777216, lWorkLimit = 5000000, lErr = None\<rparr>)"
  by (simp add: restore_core_def sample_eval visit.simps finish_node_def vstate0_def upt_rec)

lemmas native_eval = measure_node.simps measure_state0_def settle_def leaf_size_def binary_size_def
  repeat_size_def emit_node.simps range_text_def rune_text_def hexX_def hex_of_nat.simps
  hex_char_def group_text_def counts_text_def nativeExpression_def nativeInstructionCount_def
  prepareNative_def char_of_def bit_0

lemma sample_restored: "RestoreWithLimits sample_engine sample_data restore_limits0 = Some (Inr sample_program)"
  by (simp add: RestoreWithLimits_def sample_core) (simp add: sample_eval native_eval sample_engine_def)

lemma sample_program_ok: "restored sample_program" "program_ok sample_program"
  using RestoreWithLimits_restored[of sample_engine sample_data restore_limits0] sample_restored
  by (auto simp: restored_def)

subsection \<open>Matching\<close>

text \<open>
  C1: A program that \<open>RestoreWithLimits\<close> accepted decides its language: matching any string of
  fewer than \<open>2 ^ 63\<close> runes returns, and when it returns no error its answer is whether the runes
  of the string are in the language of the root node, whichever of the routes (length, empty,
  direct, native, derivative, fallback) was taken and whatever the policy.
\<close>
theorem match_decides_language:
  assumes "RestoreWithLimits eng d limits = Some (Inr p)" "length (utf8_runes s) < 2 ^ 63"
  shows "\<exists>matched err. MatchStringWithLimits eng p s policy = Some (matched, err) \<and>
    (err = None \<longrightarrow> (matched \<longleftrightarrow> utf8_runes s \<in> plangs (pNodes d) (pRoot d)))"
  using RestoreWithLimits_restored[of eng d limits] match_runes_ok[OF _ assms(2), of p eng policy] assms(1)
  by (auto simp: MatchStringWithLimits_def match_value_def)

lemma sample_runes: "utf8_runes ''abc'' = [97, 98, 99]"
  by (simp add: utf8_runes.simps decodeRune_def)

theorem match_decides_language_witness:
  "\<exists>matched err. MatchStringWithLimits sample_engine sample_program ''abc'' match_limits0 = Some (matched, err) \<and>
    (err = None \<longrightarrow> (matched \<longleftrightarrow> utf8_runes ''abc'' \<in> plangs (pNodes sample_data) (pRoot sample_data)))"
  by (rule match_decides_language[OF sample_restored]) (simp add: sample_runes)

subsection \<open>Restoring\<close>

text \<open>
  C5: What acceptance by \<open>RestoreWithLimits\<close> means: the program holds the data it was given, its
  node graph is acyclic, \<open>nullable\<close> says exactly which nodes accept the empty string, \<open>minimum\<close>
  is a lower bound on the length of every accepted word, and no repetition has a child that
  accepts the empty string.
\<close>
theorem restore_sound:
  assumes "RestoreWithLimits eng d limits = Some (Inr p)" "i < length (pNodes d)"
  shows "gData p = d \<and> pRoot d < length (pNodes d) \<and> grounded (pNodes d) i \<and>
    (gNullable p ! i \<longleftrightarrow> [] \<in> plangs (pNodes d) i) \<and>
    (\<forall>w \<in> plangs (pNodes d) i. unat (gMinimum p ! i) \<le> length w) \<and>
    (nOp (pNodes d ! i) = OpRepeat \<longrightarrow> [] \<notin> plangs (pNodes d) (nChildren (pNodes d ! i) ! 0))"
proof -
  have p: "restored p" "gData p = d"
    using RestoreWithLimits_restored[of eng d limits] assms(1) by auto
  then have ok: "program_ok p" by (simp add: restored_def)
  note tab = program_ok_table[OF ok] and root = program_ok_root[OF ok] and facts = program_okD[OF ok]
  have "[] \<notin> plangs (pNodes d) (nChildren (pNodes d ! i) ! 0)" if rep: "nOp (pNodes d ! i) = OpRepeat"
  proof -
    have "nChildren (pNodes d ! i) ! 0 < length (pNodes d)"
      using tab p(2) assms(2) rep table_okD(2)[of "pNodes d" i] table_okD(1)[of "pNodes d" i]
      by (simp add: arity_def)
    then show ?thesis using facts(2,5) assms(2) rep p by auto
  qed
  with facts(1-3) assms(2) p root show ?thesis by simp
qed

theorem restore_sound_witness:
  "gData sample_program = sample_data \<and> grounded (pNodes sample_data) 3 \<and>
   (gNullable sample_program ! 3 \<longleftrightarrow> [] \<in> plangs (pNodes sample_data) 3) \<and>
   [] \<notin> plangs (pNodes sample_data) (nChildren (pNodes sample_data ! 3) ! 0)"
  using restore_sound[OF sample_restored, of 3] by (simp add: sample_data_def)

text \<open>
  C6: \<open>RestoreWithLimits\<close> returns on every table, cyclic, malformed or huge, under every policy and
  with every regular-expression engine.
\<close>
theorem restore_returns: "\<exists>r. RestoreWithLimits eng d limits = Some r"
  using RestoreWithLimits_restored by blast

subsection \<open>Derivatives\<close>

definition sample_arena :: arena where
  "sample_arena = newArena (match_defaults match_limits0) sample_program"

lemma sample_fields: "gData sample_program = sample_data" "length (pNodes sample_data) = 4"
  by (simp_all add: sample_data_def sample_program_def)

lemma sample_range_count: "foldl (\<lambda>nr n. addSat nr (len64 (nRanges n))) 0 (pNodes sample_data) = 1"
  by (simp add: sample_data_def node0_def addSat_def)

text \<open>The arena of the sample, one step of its construction at a time.\<close>

definition sample_stage :: "residual list \<Rightarrow> (residual \<rightharpoonup> nat) \<Rightarrow> rune list \<Rightarrow> u64 \<Rightarrow> u64 \<Rightarrow> arena" where
  "sample_stage ns m es bytes work = \<lparr>aNodes = ns, aIntern = m, aTransitions = [], aEndpoints = es,
     aProgram = sample_program, aLimits = match_defaults match_limits0,
     aLedger = \<lparr>lPhase = ''match'', lStage = ''derivative'', lBytes = bytes, lWork = work,
       lByteLimit = 16777216, lWorkLimit = 5000000, lErr = None\<rparr>\<rparr>"

lemmas stage_eval = sample_stage_def aCharge_def charge_def limitError_def addSat_def match_defaults_def
  match_limits0_def defaultValue_def

lemma sample_stages:
  "aCharge 1024 1 (sample_stage [] Map.empty [] 0 0) = (True, sample_stage [] Map.empty [] 1024 1)"
  "put residual0 (sample_stage [] Map.empty [] 1024 1) =
     (0, sample_stage [residual0] [residual0 \<mapsto> 0] [] 1280 3)"
  "put n (sample_stage [residual0] [residual0 \<mapsto> 0] [] 1280 3) =
     (if n = residual0 then (0, sample_stage [residual0] [residual0 \<mapsto> 0] [] 1280 4)
      else (1, sample_stage [residual0, n] [residual0 \<mapsto> 0, n \<mapsto> 1] [] 1536 5))"
  "aCharge 16 2 (sample_stage ns m [] 1536 5) = (True, sample_stage ns m [] 1552 7)"
  by (simp_all add: stage_eval put_def)

definition sample_epsilon :: residual where
  "sample_epsilon = residual0\<lparr>sOp := OpEpsilon, sNullable := True\<rparr>"

lemma sample_arena_eq:
  "sample_arena = sample_stage [residual0, sample_epsilon] [residual0 \<mapsto> 0, sample_epsilon \<mapsto> 1] [97, 100] 1552 7"
proof -
  have "sample_epsilon \<noteq> residual0" by (simp add: sample_epsilon_def residual0_def)
  moreover have "sortCompact (concat (map (\<lambda>n. concat (map (\<lambda>r. [rLo r, rHi r + 1]) (nRanges n))) (pNodes sample_data))) = [97, 100]"
    by (simp add: sample_data_def node0_def sortCompact_def)
  moreover have "aCharge 1024 1 \<lparr>aNodes = [], aIntern = Map.empty, aTransitions = [], aEndpoints = [],
      aProgram = sample_program, aLimits = match_defaults match_limits0,
      aLedger = new_ledger ''match'' ''derivative'' (mBytes (match_defaults match_limits0)) (mWork (match_defaults match_limits0))\<rparr> =
      (True, sample_stage [] Map.empty [] 1024 1)"
    by (simp add: stage_eval new_ledger_def push_bit_eq_mult)
  moreover have "mulSat 1 16 = 16" "mulSat 1 (of_nat (bitsLen (unat 1)) + 1) = 2"
    by (simp_all add: mulSat_def bitsLen.simps)
  ultimately show ?thesis
    unfolding sample_arena_def newArena_def Let_def
    by (simp add: sample_stages sample_epsilon_def[symmetric] sample_fields sample_range_count)
       (simp add: sample_stage_def)
qed

lemma sample_arena_ok: "ainv sample_arena" "classes_ok sample_arena" "avalid sample_arena 1" "\<not> afailed sample_arena"
proof -
  have nf: "\<not> afailed sample_arena"
    by (simp add: afailed_def sample_arena_eq sample_stage_def)
  note newArena_ok[OF program_ok_table[OF sample_program_ok(2)] nf[unfolded sample_arena_def], folded sample_arena_def]
  with nf show "ainv sample_arena" "classes_ok sample_arena" "\<not> afailed sample_arena" "avalid sample_arena 1"
    by (auto simp: ainv_def nodes_ok_def avalid_def)
qed

text \<open>
  C7: The memoised derivative computes the left quotient: unless the ledger refuses a charge, the
  state reached from a node by a rune denotes exactly the words that complete the rune to a word
  of the node, and the arena keeps its invariant and the languages of all its nodes.
\<close>
theorem derive_left_quotient:
  assumes "ainv a" "classes_ok a" "avalid a i"
    and "derive depth i (symbol a r) a = (out, b)" "\<not> afailed b"
  shows "avalid b out \<and> alang b out = {w. r # w \<in> alang a i} \<and> ainv b \<and>
    (\<forall>j. avalid a j \<longrightarrow> alang b j = alang a j)"
  using ar.denotesD[OF derive_denotes[OF assms(1,3,2), of r depth, unfolded assms(4)] assms(5)]
  by (auto simp: quot_def aext_lang)

lemma sample_derive: "\<exists>b. derive 0 1 (symbol sample_arena 97) sample_arena = (0, b) \<and> \<not> afailed b"
  by (simp add: derive_eq sample_arena_eq derive_step_def memoize_def enter_def stage_eval afailed_def
      sample_epsilon_def residual0_def aFail_def Let_def)

theorem derive_left_quotient_witness:
  "\<exists>b. derive 0 1 (symbol sample_arena 97) sample_arena = (0, b) \<and> alang b 0 = {w. 97 # w \<in> alang sample_arena 1}"
  using sample_derive derive_left_quotient[OF sample_arena_ok(1-3), of 0 97] by blast

text \<open>
  Runes that the arena maps to one symbol are interchangeable: no node of the arena, and so no
  state of the automaton, can tell them apart.
\<close>
theorem symbols_partition_runes:
  assumes "ainv a" "classes_ok a" "avalid a i" "symbol a r = symbol a r'"
  shows "r # w \<in> alang a i \<longleftrightarrow> r' # w \<in> alang a i"
  using quot_symbol_cong[OF assms(1,2,4,3)] by (auto simp: quot_def)

theorem symbols_partition_runes_witness: "97 # [] \<in> alang sample_arena 1 \<longleftrightarrow> 99 # [] \<in> alang sample_arena 1"
  by (rule symbols_partition_runes[OF sample_arena_ok(1-3)])
    (simp add: symbol_def sample_arena_eq sample_stage_def searchPos_def)

text \<open>
  C8: The smart constructors of the arena are exact: unless the ledger refuses a charge, \<open>seq\<close>
  denotes the concatenation and \<open>alt\<close> the union of the languages of its operands, in spite of the
  flattening, reordering, balancing and merging of adjacent repetitions they do.
\<close>
theorem smart_constructors_exact:
  assumes "ainv a" "avalid a x" "avalid a y"
  shows "(\<forall>out b. seq depth x y a = (out, b) \<and> \<not> afailed b \<longrightarrow>
            alang b out = {u @ v | u v. u \<in> alang a x \<and> v \<in> alang a y}) \<and>
         (\<forall>out b. alt depth x y a = (out, b) \<and> \<not> afailed b \<longrightarrow> alang b out = alang a x \<union> alang a y)"
proof (intro conjI allI impI)
  fix out b assume "seq depth x y a = (out, b) \<and> \<not> afailed b"
  then show "alang b out = {u @ v | u v. u \<in> alang a x \<and> v \<in> alang a y}"
    using seq_denotes[OF assms, of depth] ar.denotesD(5) by (fastforce simp: conc_def)
next
  fix out b assume "alt depth x y a = (out, b) \<and> \<not> afailed b"
  then show "alang b out = alang a x \<union> alang a y"
    using alt_denotes[OF assms, of depth] ar.denotesD(5) by fastforce
qed

lemma sample_seq: "\<exists>b. seq 0 1 1 sample_arena = (1, b) \<and> \<not> afailed b"
proof -
  obtain b where "enter 0 sample_arena = (True, b)" "\<not> afailed b"
    by (simp add: sample_arena_eq enter_def stage_eval afailed_def)
  then show ?thesis by (subst seq.simps) simp
qed

theorem smart_constructors_exact_witness:
  "\<exists>b. seq 0 1 1 sample_arena = (1, b) \<and>
     alang b 1 = {u @ v | u v. u \<in> alang sample_arena 1 \<and> v \<in> alang sample_arena 1}"
proof -
  from sample_seq obtain b where b: "seq 0 1 1 sample_arena = (1, b) \<and> \<not> afailed b" by blast
  note smart_constructors_exact[OF sample_arena_ok(1,3,3), of 0, THEN conjunct1, rule_format, OF b]
  with b show ?thesis by blast
qed

text \<open>
  C9: Specialising a program to the length of an input is exact on that input: the automaton root
  built from an accepted program, with repetition bounds cut to what \<open>count\<close> runes can reach,
  accepts the same words of at most \<open>count\<close> runes as the program.
\<close>
theorem specialize_agrees:
  assumes "RestoreWithLimits eng d limits = Some (Inr p)" "unat count < 2 ^ 63"
  shows "\<exists>a root. specialize p count l = Some (a, root) \<and>
    (\<not> afailed a \<longrightarrow> (\<forall>w. length w \<le> unat count \<longrightarrow> (w \<in> alang a root \<longleftrightarrow> w \<in> plangs (pNodes d) (pRoot d))))"
proof -
  have "program_ok p" "gData p = d"
    using RestoreWithLimits_restored[of eng d limits] assms(1) by (auto simp: restored_def)
  with specialize_ok[OF this(1) assms(2), of l] show ?thesis by (auto simp: agree_def)
qed

theorem specialize_agrees_witness:
  "\<exists>a root. specialize sample_program 3 (match_defaults match_limits0) = Some (a, root) \<and>
    (\<not> afailed a \<longrightarrow> (\<forall>w. length w \<le> 3 \<longrightarrow> (w \<in> alang a root \<longleftrightarrow> w \<in> plangs (pNodes sample_data) (pRoot sample_data))))"
  using specialize_agrees[OF sample_restored, of 3 "match_defaults match_limits0"] by simp

subsection \<open>The native route\<close>

text \<open>
  C10: The text of a native expression means what the program means: for every accepted program
  \<open>nativeExpression\<close> returns, and when it returns a text, Go's regular-expression syntax reads
  the text as exactly the language of the root node.
\<close>
theorem native_text_exact:
  assumes "RestoreWithLimits eng d limits = Some (Inr p)"
  shows "\<exists>r. nativeExpression p False l = Some r \<and>
    (\<forall>src k w. r = Inr (src, k) \<longrightarrow> (regexp_match src w \<longleftrightarrow> w \<in> plangs (pNodes d) (pRoot d)))"
proof -
  have ok: "program_ok p" and d: "gData p = d"
    using RestoreWithLimits_restored[of eng d limits] assms by (auto simp: restored_def)
  note tab = program_ok_table[OF ok] and root = program_ok_root[OF ok]
  from nativeExpression_returns[OF tab root program_okD(1)[OF ok root], of False l]
    program_ok_bounds[OF ok] d show ?thesis by auto
qed

theorem native_text_exact_witness:
  "\<exists>r. nativeExpression sample_program False (match_defaults match_limits0) = Some r \<and>
    (\<forall>src k w. r = Inr (src, k) \<longrightarrow> (regexp_match src w \<longleftrightarrow> w \<in> plangs (pNodes sample_data) (pRoot sample_data)))"
  by (rule native_text_exact[OF sample_restored])

text \<open>
  A prepared native expression is interchangeable with the node table: whatever the engine
  says about it, the text kept by \<open>prepareNative\<close> accepts the language of the root node.
\<close>
theorem prepared_native_exact:
  assumes "RestoreWithLimits eng d limits = Some (Inr p)" "gNative p = Some (src, k)"
  shows "regexp_match src w \<longleftrightarrow> w \<in> plangs (pNodes d) (pRoot d)"
  using RestoreWithLimits_restored[of eng d limits] assms by (auto simp: restored_def)

theorem prepared_native_exact_witness:
  "regexp_match (fst (the (gNative sample_program))) [97, 98] \<longleftrightarrow>
     [97, 98] \<in> plangs (pNodes sample_data) (pRoot sample_data)"
  by (rule prepared_native_exact[OF sample_restored, of _ 20]) (simp add: sample_program_def)

subsection \<open>Arithmetic and policy\<close>

text \<open>
  Saturating 64-bit addition and multiplication return the exact result when it fits and the
  greatest 64-bit value otherwise.
\<close>
theorem saturation_exact:
  "unat (addSat a b) = min (unat a + unat b) (2 ^ 64 - 1) \<and>
   unat (mulSat a b) = min (unat a * unat b) (2 ^ 64 - 1)"
  by (simp add: unat_addSat unat_mulSat)

text \<open>
  C11: A ledger accepts a sequence of charges exactly when both totals stay within their
  allowances, whatever the order of the charges, and it then records both totals exactly; it
  never holds more than it allows, and a refusal is final.  (The greatest 64-bit value is
  reserved for overflow, so it is no allowance.)
\<close>
theorem ledger_accepts_iff:
  assumes "b = charge_all cs (new_ledger ph st bl wl)" "bl \<noteq> maxU64" "wl \<noteq> maxU64"
  shows "(lErr b = None \<longleftrightarrow>
      sum_list (map (\<lambda>c. unat (fst c)) cs) \<le> unat bl \<and> sum_list (map (\<lambda>c. unat (snd c)) cs) \<le> unat wl) \<and>
    (lErr b = None \<longrightarrow> unat (lBytes b) = sum_list (map (\<lambda>c. unat (fst c)) cs) \<and>
      unat (lWork b) = sum_list (map (\<lambda>c. unat (snd c)) cs)) \<and>
    lBytes b \<le> bl \<and> lWork b \<le> wl"
proof -
  have lim: "unat bl < 2 ^ 64 - 1" "unat wl < 2 ^ 64 - 1"
    using assms(2,3) unat_u64_le[of bl] unat_u64_le[of wl] by (auto simp: word_unat_eq_iff u64_unat)
  let ?l = "new_ledger ph st bl wl"
  have f: "fits n bl \<longleftrightarrow> n \<le> unat bl" "fits n wl \<longleftrightarrow> n \<le> unat wl" for n
    using lim by (auto simp: fits_def)
  have "lErr ?l = None" "lByteLimit ?l = bl" "lWorkLimit ?l = wl" "lBytes ?l = 0" "lWork ?l = 0"
    by (simp_all add: new_ledger_def)
  with charge_all_iff[of ?l cs] charge_all_ledger_ok[OF ledger_ok_new, of cs ph st bl wl] assms(1)
  show ?thesis by (simp add: f ledger_ok_def)
qed

theorem ledger_accepts_iff_witness:
  "lErr (charge_all [(3, 4), (5, 6)] (new_ledger ''match'' ''native'' 10 10)) = None \<longleftrightarrow>
    sum_list (map (\<lambda>c. unat (fst c)) [(3 :: u64, 4 :: u64), (5, 6)]) \<le> unat (10 :: u64) \<and>
    sum_list (map (\<lambda>c. unat (snd c)) [(3 :: u64, 4 :: u64), (5, 6)]) \<le> unat (10 :: u64)"
  using ledger_accepts_iff[OF refl, of 10 10 "[(3, 4), (5, 6)]" "''match''" "''native''"] by simp

text \<open>
  Comparing two canonical decimal texts compares the numbers they denote, at any length.
\<close>
theorem decimal_order:
  assumes "canonicalDecimal a" "canonicalDecimal b"
  shows "(decimalCompare a b < 0 \<longleftrightarrow> nat_of_dec a < nat_of_dec b) \<and>
         (decimalCompare a b = 0 \<longleftrightarrow> nat_of_dec a = nat_of_dec b) \<and>
         (decimalCompare a b > 0 \<longleftrightarrow> nat_of_dec a > nat_of_dec b)"
  using decimalCompare_numeric[OF assms] by linarith

theorem decimal_order_witness: "decimalCompare ''99'' ''100'' < 0 \<longleftrightarrow> nat_of_dec ''99'' < nat_of_dec ''100''"
  using decimal_order[of "''99''" "''100''"] by (simp add: canonicalDecimal_def is_digit_def)

text \<open>
  C12: Reading the digits of a repetition bound into 64 bits saturates instead of wrapping.
\<close>
theorem bound_saturates:
  assumes "canonicalDecimal s"
  shows "unat (decimalUint s) = min (nat_of_dec s) (2 ^ 64 - 1)"
  by (rule unat_decimalUint[OF canonicalDecimal_digits[OF assms]])

theorem bound_saturates_witness:
  "unat (decimalUint ''18446744073709551617'') = min (nat_of_dec ''18446744073709551617'') (2 ^ 64 - 1)"
  by (rule bound_saturates) (simp add: canonicalDecimal_def is_digit_def)

text \<open>
  The binary search over the sorted ranges of a class finds a rune exactly when one of the
  ranges holds it.
\<close>
theorem class_search_exact:
  assumes "scalar_ranges previous rs"
  shows "containsRune rs c \<longleftrightarrow> (\<exists>r \<in> set rs. rLo r \<le> c \<and> c \<le> rHi r)"
  using containsRune_iff[OF assms] by (simp add: in_ranges_def)

theorem class_search_exact_witness:
  "containsRune [\<lparr>rLo = 48, rHi = 57\<rparr>, \<lparr>rLo = 97, rHi = 102\<rparr>] 98 \<longleftrightarrow>
   (\<exists>r \<in> set [\<lparr>rLo = 48, rHi = 57\<rparr>, \<lparr>rLo = 97, rHi = 102\<rparr>]. rLo r \<le> 98 \<and> 98 \<le> rHi r)"
  by (rule class_search_exact[of "-1"]) simp

end
