(* ===== verification/Xsd_Ranges.thy ===== *)
theory Xsd_Ranges
  imports Cambium_Prelude "HOL-Library.Product_Lexorder"
begin

text \<open>
  Sets of code points as lists of intervals (\<open>go/internal/xsdregex/pattern.go\<close>,
  \<open>normalizeRanges\<close>, \<open>complementRanges\<close>, \<open>subtractRanges\<close>; \<open>atom.go\<close>, the cut at the
  surrogates).  Each operation is shown to compute the set operation it is named after, and
  its result to be in the normal form the next one relies on.
\<close>

text \<open>\<open>runeRange\<close>\<close>
type_synonym xrange = "rune \<times> rune"

text \<open>The code points a list of intervals stands for.\<close>
definition points :: "xrange list \<Rightarrow> rune set" where
  "points rs = {c. \<exists>(lo, hi) \<in> set rs. lo \<le> c \<and> c \<le> hi}"

text \<open>Nonempty intervals in order, with a gap between neighbours.\<close>
fun normal :: "xrange list \<Rightarrow> bool" where
  "normal [] = True"
| "normal [r] = (fst r \<le> snd r)"
| "normal (r # s # rs) = (fst r \<le> snd r \<and> snd r + 1 < fst s \<and> normal (s # rs))"

lemma points_Nil [simp]: "points [] = {}"
  by (simp add: points_def)

lemma points_Cons [simp]: "points (r # rs) = {fst r..snd r} \<union> points rs"
  by (auto simp: points_def)

lemma points_append [simp]: "points (rs @ ss) = points rs \<union> points ss"
  by (auto simp: points_def)

lemma points_set: "set rs = set ss \<Longrightarrow> points rs = points ss"
  by (simp add: points_def)

subsection \<open>Normalisation\<close>

text \<open>One step of the merging loop on the merged prefix.\<close>
definition merge_step :: "xrange list \<Rightarrow> xrange \<Rightarrow> xrange list" where
  "merge_step merged r =
     (if snd r < fst r then merged
      else if merged = [] \<or> fst r > snd (last merged) + 1 then merged @ [r]
      else if snd r > snd (last merged) then butlast merged @ [(fst (last merged), snd r)]
      else merged)"

definition normalizeRanges :: "xrange list \<Rightarrow> xrange list" where
  "normalizeRanges ranges = foldl merge_step [] (sort ranges)"

lemma normal_snoc: "normal (rs @ [r]) \<longleftrightarrow> normal rs \<and> fst r \<le> snd r \<and> (rs \<noteq> [] \<longrightarrow> snd (last rs) + 1 < fst r)"
  by (induction rs rule: normal.induct) auto

lemma normal_snoc2: "normal (rs @ [x, r]) \<longleftrightarrow> normal (rs @ [x]) \<and> fst r \<le> snd r \<and> snd x + 1 < fst r"
  using normal_snoc[of "rs @ [x]" r] by simp

lemma normal_mem: "normal rs \<Longrightarrow> s \<in> set rs \<Longrightarrow> fst s \<le> snd s"
  by (induction rs rule: normal.induct) auto

lemma merge_step_ok:
  assumes "normal m" "m = [] \<or> fst (last m) \<le> fst r"
  shows "normal (merge_step m r)" "points (merge_step m r) = points m \<union> {fst r..snd r}"
    and "merge_step m r = [] \<or> (fst r \<le> snd r \<longrightarrow> fst (last (merge_step m r)) \<le> fst r)"
    and "merge_step m r \<noteq> [] \<Longrightarrow> fst (last (merge_step m r)) \<le> fst r"
proof -
  have "normal (merge_step m r) \<and> points (merge_step m r) = points m \<union> {fst r..snd r} \<and>
      (merge_step m r \<noteq> [] \<longrightarrow> fst (last (merge_step m r)) \<le> fst r)"
  proof (cases "m = []")
    case True
    then show ?thesis by (auto simp: merge_step_def)
  next
    case False
    then obtain ms x where m: "m = ms @ [x]" by (metis append_butlast_last_id)
    with assms have "normal ms" "fst x \<le> snd x" "ms \<noteq> [] \<longrightarrow> snd (last ms) + 1 < fst x" "fst x \<le> fst r"
      by (auto simp: normal_snoc)
    then show ?thesis unfolding m by (auto simp: merge_step_def normal_snoc normal_snoc2)
  qed
  then show "normal (merge_step m r)" "points (merge_step m r) = points m \<union> {fst r..snd r}"
    "merge_step m r = [] \<or> (fst r \<le> snd r \<longrightarrow> fst (last (merge_step m r)) \<le> fst r)"
    "merge_step m r \<noteq> [] \<Longrightarrow> fst (last (merge_step m r)) \<le> fst r" by auto
qed

lemma merge_foldl:
  "sorted rs \<Longrightarrow> normal m \<Longrightarrow> m = [] \<or> (\<forall>r \<in> set rs. fst (last m) \<le> fst r) \<Longrightarrow>
     normal (foldl merge_step m rs) \<and> points (foldl merge_step m rs) = points m \<union> points rs"
proof (induction rs arbitrary: m)
  case (Cons r rs)
  have le: "m = [] \<or> fst (last m) \<le> fst r" using Cons.prems(3) by auto
  note st = merge_step_ok[OF Cons.prems(2) le]
  have "\<forall>s \<in> set rs. fst r \<le> fst s" using Cons.prems(1) by (auto simp: less_eq_prod_def)
  with st(4) have "merge_step m r = [] \<or> (\<forall>s \<in> set rs. fst (last (merge_step m r)) \<le> fst s)"
    by (meson order_trans)
  with Cons.IH[OF _ st(1)] Cons.prems(1) st(2) show ?case by auto
qed simp

lemma normalizeRanges_ok: "normal (normalizeRanges rs) \<and> points (normalizeRanges rs) = points rs"
  using merge_foldl[of "sort rs" "[]"] points_set[of "sort rs" rs] by (simp add: normalizeRanges_def)

lemma points_normalizeRanges [simp]: "points (normalizeRanges rs) = points rs"
  using normalizeRanges_ok by blast

lemma normal_normalizeRanges [simp]: "normal (normalizeRanges rs)"
  using normalizeRanges_ok by blast

lemma normal_Cons: "normal (r # rs) \<Longrightarrow> fst r \<le> snd r \<and> normal rs \<and> (\<forall>s \<in> set rs. snd r + 1 < fst s)"
proof (induction rs arbitrary: r)
  case (Cons s rs)
  then have 1: "fst r \<le> snd r" "snd r + 1 < fst s" "normal (s # rs)" by auto
  from Cons.IH[of s] 1(3) have "fst s \<le> snd s" "\<forall>t \<in> set rs. snd s + 1 < fst t" by auto
  with 1 show ?case by fastforce
qed simp

lemma normal_above: "normal (r # rs) \<Longrightarrow> c \<in> points rs \<Longrightarrow> snd r + 1 < c"
  using normal_Cons[of r rs] by (fastforce simp: points_def)

subsection \<open>Complement\<close>

fun complement_loop :: "xrange list \<Rightarrow> rune \<Rightarrow> xrange list" where
  "complement_loop [] next = (if next \<le> maxRune then [(next, maxRune)] else [])"
| "complement_loop (r # rs) next =
     (if fst r > next then [(next, fst r - 1)] else []) @
     (if snd r \<ge> maxRune then []
      else complement_loop rs (if snd r + 1 > next then snd r + 1 else next))"

definition complementRanges :: "xrange list \<Rightarrow> xrange list" where
  "complementRanges ranges = complement_loop (normalizeRanges ranges) 0"

lemma complement_loop_points:
  "normal rs \<Longrightarrow> \<forall>s \<in> set rs. fst s \<le> maxRune + 1 \<Longrightarrow>
     c \<in> points (complement_loop rs next) \<longleftrightarrow> next \<le> c \<and> c \<le> maxRune \<and> c \<notin> points rs"
proof (induction rs arbitrary: "next")
  case (Cons r rs)
  note n = normal_Cons[OF Cons.prems(1)]
  show ?case
  proof (cases "snd r \<ge> maxRune")
    case True
    have "d \<notin> points rs" if "d \<le> maxRune" for d
      using normal_above[OF Cons.prems(1), of d] True that by force
    with True n Cons.prems(2) show ?thesis by auto
  next
    case False
    have IH: "c \<in> points (complement_loop rs k) \<longleftrightarrow> k \<le> c \<and> c \<le> maxRune \<and> c \<notin> points rs" for k
      using Cons n by simp
    have "c \<in> points rs \<Longrightarrow> snd r + 1 < c" by (rule normal_above[OF Cons.prems(1)])
    then show ?thesis using False n by (auto simp: IH)
  qed
qed auto

lemma points_complementRanges:
  assumes "points rs \<subseteq> {..maxRune}"
  shows "points (complementRanges rs) = {0..maxRune} - points rs"
proof -
  have "fst s \<le> maxRune + 1" if "s \<in> set (normalizeRanges rs)" for s
  proof -
    have "fst s \<le> snd s" using normal_mem[OF normal_normalizeRanges that] .
    then have "fst s \<in> points (normalizeRanges rs)" using that by (auto simp: points_def)
    with assms show ?thesis by auto
  qed
  then have "\<forall>s \<in> set (normalizeRanges rs). fst s \<le> maxRune + 1" by blast
  from complement_loop_points[OF normal_normalizeRanges this, of _ 0] show ?thesis
    by (intro set_eqI) (simp add: complementRanges_def)
qed

subsection \<open>Subtraction\<close>

text \<open>The inner loop: what is left of an interval that ends at \<open>hi\<close>, from \<open>cur\<close> on.\<close>
fun cut_loop :: "rune \<Rightarrow> xrange list \<Rightarrow> rune \<Rightarrow> xrange list \<times> rune" where
  "cut_loop hi [] cur = ([], cur)"
| "cut_loop hi (s # ss) cur =
     (if fst s \<le> hi then
        let pre = (if fst s > cur then [(cur, fst s - 1)] else []) in
        if snd s \<ge> hi then (pre, hi + 1)
        else let (out, c) = cut_loop hi ss (snd s + 1) in (pre @ out, c)
      else ([], cur))"

text \<open>The outer loop; the index into the subtrahend only moves forward.\<close>
fun subtract_loop :: "xrange list \<Rightarrow> xrange list \<Rightarrow> xrange list" where
  "subtract_loop [] sub = []"
| "subtract_loop (b # bs) sub =
     (let sub = dropWhile (\<lambda>s. snd s < fst b) sub;
          (out, cur) = cut_loop (snd b) sub (fst b) in
      out @ (if cur \<le> snd b then [(cur, snd b)] else []) @ subtract_loop bs sub)"

definition subtractRanges :: "xrange list \<Rightarrow> xrange list \<Rightarrow> xrange list" where
  "subtractRanges base sub =
     (let base = normalizeRanges base; sub = normalizeRanges sub in
      if base = [] \<or> sub = [] then base else subtract_loop base sub)"

lemma cut_loop_points:
  "normal ss \<Longrightarrow> cur \<le> hi + 1 \<Longrightarrow> \<forall>s \<in> set ss. cur \<le> snd s \<Longrightarrow> cut_loop hi ss cur = (out, c) \<Longrightarrow>
     x \<in> points (out @ (if c \<le> hi then [(c, hi)] else [])) \<longleftrightarrow> cur \<le> x \<and> x \<le> hi \<and> x \<notin> points ss"
proof (induction ss arbitrary: cur out c)
  case (Cons s ss)
  note n = normal_Cons[OF Cons.prems(1)]
  have above: "y \<in> points ss \<Longrightarrow> snd s + 1 < y" for y by (rule normal_above[OF Cons.prems(1)])
  consider "hi < fst s" | "fst s \<le> hi" "hi \<le> snd s" | (rec) "fst s \<le> hi" "snd s < hi" by linarith
  then show ?case
  proof cases
    case 1
    then have "y \<le> hi \<Longrightarrow> y \<notin> points ss" for y using above[of y] n by force
    with 1 Cons.prems(4) show ?thesis by auto
  next
    case 2
    then have "y \<le> hi \<Longrightarrow> y \<notin> points ss" for y using above[of y] n by force
    with 2 Cons.prems show ?thesis by (auto simp: Let_def split: if_splits)
  next
    case rec
    obtain out' c' where r: "cut_loop hi ss (snd s + 1) = (out', c')" by fastforce
    have "\<forall>t \<in> set ss. snd s + 1 \<le> snd t"
    proof
      fix t assume t: "t \<in> set ss"
      with n have "snd s + 1 < fst t" by simp
      moreover have "fst t \<le> snd t" using n t normal_mem by blast
      ultimately show "snd s + 1 \<le> snd t" by simp
    qed
    with Cons.IH[OF _ _ _ r] n rec
    have IH: "x \<in> points (out' @ (if c' \<le> hi then [(c', hi)] else [])) \<longleftrightarrow> snd s + 1 \<le> x \<and> x \<le> hi \<and> x \<notin> points ss"
      by simp
    from rec r Cons.prems(4) have "out = (if fst s > cur then [(cur, fst s - 1)] else []) @ out'" "c = c'"
      by (auto simp: Let_def)
    with IH above[of x] rec n Cons.prems(3) show ?thesis by auto
  qed
qed auto

lemma normal_dropWhile: "normal ss \<Longrightarrow> normal (dropWhile P ss)"
  by (induction ss) (auto dest: normal_Cons)

lemma dropWhile_above:
  "normal ss \<Longrightarrow> \<forall>s \<in> set (dropWhile (\<lambda>s. snd s < k) ss). k \<le> snd s"
proof (induction ss)
  case (Cons s ss)
  note n = normal_Cons[OF Cons.prems]
  show ?case
  proof (cases "snd s < k")
    case True
    with Cons n show ?thesis by simp
  next
    case False
    have "k \<le> snd t" if "t \<in> set ss" for t
      using False n that normal_mem[of ss t] by fastforce
    with False show ?thesis by auto
  qed
qed simp

lemma points_dropWhile:
  "normal ss \<Longrightarrow> k \<le> x \<Longrightarrow> x \<in> points (dropWhile (\<lambda>s. snd s < k) ss) \<longleftrightarrow> x \<in> points ss"
  by (induction ss) (auto dest: normal_Cons)

lemma subtract_loop_points:
  "normal bs \<Longrightarrow> normal ss \<Longrightarrow> points (subtract_loop bs ss) = points bs - points ss"
proof (induction bs arbitrary: ss)
  case (Cons b bs)
  note n = normal_Cons[OF Cons.prems(1)]
  define ss' where "ss' = dropWhile (\<lambda>s. snd s < fst b) ss"
  obtain out cur where c: "cut_loop (snd b) ss' (fst b) = (out, cur)" by fastforce
  have ns: "normal ss'" using Cons.prems(2) by (simp add: ss'_def normal_dropWhile)
  have "\<forall>s \<in> set ss'. fst b \<le> snd s" using dropWhile_above[OF Cons.prems(2)] by (simp add: ss'_def)
  note cut = cut_loop_points[OF ns _ this c]
  have same: "fst b \<le> x \<Longrightarrow> x \<in> points ss' \<longleftrightarrow> x \<in> points ss" for x
    using points_dropWhile[OF Cons.prems(2)] by (simp add: ss'_def)
  have "x \<in> points (subtract_loop (b # bs) ss) \<longleftrightarrow> x \<in> points (b # bs) - points ss" for x
  proof -
    have "x \<in> points bs \<Longrightarrow> fst b \<le> x" using normal_above[OF Cons.prems(1), of x] n by simp
    moreover have "x \<in> points (subtract_loop bs ss') \<longleftrightarrow> x \<in> points bs \<and> x \<notin> points ss'"
      using Cons.IH[OF _ ns] n by auto
    moreover have "x \<in> points (out @ (if cur \<le> snd b then [(cur, snd b)] else [])) \<longleftrightarrow>
        fst b \<le> x \<and> x \<le> snd b \<and> x \<notin> points ss'"
      using cut n by simp
    ultimately show ?thesis
      using same[of x] c by (auto simp: Let_def simp flip: ss'_def)
  qed
  then show ?case by blast
qed simp

theorem points_subtractRanges: "points (subtractRanges base sub) = points base - points sub"
proof -
  have "normalizeRanges base = [] \<Longrightarrow> points base = {}" "normalizeRanges sub = [] \<Longrightarrow> points sub = {}"
    using points_normalizeRanges[of base] points_normalizeRanges[of sub] by simp_all
  then show ?thesis
    using subtract_loop_points[OF normal_normalizeRanges normal_normalizeRanges, of base sub]
    by (auto simp: subtractRanges_def Let_def)
qed

subsection \<open>The cut at the surrogates\<close>

text \<open>What \<open>AtomRanges\<close> does with the intervals of an atom.\<close>
definition scalarRanges :: "xrange list \<Rightarrow> xrange list" where
  "scalarRanges ranges =
     concat (map (\<lambda>r.
       (if fst r < 0xD800 then [(fst r, min (snd r) 0xD7FF)] else []) @
       (if snd r > 0xDFFF then [(max (fst r) 0xE000, snd r)] else [])) ranges)"

lemma points_scalarRanges: "points (scalarRanges rs) = points rs - {0xD800..0xDFFF}"
proof (induction rs)
  case (Cons r rs)
  define h where "h = (if fst r < 0xD800 then [(fst r, min (snd r) 0xD7FF)] else []) @
       (if snd r > 0xDFFF then [(max (fst r) 0xE000, snd r)] else [])"
  have "points h = {fst r..snd r} - {0xD800..0xDFFF}"
    by (cases "fst r < 0xD800"; cases "snd r > 0xDFFF") (auto simp: h_def)
  moreover have "scalarRanges (r # rs) = h @ scalarRanges rs" by (simp add: scalarRanges_def h_def)
  ultimately show ?case using Cons by auto
qed (simp add: scalarRanges_def)

end
