(* ===== verification/Xsd_Class.thy ===== *)
theory Xsd_Class
  imports Xsd_Ranges Pattern_Native
begin

text \<open>
  XSD character classes (\<open>go/internal/xsdregex/atom.go\<close> and \<open>pattern.go\<close>): escapes, class
  expressions with negation and subtraction, and the translation of a pattern to Go's regexp
  syntax.  Positions are indexes into the runes of the source, as in the code; a failed parse
  is \<open>None\<close>.  The Unicode category tables of Go's standard library are a parameter
  (\<open>unicode.Categories\<close>); the block table and the XML name tables are the code's own.
\<close>

text \<open>\<open>unicode.RangeTable\<close>: first and last code point and stride.\<close>
record range_table =
  tR16 :: "(rune \<times> rune \<times> rune) list"
  tR32 :: "(rune \<times> rune \<times> rune) list"

type_synonym categories = "rune list \<Rightarrow> range_table option"

subsection \<open>Tables\<close>

definition unicodeBlockRanges :: "(string \<times> xrange list) list" where
  "unicodeBlockRanges = [
    (''BasicLatin'', [(0x0000, 0x007F)]), (''Latin-1Supplement'', [(0x0080, 0x00FF)]),
    (''LatinExtended-A'', [(0x0100, 0x017F)]), (''LatinExtended-B'', [(0x0180, 0x024F)]),
    (''IPAExtensions'', [(0x0250, 0x02AF)]), (''SpacingModifierLetters'', [(0x02B0, 0x02FF)]),
    (''CombiningDiacriticalMarks'', [(0x0300, 0x036F)]), (''Greek'', [(0x0370, 0x03FF)]),
    (''Cyrillic'', [(0x0400, 0x04FF)]), (''Armenian'', [(0x0530, 0x058F)]),
    (''Hebrew'', [(0x0590, 0x05FF)]), (''Arabic'', [(0x0600, 0x06FF)]),
    (''Syriac'', [(0x0700, 0x074F)]), (''Thaana'', [(0x0780, 0x07BF)]),
    (''Devanagari'', [(0x0900, 0x097F)]), (''Bengali'', [(0x0980, 0x09FF)]),
    (''Gurmukhi'', [(0x0A00, 0x0A7F)]), (''Gujarati'', [(0x0A80, 0x0AFF)]),
    (''Oriya'', [(0x0B00, 0x0B7F)]), (''Tamil'', [(0x0B80, 0x0BFF)]),
    (''Telugu'', [(0x0C00, 0x0C7F)]), (''Kannada'', [(0x0C80, 0x0CFF)]),
    (''Malayalam'', [(0x0D00, 0x0D7F)]), (''Sinhala'', [(0x0D80, 0x0DFF)]),
    (''Thai'', [(0x0E00, 0x0E7F)]), (''Lao'', [(0x0E80, 0x0EFF)]),
    (''Tibetan'', [(0x0F00, 0x0FFF)]), (''Myanmar'', [(0x1000, 0x109F)]),
    (''Georgian'', [(0x10A0, 0x10FF)]), (''HangulJamo'', [(0x1100, 0x11FF)]),
    (''Ethiopic'', [(0x1200, 0x137F)]), (''Cherokee'', [(0x13A0, 0x13FF)]),
    (''UnifiedCanadianAboriginalSyllabics'', [(0x1400, 0x167F)]), (''Ogham'', [(0x1680, 0x169F)]),
    (''Runic'', [(0x16A0, 0x16FF)]), (''Khmer'', [(0x1780, 0x17FF)]),
    (''Mongolian'', [(0x1800, 0x18AF)]), (''LatinExtendedAdditional'', [(0x1E00, 0x1EFF)]),
    (''GreekExtended'', [(0x1F00, 0x1FFF)]), (''GeneralPunctuation'', [(0x2000, 0x206F)]),
    (''SuperscriptsandSubscripts'', [(0x2070, 0x209F)]), (''CurrencySymbols'', [(0x20A0, 0x20CF)]),
    (''CombiningMarksforSymbols'', [(0x20D0, 0x20FF)]),
    (''LetterlikeSymbols'', [(0x2100, 0x214F)]), (''NumberForms'', [(0x2150, 0x218F)]),
    (''Arrows'', [(0x2190, 0x21FF)]), (''MathematicalOperators'', [(0x2200, 0x22FF)]),
    (''MiscellaneousTechnical'', [(0x2300, 0x23FF)]), (''ControlPictures'', [(0x2400, 0x243F)]),
    (''OpticalCharacterRecognition'', [(0x2440, 0x245F)]),
    (''EnclosedAlphanumerics'', [(0x2460, 0x24FF)]), (''BoxDrawing'', [(0x2500, 0x257F)]),
    (''BlockElements'', [(0x2580, 0x259F)]), (''GeometricShapes'', [(0x25A0, 0x25FF)]),
    (''MiscellaneousSymbols'', [(0x2600, 0x26FF)]), (''Dingbats'', [(0x2700, 0x27BF)]),
    (''BraillePatterns'', [(0x2800, 0x28FF)]), (''CJKRadicalsSupplement'', [(0x2E80, 0x2EFF)]),
    (''KangxiRadicals'', [(0x2F00, 0x2FDF)]),
    (''IdeographicDescriptionCharacters'', [(0x2FF0, 0x2FFF)]),
    (''CJKSymbolsandPunctuation'', [(0x3000, 0x303F)]), (''Hiragana'', [(0x3040, 0x309F)]),
    (''Katakana'', [(0x30A0, 0x30FF)]), (''Bopomofo'', [(0x3100, 0x312F)]),
    (''HangulCompatibilityJamo'', [(0x3130, 0x318F)]), (''Kanbun'', [(0x3190, 0x319F)]),
    (''BopomofoExtended'', [(0x31A0, 0x31BF)]),
    (''EnclosedCJKLettersandMonths'', [(0x3200, 0x32FF)]),
    (''CJKCompatibility'', [(0x3300, 0x33FF)]),
    (''CJKUnifiedIdeographsExtensionA'', [(0x3400, 0x4DB5)]),
    (''CJKUnifiedIdeographs'', [(0x4E00, 0x9FFF)]), (''YiSyllables'', [(0xA000, 0xA48F)]),
    (''YiRadicals'', [(0xA490, 0xA4CF)]), (''HangulSyllables'', [(0xAC00, 0xD7A3)]),
    (''PrivateUse'', [(0xE000, 0xF8FF)]), (''CJKCompatibilityIdeographs'', [(0xF900, 0xFAFF)]),
    (''AlphabeticPresentationForms'', [(0xFB00, 0xFB4F)]),
    (''ArabicPresentationForms-A'', [(0xFB50, 0xFDFF)]),
    (''CombiningHalfMarks'', [(0xFE20, 0xFE2F)]), (''CJKCompatibilityForms'', [(0xFE30, 0xFE4F)]),
    (''SmallFormVariants'', [(0xFE50, 0xFE6F)]),
    (''ArabicPresentationForms-B'', [(0xFE70, 0xFEFE)]),
    (''HalfwidthandFullwidthForms'', [(0xFF00, 0xFFEF)]),
    (''Specials'', [(0xFEFF, 0xFEFF), (0xFFF0, 0xFFFD)])]"

definition xmlWhitespaceRanges :: "xrange list" where
  "xmlWhitespaceRanges = [
    (0x0009, 0x000A), (0x000D, 0x000D), (0x0020, 0x0020)]"

definition xmlNameStartRanges :: "xrange list" where
  "xmlNameStartRanges = [
    (0x003A, 0x003A), (0x0041, 0x005A), (0x005F, 0x005F), (0x0061, 0x007A), (0x00C0, 0x00D6),
    (0x00D8, 0x00F6), (0x00F8, 0x02FF), (0x0370, 0x037D), (0x037F, 0x1FFF), (0x200C, 0x200D),
    (0x2070, 0x218F), (0x2C00, 0x2FEF), (0x3001, 0xD7FF), (0xF900, 0xFDCF), (0xFDF0, 0xFFFD),
    (0x10000, 0xEFFFF)]"

definition xmlNameCharRanges :: "xrange list" where
  "xmlNameCharRanges = [
    (0x002D, 0x002E), (0x0030, 0x003A), (0x0041, 0x005A), (0x005F, 0x005F), (0x0061, 0x007A),
    (0x00B7, 0x00B7), (0x00C0, 0x00D6), (0x00D8, 0x00F6), (0x00F8, 0x036F), (0x0370, 0x037D),
    (0x037F, 0x1FFF), (0x200C, 0x200D), (0x203F, 0x2040), (0x2070, 0x218F), (0x2C00, 0x2FEF),
    (0x3001, 0xD7FF), (0xF900, 0xFDCF), (0xFDF0, 0xFFFD), (0x10000, 0xEFFFF)]"

text \<open>The ASCII classes \<open>[:name:]\<close> that \<open>regexp/syntax\<close> knows.\<close>
definition posixClasses :: "(string \<times> xrange list) list" where
  "posixClasses = [
    (''alnum'', [(0x30, 0x39), (0x41, 0x5A), (0x61, 0x7A)]), (''alpha'', [(0x41, 0x5A), (0x61, 0x7A)]),
    (''ascii'', [(0, 0x7F)]), (''blank'', [(9, 9), (0x20, 0x20)]), (''cntrl'', [(0, 0x1F), (0x7F, 0x7F)]),
    (''digit'', [(0x30, 0x39)]), (''graph'', [(0x21, 0x7E)]), (''lower'', [(0x61, 0x7A)]),
    (''print'', [(0x20, 0x7E)]), (''punct'', [(0x21, 0x2F), (0x3A, 0x40), (0x5B, 0x60), (0x7B, 0x7E)]),
    (''space'', [(9, 0xD), (0x20, 0x20)]), (''upper'', [(0x41, 0x5A)]),
    (''word'', [(0x30, 0x39), (0x41, 0x5A), (0x5F, 0x5F), (0x61, 0x7A)]),
    (''xdigit'', [(0x30, 0x39), (0x41, 0x46), (0x61, 0x66)])]"

definition table_lookup :: "rune list \<Rightarrow> (string \<times> xrange list) list \<Rightarrow> xrange list option" where
  "table_lookup key tab = map_of (map (\<lambda>(n, v). (runes_of n, v)) tab) key"

subsection \<open>Unicode classes\<close>

definition hasPrefix :: "rune list \<Rightarrow> rune list \<Rightarrow> bool" where
  "hasPrefix s pre \<longleftrightarrow> take (length pre) s = pre"

definition unicodeBlockClassRanges :: "rune list \<Rightarrow> bool \<Rightarrow> xrange list option" where
  "unicodeBlockClassRanges category complement =
     (if \<not> hasPrefix category (runes_of ''Is'') then None
      else case table_lookup (drop 2 category) unicodeBlockRanges of
        None \<Rightarrow> None
      | Some ranges \<Rightarrow> Some (if \<not> complement then ranges else complementRanges ranges))"

function strided :: "rune \<Rightarrow> rune \<Rightarrow> rune \<Rightarrow> xrange list" where
  "strided lo hi stride =
     (if stride \<le> 1 then [(lo, hi)] else if lo > hi then []
      else (lo, lo) # (if lo + stride \<le> hi then strided (lo + stride) hi stride else []))"
  by pat_completeness auto
termination by (relation "measure (\<lambda>(lo, hi, stride). nat (hi - lo))") auto

declare strided.simps [simp del]

definition appendStridedRange :: "xrange list \<Rightarrow> rune \<Rightarrow> rune \<Rightarrow> rune \<Rightarrow> xrange list" where
  "appendStridedRange ranges lo hi stride = ranges @ strided lo hi stride"

definition unicodeRangeTableRanges :: "range_table \<Rightarrow> xrange list" where
  "unicodeRangeTableRanges table =
     (let r16 = foldl (\<lambda>acc (lo, hi, stride). appendStridedRange acc lo hi stride) [] (tR16 table);
          r32 = foldl (\<lambda>acc (lo, hi, stride).
              if lo > maxRune \<or> hi > maxRune \<or> stride > maxRune then acc
              else appendStridedRange acc lo hi stride) r16 (tR32 table) in
      normalizeRanges r32)"

fun gather_categories :: "categories \<Rightarrow> rune list list \<Rightarrow> xrange list \<Rightarrow> xrange list option" where
  "gather_categories cats [] ranges = Some ranges"
| "gather_categories cats (c # cs) ranges =
     (case cats c of
        None \<Rightarrow> None
      | Some table \<Rightarrow> gather_categories cats cs (ranges @ unicodeRangeTableRanges table))"

definition unicodeCategoryRanges :: "categories \<Rightarrow> rune list list \<Rightarrow> bool \<Rightarrow> xrange list option" where
  "unicodeCategoryRanges cats names complement =
     (case gather_categories cats names [] of
        None \<Rightarrow> None
      | Some ranges \<Rightarrow>
          let ranges = normalizeRanges ranges in
          Some (if complement then complementRanges ranges else ranges))"

definition unicodeClassRanges :: "categories \<Rightarrow> rune list \<Rightarrow> bool \<Rightarrow> xrange list option" where
  "unicodeClassRanges cats category complement =
     (if hasPrefix category (runes_of ''Is'') then unicodeBlockClassRanges category complement
      else case cats category of
        None \<Rightarrow> None
      | Some table \<Rightarrow>
          let ranges = unicodeRangeTableRanges table in
          Some (if complement then complementRanges ranges else ranges))"

subsection \<open>Scanning\<close>

text \<open>The first position at or after \<open>i\<close> that holds \<open>r\<close>.\<close>
definition find_rune :: "rune \<Rightarrow> rune list \<Rightarrow> nat \<Rightarrow> nat option" where
  "find_rune r runes i =
     (let k = i + length (takeWhile (\<lambda>x. x \<noteq> r) (drop i runes)) in
      if k < length runes then Some k else None)"

lemma find_rune_ge: "find_rune r runes i = Some k \<Longrightarrow> i \<le> k \<and> k < length runes"
  by (auto simp: find_rune_def Let_def split: if_splits)

definition skipEscape :: "rune list \<Rightarrow> nat \<Rightarrow> nat" where
  "skipEscape runes slash =
     (if slash + 1 \<ge> length runes then slash
      else if (runes ! (slash + 1) = rn CHR ''p'' \<or> runes ! (slash + 1) = rn CHR ''P'') \<and>
          slash + 2 < length runes \<and> runes ! (slash + 2) = rn CHR ''{'' then
        (case find_rune (rn CHR ''}'') runes (slash + 3) of Some i \<Rightarrow> i | None \<Rightarrow> slash + 1)
      else slash + 1)"

lemma skipEscape_ge: "slash \<le> skipEscape runes slash"
  by (auto simp: skipEscape_def split: option.splits dest: find_rune_ge)

function skipPOSIXCharacterClass_from :: "rune list \<Rightarrow> nat \<Rightarrow> nat option" where
  "skipPOSIXCharacterClass_from runes i =
     (if i + 1 < length runes then
        if runes ! i = rn CHR '':'' \<and> runes ! (i + 1) = rn CHR '']'' then Some (i + 1)
        else skipPOSIXCharacterClass_from runes (i + 1)
      else None)"
  by pat_completeness auto
termination by (relation "measure (\<lambda>(runes, i). length runes - i)") auto

declare skipPOSIXCharacterClass_from.simps [simp del]

definition skipPOSIXCharacterClass :: "rune list \<Rightarrow> nat \<Rightarrow> nat option" where
  "skipPOSIXCharacterClass runes start = skipPOSIXCharacterClass_from runes (start + 2)"

lemma skipPOSIX_ge: "skipPOSIXCharacterClass runes start = Some e \<Longrightarrow> start + 2 < e \<and> e < length runes"
proof -
  have "skipPOSIXCharacterClass_from runes i = Some e \<Longrightarrow> i < e \<and> e < length runes" for i
    by (induction runes i rule: skipPOSIXCharacterClass_from.induct)
      (subst (asm) (2) skipPOSIXCharacterClass_from.simps, auto split: if_splits)
  then show "skipPOSIXCharacterClass runes start = Some e \<Longrightarrow> start + 2 < e \<and> e < length runes"
    by (auto simp: skipPOSIXCharacterClass_def)
qed

text \<open>
  The bracket scan of \<open>findClassSubtraction\<close>.  \<open>-1\<close> for a position not found is \<open>None\<close>.
\<close>
record class_scan =
  csMarker :: "nat option"
  csSubStart :: "nat option"
  csSubEnd :: "nat option"
  csDepth :: int

function class_scan_loop :: "rune list \<Rightarrow> nat \<Rightarrow> nat \<Rightarrow> class_scan \<Rightarrow> (class_scan \<times> nat) option" where
  "class_scan_loop runes positiveStart i st =
     (if i \<ge> length runes then None
      else if runes ! i = rn CHR 0x5C
        then class_scan_loop runes positiveStart (skipEscape runes i + 1) st
      else if runes ! i = rn CHR ''['' then
        let st = st\<lparr>csDepth := csDepth st + 1\<rparr>;
            st = (if csDepth st = 2 \<and> csMarker st \<noteq> None \<and> csSubStart st = None
                  then st\<lparr>csSubStart := Some i\<rparr> else st)
        in class_scan_loop runes positiveStart (i + 1) st
      else if runes ! i = rn CHR '']'' then
        let st = (if csDepth st = 2 \<and> csMarker st \<noteq> None \<and> csSubEnd st = None
                  then st\<lparr>csSubEnd := Some i\<rparr> else st);
            st = st\<lparr>csDepth := csDepth st - 1\<rparr>
        in if csDepth st = 0 then Some (st, i) else class_scan_loop runes positiveStart (i + 1) st
      else if runes ! i = rn CHR ''-'' then
        if i = positiveStart \<and> i + 2 < length runes \<and> runes ! (i + 1) = rn CHR ''['' \<and>
            runes ! (i + 2) = rn CHR '':''
        then class_scan_loop runes positiveStart (i + 1) st
        else
          let st = (if csDepth st = 1 \<and> i + 1 < length runes \<and> runes ! (i + 1) = rn CHR ''['' \<and>
                       csMarker st = None
                    then st\<lparr>csMarker := Some i\<rparr> else st)
          in class_scan_loop runes positiveStart (i + 1) st
      else class_scan_loop runes positiveStart (i + 1) st)"
  by pat_completeness auto
termination
  by (relation "measure (\<lambda>(runes, ps, i, st). length runes - i)")
    (use skipEscape_ge in \<open>auto simp: not_le less_Suc_eq_le intro!: diff_less_mono2 le_imp_less_Suc intro: less_le_trans\<close>)

declare class_scan_loop.simps [simp del]

text \<open>Marker, start and end of the subtracted class, and the end of the whole one.\<close>
definition findClassSubtraction :: "rune list \<Rightarrow> nat \<Rightarrow> (nat \<times> nat \<times> nat \<times> nat) option" where
  "findClassSubtraction runes start =
     (let positiveStart = (if start + 1 < length runes \<and> runes ! (start + 1) = rn CHR ''^''
                           then start + 2 else start + 1) in
      case class_scan_loop runes positiveStart start
             \<lparr>csMarker = None, csSubStart = None, csSubEnd = None, csDepth = 0\<rparr> of
        None \<Rightarrow> None
      | Some (st, e) \<Rightarrow>
          (case (csMarker st, csSubStart st, csSubEnd st) of
             (Some m, Some ss, Some se) \<Rightarrow> Some (m, ss, se, e)
           | _ \<Rightarrow> None))"

function class_end_loop :: "rune list \<Rightarrow> nat \<Rightarrow> int \<Rightarrow> nat option" where
  "class_end_loop runes i depth =
     (if i \<ge> length runes then None
      else if runes ! i = rn CHR 0x5C then class_end_loop runes (skipEscape runes i + 1) depth
      else if runes ! i = rn CHR ''['' then class_end_loop runes (i + 1) (depth + 1)
      else if runes ! i = rn CHR '']'' then
        (if depth - 1 = 0 then Some i else class_end_loop runes (i + 1) (depth - 1))
      else class_end_loop runes (i + 1) depth)"
  by pat_completeness auto
termination
  by (relation "measure (\<lambda>(runes, i, d). length runes - i)")
    (use skipEscape_ge in \<open>auto simp: not_le less_Suc_eq_le intro!: diff_less_mono2 le_imp_less_Suc intro: less_le_trans\<close>)

declare class_end_loop.simps [simp del]

definition findClassEnd :: "rune list \<Rightarrow> nat \<Rightarrow> nat option" where
  "findClassEnd runes start = class_end_loop runes start 0"

subsection \<open>Class atoms\<close>

text \<open>\<open>classAtom\<close>; \<open>atSingle\<close> is the single rune when the atom is one (\<open>singleOK\<close>).\<close>
record class_atom =
  atRanges :: "xrange list"
  atSingle :: "rune option"
  atRawDash :: bool
  atNext :: nat

definition parsePOSIXClassAtom :: "rune list \<Rightarrow> nat \<Rightarrow> class_atom option" where
  "parsePOSIXClassAtom runes start =
     (case skipPOSIXCharacterClass runes start of
        None \<Rightarrow> None
      | Some e \<Rightarrow>
          let name = take (e - start - 3) (drop (start + 2) runes);
              negated = (name \<noteq> [] \<and> hd name = rn CHR ''^'') in
          (case table_lookup (if negated then tl name else name) posixClasses of
             None \<Rightarrow> None
           | Some ranges \<Rightarrow>
               Some \<lparr>atRanges = (if negated then complementRanges ranges else ranges), atSingle = None,
                     atRawDash = False, atNext = e + 1\<rparr>))"

definition literal_atom :: "rune \<Rightarrow> nat \<Rightarrow> class_atom" where
  "literal_atom r nxt = \<lparr>atRanges = [(r, r)], atSingle = Some r, atRawDash = False, atNext = nxt\<rparr>"

definition ranges_atom :: "xrange list option \<Rightarrow> nat \<Rightarrow> class_atom option" where
  "ranges_atom ranges nxt =
     map_option (\<lambda>rs. \<lparr>atRanges = rs, atSingle = None, atRawDash = False, atNext = nxt\<rparr>) ranges"

definition parseClassEscapeAtom :: "categories \<Rightarrow> rune list \<Rightarrow> nat \<Rightarrow> class_atom option" where
  "parseClassEscapeAtom cats runes slash =
     (if slash + 1 \<ge> length runes then None
      else
        let r = runes ! (slash + 1); nxt = slash + 2;
            word = map runes_of [''L'', ''M'', ''N'', ''S''] in
        if r = rn CHR ''d'' then ranges_atom (unicodeCategoryRanges cats [runes_of ''Nd''] False) nxt
        else if r = rn CHR ''D'' then ranges_atom (unicodeCategoryRanges cats [runes_of ''Nd''] True) nxt
        else if r = rn CHR ''s'' then ranges_atom (Some xmlWhitespaceRanges) nxt
        else if r = rn CHR ''S'' then ranges_atom (Some (complementRanges xmlWhitespaceRanges)) nxt
        else if r = rn CHR ''w'' then ranges_atom (unicodeCategoryRanges cats word False) nxt
        else if r = rn CHR ''W'' then ranges_atom (unicodeCategoryRanges cats word True) nxt
        else if r = rn CHR ''i'' then ranges_atom (Some xmlNameStartRanges) nxt
        else if r = rn CHR ''I'' then ranges_atom (Some (complementRanges xmlNameStartRanges)) nxt
        else if r = rn CHR ''c'' then ranges_atom (Some xmlNameCharRanges) nxt
        else if r = rn CHR ''C'' then ranges_atom (Some (complementRanges xmlNameCharRanges)) nxt
        else if r = rn CHR ''n'' then Some (literal_atom 10 nxt)
        else if r = rn CHR ''r'' then Some (literal_atom 13 nxt)
        else if r = rn CHR ''t'' then Some (literal_atom 9 nxt)
        else if r \<in> set (runes_of ''.?*+{}()|[]^$-'') \<or> r = rn CHR 0x5C then Some (literal_atom r nxt)
        else if r = rn CHR ''p'' \<or> r = rn CHR ''P'' then
          (if slash + 2 \<ge> length runes \<or> runes ! (slash + 2) \<noteq> rn CHR ''{'' then None
           else case find_rune (rn CHR ''}'') runes (slash + 3) of
             None \<Rightarrow> None
           | Some e \<Rightarrow>
               if e = slash + 3 then None
               else ranges_atom (unicodeClassRanges cats (take (e - (slash + 3)) (drop (slash + 3) runes))
                       (r = rn CHR ''P'')) (e + 1))
        else None)"

definition parseClassAtom :: "categories \<Rightarrow> rune list \<Rightarrow> nat \<Rightarrow> class_atom option" where
  "parseClassAtom cats runes start =
     (if start \<ge> length runes then None
      else
        let r = runes ! start in
        if r = rn CHR ''['' \<and> start + 1 < length runes \<and> runes ! (start + 1) = rn CHR '':''
        then parsePOSIXClassAtom runes start
        else if r = rn CHR ''['' \<or> r = rn CHR '']'' then None
        else if r = rn CHR 0x5C then parseClassEscapeAtom cats runes start
        else Some \<lparr>atRanges = [(r, r)], atSingle = Some r, atRawDash = (r = rn CHR ''-''), atNext = start + 1\<rparr>)"

lemma parseClassEscapeAtom_next: "parseClassEscapeAtom cats runes i = Some a \<Longrightarrow> i < atNext a"
  by (auto simp: parseClassEscapeAtom_def Let_def literal_atom_def ranges_atom_def
      split: if_splits option.splits dest!: find_rune_ge)

lemma parseClassAtom_next: "parseClassAtom cats runes i = Some a \<Longrightarrow> i < atNext a"
  by (auto simp: parseClassAtom_def parsePOSIXClassAtom_def Let_def
      split: if_splits option.splits dest!: skipPOSIX_ge parseClassEscapeAtom_next)

subsection \<open>Class contents\<close>

function class_content_loop ::
  "categories \<Rightarrow> rune list \<Rightarrow> nat \<Rightarrow> bool \<Rightarrow> xrange list \<Rightarrow> xrange list option"
where
  "class_content_loop cats runes i previousRange ranges =
     (if i \<ge> length runes then Some ranges
      else case parseClassAtom cats runes i of
        None \<Rightarrow> None
      | Some start \<Rightarrow>
          if atRawDash start \<and> i \<noteq> 0 \<and> atNext start \<noteq> length runes \<and> \<not> previousRange then None
          else if atNext start < length runes \<and> runes ! atNext start = rn CHR ''-'' \<and>
              atNext start + 1 < length runes then
            (case parseClassAtom cats runes (atNext start + 1) of
               None \<Rightarrow> None
             | Some e \<Rightarrow>
               (case (atSingle start, atSingle e) of
                  (Some lo, Some hi) \<Rightarrow>
                    if atRawDash start \<or> atRawDash e \<or> lo > hi then None
                    else class_content_loop cats runes (atNext e) True (ranges @ [(lo, hi)])
                | _ \<Rightarrow> None))
          else class_content_loop cats runes (atNext start) False (ranges @ atRanges start))"
  by pat_completeness auto
termination
proof (relation "measure (\<lambda>(cats, runes, i, p, r). length runes - i)", goal_cases)
  case (2 cats runes i p ranges start e lo hi)
  then have "i < atNext start" "atNext start + 1 < atNext e" by (auto dest: parseClassAtom_next)
  with 2(1) show ?case by (simp add: diff_less_mono2)
next
  case (3 cats runes i p ranges start)
  then have "i < atNext start" by (auto dest: parseClassAtom_next)
  with 3(1) show ?case by (simp add: diff_less_mono2)
qed simp

declare class_content_loop.simps [simp del]

definition parseClassContentRanges :: "categories \<Rightarrow> rune list \<Rightarrow> xrange list option" where
  "parseClassContentRanges cats runes =
     (if runes = [] then None
      else
        let negated = (hd runes = rn CHR ''^''); runes = (if negated then tl runes else runes) in
        if runes = [] then None
        else case class_content_loop cats runes 0 False [] of
          None \<Rightarrow> None
        | Some ranges \<Rightarrow>
            let ranges = normalizeRanges ranges in
            Some (if negated then complementRanges ranges else ranges))"

text \<open>The subtracted class starts after the class it is subtracted from.\<close>

lemma class_scan_loop_sub:
  "class_scan_loop runes ps i st = Some (st', e) \<Longrightarrow>
     start < i \<or> (i = start \<and> csDepth st = 0) \<Longrightarrow> \<forall>s. csSubStart st = Some s \<longrightarrow> start < s \<Longrightarrow>
     (\<forall>s. csSubStart st' = Some s \<longrightarrow> start < s) \<and> i \<le> e"
proof (induction runes ps i st rule: class_scan_loop.induct)
  case (1 runes ps i st)
  have nxt: "start < skipEscape runes i + 1" "start < i + 1" "i \<le> skipEscape runes i"
    using "1.prems"(2) skipEscape_ge[of i runes] by linarith+
  note eq = "1.prems"(1)[unfolded class_scan_loop.simps[of runes ps i st]]
  note sub = "1.prems"(3)
  have i: "\<not> i \<ge> length runes" using eq by auto
  note eq = eq[unfolded if_not_P[OF i]]
  consider (esc) "runes ! i = rn CHR 0x5C" | (opn) "runes ! i = rn CHR ''[''" | (cls) "runes ! i = rn CHR '']''"
    | (dash) "runes ! i = rn CHR ''-''"
    | (other) "runes ! i \<noteq> rn CHR 0x5C" "runes ! i \<noteq> rn CHR ''[''" "runes ! i \<noteq> rn CHR '']''" "runes ! i \<noteq> rn CHR ''-''"
    by blast
  then show ?case
  proof cases
    case esc
    with eq have "class_scan_loop runes ps (skipEscape runes i + 1) st = Some (st', e)" by simp
    from "1.IH"(1)[OF i esc this] nxt sub show ?thesis by fastforce
  next
    case opn
    define st1 where "st1 = st\<lparr>csDepth := csDepth st + 1\<rparr>"
    define st2 where "st2 = (if csDepth st1 = 2 \<and> csMarker st1 \<noteq> None \<and> csSubStart st1 = None
                  then st1\<lparr>csSubStart := Some i\<rparr> else st1)"
    have r: "class_scan_loop runes ps (i + 1) st2 = Some (st', e)"
      using eq opn unfolding st1_def st2_def Let_def by simp
    have "start < i" if "csDepth st1 = 2" using that "1.prems"(2) by (auto simp: st1_def)
    then have "\<forall>s. csSubStart st2 = Some s \<longrightarrow> start < s" using sub by (auto simp: st2_def st1_def)
    with "1.IH"(2)[OF i _ opn st1_def st2_def r] nxt opn show ?thesis by simp
  next
    case cls
    define st1 where "st1 = (if csDepth st = 2 \<and> csMarker st \<noteq> None \<and> csSubEnd st = None
                  then st\<lparr>csSubEnd := Some i\<rparr> else st)"
    define st2 where "st2 = st1\<lparr>csDepth := csDepth st1 - 1\<rparr>"
    have same: "csSubStart st2 = csSubStart st" by (simp add: st1_def st2_def)
    have r: "(if csDepth st2 = 0 then Some (st2, i) else class_scan_loop runes ps (i + 1) st2) = Some (st', e)"
      using eq cls unfolding st1_def st2_def Let_def by simp
    show ?thesis
    proof (cases "csDepth st2 = 0")
      case True
      with r same sub show ?thesis by auto
    next
      case False
      with r have "class_scan_loop runes ps (i + 1) st2 = Some (st', e)" by simp
      with "1.IH"(3)[OF i _ _ cls st1_def st2_def False this] nxt cls same sub show ?thesis by simp
    qed
  next
    case dash
    define st1 where "st1 = (if csDepth st = 1 \<and> i + 1 < length runes \<and> runes ! (i + 1) = rn CHR ''['' \<and>
                       csMarker st = None then st\<lparr>csMarker := Some i\<rparr> else st)"
    have same: "csSubStart st1 = csSubStart st" by (simp add: st1_def)
    show ?thesis
    proof (cases "i = ps \<and> i + 2 < length runes \<and> runes ! (i + 1) = rn CHR ''['' \<and> runes ! (i + 2) = rn CHR '':''")
      case True
      have "class_scan_loop runes ps (i + 1) st = Some (st', e)"
        using eq dash unfolding if_P[OF True] by simp
      with "1.IH"(4)[OF i _ _ _ dash True this] nxt dash sub show ?thesis by simp
    next
      case False
      have "class_scan_loop runes ps (i + 1) st1 = Some (st', e)"
        using eq dash unfolding if_not_P[OF False] st1_def Let_def by simp
      with "1.IH"(5)[OF i _ _ _ dash False st1_def this] nxt dash same sub show ?thesis by simp
    qed
  next
    case other
    with eq have "class_scan_loop runes ps (i + 1) st = Some (st', e)" by simp
    with "1.IH"(6)[OF i other this] nxt sub show ?thesis by simp
  qed
qed

lemma findClassSubtraction_sub:
  "findClassSubtraction runes start = Some (m, ss, se, e) \<Longrightarrow> start < ss"
proof -
  assume "findClassSubtraction runes start = Some (m, ss, se, e)"
  then obtain ps st where "class_scan_loop runes ps start
      \<lparr>csMarker = None, csSubStart = None, csSubEnd = None, csDepth = 0\<rparr> = Some (st, e)" "csSubStart st = Some ss"
    by (auto simp: findClassSubtraction_def Let_def split: option.splits)
  from class_scan_loop_sub[OF this(1), of start] this(2) show "start < ss" by simp
qed

lemma findClassSubtraction_start:
  "findClassSubtraction runes start = Some x \<Longrightarrow> start < length runes"
proof -
  assume "findClassSubtraction runes start = Some x"
  then have "class_scan_loop runes (if start + 1 < length runes \<and> runes ! (start + 1) = rn CHR ''^''
      then start + 2 else start + 1) start
      \<lparr>csMarker = None, csSubStart = None, csSubEnd = None, csDepth = 0\<rparr> \<noteq> None"
    by (auto simp: findClassSubtraction_def Let_def split: option.splits)
  then show ?thesis by (subst (asm) class_scan_loop.simps) (auto split: if_splits)
qed

definition subrunes :: "rune list \<Rightarrow> nat \<Rightarrow> nat \<Rightarrow> rune list" where
  "subrunes runes i j = take (j - i) (drop i runes)"

function parseClassExprRanges :: "categories \<Rightarrow> rune list \<Rightarrow> nat \<Rightarrow> (xrange list \<times> nat) option" where
  "parseClassExprRanges cats runes start =
     (case findClassSubtraction runes start of
        Some (marker, subStart, subEnd, e) \<Rightarrow>
          (case parseClassContentRanges cats (subrunes runes (start + 1) marker) of
             None \<Rightarrow> None
           | Some base \<Rightarrow>
             (case parseClassExprRanges cats runes subStart of
                None \<Rightarrow> None
              | Some (sub, parsedSubEnd) \<Rightarrow>
                  if parsedSubEnd \<noteq> subEnd \<or> subEnd + 1 \<noteq> e then None
                  else Some (subtractRanges base sub, e)))
      | None \<Rightarrow>
          (case findClassEnd runes start of
             None \<Rightarrow> None
           | Some e \<Rightarrow>
               map_option (\<lambda>ranges. (ranges, e)) (parseClassContentRanges cats (subrunes runes (start + 1) e))))"
  by pat_completeness auto
termination
  by (relation "measure (\<lambda>(cats, runes, start). length runes - start)")
    (auto intro!: diff_less_mono2 dest: findClassSubtraction_sub findClassSubtraction_start)

declare parseClassExprRanges.simps [simp del]

subsection \<open>One atom\<close>

definition AtomRanges :: "categories \<Rightarrow> rune list \<Rightarrow> xrange list option" where
  "AtomRanges cats source =
     (if source = [] then None
      else
        let r = hd source;
            ranges =
              (if r = rn CHR ''['' then
                 (case parseClassExprRanges cats source 0 of
                    None \<Rightarrow> None
                  | Some (ranges, e) \<Rightarrow> if e = length source - 1 then Some ranges else None)
               else if r = rn CHR 0x5C then
                 (case parseClassEscapeAtom cats source 0 of
                    None \<Rightarrow> None
                  | Some a \<Rightarrow> if atNext a = length source then Some (atRanges a) else None)
               else if r = rn CHR ''.'' then
                 (if length source = 1 then Some [(0, 9), (11, 12), (14, maxRune)] else None)
               else if length source = 1 then Some [(r, r)] else None)
        in map_option scalarRanges ranges)"

subsection \<open>Translation to Go syntax\<close>

definition regexpClassExpr :: "xrange list \<Rightarrow> bool \<Rightarrow> string" where
  "regexpClassExpr ranges inClass =
     (let ranges = normalizeRanges ranges in
      if ranges = [] \<and> \<not> inClass then empty_text
      else
        (if \<not> inClass then ''['' else []) @
        concat (map (\<lambda>r. rune_text (fst r) @ (if snd r > fst r then ''-'' @ rune_text (snd r) else [])) ranges) @
        (if \<not> inClass then '']'' else []))"

definition categoryClassExpr :: "string list \<Rightarrow> bool \<Rightarrow> bool \<Rightarrow> string" where
  "categoryClassExpr categories complement inClass =
     (if \<not> inClass then ''['' else []) @
     concat (map (\<lambda>c. (if complement then CHR 0x5C # ''P{'' else CHR 0x5C # ''p{'') @ c @ ''}'') categories) @
     (if \<not> inClass then '']'' else [])"

text \<open>The replacement of an escape and the position of its last rune.\<close>
definition nativeEscapeReplacement :: "rune list \<Rightarrow> nat \<Rightarrow> bool \<Rightarrow> (string \<times> nat) option" where
  "nativeEscapeReplacement runes slash inClass =
     (if slash + 1 \<ge> length runes then None
      else
        let r = runes ! (slash + 1); e = slash + 1 in
        if r = rn CHR ''d'' then Some (categoryClassExpr [''Nd''] False inClass, e)
        else if r = rn CHR ''D'' then Some (categoryClassExpr [''Nd''] True inClass, e)
        else if r = rn CHR ''s'' then Some (regexpClassExpr xmlWhitespaceRanges inClass, e)
        else if r = rn CHR ''S'' then Some (regexpClassExpr (complementRanges xmlWhitespaceRanges) inClass, e)
        else if r = rn CHR ''w'' then Some (categoryClassExpr [''L'', ''M'', ''N'', ''S''] False inClass, e)
        else if r = rn CHR ''W'' then Some (categoryClassExpr [''P'', ''Z'', ''C''] False inClass, e)
        else if r = rn CHR ''i'' then Some (regexpClassExpr xmlNameStartRanges inClass, e)
        else if r = rn CHR ''I'' then Some (regexpClassExpr (complementRanges xmlNameStartRanges) inClass, e)
        else if r = rn CHR ''c'' then Some (regexpClassExpr xmlNameCharRanges inClass, e)
        else if r = rn CHR ''C'' then Some (regexpClassExpr (complementRanges xmlNameCharRanges) inClass, e)
        else if slash + 3 \<ge> length runes \<or> (r \<noteq> rn CHR ''p'' \<and> r \<noteq> rn CHR ''P'') \<or>
            runes ! (slash + 2) \<noteq> rn CHR ''{'' then None
        else case find_rune (rn CHR ''}'') runes (slash + 3) of
            None \<Rightarrow> None
          | Some e \<Rightarrow>
              map_option (\<lambda>ranges. (regexpClassExpr ranges inClass, e))
                (unicodeBlockClassRanges (subrunes runes (slash + 3) e) (r = rn CHR ''P'')))"

text \<open>
  The replacement of a class with a subtraction.  The flag says whether it was parsed; the
  position is the end of the class either way.
\<close>
definition nativeClassReplacement :: "categories \<Rightarrow> rune list \<Rightarrow> nat \<Rightarrow> string \<times> nat \<times> bool" where
  "nativeClassReplacement cats runes start =
     (case findClassSubtraction runes start of
        None \<Rightarrow> ([], start, False)
      | Some (_, _, _, e) \<Rightarrow>
          (case parseClassExprRanges cats runes start of
             None \<Rightarrow> ([], e, False)
           | Some (ranges, parsedEnd) \<Rightarrow>
               if parsedEnd \<noteq> e then ([], e, False) else (regexpClassExpr ranges False, e, True)))"

lemma nativeEscapeReplacement_end:
  "nativeEscapeReplacement runes i inClass = Some (t, e) \<Longrightarrow> i \<le> e"
  by (auto simp: nativeEscapeReplacement_def Let_def split: if_splits option.splits dest!: find_rune_ge)

lemma nativeClassReplacement_end:
  "nativeClassReplacement cats runes i = (t, e, True) \<Longrightarrow> i \<le> e"
proof -
  assume "nativeClassReplacement cats runes i = (t, e, True)"
  then obtain m ss se where "findClassSubtraction runes i = Some (m, ss, se, e)"
    by (auto simp: nativeClassReplacement_def split: option.splits if_splits)
  then obtain ps st where "class_scan_loop runes ps i
      \<lparr>csMarker = None, csSubStart = None, csSubEnd = None, csDepth = 0\<rparr> = Some (st, e)"
    by (auto simp: findClassSubtraction_def Let_def split: option.splits)
  from class_scan_loop_sub[OF this, of i] show "i \<le> e" by simp
qed

text \<open>The loop of \<open>NativePattern\<close> from position \<open>i\<close>.\<close>
function native_loop :: "categories \<Rightarrow> rune list \<Rightarrow> nat \<Rightarrow> bool \<Rightarrow> rune list" where
  "native_loop cats runes i inClass =
     (if i \<ge> length runes then []
      else
        let r = runes ! i in
        if r = rn CHR 0x5C then
          (case nativeEscapeReplacement runes i inClass of
             Some (t, e) \<Rightarrow> runes_of t @ native_loop cats runes (e + 1) inClass
           | None \<Rightarrow>
               if i + 1 < length runes then r # runes ! (i + 1) # native_loop cats runes (i + 2) inClass
               else r # native_loop cats runes (i + 1) inClass)
        else if r = rn CHR ''['' then
          (case nativeClassReplacement cats runes i of
             (t, e, ok) \<Rightarrow>
               if ok then runes_of t @ native_loop cats runes (e + 1) inClass
               else r # native_loop cats runes (i + 1) True)
        else if r = rn CHR '']'' then r # native_loop cats runes (i + 1) False
        else if \<not> inClass \<and> r = rn CHR ''.'' then
          runes_of (''['' @ rune_text 0 @ ''-'' @ rune_text 9 @ rune_text 0xB @ ''-'' @ rune_text 0xC @
            rune_text 0xE @ ''-'' @ rune_text maxRune @ '']'') @ native_loop cats runes (i + 1) inClass
        else if \<not> inClass \<and> r = rn CHR ''^'' then
          runes_of (rune_text 0x5E) @ native_loop cats runes (i + 1) inClass
        else if \<not> inClass \<and> r = rn CHR ''$'' then
          runes_of (rune_text 0x24) @ native_loop cats runes (i + 1) inClass
        else r # native_loop cats runes (i + 1) inClass)"
  by pat_completeness auto
termination
  by (relation "measure (\<lambda>(cats, runes, i, c). length runes - i)")
    (auto intro!: diff_less_mono2 le_imp_less_Suc dest!: sym[of "Some _"] sym[of "(_, _, _)"]
      nativeEscapeReplacement_end nativeClassReplacement_end)

declare native_loop.simps [simp del]

definition NativePattern :: "categories \<Rightarrow> rune list \<Rightarrow> rune list" where
  "NativePattern cats runes = native_loop cats runes 0 False"

text \<open>The class scan of \<open>UnsupportedNativeSyntax\<close>: the end of the class, and the complaint.\<close>
function unsupported_loop :: "categories \<Rightarrow> rune list \<Rightarrow> nat \<Rightarrow> nat \<Rightarrow> nat \<times> string" where
  "unsupported_loop cats runes start i =
     (if i \<ge> length runes then (length runes - 1, [])
      else if runes ! i = rn CHR 0x5C then unsupported_loop cats runes start (skipEscape runes i + 1)
      else if runes ! i = rn CHR ''['' then
        (case (if i + 1 < length runes \<and> runes ! (i + 1) = rn CHR '':'' then skipPOSIXCharacterClass runes i
               else None) of
           Some e \<Rightarrow> unsupported_loop cats runes start (e + 1)
         | None \<Rightarrow>
           (case nativeClassReplacement cats runes start of
              (_, e, True) \<Rightarrow> (e, [])
            | (_, _, False) \<Rightarrow> (i, ''unsupported or malformed character class syntax'')))
      else if runes ! i = rn CHR '']'' then (i, [])
      else unsupported_loop cats runes start (i + 1))"
  by pat_completeness auto
termination
proof (relation "measure (\<lambda>(cats, runes, start, i). length runes - i)", goal_cases)
  case (2 cats runes start i)
  with skipEscape_ge[of i runes] show ?case by (simp add: diff_less_mono2)
next
  case (3 cats runes start i e)
  then have "i < e" by (auto split: if_splits dest: skipPOSIX_ge)
  with 3(1) show ?case by (simp add: diff_less_mono2)
qed auto

declare unsupported_loop.simps [simp del]

definition unsupportedNativeClassSyntax :: "categories \<Rightarrow> rune list \<Rightarrow> nat \<Rightarrow> nat \<times> string" where
  "unsupportedNativeClassSyntax cats runes start = unsupported_loop cats runes start (start + 1)"

lemma unsupported_loop_end:
  "unsupported_loop cats runes start i = (e, u) \<Longrightarrow> start < i \<Longrightarrow> start < length runes \<Longrightarrow> start \<le> e"
proof (induction cats runes start i rule: unsupported_loop.induct)
  case (1 cats runes start i)
  note eq = "1.prems"(1)[unfolded unsupported_loop.simps[of cats runes start i]]
  show ?case
  proof (cases "i \<ge> length runes")
    case True
    with eq "1.prems" show ?thesis by auto
  next
    case i: False
    note eq = eq[unfolded if_not_P[OF i]]
    show ?thesis
    proof (cases "runes ! i = rn CHR 0x5C")
      case True
      with eq "1.IH"(1)[OF i True _ _ "1.prems"(3)] skipEscape_ge[of i runes] "1.prems"(2) show ?thesis by simp
    next
      case esc: False
      note eq = eq[unfolded if_not_P[OF esc]]
      show ?thesis
      proof (cases "runes ! i = rn CHR ''[''")
        case True
        define posix where "posix = (if i + 1 < length runes \<and> runes ! (i + 1) = rn CHR '':''
          then skipPOSIXCharacterClass runes i else None)"
        show ?thesis
        proof (cases posix)
          case (Some e')
          then have "i < e'" by (auto simp: posix_def split: if_splits dest: skipPOSIX_ge)
          with Some eq[folded posix_def] True "1.IH"(2)[OF i esc True Some[unfolded posix_def] _ _ "1.prems"(3)]
            "1.prems"(2)
          show ?thesis by simp
        next
          case None
          with eq[folded posix_def] True "1.prems"(2) nativeClassReplacement_end[of cats runes start] show ?thesis
            by (auto split: prod.splits bool.splits)
        qed
      next
        case False
        with eq "1.IH"(3)[OF i esc False _ _ _ "1.prems"(3)] "1.prems"(2) show ?thesis
          by (auto split: if_splits)
      qed
    qed
  qed
qed

function unsupported_syntax_loop :: "categories \<Rightarrow> rune list \<Rightarrow> nat \<Rightarrow> string" where
  "unsupported_syntax_loop cats runes i =
     (if i \<ge> length runes then []
      else if runes ! i = rn CHR 0x5C then unsupported_syntax_loop cats runes (skipEscape runes i + 1)
      else if runes ! i = rn CHR ''['' then
        (case unsupportedNativeClassSyntax cats runes i of
           (e, unsupported) \<Rightarrow>
             if unsupported \<noteq> [] then unsupported else unsupported_syntax_loop cats runes (e + 1))
      else unsupported_syntax_loop cats runes (i + 1))"
  by pat_completeness auto
termination
proof (relation "measure (\<lambda>(cats, runes, i). length runes - i)", goal_cases)
  case (2 cats runes i)
  with skipEscape_ge[of i runes] show ?case by (simp add: diff_less_mono2)
next
  case (3 cats runes i e u)
  then have "unsupportedNativeClassSyntax cats runes i = (e, u)" by simp
  then have "i \<le> e"
    unfolding unsupportedNativeClassSyntax_def using 3(1) by (auto dest!: unsupported_loop_end)
  with 3(1) show ?case by (simp add: diff_less_mono2)
qed auto

declare unsupported_syntax_loop.simps [simp del]

definition UnsupportedNativeSyntax :: "categories \<Rightarrow> rune list \<Rightarrow> string" where
  "UnsupportedNativeSyntax cats runes = unsupported_syntax_loop cats runes 0"

end
