(* ===== verification/Xsd_Atoms.thy ===== *)
theory Xsd_Atoms
  imports Xsd_Class
begin

text \<open>
  What an XSD atom means and that its intervals are always in the form the pattern program
  demands: in order, within the code points, without surrogates.  The semantic lemmas read the
  parser's result as a set: negation is complement, subtraction is set difference, and the
  translation to Go syntax reads back as the same set.
\<close>

subsection \<open>Intervals in order\<close>

fun ascending :: "int \<Rightarrow> xrange list \<Rightarrow> bool" where
  "ascending k [] = True"
| "ascending k (r # rs) = (k < fst r \<and> fst r \<le> snd r \<and> ascending (snd r) rs)"

lemma ascending_weaken: "ascending k rs \<Longrightarrow> j \<le> k \<Longrightarrow> ascending j rs"
  by (cases rs) auto

lemma ascending_append:
  "ascending k xs \<Longrightarrow> \<forall>x \<in> set xs. snd x \<le> h \<Longrightarrow> ascending h ys \<Longrightarrow> k \<le> h \<Longrightarrow> ascending k (xs @ ys)"
  by (induction xs arbitrary: k) (auto intro: ascending_weaken)

lemma normal_ascending: "normal rs \<Longrightarrow> \<forall>r \<in> set rs. k < fst r \<Longrightarrow> ascending k rs"
proof (induction rs arbitrary: k)
  case (Cons r rs)
  from normal_Cons[OF Cons.prems(1)] have "ascending (snd r) rs" by (intro Cons.IH) auto
  with Cons.prems normal_Cons[OF Cons.prems(1)] show ?case by simp
qed simp

lemma ascending_points: "ascending k rs \<Longrightarrow> r \<in> set rs \<Longrightarrow> fst r \<in> points rs \<and> snd r \<in> points rs"
proof (induction rs arbitrary: k)
  case (Cons q rs)
  then have "r \<in> set rs \<Longrightarrow> fst r \<in> points rs \<and> snd r \<in> points rs" by auto
  with Cons.prems show ?case by auto
qed simp

lemma cut_loop_ascending:
  "normal ss \<Longrightarrow> k < cur \<Longrightarrow> \<forall>s \<in> set ss. cur \<le> snd s \<Longrightarrow> cut_loop hi ss cur = (out, c) \<Longrightarrow> cur \<le> hi \<Longrightarrow>
     ascending k (out @ (if c \<le> hi then [(c, hi)] else [])) \<and>
     (\<forall>x \<in> set (out @ (if c \<le> hi then [(c, hi)] else [])). snd x \<le> hi)"
proof (induction ss arbitrary: k cur out c)
  case (Cons s ss)
  note n = normal_Cons[OF Cons.prems(1)]
  consider "hi < fst s" | "fst s \<le> hi" "hi \<le> snd s" | (rec) "fst s \<le> hi" "snd s < hi" by linarith
  then show ?case
  proof cases
    case rec
    obtain out' c' where r: "cut_loop hi ss (snd s + 1) = (out', c')" by fastforce
    have "\<forall>t \<in> set ss. snd s + 1 \<le> snd t" using n normal_mem by fastforce
    then have IH: "ascending (snd s) (out' @ (if c' \<le> hi then [(c', hi)] else []))"
      "\<forall>x \<in> set (out' @ (if c' \<le> hi then [(c', hi)] else [])). snd x \<le> hi"
      using Cons.IH[OF _ _ _ r, of "snd s"] n rec by auto
    from rec r Cons.prems(4) have "out = (if fst s > cur then [(cur, fst s - 1)] else []) @ out'" "c = c'"
      by (auto simp: Let_def)
    with IH rec Cons.prems(2,3) n show ?thesis by (auto intro: ascending_weaken)
  qed (use Cons.prems in \<open>auto simp: Let_def split: if_splits\<close>)
qed auto

lemma subtract_loop_ascending:
  "normal bs \<Longrightarrow> normal ss \<Longrightarrow> \<forall>b \<in> set bs. k < fst b \<Longrightarrow> ascending k (subtract_loop bs ss)"
proof (induction bs arbitrary: ss k)
  case (Cons b bs)
  note n = normal_Cons[OF Cons.prems(1)]
  define ss' where "ss' = dropWhile (\<lambda>s. snd s < fst b) ss"
  obtain out cur where c: "cut_loop (snd b) ss' (fst b) = (out, cur)" by fastforce
  have ns: "normal ss'" using Cons.prems(2) by (simp add: ss'_def normal_dropWhile)
  have above: "\<forall>s \<in> set ss'. fst b \<le> snd s" using dropWhile_above[OF Cons.prems(2)] by (simp add: ss'_def)
  have kb: "k < fst b" "fst b \<le> snd b" using Cons.prems(3) n by auto
  note cut = cut_loop_ascending[OF ns kb(1) above c kb(2)]
  have "ascending (snd b) (subtract_loop bs ss')" using Cons.IH[OF _ ns, of "snd b"] n by force
  with ascending_append[of k "out @ (if cur \<le> snd b then [(cur, snd b)] else [])" "snd b" "subtract_loop bs ss'"] cut kb
  show ?case using c by (simp add: Let_def flip: ss'_def)
qed simp

lemma subtractRanges_ascending:
  assumes "\<forall>c \<in> points base. k < c"
  shows "ascending k (subtractRanges base sub)"
proof -
  have "\<forall>b \<in> set (normalizeRanges base). k < fst b"
  proof
    fix b assume b: "b \<in> set (normalizeRanges base)"
    then have "fst b \<in> points (normalizeRanges base)"
      using normal_mem[OF normal_normalizeRanges b] by (auto simp: points_def)
    with assms show "k < fst b" by simp
  qed
  then show ?thesis
    using subtract_loop_ascending[OF normal_normalizeRanges normal_normalizeRanges]
      normal_ascending[OF normal_normalizeRanges]
    by (auto simp: subtractRanges_def Let_def)
qed

lemma complement_loop_ascending:
  "normal rs \<Longrightarrow> k < next \<Longrightarrow> ascending k (complement_loop rs next)"
proof (induction rs arbitrary: k "next")
  case (Cons r rs)
  note n = normal_Cons[OF Cons.prems(1)]
  define nx where "nx = (if snd r + 1 > next then snd r + 1 else next)"
  have "ascending (nx - 1) (complement_loop rs nx)" using Cons.IH[of "nx - 1" nx] n by simp
  then have "ascending (max k (fst r - 1)) (complement_loop rs nx)"
    by (rule ascending_weaken) (use Cons.prems(2) n in \<open>auto simp: nx_def\<close>)
  then have "ascending k (complement_loop rs nx)" "ascending (fst r - 1) (complement_loop rs nx)"
    by (auto elim: ascending_weaken)
  moreover have "complement_loop (r # rs) next = (if fst r > next then [(next, fst r - 1)] else []) @
      (if snd r \<ge> maxRune then [] else complement_loop rs nx)"
    by (simp add: nx_def)
  ultimately show ?case using Cons.prems(2) by simp
qed auto

lemma complementRanges_ascending: "ascending (-1) (complementRanges rs)"
  by (simp add: complementRanges_def complement_loop_ascending)

subsection \<open>Inputs\<close>

definition code_points :: "rune set" where "code_points = {0..maxRune}"

definition table_wf :: "range_table \<Rightarrow> bool" where
  "table_wf t \<longleftrightarrow> (\<forall>(lo, hi, stride) \<in> set (tR16 t). 0 \<le> lo \<and> hi \<le> 0xFFFF) \<and>
     (\<forall>(lo, hi, stride) \<in> set (tR32 t). 0 \<le> lo)"

text \<open>The documented type of the tables: 16-bit and 32-bit unsigned entries.\<close>
definition cats_wf :: "categories \<Rightarrow> bool" where
  "cats_wf cats \<longleftrightarrow> (\<forall>name t. cats name = Some t \<longrightarrow> table_wf t)"

lemma points_strided: "points (strided lo hi stride) \<subseteq> {lo..hi}"
proof (induction lo hi stride rule: strided.induct)
  case (1 lo hi stride)
  show ?case
  proof (cases "stride \<le> 1 \<or> lo > hi")
    case True
    then show ?thesis by (auto simp: strided.simps[of lo])
  next
    case False
    then have "strided lo hi stride = (lo, lo) # (if lo + stride \<le> hi then strided (lo + stride) hi stride else [])"
      by (simp add: strided.simps[of lo])
    moreover have "lo + stride \<le> hi \<Longrightarrow> points (strided (lo + stride) hi stride) \<subseteq> {lo..hi}"
      using 1 False by force
    ultimately show ?thesis using False by auto
  qed
qed

lemma fold_strided:
  assumes "\<And>lo hi st. (lo, hi, st) \<in> set ts \<Longrightarrow> \<not> skip lo hi st \<Longrightarrow> {lo..hi} \<subseteq> S" "points acc \<subseteq> S"
  shows "points (foldl (\<lambda>acc (lo, hi, st). if skip lo hi st then acc else appendStridedRange acc lo hi st) acc ts) \<subseteq> S"
  using assms
proof (induction ts arbitrary: acc)
  case (Cons t ts)
  obtain lo hi st where t: "t = (lo, hi, st)" by (cases t) auto
  have "points (if skip lo hi st then acc else appendStridedRange acc lo hi st) \<subseteq> S"
    using Cons.prems(1)[of lo hi st] Cons.prems(2) points_strided[of lo hi st] t
    by (auto simp: appendStridedRange_def)
  then have "points (foldl (\<lambda>acc (lo, hi, st). if skip lo hi st then acc else appendStridedRange acc lo hi st)
      (if skip lo hi st then acc else appendStridedRange acc lo hi st) ts) \<subseteq> S"
    by (rule Cons.IH[rotated]) (rule Cons.prems(1), simp_all)
  with t show ?case by (simp split del: if_split)
qed simp

lemma unicodeRangeTableRanges_points: "table_wf t \<Longrightarrow> points (unicodeRangeTableRanges t) \<subseteq> code_points"
proof -
  assume wf: "table_wf t"
  have "points (foldl (\<lambda>acc (lo, hi, st). if False then acc else appendStridedRange acc lo hi st) [] (tR16 t)) \<subseteq> code_points"
    by (rule fold_strided[where skip = "\<lambda>_ _ _. False"]) (use wf in \<open>auto simp: table_wf_def code_points_def\<close>)
  then have "points (foldl (\<lambda>acc (lo, hi, st). appendStridedRange acc lo hi st) [] (tR16 t)) \<subseteq> code_points"
    by simp
  from fold_strided[OF _ this, of "tR32 t" "\<lambda>lo hi stride. lo > maxRune \<or> hi > maxRune \<or> stride > maxRune"]
  have "points (foldl (\<lambda>acc (lo, hi, stride). if lo > maxRune \<or> hi > maxRune \<or> stride > maxRune then acc
        else appendStridedRange acc lo hi stride)
      (foldl (\<lambda>acc (lo, hi, stride). appendStridedRange acc lo hi stride) [] (tR16 t)) (tR32 t)) \<subseteq> code_points"
    using wf by (force simp: table_wf_def code_points_def)
  then show ?thesis by (simp add: unicodeRangeTableRanges_def Let_def)
qed

subsection \<open>Sound intervals\<close>

text \<open>In order, and code points: what every parser here returns.\<close>
definition sound_ranges :: "xrange list \<Rightarrow> bool" where
  "sound_ranges rs \<longleftrightarrow> ascending (-1) rs \<and> (\<forall>r \<in> set rs. snd r \<le> maxRune)"

lemma sound_rangesI: "ascending (-1) rs \<Longrightarrow> points rs \<subseteq> code_points \<Longrightarrow> sound_ranges rs"
  unfolding sound_ranges_def using ascending_points by (fastforce simp: code_points_def)

lemma ascending_mem: "ascending k rs \<Longrightarrow> r \<in> set rs \<Longrightarrow> k < fst r \<and> fst r \<le> snd r"
  by (induction rs arbitrary: k) force+

lemma sound_points: "sound_ranges rs \<Longrightarrow> points rs \<subseteq> code_points"
  unfolding sound_ranges_def points_def code_points_def using ascending_mem by fastforce

lemma sound_normalize:
  assumes "points rs \<subseteq> code_points"
  shows "sound_ranges (normalizeRanges rs)"
proof (rule sound_rangesI)
  show "points (normalizeRanges rs) \<subseteq> code_points" using assms by simp
  have "-1 < fst b" if b: "b \<in> set (normalizeRanges rs)" for b
  proof -
    have "fst b \<in> points (normalizeRanges rs)"
      using normal_mem[OF normal_normalizeRanges b] b by (auto simp: points_def)
    with assms show ?thesis by (auto simp: code_points_def)
  qed
  then show "ascending (-1) (normalizeRanges rs)" by (intro normal_ascending) auto
qed

lemma points_complement: "points rs \<subseteq> code_points \<Longrightarrow> points (complementRanges rs) = code_points - points rs"
  using points_complementRanges[of rs] by (simp add: code_points_def) (fastforce dest: subsetD)

lemma sound_complement: "points rs \<subseteq> code_points \<Longrightarrow> sound_ranges (complementRanges rs)"
  by (intro sound_rangesI complementRanges_ascending) (auto simp: points_complement)

lemma sound_subtract: "points base \<subseteq> code_points \<Longrightarrow> sound_ranges (subtractRanges base sub)"
  by (intro sound_rangesI subtractRanges_ascending) (auto simp: points_subtractRanges code_points_def)

lemma sound_tables:
  "sound_ranges xmlWhitespaceRanges" "sound_ranges xmlNameStartRanges" "sound_ranges xmlNameCharRanges"
  by (simp_all add: sound_ranges_def xmlWhitespaceRanges_def xmlNameStartRanges_def xmlNameCharRanges_def)

lemmas sound_complement_tables = sound_tables[THEN sound_points, THEN sound_complement]

definition sound_check :: "xrange list \<Rightarrow> bool" where
  "sound_check rs \<longleftrightarrow> ascending (-1) rs \<and> list_all (\<lambda>r. snd r \<le> maxRune) rs"

lemma sound_check_iff: "sound_check rs = sound_ranges rs"
  by (simp add: sound_check_def sound_ranges_def list_all_iff)

lemma sound_block_table: "list_all (\<lambda>(n, rs). sound_check rs) unicodeBlockRanges"
  unfolding unicodeBlockRanges_def by (simp add: sound_check_def)

lemma sound_posix_table: "list_all (\<lambda>(n, rs). sound_check rs) posixClasses"
  unfolding posixClasses_def by (simp add: sound_check_def)

lemma table_lookup_mem: "table_lookup key tab = Some rs \<Longrightarrow> \<exists>n. (n, rs) \<in> set tab"
  by (auto simp: table_lookup_def dest!: map_of_SomeD)

lemma sound_blocks: "table_lookup key unicodeBlockRanges = Some rs \<Longrightarrow> sound_ranges rs"
  using sound_block_table by (auto simp: list_all_iff sound_check_iff dest!: table_lookup_mem)

lemma sound_posix: "table_lookup key posixClasses = Some rs \<Longrightarrow> sound_ranges rs"
  using sound_posix_table by (auto simp: list_all_iff sound_check_iff dest!: table_lookup_mem)

lemma sound_category:
  assumes "cats_wf cats" "unicodeCategoryRanges cats names compl = Some rs"
  shows "sound_ranges rs"
proof -
  have "gather_categories cats names acc = Some rs' \<Longrightarrow> points acc \<subseteq> code_points \<Longrightarrow> points rs' \<subseteq> code_points"
    for acc rs'
    using assms(1)
  proof (induction cats names acc rule: gather_categories.induct)
    case (2 cats c cs acc)
    then obtain t where t: "cats c = Some t"
      "gather_categories cats cs (acc @ unicodeRangeTableRanges t) = Some rs'" by (auto split: option.splits)
    with "2.prems" unicodeRangeTableRanges_points[of t] "2.IH"[OF t(1) t(2)] show ?case
      by (auto simp: cats_wf_def)
  qed auto
  then obtain rs' where r: "gather_categories cats names [] = Some rs'" "points rs' \<subseteq> code_points"
    "rs = (if compl then complementRanges (normalizeRanges rs') else normalizeRanges rs')"
    using assms(2) by (auto simp: unicodeCategoryRanges_def Let_def split: option.splits)
  then show ?thesis using sound_normalize[OF r(2)] sound_complement[of "normalizeRanges rs'"] by simp
qed

lemma sound_class:
  assumes "cats_wf cats" "unicodeClassRanges cats name compl = Some rs"
  shows "sound_ranges rs"
proof (cases "hasPrefix name (runes_of ''Is'')")
  case True
  with assms(2) show ?thesis
    using sound_blocks sound_points sound_complement
    by (auto simp: unicodeClassRanges_def unicodeBlockClassRanges_def split: option.splits if_splits)
next
  case False
  with assms(2) obtain t where t: "cats name = Some t"
    "rs = (if compl then complementRanges (unicodeRangeTableRanges t) else unicodeRangeTableRanges t)"
    by (auto simp: unicodeClassRanges_def Let_def split: option.splits)
  have p: "points (unicodeRangeTableRanges t) \<subseteq> code_points"
    using unicodeRangeTableRanges_points assms(1) t(1) by (auto simp: cats_wf_def)
  then have "sound_ranges (unicodeRangeTableRanges t)"
    using sound_normalize unfolding unicodeRangeTableRanges_def Let_def by simp
  with t(2) sound_complement[OF p] show ?thesis by simp
qed

lemma sound_single: "r \<in> code_points \<Longrightarrow> sound_ranges [(r, r)]"
  by (simp add: sound_ranges_def code_points_def)

definition good_atom :: "class_atom option \<Rightarrow> bool" where
  "good_atom res \<longleftrightarrow> (\<forall>a. res = Some a \<longrightarrow>
     sound_ranges (atRanges a) \<and> (\<forall>r. atSingle a = Some r \<longrightarrow> r \<in> code_points))"

lemma good_if: "good_atom x \<Longrightarrow> good_atom y \<Longrightarrow> good_atom (if b then x else y)"
  by simp

lemma good_case: "good_atom x \<Longrightarrow> (\<And>e. good_atom (f e)) \<Longrightarrow> good_atom (case res of None \<Rightarrow> x | Some e \<Rightarrow> f e)"
  by (cases res) simp_all

lemma good_literal: "r \<in> code_points \<Longrightarrow> good_atom (Some (literal_atom r n))"
  by (simp add: good_atom_def literal_atom_def sound_single)

lemma good_ranges: "(\<And>x. rs = Some x \<Longrightarrow> sound_ranges x) \<Longrightarrow> good_atom (ranges_atom rs n)"
  by (auto simp: good_atom_def ranges_atom_def)

lemma sound_escape:
  assumes "cats_wf cats" "set runes \<subseteq> code_points" "parseClassEscapeAtom cats runes i = Some a"
  shows "sound_ranges (atRanges a)" "\<forall>r. atSingle a = Some r \<longrightarrow> r \<in> code_points"
proof -
  have i: "\<not> i + 1 \<ge> length runes" using assms(3) by (auto simp: parseClassEscapeAtom_def)
  then have r: "runes ! (i + 1) \<in> code_points" using assms(2) by (auto dest: nth_mem)
  have "good_atom (parseClassEscapeAtom cats runes i)"
    unfolding parseClassEscapeAtom_def if_not_P[OF i] Let_def
    by (intro good_if good_case good_literal r good_ranges)
      (use assms(1) in \<open>auto simp: sound_tables sound_complement_tables code_points_def good_atom_def
         intro: sound_category sound_class\<close>)
  then have "sound_ranges (atRanges a) \<and> (\<forall>r. atSingle a = Some r \<longrightarrow> r \<in> code_points)"
    using assms(3) by (simp add: good_atom_def)
  then show "sound_ranges (atRanges a)" "\<forall>r. atSingle a = Some r \<longrightarrow> r \<in> code_points" by auto
qed

lemma sound_atom:
  assumes "cats_wf cats" "set runes \<subseteq> code_points" "parseClassAtom cats runes i = Some a"
  shows "sound_ranges (atRanges a) \<and> (\<forall>r. atSingle a = Some r \<longrightarrow> r \<in> code_points)"
proof -
  have i: "\<not> i \<ge> length runes" using assms(3) by (auto simp: parseClassAtom_def)
  then have r: "runes ! i \<in> code_points" using assms(2) by (auto dest: nth_mem)
  have "good_atom (parsePOSIXClassAtom runes i)"
    using sound_posix sound_points sound_complement
    by (auto simp: good_atom_def parsePOSIXClassAtom_def Let_def split: option.splits)
  moreover have "good_atom (parseClassEscapeAtom cats runes i)"
    using sound_escape[OF assms(1,2)] by (simp add: good_atom_def)
  moreover have "good_atom (Some \<lparr>atRanges = [(runes ! i, runes ! i)], atSingle = Some (runes ! i), atRawDash = b, atNext = n\<rparr>)" for b n
    using r sound_single by (simp add: good_atom_def)
  ultimately have "good_atom (parseClassAtom cats runes i)"
    unfolding parseClassAtom_def if_not_P[OF i] Let_def by (intro good_if) (simp_all add: good_atom_def)
  with assms(3) show ?thesis by (simp add: good_atom_def)
qed

lemma sound_content_loop:
  assumes "cats_wf cats" "set runes \<subseteq> code_points"
  shows "class_content_loop cats runes i p acc = Some rs \<Longrightarrow> points acc \<subseteq> code_points \<Longrightarrow> points rs \<subseteq> code_points"
  using assms
proof (induction cats runes i p acc rule: class_content_loop.induct)
  case (1 cats runes i p acc)
  note eq = "1.prems"(1)[unfolded class_content_loop.simps[of cats runes i]]
  show ?case
  proof (cases "i \<ge> length runes")
    case True
    with eq "1.prems" show ?thesis by simp
  next
    case i: False
    with eq obtain start where st: "parseClassAtom cats runes i = Some start" by (auto split: option.splits)
    note sound = sound_atom[OF "1.prems"(3,4) st]
    note eq = eq[unfolded if_not_P[OF i] st option.case(2)]
    have dash: "\<not> (atRawDash start \<and> i \<noteq> 0 \<and> atNext start \<noteq> length runes \<and> \<not> p)"
      using eq by (metis option.distinct(1))
    note eq = eq[unfolded if_not_P[OF dash]]
    let ?range = "atNext start < length runes \<and> runes ! atNext start = rn CHR ''-'' \<and> atNext start + 1 < length runes"
    show ?thesis
    proof (cases ?range)
      case True
      note eq = eq[unfolded if_P[OF True]]
      from eq obtain e lo hi where e: "parseClassAtom cats runes (atNext start + 1) = Some e"
        "atSingle start = Some lo" "atSingle e = Some hi" "\<not> (atRawDash start \<or> atRawDash e \<or> lo > hi)"
        by (auto split: option.splits if_splits)
      with eq have r: "class_content_loop cats runes (atNext e) True (acc @ [(lo, hi)]) = Some rs" by simp
      have "lo \<in> code_points" "hi \<in> code_points"
        using sound sound_atom[OF "1.prems"(3,4) e(1)] e(2,3) by auto
      then have "points (acc @ [(lo, hi)]) \<subseteq> code_points" using "1.prems"(2) by (auto simp: code_points_def)
      with "1.IH"(1)[OF i st dash True e(1) refl e(2,3,4) r] "1.prems"(3,4) show ?thesis by simp
    next
      case False
      note eq = eq[unfolded if_not_P[OF False]]
      have "points (acc @ atRanges start) \<subseteq> code_points" using "1.prems"(2) sound sound_points by auto
      with "1.IH"(2)[OF i st dash False eq] "1.prems"(3,4) show ?thesis by simp
    qed
  qed
qed

lemma sound_content:
  assumes "cats_wf cats" "set runes \<subseteq> code_points" "parseClassContentRanges cats runes = Some rs"
  shows "sound_ranges rs"
proof -
  define body where "body = (if hd runes = rn CHR ''^'' then tl runes else runes)"
  from assms(3) obtain acc where acc: "class_content_loop cats body 0 False [] = Some acc"
    "rs = (if hd runes = rn CHR ''^'' then complementRanges (normalizeRanges acc) else normalizeRanges acc)"
    by (auto simp: parseClassContentRanges_def Let_def body_def split: if_splits option.splits)
  have "set body \<subseteq> code_points" using assms(2) by (cases runes) (auto simp: body_def)
  from sound_content_loop[OF assms(1) this acc(1)] have "points acc \<subseteq> code_points" by simp
  then show ?thesis using acc(2) sound_normalize sound_complement[of "normalizeRanges acc"] by simp
qed

lemma set_subrunes: "set (subrunes runes i j) \<subseteq> set runes"
  by (auto simp: subrunes_def dest: in_set_takeD in_set_dropD)

lemma sound_expr:
  "cats_wf cats \<Longrightarrow> set runes \<subseteq> code_points \<Longrightarrow> parseClassExprRanges cats runes start = Some (rs, e) \<Longrightarrow> sound_ranges rs"
proof (cases "findClassSubtraction runes start")
  case None
  assume a: "cats_wf cats" "set runes \<subseteq> code_points" "parseClassExprRanges cats runes start = Some (rs, e)"
  from a(3) None obtain e where "parseClassContentRanges cats (subrunes runes (start + 1) e) = Some rs"
    by (subst (asm) parseClassExprRanges.simps) (auto split: option.splits)
  with sound_content[OF a(1) order_trans[OF set_subrunes a(2)]] show ?thesis by blast
next
  case (Some q)
  assume a: "cats_wf cats" "set runes \<subseteq> code_points" "parseClassExprRanges cats runes start = Some (rs, e)"
  obtain m ss se e' where q: "q = (m, ss, se, e')" by (cases q) auto
  from a(3) Some q obtain base sub where "parseClassContentRanges cats (subrunes runes (start + 1) m) = Some base"
    "rs = subtractRanges base sub"
    by (subst (asm) parseClassExprRanges.simps) (auto split: option.splits if_splits)
  with sound_content[OF a(1) order_trans[OF set_subrunes a(2)]] show ?thesis
    using sound_subtract sound_points by blast
qed

subsection \<open>The atom as a class of a program\<close>

definition class_ranges :: "xrange list \<Rightarrow> rune_range list" where
  "class_ranges rs = map (\<lambda>r. \<lparr>rLo = fst r, rHi = snd r\<rparr>) rs"

lemma in_class_ranges: "in_ranges (class_ranges rs) c \<longleftrightarrow> c \<in> points rs"
  by (force simp: in_ranges_def class_ranges_def points_def)

lemma scalar_ranges_cut:
  "ascending k rs \<Longrightarrow> -1 \<le> k \<Longrightarrow> \<forall>r \<in> set rs. snd r \<le> maxRune \<Longrightarrow> j \<le> k \<Longrightarrow>
     scalar_ranges j (class_ranges (scalarRanges rs))"
proof (induction rs arbitrary: k j)
  case (Cons r rs)
  have IH: "scalar_ranges i (class_ranges (scalarRanges rs))" if "i \<le> snd r" for i
    using Cons that by auto
  show ?case
  proof (cases "fst r < 0xD800"; cases "snd r > 0xDFFF")
  qed (use Cons.prems IH in \<open>auto simp: scalarRanges_def class_ranges_def min_def max_def\<close>)
qed (simp add: class_ranges_def scalarRanges_def)

theorem AtomRanges_scalar:
  assumes "cats_wf cats" "set source \<subseteq> code_points" "AtomRanges cats source = Some rs"
  shows "scalar_ranges (-1) (class_ranges rs)"
proof -
  from assms(3) have ne: "source \<noteq> []" by (auto simp: AtomRanges_def)
  then have h: "hd source \<in> code_points" using assms(2) by (cases source) auto
  from assms(3) obtain rs' where rs: "rs = scalarRanges rs'" and
    alt: "(\<exists>e. parseClassExprRanges cats source 0 = Some (rs', e)) \<or>
      (\<exists>a. parseClassEscapeAtom cats source 0 = Some a \<and> rs' = atRanges a) \<or>
      rs' = [(0, 9), (11, 12), (14, maxRune)] \<or> rs' = [(hd source, hd source)]"
    by (auto simp: AtomRanges_def Let_def split: if_splits option.splits)
  from alt have "sound_ranges rs'"
  proof (elim disjE)
    show "rs' = [(0, 9), (11, 12), (14, maxRune)] \<Longrightarrow> sound_ranges rs'" by (simp add: sound_ranges_def)
    show "rs' = [(hd source, hd source)] \<Longrightarrow> sound_ranges rs'" using sound_single[OF h] by simp
  qed (use sound_expr[OF assms(1,2)] sound_escape(1)[OF assms(1,2)] in blast)+
  then show ?thesis unfolding rs using scalar_ranges_cut[of "-1" rs' "-1"] by (simp add: sound_ranges_def)
qed

subsection \<open>What a class means\<close>

lemma content_negated:
  assumes "cats_wf cats" "set rs \<subseteq> code_points" "hd rs \<noteq> rn CHR ''^''"
    "parseClassContentRanges cats rs = Some pos"
  shows "\<exists>neg. parseClassContentRanges cats (rn CHR ''^'' # rs) = Some neg \<and>
    points neg = code_points - points pos"
proof -
  from assms(3,4) obtain acc where acc: "rs \<noteq> []" "class_content_loop cats rs 0 False [] = Some acc"
    "pos = normalizeRanges acc"
    by (auto simp: parseClassContentRanges_def Let_def split: if_splits option.splits)
  then have "parseClassContentRanges cats (rn CHR ''^'' # rs) = Some (complementRanges pos)"
    by (simp add: parseClassContentRanges_def Let_def)
  moreover have "points pos \<subseteq> code_points"
    using sound_points sound_content[OF assms(1,2,4)] by blast
  ultimately show ?thesis using points_complement by auto
qed

lemma expr_subtraction:
  assumes "findClassSubtraction runes start = Some (marker, subStart, subEnd, e)"
    "parseClassExprRanges cats runes start = Some (rs, e')"
  shows "\<exists>base sub. parseClassContentRanges cats (subrunes runes (start + 1) marker) = Some base \<and>
    parseClassExprRanges cats runes subStart = Some (sub, subEnd) \<and> subEnd + 1 = e \<and> e' = e \<and>
    points rs = points base - points sub"
  using assms by (subst (asm) parseClassExprRanges.simps)
    (auto simp: points_subtractRanges split: option.splits if_splits)

lemma regexpClassExpr_text:
  assumes "normalizeRanges rs \<noteq> []"
  shows "regexpClassExpr rs False = ''['' @ concat (map range_text (class_ranges (normalizeRanges rs))) @ '']''"
proof -
  have "map (\<lambda>r. rune_text (fst r) @ (if snd r > fst r then ''-'' @ rune_text (snd r) else [])) (normalizeRanges rs) =
      map range_text (class_ranges (normalizeRanges rs))"
    using normal_mem[OF normal_normalizeRanges, of _ rs]
    by (fastforce simp: class_ranges_def range_text_def)
  then show ?thesis using assms by (simp add: regexpClassExpr_def Let_def del: map_map)
qed

theorem regexpClassExpr_writes:
  assumes "points rs \<subseteq> code_points"
  shows "writes (regexpClassExpr rs False) {[c] | c. c \<in> points rs}"
proof (cases "normalizeRanges rs = []")
  case True
  then have "points rs = {}" using points_normalizeRanges[of rs] by simp
  with True writes_empty_text show ?thesis by (simp add: regexpClassExpr_def)
next
  case False
  have "\<forall>q \<in> set (class_ranges (normalizeRanges rs)). range_fits q"
    using sound_normalize[OF assms] ascending_mem[of "-1" "normalizeRanges rs"]
    by (fastforce simp: class_ranges_def range_fits_def sound_ranges_def)
  from writes_class_text[OF _ this] False show ?thesis
    unfolding regexpClassExpr_text[OF False] in_class_ranges by (simp add: class_ranges_def)
qed

end
