(* ===== verification/Pattern_Compiler.thy ===== *)
theory Pattern_Compiler
  imports Xsd_Atoms
begin

text \<open>
  The pattern compiler (\<open>go/yangpattern/compiler.go\<close>): a recursive-descent parser of XSD
  expressions that interns normalised nodes as it goes.  The mutually recursive methods
  \<open>nonempty\<close>/\<open>repeat\<close> and \<open>expression\<close>/\<open>sequence\<close>/\<open>atom\<close> are each one partial function over
  a call, because nothing but the state they pass on bounds them; that they return is a theorem.
  The intern key of the code spells out every field of a node, so the node itself is the key.
\<close>

record compiler =
  kSource :: "rune list"
  kPos :: nat
  kLimits :: compile_limits
  kLedger :: ledger
  kNodes :: "node_data list"
  kNullable :: "bool list"
  kIntern :: "node_data \<rightharpoonup> nat"
  kAtoms :: "rune list \<rightharpoonup> nat"
  kEdges :: u64
  kDigits :: u64
  kRanges :: u64
  kErr :: "pattern_error option"

abbreviation kbErr :: "compiler \<Rightarrow> pattern_error option" where
  "kbErr c \<equiv> lErr (kLedger c)"

definition kcharge :: "u64 \<Rightarrow> u64 \<Rightarrow> compiler \<Rightarrow> bool \<times> compiler" where
  "kcharge bytes work c = (let (ok, b) = charge bytes work (kLedger c) in (ok, c\<lparr>kLedger := b\<rparr>))"

definition kabort :: "pattern_error \<Rightarrow> compiler \<Rightarrow> compiler" where
  "kabort e c = c\<lparr>kLedger := (kLedger c)\<lparr>lErr := Some e\<rparr>\<rparr>"

definition kfail :: "string \<Rightarrow> compiler \<Rightarrow> compiler" where
  "kfail detail c =
     (if kErr c = None
      then c\<lparr>kErr := Some (ConfigurationError (''at rune '' @ dec_of_nat (kPos c) @ '': '' @ detail))\<rparr>
      else c)"

definition tick :: "compiler \<Rightarrow> bool \<times> compiler" where
  "tick c = (if kErr c \<noteq> None then (False, c) else kcharge 0 1 c)"

definition reserve :: "u64 \<Rightarrow> u64 \<Rightarrow> ledger \<Rightarrow> bool \<times> ledger" where
  "reserve bytes work b =
     (if lErr b \<noteq> None then (False, b)
      else case limitError (lPhase b) (lStage b) ''bytes'' (lByteLimit b) (addSat (lBytes b) bytes) of
        Some e \<Rightarrow> (False, b\<lparr>lErr := Some e\<rparr>)
      | None \<Rightarrow> charge 0 work b)"

subsection \<open>Interning\<close>

definition text_size :: "node_data \<Rightarrow> nat" where
  "text_size n = length (nMin n) + length (nMax n)"

text \<open>The four limits, in the order of the code.\<close>
definition node_limits :: "compiler \<Rightarrow> pattern_error option" where
  "node_limits c =
     (case limitError ''compile'' ''normalize'' ''nodes'' (cNodes (kLimits c)) (of_nat (length (kNodes c) + 1)) of
        Some e \<Rightarrow> Some e | None \<Rightarrow>
      case limitError ''compile'' ''normalize'' ''edges'' (cEdges (kLimits c)) (kEdges c) of
        Some e \<Rightarrow> Some e | None \<Rightarrow>
      case limitError ''compile'' ''normalize'' ''digits'' (cDigits (kLimits c)) (kDigits c) of
        Some e \<Rightarrow> Some e | None \<Rightarrow>
      limitError ''compile'' ''normalize'' ''ranges'' (cRanges (kLimits c)) (kRanges c))"

definition put_nullable :: "compiler \<Rightarrow> node_data \<Rightarrow> bool" where
  "put_nullable c n =
     (if nOp n = OpConcat then kNullable c ! (nChildren n ! 0) \<and> kNullable c ! (nChildren n ! 1)
      else if nOp n = OpAlternate then kNullable c ! (nChildren n ! 0) \<or> kNullable c ! (nChildren n ! 1)
      else nOp n = OpEpsilon \<or> (nOp n = OpRepeat \<and> nMin n = ''0''))"

definition kput :: "node_data \<Rightarrow> compiler \<Rightarrow> nat \<times> compiler" where
  "kput n c =
     (case tick c of
        (False, c) \<Rightarrow> (0, c)
      | (True, c) \<Rightarrow>
        (case kcharge (of_nat (512 + length (nChildren n) * 32 + length (nRanges n) * 128 + 4 * text_size n))
                (of_nat (length (nChildren n) + length (nRanges n) + text_size n)) c of
           (False, c) \<Rightarrow> (0, c)
         | (True, c) \<Rightarrow>
           (case kIntern c n of
              Some i \<Rightarrow> (i, c)
            | None \<Rightarrow>
              let c = c\<lparr>kEdges := kEdges c + len64 (nChildren n), kDigits := kDigits c + of_nat (text_size n),
                        kRanges := kRanges c + len64 (nRanges n)\<rparr> in
              (case node_limits c of
                 Some e \<Rightarrow> (0, kabort e c)
               | None \<Rightarrow>
                   if length (kNodes c) > 2 ^ 32 - 1
                   then (0, kabort (ResourceError ''compile'' ''normalize'' ''node indexes'' (2 ^ 32 - 1)
                              (of_nat (length (kNodes c)))) c)
                   else
                     let i = length (kNodes c) in
                     (i, c\<lparr>kNodes := kNodes c @ [n], kNullable := kNullable c @ [put_nullable c n],
                           kIntern := (kIntern c)(n \<mapsto> i)\<rparr>)))))"

definition binary :: "pop \<Rightarrow> nat \<Rightarrow> nat \<Rightarrow> compiler \<Rightarrow> nat \<times> compiler" where
  "binary op a b c =
     (if op = OpAlternate \<and> (a = 0 \<or> a = b) then (b, c)
      else if op = OpAlternate \<and> b = 0 then (a, c)
      else if op = OpConcat \<and> (a = 0 \<or> b = 0) then (0, c)
      else if op = OpConcat \<and> a = 1 then (b, c)
      else if op = OpConcat \<and> b = 1 then (a, c)
      else
        let (a, b) = (if op = OpAlternate \<and> a > b then (b, a) else (a, b)) in
        kput (node0\<lparr>nOp := op, nChildren := [a, b]\<rparr>) c)"

subsection \<open>Normal forms of repetitions\<close>

definition multiply :: "string \<Rightarrow> string \<Rightarrow> compiler \<Rightarrow> string \<times> compiler" where
  "multiply a b c =
     (case kcharge (of_nat (length a + length b) * 4) (mulSat (len64 a) (len64 b)) c of
        (False, c) \<Rightarrow> (''0'', c)
      | (True, c) \<Rightarrow>
        (case limitError ''compile'' ''normalize'' ''digits'' (cDigits (kLimits c)) (of_nat (length a + length b)) of
           Some e \<Rightarrow> (''0'', kabort e c)
         | None \<Rightarrow> (dec_of_nat (nat_of_dec a * nat_of_dec b), c)))"

text \<open>The interval of a repetition of a repetition.\<close>
definition scaled :: "node_data \<Rightarrow> string \<Rightarrow> string \<Rightarrow> bool \<Rightarrow> compiler \<Rightarrow> (string \<times> string \<times> bool) \<times> compiler" where
  "scaled n lo hi unbounded c =
     (let (low, c) = multiply (nMin n) lo c;
          both = (nUnbounded n \<or> unbounded);
          (up, c) = (if \<not> both then multiply (nMax n) hi c else ([], c))
      in ((low, up, both), c))"

text \<open>The last steps of \<open>repeat\<close>, which do not recurse.\<close>
definition put_repeat :: "nat \<Rightarrow> string \<Rightarrow> string \<Rightarrow> bool \<Rightarrow> compiler \<Rightarrow> nat \<times> compiler" where
  "put_repeat i lo hi unbounded c =
     (if i = 0 then (1, c)
      else if lo = ''1'' \<and> hi = ''1'' \<and> \<not> unbounded then (i, c)
      else kput (node0\<lparr>nOp := OpRepeat, nChildren := [i], nMin := lo, nMax := hi,
                  nUnbounded := unbounded\<rparr>) c)"

datatype norm_call = Nonempty nat | Repeat nat string string bool

partial_function (option) norm :: "norm_call \<Rightarrow> compiler \<Rightarrow> (nat \<times> compiler) option" where
  "norm call c =
     (let r = tick c; c = snd r in
      case call of
        Nonempty i \<Rightarrow>
          if \<not> fst r \<or> \<not> kNullable c ! i then Some (i, c)
          else
            let n = kNodes c ! i in
            if nOp n = OpEpsilon then Some (0, c)
            else if nOp n = OpAlternate then
              Option.bind (norm (Nonempty (nChildren n ! 0)) c) (\<lambda>(x, c).
              Option.bind (norm (Nonempty (nChildren n ! 1)) c) (\<lambda>(y, c).
                Some (binary OpAlternate x y c)))
            else if nOp n = OpConcat then
              Option.bind (norm (Nonempty (nChildren n ! 0)) c) (\<lambda>(x, c).
                case binary OpConcat x (nChildren n ! 1) c of (r, c) \<Rightarrow>
                if kNullable c ! (nChildren n ! 0)
                then Option.bind (norm (Nonempty (nChildren n ! 1)) c) (\<lambda>(y, c).
                  Some (binary OpAlternate r y c))
                else Some (r, c))
            else if nOp n = OpRepeat then norm (Repeat (nChildren n ! 0) ''1'' (nMax n) (nUnbounded n)) c
            else Some (i, c)
      | Repeat i lo hi unbounded \<Rightarrow>
          if \<not> fst r then Some (0, c)
          else if (\<not> unbounded \<and> hi = ''0'') \<or> i = 1 then Some (1, c)
          else if i = 0 then Some (if lo = ''0'' then 1 else 0, c)
          else
            let n = kNodes c ! i in
            if nOp n = OpRepeat \<and> ((\<not> unbounded \<and> lo = hi) \<or> nMin n = ''0'') then
              (case scaled n lo hi unbounded c of
                 ((low, up, both), c) \<Rightarrow> norm (Repeat (nChildren n ! 0) low up both) c)
            else if kNullable c ! i then
              Option.bind (norm (Nonempty i) c) (\<lambda>(j, c). Some (put_repeat j ''0'' hi unbounded c))
            else Some (put_repeat i lo hi unbounded c))"

definition nonempty :: "nat \<Rightarrow> compiler \<Rightarrow> (nat \<times> compiler) option" where
  "nonempty i c = norm (Nonempty i) c"

definition repeat :: "nat \<Rightarrow> string \<Rightarrow> string \<Rightarrow> bool \<Rightarrow> compiler \<Rightarrow> (nat \<times> compiler) option" where
  "repeat i lo hi unbounded c = norm (Repeat i lo hi unbounded) c"

end
