(* ===== verification/Pattern_Parser.thy ===== *)
theory Pattern_Parser
  imports Pattern_Compiler Pattern_Native
begin

text \<open>
  The recursive-descent half of \<open>go/yangpattern/compiler.go\<close>: escapes, character classes,
  counted quantifiers, atoms with their storage bound and cache, and the mutually recursive
  \<open>expression\<close>/\<open>sequence\<close>/\<open>atom\<close>, up to \<open>CompileWithLimits\<close> and \<open>GoRegexp\<close>.  The three methods
  are one partial function over a call; that it always returns is a theorem of
  \<open>Pattern_Parsing\<close>.
\<close>

abbreviation at_end :: "compiler \<Rightarrow> bool" where
  "at_end c \<equiv> length (kSource c) \<le> kPos c"

abbreviation peek :: "compiler \<Rightarrow> rune" where
  "peek c \<equiv> kSource c ! kPos c"

abbreviation advance :: "nat \<Rightarrow> compiler \<Rightarrow> compiler" where
  "advance k c \<equiv> c\<lparr>kPos := kPos c + k\<rparr>"

abbreviation sees :: "compiler \<Rightarrow> char \<Rightarrow> bool" where
  "sees c x \<equiv> \<not> at_end c \<and> peek c = rn x"

subsection \<open>Escapes and classes\<close>

definition scanEscape :: "compiler \<Rightarrow> compiler" where
  "scanEscape c =
     (if at_end c then kfail ''trailing escape'' c
      else
        let r = peek c; c = advance 1 c in
        if r = rn CHR ''p'' \<or> r = rn CHR ''P'' then
          if \<not> sees c CHR ''{'' then kfail ''invalid category escape'' c
          else
            let c = advance 1 c;
                c = advance (length (takeWhile (\<lambda>x. x \<noteq> rn CHR ''}'') (drop (kPos c) (kSource c)))) c in
            if at_end c then kfail ''unterminated category escape'' c else advance 1 c
        else c)"

lemma tick_fields: "tick c = (b, c') \<Longrightarrow> kSource c' = kSource c \<and> kPos c' = kPos c"
  by (auto simp: tick_def kcharge_def split: if_splits prod.splits)

lemma scanEscape_fields: "kSource (scanEscape c) = kSource c \<and> kPos c \<le> kPos (scanEscape c)"
  by (simp add: scanEscape_def kfail_def Let_def)

text \<open>The loop over a bracketed class; without a nesting, the code has returned.\<close>
function class_scan :: "u64 \<Rightarrow> u64 \<Rightarrow> compiler \<Rightarrow> u64 option \<times> compiler" where
  "class_scan depth nesting c =
     (if at_end c \<or> nesting = 0 then (Some nesting, c)
      else
        let (ok, c1) = tick c; ch = peek c1; c2 = advance 1 c1 in
        if \<not> ok then (Some nesting, c1)
        else if ch = rn CHR 0x5C then class_scan depth nesting (scanEscape c2)
        else if ch = rn CHR ''['' then
          (case limitError ''compile'' ''parse'' ''depth'' (cDepth (kLimits c2)) (depth + (nesting + 1)) of
             Some e \<Rightarrow> (None, kabort e c2)
           | None \<Rightarrow> class_scan depth (nesting + 1) c2)
        else if ch = rn CHR '']'' then class_scan depth (nesting - 1) c2
        else class_scan depth nesting c2)"
  by pat_completeness auto
termination
proof (relation "measure (\<lambda>(d, n, c). length (kSource c) - kPos c)", simp, goal_cases)
  case (1 depth nesting c x b c1 ch c2)
  then show ?case
    using tick_fields[of c b c1] scanEscape_fields[of c2] by (simp add: not_le) linarith
next
  case (2 depth nesting c x b c1 ch c2)
  then show ?case using tick_fields[of c b c1] by (simp add: not_le) linarith
next
  case (3 depth nesting c x b c1 ch c2)
  then show ?case using tick_fields[of c b c1] by (simp add: not_le) linarith
next
  case (4 depth nesting c x b c1 ch c2)
  then show ?case using tick_fields[of c b c1] by (simp add: not_le) linarith
qed

declare class_scan.simps [simp del]

subsection \<open>Counted quantifiers\<close>

text \<open>The closure \<open>read\<close>: the digits at index \<open>i\<close> without leading zeros, and the index after them.\<close>
definition read_count :: "nat \<Rightarrow> compiler \<Rightarrow> (string \<times> nat) \<times> compiler" where
  "read_count i c =
     (let ds = takeWhile (\<lambda>x. rn CHR ''0'' \<le> x \<and> x \<le> rn CHR ''9'') (drop i (kSource c));
          j = i + length ds in
      if ds = [] then (([], i), c)
      else case limitError ''compile'' ''parse'' ''digits'' (cDigits (kLimits c)) (len64 ds) of
        Some e \<Rightarrow> (([], j), kabort e c)
      | None \<Rightarrow>
        (case kcharge (len64 ds) (len64 ds) c of
           (False, c) \<Rightarrow> (([], j), c)
         | (True, c) \<Rightarrow>
             let s = dropWhile (\<lambda>x. x = CHR ''0'') (map (\<lambda>x. char_of x) ds) in
             ((if s = [] then ''0'' else s, j), c)))"

text \<open>\<open>count\<close>: a value without bounds stands for \<open>ok = false\<close>.\<close>
definition count_bounds :: "compiler \<Rightarrow> (string \<times> string \<times> bool) option \<times> compiler" where
  "count_bounds c =
     (let start = kPos c; ((lo, i), c) = read_count (start + 1) c in
      if lo = [] \<or> i = length (kSource c) then (None, c)
      else
        let (((hi, i), unb), c) =
          (if kSource c ! i = rn CHR '','' then
             (case read_count (i + 1) c of ((hi, i), c) \<Rightarrow> (((hi, i), hi = []), c))
           else (((lo, i), False), c)) in
        if length (kSource c) \<le> i \<or> kSource c ! i \<noteq> rn CHR ''}'' then (None, c)
        else
          let c = c\<lparr>kPos := i + 1\<rparr>;
              c = (if \<not> unb \<and> decimalCompare lo hi > 0 then kfail ''reversed quantifier range'' c else c);
              c = (case limitError ''compile'' ''parse'' ''digits'' (cDigits (kLimits c)) (of_nat i - of_nat start) of
                     Some e \<Rightarrow> kabort e c | None \<Rightarrow> c) in
          (Some (lo, hi, unb), c))"

text \<open>The switch on the character after an atom.\<close>
definition quantified :: "nat \<Rightarrow> compiler \<Rightarrow> (nat \<times> compiler) option" where
  "quantified i c =
     (if sees c CHR ''*'' then repeat i ''0'' [] True (advance 1 c)
      else if sees c CHR ''+'' then repeat i ''1'' [] True (advance 1 c)
      else if sees c CHR ''?'' then repeat i ''0'' ''1'' False (advance 1 c)
      else if sees c CHR ''{'' then
        (case count_bounds c of
           (Some (lo, hi, unb), c) \<Rightarrow> repeat i lo hi unb c
         | (None, c) \<Rightarrow> Some (i, kfail ''malformed quantifier'' c))
      else Some (i, c))"

subsection \<open>Atoms\<close>

text \<open>Bytes of a rune in UTF-8: the cache key is the atom as a Go string.\<close>
definition rune_size :: "rune \<Rightarrow> nat" where
  "rune_size r = (if r < 0x80 then 1 else if r < 0x800 then 2 else if r < 0x10000 then 3 else 4)"

definition one_of :: "string \<Rightarrow> rune \<Rightarrow> bool" where
  "one_of s r \<longleftrightarrow> (\<exists>x \<in> set s. rn x = r)"

text \<open>The loop that reserves storage for the class translator.\<close>
fun atom_bound :: "rune list \<Rightarrow> u64 \<Rightarrow> u64" where
  "atom_bound (ch # next # rest) bound =
     (let bound = (if ch = rn CHR ''['' \<and> next = rn CHR '':'' then addSat bound 128 else bound);
          bound = (if ch = rn CHR 0x5C \<and> one_of ''pPdDwW'' next then addSat bound 8192 else bound);
          bound = (if ch = rn CHR 0x5C \<and> one_of ''iIcCsS'' next then addSat bound 64 else bound)
      in atom_bound (next # rest) bound)"
| "atom_bound _ bound = bound"

definition class_node :: "xrange list \<Rightarrow> node_data" where
  "class_node rs = node0\<lparr>nOp := OpClass, nRanges := map (\<lambda>r. \<lparr>rLo = fst r, rHi = snd r\<rparr>) rs\<rparr>"

text \<open>The end of \<open>atom\<close>, for the atom text that has been scanned.\<close>
definition translate_atom :: "categories \<Rightarrow> rune list \<Rightarrow> compiler \<Rightarrow> nat \<times> compiler" where
  "translate_atom cats a c =
     (case kcharge 0 (len64 a) c of
        (False, c) \<Rightarrow> (0, c)
      | (True, c) \<Rightarrow>
        (case kAtoms c a of
           Some i \<Rightarrow> (i, c)
         | None \<Rightarrow>
           (let bound = atom_bound a (of_nat (length a + 4));
                (ok, b) = reserve (mulSat bound 64) (mulSat bound (of_nat (length a + 1))) (kLedger c);
                c = c\<lparr>kLedger := b\<rparr> in
            if \<not> ok then (0, c)
            else case AtomRanges cats a of
              None \<Rightarrow> (0, kfail ''invalid character atom'' c)
            | Some ranges \<Rightarrow>
                let (i, c) = (if ranges \<noteq> [] then kput (class_node ranges) c else (0, c));
                    (ok, c) = kcharge (of_nat (sum_list (map rune_size a) + 64)) 1 c in
                (i, if ok then c\<lparr>kAtoms := (kAtoms c)(a \<mapsto> i)\<rparr> else c))))"

text \<open>\<open>atom\<close> for a rune \<open>r\<close>, already consumed, that opens no group.\<close>
definition plain_atom :: "categories \<Rightarrow> u64 \<Rightarrow> rune \<Rightarrow> compiler \<Rightarrow> nat \<times> compiler" where
  "plain_atom cats depth r c =
     (let start = kPos c - 1 in
      if one_of ''*+?}]'' r then (0, kfail ''quantifier without atom'' c)
      else if r = rn CHR ''{'' then (0, kfail ''quantifier without atom'' c)
      else
        let c = (if r = rn CHR 0x5C then scanEscape c else c);
            (nesting, c) = (if r = rn CHR ''['' then class_scan depth 1 c else (Some 0, c)) in
        case nesting of
          None \<Rightarrow> (0, c)
        | Some n \<Rightarrow>
            if n \<noteq> 0 then (0, kfail ''unterminated character class'' c)
            else translate_atom cats (take (kPos c - start) (drop start (kSource c))) c)"

subsection \<open>Expressions\<close>

text \<open>One round of the balanced concatenation, and its rounds until one term is left.\<close>
fun join_pairs :: "nat list \<Rightarrow> compiler \<Rightarrow> nat list \<times> compiler" where
  "join_pairs (a # b # ts) c =
     (let (i, c) = binary OpConcat a b c; (is, c) = join_pairs ts c in (i # is, c))"
| "join_pairs ts c = (ts, c)"

lemma length_join_pairs: "length (fst (join_pairs ts c)) = (length ts + 1) div 2"
  by (induction ts c rule: join_pairs.induct) (auto simp: Let_def split: prod.splits)

function join_terms :: "nat list \<Rightarrow> compiler \<Rightarrow> nat \<times> compiler" where
  "join_terms ts c =
     (if ts = [] then (1, c)
      else if length ts = 1 then (hd ts, c)
      else join_terms (fst (join_pairs ts c)) (snd (join_pairs ts c)))"
  by pat_completeness auto
termination
proof (relation "measure (length \<circ> fst)", simp, goal_cases)
  case (1 ts c)
  then have "1 < length ts" by (cases ts) auto
  then show ?case by (simp add: length_join_pairs)
qed

declare join_terms.simps [simp del]

text \<open>
  The calls of the parser: \<open>expression\<close>, its loop with the result so far, the loop of \<open>sequence\<close>
  with the terms so far, and \<open>atom\<close>.
\<close>
datatype parse_call = Expression u64 | Alternatives u64 nat | Terms u64 "nat list" | Atom u64

partial_function (option) parse :: "categories \<Rightarrow> parse_call \<Rightarrow> compiler \<Rightarrow> (nat \<times> compiler) option" where
  "parse cats call c =
     (case call of
        Expression depth \<Rightarrow>
          (case limitError ''compile'' ''parse'' ''depth'' (cDepth (kLimits c)) depth of
             Some e \<Rightarrow> Some (0, kabort e c)
           | None \<Rightarrow>
               Option.bind (parse cats (Terms depth []) c) (\<lambda>(x, c). parse cats (Alternatives depth x) c))
      | Alternatives depth x \<Rightarrow>
          if sees c CHR ''|'' then
            let r = tick c; c = snd r in
            if fst r then
              Option.bind (parse cats (Terms depth []) (advance 1 c)) (\<lambda>(y, c).
                let r = binary OpAlternate x y c in parse cats (Alternatives depth (fst r)) (snd r))
            else Some (x, c)
          else Some (x, c)
      | Terms depth ts \<Rightarrow>
          if \<not> at_end c \<and> peek c \<noteq> rn CHR '')'' \<and> peek c \<noteq> rn CHR ''|'' then
            let r = tick c; c = snd r in
            if fst r then
              Option.bind (parse cats (Atom depth) c) (\<lambda>(i, c).
                if kErr c \<noteq> None \<or> kbErr c \<noteq> None then Some (0, c)
                else Option.bind (quantified i c) (\<lambda>(i, c).
                  let r = kcharge 8 1 c; c = snd r in
                  if \<not> fst r then Some (0, c) else parse cats (Terms depth (ts @ [i])) c))
            else Some (join_terms ts c)
          else Some (join_terms ts c)
      | Atom depth \<Rightarrow>
          let r = peek c; c = advance 1 c in
          if r = rn CHR ''('' then
            Option.bind (parse cats (Expression (depth + 1)) c) (\<lambda>(i, c).
              if \<not> sees c CHR '')'' then Some (0, kfail ''unterminated group'' c)
              else Some (i, advance 1 c))
          else Some (plain_atom cats depth r c))"

subsection \<open>Compiling\<close>

text \<open>\<open>utf8.ValidString\<close>\<close>
function valid_utf8 :: "string \<Rightarrow> bool" where
  "valid_utf8 s = (if s = [] then True else
     let (r, w) = decodeRune s in if r = 0xFFFD \<and> w = 1 then False else valid_utf8 (drop w s))"
  by pat_completeness auto
termination
proof (relation "measure length", simp, goal_cases)
  case (1 s x r w)
  then have "0 < w" using decodeRune_width[of s] by (metis snd_conv)
  with 1(1) show ?case by (cases s) auto
qed

declare valid_utf8.simps [simp del]

definition new_compiler :: "compile_limits \<Rightarrow> compiler" where
  "new_compiler l = \<lparr>kSource = [], kPos = 0, kLimits = l, kLedger = new_ledger ''compile'' ''parse'' (cBytes l) (cWork l),
     kNodes = [], kNullable = [], kIntern = (\<lambda>_. None), kAtoms = (\<lambda>_. None),
     kEdges = 0, kDigits = 0, kRanges = 0, kErr = None\<rparr>"

text \<open>The compiler after the parse, or the error that stopped it.\<close>
definition parse_source :: "categories \<Rightarrow> string \<Rightarrow> compile_limits \<Rightarrow> (pattern_error + nat \<times> compiler) option" where
  "parse_source cats source l =
     (case limitError ''compile'' ''parse'' ''source bytes'' (cSourceBytes l) (len64 source) of
        Some e \<Rightarrow> Some (Inl e)
      | None \<Rightarrow>
        if \<not> valid_utf8 source then Some (Inl (ConfigurationError ''source is not UTF-8''))
        else case kcharge (mulSat (len64 source) 8) (len64 source) (new_compiler l) of
          (False, c) \<Rightarrow> Some (Inl (the (kbErr c)))
        | (True, c) \<Rightarrow>
            let c = c\<lparr>kSource := utf8_runes source\<rparr>;
                c = snd (kput node0 c);
                c = snd (kput (node0\<lparr>nOp := OpEpsilon\<rparr>) c) in
            Option.bind (parse cats (Expression 1) c) (\<lambda>(root, c).
              let c = (if kErr c = None \<and> kPos c \<noteq> length (kSource c)
                       then kfail ''unexpected closing group'' c else c) in
              if kbErr c \<noteq> None then Some (Inl (the (kbErr c)))
              else if kErr c \<noteq> None then Some (Inl (the (kErr c)))
              else Some (Inr (root, c))))"

text \<open>An error of \<open>RestoreWithLimits\<close>, told in terms of the policy of the compilation.\<close>
fun compile_error :: "compile_limits \<Rightarrow> ledger \<Rightarrow> pattern_error \<Rightarrow> pattern_error" where
  "compile_error l b (ResourceError ph st lim allowance observed) =
     (if lim = ''bytes'' then ResourceError ''compile'' st lim (cBytes l) (addSat observed (lBytes b - 1))
      else if lim = ''work'' then ResourceError ''compile'' st lim (cWork l) (addSat observed (lWork b - 1))
      else ResourceError ''compile'' st lim allowance observed)"
| "compile_error l b e = e"

definition CompileWithLimits ::
  "categories \<Rightarrow> engine \<Rightarrow> string \<Rightarrow> compile_limits \<Rightarrow> (pattern_error + program) option" where
  "CompileWithLimits cats eng source limits =
     (let l = compile_defaults limits in
      Option.bind (parse_source cats source l) (\<lambda>r.
        case r of
          Inl e \<Rightarrow> Some (Inl e)
        | Inr (root, c) \<Rightarrow>
            let d = \<lparr>pVersion = FormatVersion, pSource = source, pNodes = kNodes c, pRoot = root\<rparr> in
            (case charge 1 1 (kLedger c) of
               (False, b) \<Rightarrow> Some (Inl (the (lErr b)))
             | (True, b) \<Rightarrow>
                 Option.bind (RestoreWithLimits eng d
                     \<lparr>rBytes = cBytes l - lBytes b + 1, rNodes = cNodes l, rEdges = cEdges l, rDepth = cDepth l,
                      rDigits = cDigits l, rRanges = cRanges l, rWork = cWork l - lWork b + 1\<rparr>) (\<lambda>r.
                   case r of Inl e \<Rightarrow> Some (Inl (compile_error l b e)) | Inr p \<Rightarrow> Some (Inr p)))))"

definition Compile :: "categories \<Rightarrow> engine \<Rightarrow> string \<Rightarrow> (pattern_error + program) option" where
  "Compile cats eng source = CompileWithLimits cats eng source compile_limits0"

subsection \<open>The canonical native expression\<close>

text \<open>\<open>NativeRejected\<close> is the error of \<open>regexp.Compile\<close>.\<close>
datatype go_regexp_error = PatternFailure pattern_error | NativeRejected

definition GoRegexp :: "engine \<Rightarrow> program \<Rightarrow> (go_regexp_error + string) option" where
  "GoRegexp eng p =
     (if pNodes (gData p) = [] then Some (Inl (PatternFailure (ConfigurationError ''uninitialized program'')))
      else Option.bind (nativeExpression p False (match_defaults match_limits0)) (\<lambda>r.
        case r of
          Inl (ResourceError ph st lim allowance observed) \<Rightarrow>
            Some (Inl (PatternFailure (ResourceError ''compile'' st lim allowance observed)))
        | Inl e \<Rightarrow> Some (Inl (PatternFailure e))
        | Inr (s, _) \<Rightarrow> if \<not> eCompiles eng s then Some (Inl NativeRejected) else Some (Inr s)))"

end
