(* ===== verification/Pattern_Compiling.thy ===== *)
theory Pattern_Compiling
  imports Pattern_Compiler Pattern_Store Pattern_Restore
begin

text \<open>
  What the node table of the pattern compiler means.  Every operation that adds to it
  (\<open>put\<close>, \<open>binary\<close>, \<open>nonempty\<close>, \<open>repeat\<close>) returns, and unless it fails returns a node of the
  language its name promises; the table stays well formed and its nullable flags exact.
\<close>

subsection \<open>Repetition algebra\<close>

lemma reps_nonempty:
  assumes "[] \<in> A" "\<And>h. hi = Some h \<Longrightarrow> lo \<le> h"
  shows "reps A lo hi = reps (A - {[]}) 0 hi"
proof (intro equalityI subsetI)
  fix w assume "w \<in> reps A lo hi"
  then obtain ws where ws: "w = concat ws" "set ws \<subseteq> A" "lo \<le> length ws" "below (length ws) hi" by (rule repsE)
  let ?ws = "filter (\<lambda>v. v \<noteq> []) ws"
  have "concat ?ws = concat ws" by (induction ws) auto
  moreover have "below (length ?ws) hi"
    using ws(4) by (cases hi) (auto intro: order_trans[OF length_filter_le])
  ultimately show "w \<in> reps (A - {[]}) 0 hi" using ws repsI[of ?ws "A - {[]}" 0 hi] by auto
next
  fix w assume "w \<in> reps (A - {[]}) 0 hi"
  then obtain ws where ws: "w = concat ws" "set ws \<subseteq> A - {[]}" "below (length ws) hi" by (auto elim: repsE)
  let ?ws = "ws @ replicate (lo - length ws) []"
  have "concat ?ws = w" using ws(1) by simp
  moreover have "set ?ws \<subseteq> A" using ws(2) assms(1) by auto
  moreover have "below (length ?ws) hi" using ws(3) assms(2) by (cases hi) auto
  ultimately show "w \<in> reps A lo hi" using repsI[of ?ws A lo hi] by auto
qed

lemma reps_minus_nil:
  assumes "[] \<notin> A"
  shows "reps A 0 hi - {[]} = reps A 1 hi"
proof (intro equalityI subsetI)
  fix w assume w: "w \<in> reps A 0 hi - {[]}"
  then have "w \<in> reps A 0 hi" by simp
  then obtain ws where ws: "w = concat ws" "set ws \<subseteq> A" "below (length ws) hi" by (rule repsE)
  with w have "ws \<noteq> []" by auto
  with ws have "w = concat ws" "set ws \<subseteq> A" "below (length ws) hi" "ws \<noteq> []" by blast+
  then show "w \<in> reps A 1 hi" by (auto intro!: repsI simp: Suc_le_eq)
next
  fix w assume "w \<in> reps A 1 hi"
  then obtain ws where ws: "w = concat ws" "set ws \<subseteq> A" "1 \<le> length ws" "below (length ws) hi" by (rule repsE)
  then obtain v vs where "ws = v # vs" by (cases ws) auto
  with ws assms have "w \<noteq> []" by auto
  with ws show "w \<in> reps A 0 hi - {[]}" by (auto intro!: repsI)
qed

text \<open>The product of two upper bounds.\<close>
fun times_hi :: "nat option \<Rightarrow> nat option \<Rightarrow> nat option" where
  "times_hi (Some a) (Some b) = Some (a * b)"
| "times_hi _ _ = None"

lemma concat_split:
  "lo * k \<le> n \<Longrightarrow> n \<le> hi * k \<Longrightarrow> length xs = n \<Longrightarrow>
     \<exists>xss. xs = concat xss \<and> length xss = k \<and> (\<forall>ys \<in> set xss. lo \<le> length ys \<and> length ys \<le> hi)"
proof (induction k arbitrary: n xs)
  case (Suc k)
  define m where "m = min hi (n - lo * k)"
  have "lo \<le> hi \<or> lo * Suc k > hi * Suc k" by (meson mult_less_mono1 not_le zero_less_Suc)
  then have lohi: "lo \<le> hi" using Suc.prems by linarith
  have m: "lo \<le> m" "m \<le> hi" "m \<le> n" using Suc.prems lohi by (auto simp: m_def)
  have "lo * k \<le> n - m" using Suc.prems m by (auto simp: m_def)
  moreover have "n - m \<le> hi * k"
  proof (cases "hi \<le> n - lo * k")
    case True
    then show ?thesis using Suc.prems by (simp add: m_def)
  next
    case False
    then have "n - m = lo * k" using Suc.prems by (auto simp: m_def)
    then show ?thesis using lohi by simp
  qed
  moreover have "length (drop m xs) = n - m" using Suc.prems by simp
  ultimately obtain xss where xss: "drop m xs = concat xss" "length xss = k" "\<forall>ys \<in> set xss. lo \<le> length ys \<and> length ys \<le> hi"
    using Suc.IH by blast
  have "xs = concat (take m xs # xss)" using xss(1) by (metis append_take_drop_id concat.simps(2))
  moreover have "length (take m xs) = m" using Suc.prems m by simp
  ultimately show ?case using xss m by (intro exI[of _ "take m xs # xss"]) auto
qed simp

lemma concat_lengths:
  "\<forall>ys \<in> set xss. lo \<le> length ys \<and> below (length ys) hi \<Longrightarrow>
     lo * length xss \<le> length (concat xss) \<and> below (length (concat xss)) (times_hi hi (Some (length xss)))"
proof (induction xss)
  case Nil
  then show ?case by (cases hi) auto
next
  case (Cons ys xss)
  then show ?case by (cases hi) (auto simp: algebra_simps intro: add_mono)
qed

lemma concat_concat: "concat (map concat wss) = concat (concat wss)"
  by (induction wss) auto

text \<open>Words of a repeated repetition are words of the base in groups.\<close>
lemma reps_groups:
  "w \<in> reps (reps A a b) lo hi \<longleftrightarrow>
     (\<exists>wss. w = concat (concat wss) \<and> (\<forall>ws \<in> set wss. set ws \<subseteq> A \<and> a \<le> length ws \<and> below (length ws) b) \<and>
        lo \<le> length wss \<and> below (length wss) hi)"
proof
  assume "w \<in> reps (reps A a b) lo hi"
  then obtain vs where vs: "w = concat vs" "set vs \<subseteq> reps A a b" "lo \<le> length vs" "below (length vs) hi" by (rule repsE)
  from vs(2) have "\<exists>wss. vs = map concat wss \<and> (\<forall>ws \<in> set wss. set ws \<subseteq> A \<and> a \<le> length ws \<and> below (length ws) b)"
  proof (induction vs)
    case (Cons v vs)
    then obtain wss ws where "vs = map concat wss" "\<forall>ws \<in> set wss. set ws \<subseteq> A \<and> a \<le> length ws \<and> below (length ws) b"
      "v = concat ws" "set ws \<subseteq> A" "a \<le> length ws" "below (length ws) b" by (auto elim: repsE)
    then show ?case by (intro exI[of _ "ws # wss"]) auto
  qed simp
  then obtain wss where "vs = map concat wss" "\<forall>ws \<in> set wss. set ws \<subseteq> A \<and> a \<le> length ws \<and> below (length ws) b" by blast
  with vs show "\<exists>wss. w = concat (concat wss) \<and> (\<forall>ws \<in> set wss. set ws \<subseteq> A \<and> a \<le> length ws \<and> below (length ws) b) \<and>
      lo \<le> length wss \<and> below (length wss) hi"
    by (intro exI[of _ wss]) (auto simp: concat_concat)
next
  assume "\<exists>wss. w = concat (concat wss) \<and> (\<forall>ws \<in> set wss. set ws \<subseteq> A \<and> a \<le> length ws \<and> below (length ws) b) \<and>
      lo \<le> length wss \<and> below (length wss) hi"
  then obtain wss where wss: "w = concat (concat wss)" "\<forall>ws \<in> set wss. set ws \<subseteq> A \<and> a \<le> length ws \<and> below (length ws) b"
    "lo \<le> length wss" "below (length wss) hi" by blast
  have "concat (map concat wss) \<in> reps (reps A a b) lo hi"
    using wss by (intro repsI) (auto intro!: repsI)
  then show "w \<in> reps (reps A a b) lo hi" using wss(1) by (simp add: concat_concat)
qed

lemma reps_into:
  assumes "w \<in> reps (reps A a b) lo hi"
  shows "w \<in> reps A (a * lo) (times_hi b hi)"
proof -
  from assms obtain wss where wss: "w = concat (concat wss)" "\<forall>ws \<in> set wss. set ws \<subseteq> A \<and> a \<le> length ws \<and> below (length ws) b"
    "lo \<le> length wss" "below (length wss) hi" unfolding reps_groups by blast
  have l: "a * length wss \<le> length (concat wss)" "below (length (concat wss)) (times_hi b (Some (length wss)))"
    using concat_lengths[of wss a b] wss(2) by auto
  have "a * lo \<le> length (concat wss)" using l(1) wss(3) mult_le_mono2[of lo "length wss" a] by linarith
  moreover have "below (length (concat wss)) (times_hi b hi)"
    using l(2) wss(4) by (cases b; cases hi) (auto intro: order_trans mult_le_mono2)
  moreover have "set (concat wss) \<subseteq> A" using wss(2) by fastforce
  ultimately show ?thesis using wss(1) by (auto intro!: repsI)
qed

text \<open>The two cases in which \<open>repeat\<close> multiplies the intervals.\<close>
lemma reps_reps:
  assumes "(hi = Some lo \<and> 0 < lo) \<or> a = 0" "\<And>h. b = Some h \<Longrightarrow> a \<le> h \<and> 0 < h" "\<And>h. hi = Some h \<Longrightarrow> lo \<le> h \<and> 0 < h"
  shows "reps (reps A a b) lo hi = reps A (a * lo) (times_hi b hi)"
proof (intro equalityI subsetI)
  fix w assume "w \<in> reps A (a * lo) (times_hi b hi)"
  then obtain ws where ws: "w = concat ws" "set ws \<subseteq> A" "a * lo \<le> length ws" "below (length ws) (times_hi b hi)" by (rule repsE)
  define n where "n = length ws"
  have "\<exists>k h. lo \<le> k \<and> below k hi \<and> a * k \<le> n \<and> n \<le> h * k \<and> (\<forall>m \<le> h. a \<le> m \<longrightarrow> below m b)"
  proof (cases "hi = Some lo \<and> 0 < lo")
    case True
    show ?thesis
    proof (cases b)
      case None
      have "n \<le> n * lo" using True by (cases lo) auto
      then show ?thesis using True None ws n_def by (intro exI[of _ lo] exI[of _ n]) auto
    next
      case (Some h)
      then show ?thesis using True ws n_def by (intro exI[of _ lo] exI[of _ h]) auto
    qed
  next
    case False
    then have a: "a = 0" using assms(1) by blast
    show ?thesis
    proof (cases b)
      case None
      define k where "k = max 1 lo"
      have "n \<le> n * k" by (simp add: k_def)
      moreover have "below k hi" using assms(3) by (cases hi) (auto simp: k_def)
      ultimately show ?thesis using a None by (intro exI[of _ k] exI[of _ n]) (auto simp: k_def)
    next
      case (Some h)
      show ?thesis
      proof (cases hi)
        case None
        have "1 \<le> h" using assms(2)[OF Some] by simp
        from mult_le_mono[OF this, of n "max lo n"] have "n \<le> h * max lo n" by simp
        then show ?thesis using a Some None by (intro exI[of _ "max lo n"] exI[of _ h]) auto
      next
        case (Some g)
        then show ?thesis
          using a \<open>b = Some h\<close> ws(4) assms(3)[OF Some] n_def by (intro exI[of _ g] exI[of _ h]) auto
      qed
    qed
  qed
  then obtain k h where k: "lo \<le> k" "below k hi" "a * k \<le> n" "n \<le> h * k" "\<forall>m \<le> h. a \<le> m \<longrightarrow> below m b" by blast
  from concat_split[OF k(3,4), of ws] n_def obtain wss where
    wss: "ws = concat wss" "length wss = k" "\<forall>v \<in> set wss. a \<le> length v \<and> length v \<le> h" by auto
  then show "w \<in> reps (reps A a b) lo hi"
    unfolding reps_groups using ws k by (intro exI[of _ wss]) auto
qed (rule reps_into)

subsection \<open>The table\<close>

text \<open>A node whose children come before index \<open>k\<close>, with the bounds that \<open>Restore\<close> asks for.\<close>
definition knode :: "node_data list \<Rightarrow> nat \<Rightarrow> node_data \<Rightarrow> bool" where
  "knode ns k n \<longleftrightarrow>
     (case nOp n of
        OpAlternate \<Rightarrow> (\<exists>a b. nChildren n = [a, b] \<and> a < k \<and> b < k)
      | OpConcat \<Rightarrow> (\<exists>a b. nChildren n = [a, b] \<and> a < k \<and> b < k)
      | OpRepeat \<Rightarrow> (\<exists>a. nChildren n = [a] \<and> a < k \<and> [] \<notin> plangs ns a) \<and> canonicalDecimal (nMin n) \<and>
          (if nUnbounded n then nMax n = []
           else canonicalDecimal (nMax n) \<and> nat_of_dec (nMin n) \<le> nat_of_dec (nMax n) \<and> 0 < nat_of_dec (nMax n))
      | OpUnknown _ \<Rightarrow> False
      | _ \<Rightarrow> True)"

definition nodelang :: "node_data list \<Rightarrow> node_data \<Rightarrow> rune lang" where
  "nodelang ns n =
     (case nOp n of
        OpEmpty \<Rightarrow> {}
      | OpEpsilon \<Rightarrow> {[]}
      | OpClass \<Rightarrow> {[c] | c. in_ranges (nRanges n) c}
      | OpAlternate \<Rightarrow> plangs ns (nChildren n ! 0) \<union> plangs ns (nChildren n ! 1)
      | OpConcat \<Rightarrow> conc (plangs ns (nChildren n ! 0)) (plangs ns (nChildren n ! 1))
      | OpRepeat \<Rightarrow> reps (plangs ns (nChildren n ! 0)) (nat_of_dec (nMin n)) (repeat_hi n)
      | OpUnknown _ \<Rightarrow> {})"

definition ktable :: "node_data list \<Rightarrow> bool" where
  "ktable ns \<longleftrightarrow> (\<forall>i < length ns. knode ns i (ns ! i))"

lemma plangs_nodelang: "knode ns k (ns ! i) \<Longrightarrow> plangs ns i = nodelang ns (ns ! i)"
  by (cases "nOp (ns ! i)") (auto simp: knode_def nodelang_def plangs_node)

lemma plangs_prefix:
  assumes "ktable ns"
  shows "i < length ns \<Longrightarrow> plangs (ns @ ms) i = plangs ns i"
proof (induction i rule: less_induct)
  case (less i)
  have n: "(ns @ ms) ! i = ns ! i" and k: "knode ns i (ns ! i)" using less assms by (auto simp: nth_append ktable_def)
  have IH: "plangs (ns @ ms) j = plangs ns j" if "j < i" for j using less that by simp
  show ?case
  proof (cases "nOp (ns ! i)")
    case OpEmpty
    then show ?thesis using n by (simp add: plangs_empty)
  next
    case OpEpsilon
    then show ?thesis using n by (simp add: plangs_epsilon)
  next
    case OpClass
    then show ?thesis using n by (simp add: plangs_class)
  next
    case OpAlternate
    then obtain a b where ab: "nChildren (ns ! i) = [a, b]" "a < i" "b < i" using k by (auto simp: knode_def)
    have "plangs (ns @ ms) i = plangs (ns @ ms) a \<union> plangs (ns @ ms) b"
      by (rule plangs_alternate) (simp_all add: n OpAlternate ab(1))
    then show ?thesis using IH ab plangs_alternate[OF OpAlternate ab(1)] by simp
  next
    case OpConcat
    then obtain a b where ab: "nChildren (ns ! i) = [a, b]" "a < i" "b < i" using k by (auto simp: knode_def)
    have "plangs (ns @ ms) i = conc (plangs (ns @ ms) a) (plangs (ns @ ms) b)"
      by (rule plangs_concat) (simp_all add: n OpConcat ab(1))
    then show ?thesis using IH ab plangs_concat[OF OpConcat ab(1)] by simp
  next
    case OpRepeat
    then obtain a where a: "nChildren (ns ! i) = [a]" "a < i" using k by (auto simp: knode_def)
    have "plangs (ns @ ms) i = reps (plangs (ns @ ms) a) (nat_of_dec (nMin ((ns @ ms) ! i))) (repeat_hi ((ns @ ms) ! i))"
      by (rule plangs_repeat) (simp_all add: n OpRepeat a(1))
    then show ?thesis using IH a n plangs_repeat[OF OpRepeat a(1)] by simp
  next
    case (OpUnknown u)
    then show ?thesis using k by (simp add: knode_def)
  qed
qed

lemma knode_prefix: "ktable ns \<Longrightarrow> k \<le> length ns \<Longrightarrow> knode (ns @ ms) k n = knode ns k n"
proof -
  assume a: "ktable ns" "k \<le> length ns"
  then have "plangs (ns @ ms) j = plangs ns j" if "j < k" for j using plangs_prefix[OF a(1), of j ms] that by simp
  then show ?thesis by (auto simp: knode_def split: pop.splits)
qed

lemma ktable_snoc: "ktable ns \<Longrightarrow> knode ns (length ns) n \<Longrightarrow> ktable (ns @ [n])"
  by (auto simp: ktable_def nth_append less_Suc_eq knode_prefix)

definition kinv :: "compiler \<Rightarrow> bool" where
  "kinv c \<longleftrightarrow>
     length (kNullable c) = length (kNodes c) \<and> 2 \<le> length (kNodes c) \<and> ktable (kNodes c) \<and>
     kNodes c ! 0 = node0 \<and> kNodes c ! 1 = node0\<lparr>nOp := OpEpsilon\<rparr> \<and>
     (\<forall>i < length (kNodes c). kNullable c ! i \<longleftrightarrow> [] \<in> plangs (kNodes c) i) \<and>
     (\<forall>n i. kIntern c n = Some i \<longrightarrow> i < length (kNodes c) \<and> kNodes c ! i = n)"

definition kfailed :: "compiler \<Rightarrow> bool" where
  "kfailed c \<longleftrightarrow> kErr c \<noteq> None \<or> kbErr c \<noteq> None"

definition kext :: "compiler \<Rightarrow> compiler \<Rightarrow> bool" where
  "kext c d \<longleftrightarrow> (\<exists>ms. kNodes d = kNodes c @ ms)"

definition kvalid :: "compiler \<Rightarrow> nat \<Rightarrow> bool" where
  "kvalid c i \<longleftrightarrow> i < length (kNodes c)"

definition klang :: "compiler \<Rightarrow> nat \<Rightarrow> rune lang" where
  "klang c i = plangs (kNodes c) i"

interpretation kc: node_store kinv kfailed kext kvalid klang
proof unfold_locales
  show "kext s s" for s by (simp add: kext_def)
  show "kext s t \<Longrightarrow> kext t u \<Longrightarrow> kext s u" for s t u by (auto simp: kext_def)
  show "kinv s \<Longrightarrow> kext s t \<Longrightarrow> kvalid s i \<Longrightarrow> kvalid t i" for s t i by (auto simp: kext_def kvalid_def)
  show "kinv s \<Longrightarrow> kext s t \<Longrightarrow> kvalid s i \<Longrightarrow> klang t i = klang s i" for s t i
    by (auto simp: kext_def kvalid_def klang_def kinv_def plangs_prefix)
qed

lemma kinv_special: "kinv c \<Longrightarrow> kvalid c 0 \<and> klang c 0 = {} \<and> kvalid c 1 \<and> klang c 1 = {[]}"
  by (auto simp: kinv_def kvalid_def klang_def plangs_empty plangs_epsilon node0_def)

lemma kinv_nullable: "kinv c \<Longrightarrow> kvalid c i \<Longrightarrow> kNullable c ! i \<longleftrightarrow> [] \<in> klang c i"
  by (auto simp: kinv_def kvalid_def klang_def)

lemma kinv_node: "kinv c \<Longrightarrow> kvalid c i \<Longrightarrow> knode (kNodes c) i (kNodes c ! i) \<and> klang c i = nodelang (kNodes c) (kNodes c ! i)"
  by (auto simp: kinv_def kvalid_def klang_def ktable_def plangs_nodelang)

subsection \<open>Charging\<close>

text \<open>What an operation on the table leaves alone.\<close>
definition kframe :: "compiler \<Rightarrow> compiler \<Rightarrow> bool" where
  "kframe c d \<longleftrightarrow> kSource d = kSource c \<and> kPos d = kPos c \<and> kLimits d = kLimits c \<and> kAtoms d = kAtoms c \<and> kErr d = kErr c \<and>
     (kbErr c \<noteq> None \<longrightarrow> kbErr d \<noteq> None)"

lemma kframe_refl [simp]: "kframe c c" by (simp add: kframe_def)

lemma kframe_trans: "kframe c d \<Longrightarrow> kframe d e \<Longrightarrow> kframe c e" by (auto simp: kframe_def)

lemma kframe_failed: "kframe c d \<Longrightarrow> kfailed c \<Longrightarrow> kfailed d" by (auto simp: kframe_def kfailed_def)

lemma kcharge_step:
  assumes "kcharge b w c = (ok, d)"
  shows "d = c\<lparr>kLedger := kLedger d\<rparr>" "ok \<longleftrightarrow> kbErr d = None" "kbErr c \<noteq> None \<Longrightarrow> kbErr d \<noteq> None" "kframe c d"
proof -
  from assms obtain l where l: "charge b w (kLedger c) = (ok, l)" "d = c\<lparr>kLedger := l\<rparr>"
    by (auto simp: kcharge_def split: prod.splits)
  then show "d = c\<lparr>kLedger := kLedger d\<rparr>" "ok \<longleftrightarrow> kbErr d = None" by (auto dest: charge_ok_iff)
  show s: "kbErr c \<noteq> None \<Longrightarrow> kbErr d \<noteq> None" using l charge_sticky[of "kLedger c" b w] by auto
  show "kframe c d" using l(2) s by (auto simp: kframe_def)
qed

lemma kledger_only: "d = c\<lparr>kLedger := l\<rparr> \<Longrightarrow> (kinv d \<longleftrightarrow> kinv c) \<and> kext c d \<and> klang d = klang c \<and> kvalid d = kvalid c"
  by (auto simp: kinv_def kext_def klang_def kvalid_def fun_eq_iff)

lemma tick_step:
  assumes "tick c = (ok, d)"
  shows "d = c\<lparr>kLedger := kLedger d\<rparr>" "ok \<longleftrightarrow> \<not> kfailed d" "kfailed c \<Longrightarrow> kfailed d" "kframe c d"
  using assms kcharge_step[of 0 1 c ok d] by (auto simp: tick_def kfailed_def kframe_def split: if_splits)

lemma tick_failed: "kfailed c \<Longrightarrow> \<exists>d. tick c = (False, d) \<and> kfailed d \<and> kframe c d"
  using tick_step[of c] by (cases "tick c") auto

lemma kabort_failed [simp]: "kfailed (kabort e c)" "kframe c (kabort e c)"
  by (simp_all add: kfailed_def kabort_def kframe_def)

subsection \<open>Interning\<close>

lemma put_nullable_exact:
  assumes "kinv c" "knode (kNodes c) (length (kNodes c)) n"
  shows "put_nullable c n \<longleftrightarrow> [] \<in> nodelang (kNodes c) n"
proof (cases "nOp n")
  case OpRepeat
  then obtain a where a: "nChildren n = [a]" "[] \<notin> plangs (kNodes c) a" and m: "canonicalDecimal (nMin n)"
    using assms(2) by (auto simp: knode_def)
  then show ?thesis
    using OpRepeat canonicalDecimal_zero[OF m] Nil_in_reps[OF a(2)] by (simp add: put_nullable_def nodelang_def)
qed (use assms in \<open>auto simp: put_nullable_def nodelang_def knode_def kinv_def\<close>)

lemma kput_denotes:
  assumes inv: "kinv c" and n: "knode (kNodes c) (length (kNodes c)) n"
  shows "kc.denotes c (nodelang (kNodes c) n) (kput n c)"
proof -
  obtain ok c1 where t: "tick c = (ok, c1)" by fastforce
  show ?thesis
  proof (cases ok)
    case False
    with t tick_step(2)[OF t] show ?thesis by (simp add: kput_def kc.denotes_failed)
  next
    case True
    note s1 = tick_step[OF t]
    let ?size = "of_nat (512 + length (nChildren n) * 32 + length (nRanges n) * 128 + 4 * text_size n) :: u64"
    let ?work = "of_nat (length (nChildren n) + length (nRanges n) + text_size n) :: u64"
    obtain ok2 c2 where t2: "kcharge ?size ?work c1 = (ok2, c2)" by fastforce
    note s2 = kcharge_step[OF t2]
    show ?thesis
    proof (cases ok2)
      case False
      with s2(2) have "kfailed c2" by (auto simp: kfailed_def)
      with t t2 True False show ?thesis by (simp add: kput_def kc.denotes_failed)
    next
      case ok2: True
      have c2: "c2 = c\<lparr>kLedger := kLedger c2\<rparr>" using s1(1) s2(1) by (metis compiler.surjective compiler.update_convs(4))
      have nf: "\<not> kfailed c" using s1(2,3) True by blast
      have inv2: "kinv c2" and ext: "kext c c2" using kledger_only[OF c2] inv by auto
      have nodes: "kNodes c2 = kNodes c" "kIntern c2 = kIntern c" by (subst c2, simp)+
      show ?thesis
      proof (cases "kIntern c2 n")
        case (Some i)
        then have i: "i < length (kNodes c)" "kNodes c ! i = n" using inv2 nodes by (auto simp: kinv_def)
        have "kput n c = (i, c2)" using t t2 True ok2 Some by (simp add: kput_def)
        moreover have "kc.denotes c (nodelang (kNodes c) n) (i, c2)"
          unfolding kc.denotes_def using i nf inv2 ext kinv_node[OF inv, of i] nodes
          by (intro kc.yieldsI) (auto simp: kvalid_def klang_def)
        ultimately show ?thesis by simp
      next
        case None
        define c3 where "c3 = c2\<lparr>kEdges := kEdges c2 + len64 (nChildren n), kDigits := kDigits c2 + of_nat (text_size n),
            kRanges := kRanges c2 + len64 (nRanges n)\<rparr>"
        have put: "kput n c = (case node_limits c3 of
             Some e \<Rightarrow> (0, kabort e c3)
           | None \<Rightarrow>
               if length (kNodes c3) > 2 ^ 32 - 1
               then (0, kabort (ResourceError ''compile'' ''normalize'' ''node indexes'' (2 ^ 32 - 1) (of_nat (length (kNodes c3)))) c3)
               else let i = length (kNodes c3) in
                 (i, c3\<lparr>kNodes := kNodes c3 @ [n], kNullable := kNullable c3 @ [put_nullable c3 n],
                        kIntern := (kIntern c3)(n \<mapsto> i)\<rparr>))"
          using t t2 True ok2 None unfolding kput_def c3_def Let_def by (simp only: prod.case bool.case option.case)
        show ?thesis
        proof (cases "node_limits c3 \<noteq> None \<or> length (kNodes c3) > 2 ^ 32 - 1")
          case True
          then show ?thesis unfolding put by (auto simp: kc.denotes_failed split: option.splits)
        next
          case False
          let ?i = "length (kNodes c)"
          define d where "d = c3\<lparr>kNodes := kNodes c3 @ [n], kNullable := kNullable c3 @ [put_nullable c3 n],
                        kIntern := (kIntern c3)(n \<mapsto> ?i)\<rparr>"
          have c3: "kNodes c3 = kNodes c" "kNullable c3 = kNullable c" "kIntern c3 = kIntern c"
            by (simp_all add: c3_def nodes) (subst c2, simp)
          have d: "kNodes d = kNodes c @ [n]" "kNullable d = kNullable c @ [put_nullable c n]" "kIntern d = (kIntern c)(n \<mapsto> ?i)"
            using c3 by (simp_all add: d_def put_nullable_def)
          have tab: "ktable (kNodes c @ [n])" using inv n by (auto simp: kinv_def ktable_snoc)
          have old: "plangs (kNodes c @ [n]) j = plangs (kNodes c) j" if "j < ?i" for j
            using inv that by (auto simp: kinv_def plangs_prefix)
          have kn: "knode (kNodes c @ [n]) ?i n" using inv n by (simp add: kinv_def knode_prefix)
          have new: "plangs (kNodes c @ [n]) ?i = nodelang (kNodes c) n"
          proof -
            have "plangs (kNodes c @ [n]) ?i = nodelang (kNodes c @ [n]) n"
              using plangs_nodelang[of "kNodes c @ [n]" ?i ?i] kn by simp
            also have "\<dots> = nodelang (kNodes c) n"
              using n old by (auto simp: nodelang_def knode_def split: pop.splits)
            finally show ?thesis .
          qed
          have "kinv d"
            unfolding kinv_def d using inv tab new put_nullable_exact[OF inv n]
            by (auto simp: kinv_def nth_append less_Suc_eq old)
          moreover have "kext c d" by (simp add: kext_def d)
          moreover have "kput n c = (?i, d)"
          proof -
            have l: "node_limits c3 = None" "(length (kNodes c) > 2 ^ 32 - 1) = False" using False c3(1) by auto
            show ?thesis unfolding put l(1) option.case Let_def c3(1) l(2) if_False d_def by (rule refl)
          qed
          moreover have "kvalid d ?i \<and> klang d ?i = nodelang (kNodes c) n" using new by (simp add: kvalid_def klang_def d)
          ultimately have "kc.denotes c (nodelang (kNodes c) n) (?i, d)"
            unfolding kc.denotes_def using nf by (intro kc.yieldsI) blast
          then show ?thesis unfolding \<open>kput n c = (?i, d)\<close> .
        qed
      qed
    qed
  qed
qed

subsection \<open>Choice and sequence\<close>

lemma kput_frame: "kframe c (snd (kput n c))"
proof -
  obtain ok c1 where t: "tick c = (ok, c1)" by fastforce
  note f1 = tick_step(4)[OF t]
  obtain ok2 c2 where t2: "kcharge (of_nat (512 + length (nChildren n) * 32 + length (nRanges n) * 128 + 4 * text_size n))
      (of_nat (length (nChildren n) + length (nRanges n) + text_size n)) c1 = (ok2, c2)" by fastforce
  note f2 = kframe_trans[OF f1 kcharge_step(4)[OF t2]]
  let ?c3 = "c2\<lparr>kEdges := kEdges c2 + len64 (nChildren n), kDigits := kDigits c2 + of_nat (text_size n),
      kRanges := kRanges c2 + len64 (nRanges n)\<rparr>"
  have f3: "kframe c ?c3" using f2 by (simp add: kframe_def)
  then have f4: "kframe c (kabort e ?c3)" for e by (simp add: kframe_def kabort_def)
  from f3 have f5: "kframe c (?c3\<lparr>kNodes := a, kNullable := b, kIntern := h\<rparr>)" for a b h by (simp add: kframe_def)
  show ?thesis
    unfolding kput_def t prod.case
    using f1 f2 f4 f5
    by (cases ok; cases ok2; cases "kIntern c2 n"; cases "node_limits ?c3") (simp_all only: t2 prod.case bool.case option.case Let_def snd_conv split: if_splits, simp_all)
qed

lemma binary_frame: "kframe c (snd (binary op a b c))"
  by (simp add: binary_def kput_frame Let_def split: prod.splits)

lemma binary_alternate:
  assumes "kinv c" "kvalid c a" "kvalid c b"
  shows "kc.denotes c (klang c a \<union> klang c b) (binary OpAlternate a b c)"
proof -
  note sp = kinv_special[OF assms(1)]
  consider "a = 0 \<or> a = b" | "a \<noteq> 0" "a \<noteq> b" "b = 0" | "a \<noteq> 0" "b \<noteq> 0" "a \<noteq> b" by blast
  then show ?thesis
  proof cases
    case 1
    then have "klang c b = klang c a \<union> klang c b" using sp by auto
    then show ?thesis using 1 kc.denotes_same[OF assms(1,3)] by (simp add: binary_def)
  next
    case 2
    then have "klang c a = klang c a \<union> klang c b" using sp by auto
    then show ?thesis using 2 kc.denotes_same[OF assms(1,2)] by (simp add: binary_def)
  next
    case 3
    define x y where "x = min a b" "y = max a b"
    let ?n = "node0\<lparr>nOp := OpAlternate, nChildren := [x, y]\<rparr>"
    have "knode (kNodes c) (length (kNodes c)) ?n" using assms(2,3) by (simp add: knode_def kvalid_def x_y_def)
    from kput_denotes[OF assms(1) this]
    have "kc.denotes c (klang c x \<union> klang c y) (kput ?n c)" by (simp add: nodelang_def klang_def)
    moreover have "klang c x \<union> klang c y = klang c a \<union> klang c b" by (auto simp: x_y_def min_def max_def)
    moreover have "binary OpAlternate a b c = kput ?n c" using 3 by (auto simp: binary_def x_y_def Let_def min_def max_def)
    ultimately show ?thesis by simp
  qed
qed

lemma binary_concat:
  assumes "kinv c" "kvalid c a" "kvalid c b"
  shows "kc.denotes c (conc (klang c a) (klang c b)) (binary OpConcat a b c)"
proof -
  note sp = kinv_special[OF assms(1)]
  consider "a = 0 \<or> b = 0" | "a = 1" "b \<noteq> 0" | "a \<noteq> 0" "a \<noteq> 1" "b = 1" | "a \<noteq> 0" "b \<noteq> 0" "a \<noteq> 1" "b \<noteq> 1" by linarith
  then show ?thesis
  proof cases
    case 1
    then have "klang c 0 = conc (klang c a) (klang c b)" using sp by auto
    then show ?thesis using 1 sp kc.denotes_same[OF assms(1)] by (auto simp: binary_def)
  next
    case 2
    then have "klang c b = conc (klang c a) (klang c b)" using sp by auto
    then show ?thesis using 2 kc.denotes_same[OF assms(1,3)] by (simp add: binary_def)
  next
    case 3
    then have "klang c a = conc (klang c a) (klang c b)" using sp by auto
    then show ?thesis using 3 kc.denotes_same[OF assms(1,2)] by (simp add: binary_def)
  next
    case 4
    let ?n = "node0\<lparr>nOp := OpConcat, nChildren := [a, b]\<rparr>"
    have "knode (kNodes c) (length (kNodes c)) ?n" using assms(2,3) by (simp add: knode_def kvalid_def)
    from kput_denotes[OF assms(1) this]
    have "kc.denotes c (conc (klang c a) (klang c b)) (kput ?n c)" by (simp add: nodelang_def klang_def)
    then show ?thesis using 4 by (simp add: binary_def)
  qed
qed

subsection \<open>Repetitions\<close>

lemma canonical_dec: "canonicalDecimal (dec_of_nat n)"
proof -
  have "hd (dec_of_nat n) \<noteq> CHR ''0''" if "length (dec_of_nat n) > 1"
  proof
    assume "hd (dec_of_nat n) = CHR ''0''"
    then have "n = 0" by (simp add: hd_dec_of_nat)
    with that show False by (simp add: dec_of_nat.simps)
  qed
  then show ?thesis
    using dec_of_nat_digits[of n] by (cases "dec_of_nat n") (auto simp: canonicalDecimal_def list_all_iff)
qed

lemma nat_of_dec_chars: "nat_of_dec ''0'' = 0" "nat_of_dec ''1'' = 1"
  by (simp_all add: digit_val_def)

lemma canonical_chars: "canonicalDecimal ''0''" "canonicalDecimal ''1''"
  by (simp_all add: canonicalDecimal_def is_digit_def)

lemma ledger_again: "d = c\<lparr>kLedger := kLedger d\<rparr> \<Longrightarrow> d\<lparr>kLedger := l\<rparr> = c\<lparr>kLedger := l\<rparr>"
  by (cases c; cases d) simp

lemma multiply_step:
  assumes "multiply a b c = (s, d)"
  shows "d = c\<lparr>kLedger := kLedger d\<rparr>" "kframe c d" "kbErr d = None \<Longrightarrow> s = dec_of_nat (nat_of_dec a * nat_of_dec b)"
proof -
  obtain ok c1 where t: "kcharge (of_nat (length a + length b) * 4) (mulSat (len64 a) (len64 b)) c = (ok, c1)" by fastforce
  note st = kcharge_step[OF t]
  have "d = c1 \<or> (\<exists>e. d = kabort e c1)" "kbErr d = None \<Longrightarrow> s = dec_of_nat (nat_of_dec a * nat_of_dec b)"
    using assms t st(2) by (auto simp: multiply_def kabort_def split: bool.splits option.splits)
  then show "kbErr d = None \<Longrightarrow> s = dec_of_nat (nat_of_dec a * nat_of_dec b)" "kframe c d"
    using st(4) by (auto simp: kframe_def kabort_def)
  show "d = c\<lparr>kLedger := kLedger d\<rparr>"
    using \<open>d = c1 \<or> (\<exists>e. d = kabort e c1)\<close> st(1) ledger_again[OF st(1)] by (auto simp: kabort_def)
qed

definition hi_of :: "string \<Rightarrow> bool \<Rightarrow> nat option" where
  "hi_of hi unb = (if unb then None else Some (nat_of_dec hi))"

definition bounds_fine :: "string \<Rightarrow> string \<Rightarrow> bool \<Rightarrow> bool" where
  "bounds_fine lo hi unb \<longleftrightarrow> canonicalDecimal lo \<and>
     (if unb then hi = [] else canonicalDecimal hi \<and> nat_of_dec lo \<le> nat_of_dec hi)"

lemma scaled_step:
  assumes "scaled n lo hi unb c = ((low, up, both), d)"
  shows "d = c\<lparr>kLedger := kLedger d\<rparr>" "kframe c d"
    "kbErr d = None \<Longrightarrow> low = dec_of_nat (nat_of_dec (nMin n) * nat_of_dec lo) \<and> both = (nUnbounded n \<or> unb) \<and>
       up = (if both then [] else dec_of_nat (nat_of_dec (nMax n) * nat_of_dec hi))"
proof -
  obtain s1 c1 where m1: "multiply (nMin n) lo c = (s1, c1)" by fastforce
  obtain s2 c2 where m2: "multiply (nMax n) hi c1 = (s2, c2)" by fastforce
  note st1 = multiply_step[OF m1] and st2 = multiply_step[OF m2]
  have b: "both = (nUnbounded n \<or> unb)" using assms by (auto simp: scaled_def Let_def split: prod.splits if_splits)
  have e: "low = s1" "up = (if both then [] else s2)" "d = (if both then c1 else c2)"
    using assms m1 m2 by (auto simp: scaled_def Let_def split: prod.splits if_splits)
  show "kframe c d" using e(3) st1(2) st2(2) kframe_trans by auto
  show "d = c\<lparr>kLedger := kLedger d\<rparr>"
  proof (cases both)
    case False
    have "c2 = c\<lparr>kLedger := kLedger c2\<rparr>"
      using st1(1) st2(1) by (metis compiler.surjective compiler.update_convs(4))
    with False e(3) show ?thesis by simp
  qed (use e(3) st1(1) in simp)
  show "low = dec_of_nat (nat_of_dec (nMin n) * nat_of_dec lo) \<and> both = (nUnbounded n \<or> unb) \<and>
       up = (if both then [] else dec_of_nat (nat_of_dec (nMax n) * nat_of_dec hi))" if "kbErr d = None"
  proof -
    have "kbErr c1 = None" using that e(3) st2(2) by (auto simp: kframe_def split: if_splits)
    then have "s1 = dec_of_nat (nat_of_dec (nMin n) * nat_of_dec lo)" by (rule st1(3))
    moreover have "\<not> both \<Longrightarrow> s2 = dec_of_nat (nat_of_dec (nMax n) * nat_of_dec hi)" using st2(3) that e(3) by simp
    ultimately show ?thesis using e b by simp
  qed
qed

lemma put_repeat_denotes:
  assumes "kinv c" "kvalid c i" "[] \<notin> klang c i" "bounds_fine lo hi unb" "hi_of hi unb \<noteq> Some 0" "i = 0 \<Longrightarrow> lo = ''0''"
  shows "kc.denotes c (reps (klang c i) (nat_of_dec lo) (hi_of hi unb)) (put_repeat i lo hi unb c)"
proof -
  note sp = kinv_special[OF assms(1)]
  consider "i = 0" | "i \<noteq> 0" "lo = ''1''" "hi = ''1''" "\<not> unb" | "i \<noteq> 0" "\<not> (lo = ''1'' \<and> hi = ''1'' \<and> \<not> unb)" by blast
  then show ?thesis
  proof cases
    case 1
    then have "klang c 1 = reps (klang c i) (nat_of_dec lo) (hi_of hi unb)"
      using sp assms(6) by (simp add: reps_empty digit_val_def)
    then show ?thesis using 1 sp kc.denotes_same[OF assms(1)] by (simp add: put_repeat_def)
  next
    case 2
    then have "klang c i = reps (klang c i) (nat_of_dec lo) (hi_of hi unb)"
      by (simp add: hi_of_def digit_val_def)
    then show ?thesis using 2 kc.denotes_same[OF assms(1,2)] by (simp add: put_repeat_def)
  next
    case 3
    let ?n = "node0\<lparr>nOp := OpRepeat, nChildren := [i], nMin := lo, nMax := hi, nUnbounded := unb\<rparr>"
    have "knode (kNodes c) (length (kNodes c)) ?n"
      using assms by (auto simp: knode_def kvalid_def klang_def bounds_fine_def hi_of_def split: if_splits)
    from kput_denotes[OF assms(1) this]
    have "kc.denotes c (reps (klang c i) (nat_of_dec lo) (hi_of hi unb)) (kput ?n c)"
      by (cases unb) (simp_all add: nodelang_def klang_def hi_of_def repeat_hi_def)
    moreover have "put_repeat i lo hi unb c = kput ?n c" using 3 by (auto simp: put_repeat_def)
    ultimately show ?thesis by simp
  qed
qed

lemma put_repeat_frame: "kframe c (snd (put_repeat i lo hi unb c))"
  by (simp add: put_repeat_def kput_frame)

text \<open>What a call of \<open>nonempty\<close> or \<open>repeat\<close> needs and promises.\<close>

fun call_ok :: "compiler \<Rightarrow> norm_call \<Rightarrow> bool" where
  "call_ok c (Nonempty i) \<longleftrightarrow> kvalid c i"
| "call_ok c (Repeat i lo hi unb) \<longleftrightarrow> kvalid c i \<and> bounds_fine lo hi unb"

fun call_lang :: "compiler \<Rightarrow> norm_call \<Rightarrow> rune lang" where
  "call_lang c (Nonempty i) = klang c i - {[]}"
| "call_lang c (Repeat i lo hi unb) = reps (klang c i) (nat_of_dec lo) (hi_of hi unb)"

fun call_size :: "norm_call \<Rightarrow> nat" where
  "call_size (Nonempty i) = 2 * i"
| "call_size (Repeat i lo hi unb) = 2 * i + 1"

text \<open>
  An operation that returns, leaves the rest of the compiler alone, and from a compiler that has
  not failed denotes \<open>L\<close>.
\<close>
definition runs :: "compiler \<Rightarrow> rune lang \<Rightarrow> (nat \<times> compiler) option \<Rightarrow> bool" where
  "runs c L res \<longleftrightarrow> (\<exists>r. res = Some r \<and> kframe c (snd r) \<and> (\<not> kfailed c \<longrightarrow> kc.denotes c L r))"

abbreviation norm_good :: "norm_call \<Rightarrow> compiler \<Rightarrow> bool" where
  "norm_good call c \<equiv> runs c (call_lang c call) (norm call c)"

lemma denotes_failed_state: "kfailed (snd r) \<Longrightarrow> kc.denotes c L r"
  by (cases r) (simp add: kc.denotes_failed)

lemma denotes_from: "\<not> kfailed c \<Longrightarrow> kext c d \<Longrightarrow> kc.denotes d L r \<Longrightarrow> kc.denotes c L r"
  by (cases r) (auto simp: kc.denotes_def kc.yields_def intro: kc.ext_trans)

lemma runs_pure: "kframe c (snd r) \<Longrightarrow> (\<not> kfailed c \<Longrightarrow> kc.denotes c L r) \<Longrightarrow> runs c L (Some r)"
  by (simp add: runs_def)

lemma runsE:
  assumes "runs c L res"
  obtains x d where "res = Some (x, d)" "kframe c d" "\<not> kfailed d \<Longrightarrow> \<not> kfailed c"
    "\<not> kfailed d \<Longrightarrow> kinv d \<and> kext c d \<and> kvalid d x \<and> klang d x = L"
proof -
  from assms obtain x d where r: "res = Some (x, d)" "kframe c d" "\<not> kfailed c \<longrightarrow> kc.denotes c L (x, d)"
    by (auto simp: runs_def)
  have nf: "\<not> kfailed c" if "\<not> kfailed d" using that r(2) kframe_failed by blast
  moreover have "kinv d \<and> kext c d \<and> kvalid d x \<and> klang d x = L" if "\<not> kfailed d"
    using r(3) nf[OF that] kc.denotesD[OF _ that, of c L x] by simp
  ultimately show thesis using that r(1,2) by blast
qed

text \<open>One operation after another, on the state the first one leaves.\<close>
lemma runs_then:
  assumes "kframe c d" "\<not> kfailed d \<Longrightarrow> \<not> kfailed c \<Longrightarrow> kext c d" "runs d L res"
  shows "runs c L res"
proof -
  obtain r where r: "res = Some r" "kframe d (snd r)" "\<not> kfailed d \<longrightarrow> kc.denotes d L r" using assms(3) by (auto simp: runs_def)
  have "kc.denotes c L r" if "\<not> kfailed c"
  proof (cases "kfailed d")
    case True
    then show ?thesis using kframe_failed[OF r(2)] denotes_failed_state by blast
  next
    case False
    then show ?thesis using r(3) assms(2) that denotes_from by blast
  qed
  then show ?thesis using r kframe_trans[OF assms(1)] by (auto simp: runs_def)
qed

lemma runs_bind:
  assumes "runs c L res"
    and "\<And>x d. kframe c d \<Longrightarrow> (\<not> kfailed d \<Longrightarrow> \<not> kfailed c \<and> kinv d \<and> kext c d \<and> kvalid d x \<and> klang d x = L) \<Longrightarrow> runs d M (f (x, d))"
  shows "runs c M (Option.bind res f)"
proof -
  obtain x d where r: "res = Some (x, d)" "kframe c d" "\<not> kfailed d \<Longrightarrow> \<not> kfailed c"
    "\<not> kfailed d \<Longrightarrow> kinv d \<and> kext c d \<and> kvalid d x \<and> klang d x = L" using runsE[OF assms(1)] by blast
  have "runs d M (f (x, d))" using assms(2)[OF r(2)] r(3,4) by blast
  then have "runs c M (f (x, d))" using runs_then[OF r(2)] r(4) by blast
  with r(1) show ?thesis by simp
qed

lemma norm_failed:
  assumes "kfailed c"
  shows "norm_good call c"
proof -
  obtain d where d: "tick c = (False, d)" "kframe c d" using tick_failed[OF assms] by blast
  have "\<exists>i. norm call c = Some (i, d)"
    by (cases call; subst norm.simps) (simp_all add: d(1) Let_def)
  with d(2) assms show ?thesis by (auto simp: runs_def)
qed

lemma klang_ledger:
  assumes "d = c\<lparr>kLedger := kLedger d\<rparr>"
  shows "klang d i = klang c i" "kvalid d i = kvalid c i" "kNodes d = kNodes c" "kNullable d = kNullable c"
    "kinv d = kinv c" "kext c d"
proof -
  show "kNodes d = kNodes c" "kNullable d = kNullable c" by (subst assms, simp)+
  show "klang d i = klang c i" "kvalid d i = kvalid c i" "kinv d = kinv c" "kext c d"
    using kledger_only[OF assms] by auto
qed

lemma call_ok_later: "kinv c \<Longrightarrow> kext c d \<Longrightarrow> kvalid c i \<Longrightarrow> kvalid d i \<and> klang d i = klang c i"
  using kc.valid_ext kc.lang_ext by blast

lemma repeat_interval:
  assumes n: "knode ns k n" "nOp n = OpRepeat" and b: "bounds_fine lo hi unb" "\<not> (\<not> unb \<and> hi = ''0'')"
    and c: "(\<not> unb \<and> lo = hi) \<or> nMin n = ''0''"
    and low: "low = dec_of_nat (nat_of_dec (nMin n) * nat_of_dec lo)"
    and up: "up = (if nUnbounded n \<or> unb then [] else dec_of_nat (nat_of_dec (nMax n) * nat_of_dec hi))"
  shows "bounds_fine low up (nUnbounded n \<or> unb)"
    and "reps (reps A (nat_of_dec (nMin n)) (repeat_hi n)) (nat_of_dec lo) (hi_of hi unb) =
      reps A (nat_of_dec low) (hi_of up (nUnbounded n \<or> unb))"
proof -
  have m: "canonicalDecimal (nMin n)" "\<not> nUnbounded n \<Longrightarrow> canonicalDecimal (nMax n) \<and> nat_of_dec (nMin n) \<le> nat_of_dec (nMax n) \<and> 0 < nat_of_dec (nMax n)"
    using n by (auto simp: knode_def)
  have h: "\<not> unb \<Longrightarrow> nat_of_dec lo \<le> nat_of_dec hi \<and> 0 < nat_of_dec hi"
    using b canonicalDecimal_zero[of hi] by (auto simp: bounds_fine_def)
  show "bounds_fine low up (nUnbounded n \<or> unb)"
    using m h by (auto simp: bounds_fine_def low up canonical_dec intro: mult_le_mono)
  have "reps (reps A (nat_of_dec (nMin n)) (repeat_hi n)) (nat_of_dec lo) (hi_of hi unb) =
      reps A (nat_of_dec (nMin n) * nat_of_dec lo) (times_hi (repeat_hi n) (hi_of hi unb))"
  proof (rule reps_reps)
    show "(hi_of hi unb = Some (nat_of_dec lo) \<and> 0 < nat_of_dec lo) \<or> nat_of_dec (nMin n) = 0"
      using c h nat_of_dec_chars by (auto simp: hi_of_def)
  qed (use m h in \<open>auto simp: repeat_hi_def hi_of_def split: if_splits\<close>)
  also have "times_hi (repeat_hi n) (hi_of hi unb) = hi_of up (nUnbounded n \<or> unb)"
    by (auto simp: repeat_hi_def hi_of_def up)
  finally show "reps (reps A (nat_of_dec (nMin n)) (repeat_hi n)) (nat_of_dec lo) (hi_of hi unb) =
      reps A (nat_of_dec low) (hi_of up (nUnbounded n \<or> unb))"
    by (simp add: low)
qed

text \<open>One step of each call, once the tick is paid.\<close>

lemma norm_nonempty:
  assumes "tick c = (True, d)"
  shows "norm (Nonempty i) c =
     (if \<not> kNullable d ! i then Some (i, d)
      else let n = kNodes d ! i in
        if nOp n = OpEpsilon then Some (0, d)
        else if nOp n = OpAlternate then
          Option.bind (norm (Nonempty (nChildren n ! 0)) d) (\<lambda>(x, c).
          Option.bind (norm (Nonempty (nChildren n ! 1)) c) (\<lambda>(y, c). Some (binary OpAlternate x y c)))
        else if nOp n = OpConcat then
          Option.bind (norm (Nonempty (nChildren n ! 0)) d) (\<lambda>(x, c).
            case binary OpConcat x (nChildren n ! 1) c of (r, c) \<Rightarrow>
            if kNullable c ! (nChildren n ! 0)
            then Option.bind (norm (Nonempty (nChildren n ! 1)) c) (\<lambda>(y, c). Some (binary OpAlternate r y c))
            else Some (r, c))
        else if nOp n = OpRepeat then norm (Repeat (nChildren n ! 0) ''1'' (nMax n) (nUnbounded n)) d
        else Some (i, d))"
  by (subst norm.simps) (simp only: assms Let_def fst_conv snd_conv norm_call.case not_True_eq_False simp_thms)

lemma norm_repeat:
  assumes "tick c = (True, d)"
  shows "norm (Repeat i lo hi unb) c =
     (if (\<not> unb \<and> hi = ''0'') \<or> i = 1 then Some (1, d)
      else if i = 0 then Some (if lo = ''0'' then 1 else 0, d)
      else let n = kNodes d ! i in
        if nOp n = OpRepeat \<and> ((\<not> unb \<and> lo = hi) \<or> nMin n = ''0'') then
          (case scaled n lo hi unb d of ((low, up, both), c) \<Rightarrow> norm (Repeat (nChildren n ! 0) low up both) c)
        else if kNullable d ! i then
          Option.bind (norm (Nonempty i) d) (\<lambda>(j, c). Some (put_repeat j ''0'' hi unb c))
        else Some (put_repeat i lo hi unb d))"
  by (subst norm.simps) (simp only: assms Let_def fst_conv snd_conv norm_call.case not_True_eq_False if_False simp_thms)

subsection \<open>Removing the empty word\<close>

text \<open>
  The cases of \<open>nonempty\<close>, for a node \<open>n\<close> that accepts the empty word, given that the calls on
  its children run.
\<close>

lemma nonempty_alternate:
  assumes inv: "kinv d" and ab: "kvalid d a" "kvalid d b"
    and rec: "\<And>e i. i \<in> {a, b} \<Longrightarrow> (\<not> kfailed e \<Longrightarrow> kinv e \<and> kvalid e i) \<Longrightarrow> norm_good (Nonempty i) e"
  shows "runs d ((klang d a - {[]}) \<union> (klang d b - {[]}))
    (Option.bind (norm (Nonempty a) d) (\<lambda>(x, c). Option.bind (norm (Nonempty b) c) (\<lambda>(y, c). Some (binary OpAlternate x y c))))"
proof (rule runs_bind)
  show "norm_good (Nonempty a) d" using rec inv ab by blast
next
  fix x c assume c: "\<not> kfailed c \<Longrightarrow> \<not> kfailed d \<and> kinv c \<and> kext d c \<and> kvalid c x \<and> klang c x = call_lang d (Nonempty a)"
  have b: "kvalid c b \<and> klang c b = klang d b" if "\<not> kfailed c" using c[OF that] call_ok_later[OF inv _ ab(2)] by blast
  show "runs c ((klang d a - {[]}) \<union> (klang d b - {[]}))
    ((\<lambda>(x, c). Option.bind (norm (Nonempty b) c) (\<lambda>(y, c). Some (binary OpAlternate x y c))) (x, c))"
    unfolding prod.case
  proof (rule runs_bind)
    show "norm_good (Nonempty b) c" using rec b c by blast
  next
    fix y e assume e: "\<not> kfailed e \<Longrightarrow> \<not> kfailed c \<and> kinv e \<and> kext c e \<and> kvalid e y \<and> klang e y = call_lang c (Nonempty b)"
    show "runs e ((klang d a - {[]}) \<union> (klang d b - {[]})) ((\<lambda>(y, c). Some (binary OpAlternate x y c)) (y, e))"
      unfolding prod.case
    proof (rule runs_pure[OF binary_frame])
      assume nf: "\<not> kfailed e"
      note e = e[OF nf]
      note c = c[OF conjunct1[OF e]] and b = b[OF conjunct1[OF e]]
      have "kvalid e x \<and> klang e x = klang c x" using call_ok_later[of c e x] c e by blast
      then show "kc.denotes e ((klang d a - {[]}) \<union> (klang d b - {[]})) (binary OpAlternate x y e)"
        using binary_alternate[of e x y] c e b by simp
    qed
  qed
qed

lemma nonempty_concat:
  assumes inv: "kinv d" and ab: "kvalid d a" "kvalid d b" and nil: "[] \<in> klang d a"
    and rec: "\<And>e i. i \<in> {a, b} \<Longrightarrow> (\<not> kfailed e \<Longrightarrow> kinv e \<and> kvalid e i) \<Longrightarrow> norm_good (Nonempty i) e"
  shows "runs d (conc (klang d a - {[]}) (klang d b) \<union> (klang d b - {[]}))
    (Option.bind (norm (Nonempty a) d) (\<lambda>(x, c).
       case binary OpConcat x b c of (r, c) \<Rightarrow>
       if kNullable c ! a then Option.bind (norm (Nonempty b) c) (\<lambda>(y, c). Some (binary OpAlternate r y c))
       else Some (r, c)))"
proof (rule runs_bind)
  show "norm_good (Nonempty a) d" using rec inv ab by blast
next
  let ?A = "conc (klang d a - {[]}) (klang d b)" and ?B = "klang d b - {[]}"
  fix x c assume c: "\<not> kfailed c \<Longrightarrow> \<not> kfailed d \<and> kinv c \<and> kext d c \<and> kvalid c x \<and> klang c x = call_lang d (Nonempty a)"
  obtain r e where re: "binary OpConcat x b c = (r, e)" by fastforce
  have fr: "kframe c e" using binary_frame[of c OpConcat x b] re by simp
  have e: "\<not> kfailed d \<and> kinv e \<and> kext d e \<and> kext c e \<and> kvalid e r \<and> klang e r = ?A" if "\<not> kfailed e"
  proof -
    have nf: "\<not> kfailed c" using that kframe_failed[OF fr] by blast
    have b: "kvalid c b \<and> klang c b = klang d b" using c[OF nf] call_ok_later[OF inv _ ab(2)] by blast
    have "kc.denotes c ?A (r, e)" using binary_concat[of c x b] c[OF nf] b re by simp
    from kc.denotesD[OF this that] c[OF nf] show ?thesis using kc.ext_trans by blast
  qed
  have "runs e (?A \<union> ?B) (if kNullable e ! a then Option.bind (norm (Nonempty b) e) (\<lambda>(y, c). Some (binary OpAlternate r y c))
       else Some (r, e))"
  proof (cases "kNullable e ! a")
    case False
    have "kfailed e"
    proof (rule ccontr)
      assume nf: "\<not> kfailed e"
      from e[OF nf] have a: "kvalid e a \<and> klang e a = klang d a" using call_ok_later[OF inv _ ab(1)] by blast
      then show False using kinv_nullable[of e a] e[OF nf] False nil by simp
    qed
    with False show ?thesis by (simp add: runs_def)
  next
    case True
    have b: "kvalid e b \<and> klang e b = klang d b" if "\<not> kfailed e" using e[OF that] call_ok_later[OF inv _ ab(2)] by blast
    have "runs e (?A \<union> ?B) (Option.bind (norm (Nonempty b) e) (\<lambda>(y, c). Some (binary OpAlternate r y c)))"
    proof (rule runs_bind)
      show "norm_good (Nonempty b) e" using rec b e by blast
    next
      fix y f assume f: "\<not> kfailed f \<Longrightarrow> \<not> kfailed e \<and> kinv f \<and> kext e f \<and> kvalid f y \<and> klang f y = call_lang e (Nonempty b)"
      show "runs f (?A \<union> ?B) ((\<lambda>(y, c). Some (binary OpAlternate r y c)) (y, f))"
        unfolding prod.case
      proof (rule runs_pure[OF binary_frame])
        assume nf: "\<not> kfailed f"
        note f = f[OF nf]
        note e = e[OF conjunct1[OF f]] and b = b[OF conjunct1[OF f]]
        have "kvalid f r \<and> klang f r = klang e r" using call_ok_later[of e f r] f e by blast
        then show "kc.denotes f (?A \<union> ?B) (binary OpAlternate r y f)"
          using binary_alternate[of f r y] e f b by simp
      qed
    qed
    with True show ?thesis by simp
  qed
  then show "runs c (?A \<union> ?B) ((\<lambda>(x, c). case binary OpConcat x b c of (r, c) \<Rightarrow>
       if kNullable c ! a then Option.bind (norm (Nonempty b) c) (\<lambda>(y, c). Some (binary OpAlternate r y c))
       else Some (r, c)) (x, c))"
    unfolding prod.case re using runs_then[OF fr] e by blast
qed

lemma norm_after_tick:
  assumes t: "tick c = (ok, d)" and "kinv c"
    and go: "ok \<Longrightarrow> \<not> kfailed d \<Longrightarrow> kinv d \<Longrightarrow> klang d = klang c \<Longrightarrow> kvalid d = kvalid c \<Longrightarrow>
       runs d (call_lang c call) (norm call c)"
  shows "norm_good call c"
proof (cases "kfailed c")
  case True
  then show ?thesis by (rule norm_failed)
next
  case nf: False
  note td = tick_step[OF t] and ld = klang_ledger[OF tick_step(1)[OF t]]
  show ?thesis
  proof (cases ok)
    case False
    then have "kfailed d" using td(2) by simp
    moreover have "\<exists>i. norm call c = Some (i, d)"
      using t False by (cases call; subst norm.simps) (simp_all add: Let_def)
    ultimately show ?thesis using td(4) by (auto simp: runs_def denotes_failed_state)
  next
    case True
    have "runs d (call_lang c call) (norm call c)"
      using True td(2) ld assms(2) by (intro go) (auto simp: fun_eq_iff)
    then show ?thesis using runs_then[OF td(4) ld(6)] by blast
  qed
qed

lemma norm_nonempty_ok:
  assumes inv: "kinv c" and i: "kvalid c i"
    and rec: "\<And>call d. call_size call < 2 * i \<Longrightarrow> (\<not> kfailed d \<Longrightarrow> kinv d \<and> call_ok d call) \<Longrightarrow> norm_good call d"
  shows "norm_good (Nonempty i) c"
proof -
  obtain ok d where t: "tick c = (ok, d)" by fastforce
  show ?thesis
  proof (rule norm_after_tick[OF t inv])
    assume ok: ok and nf: "\<not> kfailed d" and invd: "kinv d" and same: "klang d = klang c" "kvalid d = kvalid c"
    have id: "kvalid d i" using i same by simp
    from ok t have "tick c = (True, d)" by simp
    note step = norm_nonempty[OF this, of i]
    define n where "n = kNodes d ! i"
    have kn: "knode (kNodes d) i n" and lang: "klang d i = nodelang (kNodes d) n" using kinv_node[OF invd id] by (simp_all add: n_def)
    have child: "kvalid d a" if "a < i" for a using that id by (simp add: kvalid_def)
    have "runs d (klang d i - {[]}) (norm (Nonempty i) c)"
    proof (cases "kNullable d ! i")
      case False
      then have "klang d i = klang d i - {[]}" using kinv_nullable[OF invd id] by blast
      then show ?thesis using step False kc.denotes_same[OF invd id] by (simp add: runs_pure)
    next
      case nullable: True
      then have nil: "[] \<in> klang d i" using kinv_nullable[OF invd id] by simp
      show ?thesis
      proof (cases "nOp n")
        case OpEpsilon
        then have "kc.denotes d (klang d i - {[]}) (0, d)"
          using kinv_special[OF invd] lang by (intro kc.denotes_same[OF invd]) (auto simp: nodelang_def)
        then show ?thesis using step nullable OpEpsilon by (simp add: n_def runs_pure)
      next
        case OpAlternate
        then obtain a b where ab: "nChildren n = [a, b]" "a < i" "b < i" using kn by (auto simp: knode_def)
        have sub: "norm_good (Nonempty j) e" if "j \<in> {a, b}" "\<not> kfailed e \<Longrightarrow> kinv e \<and> kvalid e j" for e j
          using that ab by (intro rec) auto
        have "klang d i - {[]} = (klang d a - {[]}) \<union> (klang d b - {[]})"
          using lang OpAlternate ab by (auto simp: nodelang_def klang_def)
        moreover have "runs d ((klang d a - {[]}) \<union> (klang d b - {[]})) (norm (Nonempty i) c)"
          using nonempty_alternate[OF invd child[OF ab(2)] child[OF ab(3)] sub] ab(1) step nullable OpAlternate
          by (simp add: n_def)
        ultimately show ?thesis by simp
      next
        case OpConcat
        then obtain a b where ab: "nChildren n = [a, b]" "a < i" "b < i" using kn by (auto simp: knode_def)
        have sub: "norm_good (Nonempty j) e" if "j \<in> {a, b}" "\<not> kfailed e \<Longrightarrow> kinv e \<and> kvalid e j" for e j
          using that ab by (intro rec) auto
        have li: "klang d i = conc (klang d a) (klang d b)" using lang OpConcat ab by (simp add: nodelang_def klang_def)
        then have na: "[] \<in> klang d a" using nil by simp
        then have "klang d a = (klang d a - {[]}) \<union> {[]}" by auto
        then have "conc (klang d a) (klang d b) = conc (klang d a - {[]}) (klang d b) \<union> klang d b"
          by (metis conc_Un(1) conc_eps(1))
        then have "klang d i - {[]} = conc (klang d a - {[]}) (klang d b) \<union> (klang d b - {[]})" unfolding li by auto
        moreover have "runs d (conc (klang d a - {[]}) (klang d b) \<union> (klang d b - {[]})) (norm (Nonempty i) c)"
          using nonempty_concat[OF invd child[OF ab(2)] child[OF ab(3)] na sub] ab(1) step nullable OpConcat
          by (simp add: n_def cong: if_cong)
        ultimately show ?thesis by simp
      next
        case OpRepeat
        then obtain a where a: "nChildren n = [a]" "a < i" "[] \<notin> klang d a"
          using kn by (auto simp: knode_def klang_def)
        have "bounds_fine ''1'' (nMax n) (nUnbounded n)"
          using kn OpRepeat canonical_chars nat_of_dec_chars by (auto simp: knode_def bounds_fine_def split: if_splits)
        then have "norm_good (Repeat a ''1'' (nMax n) (nUnbounded n)) d"
          using child[OF a(2)] a(2) invd by (intro rec) auto
        moreover have "call_lang d (Repeat a ''1'' (nMax n) (nUnbounded n)) = reps (klang d a) 1 (repeat_hi n)"
          by (auto simp: hi_of_def repeat_hi_def digit_val_def)
        moreover have li: "klang d i = reps (klang d a) (nat_of_dec (nMin n)) (repeat_hi n)"
          using lang OpRepeat a(1) by (simp add: nodelang_def klang_def)
        then have "nat_of_dec (nMin n) = 0" using nil Nil_in_reps[OF a(3)] by simp
        then have "klang d i - {[]} = reps (klang d a) 1 (repeat_hi n)" using li reps_minus_nil[OF a(3)] by simp
        moreover have "norm (Nonempty i) c = norm (Repeat a ''1'' (nMax n) (nUnbounded n)) d"
          using step nullable OpRepeat a(1) by (simp add: n_def Let_def)
        ultimately show ?thesis by simp
      qed (use nil lang kn in \<open>auto simp: nodelang_def knode_def\<close>)
    qed
    then show "runs d (call_lang c (Nonempty i)) (norm (Nonempty i) c)" by (simp add: same)
  qed
qed

lemma norm_repeat_ok:
  assumes inv: "kinv c" and i: "kvalid c i" and b: "bounds_fine lo hi unb"
    and rec: "\<And>call d. call_size call < 2 * i + 1 \<Longrightarrow> (\<not> kfailed d \<Longrightarrow> kinv d \<and> call_ok d call) \<Longrightarrow> norm_good call d"
  shows "norm_good (Repeat i lo hi unb) c"
proof -
  obtain ok d where t: "tick c = (ok, d)" by fastforce
  let ?L = "reps (klang c i) (nat_of_dec lo) (hi_of hi unb)"
  have lohi: "\<And>h. hi_of hi unb = Some h \<Longrightarrow> nat_of_dec lo \<le> h"
    using b by (auto simp: hi_of_def bounds_fine_def split: if_splits)
  show ?thesis
  proof (rule norm_after_tick[OF t inv])
    assume ok: ok and nf: "\<not> kfailed d" and invd: "kinv d" and same: "klang d = klang c" "kvalid d = kvalid c"
    have id: "kvalid d i" using i same by simp
    note sp = kinv_special[OF invd]
    from ok t have "tick c = (True, d)" by simp
    note step = norm_repeat[OF this, of i lo hi unb]
    define n where "n = kNodes d ! i"
    have kn: "knode (kNodes d) i n" and lang: "klang d i = nodelang (kNodes d) n" using kinv_node[OF invd id] by (simp_all add: n_def)
    consider (one) "(\<not> unb \<and> hi = ''0'') \<or> i = 1" | (zero) "\<not> (\<not> unb \<and> hi = ''0'')" "i = 0"
      | (merge) "\<not> (\<not> unb \<and> hi = ''0'')" "i \<noteq> 0" "i \<noteq> 1" "nOp n = OpRepeat \<and> ((\<not> unb \<and> lo = hi) \<or> nMin n = ''0'')"
      | (nullable) "\<not> (\<not> unb \<and> hi = ''0'')" "i \<noteq> 0" "i \<noteq> 1" "\<not> (nOp n = OpRepeat \<and> ((\<not> unb \<and> lo = hi) \<or> nMin n = ''0''))" "kNullable d ! i"
      | (plain) "\<not> (\<not> unb \<and> hi = ''0'')" "i \<noteq> 0" "i \<noteq> 1" "\<not> (nOp n = OpRepeat \<and> ((\<not> unb \<and> lo = hi) \<or> nMin n = ''0''))" "\<not> kNullable d ! i"
      by linarith
    then have "runs d ?L (norm (Repeat i lo hi unb) c)"
    proof cases
      case one
      have "klang d 1 = ?L"
      proof (cases "i = 1")
        case True
        have "reps {[]} (nat_of_dec lo) (hi_of hi unb) = {[]}" using lohi by (rule reps_eps)
        moreover have "klang c i = {[]}" "klang d 1 = {[]}" using sp same True by auto
        ultimately show ?thesis by metis
      next
        case False
        then have "\<not> unb" "nat_of_dec hi = 0" using one by (auto simp: digit_val_def)
        then show ?thesis using sp lohi[of 0] by (simp add: hi_of_def)
      qed
      then show ?thesis using step one sp kc.denotes_same[OF invd] by (auto intro!: runs_pure)
    next
      case zero
      have "lo = ''0'' \<longleftrightarrow> nat_of_dec lo = 0" using b canonicalDecimal_zero[of lo] by (auto simp: bounds_fine_def)
      then have "klang d (if lo = ''0'' then 1 else 0) = ?L" using sp zero same by (simp add: reps_empty)
      then show ?thesis using step zero sp kc.denotes_same[OF invd] by (auto intro!: runs_pure)
    next
      case merge
      then obtain a where a: "nChildren n = [a]" "a < i" using kn by (auto simp: knode_def)
      obtain low up both e where sc: "scaled n lo hi unb d = ((low, up, both), e)" by (metis prod.exhaust)
      note st = scaled_step[OF sc]
      have ld: "kinv e" "klang e = klang d" "kvalid e = kvalid d" "kext d e"
        using klang_ledger[OF st(1)] invd by (auto simp: fun_eq_iff)
      have facts: "bounds_fine low up both" "reps (klang d a) (nat_of_dec low) (hi_of up both) = ?L" if nfe: "\<not> kfailed e"
      proof -
        have e: "low = dec_of_nat (nat_of_dec (nMin n) * nat_of_dec lo)" "both = (nUnbounded n \<or> unb)"
          "up = (if nUnbounded n \<or> unb then [] else dec_of_nat (nat_of_dec (nMax n) * nat_of_dec hi))"
          using st(3) nfe by (auto simp: kfailed_def)
        note ri = repeat_interval(1)[OF kn _ b merge(1) _ e(1,3)] repeat_interval(2)[where A = "klang d a", OF kn _ b merge(1) _ e(1,3)]
        show "bounds_fine low up both" using ri(1) merge(4) e(2) by simp
        have "klang d i = reps (klang d a) (nat_of_dec (nMin n)) (repeat_hi n)"
          using lang merge(4) a(1) by (simp add: nodelang_def klang_def)
        then have "klang c i = reps (klang d a) (nat_of_dec (nMin n)) (repeat_hi n)" using same(1) by simp
        then show "reps (klang d a) (nat_of_dec low) (hi_of up both) = ?L" using ri(2) merge(4) e(2) by simp
      qed
      have va: "kvalid e a" using id a(2) ld(3) by (simp add: kvalid_def)
      have g: "norm_good (Repeat a low up both) e" using a(2) ld(1) va facts(1) by (intro rec) auto
      have "runs e ?L (norm (Repeat a low up both) e)"
      proof (cases "kfailed e")
        case True
        then show ?thesis using g by (auto simp: runs_def)
      next
        case False
        then show ?thesis using g facts(2) ld(2) by simp
      qed
      moreover have "norm (Repeat i lo hi unb) c = norm (Repeat a low up both) e" using step merge a(1) sc by (simp add: n_def)
      ultimately show ?thesis using runs_then[OF st(2)] ld(4) by simp
    next
      case nullable
      then have nil: "[] \<in> klang d i" using kinv_nullable[OF invd id] by simp
      have "runs d ?L (Option.bind (norm (Nonempty i) d) (\<lambda>(j, c). Some (put_repeat j ''0'' hi unb c)))"
      proof (rule runs_bind)
        show "norm_good (Nonempty i) d" using id invd by (intro rec) auto
      next
        fix j e assume e: "\<not> kfailed e \<Longrightarrow> \<not> kfailed d \<and> kinv e \<and> kext d e \<and> kvalid e j \<and> klang e j = call_lang d (Nonempty i)"
        show "runs e ?L ((\<lambda>(j, c). Some (put_repeat j ''0'' hi unb c)) (j, e))"
          unfolding prod.case
        proof (rule runs_pure[OF put_repeat_frame])
          assume nfe: "\<not> kfailed e"
          have "bounds_fine ''0'' hi unb" using b by (auto simp: bounds_fine_def canonical_chars digit_val_def split: if_splits)
          moreover have "hi_of hi unb \<noteq> Some 0"
            using b nullable(1) canonicalDecimal_zero[of hi] by (auto simp: bounds_fine_def hi_of_def split: if_splits)
          ultimately have "kc.denotes e (reps (klang e j) (nat_of_dec ''0'') (hi_of hi unb)) (put_repeat j ''0'' hi unb e)"
            using e[OF nfe] by (intro put_repeat_denotes) auto
          moreover have "reps (klang e j) (nat_of_dec ''0'') (hi_of hi unb) = ?L"
            using e[OF nfe] reps_nonempty[of "klang c i" "hi_of hi unb" "nat_of_dec lo"] nil lohi same
            by (simp add: digit_val_def)
          ultimately show "kc.denotes e ?L (put_repeat j ''0'' hi unb e)" by simp
        qed
      qed
      then show ?thesis using step nullable by (auto simp: n_def Let_def cong: if_cong)
    next
      case plain
      then have "[] \<notin> klang d i" using kinv_nullable[OF invd id] by simp
      moreover have "hi_of hi unb \<noteq> Some 0"
        using b plain(1) canonicalDecimal_zero[of hi] by (auto simp: bounds_fine_def hi_of_def split: if_splits)
      ultimately have "kc.denotes d ?L (put_repeat i lo hi unb d)"
        using put_repeat_denotes[OF invd id _ b] plain(2) same by simp
      then show ?thesis using step plain by (auto simp: n_def Let_def intro!: runs_pure put_repeat_frame)
    qed
    then show "runs d (call_lang c (Repeat i lo hi unb)) (norm (Repeat i lo hi unb) c)" by simp
  qed
qed

theorem norm_ok: "kinv c \<Longrightarrow> call_ok c call \<Longrightarrow> norm_good call c"
proof (induction "call_size call" arbitrary: call c rule: less_induct)
  case (less call c)
  have rec: "norm_good call' d" if "call_size call' < call_size call" "\<not> kfailed d \<Longrightarrow> kinv d \<and> call_ok d call'" for call' d
    using less.hyps norm_failed that by blast
  show ?case
  proof (cases call)
    case (Nonempty i)
    show ?thesis unfolding Nonempty by (rule norm_nonempty_ok) (use less.prems rec Nonempty in auto)
  next
    case (Repeat i lo hi unb)
    show ?thesis unfolding Repeat by (rule norm_repeat_ok) (use less.prems rec Repeat in auto)
  qed
qed

lemma repeat_runs:
  "(\<not> kfailed c \<Longrightarrow> kinv c \<and> kvalid c i \<and> bounds_fine lo hi unb) \<Longrightarrow>
     runs c (reps (klang c i) (nat_of_dec lo) (hi_of hi unb)) (repeat i lo hi unb c)"
  using norm_ok[of c "Repeat i lo hi unb"] norm_failed[of c "Repeat i lo hi unb"]
  by (cases "kfailed c") (auto simp: repeat_def)

end
