(* ===== verification/Pattern_Parsing.thy ===== *)
theory Pattern_Parsing
  imports Pattern_Parser Pattern_Compiling
begin

text \<open>
  What the parser of \<open>go/yangpattern/compiler.go\<close> computes: a grammar of XSD expressions with
  the language of each phrase, and the proof that every call of the parser returns and, unless
  the compiler has failed, gives a node with a language of the text it consumed.
\<close>

subsection \<open>The grammar\<close>

definition digit_runes :: "rune list \<Rightarrow> bool" where
  "digit_runes ds \<longleftrightarrow> ds \<noteq> [] \<and> (\<forall>x \<in> set ds. rn CHR ''0'' \<le> x \<and> x \<le> rn CHR ''9'')"

definition count_of :: "rune list \<Rightarrow> nat" where
  "count_of ds = nat_of_dec (map (\<lambda>x. char_of x) ds)"

inductive xsd_quantifier :: "rune list \<Rightarrow> nat \<Rightarrow> nat option \<Rightarrow> bool" where
  star: "xsd_quantifier [rn CHR ''*''] 0 None"
| plus: "xsd_quantifier [rn CHR ''+''] 1 None"
| opt: "xsd_quantifier [rn CHR ''?''] 0 (Some 1)"
| exact: "digit_runes ds \<Longrightarrow> xsd_quantifier (rn CHR ''{'' # ds @ [rn CHR ''}'']) (count_of ds) (Some (count_of ds))"
| at_least: "digit_runes ds \<Longrightarrow> xsd_quantifier (rn CHR ''{'' # ds @ [rn CHR '','', rn CHR ''}'']) (count_of ds) None"
| between: "digit_runes ds \<Longrightarrow> digit_runes es \<Longrightarrow> count_of ds \<le> count_of es \<Longrightarrow>
    xsd_quantifier (rn CHR ''{'' # ds @ rn CHR '','' # es @ [rn CHR ''}'']) (count_of ds) (Some (count_of es))"

text \<open>The words of one rune from a translated class.\<close>
definition rune_words :: "xrange list \<Rightarrow> rune lang" where
  "rune_words rs = {[r] | r. r \<in> points rs}"

inductive xsd_expr and xsd_seq and xsd_piece and xsd_atom for cats :: categories where
  one: "xsd_seq cats s L \<Longrightarrow> xsd_expr cats s L"
| alternate: "xsd_expr cats s L \<Longrightarrow> xsd_seq cats t M \<Longrightarrow> xsd_expr cats (s @ rn CHR ''|'' # t) (L \<union> M)"
| no_pieces: "xsd_seq cats [] {[]}"
| then_piece: "xsd_seq cats s L \<Longrightarrow> xsd_piece cats t M \<Longrightarrow> xsd_seq cats (s @ t) (conc L M)"
| once: "xsd_atom cats s L \<Longrightarrow> xsd_piece cats s L"
| repeated: "xsd_atom cats s L \<Longrightarrow> xsd_quantifier q lo hi \<Longrightarrow> xsd_piece cats (s @ q) (reps L lo hi)"
| group: "xsd_expr cats s L \<Longrightarrow> xsd_atom cats (rn CHR ''('' # s @ [rn CHR '')'']) L"
| char: "AtomRanges cats (r # s) = Some rs \<Longrightarrow> \<not> one_of ''()|*+?{}]'' r \<Longrightarrow> xsd_atom cats (r # s) (rune_words rs)"

subsection \<open>Calls that consume\<close>

definition consumed :: "compiler \<Rightarrow> compiler \<Rightarrow> rune list \<Rightarrow> bool" where
  "consumed c d s \<longleftrightarrow> kSource d = kSource c \<and> kPos d = kPos c + length s \<and>
     drop (kPos c) (kSource c) = s @ drop (kPos d) (kSource d)"

lemma consumed_trans: "consumed c d s \<Longrightarrow> consumed d e t \<Longrightarrow> consumed c e (s @ t)"
  by (simp add: consumed_def)

lemma consumed_frame: "kframe c d \<Longrightarrow> consumed c d []"
  by (simp add: consumed_def kframe_def)

lemma consumed_fields: "kSource d = kSource c \<Longrightarrow> kPos d = kPos c \<Longrightarrow> consumed c d []"
  by (simp add: consumed_def)

lemma consumed_advance: "\<not> at_end c \<Longrightarrow> consumed c (advance 1 c) [peek c]"
  by (simp add: consumed_def Cons_nth_drop_Suc not_le)

lemma consumed_jump: "k \<le> length (kSource c) - kPos c \<Longrightarrow> consumed c (advance k c) (take k (drop (kPos c) (kSource c)))"
  by (simp add: consumed_def min_def add.commute flip: drop_drop)

text \<open>The invariant of the parser: that of the table, and a cache of what atoms denote.\<close>
definition pinv :: "categories \<Rightarrow> compiler \<Rightarrow> bool" where
  "pinv cats c \<longleftrightarrow> kinv c \<and>
     (\<forall>a i. kAtoms c a = Some i \<longrightarrow> kvalid c i \<and> (\<exists>rs. AtomRanges cats a = Some rs \<and> klang c i = rune_words rs))"

lemma pinv_later: "pinv cats c \<Longrightarrow> kinv d \<Longrightarrow> kext c d \<Longrightarrow> kAtoms d = kAtoms c \<Longrightarrow> pinv cats d"
  using call_ok_later by (fastforce simp: pinv_def)

text \<open>
  An operation that returns, goes on in the source, stays failed, and otherwise gives a node
  whose language is related to the text it consumed.
\<close>
definition gives :: "categories \<Rightarrow> compiler \<Rightarrow> (rune list \<Rightarrow> rune lang \<Rightarrow> bool) \<Rightarrow> (nat \<times> compiler) option \<Rightarrow> bool" where
  "gives cats c P res \<longleftrightarrow>
     (\<exists>i d s. res = Some (i, d) \<and> consumed c d s \<and> (kfailed c \<longrightarrow> kfailed d) \<and>
        (\<not> kfailed d \<longrightarrow> pinv cats d \<and> kext c d \<and> kvalid d i \<and> P s (klang d i)))"

lemma givesI:
  "consumed c d s \<Longrightarrow> (kfailed c \<Longrightarrow> kfailed d) \<Longrightarrow>
     (\<not> kfailed c \<Longrightarrow> \<not> kfailed d \<Longrightarrow> pinv cats d \<and> kext c d \<and> kvalid d i \<and> P s (klang d i)) \<Longrightarrow> gives cats c P (Some (i, d))"
  by (auto simp: gives_def)

lemma gives_mono: "gives cats c P res \<Longrightarrow> (\<And>s L. \<not> kfailed c \<Longrightarrow> P s L \<Longrightarrow> Q s L) \<Longrightarrow> gives cats c Q res"
  by (fastforce simp: gives_def)

lemma gives_then:
  assumes "consumed c d s" "kfailed c \<Longrightarrow> kfailed d" "\<not> kfailed c \<Longrightarrow> \<not> kfailed d \<Longrightarrow> kext c d"
    and "gives cats d (\<lambda>t. P (s @ t)) res"
  shows "gives cats c P res"
proof -
  obtain i e t where e: "res = Some (i, e)" "consumed d e t" "kfailed d \<longrightarrow> kfailed e"
    "\<not> kfailed e \<longrightarrow> pinv cats e \<and> kext d e \<and> kvalid e i \<and> P (s @ t) (klang e i)"
    using assms(4) by (auto simp: gives_def)
  show ?thesis unfolding e(1)
    by (rule givesI[OF consumed_trans[OF assms(1) e(2)]]) (use e assms kc.ext_trans in blast)+
qed

lemma gives_bind:
  assumes "gives cats c P res"
    and "\<And>i d s. consumed c d s \<Longrightarrow>
      (\<not> kfailed d \<Longrightarrow> \<not> kfailed c \<and> pinv cats d \<and> kext c d \<and> kvalid d i \<and> P s (klang d i)) \<Longrightarrow>
      gives cats d (\<lambda>t. Q (s @ t)) (f (i, d))"
  shows "gives cats c Q (Option.bind res f)"
proof -
  obtain i d s where d: "res = Some (i, d)" "consumed c d s" "kfailed c \<longrightarrow> kfailed d"
    "\<not> kfailed d \<longrightarrow> pinv cats d \<and> kext c d \<and> kvalid d i \<and> P s (klang d i)"
    using assms(1) by (auto simp: gives_def)
  have "gives cats d (\<lambda>t. Q (s @ t)) (f (i, d))" using d by (intro assms(2)) auto
  then have "gives cats c Q (f (i, d))" using d by (intro gives_then[OF d(2)]) auto
  then show ?thesis by (simp add: d(1))
qed

lemma gives_runs:
  assumes "runs c L res" "\<not> kfailed c \<Longrightarrow> pinv cats c" "\<not> kfailed c \<Longrightarrow> P [] L"
  shows "gives cats c P res"
proof -
  obtain x d where d: "res = Some (x, d)" "kframe c d" "\<not> kfailed d \<Longrightarrow> \<not> kfailed c"
    "\<not> kfailed d \<Longrightarrow> kinv d \<and> kext c d \<and> kvalid d x \<and> klang d x = L" using runsE[OF assms(1)] by blast
  have "pinv cats d" if "\<not> kfailed d"
    using pinv_later[OF assms(2)] d(3,4)[OF that] d(2) by (simp add: kframe_def)
  then show ?thesis unfolding d(1) using d assms(3) by (intro givesI[OF consumed_frame]) auto
qed

lemma gives_denotes:
  assumes "kframe c (snd r)" "\<not> kfailed c \<Longrightarrow> kc.denotes c L r" "\<not> kfailed c \<Longrightarrow> pinv cats c" "P [] L"
  shows "gives cats c P (Some r)"
  by (rule gives_runs[OF runs_pure]) (use assms in auto)

lemma gives_failed: "consumed c d s \<Longrightarrow> kfailed d \<Longrightarrow> gives cats c P (Some (i, d))"
  by (rule givesI) auto

lemma pinv_kinv: "pinv cats c \<Longrightarrow> kinv c" by (simp add: pinv_def)

text \<open>Steps that leave the tables alone.\<close>
definition moves :: "compiler \<Rightarrow> compiler \<Rightarrow> rune list \<Rightarrow> bool" where
  "moves c d s \<longleftrightarrow> consumed c d s \<and> (kfailed c \<longrightarrow> kfailed d) \<and> kNodes d = kNodes c \<and> kNullable d = kNullable c \<and>
     kIntern d = kIntern c \<and> kAtoms d = kAtoms c"

lemma moves_trans: "moves c d s \<Longrightarrow> moves d e t \<Longrightarrow> moves c e (s @ t)"
  unfolding moves_def using consumed_trans by metis

lemma moves_refl: "moves c c []" by (simp add: moves_def consumed_def)

lemma moves_state:
  assumes "moves c d s"
  shows "pinv cats d = pinv cats c" "kext c d" "klang d = klang c" "kvalid d = kvalid c"
  using assms by (simp_all add: moves_def pinv_def kinv_def kext_def klang_def kvalid_def fun_eq_iff)

lemma gives_moves: "moves c d s \<Longrightarrow> gives cats d (\<lambda>t. P (s @ t)) res \<Longrightarrow> gives cats c P res"
  by (rule gives_then) (auto simp: moves_def kext_def)

lemma moves_advance: "\<not> at_end c \<Longrightarrow> moves c (advance 1 c) [peek c]"
  using consumed_advance[of c] by (simp add: moves_def kfailed_def)

lemma moves_jump: "k \<le> length (kSource c) - kPos c \<Longrightarrow> moves c (advance k c) (take k (drop (kPos c) (kSource c)))"
  using consumed_jump[of k c] by (simp add: moves_def kfailed_def)

lemma moves_kfail: "moves c (kfail e c) []" "kfailed (kfail e c)"
  by (simp_all add: moves_def kfailed_def kfail_def consumed_def)

lemma moves_kabort: "moves c (kabort e c) []" "kfailed (kabort e c)"
  by (simp_all add: moves_def kfailed_def kabort_def consumed_def)

lemma moves_kcharge: assumes "kcharge b w c = (ok, d)" shows "moves c d []"
proof -
  have "kNodes d = kNodes c \<and> kNullable d = kNullable c \<and> kIntern d = kIntern c \<and> kAtoms d = kAtoms c"
    by (subst (1 2 3 4) kcharge_step(1)[OF assms]) simp
  then show ?thesis
    using kcharge_step(4)[OF assms] consumed_frame kframe_failed by (auto simp: moves_def)
qed

lemma moves_tick: "tick c = (ok, d) \<Longrightarrow> moves c d []"
  using moves_kcharge[of 0 1 c ok d] moves_refl by (auto simp: tick_def split: if_splits)

lemma moves_text: "moves c d s \<Longrightarrow> take (kPos d - kPos c) (drop (kPos c) (kSource d)) = s"
  by (simp add: moves_def consumed_def)

lemma ledger_only:
  assumes "d = c\<lparr>kLedger := kLedger d\<rparr>"
  shows "kext c d" "pinv cats d = pinv cats c" "klang d = klang c" "kvalid d = kvalid c"
proof -
  show "kext c d" "klang d = klang c" "kvalid d = kvalid c"
    using klang_ledger[OF assms] by (auto simp: fun_eq_iff)
  moreover have "kAtoms d = kAtoms c" by (subst assms) simp
  ultimately show "pinv cats d = pinv cats c" using klang_ledger(5)[OF assms] by (simp add: pinv_def)
qed

text \<open>A charge before an operation.\<close>
lemma gives_ledger:
  assumes "d = c\<lparr>kLedger := kLedger d\<rparr>" "kframe c d" "gives cats d P res"
  shows "gives cats c P res"
  by (rule gives_then[OF consumed_frame[OF assms(2)]]) (use assms kframe_failed ledger_only(1) in auto)

subsection \<open>Atoms\<close>

definition category_end :: "compiler \<Rightarrow> compiler" where
  "category_end c = advance (length (takeWhile (\<lambda>x. x \<noteq> rn CHR ''}'') (drop (kPos c) (kSource c)))) c"

lemma moves_category_end: "\<exists>s. moves c (category_end c) s"
  using moves_jump[of "length (takeWhile (\<lambda>x. x \<noteq> rn CHR ''}'') (drop (kPos c) (kSource c)))" c]
    length_takeWhile_le[of "\<lambda>x. x \<noteq> rn CHR ''}''" "drop (kPos c) (kSource c)"]
  by (auto simp: category_end_def)

lemma scanEscape_step:
  "scanEscape c =
     (if at_end c then kfail ''trailing escape'' c
      else if peek c \<noteq> rn CHR ''p'' \<and> peek c \<noteq> rn CHR ''P'' then advance 1 c
      else if \<not> sees (advance 1 c) CHR ''{'' then kfail ''invalid category escape'' (advance 1 c)
      else if at_end (category_end (advance 1 (advance 1 c)))
      then kfail ''unterminated category escape'' (category_end (advance 1 (advance 1 c)))
      else advance 1 (category_end (advance 1 (advance 1 c))))"
  unfolding scanEscape_def category_end_def Let_def by (rule if_cong) auto

lemma four_ways:
  "x = (if a then p else if b then q else if \<not> s then f m q else if t then f n e else v) \<Longrightarrow> \<not> a \<Longrightarrow>
     x = q \<or> (\<exists>m. x = f m q) \<or> (s \<and> (\<exists>m. x = f m e)) \<or> (s \<and> \<not> t \<and> x = v)"
  by (auto split: if_splits)

lemma moves_scanEscape: "\<exists>s. moves c (scanEscape c) s"
proof (cases "at_end c")
  case True
  then show ?thesis using moves_kfail(1) unfolding scanEscape_step by auto
next
  case False
  let ?d = "advance 1 c" and ?e = "category_end (advance 1 (advance 1 c))"
  note d = moves_advance[OF False]
  have e: "\<exists>s. moves c ?e s" if "sees ?d CHR ''{''"
  proof -
    obtain s where "moves (advance 1 ?d) ?e s" using moves_category_end by blast
    moreover have "moves ?d (advance 1 ?d) [peek ?d]" using that by (intro moves_advance) simp
    ultimately show ?thesis using moves_trans[OF d moves_trans] by blast
  qed
  consider "scanEscape c = ?d" | m where "scanEscape c = kfail m ?d"
    | m where "sees ?d CHR ''{''" "scanEscape c = kfail m ?e" | "sees ?d CHR ''{''" "\<not> at_end ?e" "scanEscape c = advance 1 ?e"
    using four_ways[where f = kfail, OF scanEscape_step False] by blast
  then show ?thesis
  proof cases
    case 1
    then show ?thesis using d by metis
  next
    case 2
    then show ?thesis using moves_trans[OF d moves_kfail(1)] by auto
  next
    case 3
    then show ?thesis using e moves_trans[OF _ moves_kfail(1)] by metis
  next
    case 4
    then show ?thesis using e moves_trans[OF _ moves_advance[OF 4(2)]] by metis
  qed
qed

abbreviation left :: "compiler \<Rightarrow> nat" where
  "left c \<equiv> length (kSource c) - kPos c"

lemma moves_left: "moves c d s \<Longrightarrow> left d = left c - length s"
  by (simp add: moves_def consumed_def)

lemma class_scan_step:
  assumes "\<not> at_end c" "nesting \<noteq> 0" "tick c = (True, c1)"
  shows "(\<exists>n. class_scan depth nesting c = class_scan depth n (advance 1 c1)) \<or>
     class_scan depth nesting c = class_scan depth nesting (scanEscape (advance 1 c1)) \<or>
     (\<exists>e. class_scan depth nesting c = (None, kabort e (advance 1 c1)))"
  using assms by (subst (1 3 5) class_scan.simps) (auto simp: Let_def split: option.split)

lemma moves_class_scan: "\<exists>s. moves c (snd (class_scan depth nesting c)) s"
proof (induction "left c" arbitrary: c nesting rule: less_induct)
  case less
  show ?case
  proof (cases "at_end c \<or> nesting = 0")
    case True
    then show ?thesis using moves_refl by (subst class_scan.simps) auto
  next
    case False
    obtain ok c1 where t: "tick c = (ok, c1)" by fastforce
    note m1 = moves_tick[OF t]
    show ?thesis
    proof (cases ok)
      case no: False
      then show ?thesis using m1 False t by (subst class_scan.simps) auto
    next
      case True
      define c2 where "c2 = advance 1 c1"
      have ne: "\<not> at_end c1" using False tick_fields[OF t] by simp
      have m2: "moves c c2 [peek c1]" using moves_trans[OF m1 moves_advance[OF ne]] by (simp add: c2_def)
      obtain s where s: "moves c2 (scanEscape c2) s" using moves_scanEscape by blast
      have IH: "\<exists>t. moves c (snd (class_scan depth n d)) t" if "moves c2 d s" for n d s
        using less[of d n] moves_left[OF moves_trans[OF m2 that]] False moves_trans[OF moves_trans[OF m2 that]] by fastforce
      consider n where "class_scan depth nesting c = class_scan depth n c2"
        | "class_scan depth nesting c = class_scan depth nesting (scanEscape c2)"
        | e where "class_scan depth nesting c = (None, kabort e c2)"
        using class_scan_step[of c nesting c1 depth, folded c2_def] False t True by force
      then show ?thesis
      proof cases
        case (3 e)
        show ?thesis unfolding 3 snd_conv using moves_trans[OF m2 moves_kabort(1)] by blast
      qed (use IH[OF moves_refl] IH[OF s] in auto)
    qed
  qed
qed

lemma class_scan_none: "class_scan depth nesting c = (None, d) \<Longrightarrow> kfailed d"
proof (induction "left c" arbitrary: c nesting rule: less_induct)
  case less
  obtain ok c1 where t: "tick c = (ok, c1)" by fastforce
  define c2 where "c2 = advance 1 c1"
  have "fst (class_scan depth nesting c) = Some nesting" if "at_end c \<or> nesting = 0 \<or> \<not> ok"
    by (subst class_scan.simps) (use that t in auto)
  with less.prems have go: "\<not> at_end c" "nesting \<noteq> 0" "ok" by force+
  have m2: "moves c c2 [peek c1]"
    using moves_trans[OF moves_tick[OF t] moves_advance[of c1]] go tick_fields[OF t] by (simp add: c2_def)
  obtain s where s: "moves c2 (scanEscape c2) s" using moves_scanEscape by blast
  have IH: "kfailed d" if "moves c2 e s" "class_scan depth n e = (None, d)" for n e s
    using less(1)[OF _ that(2)] moves_left[OF moves_trans[OF m2 that(1)]] go by fastforce
  consider n where "class_scan depth nesting c = class_scan depth n c2"
    | "class_scan depth nesting c = class_scan depth nesting (scanEscape c2)"
    | e where "class_scan depth nesting c = (None, kabort e c2)"
    using class_scan_step[of c nesting c1 depth, folded c2_def] go t by force
  then show ?case
    by cases (use less.prems IH[OF moves_refl] IH[OF s] in auto)
qed

lemma kput_class:
  assumes "kinv c" "rs \<noteq> []"
  shows "kc.denotes c (rune_words rs) (kput (class_node rs) c)"
proof -
  have "nodelang (kNodes c) (class_node rs) = rune_words rs"
    using in_class_ranges[of rs] by (simp add: nodelang_def class_node_def node0_def rune_words_def class_ranges_def)
  moreover have "knode (kNodes c) (length (kNodes c)) (class_node rs)"
    by (simp add: knode_def class_node_def node0_def)
  ultimately show ?thesis using kput_denotes[OF assms(1), of "class_node rs"] by simp
qed

text \<open>The node of the translated ranges, before it is cached.\<close>
definition atom_node :: "xrange list \<Rightarrow> compiler \<Rightarrow> nat \<times> compiler" where
  "atom_node rs c = (if rs \<noteq> [] then kput (class_node rs) c else (0, c))"

lemma atom_node_denotes: "kinv c \<Longrightarrow> kc.denotes c (rune_words rs) (atom_node rs c)"
  using kput_class[of c rs] kinv_special[of c]
  by (auto simp: atom_node_def rune_words_def points_def intro!: kc.denotes_same)

lemma atom_node_frame: "kframe c (snd (atom_node rs c))"
  by (simp add: atom_node_def kput_frame)

lemma reserve_step:
  assumes "reserve bytes work b = (ok, b')"
  shows "ok \<longleftrightarrow> lErr b' = None" "lErr b \<noteq> None \<Longrightarrow> lErr b' \<noteq> None"
proof -
  have charge: "charge 0 work b = (ok, b') \<Longrightarrow> (ok \<longleftrightarrow> lErr b' = None)"
    using kcharge_step(2)[of 0 work "undefined\<lparr>kLedger := b\<rparr>" ok "undefined\<lparr>kLedger := b'\<rparr>"]
    by (auto simp: kcharge_def)
  show "ok \<longleftrightarrow> lErr b' = None" "lErr b \<noteq> None \<Longrightarrow> lErr b' \<noteq> None"
    using assms charge by (auto simp: reserve_def split: if_splits option.splits)
qed

lemma kledger_frame: "(lErr (kLedger c) \<noteq> None \<Longrightarrow> lErr b \<noteq> None) \<Longrightarrow> kframe c (c\<lparr>kLedger := b\<rparr>)"
  by (simp add: kframe_def)

lemma gives_charge:
  assumes "kcharge b w c = (ok, d)" "\<And>e. kfailed e \<Longrightarrow> \<not> ok \<Longrightarrow> e = d \<Longrightarrow> gives cats e P res" "ok \<Longrightarrow> gives cats d P res"
  shows "gives cats c P res"
proof (rule gives_moves[OF moves_kcharge[OF assms(1)]])
  show "gives cats d (\<lambda>t. P ([] @ t)) res"
    using assms(2,3) kcharge_step(2)[OF assms(1)] by (cases ok) (auto simp: kfailed_def)
qed

lemma gives_same: "(\<not> kfailed c \<Longrightarrow> pinv cats c \<and> kvalid c i \<and> P [] (klang c i)) \<Longrightarrow> gives cats c P (Some (i, c))"
  by (rule givesI[where s = "[]"]) (auto simp: consumed_def kext_def)

lemma gives_stop: "kfailed c \<Longrightarrow> gives cats c P (Some (i, c))"
  by (rule gives_same) simp

lemma gives_kfail: "gives cats c P (Some (i, kfail e c))"
  using gives_moves[OF moves_kfail(1) gives_stop[OF moves_kfail(2)]] .

lemma gives_kabort: "gives cats c P (Some (i, kabort e c))"
  using gives_moves[OF moves_kabort(1) gives_stop[OF moves_kabort(2)]] .

lemma consumed_cache: "consumed c (e\<lparr>kAtoms := m\<rparr>) s = consumed c e s"
  by (simp add: consumed_def)

lemma pinv_cache:
  "pinv cats (e\<lparr>kAtoms := (kAtoms e)(a \<mapsto> i)\<rparr>)"
  "kext c (e\<lparr>kAtoms := m\<rparr>) = kext c e" "kvalid (e\<lparr>kAtoms := m\<rparr>) = kvalid e" "klang (e\<lparr>kAtoms := m\<rparr>) = klang e"
  if "pinv cats e" "kvalid e i" "AtomRanges cats a = Some rs" "klang e i = rune_words rs"
proof -
  show x: "kext c (e\<lparr>kAtoms := m\<rparr>) = kext c e" "kvalid (e\<lparr>kAtoms := m\<rparr>) = kvalid e" "klang (e\<lparr>kAtoms := m\<rparr>) = klang e" for c m
    by (simp_all add: kext_def kvalid_def klang_def fun_eq_iff)
  have "kinv (e\<lparr>kAtoms := m\<rparr>) = kinv e" for m by (simp add: kinv_def)
  with that show "pinv cats (e\<lparr>kAtoms := (kAtoms e)(a \<mapsto> i)\<rparr>)" by (auto simp: pinv_def x)
qed

text \<open>The last steps of an atom: its node, and its place in the cache.\<close>
lemma cache_atom:
  assumes "\<not> kfailed c \<Longrightarrow> pinv cats c" "AtomRanges cats a = Some rs" "P [] (rune_words rs)"
    and "atom_node rs c = (i, d)" "kcharge b w d = (ok, e)"
  shows "gives cats c P (Some (i, if ok then e\<lparr>kAtoms := (kAtoms e)(a \<mapsto> i)\<rparr> else e))"
proof (rule givesI[where s = "[]"])
  define f where "f = (if ok then e\<lparr>kAtoms := (kAtoms e)(a \<mapsto> i)\<rparr> else e)"
  have fr: "kframe c d" using atom_node_frame[of c rs] assms(4) by simp
  note me = moves_kcharge[OF assms(5)]
  have ff: "kfailed f = kfailed e" by (simp add: f_def kfailed_def)
  have "consumed d e []" using me by (simp add: moves_def)
  from consumed_trans[OF consumed_frame[OF fr] this] have "consumed c e []" by simp
  then show "consumed c f []" by (simp add: f_def consumed_cache)
  have dead: "kfailed d \<Longrightarrow> kfailed f" using me ff by (simp add: moves_def)
  then show "kfailed c \<Longrightarrow> kfailed f" using kframe_failed[OF fr] by blast
  show "pinv cats f \<and> kext c f \<and> kvalid f i \<and> P [] (klang f i)" if c: "\<not> kfailed c" and f: "\<not> kfailed f"
  proof -
    have d: "\<not> kfailed d" using f dead by blast
    have ok using f ff kcharge_step(2)[OF assms(5)] by (simp add: kfailed_def)
    have "kc.denotes c (rune_words rs) (i, d)" using atom_node_denotes[of c rs] pinv_kinv[OF assms(1)] c assms(4) by simp
    note den = kc.denotesD[OF this d]
    have "pinv cats d" using pinv_later[OF assms(1)[OF c] den(2,3)] fr by (simp add: kframe_def)
    then have "pinv cats e" "kvalid e i" "klang e i = rune_words rs" using moves_state[OF me] den by simp_all
    moreover have "kext c e" using kc.ext_trans[OF den(3) moves_state(2)[OF me]] .
    ultimately show ?thesis
      using \<open>ok\<close> assms(2,3) by (simp add: f_def pinv_cache)
  qed
qed

lemma translate_atom_gives:
  assumes "\<not> kfailed c \<Longrightarrow> pinv cats c" "\<And>rs. AtomRanges cats a = Some rs \<Longrightarrow> P [] (rune_words rs)"
  shows "gives cats c P (Some (translate_atom cats a c))"
proof -
  obtain ok d where t: "kcharge 0 (len64 a) c = (ok, d)" by fastforce
  show ?thesis
  proof (rule gives_charge[OF t])
    show "gives cats e P (Some (translate_atom cats a c))" if "kfailed e" "\<not> ok" "e = d" for e
      using that t gives_stop by (simp add: translate_atom_def)
  next
    assume ok
    have d: "\<not> kfailed d \<Longrightarrow> pinv cats d" using assms(1) moves_kcharge[OF t] moves_state(1)[OF moves_kcharge[OF t]] by (auto simp: moves_def)
    show "gives cats d P (Some (translate_atom cats a c))"
    proof (cases "kAtoms d a")
      case (Some i)
      then have "translate_atom cats a c = (i, d)" using t \<open>ok\<close> by (simp add: translate_atom_def)
      moreover have "P [] (klang d i) \<and> kvalid d i" if "\<not> kfailed d" using d[OF that] Some assms(2) unfolding pinv_def by metis
      ultimately show ?thesis using d by (auto intro!: gives_same)
    next
      case None
      let ?bound = "atom_bound a (of_nat (length a + 4))"
      obtain ok2 b where r: "reserve (mulSat ?bound 64) (mulSat ?bound (of_nat (length a + 1))) (kLedger d) = (ok2, b)" by fastforce
      define e where "e = d\<lparr>kLedger := b\<rparr>"
      have fe: "kframe d e" using reserve_step(2)[OF r] unfolding e_def by (rule kledger_frame)
      have e: "\<not> kfailed e \<Longrightarrow> pinv cats e"
        using d kframe_failed[OF fe] ledger_only(2)[of e d] by (auto simp: e_def)
      show ?thesis
      proof (rule gives_ledger[of e])
        show "e = d\<lparr>kLedger := kLedger e\<rparr>" by (simp add: e_def)
        show "gives cats e P (Some (translate_atom cats a c))"
        proof (cases "ok2 \<and> AtomRanges cats a \<noteq> None")
          case False
          have "translate_atom cats a c = (0, if ok2 then kfail ''invalid character atom'' e else e)"
            using t \<open>ok\<close> None r False by (simp add: translate_atom_def e_def)
          moreover have "\<not> ok2 \<Longrightarrow> kfailed e" using reserve_step(1)[OF r] by (simp add: e_def kfailed_def)
          ultimately show ?thesis using gives_kfail gives_stop by (cases ok2) auto
        next
          case True
          then obtain rs where rs: "AtomRanges cats a = Some rs" by blast
          obtain i f where i: "atom_node rs e = (i, f)" by fastforce
          obtain ok3 g where g: "kcharge (of_nat (sum_list (map rune_size a) + 64)) 1 f = (ok3, g)" by fastforce
          have "translate_atom cats a c = (i, if ok3 then g\<lparr>kAtoms := (kAtoms g)(a \<mapsto> i)\<rparr> else g)"
            using t \<open>ok\<close> None r True rs i g by (simp add: translate_atom_def e_def atom_node_def)
          then show ?thesis using cache_atom[where P = P, OF e rs assms(2)[OF rs] i g] by simp
        qed
      qed (rule fe)
    qed
  qed
qed

lemma plain_atom_gives:
  assumes "\<not> kfailed c \<Longrightarrow> pinv cats c" "\<not> at_end c" "\<not> one_of ''()|'' (peek c)"
  shows "gives cats c (xsd_atom cats) (Some (plain_atom cats depth (peek c) (advance 1 c)))"
proof (cases "one_of ''*+?}]{'' (peek c)")
  case True
  then have "plain_atom cats depth (peek c) (advance 1 c) = (0, kfail ''quantifier without atom'' (advance 1 c))"
    by (auto simp: plain_atom_def one_of_def)
  then show ?thesis using gives_moves[OF moves_advance[OF assms(2)] gives_kfail] by simp
next
  case False
  define d where "d = advance 1 c"
  define e where "e = (if peek c = rn CHR 0x5C then scanEscape d else d)"
  obtain res f where f: "(if peek c = rn CHR ''['' then class_scan depth 1 e else (Some 0, e)) = (res, f)" by fastforce
  have "\<exists>s. moves d e s" using moves_scanEscape moves_refl by (auto simp: e_def)
  moreover have "\<exists>t. moves e f t"
    using f moves_class_scan[of e depth 1] moves_refl by (auto split: if_splits)
  ultimately obtain s where m: "moves c f (peek c # s)"
    using moves_trans[OF moves_advance[OF assms(2), folded d_def]] moves_trans by fastforce
  define a where "a = take (kPos f - kPos c) (drop (kPos c) (kSource f))"
  have a: "a = peek c # s" using moves_text[OF m] by (simp add: a_def)
  have step: "plain_atom cats depth (peek c) (advance 1 c) =
      (case res of None \<Rightarrow> (0, f)
       | Some n \<Rightarrow> if n \<noteq> 0 then (0, kfail ''unterminated character class'' f) else translate_atom cats a f)"
    using False f unfolding plain_atom_def one_of_def Let_def a_def e_def d_def by (cases res) simp_all
  show ?thesis
  proof (rule gives_moves[OF m])
    have inv: "\<not> kfailed f \<Longrightarrow> pinv cats f" using assms(1) m moves_state(1)[OF m] by (auto simp: moves_def)
    have "gives cats f (\<lambda>t. xsd_atom cats ((peek c # s) @ t)) (Some (translate_atom cats a f))"
    proof (rule translate_atom_gives[OF inv])
      fix rs assume "AtomRanges cats a = Some rs"
      then show "xsd_atom cats ((peek c # s) @ []) (rune_words rs)"
        using False assms(3) a by (auto simp: one_of_def intro!: char)
    qed
    moreover have "res = None \<Longrightarrow> kfailed f"
      using f class_scan_none[of depth 1 e] by (auto split: if_splits)
    ultimately show "gives cats f (\<lambda>t. xsd_atom cats ((peek c # s) @ t)) (Some (plain_atom cats depth (peek c) (advance 1 c)))"
      unfolding step using gives_kfail gives_stop by (auto split: option.split)
  qed
qed

subsection \<open>Quantifiers\<close>

definition digits_at :: "nat \<Rightarrow> rune list \<Rightarrow> rune list" where
  "digits_at i s = takeWhile (\<lambda>x. rn CHR ''0'' \<le> x \<and> x \<le> rn CHR ''9'') (drop i s)"

lemma drop_digits: "drop i s = digits_at i s @ drop (i + length (digits_at i s)) s"
proof -
  have "drop i s = digits_at i s @ drop (length (digits_at i s)) (drop i s)"
    unfolding digits_at_def by (metis takeWhile_dropWhile_id dropWhile_eq_drop)
  then show ?thesis by (simp add: add.commute)
qed

lemma digit_runes_at: "digits_at i s \<noteq> [] \<Longrightarrow> digit_runes (digits_at i s)"
  by (auto simp: digit_runes_def digits_at_def dest: set_takeWhileD)

lemma rune_digit:
  assumes "rn CHR ''0'' \<le> x" "x \<le> rn CHR ''9''"
  shows "is_digit (char_of x)"
proof -
  have "(of_char (char_of x :: char) :: int) = x" using assms by simp
  then have "int (of_char (char_of x :: char)) = x" by (metis of_nat_of_char)
  then show ?thesis using assms by (simp add: is_digit_def)
qed

lemma strip_zeros:
  assumes "\<forall>x \<in> set s. is_digit x" "t = dropWhile (\<lambda>x. x = CHR ''0'') s"
  shows "canonicalDecimal (if t = [] then ''0'' else t)" "nat_of_dec (if t = [] then ''0'' else t) = nat_of_dec s"
proof -
  have t: "\<forall>x \<in> set t. is_digit x" using assms by (auto dest: set_dropWhileD)
  have "t \<noteq> [] \<Longrightarrow> hd t \<noteq> CHR ''0''"
    using hd_dropWhile[of "\<lambda>x. x = CHR ''0''" s] unfolding assms(2) by simp
  then show "canonicalDecimal (if t = [] then ''0'' else t)"
    using t canonical_chars(1) by (cases t) (auto simp: canonicalDecimal_def list_all_iff)
  have "nat_of_dec (dropWhile (\<lambda>x. x = CHR ''0'') s) = nat_of_dec s"
    by (induction s) (auto simp: nat_of_dec_Cons digit_val_def)
  then have "nat_of_dec t = nat_of_dec s" unfolding assms(2) .
  then show "nat_of_dec (if t = [] then ''0'' else t) = nat_of_dec s"
    by (cases "t = []") (simp_all add: digit_val_def)
qed

lemma read_count_step:
  assumes "read_count i c = ((s, j), d)"
  defines "ds \<equiv> digits_at i (kSource c)"
  shows "moves c d []" "j = i + length ds" "ds = [] \<Longrightarrow> s = []"
    "\<not> kfailed d \<Longrightarrow> ds \<noteq> [] \<Longrightarrow> canonicalDecimal s \<and> nat_of_dec s = count_of ds"
proof -
  obtain ok e where t: "kcharge (len64 ds) (len64 ds) c = (ok, e)" by fastforce
  define u where "u = dropWhile (\<lambda>x. x = CHR ''0'') (map (\<lambda>x. char_of x) ds)"
  have step: "read_count i c =
     (if ds = [] then (([], i), c)
      else case limitError ''compile'' ''parse'' ''digits'' (cDigits (kLimits c)) (len64 ds) of
        Some e \<Rightarrow> (([], i + length ds), kabort e c)
      | None \<Rightarrow> if ok then ((if u = [] then ''0'' else u, i + length ds), e) else (([], i + length ds), e))"
    unfolding read_count_def digits_at_def[symmetric] ds_def[symmetric] Let_def u_def[symmetric] t prod.case
    by (auto split: option.split)
  have digits: "\<forall>x \<in> set (map (\<lambda>x. char_of x) ds). is_digit x"
    using digit_runes_at[of i "kSource c"] rune_digit by (cases "ds = []") (auto simp: ds_def digit_runes_def)
  have val: "canonicalDecimal (if u = [] then ''0'' else u)" "nat_of_dec (if u = [] then ''0'' else u) = count_of ds"
    using strip_zeros[OF digits u_def] unfolding count_of_def by blast+
  note m = moves_kcharge[OF t] moves_kabort moves_refl kcharge_step(2)[OF t]
  show "moves c d []" "j = i + length ds" "ds = [] \<Longrightarrow> s = []"
    using assms(1) m unfolding step by (auto split: if_splits option.splits)
  show "canonicalDecimal s \<and> nat_of_dec s = count_of ds" if "\<not> kfailed d" "ds \<noteq> []"
  proof -
    have "s = (if u = [] then ''0'' else u)"
      using assms(1) that kcharge_step(2)[OF t] unfolding step
      by (auto simp: kfailed_def kabort_def split: if_splits option.splits)
    with val show ?thesis by simp
  qed
qed

text \<open>The end of \<open>count_bounds\<close>, at the index of the closing brace.\<close>
definition count_end :: "nat \<Rightarrow> string \<Rightarrow> string \<Rightarrow> bool \<Rightarrow> nat \<Rightarrow> compiler \<Rightarrow> compiler" where
  "count_end start lo hi unb i c =
     (let c = c\<lparr>kPos := i + 1\<rparr>;
          c = (if \<not> unb \<and> decimalCompare lo hi > 0 then kfail ''reversed quantifier range'' c else c) in
      case limitError ''compile'' ''parse'' ''digits'' (cDigits (kLimits c)) (of_nat i - of_nat start) of
        Some e \<Rightarrow> kabort e c | None \<Rightarrow> c)"

lemma moves_to: "drop (kPos c) (kSource c) = s @ drop (kPos c + length s) (kSource c) \<Longrightarrow> p = kPos c + length s \<Longrightarrow>
    moves c (c\<lparr>kPos := p\<rparr>) s"
  by (simp add: moves_def consumed_def kfailed_def)

lemma count_end_moves:
  assumes "drop (kPos c) (kSource c) = s @ drop (kPos c + length s) (kSource c)" "Suc i = kPos c + length s"
  shows "moves c (count_end start lo hi unb i c) s"
    "\<not> kfailed (count_end start lo hi unb i c) \<Longrightarrow> unb \<or> decimalCompare lo hi \<le> 0"
proof -
  define d where "d = c\<lparr>kPos := i + 1\<rparr>"
  define e where "e = (if \<not> unb \<and> decimalCompare lo hi > 0 then kfail ''reversed quantifier range'' d else d)"
  have f: "count_end start lo hi unb i c = (case limitError ''compile'' ''parse'' ''digits'' (cDigits (kLimits e)) (of_nat i - of_nat start) of
        Some x \<Rightarrow> kabort x e | None \<Rightarrow> e)"
    unfolding count_end_def d_def e_def Let_def by (rule refl)
  have "moves c d s" using moves_to[OF assms(1)] assms(2) by (simp add: d_def)
  moreover have "moves d e []" using moves_kfail moves_refl by (simp add: e_def)
  moreover have "moves e (count_end start lo hi unb i c) []" unfolding f using moves_kabort moves_refl by (simp split: option.split)
  ultimately show "moves c (count_end start lo hi unb i c) s" using moves_trans by (metis append_Nil2)
  show "\<not> kfailed (count_end start lo hi unb i c) \<Longrightarrow> unb \<or> decimalCompare lo hi \<le> 0"
    unfolding f using moves_kabort(2) moves_kfail(2) by (auto simp: e_def not_less split: option.splits if_splits)
qed

lemma count_bounds_step:
  assumes "read_count (kPos c + 1) c = ((lo, i), c1)"
  shows "count_bounds c =
     (if lo = [] \<or> i = length (kSource c1) then (None, c1)
      else if kSource c1 ! i = rn CHR '','' then
        (case read_count (i + 1) c1 of ((hi, j), c2) \<Rightarrow>
           if length (kSource c2) \<le> j \<or> kSource c2 ! j \<noteq> rn CHR ''}'' then (None, c2)
           else (Some (lo, hi, hi = []), count_end (kPos c) lo hi (hi = []) j c2))
      else if length (kSource c1) \<le> i \<or> kSource c1 ! i \<noteq> rn CHR ''}'' then (None, c1)
      else (Some (lo, lo, False), count_end (kPos c) lo lo False i c1))"
  using assms by (auto simp: count_bounds_def count_end_def Let_def split: prod.splits option.splits)

lemma drop_nth: "i < length s \<Longrightarrow> drop i s = s ! i # drop (Suc i) s"
  by (simp add: Cons_nth_drop_Suc)

text \<open>A counted quantifier is read as the grammar has it.\<close>
lemma count_bounds_reads:
  assumes "sees c CHR ''{''" "count_bounds c = (res, d)"
  obtains s where "moves c d s"
    "\<And>lo hi unb. res = Some (lo, hi, unb) \<Longrightarrow> \<not> kfailed d \<Longrightarrow>
       bounds_fine lo hi unb \<and> xsd_quantifier s (nat_of_dec lo) (hi_of hi unb)"
proof -
  define src where "src = kSource c"
  define ds where "ds = digits_at (kPos c + 1) src"
  obtain lo i c1 where r1: "read_count (kPos c + 1) c = ((lo, i), c1)" by (metis prod.exhaust)
  note 1 = read_count_step[OF r1, folded src_def, folded ds_def]
  note step = count_bounds_step[OF r1]
  have c1: "kSource c1 = src" "kPos c1 = kPos c" using 1(1) by (simp_all add: moves_def consumed_def src_def)
  have head: "drop (kPos c) src = rn CHR ''{'' # ds @ drop i src"
    using drop_digits[of "kPos c + 1" src] assms(1) 1(2) drop_nth[of "kPos c" src] by (simp add: src_def ds_def)
  have m1: "moves c1 c2 s \<Longrightarrow> moves c c2 s" for c2 s using moves_trans[OF 1(1)] by simp
  have alive: "kfailed c1 \<Longrightarrow> kfailed e" if "moves c1 e s" for e s using that by (simp add: moves_def)
  consider (none) "res = None" "d = c1"
    | (none2) hi j where "res = None" "read_count (i + 1) c1 = ((hi, j), d)"
    | (range) hi j c2 where "lo \<noteq> []" "i < length src" "src ! i = rn CHR '',''" "read_count (i + 1) c1 = ((hi, j), c2)"
        "j < length src" "src ! j = rn CHR ''}''" "res = Some (lo, hi, hi = [])" "d = count_end (kPos c) lo hi (hi = []) j c2"
    | (exact) "lo \<noteq> []" "i < length src" "src ! i = rn CHR ''}''" "res = Some (lo, lo, False)" "d = count_end (kPos c) lo lo False i c1"
  proof (cases "lo = [] \<or> i = length src")
    case True
    then show thesis using none assms(2) step c1 by simp
  next
    case no: False
    have i: "i < length src"
      using no arg_cong[OF head, of length] assms(1) 1(2) by (simp add: src_def) linarith
    show thesis
    proof (cases "src ! i = rn CHR '',''")
      case True
      obtain hi j c2 where r2: "read_count (i + 1) c1 = ((hi, j), c2)" by (metis prod.exhaust)
      have "kSource c2 = src" using read_count_step(1)[OF r2] c1 by (simp add: moves_def consumed_def)
      then have "count_bounds c = (if length src \<le> j \<or> src ! j \<noteq> rn CHR ''}'' then (None, c2)
          else (Some (lo, hi, hi = []), count_end (kPos c) lo hi (hi = []) j c2))"
        using no True c1 unfolding step r2 by simp
      then show thesis using none2[of hi j] range[OF _ i True r2] no r2 assms(2) by (auto split: if_splits)
    next
      case False
      then have "count_bounds c = (if src ! i \<noteq> rn CHR ''}'' then (None, c1) else (Some (lo, lo, False), count_end (kPos c) lo lo False i c1))"
        using no i c1 unfolding step by simp
      then show thesis using none exact[OF _ i] no assms(2) by (auto split: if_splits)
    qed
  qed
  then show thesis
  proof cases
    case none
    then show ?thesis using that[of "[]"] m1[OF moves_refl] by simp
  next
    case none2
    then show ?thesis using that[of "[]"] m1[OF read_count_step(1)[OF none2(2)]] by simp
  next
    case range
    define es where "es = digits_at (i + 1) src"
    note 2 = read_count_step[OF range(4), unfolded c1, folded es_def]
    have c2: "kSource c2 = src" "kPos c2 = kPos c" using 2(1) c1 by (simp_all add: moves_def consumed_def)
    define s where "s = rn CHR ''{'' # ds @ rn CHR '','' # es @ [rn CHR ''}'']"
    have len: "Suc j = kPos c2 + length s" using 2(2) 1(2) c2 by (simp add: s_def)
    have tail: "drop i src = rn CHR '','' # es @ rn CHR ''}'' # drop (Suc j) src"
      using drop_nth[OF range(2)] range(3) drop_digits[of "i + 1" src] 2(2) drop_nth[OF range(5)] range(6) by (simp add: es_def)
    have "drop (kPos c2) (kSource c2) = s @ drop (kPos c2 + length s) (kSource c2)"
      using head tail unfolding len[symmetric] unfolding c2 by (simp add: s_def)
    note e = count_end_moves[OF this len, of "kPos c" lo hi "hi = []", folded range(8)]
    show ?thesis
    proof (rule that[OF m1])
      show "moves c1 d s" using moves_trans[OF 2(1) e(1)] by simp
      fix lo' hi' unb assume r: "res = Some (lo', hi', unb)" and d: "\<not> kfailed d"
      have nf: "\<not> kfailed c2" "\<not> kfailed c1" using d e(1) 2(1) by (auto simp: moves_def)
      have ds: "ds \<noteq> []" "digit_runes ds" using 1(3) range(1) digit_runes_at[of "kPos c + 1" src] by (auto simp: ds_def)
      have lo: "canonicalDecimal lo" "nat_of_dec lo = count_of ds" using 1(4) nf ds by auto
      show "bounds_fine lo' hi' unb \<and> xsd_quantifier s (nat_of_dec lo') (hi_of hi' unb)"
      proof (cases "es = []")
        case True
        then have "hi = []" using 2(3) by simp
        then show ?thesis using r range(7) lo True at_least[OF ds(2)] by (simp add: bounds_fine_def hi_of_def s_def)
      next
        case False
        have hi: "canonicalDecimal hi" "nat_of_dec hi = count_of es" using 2(4) nf False by auto
        then have "hi \<noteq> []" by (auto simp: canonicalDecimal_def)
        moreover have "nat_of_dec lo \<le> nat_of_dec hi" using e(2)[OF d] \<open>hi \<noteq> []\<close> decimalCompare_numeric[OF lo(1) hi(1)] by auto
        moreover have "digit_runes es" using False digit_runes_at[of "i + 1" src] by (simp add: es_def)
        ultimately show ?thesis using r range(7) lo hi between[OF ds(2), of es] by (simp add: bounds_fine_def hi_of_def s_def)
      qed
    qed
  next
    case exact
    define s where "s = rn CHR ''{'' # ds @ [rn CHR ''}'']"
    have len: "Suc i = kPos c1 + length s" using 1(2) c1 by (simp add: s_def)
    have "drop (kPos c1) (kSource c1) = s @ drop (kPos c1 + length s) (kSource c1)"
      using head drop_nth[OF exact(2)] exact(3) unfolding len[symmetric] unfolding c1 by (simp add: s_def)
    note e = count_end_moves[OF this len, of "kPos c" lo lo False, folded exact(5)]
    show ?thesis
    proof (rule that[OF m1[OF e(1)]])
      fix lo' hi' unb assume r: "res = Some (lo', hi', unb)" and d: "\<not> kfailed d"
      have ds: "ds \<noteq> []" "digit_runes ds" using 1(3) exact(1) digit_runes_at[of "kPos c + 1" src] by (auto simp: ds_def)
      have "\<not> kfailed c1" using d e(1) by (auto simp: moves_def)
      then have lo: "canonicalDecimal lo" "nat_of_dec lo = count_of ds" using 1(4) ds by auto
      then show "bounds_fine lo' hi' unb \<and> xsd_quantifier s (nat_of_dec lo') (hi_of hi' unb)"
        using r exact(4) xsd_quantifier.exact[OF ds(2)] by (auto simp: bounds_fine_def hi_of_def s_def)
    qed
  qed
qed

lemma repeated_gives:
  assumes "\<not> kfailed c \<Longrightarrow> pinv cats c \<and> kvalid c i \<and> xsd_atom cats s (klang c i)"
    and "moves c d q" "\<not> kfailed d \<Longrightarrow> bounds_fine lo hi unb \<and> xsd_quantifier q (nat_of_dec lo) (hi_of hi unb)"
  shows "gives cats c (\<lambda>t. xsd_piece cats (s @ t)) (repeat i lo hi unb d)"
proof (rule gives_moves[OF assms(2)], rule gives_runs[OF repeat_runs])
  have nfc: "\<not> kfailed d \<Longrightarrow> \<not> kfailed c" using assms(2) by (auto simp: moves_def)
  note eqs = moves_state[OF assms(2)]
  show "\<not> kfailed d \<Longrightarrow> pinv cats d" using assms(1) nfc eqs by simp
  then show "\<not> kfailed d \<Longrightarrow> kinv d \<and> kvalid d i \<and> bounds_fine lo hi unb" using assms(1,3) nfc eqs pinv_kinv by auto
  show "\<not> kfailed d \<Longrightarrow> xsd_piece cats (s @ q @ []) (reps (klang d i) (nat_of_dec lo) (hi_of hi unb))"
    using assms(1,3) nfc eqs(3) repeated by auto
qed

lemma bounds_fine_simple:
  "bounds_fine ''0'' [] True" "bounds_fine ''1'' [] True" "bounds_fine ''0'' ''1'' False"
  "hi_of [] True = None" "hi_of ''1'' False = Some 1"
  by (simp_all add: bounds_fine_def hi_of_def canonical_chars digit_val_def)

lemma otherwise:
  "x = (if a then p else if b then q else if e then r else if f then t else v) \<Longrightarrow> \<not> a \<Longrightarrow> \<not> b \<Longrightarrow> \<not> e \<Longrightarrow> \<not> f \<Longrightarrow> x = v"
  by simp

lemma quantified_gives:
  assumes "\<not> kfailed c \<Longrightarrow> pinv cats c \<and> kvalid c i \<and> xsd_atom cats s (klang c i)"
  shows "gives cats c (\<lambda>t. xsd_piece cats (s @ t)) (quantified i c)"
proof -
  have rep: "moves c d q \<Longrightarrow> (\<not> kfailed d \<Longrightarrow> bounds_fine lo hi unb \<and> xsd_quantifier q (nat_of_dec lo) (hi_of hi unb)) \<Longrightarrow>
      gives cats c (\<lambda>t. xsd_piece cats (s @ t)) (repeat i lo hi unb d)" for d q lo hi unb
    by (rule repeated_gives) (use assms in auto)
  note adv = moves_advance[of c]
  consider "sees c CHR ''*''" | "sees c CHR ''+''" | "sees c CHR ''?''" | "sees c CHR ''{''"
    | "quantified i c = Some (i, c)"
    using otherwise[OF quantified_def, of c i] by blast
  then show ?thesis
  proof cases
    case 1
    then show ?thesis using rep[OF adv, of "''0''" "[]" True] xsd_quantifier.star
      by (simp add: quantified_def bounds_fine_simple digit_val_def)
  next
    case 2
    then show ?thesis using rep[OF adv, of "''1''" "[]" True] xsd_quantifier.plus
      by (simp add: quantified_def bounds_fine_simple digit_val_def)
  next
    case 3
    then show ?thesis using rep[OF adv, of "''0''" "''1''" False] xsd_quantifier.opt
      by (simp add: quantified_def bounds_fine_simple digit_val_def)
  next
    case 4
    obtain res d where r: "count_bounds c = (res, d)" by fastforce
    obtain q where q: "moves c d q" "\<And>lo hi unb. res = Some (lo, hi, unb) \<Longrightarrow> \<not> kfailed d \<Longrightarrow>
       bounds_fine lo hi unb \<and> xsd_quantifier q (nat_of_dec lo) (hi_of hi unb)" using count_bounds_reads[OF 4 r] by blast
    show ?thesis
    proof (cases res)
      case None
      then have "quantified i c = Some (i, kfail ''malformed quantifier'' d)" using 4 r by (simp add: quantified_def)
      then show ?thesis using gives_moves[OF q(1) gives_kfail] by simp
    next
      case (Some b)
      then obtain lo hi unb where b: "res = Some (lo, hi, unb)" by (cases b) auto
      then have "quantified i c = repeat i lo hi unb d" using 4 r by (simp add: quantified_def)
      then show ?thesis using rep[OF q(1), of lo hi unb] q(2)[OF b] by simp
    qed
  next
    case 5
    then show ?thesis using assms once by (auto intro!: gives_same)
  qed
qed

subsection \<open>Balanced concatenation\<close>

fun concs :: "'a lang list \<Rightarrow> 'a lang" where
  "concs [] = {[]}"
| "concs (L # Ls) = conc L (concs Ls)"

lemma concs_snoc: "concs (Ls @ [M]) = conc (concs Ls) M"
  by (induction Ls) (simp_all add: conc_assoc)

abbreviation all_valid :: "compiler \<Rightarrow> nat list \<Rightarrow> bool" where
  "all_valid c ts \<equiv> \<forall>t \<in> set ts. kvalid c t"

lemma all_valid_later: "kinv c \<Longrightarrow> kext c d \<Longrightarrow> all_valid c ts \<Longrightarrow> all_valid d ts \<and> map (klang d) ts = map (klang c) ts"
  using call_ok_later by auto

lemma join_pairs_ok:
  "join_pairs ts c = (us, d) \<Longrightarrow> kframe c d \<and>
     (\<not> kfailed d \<longrightarrow> kinv c \<longrightarrow> all_valid c ts \<longrightarrow>
       kinv d \<and> kext c d \<and> all_valid d us \<and> concs (map (klang d) us) = concs (map (klang c) ts))"
proof (induction ts c arbitrary: us d rule: join_pairs.induct)
  case (1 a b ts c)
  obtain i e where i: "binary OpConcat a b c = (i, e)" by fastforce
  obtain vs f where v: "join_pairs ts e = (vs, f)" by fastforce
  have r: "us = i # vs" "d = f" using "1.prems" i v by auto
  note IH = "1.IH"[OF i[symmetric] refl v]
  have fr: "kframe c d" using kframe_trans[OF binary_frame[of c OpConcat a b]] IH i r by simp
  have "kinv d \<and> kext c d \<and> all_valid d us \<and> concs (map (klang d) us) = concs (map (klang c) (a # b # ts))"
    if nf: "\<not> kfailed d" and k: "kinv c" and av: "all_valid c (a # b # ts)"
  proof -
    have ne: "\<not> kfailed e" using nf kframe_failed IH r by blast
    have "kc.denotes c (conc (klang c a) (klang c b)) (i, e)" using binary_concat[of c a b] k av i by simp
    note den = kc.denotesD[OF this ne]
    have e: "all_valid e ts \<and> map (klang e) ts = map (klang c) ts" using all_valid_later[OF k den(3), of ts] av by simp
    then have rest: "kinv f \<and> kext e f \<and> all_valid f vs \<and> concs (map (klang f) vs) = concs (map (klang e) ts)"
      using IH nf r den by simp
    then have "kvalid f i \<and> klang f i = klang e i" using call_ok_later[OF den(2) _ den(4)] by blast
    moreover have "map (klang e) ts = map (klang c) ts" using e by blast
    ultimately show ?thesis using rest r den kc.ext_trans[OF den(3), of f] by (simp add: conc_assoc del: map_eq_conv)
  qed
  with fr show ?case by blast
qed (auto simp: kext_def)

lemma join_terms_runs:
  "(\<not> kfailed c \<Longrightarrow> kinv c \<and> all_valid c ts) \<Longrightarrow> runs c (concs (map (klang c) ts)) (Some (join_terms ts c))"
proof (induction ts c rule: join_terms.induct)
  case (1 ts c)
  consider "ts = []" | t where "ts = [t]" | "1 < length ts" by (cases ts rule: list.exhaust) (auto simp: Suc_lessI)
  then show ?case
  proof cases
    case 1
    then have "join_terms ts c = (1, c)" by (subst join_terms.simps) simp
    then show ?thesis using 1 "1.prems" kinv_special[of c] by (auto intro!: runs_pure kc.denotes_same)
  next
    case (2 t)
    then have "join_terms ts c = (t, c)" by (subst join_terms.simps) simp
    then show ?thesis using 2 "1.prems" by (auto intro!: runs_pure kc.denotes_same)
  next
    case 3
    obtain us d where j: "join_pairs ts c = (us, d)" by fastforce
    have ok: "kframe c d" "\<not> kfailed d \<Longrightarrow> kinv c \<Longrightarrow> all_valid c ts \<Longrightarrow>
        kinv d \<and> kext c d \<and> all_valid d us \<and> concs (map (klang d) us) = concs (map (klang c) ts)"
      using join_pairs_ok[OF j] by blast+
    have ne: "ts \<noteq> []" using 3 by auto
    have step: "join_terms ts c = join_terms us d" using 3 j by (subst join_terms.simps) auto
    have nfc: "\<not> kfailed d \<Longrightarrow> \<not> kfailed c" using kframe_failed[OF ok(1)] by blast
    have "runs d (concs (map (klang d) us)) (Some (join_terms us d))"
      using "1.IH" 3 ne j ok(2) nfc "1.prems" by auto
    then have "runs d (concs (map (klang c) ts)) (Some (join_terms us d))" if "\<not> kfailed d"
      using ok(2)[OF that] nfc[OF that] "1.prems" by simp
    moreover have "runs d L (Some (join_terms us d))" if "kfailed d" for L
      using \<open>runs d (concs (map (klang d) us)) _\<close> that by (simp add: runs_def)
    ultimately show ?thesis unfolding step
      using runs_then[OF ok(1)] ok(2) nfc "1.prems" by blast
  qed
qed

subsection \<open>Every call returns a node of the grammar\<close>

fun call_pre :: "compiler \<Rightarrow> parse_call \<Rightarrow> bool" where
  "call_pre c (Alternatives depth x) \<longleftrightarrow> kvalid c x"
| "call_pre c (Terms depth ts) \<longleftrightarrow> all_valid c ts"
| "call_pre c _ \<longleftrightarrow> True"

fun call_here :: "compiler \<Rightarrow> parse_call \<Rightarrow> bool" where
  "call_here c (Atom depth) \<longleftrightarrow> \<not> at_end c \<and> \<not> one_of '')|'' (peek c)"
| "call_here c _ \<longleftrightarrow> True"

fun call_post :: "categories \<Rightarrow> compiler \<Rightarrow> parse_call \<Rightarrow> rune list \<Rightarrow> rune lang \<Rightarrow> bool" where
  "call_post cats c (Expression depth) s L \<longleftrightarrow> xsd_expr cats s L"
| "call_post cats c (Alternatives depth x) s L \<longleftrightarrow> (\<forall>s0. xsd_expr cats s0 (klang c x) \<longrightarrow> xsd_expr cats (s0 @ s) L)"
| "call_post cats c (Terms depth ts) s L \<longleftrightarrow> (\<forall>s0. xsd_seq cats s0 (concs (map (klang c) ts)) \<longrightarrow> xsd_seq cats (s0 @ s) L)"
| "call_post cats c (Atom depth) s L \<longleftrightarrow> s \<noteq> [] \<and> xsd_atom cats s L"

fun call_weight :: "parse_call \<Rightarrow> nat" where
  "call_weight (Expression depth) = 3"
| "call_weight (Alternatives depth x) = 2"
| "call_weight (Terms depth ts) = 2"
| "call_weight (Atom depth) = 1"

abbreviation parse_good :: "categories \<Rightarrow> parse_call \<Rightarrow> compiler \<Rightarrow> bool" where
  "parse_good cats call c \<equiv> gives cats c (call_post cats c call) (parse cats call c)"

lemma parse_expression:
  "parse cats (Expression depth) c =
     (case limitError ''compile'' ''parse'' ''depth'' (cDepth (kLimits c)) depth of
        Some e \<Rightarrow> Some (0, kabort e c)
      | None \<Rightarrow> Option.bind (parse cats (Terms depth []) c) (\<lambda>(x, c). parse cats (Alternatives depth x) c))"
  by (subst parse.simps) simp

lemma parse_alternatives:
  "parse cats (Alternatives depth x) c =
     (if sees c CHR ''|'' \<and> fst (tick c) then
        Option.bind (parse cats (Terms depth []) (advance 1 (snd (tick c)))) (\<lambda>(y, c).
          parse cats (Alternatives depth (fst (binary OpAlternate x y c))) (snd (binary OpAlternate x y c)))
      else Some (x, if sees c CHR ''|'' then snd (tick c) else c))"
  by (subst parse.simps) (simp add: Let_def)

text \<open>After an atom: the quantifier, the charge for the term, and the rest of the terms.\<close>
definition after_atom :: "categories \<Rightarrow> u64 \<Rightarrow> nat list \<Rightarrow> nat \<times> compiler \<Rightarrow> (nat \<times> compiler) option" where
  "after_atom cats depth ts = (\<lambda>(i, c).
     if kfailed c then Some (0, c)
     else Option.bind (quantified i c) (\<lambda>(i, c).
       if \<not> fst (kcharge 8 1 c) then Some (0, snd (kcharge 8 1 c))
       else parse cats (Terms depth (ts @ [i])) (snd (kcharge 8 1 c))))"

lemma parse_terms:
  "parse cats (Terms depth ts) c =
     (if \<not> at_end c \<and> peek c \<noteq> rn CHR '')'' \<and> peek c \<noteq> rn CHR ''|'' then
        if fst (tick c) then Option.bind (parse cats (Atom depth) (snd (tick c))) (after_atom cats depth ts)
        else Some (join_terms ts (snd (tick c)))
      else Some (join_terms ts c))"
  by (subst parse.simps) (unfold Let_def after_atom_def kfailed_def, simp)

lemma parse_atom:
  "parse cats (Atom depth) c =
     (if peek c = rn CHR ''('' then
        Option.bind (parse cats (Expression (depth + 1)) (advance 1 c)) (\<lambda>(i, c).
          if \<not> sees c CHR '')'' then Some (0, kfail ''unterminated group'' c) else Some (i, advance 1 c))
      else Some (plain_atom cats depth (peek c) (advance 1 c)))"
  by (subst parse.simps) (simp add: Let_def)

text \<open>What the calls inside one call may rely on.\<close>
definition inner_good :: "categories \<Rightarrow> nat \<Rightarrow> bool" where
  "inner_good cats w \<longleftrightarrow>
     (\<forall>call d. 4 * left d + call_weight call < w \<longrightarrow> call_here d call \<longrightarrow>
        (\<not> kfailed d \<longrightarrow> pinv cats d \<and> call_pre d call) \<longrightarrow> parse_good cats call d)"

lemma innerD:
  "inner_good cats w \<Longrightarrow> 4 * left d + call_weight call < w \<Longrightarrow> call_here d call \<Longrightarrow>
     (\<not> kfailed d \<Longrightarrow> pinv cats d \<and> call_pre d call) \<Longrightarrow> parse_good cats call d"
  by (simp add: inner_good_def)

lemma consumed_left: "consumed c d s \<Longrightarrow> left d + length s = left c \<or> length s = 0"
  unfolding consumed_def by (metis add_diff_cancel_left' add_diff_cancel_right' length_append length_drop add.commute)

lemma consumed_left_le: "consumed c d s \<Longrightarrow> left d \<le> left c"
  using consumed_def by (simp add: consumed_def)

lemma terms_start: "call_post cats c (Terms depth []) s L \<Longrightarrow> xsd_seq cats s L"
  using no_pieces[of cats] by (auto dest: spec[of _ "[]"])

lemma expression_good:
  assumes "inner_good cats (4 * left c + 3)" "\<not> kfailed c \<Longrightarrow> pinv cats c"
  shows "parse_good cats (Expression depth) c"
proof (cases "limitError ''compile'' ''parse'' ''depth'' (cDepth (kLimits c)) depth")
  case (Some e)
  then show ?thesis using gives_kabort by (simp add: parse_expression)
next
  case None
  have "gives cats c (xsd_expr cats)
      (Option.bind (parse cats (Terms depth []) c) (\<lambda>(x, c). parse cats (Alternatives depth x) c))"
  proof (rule gives_bind)
    show "parse_good cats (Terms depth []) c" using assms by (intro innerD) auto
  next
    fix i d s
    assume d: "consumed c d s" "\<not> kfailed d \<Longrightarrow> \<not> kfailed c \<and> pinv cats d \<and> kext c d \<and> kvalid d i \<and>
        call_post cats c (Terms depth []) s (klang d i)"
    have "parse_good cats (Alternatives depth i) d"
      using assms d consumed_left_le[OF d(1)] by (intro innerD) auto
    moreover have "xsd_expr cats s (klang d i)" if "\<not> kfailed d"
      using d(2)[OF that] terms_start one by blast
    ultimately show "gives cats d (\<lambda>t. xsd_expr cats (s @ t)) (case (i, d) of (x, c) \<Rightarrow> parse cats (Alternatives depth x) c)"
      unfolding prod.case by (elim gives_mono) simp
  qed
  moreover have "call_post cats c (Expression depth) = xsd_expr cats" by (simp add: fun_eq_iff)
  ultimately show ?thesis using None by (simp add: parse_expression)
qed

lemma alternative_good:
  assumes "inner_good cats (4 * left c + 2)" "\<not> kfailed c \<Longrightarrow> pinv cats c \<and> kvalid c x"
    and "sees c CHR ''|''" "tick c = (True, d)"
  shows "gives cats c (call_post cats c (Alternatives depth x))
     (Option.bind (parse cats (Terms depth []) (advance 1 d)) (\<lambda>(y, c).
        parse cats (Alternatives depth (fst (binary OpAlternate x y c))) (snd (binary OpAlternate x y c))))"
proof -
  have nd: "\<not> at_end d" "peek d = rn CHR ''|''" using tick_fields[OF assms(4)] assms(3) by auto
  have m: "moves c (advance 1 d) [rn CHR ''|'']" using moves_trans[OF moves_tick[OF assms(4)] moves_advance[OF nd(1)]] nd(2) by simp
  have less: "left (advance 1 d) < left c" using moves_left[OF m] assms(3) by simp linarith
  show ?thesis
  proof (rule gives_moves[OF m], rule gives_bind)
    show "parse_good cats (Terms depth []) (advance 1 d)"
      using assms(1,2) less m moves_state[OF m] by (intro innerD) (auto simp: moves_def)
  next
    fix y e s
    assume e: "consumed (advance 1 d) e s" "\<not> kfailed e \<Longrightarrow> \<not> kfailed (advance 1 d) \<and> pinv cats e \<and> kext (advance 1 d) e \<and>
        kvalid e y \<and> call_post cats (advance 1 d) (Terms depth []) s (klang e y)"
    obtain z f where z: "binary OpAlternate x y e = (z, f)" by fastforce
    have fr: "kframe e f" using binary_frame[of e OpAlternate x y] z by simp
    have ok: "pinv cats f \<and> kext e f \<and> kvalid f z \<and> klang f z = klang c x \<union> klang e y \<and> xsd_seq cats s (klang e y)"
      if nf: "\<not> kfailed f"
    proof -
      have ne: "\<not> kfailed e" using nf kframe_failed[OF fr] by blast
      note ee = e(2)[OF ne]
      have c: "pinv cats c \<and> kvalid c x" using ee m assms(2) by (auto simp: moves_def)
      then have x: "kvalid e x \<and> klang e x = klang c x"
        using call_ok_later[OF pinv_kinv, of cats "advance 1 d" e x] ee moves_state[OF m] by auto
      have "kc.denotes e (klang e x \<union> klang e y) (z, f)" using binary_alternate[of e x y] pinv_kinv x ee z by auto
      note den = kc.denotesD[OF this nf]
      have "pinv cats f" using pinv_later[OF _ den(2,3)] ee fr by (auto simp: kframe_def)
      moreover have "xsd_seq cats s (klang e y)" using ee terms_start by blast
      ultimately show ?thesis using den x ee by simp
    qed
    have "parse_good cats (Alternatives depth z) f"
      using assms(1) less consumed_left_le[OF e(1)] consumed_left_le[OF consumed_frame[OF fr]] ok by (intro innerD) auto
    then have "gives cats f (\<lambda>t. call_post cats c (Alternatives depth x) ([rn CHR ''|''] @ s @ [] @ t)) (parse cats (Alternatives depth z) f)"
      by (rule gives_mono) (use ok alternate[of cats] in fastforce)
    then show "gives cats e (\<lambda>t. call_post cats c (Alternatives depth x) ([rn CHR ''|''] @ s @ t)) (case (y, e) of (y, c) \<Rightarrow>
        parse cats (Alternatives depth (fst (binary OpAlternate x y c))) (snd (binary OpAlternate x y c)))"
      unfolding prod.case z fst_conv snd_conv
      by (intro gives_then[OF consumed_frame[OF fr]]) (use kframe_failed[OF fr] ok in auto)
  qed
qed

lemma after_atom_good:
  assumes "inner_good cats (4 * w)" "left c < w"
    and "\<not> kfailed c \<Longrightarrow> pinv cats c \<and> kvalid c i \<and> all_valid c ts \<and> xsd_atom cats s (klang c i)"
  shows "gives cats c (\<lambda>t L. \<forall>s0. xsd_seq cats s0 (concs (map (klang c) ts)) \<longrightarrow> xsd_seq cats (s0 @ s @ t) L)
     (after_atom cats depth ts (i, c))"
proof (cases "kfailed c")
  case True
  then show ?thesis by (simp add: after_atom_def gives_stop)
next
  case False
  note c = assms(3)[OF False]
  have "gives cats c (\<lambda>t L. \<forall>s0. xsd_seq cats s0 (concs (map (klang c) ts)) \<longrightarrow> xsd_seq cats (s0 @ s @ t) L)
      (Option.bind (quantified i c) (\<lambda>(i, c). if \<not> fst (kcharge 8 1 c) then Some (0, snd (kcharge 8 1 c))
         else parse cats (Terms depth (ts @ [i])) (snd (kcharge 8 1 c))))"
  proof (rule gives_bind)
    show "gives cats c (\<lambda>t. xsd_piece cats (s @ t)) (quantified i c)" using quantified_gives c by blast
  next
    fix j d q
    assume d: "consumed c d q" "\<not> kfailed d \<Longrightarrow> \<not> kfailed c \<and> pinv cats d \<and> kext c d \<and> kvalid d j \<and> xsd_piece cats (s @ q) (klang d j)"
    obtain ok e where t: "kcharge 8 1 d = (ok, e)" by fastforce
    note m = moves_kcharge[OF t]
    have ok: "pinv cats e \<and> all_valid e (ts @ [j]) \<and> map (klang e) ts = map (klang c) ts \<and> xsd_piece cats (s @ q) (klang e j)"
      if "\<not> kfailed e"
    proof -
      have dd: "pinv cats d" "kext c d" "kvalid d j" "xsd_piece cats (s @ q) (klang d j)"
        using d(2) that m by (auto simp: moves_def)
      have "all_valid d ts \<and> map (klang d) ts = map (klang c) ts" using all_valid_later[OF pinv_kinv dd(2)] c by blast
      then show ?thesis using dd moves_state[OF m] by simp
    qed
    have "parse_good cats (Terms depth (ts @ [j])) e"
      using assms(1,2) consumed_left_le[OF d(1)] moves_left[OF m] ok by (intro innerD) auto
    then have "gives cats e (\<lambda>t L. \<forall>s0. xsd_seq cats s0 (concs (map (klang c) ts)) \<longrightarrow> xsd_seq cats (s0 @ s @ q @ [] @ t) L)
        (parse cats (Terms depth (ts @ [j])) e)"
    proof (rule gives_mono)
      fix t L assume e: "\<not> kfailed e" and P: "call_post cats e (Terms depth (ts @ [j])) t L"
      show "\<forall>s0. xsd_seq cats s0 (concs (map (klang c) ts)) \<longrightarrow> xsd_seq cats (s0 @ s @ q @ [] @ t) L"
      proof (intro allI impI)
        fix s0 assume "xsd_seq cats s0 (concs (map (klang c) ts))"
        then have "xsd_seq cats (s0 @ s @ q) (concs (map (klang e) (ts @ [j])))"
          using then_piece[of cats] ok[OF e] by (simp add: concs_snoc del: map_eq_conv)
        then show "xsd_seq cats (s0 @ s @ q @ [] @ t) L" using P by fastforce
      qed
    qed
    moreover have "\<not> ok \<Longrightarrow> kfailed e" using kcharge_step(2)[OF t] by (simp add: kfailed_def)
    ultimately have "gives cats e (\<lambda>t L. \<forall>s0. xsd_seq cats s0 (concs (map (klang c) ts)) \<longrightarrow> xsd_seq cats (s0 @ s @ q @ [] @ t) L)
        (if \<not> ok then Some (0, e) else parse cats (Terms depth (ts @ [j])) e)" using gives_stop by auto
    from gives_moves[OF m this]
    show "gives cats d (\<lambda>t L. \<forall>s0. xsd_seq cats s0 (concs (map (klang c) ts)) \<longrightarrow> xsd_seq cats (s0 @ s @ q @ t) L)
        (case (j, d) of (i, c) \<Rightarrow> if \<not> fst (kcharge 8 1 c) then Some (0, snd (kcharge 8 1 c))
         else parse cats (Terms depth (ts @ [i])) (snd (kcharge 8 1 c)))"
      unfolding prod.case t fst_conv snd_conv append_Nil .
  qed
  then show ?thesis using False by (simp add: after_atom_def)
qed

lemma terms_end:
  assumes "moves c d []" "\<not> kfailed c \<Longrightarrow> pinv cats c \<and> all_valid c ts"
  shows "gives cats c (call_post cats c (Terms depth ts)) (Some (join_terms ts d))"
proof (rule gives_moves[OF assms(1)], rule gives_runs[OF join_terms_runs])
  have "\<not> kfailed d \<Longrightarrow> \<not> kfailed c" using assms(1) by (auto simp: moves_def)
  then show "\<not> kfailed d \<Longrightarrow> pinv cats d" "\<not> kfailed d \<Longrightarrow> kinv d \<and> all_valid d ts"
    using assms(2) moves_state[OF assms(1)] pinv_kinv by auto
  show "call_post cats c (Terms depth ts) ([] @ []) (concs (map (klang d) ts))"
    using moves_state(3)[OF assms(1)] by simp
qed

lemma terms_good:
  assumes "inner_good cats (4 * left c + 2)" "\<not> kfailed c \<Longrightarrow> pinv cats c \<and> all_valid c ts"
  shows "parse_good cats (Terms depth ts) c"
proof (cases "\<not> at_end c \<and> \<not> one_of '')|'' (peek c)")
  case False
  then have "parse cats (Terms depth ts) c = Some (join_terms ts c)" unfolding parse_terms one_of_def by auto
  then show ?thesis using terms_end[OF moves_refl] assms(2) by simp
next
  case True
  obtain ok d where t: "tick c = (ok, d)" by fastforce
  note m = moves_tick[OF t]
  have step: "parse cats (Terms depth ts) c =
      (if ok then Option.bind (parse cats (Atom depth) d) (after_atom cats depth ts) else Some (join_terms ts d))"
    using True t unfolding parse_terms one_of_def by auto
  show ?thesis
  proof (cases ok)
    case no: False
    then show ?thesis using terms_end[OF m] assms(2) step by simp
  next
    case ok: True
    have here: "call_here d (Atom depth)" using True tick_fields[OF t] by simp
    have d: "\<not> kfailed d \<Longrightarrow> pinv cats d \<and> all_valid d ts" using assms(2) m moves_state[OF m] by (auto simp: moves_def)
    have "gives cats d (call_post cats c (Terms depth ts)) (Option.bind (parse cats (Atom depth) d) (after_atom cats depth ts))"
    proof (rule gives_bind)
      show "parse_good cats (Atom depth) d" using assms(1) moves_left[OF m] here d by (intro innerD) auto
    next
      fix i e s
      assume e: "consumed d e s" "\<not> kfailed e \<Longrightarrow> \<not> kfailed d \<and> pinv cats e \<and> kext d e \<and> kvalid e i \<and> call_post cats d (Atom depth) s (klang e i)"
      show "gives cats e (\<lambda>t. call_post cats c (Terms depth ts) (s @ t)) (after_atom cats depth ts (i, e))"
      proof (cases "kfailed e")
        case True
        then show ?thesis by (simp add: after_atom_def gives_stop)
      next
        case False
        note e' = e(2)[OF False]
        have "left e < left c"
          using consumed_left[OF e(1)] e' moves_left[OF m] by (cases s) auto
        moreover have "all_valid e ts \<and> map (klang e) ts = map (klang c) ts"
          using all_valid_later[OF pinv_kinv, of cats d e ts] d e' moves_state(3)[OF m] by auto
        moreover have "inner_good cats (4 * left c)" using assms(1) by (simp add: inner_good_def)
        moreover have "(\<lambda>t. call_post cats c (Terms depth ts) (s @ t)) =
            (\<lambda>t L. \<forall>s0. xsd_seq cats s0 (concs (map (klang c) ts)) \<longrightarrow> xsd_seq cats (s0 @ s @ t) L)" by (simp add: fun_eq_iff)
        ultimately show ?thesis using after_atom_good[of cats "left c" e i ts s depth] e' by (simp del: map_eq_conv)
      qed
    qed
    then show ?thesis using gives_moves[OF m] step ok by simp
  qed
qed

lemma atom_good:
  assumes "inner_good cats (4 * left c + 1)" "\<not> kfailed c \<Longrightarrow> pinv cats c" "call_here c (Atom depth)"
  shows "parse_good cats (Atom depth) c"
proof -
  have eq: "call_post cats c (Atom depth) = (\<lambda>s L. s \<noteq> [] \<and> xsd_atom cats s L)" by (simp add: fun_eq_iff)
  have ne: "xsd_atom cats s L \<Longrightarrow> s \<noteq> []" for s L by (auto elim: xsd_atom.cases)
  note m = moves_advance[of c]
  show ?thesis
  proof (cases "peek c = rn CHR ''(''")
    case False
    then have "gives cats c (xsd_atom cats) (Some (plain_atom cats depth (peek c) (advance 1 c)))"
      using assms by (intro plain_atom_gives) (auto simp: one_of_def)
    then have "gives cats c (\<lambda>s L. s \<noteq> [] \<and> xsd_atom cats s L) (Some (plain_atom cats depth (peek c) (advance 1 c)))"
      by (rule gives_mono) (use ne in blast)
    then show ?thesis unfolding eq parse_atom using False by simp
  next
    case True
    have m: "moves c (advance 1 c) [rn CHR ''('']" using moves_advance[of c] assms(3) True by simp
    have "gives cats c (\<lambda>s L. s \<noteq> [] \<and> xsd_atom cats s L)
       (Option.bind (parse cats (Expression (depth + 1)) (advance 1 c)) (\<lambda>(i, c).
          if \<not> sees c CHR '')'' then Some (0, kfail ''unterminated group'' c) else Some (i, advance 1 c)))"
    proof (rule gives_moves[OF m], rule gives_bind)
      show "parse_good cats (Expression (depth + 1)) (advance 1 c)"
        using assms moves_left[OF m] m moves_state(1)[OF m] by (intro innerD) (auto simp: moves_def)
    next
      fix i d s
      assume d: "consumed (advance 1 c) d s" "\<not> kfailed d \<Longrightarrow> \<not> kfailed (advance 1 c) \<and> pinv cats d \<and> kext (advance 1 c) d \<and>
          kvalid d i \<and> call_post cats (advance 1 c) (Expression (depth + 1)) s (klang d i)"
      show "gives cats d (\<lambda>t L. [rn CHR ''(''] @ s @ t \<noteq> [] \<and> xsd_atom cats ([rn CHR ''(''] @ s @ t) L)
          (case (i, d) of (i, c) \<Rightarrow> if \<not> sees c CHR '')'' then Some (0, kfail ''unterminated group'' c) else Some (i, advance 1 c))"
      proof (cases "sees d CHR '')''")
        case False
        then show ?thesis using gives_kfail by auto
      next
        case True
        then have m': "moves d (advance 1 d) [rn CHR '')'']" using moves_advance[of d] by simp
        have "gives cats (advance 1 d) (\<lambda>t L. xsd_atom cats ([rn CHR ''(''] @ s @ [rn CHR '')''] @ t) L) (Some (i, advance 1 d))"
          using d(2) m' moves_state[OF m'] group[of cats] by (intro gives_same) (auto simp: moves_def)
        from gives_moves[OF m' this] show ?thesis using True by simp
      qed
    qed
    then show ?thesis unfolding eq parse_atom using True by simp
  qed
qed

theorem parse_ok:
  "call_here c call \<Longrightarrow> (\<not> kfailed c \<Longrightarrow> pinv cats c \<and> call_pre c call) \<Longrightarrow> parse_good cats call c"
proof (induction "4 * left c + call_weight call" arbitrary: c call rule: less_induct)
  case less
  then have inner: "inner_good cats (4 * left c + call_weight call)" by (simp add: inner_good_def)
  show ?case
  proof (cases call)
    case (Expression depth)
    then show ?thesis using expression_good less.prems inner by simp
  next
    case (Terms depth ts)
    then show ?thesis using terms_good less.prems inner by simp
  next
    case (Atom depth)
    then show ?thesis using atom_good less.prems inner by simp
  next
    case (Alternatives depth x)
    then have c: "\<not> kfailed c \<Longrightarrow> pinv cats c \<and> kvalid c x" using less.prems by simp
    obtain ok d where t: "tick c = (ok, d)" by fastforce
    show ?thesis
    proof (cases "sees c CHR ''|'' \<and> ok")
      case True
      then show ?thesis using alternative_good[of cats c x d depth] inner c t Alternatives by (simp add: parse_alternatives)
    next
      case False
      define e where "e = (if sees c CHR ''|'' then d else c)"
      have m: "moves c e []" using moves_tick[OF t] moves_refl by (simp add: e_def)
      have "parse cats call c = Some (x, e)" using False t Alternatives by (auto simp: parse_alternatives e_def)
      moreover have "gives cats e (\<lambda>s. call_post cats c call ([] @ s)) (Some (x, e))"
        using c m moves_state[OF m] Alternatives by (intro gives_same) (auto simp: moves_def)
      ultimately show ?thesis using gives_moves[OF m] by simp
    qed
  qed
qed

end
