(* ===== verification/Compiler_Properties.thy ===== *)
theory Compiler_Properties
  imports Pattern_Parsing Pattern_Properties
begin

text \<open>
  The properties of the pattern compiler (\<open>go/yangpattern/compiler.go\<close>): what \<open>Compile\<close> returns
  and what the program it returns accepts.
\<close>

subsection \<open>From the source to the table\<close>

lemma kput_first:
  assumes "kNodes c = []" "kNullable c = []" "kIntern c = Map.empty" "kput node0 c = (i, d)" "\<not> kfailed d"
  shows "kNodes d = [node0] \<and> kNullable d = [False] \<and> kIntern d = [node0 \<mapsto> 0]"
proof -
  obtain ok c1 where t: "tick c = (ok, c1)" by fastforce
  obtain ok2 c2 where t2: "kcharge 512 0 c1 = (ok2, c2)" by fastforce
  have "kNodes c2 = [] \<and> kNullable c2 = [] \<and> kIntern c2 = Map.empty"
    using moves_tick[OF t] moves_kcharge[OF t2] assms by (simp add: moves_def)
  then show ?thesis
    using assms(4,5) t t2 tick_step(2)[OF t] kcharge_step(2)[OF t2]
    by (auto simp: kput_def node0_def text_size_def Let_def put_nullable_def kabort_def kfailed_def
        split: if_splits option.splits)
qed

lemma kput_second:
  assumes "kNodes c = [node0]" "kNullable c = [False]" "kIntern c = [node0 \<mapsto> 0]"
    and "kput (node0\<lparr>nOp := OpEpsilon\<rparr>) c = (i, d)" "\<not> kfailed d"
  shows "kNodes d = [node0, node0\<lparr>nOp := OpEpsilon\<rparr>] \<and> kNullable d = [False, True] \<and>
    kIntern d = [node0 \<mapsto> 0, node0\<lparr>nOp := OpEpsilon\<rparr> \<mapsto> 1]"
proof -
  obtain ok c1 where t: "tick c = (ok, c1)" by fastforce
  obtain ok2 c2 where t2: "kcharge 512 0 c1 = (ok2, c2)" by fastforce
  have "kNodes c2 = [node0] \<and> kNullable c2 = [False] \<and> kIntern c2 = [node0 \<mapsto> 0]"
    using moves_tick[OF t] moves_kcharge[OF t2] assms by (simp add: moves_def)
  then show ?thesis
    using assms(4,5) t t2 tick_step(2)[OF t] kcharge_step(2)[OF t2]
    by (auto simp: kput_def node0_def text_size_def Let_def put_nullable_def kabort_def kfailed_def
        split: if_splits option.splits)
qed

lemma initial_table:
  assumes "kNodes c = [node0, node0\<lparr>nOp := OpEpsilon\<rparr>]" "kNullable c = [False, True]"
    "kIntern c = [node0 \<mapsto> 0, node0\<lparr>nOp := OpEpsilon\<rparr> \<mapsto> 1]"
  shows "kinv c"
proof -
  have "plangs (kNodes c) 0 = {}" "plangs (kNodes c) 1 = {[]}"
    by (simp_all add: assms(1) plangs_empty plangs_epsilon node0_def)
  then show ?thesis
    by (auto simp: kinv_def assms ktable_def knode_def node0_def less_Suc_eq split: if_splits)
qed

text \<open>The compiler with which the parse starts.\<close>
definition start_compiler :: "string \<Rightarrow> compile_limits \<Rightarrow> compiler" where
  "start_compiler source l =
     (let c = (snd (kcharge (mulSat (len64 source) 8) (len64 source) (new_compiler l)))\<lparr>kSource := utf8_runes source\<rparr>;
          c = snd (kput node0 c) in snd (kput (node0\<lparr>nOp := OpEpsilon\<rparr>) c))"

lemma start_compiler_ok:
  "kSource (start_compiler source l) = utf8_runes source \<and> kPos (start_compiler source l) = 0 \<and>
     (\<not> kfailed (start_compiler source l) \<longrightarrow> pinv cats (start_compiler source l))"
proof -
  obtain ok c1 where t: "kcharge (mulSat (len64 source) 8) (len64 source) (new_compiler l) = (ok, c1)" by fastforce
  define c2 where "c2 = c1\<lparr>kSource := utf8_runes source\<rparr>"
  obtain i c3 where p1: "kput node0 c2 = (i, c3)" by fastforce
  obtain j c4 where p2: "kput (node0\<lparr>nOp := OpEpsilon\<rparr>) c3 = (j, c4)" by fastforce
  have s: "start_compiler source l = c4" by (simp add: start_compiler_def t c2_def[symmetric] p1 p2)
  have "moves (new_compiler l) c1 []" by (rule moves_kcharge[OF t])
  then have c2: "kNodes c2 = [] \<and> kNullable c2 = [] \<and> kIntern c2 = Map.empty \<and> kAtoms c2 = Map.empty \<and> kPos c2 = 0
      \<and> kSource c2 = utf8_runes source"
    by (simp add: moves_def new_compiler_def c2_def consumed_def)
  have fr: "kframe c2 c3" "kframe c3 c4" using kput_frame[of c2 node0] kput_frame[of c3 "node0\<lparr>nOp := OpEpsilon\<rparr>"] p1 p2 by simp_all
  have "pinv cats c4" if "\<not> kfailed c4"
  proof -
    have "\<not> kfailed c3" using that kframe_failed[OF fr(2)] by blast
    then have "kinv c4" using kput_first[OF _ _ _ p1] kput_second[OF _ _ _ p2 that] c2 by (intro initial_table) auto
    moreover have "kAtoms c4 = Map.empty" using fr c2 by (simp add: kframe_def)
    ultimately show ?thesis by (simp add: pinv_def)
  qed
  then show ?thesis using fr c2 s by (simp add: kframe_def)
qed

lemma parse_source_step:
  "parse_source cats source l =
     (case limitError ''compile'' ''parse'' ''source bytes'' (cSourceBytes l) (len64 source) of
        Some e \<Rightarrow> Some (Inl e)
      | None \<Rightarrow>
        if \<not> valid_utf8 source then Some (Inl (ConfigurationError ''source is not UTF-8''))
        else if \<not> fst (kcharge (mulSat (len64 source) 8) (len64 source) (new_compiler l))
        then Some (Inl (the (kbErr (snd (kcharge (mulSat (len64 source) 8) (len64 source) (new_compiler l))))))
        else Option.bind (parse cats (Expression 1) (start_compiler source l)) (\<lambda>(root, c).
          let c = (if kErr c = None \<and> kPos c \<noteq> length (kSource c) then kfail ''unexpected closing group'' c else c) in
          if kbErr c \<noteq> None then Some (Inl (the (kbErr c)))
          else if kErr c \<noteq> None then Some (Inl (the (kErr c)))
          else Some (Inr (root, c))))"
  unfolding parse_source_def start_compiler_def by (auto simp: Let_def split: option.split prod.split bool.split)

lemma parse_source_ok:
  "\<exists>r. parse_source cats source l = Some r \<and>
     (\<forall>root c. r = Inr (root, c) \<longrightarrow> kinv c \<and> kvalid c root \<and> xsd_expr cats (utf8_runes source) (klang c root))"
proof -
  define b where "b = start_compiler source l"
  have "parse_good cats (Expression 1) b"
    using start_compiler_ok[of source l cats] by (intro parse_ok) (auto simp: b_def)
  then obtain i d s where d: "parse cats (Expression 1) b = Some (i, d)" "consumed b d s"
    "\<not> kfailed d \<longrightarrow> pinv cats d \<and> kvalid d i \<and> xsd_expr cats s (klang d i)" by (auto simp: gives_def)
  define e where "e = (if kErr d = None \<and> kPos d \<noteq> length (kSource d) then kfail ''unexpected closing group'' d else d)"
  have "kinv e \<and> kvalid e i \<and> xsd_expr cats (utf8_runes source) (klang e i)" if "\<not> kfailed e"
  proof -
    have e: "e = d" "kPos d = length (kSource d)" using that by (auto simp: e_def kfailed_def kfail_def split: if_splits)
    then have "s = utf8_runes source"
      using d(2) start_compiler_ok[of source l cats] by (simp add: consumed_def b_def)
    with e d(3) that pinv_kinv show ?thesis by auto
  qed
  then show ?thesis unfolding parse_source_step b_def[symmetric] d(1)
    by (auto simp: Let_def e_def[symmetric] kfailed_def split: option.split)
qed

text \<open>What \<open>CompileWithLimits\<close> hands to \<open>RestoreWithLimits\<close>.\<close>
definition restore_policy :: "compile_limits \<Rightarrow> ledger \<Rightarrow> restore_limits" where
  "restore_policy l b = \<lparr>rBytes = cBytes l - lBytes b + 1, rNodes = cNodes l, rEdges = cEdges l, rDepth = cDepth l,
     rDigits = cDigits l, rRanges = cRanges l, rWork = cWork l - lWork b + 1\<rparr>"

lemma compile_ok:
  "\<exists>r. CompileWithLimits cats eng source limits = Some r \<and>
     (\<forall>p. r = Inr p \<longrightarrow> (\<exists>c root k. kinv c \<and> kvalid c root \<and> xsd_expr cats (utf8_runes source) (klang c root) \<and>
        RestoreWithLimits eng \<lparr>pVersion = FormatVersion, pSource = source, pNodes = kNodes c, pRoot = root\<rparr> k = Some (Inr p)))"
proof -
  define l where "l = compile_defaults limits"
  obtain r where r: "parse_source cats source l = Some r"
    "\<forall>root c. r = Inr (root, c) \<longrightarrow> kinv c \<and> kvalid c root \<and> xsd_expr cats (utf8_runes source) (klang c root)"
    using parse_source_ok by blast
  show ?thesis
  proof (cases r)
    case (Inl e)
    then show ?thesis using r by (simp add: CompileWithLimits_def l_def[symmetric])
  next
    case (Inr q)
    obtain root c where q: "q = (root, c)" by fastforce
    define d where "d = \<lparr>pVersion = FormatVersion, pSource = source, pNodes = kNodes c, pRoot = root\<rparr>"
    obtain ok b where b: "charge 1 1 (kLedger c) = (ok, b)" by fastforce
    obtain t where t: "RestoreWithLimits eng d (restore_policy l b) = Some t" using RestoreWithLimits_restored by blast
    have "CompileWithLimits cats eng source limits = Some (if \<not> ok then Inl (the (lErr b)) else
        (case t of Inl e \<Rightarrow> Inl (compile_error l b e) | Inr p \<Rightarrow> Inr p))"
      using r(1) Inr q b t
      by (simp add: CompileWithLimits_def l_def[symmetric] Let_def d_def[symmetric] restore_policy_def[symmetric] split: sum.split)
    moreover have "kinv c \<and> kvalid c root \<and> xsd_expr cats (utf8_runes source) (klang c root)" using r(2) Inr q by simp
    ultimately show ?thesis using t unfolding d_def by (auto split: sum.splits if_splits)
  qed
qed

subsection \<open>Properties\<close>

text \<open>
  C2: The compiler and the matcher agree with the grammar: if \<open>CompileWithLimits\<close> accepts a
  source, the grammar of XSD expressions gives the source a language, the program keeps the
  source, and matching any string of fewer than \<open>2 ^ 63\<close> runes returns and, unless it reports an
  error, answers whether the runes of the string are in that language.
\<close>
theorem compile_decides_grammar:
  assumes "CompileWithLimits cats eng source limits = Some (Inr p)"
  shows "\<exists>L. xsd_expr cats (utf8_runes source) L \<and> pSource (gData p) = source \<and>
    (\<forall>s policy. length (utf8_runes s) < 2 ^ 63 \<longrightarrow>
       (\<exists>matched err. MatchStringWithLimits eng p s policy = Some (matched, err) \<and>
          (err = None \<longrightarrow> (matched \<longleftrightarrow> utf8_runes s \<in> L))))"
proof -
  obtain c root k where c: "xsd_expr cats (utf8_runes source) (klang c root)"
    "RestoreWithLimits eng \<lparr>pVersion = FormatVersion, pSource = source, pNodes = kNodes c, pRoot = root\<rparr> k = Some (Inr p)"
    using compile_ok[of cats eng source limits] assms by auto
  have p: "restored p" "gData p = \<lparr>pVersion = FormatVersion, pSource = source, pNodes = kNodes c, pRoot = root\<rparr>"
    using RestoreWithLimits_restored[of eng "\<lparr>pVersion = FormatVersion, pSource = source, pNodes = kNodes c, pRoot = root\<rparr>" k] c(2)
    by auto
  have "\<exists>matched err. MatchStringWithLimits eng p s policy = Some (matched, err) \<and>
      (err = None \<longrightarrow> (matched \<longleftrightarrow> utf8_runes s \<in> klang c root))" if "length (utf8_runes s) < 2 ^ 63" for s policy
    using match_runes_ok[OF p(1) that, of eng policy] p(2) by (auto simp: MatchStringWithLimits_def match_value_def klang_def)
  with c(1) p(2) show ?thesis by auto
qed

text \<open>
  C3: \<open>CompileWithLimits\<close> returns, a program or an error, on every source, under every policy,
  whatever the category tables and the regular-expression engine say.
\<close>
theorem compile_returns: "\<exists>r. CompileWithLimits cats eng source limits = Some r"
  using compile_ok by blast

text \<open>
  C4: \<open>repeat\<close> is exact: with the bounds the parser reads, it returns on every table, and unless
  the compiler fails the node it returns denotes the repetitions of the node it was given, while
  the table keeps its invariant and the language of every older node, in spite of the merging of
  nested repetitions and the removal of nullable bodies.
\<close>
theorem repeat_exact:
  assumes "kinv c" "kvalid c i" "bounds_fine lo hi unb"
  shows "\<exists>j d. repeat i lo hi unb c = Some (j, d) \<and>
    (\<not> kfailed d \<longrightarrow> kinv d \<and> klang d j = reps (klang c i) (nat_of_dec lo) (if unb then None else Some (nat_of_dec hi)) \<and>
       (\<forall>k. kvalid c k \<longrightarrow> kvalid d k \<and> klang d k = klang c k))"
proof -
  have "runs c (reps (klang c i) (nat_of_dec lo) (hi_of hi unb)) (repeat i lo hi unb c)"
    using assms by (intro repeat_runs) auto
  then show ?thesis
    by (elim runsE) (use call_ok_later[OF assms(1)] in \<open>auto simp: hi_of_def\<close>)
qed

definition sample_compiler :: compiler where
  "sample_compiler = (new_compiler compile_limits0)\<lparr>
     kNodes := [node0, node0\<lparr>nOp := OpEpsilon\<rparr>], kNullable := [False, True],
     kIntern := [node0 \<mapsto> 0, node0\<lparr>nOp := OpEpsilon\<rparr> \<mapsto> 1]\<rparr>"

theorem repeat_exact_witness:
  "\<exists>j d. repeat 1 ''2'' ''3'' False sample_compiler = Some (j, d) \<and>
    (\<not> kfailed d \<longrightarrow> klang d j = reps (klang sample_compiler 1) 2 (Some 3))"
proof -
  have "kinv sample_compiler" by (rule initial_table) (simp_all add: sample_compiler_def)
  moreover have "kvalid sample_compiler 1" by (simp add: kvalid_def sample_compiler_def)
  moreover have "bounds_fine ''2'' ''3'' False"
    by (simp add: bounds_fine_def canonicalDecimal_def is_digit_def digit_val_def)
  ultimately show ?thesis using repeat_exact[of sample_compiler 1 "''2''" "''3''" False]
    by (fastforce simp: digit_val_def)
qed

lemmas parse_eval = parse_source_step start_compiler_def new_compiler_def parse_expression parse_alternatives
  parse_terms parse_atom after_atom_def quantified_def plain_atom_def translate_atom_def one_of_def join_terms.simps

lemmas compile_eval = parse_eval limit_eval compile_defaults_def compile_limits0_def kcharge_def tick_def kput_def
  node0_def text_size_def put_nullable_def node_limits_def valid_utf8.simps utf8_runes.simps decodeRune_def kfailed_def
  reserve_def AtomRanges_def scalarRanges_def class_node_def rune_size_def

definition sample_nodes :: "node_data list" where
  "sample_nodes = [node0, node0\<lparr>nOp := OpEpsilon\<rparr>, node0\<lparr>nOp := OpClass, nRanges := [\<lparr>rLo = 97, rHi = 97\<rparr>]\<rparr>]"

definition sample_ledger :: ledger where
  "sample_ledger = \<lparr>lPhase = ''compile'', lStage = ''parse'', lBytes = 1745, lWork = 19,
     lByteLimit = 16777216, lWorkLimit = 5000000, lErr = None\<rparr>"

lemma sample_parse:
  "\<exists>c. parse_source (\<lambda>_. None) ''a'' (compile_defaults compile_limits0) = Some (Inr (2, c)) \<and>
     kNodes c = sample_nodes \<and> kLedger c = sample_ledger"
  by (simp add: compile_eval sample_nodes_def sample_ledger_def)

definition sample_policy :: restore_limits where
  "sample_policy = restore_policy (compile_defaults compile_limits0) (sample_ledger\<lparr>lBytes := 1746, lWork := 20\<rparr>)"

lemma sample_restore:
  "\<exists>p. RestoreWithLimits sample_engine \<lparr>pVersion = FormatVersion, pSource = ''a'', pNodes = sample_nodes, pRoot = 2\<rparr> sample_policy = Some (Inr p)"
proof -
  let ?d = "\<lparr>pVersion = FormatVersion, pSource = ''a'', pNodes = sample_nodes, pRoot = 2\<rparr>"
  have "\<exists>q b. restore_core ?d sample_policy = Inr (q, b)"
    by (simp add: restore_core_def sample_eval visit.simps finish_node_def vstate0_def upt_rec sample_policy_def
        sample_ledger_def restore_policy_def compile_defaults_def compile_limits0_def sample_nodes_def)
  then show ?thesis
    using RestoreWithLimits_restored[of sample_engine ?d sample_policy] by (auto simp: RestoreWithLimits_def Let_def)
qed

definition sample_cats :: categories where "sample_cats = (\<lambda>_. None)"

definition sample_result :: program where
  "sample_result = (case CompileWithLimits sample_cats sample_engine ''a'' compile_limits0 of Some (Inr p) \<Rightarrow> p)"

lemma sample_compiled: "CompileWithLimits sample_cats sample_engine ''a'' compile_limits0 = Some (Inr sample_result)"
proof -
  obtain c where c: "parse_source sample_cats ''a'' (compile_defaults compile_limits0) = Some (Inr (2, c))"
    "kNodes c = sample_nodes" "kLedger c = sample_ledger" using sample_parse by (auto simp: sample_cats_def)
  obtain p where p: "RestoreWithLimits sample_engine \<lparr>pVersion = FormatVersion, pSource = ''a'', pNodes = sample_nodes, pRoot = 2\<rparr> sample_policy = Some (Inr p)"
    using sample_restore by blast
  have b: "charge 1 1 sample_ledger = (True, sample_ledger\<lparr>lBytes := 1746, lWork := 20\<rparr>)"
    by (simp add: sample_ledger_def limit_eval)
  have "CompileWithLimits sample_cats sample_engine ''a'' compile_limits0 = Some (Inr p)"
    using p unfolding CompileWithLimits_def Let_def c(1)
    by (simp add: c(2,3) b sample_policy_def restore_policy_def)
  then show ?thesis by (simp add: sample_result_def)
qed

theorem compile_decides_grammar_witness:
  "\<exists>L. xsd_expr sample_cats (utf8_runes ''a'') L \<and> pSource (gData sample_result) = ''a'' \<and>
    (\<exists>matched err. MatchStringWithLimits sample_engine sample_result ''abc'' match_limits0 = Some (matched, err) \<and>
       (err = None \<longrightarrow> (matched \<longleftrightarrow> utf8_runes ''abc'' \<in> L)))"
proof -
  have "length (utf8_runes ''abc'') < 2 ^ 63" by (simp add: sample_runes)
  then show ?thesis using compile_decides_grammar[OF sample_compiled] by blast
qed

end
