(* ===== verification/Xsd_Syntax.thy ===== *)
theory Xsd_Syntax
  imports Xsd_Atoms
begin

text \<open>
  The character classes of XSD as a grammar: a group of literal runes and ranges, possibly
  negated, possibly followed by a nested class to subtract.  The theory writes such a class as
  text and shows that the reader of \<open>go/internal/xsdregex/pattern.go\<close> finds every bracket, dash
  and nested class of the text and returns exactly the set the grammar gives it.
\<close>

subsection \<open>Classes and their text\<close>

datatype class_item = Single rune | Span rune rune

datatype xclass = XClass (negated: bool) (items: "class_item list") (minus_class: "xclass option")

fun item_points :: "class_item \<Rightarrow> rune set" where
  "item_points (Single c) = {c}"
| "item_points (Span a b) = {a..b}"

fun class_points :: "xclass \<Rightarrow> rune set" where
  "class_points (XClass neg is sub) =
     (let base = (\<Union>i \<in> set is. item_points i) in
      (if neg then code_points - base else base) - (case sub of None \<Rightarrow> {} | Some c \<Rightarrow> class_points c))"

fun item_text :: "class_item \<Rightarrow> rune list" where
  "item_text (Single c) = [c]"
| "item_text (Span a b) = [a, rn CHR ''-'', b]"

definition group_runes :: "bool \<Rightarrow> class_item list \<Rightarrow> rune list" where
  "group_runes neg is = (if neg then [rn CHR ''^''] else []) @ concat (map item_text is)"

fun class_text :: "xclass \<Rightarrow> rune list" where
  "class_text (XClass neg is sub) =
     rn CHR ''['' # group_runes neg is @
     (case sub of None \<Rightarrow> [] | Some c \<Rightarrow> rn CHR ''-'' # class_text c) @ [rn CHR '']'']"

text \<open>A rune that stands for itself, and classes made of such runes.\<close>

definition plain_rune :: "rune \<Rightarrow> bool" where
  "plain_rune c \<longleftrightarrow> c \<in> code_points \<and>
     c \<notin> {rn CHR ''['', rn CHR '']'', rn CHR ''^'', rn CHR ''-'', rn CHR 0x5C}"

fun plain_item :: "class_item \<Rightarrow> bool" where
  "plain_item (Single c) = plain_rune c"
| "plain_item (Span a b) = (plain_rune a \<and> plain_rune b \<and> a \<le> b)"

fun plain_class :: "xclass \<Rightarrow> bool" where
  "plain_class (XClass neg is sub) =
     (is \<noteq> [] \<and> list_all plain_item is \<and> (case sub of None \<Rightarrow> True | Some c \<Rightarrow> plain_class c))"

subsection \<open>The bracket scans\<close>

text \<open>Runes that a bracket scan passes over: each dash has a successor, which is no bracket.\<close>
fun quiet :: "rune list \<Rightarrow> bool" where
  "quiet [] = True"
| "quiet (c # cs) =
     (c \<notin> {rn CHR ''['', rn CHR '']'', rn CHR 0x5C} \<and> (c = rn CHR ''-'' \<longrightarrow> cs \<noteq> []) \<and> quiet cs)"

lemma quiet_append: "quiet xs \<Longrightarrow> quiet ys \<Longrightarrow> quiet (xs @ ys)"
  by (induction xs) auto

lemma quiet_items: "list_all plain_item is \<Longrightarrow> quiet (concat (map item_text is))"
proof (induction "is")
  case (Cons i "is")
  then have "quiet (item_text i)" by (cases i) (auto simp: plain_rune_def)
  with Cons show ?case by (auto intro: quiet_append)
qed simp

lemma quiet_group: "list_all plain_item is \<Longrightarrow> quiet (group_runes neg is)"
  by (auto simp: group_runes_def quiet_items)

lemma scan_quiet:
  "quiet q \<Longrightarrow> class_scan_loop (pre @ q @ post) ps (length pre) st =
     class_scan_loop (pre @ q @ post) ps (length pre + length q) st"
proof (induction q arbitrary: pre)
  case (Cons c q)
  have nxt: "c = rn CHR ''-'' \<Longrightarrow> \<exists>d r. q = d # r \<and> d \<noteq> rn CHR ''[''"
    using Cons.prems by (cases q) auto
  have "class_scan_loop (pre @ (c # q) @ post) ps (length pre) st =
      class_scan_loop (pre @ (c # q) @ post) ps (Suc (length pre)) st"
    using Cons.prems nxt
    by (subst class_scan_loop.simps) (auto simp: nth_append)
  also have "\<dots> = class_scan_loop ((pre @ [c]) @ q @ post) ps (length (pre @ [c])) st" by simp
  also have "\<dots> = class_scan_loop ((pre @ [c]) @ q @ post) ps (length (pre @ [c]) + length q) st"
    using Cons.IH[of "pre @ [c]"] Cons.prems by simp
  finally show ?case by simp
qed simp

lemma end_quiet:
  "quiet q \<Longrightarrow> class_end_loop (pre @ q @ post) (length pre) d = class_end_loop (pre @ q @ post) (length pre + length q) d"
proof (induction q arbitrary: pre)
  case (Cons c q)
  have "class_end_loop (pre @ (c # q) @ post) (length pre) d = class_end_loop (pre @ (c # q) @ post) (Suc (length pre)) d"
    using Cons.prems by (subst class_end_loop.simps) (auto simp: nth_append)
  also have "\<dots> = class_end_loop ((pre @ [c]) @ q @ post) (length (pre @ [c])) d" by simp
  also have "\<dots> = class_end_loop ((pre @ [c]) @ q @ post) (length (pre @ [c]) + length q) d"
    using Cons.IH[of "pre @ [c]"] Cons.prems by simp
  finally show ?case by simp
qed simp

text \<open>One significant rune at a time.\<close>

lemma scan_open:
  "class_scan_loop (pre @ rn CHR ''['' # post) ps (length pre) st =
     class_scan_loop (pre @ rn CHR ''['' # post) ps (Suc (length pre))
       (if csDepth st = 1 \<and> csMarker st \<noteq> None \<and> csSubStart st = None
        then st\<lparr>csDepth := csDepth st + 1, csSubStart := Some (length pre)\<rparr>
        else st\<lparr>csDepth := csDepth st + 1\<rparr>)"
  by (subst class_scan_loop.simps) (simp add: Let_def)

lemma scan_close:
  "csDepth st \<noteq> 1 \<Longrightarrow> class_scan_loop (pre @ rn CHR '']'' # post) ps (length pre) st =
     class_scan_loop (pre @ rn CHR '']'' # post) ps (Suc (length pre))
       (if csDepth st = 2 \<and> csMarker st \<noteq> None \<and> csSubEnd st = None
        then st\<lparr>csSubEnd := Some (length pre), csDepth := csDepth st - 1\<rparr>
        else st\<lparr>csDepth := csDepth st - 1\<rparr>)"
  by (subst class_scan_loop.simps, cases "csDepth st = 2 \<and> csMarker st \<noteq> None \<and> csSubEnd st = None")
    (simp_all only: length_append length_Cons nth_append_length, simp_all)

lemma scan_end:
  "csDepth st = 1 \<Longrightarrow> class_scan_loop (pre @ rn CHR '']'' # post) ps (length pre) st =
     Some (st\<lparr>csDepth := 0\<rparr>, length pre)"
  by (subst class_scan_loop.simps) (simp add: Let_def)

lemma scan_dash:
  assumes "post = rn CHR ''['' # rest" "length pre \<noteq> ps \<or> csDepth st \<noteq> 1"
  shows "class_scan_loop (pre @ rn CHR ''-'' # post) ps (length pre) st =
    class_scan_loop (pre @ rn CHR ''-'' # post) ps (Suc (length pre))
      (if csDepth st = 1 \<and> csMarker st = None then st\<lparr>csMarker := Some (length pre)\<rparr> else st)"
  using assms by (subst class_scan_loop.simps) (auto simp: Let_def nth_append)

text \<open>What stands between the brackets of a class.\<close>
definition bracket_body :: "bool \<Rightarrow> class_item list \<Rightarrow> xclass option \<Rightarrow> rune list" where
  "bracket_body neg is sub = group_runes neg is @
     (case sub of None \<Rightarrow> [] | Some c \<Rightarrow> rn CHR ''-'' # class_text c)"

lemma class_text_body: "class_text (XClass neg is sub) = rn CHR ''['' # bracket_body neg is sub @ [rn CHR '']'']"
  by (simp add: bracket_body_def)

lemma class_text_hd: "\<exists>rest. class_text c = rn CHR ''['' # rest"
  by (cases c) simp

lemma group_runes_length: "is \<noteq> [] \<Longrightarrow> list_all plain_item is \<Longrightarrow> (if neg then 1 else 0) < length (group_runes neg is)"
  by (cases "is"; cases "hd is") (auto simp: group_runes_def)

text \<open>Inside a nested class the scan keeps its findings.\<close>
lemma scan_body:
  assumes items: "list_all plain_item is" and depth: "2 \<le> csDepth st"
    and sub: "\<And>s pre' post'. sub = Some s \<Longrightarrow> class_scan_loop (pre' @ class_text s @ post') ps (length pre') st =
      class_scan_loop (pre' @ class_text s @ post') ps (length pre' + length (class_text s)) st"
  shows "class_scan_loop (pre @ bracket_body neg is sub @ post) ps (length pre) st =
    class_scan_loop (pre @ bracket_body neg is sub @ post) ps (length pre + length (bracket_body neg is sub)) st"
proof (cases sub)
  case None
  then show ?thesis using scan_quiet[OF quiet_group[OF items], of pre neg post ps st]
    by (simp add: bracket_body_def)
next
  case (Some s)
  define g where "g = group_runes neg is"
  obtain rest where r: "class_text s @ post = rn CHR ''['' # rest" using class_text_hd[of s] by auto
  have "class_scan_loop (pre @ g @ rn CHR ''-'' # class_text s @ post) ps (length pre) st =
      class_scan_loop (pre @ g @ rn CHR ''-'' # class_text s @ post) ps (length pre + length g) st"
    unfolding g_def by (rule scan_quiet[OF quiet_group[OF items]])
  also have "\<dots> = class_scan_loop ((pre @ g) @ rn CHR ''-'' # class_text s @ post) ps (Suc (length (pre @ g))) st"
    using scan_dash[OF r, of "pre @ g" ps st] depth by simp
  also have "\<dots> = class_scan_loop ((pre @ g @ [rn CHR ''-'']) @ class_text s @ post) ps (length (pre @ g @ [rn CHR ''-''])) st"
    by simp
  also have "\<dots> = class_scan_loop ((pre @ g @ [rn CHR ''-'']) @ class_text s @ post) ps
      (length (pre @ g @ [rn CHR ''-'']) + length (class_text s)) st"
    by (rule sub[OF Some])
  finally show ?thesis by (simp add: bracket_body_def Some g_def add.assoc)
qed

lemma scan_nested:
  "plain_class c \<Longrightarrow> 2 \<le> csDepth st \<Longrightarrow>
     class_scan_loop (pre @ class_text c @ post) ps (length pre) st =
     class_scan_loop (pre @ class_text c @ post) ps (length pre + length (class_text c)) st"
proof (induction c arbitrary: pre post st)
  case (XClass neg "is" sub)
  let ?b = "bracket_body neg is sub"
  define st1 where "st1 = st\<lparr>csDepth := csDepth st + 1\<rparr>"
  have sub: "class_scan_loop (pre' @ class_text s @ post') ps (length pre') st1 =
      class_scan_loop (pre' @ class_text s @ post') ps (length pre' + length (class_text s)) st1"
    if "sub = Some s" for s pre' post'
    using XClass.IH[of s st1 pre' post'] XClass.prems that by (simp add: st1_def)
  have "class_scan_loop (pre @ rn CHR ''['' # ?b @ rn CHR '']'' # post) ps (length pre) st =
      class_scan_loop ((pre @ [rn CHR ''['']) @ ?b @ rn CHR '']'' # post) ps (length (pre @ [rn CHR ''[''])) st1"
    using XClass.prems scan_open[of pre "?b @ rn CHR '']'' # post" ps st] by (simp add: st1_def)
  also have "\<dots> = class_scan_loop ((pre @ rn CHR ''['' # ?b) @ rn CHR '']'' # post) ps (length (pre @ rn CHR ''['' # ?b)) st1"
    using scan_body[of "is" st1 sub ps "pre @ [rn CHR ''['']" neg "rn CHR '']'' # post"] XClass.prems sub
    by (simp add: st1_def)
  also have "\<dots> = class_scan_loop ((pre @ rn CHR ''['' # ?b) @ rn CHR '']'' # post) ps
      (Suc (length (pre @ rn CHR ''['' # ?b))) (st1\<lparr>csDepth := csDepth st1 - 1\<rparr>)"
    using scan_close[of st1 "pre @ rn CHR ''['' # ?b" post ps] XClass.prems by (simp add: st1_def)
  finally show ?case by (simp add: class_text_body st1_def del: class_text.simps)
qed

text \<open>The class subtracted at depth one is found.\<close>
lemma scan_found:
  assumes "plain_class c" "csDepth st = 1" "csMarker st \<noteq> None" "csSubStart st = None" "csSubEnd st = None"
  shows "class_scan_loop (pre @ class_text c @ post) ps (length pre) st =
    class_scan_loop (pre @ class_text c @ post) ps (length pre + length (class_text c))
      (st\<lparr>csSubStart := Some (length pre), csSubEnd := Some (length pre + length (class_text c) - 1)\<rparr>)"
proof (cases c)
  case (XClass neg "is" sub)
  let ?b = "bracket_body neg is sub"
  define st1 where "st1 = st\<lparr>csDepth := 2, csSubStart := Some (length pre)\<rparr>"
  have sub: "class_scan_loop (pre' @ class_text s @ post') ps (length pre') st1 =
      class_scan_loop (pre' @ class_text s @ post') ps (length pre' + length (class_text s)) st1"
    if "sub = Some s" for s pre' post'
    using scan_nested[of s st1 pre' post'] assms(1) XClass that by (simp add: st1_def)
  have "class_scan_loop (pre @ rn CHR ''['' # ?b @ rn CHR '']'' # post) ps (length pre) st =
      class_scan_loop ((pre @ [rn CHR ''['']) @ ?b @ rn CHR '']'' # post) ps (length (pre @ [rn CHR ''[''])) st1"
    using assms scan_open[of pre "?b @ rn CHR '']'' # post" ps st] by (simp add: st1_def)
  also have "\<dots> = class_scan_loop ((pre @ rn CHR ''['' # ?b) @ rn CHR '']'' # post) ps (length (pre @ rn CHR ''['' # ?b)) st1"
    using scan_body[of "is" st1 sub ps "pre @ [rn CHR ''['']" neg "rn CHR '']'' # post"] assms(1) XClass
      sub by (simp add: st1_def)
  also have "\<dots> = class_scan_loop ((pre @ rn CHR ''['' # ?b) @ rn CHR '']'' # post) ps
      (Suc (length (pre @ rn CHR ''['' # ?b)))
      (st1\<lparr>csSubEnd := Some (length (pre @ rn CHR ''['' # ?b)), csDepth := 1\<rparr>)"
    using scan_close[of st1 "pre @ rn CHR ''['' # ?b" post ps] assms by (simp add: st1_def)
  moreover have "st1\<lparr>csSubEnd := Some (length (pre @ rn CHR ''['' # ?b)), csDepth := 1\<rparr> =
      st\<lparr>csSubStart := Some (length pre), csSubEnd := Some (length pre + length (class_text c) - 1)\<rparr>"
    using assms(2) by (simp add: st1_def XClass class_text_body del: class_text.simps)
  ultimately show ?thesis by (simp add: XClass class_text_body del: class_text.simps)
qed

subsection \<open>The whole class\<close>

definition scan0 :: class_scan where
  "scan0 = \<lparr>csMarker = None, csSubStart = None, csSubEnd = None, csDepth = 0\<rparr>"

lemma group_start:
  assumes "is \<noteq> []" "list_all plain_item is"
  shows "(if length pre + 1 < length (pre @ rn CHR ''['' # group_runes neg is @ post) \<and>
      (pre @ rn CHR ''['' # group_runes neg is @ post) ! (length pre + 1) = rn CHR ''^''
    then length pre + 2 else length pre + 1) = length pre + 1 + (if neg then 1 else 0)"
proof -
  obtain i is' where "is": "is = i # is'" using assms(1) by (cases "is") auto
  with assms(2) show ?thesis
    by (cases i) (auto simp: group_runes_def plain_rune_def nth_append)
qed

lemma scan_outer:
  assumes items: "is \<noteq> []" "list_all plain_item is"
  shows "class_scan_loop (pre @ rn CHR ''['' # group_runes neg is @ post) ps (length pre) scan0 =
    class_scan_loop ((pre @ rn CHR ''['' # group_runes neg is) @ post) ps (length (pre @ rn CHR ''['' # group_runes neg is))
      (scan0\<lparr>csDepth := 1\<rparr>)"
  using scan_open[of pre "group_runes neg is @ post" ps scan0]
    scan_quiet[OF quiet_group[OF items(2)], of "pre @ [rn CHR ''['']" neg post ps "scan0\<lparr>csDepth := 1\<rparr>"]
  by (simp add: scan0_def)

lemma end_close: "class_end_loop (pre @ rn CHR '']'' # post) (length pre) 1 = Some (length pre)"
  by (subst class_end_loop.simps) simp

lemma find_none:
  assumes "is \<noteq> []" "list_all plain_item is"
  shows "findClassSubtraction (pre @ class_text (XClass neg is None) @ post) (length pre) = None"
    and "findClassEnd (pre @ class_text (XClass neg is None) @ post) (length pre) =
      Some (length pre + length (class_text (XClass neg is None)) - 1)"
proof -
  let ?g = "group_runes neg is"
  have t: "pre @ class_text (XClass neg is None) @ post = pre @ rn CHR ''['' # ?g @ rn CHR '']'' # post" by simp
  have "class_scan_loop (pre @ rn CHR ''['' # ?g @ rn CHR '']'' # post) ps (length pre) scan0 =
      Some (scan0, length (pre @ rn CHR ''['' # ?g))" for ps
    using scan_outer[OF assms, of pre neg "rn CHR '']'' # post" ps]
      scan_end[of "scan0\<lparr>csDepth := 1\<rparr>" "pre @ rn CHR ''['' # ?g" post ps]
    by (simp add: scan0_def)
  then show "findClassSubtraction (pre @ class_text (XClass neg is None) @ post) (length pre) = None"
    unfolding t by (simp add: findClassSubtraction_def Let_def scan0_def)
  have "findClassEnd (pre @ rn CHR ''['' # ?g @ rn CHR '']'' # post) (length pre) =
      class_end_loop ((pre @ [rn CHR ''['']) @ ?g @ rn CHR '']'' # post) (length (pre @ [rn CHR ''[''])) 1"
    unfolding findClassEnd_def by (subst class_end_loop.simps) simp
  also have "\<dots> = class_end_loop ((pre @ [rn CHR ''['']) @ ?g @ rn CHR '']'' # post) (length (pre @ [rn CHR ''['']) + length ?g) 1"
    by (rule end_quiet[OF quiet_group[OF assms(2)]])
  also have "\<dots> = class_end_loop ((pre @ rn CHR ''['' # ?g) @ rn CHR '']'' # post) (length (pre @ rn CHR ''['' # ?g)) 1" by simp
  also have "\<dots> = Some (length (pre @ rn CHR ''['' # ?g))" by (rule end_close)
  finally show "findClassEnd (pre @ class_text (XClass neg is None) @ post) (length pre) =
      Some (length pre + length (class_text (XClass neg is None)) - 1)" unfolding t by simp
qed

lemma find_some:
  assumes items: "is \<noteq> []" "list_all plain_item is" and s: "plain_class s"
    and k_def: "k = length pre + 1 + length (group_runes neg is)" and n_def: "n = length (class_text s)"
  shows "findClassSubtraction (pre @ class_text (XClass neg is (Some s)) @ post) (length pre) =
    Some (k, k + 1, k + n, k + n + 1)"
proof -
  let ?g = "group_runes neg is"
  let ?a = "pre @ rn CHR ''['' # ?g" and ?z = "rn CHR '']'' # post"
  define ps where "ps = length pre + 1 + (if neg then 1 else 0)"
  define st where "st = scan0\<lparr>csDepth := 1, csMarker := Some k\<rparr>"
  define st' where "st' = st\<lparr>csSubStart := Some (k + 1), csSubEnd := Some (k + n)\<rparr>"
  have k: "k = length ?a" by (simp add: k_def)
  have t: "pre @ class_text (XClass neg is (Some s)) @ post = pre @ rn CHR ''['' # ?g @ rn CHR ''-'' # class_text s @ ?z"
    by simp
  obtain rest where r: "class_text s @ ?z = rn CHR ''['' # rest" using class_text_hd[of s] by auto
  have n: "0 < n" using class_text_hd[of s] by (auto simp: n_def)
  have "k \<noteq> ps" using group_runes_length[OF items, of neg] by (auto simp: k_def ps_def split: if_splits)
  then have "class_scan_loop (?a @ rn CHR ''-'' # class_text s @ ?z) ps (length ?a) (scan0\<lparr>csDepth := 1\<rparr>) =
      class_scan_loop ((?a @ [rn CHR ''-'']) @ class_text s @ ?z) ps (length (?a @ [rn CHR ''-''])) st"
    using scan_dash[OF r, of ?a ps "scan0\<lparr>csDepth := 1\<rparr>"] by (simp add: k scan0_def st_def)
  also have "\<dots> = class_scan_loop ((?a @ [rn CHR ''-'']) @ class_text s @ ?z) ps
      (length (?a @ [rn CHR ''-'']) + length (class_text s)) st'"
    using scan_found[OF s, of st "?a @ [rn CHR ''-'']" ?z ps] n
    by (simp add: st_def st'_def scan0_def k n_def)
  also have "\<dots> = class_scan_loop ((?a @ rn CHR ''-'' # class_text s) @ rn CHR '']'' # post) ps
      (length (?a @ rn CHR ''-'' # class_text s)) st'" by (simp add: add.assoc)
  also have "\<dots> = Some (st'\<lparr>csDepth := 0\<rparr>, length (?a @ rn CHR ''-'' # class_text s))"
    by (rule scan_end) (simp add: st'_def st_def scan0_def)
  finally have "class_scan_loop (?a @ rn CHR ''-'' # class_text s @ ?z) ps (length ?a) (scan0\<lparr>csDepth := 1\<rparr>) =
    Some (st'\<lparr>csDepth := 0\<rparr>, k + n + 1)" by (simp add: k n_def)
  then have "class_scan_loop (pre @ rn CHR ''['' # ?g @ rn CHR ''-'' # class_text s @ ?z) ps (length pre) scan0 =
      Some (st'\<lparr>csDepth := 0\<rparr>, k + n + 1)"
    using scan_outer[OF items, of pre neg "rn CHR ''-'' # class_text s @ ?z" ps] by simp
  then show ?thesis
    unfolding t findClassSubtraction_def Let_def
      group_start[OF items, of pre neg "rn CHR ''-'' # class_text s @ ?z"] ps_def[symmetric] scan0_def[symmetric]
    by (simp add: st'_def st_def)
qed

subsection \<open>The contents\<close>

fun item_range :: "class_item \<Rightarrow> xrange" where
  "item_range (Single c) = (c, c)"
| "item_range (Span a b) = (a, b)"

lemma plain_atom:
  assumes "plain_rune c"
  shows "parseClassAtom cats (pre @ c # post) (length pre) =
    Some \<lparr>atRanges = [(c, c)], atSingle = Some c, atRawDash = False, atNext = Suc (length pre)\<rparr>"
  using assms by (simp add: parseClassAtom_def plain_rune_def Let_def)

lemma items_no_dash:
  assumes "list_all plain_item is"
  shows "\<not> ((pre @ concat (map item_text is)) ! length pre = rn CHR ''-'' \<and>
    Suc (length pre) < length (pre @ concat (map item_text is)))"
proof (cases "is")
  case (Cons i is')
  with assms show ?thesis by (cases i) (auto simp: plain_rune_def)
qed simp

lemma content_items:
  "list_all plain_item is \<Longrightarrow>
     class_content_loop cats (pre @ concat (map item_text is)) (length pre) prev acc =
     Some (acc @ map item_range is)"
proof (induction "is" arbitrary: pre prev acc)
  case Nil
  then show ?case by (simp add: class_content_loop.simps)
next
  case (Cons i "is")
  let ?rest = "concat (map item_text is)"
  show ?case
  proof (cases i)
    case (Single c)
    then have c: "plain_rune c" using Cons.prems by simp
    have nd: "\<not> ((pre @ c # ?rest) ! Suc (length pre) = rn CHR ''-'' \<and> Suc (Suc (length pre)) < length (pre @ c # ?rest))"
      using items_no_dash[of "is" "pre @ [c]"] Cons.prems by simp
    have "class_content_loop cats (pre @ c # ?rest) (length pre) prev acc =
        class_content_loop cats (pre @ c # ?rest) (Suc (length pre)) False (acc @ [(c, c)])"
      using nd by (subst class_content_loop.simps) (auto simp: plain_atom[OF c])
    with Cons.IH[of "pre @ [c]" False "acc @ [(c, c)]"] Cons.prems Single show ?thesis by simp
  next
    case (Span a b)
    then have ab: "plain_rune a" "plain_rune b" "a \<le> b" using Cons.prems by simp_all
    have b: "parseClassAtom cats (pre @ a # rn CHR ''-'' # b # ?rest) (Suc (Suc (length pre))) =
        Some \<lparr>atRanges = [(b, b)], atSingle = Some b, atRawDash = False, atNext = Suc (Suc (Suc (length pre)))\<rparr>"
      using plain_atom[OF ab(2), of cats "pre @ [a, rn CHR ''-'']" ?rest] by simp
    have "class_content_loop cats (pre @ a # rn CHR ''-'' # b # ?rest) (length pre) prev acc =
        class_content_loop cats (pre @ a # rn CHR ''-'' # b # ?rest) (Suc (Suc (Suc (length pre)))) True (acc @ [(a, b)])"
      using ab(3) b by (subst class_content_loop.simps) (simp add: plain_atom[OF ab(1)] nth_append)
    with Cons.IH[of "pre @ [a, rn CHR ''-'', b]" True "acc @ [(a, b)]"] Cons.prems Span show ?thesis by simp
  qed
qed

lemma points_items: "points (map item_range is) = (\<Union>i \<in> set is. item_points i)"
proof (induction "is")
  case (Cons i "is")
  then show ?case by (cases i) auto
qed simp

lemma items_code_points: "list_all plain_item is \<Longrightarrow> (\<Union>i \<in> set is. item_points i) \<subseteq> code_points"
proof (induction "is")
  case (Cons i "is")
  then show ?case by (cases i) (auto simp: plain_rune_def code_points_def)
qed simp

lemma content_group:
  assumes "is \<noteq> []" "list_all plain_item is"
  shows "\<exists>rs. parseClassContentRanges cats (group_runes neg is) = Some rs \<and>
    points rs = (if neg then code_points - (\<Union>i \<in> set is. item_points i) else (\<Union>i \<in> set is. item_points i))"
proof -
  have loop: "class_content_loop cats (concat (map item_text is)) 0 False [] = Some (map item_range is)"
    using content_items[OF assms(2), of cats "[]" False "[]"] by simp
  have hd: "concat (map item_text is) \<noteq> []" "hd (concat (map item_text is)) \<noteq> rn CHR ''^''"
    using assms by (cases "is"; cases "hd is"; simp add: plain_rune_def)+
  have sub: "points (normalizeRanges (map item_range is)) \<subseteq> {..maxRune}"
    using items_code_points[OF assms(2)] by (auto simp: points_items code_points_def)
  show ?thesis
  proof (cases neg)
    case True
    then show ?thesis
      using loop hd points_complementRanges[OF sub]
      by (simp add: group_runes_def parseClassContentRanges_def points_items code_points_def)
  next
    case False
    then show ?thesis
      using loop hd by (simp add: group_runes_def parseClassContentRanges_def points_items Let_def)
  qed
qed

subsection \<open>Reading a class\<close>

theorem read_class:
  "plain_class c \<Longrightarrow> \<exists>rs. parseClassExprRanges cats (pre @ class_text c @ post) (length pre) =
       Some (rs, length pre + length (class_text c) - 1) \<and> points rs = class_points c"
proof (induction c arbitrary: pre post)
  case (XClass neg "is" sub)
  then have items: "is \<noteq> []" "list_all plain_item is" by simp_all
  let ?g = "group_runes neg is"
  obtain base where base: "parseClassContentRanges cats ?g = Some base"
    "points base = (if neg then code_points - (\<Union>i \<in> set is. item_points i) else (\<Union>i \<in> set is. item_points i))"
    using content_group[OF items] by blast
  have g: "subrunes (pre @ class_text (XClass neg is sub) @ post) (length pre + 1) (length pre + 1 + length ?g) = ?g"
    by (simp add: subrunes_def)
  show ?case
  proof (cases sub)
    case None
    have "parseClassExprRanges cats (pre @ class_text (XClass neg is None) @ post) (length pre) =
        Some (base, length pre + length (class_text (XClass neg is None)) - 1)"
      using find_none[OF items, of pre neg post] base(1) g[unfolded None]
      by (subst parseClassExprRanges.simps) (simp del: class_text.simps, simp)
    with base(2) None show ?thesis by (auto simp: Let_def)
  next
    case (Some s)
    then have s: "plain_class s" using XClass.prems by simp
    define k where "k = length pre + 1 + length ?g"
    define n where "n = length (class_text s)"
    have n: "0 < n" using class_text_hd[of s] by (auto simp: n_def)
    let ?runes = "pre @ class_text (XClass neg is (Some s)) @ post"
    have shape: "?runes = (pre @ rn CHR ''['' # ?g @ [rn CHR ''-'']) @ class_text s @ rn CHR '']'' # post" by simp
    have len: "length (pre @ rn CHR ''['' # ?g @ [rn CHR ''-'']) = k + 1" by (simp add: k_def)
    obtain rs where rs: "parseClassExprRanges cats ?runes (k + 1) = Some (rs, k + n)" "points rs = class_points s"
      using XClass.IH[of s "pre @ rn CHR ''['' # ?g @ [rn CHR ''-'']" "rn CHR '']'' # post"]
        Some s n unfolding shape len n_def by auto
    have "parseClassExprRanges cats ?runes (length pre) = Some (subtractRanges base rs, k + n + 1)"
      using find_some[OF items s k_def n_def, of post] base(1) g[unfolded Some] rs(1)
      by (subst parseClassExprRanges.simps) (simp add: k_def del: class_text.simps)
    moreover have "k + n + 1 = length pre + length (class_text (XClass neg is (Some s))) - 1"
      by (simp add: k_def n_def)
    ultimately show ?thesis using Some base(2) rs(2) by (auto simp: points_subtractRanges Let_def)
  qed
qed

theorem AtomRanges_class:
  assumes "plain_class c"
  shows "\<exists>rs. AtomRanges cats (class_text c) = Some rs \<and> points rs = class_points c - {0xD800..0xDFFF}"
proof -
  obtain rs where "parseClassExprRanges cats (class_text c) 0 = Some (rs, length (class_text c) - 1)"
    "points rs = class_points c"
    using read_class[OF assms, of cats "[]" "[]"] by auto
  moreover obtain rest where "class_text c = rn CHR ''['' # rest" using class_text_hd by blast
  ultimately show ?thesis by (auto simp: AtomRanges_def Let_def points_scalarRanges)
qed

end
