(* ===== verification/Xsd_Properties.thy ===== *)
theory Xsd_Properties
  imports Xsd_Syntax
begin

text \<open>
  The properties of the XSD character-class translator (\<open>go/internal/xsdregex\<close>).
\<close>

text \<open>
  C13: Reading a character class gives the set it spells: for every class made of literal runes
  and ranges, negated or not, with classes subtracted to any depth, \<open>AtomRanges\<close> accepts the text
  and returns intervals that hold exactly the runes of the class, less the surrogates.
\<close>
theorem class_text_read:
  assumes "plain_class c"
  shows "\<exists>rs. AtomRanges cats (class_text c) = Some rs \<and> points rs = class_points c - {0xD800..0xDFFF}"
  by (rule AtomRanges_class[OF assms])

definition consonants :: xclass where
  "consonants = XClass False [Span 97 122] (Some (XClass False [Single 97, Single 101, Single 105, Single 111, Single 117] None))"

theorem class_text_read_witness:
  "\<exists>rs. AtomRanges (\<lambda>_. None) (class_text consonants) = Some rs \<and>
     points rs = class_points consonants - {0xD800..0xDFFF}"
  by (rule class_text_read) (simp add: consonants_def plain_rune_def code_points_def)

text \<open>
  C14: Every atom that is accepted, whatever escapes, categories, blocks or POSIX names it uses,
  becomes ranges that \<open>Restore\<close> accepts for a class node: in order, disjoint, valid scalar values.
\<close>
theorem atom_ranges_valid:
  assumes "cats_wf cats" "set source \<subseteq> code_points" "AtomRanges cats source = Some rs"
  shows "scalar_ranges (-1) (map (\<lambda>r. \<lparr>rLo = fst r, rHi = snd r\<rparr>) rs)"
  using AtomRanges_scalar[OF assms] by (simp add: class_ranges_def)

theorem atom_ranges_valid_witness:
  "scalar_ranges (-1) (map (\<lambda>r. \<lparr>rLo = fst r, rHi = snd r\<rparr>) [(120, 120)])"
  by (rule atom_ranges_valid[of "\<lambda>_. None" "[120]"])
    (simp_all add: cats_wf_def code_points_def AtomRanges_def scalarRanges_def)

text \<open>
  The interval algebra computes with sets: normalising keeps the set and gives ordered
  intervals with gaps between them, complementing gives the other code points, and subtracting
  gives the difference.
\<close>
theorem interval_algebra:
  assumes "points rs \<subseteq> {..maxRune}"
  shows "normal (normalizeRanges rs) \<and> points (normalizeRanges rs) = points rs \<and>
    points (complementRanges rs) = {0..maxRune} - points rs \<and>
    points (subtractRanges rs ss) = points rs - points ss"
  using normalizeRanges_ok points_complementRanges[OF assms] points_subtractRanges by blast

theorem interval_algebra_witness:
  "points (complementRanges [(48, 57), (50, 99)]) = {0..maxRune} - points [(48, 57), (50, 99)]"
  using interval_algebra[of "[(48, 57), (50, 99)]"] by simp

text \<open>
  A class written in Go syntax reads back: the bracket expression \<open>regexpClassExpr\<close> writes for
  a set of code points matches the one-rune words of the set and nothing else.
\<close>
theorem class_expression_exact:
  assumes "points rs \<subseteq> code_points"
  shows "regexp_match (''^(?:'' @ regexpClassExpr rs False @ '')$'') w \<longleftrightarrow> (\<exists>c \<in> points rs. w = [c])"
  using writes_match[OF regexpClassExpr_writes[OF assms], of w] by auto

theorem class_expression_exact_witness:
  "regexp_match (''^(?:'' @ regexpClassExpr [(97, 99), (120, 120)] False @ '')$'') [98] \<longleftrightarrow>
     (\<exists>c \<in> points [(97, 99), (120, 120)]. [98] = [c])"
  by (rule class_expression_exact) (auto simp: code_points_def)

end
