(* ===== verification/Go_Strings.thy ===== *)
theory Go_Strings
  imports Cambium_Prelude
begin

text \<open>
  The functions of Go's \<open>strings\<close> and \<open>strconv\<close> packages that the schema and data components
  call, on byte strings: trimming white space, splitting, cutting, and reading integers.
\<close>

subsection \<open>Prefixes, cutting and splitting\<close>

definition has_prefix :: "string \<Rightarrow> string \<Rightarrow> bool" where
  "has_prefix s pre \<longleftrightarrow> take (length pre) s = pre"

definition has_suffix :: "string \<Rightarrow> string \<Rightarrow> bool" where
  "has_suffix s suf \<longleftrightarrow> has_prefix (rev s) (rev suf)"

text \<open>\<open>strings.IndexByte\<close>\<close>
definition index_byte :: "char \<Rightarrow> string \<Rightarrow> nat option" where
  "index_byte c s = (if c \<in> set s then Some (length (takeWhile (\<lambda>x. x \<noteq> c) s)) else None)"

text \<open>\<open>strings.Cut\<close> at the first occurrence of a byte.\<close>
definition cut_at :: "char \<Rightarrow> string \<Rightarrow> string \<times> string \<times> bool" where
  "cut_at c s =
     (case dropWhile (\<lambda>x. x \<noteq> c) s of
        [] \<Rightarrow> (s, [], False)
      | _ # after \<Rightarrow> (takeWhile (\<lambda>x. x \<noteq> c) s, after, True))"

lemma cut_at_point:
  "\<forall>c \<in> set a. c \<noteq> p \<Longrightarrow> cut_at p (a @ p # b) = (a, b, True)"
  by (simp add: cut_at_def dropWhile_append2 takeWhile_append2 cong: takeWhile_cong dropWhile_cong)

text \<open>\<open>strings.Split\<close> with a separator that is not empty.\<close>
function split_from :: "string \<Rightarrow> string \<Rightarrow> string \<Rightarrow> string list" where
  "split_from sep acc s =
     (if s = [] then [acc]
      else if has_prefix s sep then acc # split_from sep [] (drop (length sep - 1) (tl s))
      else split_from sep (acc @ [hd s]) (tl s))"
  by pat_completeness auto
termination
  by (relation "measure (\<lambda>(sep, acc, s). length s)") (auto simp: neq_Nil_conv)

declare split_from.simps [simp del]

definition split_on :: "string \<Rightarrow> string \<Rightarrow> string list" where
  "split_on sep s = split_from sep [] s"

fun join_with :: "string \<Rightarrow> string list \<Rightarrow> string" where
  "join_with sep [] = []"
| "join_with sep [s] = s"
| "join_with sep (s # ss) = s @ sep @ join_with sep ss"

subsection \<open>White space\<close>

text \<open>The UTF-8 encodings of the runes of \<open>unicode.IsSpace\<close>.\<close>
definition space_texts :: "string list" where
  "space_texts = map (\<lambda>c. [c]) [CHR 0x09, CHR 0x0A, CHR 0x0B, CHR 0x0C, CHR 0x0D, CHR 0x20] @
     [[CHR 0xC2, CHR 0x85], [CHR 0xC2, CHR 0xA0], [CHR 0xE1, CHR 0x9A, CHR 0x80]] @
     map (\<lambda>c. [CHR 0xE2, CHR 0x80, c])
       [CHR 0x80, CHR 0x81, CHR 0x82, CHR 0x83, CHR 0x84, CHR 0x85, CHR 0x86, CHR 0x87, CHR 0x88,
        CHR 0x89, CHR 0x8A, CHR 0xA8, CHR 0xA9, CHR 0xAF] @
     [[CHR 0xE2, CHR 0x81, CHR 0x9F], [CHR 0xE3, CHR 0x80, CHR 0x80]]"

definition space_prefix :: "string list \<Rightarrow> string \<Rightarrow> string option" where
  "space_prefix ts s = find (has_prefix s) ts"

lemma space_prefix_shorter:
  "[] \<notin> set ts \<Longrightarrow> space_prefix ts s = Some t \<Longrightarrow> length (drop (length t) s) < length s"
proof -
  assume "[] \<notin> set ts" "space_prefix ts s = Some t"
  then have "t \<noteq> []" "has_prefix s t" by (auto simp: space_prefix_def find_Some_iff in_set_conv_nth)
  then show ?thesis by (cases s) (auto simp: has_prefix_def)
qed

function trim_front :: "string list \<Rightarrow> string \<Rightarrow> string" where
  "trim_front ts s =
     (if [] \<in> set ts then s
      else case space_prefix ts s of None \<Rightarrow> s | Some t \<Rightarrow> trim_front ts (drop (length t) s))"
  by pat_completeness auto
termination
  by (relation "measure (\<lambda>(ts, s). length s)") (auto dest: space_prefix_shorter)

declare trim_front.simps [simp del]

text \<open>\<open>strings.TrimSpace\<close>\<close>
definition trim_space :: "string \<Rightarrow> string" where
  "trim_space s = rev (trim_front (map rev space_texts) (rev (trim_front space_texts s)))"

text \<open>A string whose two ends are printable ASCII is not changed.\<close>

definition visible :: "char \<Rightarrow> bool" where
  "visible c \<longleftrightarrow> 0x20 < (of_char c :: nat) \<and> (of_char c :: nat) < 0x80"

lemma space_texts_ends:
  "\<forall>t \<in> set space_texts. t \<noteq> [] \<and> \<not> visible (hd t) \<and> \<not> visible (last t)"
  by (simp add: space_texts_def visible_def)

lemma trim_front_visible:
  assumes "\<forall>t \<in> set ts. t \<noteq> [] \<and> \<not> visible (hd t)" "s = [] \<or> visible (hd s)"
  shows "trim_front ts s = s"
proof -
  have "space_prefix ts s = None"
    unfolding space_prefix_def find_None_iff
  proof
    assume "\<exists>t. t \<in> set ts \<and> has_prefix s t"
    then obtain t where t: "t \<in> set ts" "take (length t) s = t" by (auto simp: has_prefix_def)
    with assms(1) have "t \<noteq> []" "\<not> visible (hd t)" by auto
    with t(2) have "s \<noteq> []" "hd s = hd t" by (cases s; cases t; auto)+
    with assms(2) \<open>\<not> visible (hd t)\<close> show False by auto
  qed
  then show ?thesis by (simp add: trim_front.simps)
qed

lemma trim_space_visible:
  assumes "s = [] \<or> visible (hd s) \<and> visible (last s)"
  shows "trim_space s = s"
proof -
  have 1: "trim_front space_texts s = s"
    using assms space_texts_ends by (intro trim_front_visible) auto
  have "trim_front (map rev space_texts) (rev s) = rev s"
    using assms space_texts_ends by (intro trim_front_visible) (auto simp: hd_rev)
  with 1 show ?thesis by (simp add: trim_space_def)
qed

lemma visible_digit: "is_digit c \<Longrightarrow> visible c"
  by (simp add: is_digit_def visible_def)

subsection \<open>Reading integers\<close>

datatype num_error = SyntaxErr | RangeErr

text \<open>\<open>c | 0x20\<close>, and the value of a digit in any base.\<close>

definition lower_byte :: "char \<Rightarrow> nat" where
  "lower_byte c = (let n = of_char c :: nat in if odd (n div 32) then n else n + 32)"

definition digit_of :: "char \<Rightarrow> nat option" where
  "digit_of c =
     (if is_digit c then Some (digit_val c)
      else if 97 \<le> lower_byte c \<and> lower_byte c \<le> 122 then Some (lower_byte c - 97 + 10)
      else None)"

text \<open>The digit loop of \<open>ParseUint\<close>; \<open>skip\<close> says whether \<open>_\<close> is skipped.\<close>
fun digits_loop :: "bool \<Rightarrow> nat \<Rightarrow> nat \<Rightarrow> string \<Rightarrow> num_error + nat" where
  "digits_loop skip base n [] = Inr n"
| "digits_loop skip base n (c # s) =
     (if c = CHR ''_'' \<and> skip then digits_loop skip base n s
      else case digit_of c of
        None \<Rightarrow> Inl SyntaxErr
      | Some d \<Rightarrow>
          if d \<ge> base then Inl SyntaxErr
          else if n \<ge> (2 ^ 64 - 1) div base + 1 then Inl RangeErr
          else if n * base + d > 2 ^ 64 - 1 then Inl RangeErr
          else digits_loop skip base (n * base + d) s)"

definition is_base_letter :: "char \<Rightarrow> bool" where
  "is_base_letter c \<longleftrightarrow> lower_byte c \<in> {98, 111, 120}"

text \<open>\<open>underscoreOK\<close>: an underscore stands only between digits, or after a base prefix.\<close>

fun underscore_scan :: "bool \<Rightarrow> char \<Rightarrow> string \<Rightarrow> bool" where
  "underscore_scan hex saw [] \<longleftrightarrow> saw \<noteq> CHR ''_''"
| "underscore_scan hex saw (c # s) \<longleftrightarrow>
     (if is_digit c \<or> (hex \<and> 97 \<le> lower_byte c \<and> lower_byte c \<le> 102) then underscore_scan hex CHR ''0'' s
      else if c = CHR ''_'' then saw = CHR ''0'' \<and> underscore_scan hex CHR ''_'' s
      else saw \<noteq> CHR ''_'' \<and> underscore_scan hex CHR ''!'' s)"

definition underscoreOK :: "string \<Rightarrow> bool" where
  "underscoreOK s =
     (let s = (if s \<noteq> [] \<and> hd s \<in> {CHR ''-'', CHR ''+''} then tl s else s) in
      if 2 \<le> length s \<and> hd s = CHR ''0'' \<and> is_base_letter (s ! 1)
      then underscore_scan (lower_byte (s ! 1) = 120) CHR ''0'' (drop 2 s)
      else underscore_scan False CHR ''^'' s)"

text \<open>\<open>strconv.ParseUint(s, 0, 64)\<close>: the base follows from the prefix.\<close>

definition base_prefix :: "string \<Rightarrow> nat \<times> string" where
  "base_prefix s =
     (if hd s \<noteq> CHR ''0'' then (10, s)
      else if 3 \<le> length s \<and> lower_byte (s ! 1) = 98 then (2, drop 2 s)
      else if 3 \<le> length s \<and> lower_byte (s ! 1) = 111 then (8, drop 2 s)
      else if 3 \<le> length s \<and> lower_byte (s ! 1) = 120 then (16, drop 2 s)
      else (8, tl s))"

definition parse_uint0 :: "string \<Rightarrow> num_error + nat" where
  "parse_uint0 s =
     (if s = [] then Inl SyntaxErr
      else let (base, t) = base_prefix s in
        case digits_loop True base 0 t of
          Inl e \<Rightarrow> Inl e
        | Inr n \<Rightarrow> if CHR ''_'' \<in> set t \<and> \<not> underscoreOK s then Inl SyntaxErr else Inr n)"

text \<open>\<open>strconv.ParseUint(s, 10, 64)\<close> and \<open>strconv.ParseInt(s, 10, 64)\<close>\<close>

definition parse_uint10 :: "string \<Rightarrow> num_error + nat" where
  "parse_uint10 s = (if s = [] then Inl SyntaxErr else digits_loop False 10 0 s)"

definition parse_int10 :: "string \<Rightarrow> num_error + int" where
  "parse_int10 s =
     (if s = [] then Inl SyntaxErr
      else
        let neg = (hd s = CHR ''-''); t = (if hd s \<in> {CHR ''-'', CHR ''+''} then tl s else s) in
        case parse_uint10 t of
          Inl e \<Rightarrow> Inl e
        | Inr u \<Rightarrow>
            if \<not> neg \<and> u \<ge> 2 ^ 63 then Inl RangeErr
            else if neg \<and> u > 2 ^ 63 then Inl RangeErr
            else Inr (if neg then - int u else int u))"

subsection \<open>Decimal text reads back\<close>

lemma digit_of_digit: "is_digit c \<Longrightarrow> digit_of c = Some (digit_val c)"
  by (simp add: digit_of_def)

lemma foldl_dec_ge: "n \<le> foldl (\<lambda>n c. n * 10 + digit_val c) n s"
proof (induction s arbitrary: n)
  case (Cons c s)
  have "n \<le> n * 10 + digit_val c" by simp
  also have "\<dots> \<le> foldl (\<lambda>n c. n * 10 + digit_val c) (n * 10 + digit_val c) s" by (rule Cons)
  finally show ?case by simp
qed simp

lemma underscore_no_digit: "\<not> is_digit CHR ''_''"
  by (simp add: is_digit_def)

lemma digits_loop_digits:
  "\<forall>c \<in> set s. is_digit c \<Longrightarrow> n < 2 ^ 64 \<Longrightarrow>
     digits_loop skip 10 n s =
       (let v = foldl (\<lambda>n c. n * 10 + digit_val c) n s in if v < 2 ^ 64 then Inr v else Inl RangeErr)"
proof (induction s arbitrary: n)
  case (Cons c s)
  then have c: "is_digit c" "c \<noteq> CHR ''_''" using underscore_no_digit by auto
  let ?m = "n * 10 + digit_val c"
  have ge: "?m \<le> foldl (\<lambda>n c. n * 10 + digit_val c) ?m s" by (rule foldl_dec_ge)
  have cut: "n \<ge> (2 ^ 64 - 1) div 10 + 1 \<Longrightarrow> ?m \<ge> 2 ^ 64" by simp
  show ?case
  proof (cases "?m < 2 ^ 64")
    case True
    with cut have "\<not> n \<ge> (2 ^ 64 - 1) div 10 + 1" by linarith
    with True Cons.prems c Cons.IH[OF _ True] digit_val_less[OF c(1)] show ?thesis
      by (simp add: digit_of_digit)
  next
    case False
    with ge c digit_val_less[OF c(1)] show ?thesis
      by (auto simp: digit_of_digit not_less Let_def)
  qed
qed simp

lemma parse_uint10_digits:
  assumes "\<forall>c \<in> set s. is_digit c" "s \<noteq> []"
  shows "parse_uint10 s = (if nat_of_dec s < 2 ^ 64 then Inr (nat_of_dec s) else Inl RangeErr)"
  using digits_loop_digits[OF assms(1), of 0 False] assms(2)
  by (simp add: parse_uint10_def nat_of_dec_def Let_def)

end
