(* ===== verification/Yang_Number.thy ===== *)
theory Yang_Number
  imports Go_Strings Pattern_Limits Complex_Main
begin

text \<open>
  YANG numbers and value ranges (\<open>go/cambium/number.go\<close>): a sign, a 64-bit magnitude and a number
  of fraction digits, the reading of integers and decimal64 values, and range expressions with
  their \<open>min\<close> and \<open>max\<close> keywords, sorting, coalescing and containment.  Floating-point
  conversion (\<open>FromFloat\<close>, \<open>Frac\<close>) is not modelled.
\<close>

subsection \<open>Numbers\<close>

record number =
  numValue :: u64
  numFraction :: "8 word"
  numNegative :: bool

definition number0 :: number where
  "number0 = \<lparr>numValue = 0, numFraction = 0, numNegative = False\<rparr>"

datatype number_error =
    EmptyString | SignOnly | Strconv num_error | TooPrecise string | BadFractionDigits
  | NoParent string | TooManyDots string | OutOfOrder string | NotWithin string
  | NotSorted | InvalidNumber | Overlapping | CalledInt | SignedOverflow

definition IsDecimal :: "number \<Rightarrow> bool" where
  "IsDecimal n \<longleftrightarrow> numFraction n \<noteq> 0"

definition number_text :: "number \<Rightarrow> string" where
  "number_text n =
     (let out = dec_of_nat (unat (numValue n));
          out = (if IsDecimal n then
                   let fd = unat (numFraction n);
                       out = (if length out \<le> fd then replicate (fd - length out + 1) CHR ''0'' @ out else out);
                       split = length out - fd
                   in take split out @ ''.'' @ drop split out
                 else out)
      in if numNegative n then ''-'' @ out else out)"

text \<open>\<open>Int\<close>\<close>
definition number_int :: "number \<Rightarrow> number_error + int" where
  "number_int n =
     (if IsDecimal n then Inl CalledInt
      else if numNegative n \<and> numValue n = 2 ^ 63 then Inr (- (2 ^ 63))
      else if numNegative n \<and> numValue n \<le> 2 ^ 63 - 1 then Inr (- int (unat (numValue n)))
      else if \<not> numNegative n \<and> numValue n \<le> 2 ^ 63 - 1 then Inr (int (unat (numValue n)))
      else Inl SignedOverflow)"

text \<open>The product wraps; a divisor of zero (\<open>e\<close> of 64 or more) panics in \<open>Trunc\<close>.\<close>
definition pow10Number :: "8 word \<Rightarrow> u64" where
  "pow10Number e = 10 ^ unat e"

definition Trunc :: "number \<Rightarrow> u64 option" where
  "Trunc n = (let d = pow10Number (numFraction n) in if d = 0 then None else Some (numValue n div d))"

definition addQuantum :: "number \<Rightarrow> u64 \<Rightarrow> number" where
  "addQuantum n i =
     (if numNegative n then
        if numValue n \<le> i then n\<lparr>numValue := i - numValue n, numNegative := False\<rparr>
        else n\<lparr>numValue := numValue n - i\<rparr>
      else n\<lparr>numValue := numValue n + i\<rparr>)"

definition scaledBigInt :: "number \<Rightarrow> int" where
  "scaledBigInt n =
     (let out = int (unat (numValue n)); scale = 18 - int (unat (numFraction n));
          out = (if scale > 0 then out * 10 ^ nat scale else out)
      in if numNegative n then - out else out)"

definition num_less :: "number \<Rightarrow> number \<Rightarrow> bool" where
  "num_less n m \<longleftrightarrow> scaledBigInt n < scaledBigInt m"

definition num_equal :: "number \<Rightarrow> number \<Rightarrow> bool" where
  "num_equal n m \<longleftrightarrow> scaledBigInt n = scaledBigInt m"

definition FromInt :: "64 word \<Rightarrow> number" where
  "FromInt i = (if sint i < 0 then number0\<lparr>numNegative := True, numValue := - i\<rparr>
                else number0\<lparr>numValue := i\<rparr>)"

definition FromUint :: "u64 \<Rightarrow> number" where
  "FromUint i = number0\<lparr>numValue := i\<rparr>"

subsection \<open>Reading numbers\<close>

definition ParseInt :: "string \<Rightarrow> number_error + number" where
  "ParseInt s =
     (let s = trim_space s in
      if s = [] then Inl EmptyString
      else if s = ''+'' \<or> s = ''-'' then Inl SignOnly
      else
        let neg = (hd s = CHR ''-'');
            digits = (if hd s \<in> {CHR ''+'', CHR ''-''} then tl s else s) in
        case parse_uint0 digits of
          Inl e \<Rightarrow> Inl (Strconv e)
        | Inr v \<Rightarrow> Inr \<lparr>numValue = of_nat v, numFraction = 0, numNegative = neg\<rparr>)"

definition MaxFractionDigits :: nat where "MaxFractionDigits = 18"

definition decimalValueFromString :: "string \<Rightarrow> 8 word \<Rightarrow> number_error + number" where
  "decimalValueFromString s fracDigRequired =
     (let req = unat fracDigRequired in
      if req > MaxFractionDigits \<or> req < 1 then Inl BadFractionDigits
      else
        let (whole, frac, dot) = cut_at CHR ''.'' s in
        if dot \<and> length frac > MaxFractionDigits then Inl (TooPrecise s)
        else if length frac > req then Inl (TooPrecise (whole @ frac))
        else
          case parse_int10 (whole @ frac @ replicate (req - length frac) CHR ''0'') of
            Inl e \<Rightarrow> Inl (Strconv e)
          | Inr v \<Rightarrow>
              Inr \<lparr>numValue = (if v < 0 then of_int (- (v + 1)) + 1 else of_int v),
                   numFraction = fracDigRequired, numNegative = v < 0\<rparr>)"

definition ParseDecimal :: "string \<Rightarrow> 8 word \<Rightarrow> number_error + number" where
  "ParseDecimal s fracDigRequired =
     (let s = trim_space s in
      if s = [] then Inl EmptyString
      else if s = ''+'' \<or> s = ''-'' then Inl SignOnly
      else decimalValueFromString s fracDigRequired)"

subsection \<open>Ranges\<close>

record yrange =
  yMin :: number
  yMax :: number

type_synonym yang_range = "yrange list"

definition range_valid :: "yrange \<Rightarrow> bool" where
  "range_valid r \<longleftrightarrow> \<not> num_less (yMax r) (yMin r)"

definition yrange_text :: "yrange \<Rightarrow> string" where
  "yrange_text r =
     (if num_equal (yMin r) (yMax r) then number_text (yMin r)
      else number_text (yMin r) @ ''..'' @ number_text (yMax r))"

definition yrange_equal :: "yrange \<Rightarrow> yrange \<Rightarrow> bool" where
  "yrange_equal r s \<longleftrightarrow> num_equal (yMin r) (yMin s) \<and> num_equal (yMax r) (yMax s)"

definition yang_range_text :: "yang_range \<Rightarrow> string" where
  "yang_range_text r = join_with ''|'' (map yrange_text r)"

text \<open>\<open>YangRange.Less\<close>, and the key it orders by.\<close>
definition range_less :: "yrange \<Rightarrow> yrange \<Rightarrow> bool" where
  "range_less a b =
     (if num_less (yMin a) (yMin b) then True
      else if num_less (yMin b) (yMin a) then False
      else num_less (yMax a) (yMax b))"

text \<open>
  \<open>sort.Sort\<close>.  It does not promise the order of ranges that compare equal, which have
  numerically equal bounds; the model keeps them in place.
\<close>
fun insert_range :: "yrange \<Rightarrow> yang_range \<Rightarrow> yang_range" where
  "insert_range r [] = [r]"
| "insert_range r (s # rs) = (if range_less s r then s # insert_range r rs else r # s # rs)"

definition sort_ranges :: "yang_range \<Rightarrow> yang_range" where
  "sort_ranges rs = foldr insert_range rs []"

fun ranges_sorted :: "yang_range \<Rightarrow> bool" where
  "ranges_sorted (a # b # rs) = (\<not> range_less b a \<and> ranges_sorted (b # rs))"
| "ranges_sorted _ = True"

fun validate_from :: "yrange \<Rightarrow> yang_range \<Rightarrow> number_error option" where
  "validate_from prev [] = None"
| "validate_from prev (r # rs) =
     (if \<not> range_valid r then Some InvalidNumber
      else if \<not> num_less (yMax prev) (yMin r) then Some Overlapping
      else validate_from r rs)"

definition Validate :: "yang_range \<Rightarrow> number_error option" where
  "Validate r =
     (if \<not> ranges_sorted r then Some NotSorted
      else case r of
        [] \<Rightarrow> None
      | p # rs \<Rightarrow> if \<not> range_valid p then Some InvalidNumber else validate_from p rs)"

text \<open>The loop of \<open>Contains\<close>; the ranges from index \<open>ri\<close> on are the first argument.\<close>
fun contains_from :: "yang_range \<Rightarrow> yang_range \<Rightarrow> bool" where
  "contains_from rs [] = True"
| "contains_from rs (s # ss) =
     (case dropWhile (\<lambda>r. num_less (yMax r) (yMin s)) rs of
        [] \<Rightarrow> False
      | r # rs' \<Rightarrow>
          if num_less (yMin s) (yMin r) \<or> num_less (yMax r) (yMax s) then False
          else contains_from (r # rs') ss)"

definition Contains :: "yang_range \<Rightarrow> yang_range \<Rightarrow> bool" where
  "Contains r s = (if r = [] \<or> s = [] then True else contains_from r s)"

definition ranges_equal :: "yang_range \<Rightarrow> yang_range \<Rightarrow> bool" where
  "ranges_equal r q \<longleftrightarrow> list_all2 yrange_equal r q"

text \<open>\<open>coalesceRanges\<close>: the range that is growing, then the rest.\<close>
fun coalesce_from :: "yrange \<Rightarrow> yang_range \<Rightarrow> yang_range" where
  "coalesce_from cur [] = [cur]"
| "coalesce_from cur (r # rs) =
     (if num_less (addQuantum (yMax cur) 1) (yMin r) then cur # coalesce_from r rs
      else if num_less (yMax cur) (yMax r) then coalesce_from (cur\<lparr>yMax := yMax r\<rparr>) rs
      else coalesce_from cur rs)"

definition coalesceRanges :: "yang_range \<Rightarrow> yang_range" where
  "coalesceRanges r = (case r of [] \<Rightarrow> [] | cur # rs \<Rightarrow> coalesce_from cur rs)"

subsection \<open>Range expressions\<close>

definition parse_bound :: "yang_range \<Rightarrow> bool \<Rightarrow> 8 word \<Rightarrow> string \<Rightarrow> number_error + number" where
  "parse_bound parent decimal fd raw =
     (if raw = ''max'' then
        if parent = [] then Inl (NoParent ''max'') else Inr ((yMax (last parent))\<lparr>numFraction := fd\<rparr>)
      else if raw = ''min'' then
        if parent = [] then Inl (NoParent ''min'') else Inr ((yMin (hd parent))\<lparr>numFraction := fd\<rparr>)
      else if decimal then ParseDecimal raw fd
      else ParseInt raw)"

definition parse_part :: "yang_range \<Rightarrow> bool \<Rightarrow> 8 word \<Rightarrow> string \<Rightarrow> number_error + yrange" where
  "parse_part parent decimal fd part =
     (let bounds = split_on ''..'' part in
      case parse_bound parent decimal fd (trim_space (hd bounds)) of
        Inl e \<Rightarrow> Inl e
      | Inr lo \<Rightarrow>
        let check = (\<lambda>hi. if num_less hi lo then Inl (OutOfOrder part) else Inr \<lparr>yMin = lo, yMax = hi\<rparr>) in
        if length bounds = 1 then check lo
        else if length bounds = 2 then
          (case parse_bound parent decimal fd (trim_space (bounds ! 1)) of
             Inl e \<Rightarrow> Inl e
           | Inr hi \<Rightarrow> check hi)
        else Inl (TooManyDots part))"

fun parse_parts :: "yang_range \<Rightarrow> bool \<Rightarrow> 8 word \<Rightarrow> string list \<Rightarrow> number_error + yang_range" where
  "parse_parts parent decimal fd [] = Inr []"
| "parse_parts parent decimal fd (p # ps) =
     (case parse_part parent decimal fd p of
        Inl e \<Rightarrow> Inl e
      | Inr r \<Rightarrow> (case parse_parts parent decimal fd ps of Inl e \<Rightarrow> Inl e | Inr rs \<Rightarrow> Inr (r # rs)))"

definition parseChildRanges :: "yang_range \<Rightarrow> string \<Rightarrow> bool \<Rightarrow> 8 word \<Rightarrow> number_error + yang_range" where
  "parseChildRanges parent s decimal fd =
     (case parse_parts parent decimal fd (split_on ''|'' s) of
        Inl e \<Rightarrow> Inl e
      | Inr out \<Rightarrow>
          let out = coalesceRanges (sort_ranges out) in
          if \<not> Contains parent out then Inl (NotWithin s)
          else case Validate out of Some e \<Rightarrow> Inl e | None \<Rightarrow> Inr out)"

definition ParseRangesInt :: "string \<Rightarrow> number_error + yang_range" where
  "ParseRangesInt s = parseChildRanges [] s False 0"

definition ParseRangesDecimal :: "string \<Rightarrow> 8 word \<Rightarrow> number_error + yang_range" where
  "ParseRangesDecimal s fd = parseChildRanges [] s True fd"

text \<open>The ranges of the built-in integer types; a parse error there would panic.\<close>

definition mustParseRangesInt :: "string \<Rightarrow> yang_range option" where
  "mustParseRangesInt s = (case ParseRangesInt s of Inl _ \<Rightarrow> None | Inr r \<Rightarrow> Some r)"

definition builtin_ranges :: "(string \<times> yang_range option) list" where
  "builtin_ranges = map (\<lambda>(n, s). (n, mustParseRangesInt s))
     [(''int8'', ''-128..127''), (''int16'', ''-32768..32767''),
      (''int32'', ''-2147483648..2147483647''),
      (''int64'', ''-9223372036854775808..9223372036854775807''),
      (''uint8'', ''0..255''), (''uint16'', ''0..65535''), (''uint32'', ''0..4294967295''),
      (''uint64'', ''0..18446744073709551615'')]"

end
