(* ===== verification/Yang_Ranges.thy ===== *)
theory Yang_Ranges
  imports Yang_Number
begin

text \<open>
  What YANG numbers and ranges mean: the rational number a number stands for, the order it is
  compared by, the sets of numbers a range expression admits, and the text of both.
\<close>

subsection \<open>Values\<close>

definition mantissa :: "number \<Rightarrow> int" where
  "mantissa n = (if numNegative n then - int (unat (numValue n)) else int (unat (numValue n)))"

definition num_value :: "number \<Rightarrow> rat" where
  "num_value n = of_int (mantissa n) / 10 ^ unat (numFraction n)"

text \<open>A number of the decimal64 kind, integers included.\<close>
definition small_fraction :: "number \<Rightarrow> bool" where
  "small_fraction n \<longleftrightarrow> unat (numFraction n) \<le> 18"

lemma scaled_mantissa:
  assumes "small_fraction n"
  shows "scaledBigInt n = mantissa n * 10 ^ (18 - unat (numFraction n))"
proof -
  define k where "k = unat (numFraction n)"
  define v where "v = int (unat (numValue n))"
  have k: "k \<le> 18" using assms by (simp add: small_fraction_def k_def)
  then have "(if 0 < 18 - int k then v * 10 ^ nat (18 - int k) else v) = v * 10 ^ (18 - k)"
    by (cases "k = 18") (simp_all add: nat_diff_distrib)
  then show ?thesis
    unfolding scaledBigInt_def mantissa_def Let_def k_def[symmetric] v_def[symmetric] by simp
qed

lemma scaled_value:
  assumes "small_fraction n"
  shows "of_int (scaledBigInt n) = num_value n * 10 ^ 18"
proof -
  have "(10 :: rat) ^ 18 = 10 ^ (18 - unat (numFraction n)) * 10 ^ unat (numFraction n)"
    using assms by (simp add: small_fraction_def flip: power_add)
  then show ?thesis
    by (simp add: scaled_mantissa[OF assms] num_value_def field_simps del: power_numeral)
qed

lemma num_less_value:
  assumes "small_fraction n" "small_fraction m"
  shows "num_less n m \<longleftrightarrow> num_value n < num_value m"
proof -
  have "num_less n m \<longleftrightarrow> (of_int (scaledBigInt n) :: rat) < of_int (scaledBigInt m)"
    by (simp add: num_less_def)
  also have "\<dots> \<longleftrightarrow> num_value n * 10 ^ 18 < num_value m * 10 ^ 18"
    by (simp only: scaled_value[OF assms(1)] scaled_value[OF assms(2)])
  also have "\<dots> \<longleftrightarrow> num_value n < num_value m"
    by (rule mult_less_cancel_right_pos) simp
  finally show ?thesis .
qed

lemma num_equal_value:
  assumes "small_fraction n" "small_fraction m"
  shows "num_equal n m \<longleftrightarrow> num_value n = num_value m"
proof -
  have "num_equal n m \<longleftrightarrow> (of_int (scaledBigInt n) :: rat) = of_int (scaledBigInt m)"
    by (simp add: num_equal_def)
  also have "\<dots> \<longleftrightarrow> num_value n * 10 ^ 18 = num_value m * 10 ^ 18"
    by (simp only: scaled_value[OF assms(1)] scaled_value[OF assms(2)])
  finally show ?thesis by simp
qed

subsection \<open>Containment\<close>

text \<open>The rational numbers the ranges admit.\<close>
definition admits :: "yang_range \<Rightarrow> rat set" where
  "admits rs = {x. \<exists>q \<in> set rs. num_value (yMin q) \<le> x \<and> x \<le> num_value (yMax q)}"

definition small_ranges :: "yang_range \<Rightarrow> bool" where
  "small_ranges rs \<longleftrightarrow> (\<forall>q \<in> set rs. small_fraction (yMin q) \<and> small_fraction (yMax q))"

text \<open>Nonempty intervals, each below the next.\<close>
fun chain :: "yang_range \<Rightarrow> bool" where
  "chain [] \<longleftrightarrow> True"
| "chain (r # rs) \<longleftrightarrow> num_value (yMin r) \<le> num_value (yMax r) \<and>
     (\<forall>q \<in> set rs. num_value (yMax r) < num_value (yMin q)) \<and> chain rs"

lemma small_Cons: "small_ranges (r # rs) \<longleftrightarrow> small_fraction (yMin r) \<and> small_fraction (yMax r) \<and> small_ranges rs"
  by (auto simp: small_ranges_def)

lemma chain_nonempty: "chain rs \<Longrightarrow> q \<in> set rs \<Longrightarrow> num_value (yMin q) \<le> num_value (yMax q)"
  by (induction rs) auto

lemma validate_chain:
  "small_ranges (p # rs) \<Longrightarrow> range_valid p \<Longrightarrow> validate_from p rs = None \<longleftrightarrow> chain (p # rs)"
proof (induction rs arbitrary: p)
  case Nil
  then show ?case by (simp add: range_valid_def small_Cons num_less_value not_less)
next
  case (Cons r rs)
  then have s: "small_fraction (yMin p)" "small_fraction (yMax p)" "small_fraction (yMin r)" "small_fraction (yMax r)"
    "small_ranges (r # rs)"
    by (simp_all add: small_Cons)
  have p: "num_value (yMin p) \<le> num_value (yMax p)"
    using Cons.prems(2) s by (simp add: range_valid_def num_less_value not_less)
  have "validate_from p (r # rs) = None \<longleftrightarrow>
      num_value (yMin r) \<le> num_value (yMax r) \<and> num_value (yMax p) < num_value (yMin r) \<and> chain (r # rs)"
    using Cons.IH[OF s(5)] s by (auto simp: range_valid_def num_less_value not_less)
  with p show ?case by fastforce
qed

lemma sorted_chain: "small_ranges rs \<Longrightarrow> chain rs \<Longrightarrow> ranges_sorted rs"
proof (induction rs rule: ranges_sorted.induct)
  case (1 a b rs)
  then have s: "small_fraction (yMin a)" "small_fraction (yMin b)"
    "num_value (yMin a) < num_value (yMin b)"
    by (auto simp: small_Cons)
  then have "num_less (yMin a) (yMin b)" "\<not> num_less (yMin b) (yMin a)"
    by (simp_all add: num_less_value)
  with 1 show ?case by (simp add: range_less_def small_Cons)
qed auto

text \<open>\<open>Validate\<close> accepts exactly the chains.\<close>
lemma Validate_chain:
  assumes "small_ranges rs"
  shows "Validate rs = None \<longleftrightarrow> chain rs"
proof (cases rs)
  case Nil
  then show ?thesis by (simp add: Validate_def)
next
  case (Cons p ps)
  show ?thesis
  proof (cases "range_valid p")
    case True
    with validate_chain[of p ps] sorted_chain[OF assms] assms Cons show ?thesis
      by (auto simp: Validate_def)
  next
    case False
    with assms Cons have "\<not> chain rs"
      by (auto simp: range_valid_def small_Cons num_less_value)
    with False Cons show ?thesis by (auto simp: Validate_def)
  qed
qed

lemma admits_Cons: "admits (r # rs) = {num_value (yMin r)..num_value (yMax r)} \<union> admits rs"
  by (auto simp: admits_def)

lemma chain_below: "chain (r # rs) \<Longrightarrow> x \<in> admits rs \<Longrightarrow> num_value (yMax r) < x"
  by (auto simp: admits_def intro: less_le_trans)

text \<open>The skipped ranges hold nothing the rest of the argument needs.\<close>
lemma contains_from_iff:
  "chain rs \<Longrightarrow> chain ss \<Longrightarrow> small_ranges rs \<Longrightarrow> small_ranges ss \<Longrightarrow>
     contains_from rs ss \<longleftrightarrow> admits ss \<subseteq> admits rs"
proof (induction ss arbitrary: rs)
  case Nil
  then show ?case by (simp add: admits_def)
next
  case (Cons s ss)
  note rs = Cons.prems(1) and ss = Cons.prems(2)
  have s: "small_fraction (yMin s)" "small_fraction (yMax s)" "small_ranges ss" "chain ss"
    "num_value (yMin s) \<le> num_value (yMax s)"
    using Cons.prems by (simp_all add: small_Cons)
  have lo: "num_value (yMin s) \<in> admits (s # ss)" and hi: "num_value (yMax s) \<in> admits (s # ss)"
    using s by (simp_all add: admits_Cons)
  show ?case
    using Cons.prems(1,3)
  proof (induction rs)
    case Nil
    then show ?case using lo by (auto simp: admits_def)
  next
    case (Cons r rs)
    then have r: "small_fraction (yMin r)" "small_fraction (yMax r)" "small_ranges rs" "chain rs"
      "num_value (yMin r) \<le> num_value (yMax r)"
      by (simp_all add: small_Cons)
    show ?case
    proof (cases "num_less (yMax r) (yMin s)")
      case True
      then have lt: "num_value (yMax r) < num_value (yMin s)" using r s by (simp add: num_less_value)
      have above: "num_value (yMin s) \<le> x" if "x \<in> admits (s # ss)" for x
        using that chain_below[OF ss] s(5) by (fastforce simp: admits_Cons)
      have "contains_from (r # rs) (s # ss) \<longleftrightarrow> contains_from rs (s # ss)" using True by simp
      also have "\<dots> \<longleftrightarrow> admits (s # ss) \<subseteq> admits rs" by (rule Cons.IH[OF r(4,3)])
      also have "\<dots> \<longleftrightarrow> admits (s # ss) \<subseteq> admits (r # rs)"
        using above lt by (fastforce simp: admits_Cons[of r])
      finally show ?thesis .
    next
      case False
      then have ge: "num_value (yMin s) \<le> num_value (yMax r)" using r s by (simp add: num_less_value)
      have step: "contains_from (r # rs) (s # ss) \<longleftrightarrow>
          num_value (yMin r) \<le> num_value (yMin s) \<and> num_value (yMax s) \<le> num_value (yMax r) \<and>
          contains_from (r # rs) ss"
        using False r s by (simp add: num_less_value not_less)
      show ?thesis
      proof (cases "num_value (yMin r) \<le> num_value (yMin s) \<and> num_value (yMax s) \<le> num_value (yMax r)")
        case True
        have "contains_from (r # rs) ss \<longleftrightarrow> admits ss \<subseteq> admits (r # rs)"
          using Cons.prems \<open>chain ss\<close> \<open>small_ranges ss\<close> \<open>\<And>rs. chain rs \<Longrightarrow> chain ss \<Longrightarrow> small_ranges rs \<Longrightarrow> small_ranges ss \<Longrightarrow> contains_from rs ss = (admits ss \<subseteq> admits rs)\<close>
          by blast
        with True step show ?thesis by (auto simp: admits_Cons)
      next
        case outside: False
        have "\<not> admits (s # ss) \<subseteq> admits (r # rs)"
        proof
          assume sub: "admits (s # ss) \<subseteq> admits (r # rs)"
          have "num_value (yMin s) \<notin> admits rs"
            using chain_below[OF Cons.prems(1)] ge by fastforce
          with sub lo have min: "num_value (yMin r) \<le> num_value (yMin s)" by (auto simp: admits_Cons[of r])
          with outside have big: "num_value (yMax r) < num_value (yMax s)" by simp
          have gap: "\<exists>x. num_value (yMax r) < x \<and> x < num_value (yMax s) \<and> (\<forall>q \<in> set rs. x < num_value (yMin q))"
          proof -
            define B where "B = insert (num_value (yMax s)) (num_value ` yMin ` set rs)"
            have "finite B" "B \<noteq> {}" by (simp_all add: B_def)
            moreover have "num_value (yMax r) < b" if "b \<in> B" for b
              using that big Cons.prems(1) by (auto simp: B_def)
            ultimately have "num_value (yMax r) < Min B" by simp
            then obtain x where "num_value (yMax r) < x" "x < Min B" using dense by blast
            moreover have "x < b" if "b \<in> B" for b
              using \<open>x < Min B\<close> \<open>finite B\<close> that by (meson Min_le less_le_trans)
            ultimately show ?thesis by (auto simp: B_def)
          qed
          then obtain x where x: "num_value (yMax r) < x" "x < num_value (yMax s)" "\<forall>q \<in> set rs. x < num_value (yMin q)"
            by blast
          then have "x \<in> admits (s # ss)" using ge by (simp add: admits_Cons)
          moreover have "x \<notin> admits (r # rs)" using x by (auto simp: admits_def)
          ultimately show False using sub by blast
        qed
        with outside step show ?thesis by blast
      qed
    qed
  qed
qed

theorem Contains_iff:
  assumes "Validate r = None" "Validate s = None" "small_ranges r" "small_ranges s"
  shows "Contains r s \<longleftrightarrow> r = [] \<or> admits s \<subseteq> admits r"
  using contains_from_iff[of r s] assms by (auto simp: Contains_def Validate_chain admits_def)

subsection \<open>One scale\<close>

text \<open>
  The bounds of one range expression have one number \<open>d\<close> of fraction digits, so they are whole
  multiples of one unit and compare by their mantissas.
\<close>

definition scale :: "8 word \<Rightarrow> number \<Rightarrow> bool" where
  "scale d n \<longleftrightarrow> numFraction n = d \<and> unat d \<le> 18"

definition scale_range :: "8 word \<Rightarrow> yrange \<Rightarrow> bool" where
  "scale_range d q \<longleftrightarrow> scale d (yMin q) \<and> scale d (yMax q) \<and> mantissa (yMin q) \<le> mantissa (yMax q)"

text \<open>The mantissas the ranges admit.\<close>
definition grid :: "yang_range \<Rightarrow> int set" where
  "grid rs = {m. \<exists>q \<in> set rs. mantissa (yMin q) \<le> m \<and> m \<le> mantissa (yMax q)}"

text \<open>No upper bound is the greatest magnitude, so the next number exists.\<close>
definition headroom :: "yang_range \<Rightarrow> bool" where
  "headroom rs \<longleftrightarrow> (\<forall>q \<in> set rs. numNegative (yMax q) \<or> numValue (yMax q) \<noteq> maxU64)"

lemma scale_less:
  assumes "scale d n" "scale d m"
  shows "num_less n m \<longleftrightarrow> mantissa n < mantissa m"
proof -
  have "small_fraction n" "small_fraction m" using assms by (simp_all add: scale_def small_fraction_def)
  then have "num_less n m \<longleftrightarrow> mantissa n * 10 ^ (18 - unat d) < mantissa m * 10 ^ (18 - unat d)"
    using assms by (simp only: num_less_def scaled_mantissa scale_def)
  then show ?thesis by (simp add: mult_less_cancel_right_pos)
qed

lemma addQuantum_scale: "scale d n \<Longrightarrow> scale d (addQuantum n i)"
  by (simp add: scale_def addQuantum_def)

lemma mantissa_addQuantum:
  assumes "numNegative n \<or> numValue n \<noteq> maxU64"
  shows "mantissa (addQuantum n 1) = mantissa n + 1"
proof (cases "numNegative n")
  case True
  show ?thesis
  proof (cases "numValue n \<le> 1")
    case True
    then have "unat (1 - numValue n) = 1 - unat (numValue n)" "unat (numValue n) \<le> 1"
      by (simp_all add: unat_sub word_le_nat_alt)
    with \<open>numNegative n\<close> True show ?thesis
      by (simp add: addQuantum_def mantissa_def del: of_nat_unat)
  next
    case False
    then have "unat (numValue n - 1) = unat (numValue n) - 1" "1 < unat (numValue n)"
      by (simp_all add: unat_sub word_le_nat_alt)
    with True False show ?thesis
      by (simp add: addQuantum_def mantissa_def of_nat_diff del: of_nat_unat)
  qed
next
  case False
  with assms have "unat (numValue n) \<noteq> 2 ^ 64 - 1" by (metis unat_maxU64 word_unat_eq_iff)
  with unat_u64_le[of "numValue n"] have "unat (numValue n) + 1 < 2 ^ 64" by linarith
  then have "unat (numValue n + 1) = unat (numValue n) + 1" by (simp add: unat_word_ariths)
  with False show ?thesis by (simp add: addQuantum_def mantissa_def del: of_nat_unat)
qed

lemma grid_Cons: "grid (r # rs) = {mantissa (yMin r)..mantissa (yMax r)} \<union> grid rs"
  by (auto simp: grid_def)

lemma grid_set: "set rs = set ss \<Longrightarrow> grid rs = grid ss"
  by (simp add: grid_def)

subsection \<open>Sorting\<close>

definition low :: "yrange \<Rightarrow> int" where "low q = mantissa (yMin q)"

lemma set_insert_range [simp]: "set (insert_range r rs) = insert r (set rs)"
  by (induction rs) auto

lemma set_sort_ranges [simp]: "set (sort_ranges rs) = set rs"
  by (induction rs) (auto simp: sort_ranges_def)

lemma range_less_low:
  assumes "scale_range d a" "scale_range d b"
  shows "range_less a b \<Longrightarrow> low a \<le> low b" and "\<not> range_less a b \<Longrightarrow> low b \<le> low a"
  using assms scale_less[of d "yMin a" "yMin b"] scale_less[of d "yMin b" "yMin a"]
  by (auto simp: range_less_def low_def scale_range_def split: if_splits)

lemma insert_range_sorted:
  "scale_range d r \<Longrightarrow> \<forall>q \<in> set rs. scale_range d q \<Longrightarrow> sorted (map low rs) \<Longrightarrow>
     sorted (map low (insert_range r rs))"
proof (induction rs)
  case (Cons s rs)
  then show ?case
    using range_less_low[of d s r] by (auto intro: order_trans)
qed simp

lemma sort_ranges_sorted: "\<forall>q \<in> set rs. scale_range d q \<Longrightarrow> sorted (map low (sort_ranges rs))"
proof (induction rs)
  case (Cons r rs)
  then show ?case
    using insert_range_sorted[of d r "sort_ranges rs"] by (simp add: sort_ranges_def) (simp flip: sort_ranges_def)
qed (simp add: sort_ranges_def)

subsection \<open>Coalescing\<close>

text \<open>Intervals with at least one number between neighbours.\<close>
fun spaced :: "yang_range \<Rightarrow> bool" where
  "spaced [] \<longleftrightarrow> True"
| "spaced (r # rs) \<longleftrightarrow> (\<forall>q \<in> set rs. mantissa (yMax r) + 1 < mantissa (yMin q)) \<and> spaced rs"

text \<open>
  The greatest upper bound there is has no next number: \<open>addQuantum\<close> gives zero.  The ranges \<open>wrap\<close> when one that
  ends there comes before one that begins above zero.
\<close>
definition full :: "yrange \<Rightarrow> bool" where
  "full q \<longleftrightarrow> mantissa (yMax q) = 2 ^ 64 - 1"

fun wraps :: "yang_range \<Rightarrow> bool" where
  "wraps [] \<longleftrightarrow> False"
| "wraps (r # rs) \<longleftrightarrow> full r \<and> (\<exists>q \<in> set rs. 0 < low q) \<or> wraps rs"

lemma full_iff: "full q \<longleftrightarrow> \<not> numNegative (yMax q) \<and> numValue (yMax q) = maxU64"
  using unat_maxU64 word_unat_eq_iff[of "numValue (yMax q)" maxU64] by (auto simp: full_def mantissa_def simp del: of_nat_unat)

lemma mantissa_le: "mantissa n \<le> 2 ^ 64 - 1"
  using unat_u64_le[of "numValue n"] by (simp add: mantissa_def del: of_nat_unat)

lemma headroom_full: "headroom rs \<longleftrightarrow> (\<forall>q \<in> set rs. \<not> full q)"
  by (auto simp: headroom_def full_iff)

lemma headroom_wraps: "headroom rs \<Longrightarrow> \<not> wraps (sort_ranges rs)"
proof -
  assume "headroom rs"
  then have "\<forall>q \<in> set (sort_ranges rs). \<not> full q" by (simp add: headroom_full)
  moreover have "\<forall>q \<in> set ss. \<not> full q \<Longrightarrow> \<not> wraps ss" for ss by (induction ss) auto
  ultimately show ?thesis by blast
qed

text \<open>When the loop takes the next range as separate.\<close>
lemma quantum_less:
  assumes "scale d (yMax cur)" "scale d (yMin r)"
  shows "num_less (addQuantum (yMax cur) 1) (yMin r) \<longleftrightarrow> (if full cur then 0 < low r else mantissa (yMax cur) + 1 < low r)"
proof (cases "full cur")
  case True
  then have "mantissa (addQuantum (yMax cur) 1) = 0" by (simp add: full_iff addQuantum_def mantissa_def)
  then show ?thesis using scale_less[OF addQuantum_scale[OF assms(1)] assms(2)] True by (simp add: low_def)
next
  case False
  then have "mantissa (addQuantum (yMax cur) 1) = mantissa (yMax cur) + 1" by (intro mantissa_addQuantum) (auto simp: full_iff)
  then show ?thesis using scale_less[OF addQuantum_scale[OF assms(1)] assms(2)] False by (simp add: low_def)
qed

lemma coalesce_from_ok:
  "scale_range d cur \<Longrightarrow> \<forall>q \<in> set rs. scale_range d q \<and> low cur \<le> low q \<Longrightarrow> sorted (map low rs) \<Longrightarrow>
     \<not> wraps (cur # rs) \<Longrightarrow>
   grid (coalesce_from cur rs) = grid (cur # rs) \<and> spaced (coalesce_from cur rs) \<and>
   (\<forall>q \<in> set (coalesce_from cur rs). scale_range d q \<and> low cur \<le> low q)"
proof (induction rs arbitrary: cur)
  case (Cons r rs)
  have c: "scale d (yMin cur)" "scale d (yMax cur)" "mantissa (yMin cur) \<le> mantissa (yMax cur)"
    and r: "scale d (yMin r)" "scale d (yMax r)" "mantissa (yMin r) \<le> mantissa (yMax r)" "low cur \<le> low r"
    using Cons.prems by (auto simp: scale_range_def)
  have next_less: "num_less (addQuantum (yMax cur) 1) (yMin r) \<longleftrightarrow> mantissa (yMax cur) + 1 < mantissa (yMin r)"
    using quantum_less[OF c(2) r(1)] Cons.prems(4) r(3) mantissa_le[of "yMax r"] by (auto simp: full_def low_def)
  have rest: "\<forall>q \<in> set rs. scale_range d q \<and> low r \<le> low q" "sorted (map low rs)"
    using Cons.prems by auto
  have after: "\<forall>q \<in> set rs. scale_range d q \<and> low cur \<le> low q" using Cons.prems by auto
  consider "mantissa (yMax cur) + 1 < mantissa (yMin r)"
    | "mantissa (yMin r) \<le> mantissa (yMax cur) + 1" "mantissa (yMax cur) < mantissa (yMax r)"
    | "mantissa (yMin r) \<le> mantissa (yMax cur) + 1" "mantissa (yMax r) \<le> mantissa (yMax cur)" by linarith
  then show ?case
  proof cases
    case 1
    define out where "out = coalesce_from r rs"
    have IH: "grid out = grid (r # rs)" "spaced out" "\<And>q. q \<in> set out \<Longrightarrow> scale_range d q \<and> low r \<le> low q"
      using Cons.IH[of r] rest Cons.prems by (simp_all add: out_def)
    have eq: "coalesce_from cur (r # rs) = cur # out" using 1 next_less by (simp add: out_def)
    have far: "mantissa (yMax cur) + 1 < mantissa (yMin q) \<and> low cur \<le> low q" if "q \<in> set out" for q
      using IH(3)[OF that] 1 r(4) by (simp add: low_def)
    show ?thesis
      unfolding eq using IH far Cons.prems(1) by (simp add: grid_Cons)
  next
    case 2
    let ?cur = "cur\<lparr>yMax := yMax r\<rparr>"
    have pre: "scale_range d ?cur" "low ?cur = low cur" "\<not> wraps (?cur # rs)"
      using 2 c r Cons.prems(4) by (simp_all add: scale_range_def low_def full_def)
    have "grid (coalesce_from ?cur rs) = grid (?cur # rs) \<and> spaced (coalesce_from ?cur rs) \<and>
        (\<forall>q \<in> set (coalesce_from ?cur rs). scale_range d q \<and> low ?cur \<le> low q)"
      by (rule Cons.IH) (use pre after rest in simp_all)
    moreover have "grid (?cur # rs) = grid (cur # r # rs)"
      using 2 c r by (auto simp: grid_Cons low_def)
    moreover have "coalesce_from cur (r # rs) = coalesce_from ?cur rs"
      using 2 next_less scale_less[OF c(2) r(2)] by simp
    ultimately show ?thesis by (simp add: low_def)
  next
    case 3
    have "grid (coalesce_from cur rs) = grid (cur # rs) \<and> spaced (coalesce_from cur rs) \<and>
        (\<forall>q \<in> set (coalesce_from cur rs). scale_range d q \<and> low cur \<le> low q)"
      using Cons.IH[of cur] Cons.prems after by auto
    moreover have "grid (cur # rs) = grid (cur # r # rs)"
      using 3 c r by (auto simp: grid_Cons low_def)
    moreover have "coalesce_from cur (r # rs) = coalesce_from cur rs"
      using 3 next_less scale_less[OF c(2) r(2)] by simp
    ultimately show ?thesis by simp
  qed
qed (simp add: low_def)

lemma spaced_valid:
  "spaced (p # rs) \<Longrightarrow> \<forall>q \<in> set (p # rs). scale_range d q \<Longrightarrow>
     ranges_sorted (p # rs) \<and> range_valid p \<and> validate_from p rs = None"
proof (induction rs arbitrary: p)
  case Nil
  then show ?case using scale_less[of d "yMax p" "yMin p"] by (simp add: range_valid_def scale_range_def)
next
  case (Cons r rs)
  then have p: "scale d (yMin p)" "scale d (yMax p)" "mantissa (yMin p) \<le> mantissa (yMax p)"
    and r: "scale d (yMin r)" "scale d (yMax r)" and gap: "mantissa (yMax p) + 1 < mantissa (yMin r)"
    by (auto simp: scale_range_def)
  have "range_valid p" using scale_less[OF p(2,1)] p(3) by (simp add: range_valid_def)
  moreover have "num_less (yMax p) (yMin r)" using scale_less[OF p(2) r(1)] gap by simp
  moreover have "\<not> range_less r p"
    using scale_less[OF r(1) p(1)] scale_less[OF p(1) r(1)] gap p(3) by (simp add: range_less_def)
  moreover have "ranges_sorted (r # rs) \<and> range_valid r \<and> validate_from r rs = None"
    using Cons.IH[of r] Cons.prems by simp
  ultimately show ?case by simp
qed

theorem coalesce_ok:
  assumes "\<forall>q \<in> set rs. scale_range d q" "\<not> wraps (sort_ranges rs)"
  shows "grid (coalesceRanges (sort_ranges rs)) = grid rs"
    and "spaced (coalesceRanges (sort_ranges rs))"
    and "Validate (coalesceRanges (sort_ranges rs)) = None"
    and "\<forall>q \<in> set (coalesceRanges (sort_ranges rs)). scale_range d q"
proof -
  let ?s = "sort_ranges rs"
  have s: "\<forall>q \<in> set ?s. scale_range d q" "sorted (map low ?s)" "grid ?s = grid rs"
    using assms sort_ranges_sorted[OF assms(1)] grid_set[of ?s rs] by auto
  have "grid (coalesceRanges ?s) = grid ?s \<and> spaced (coalesceRanges ?s) \<and> (\<forall>q \<in> set (coalesceRanges ?s). scale_range d q)"
  proof (cases ?s)
    case (Cons cur r)
    then show ?thesis using coalesce_from_ok[of d cur r] s assms(2) by (simp add: coalesceRanges_def)
  qed (simp add: coalesceRanges_def)
  then show g: "grid (coalesceRanges ?s) = grid rs" "spaced (coalesceRanges ?s)" "\<forall>q \<in> set (coalesceRanges ?s). scale_range d q"
    using s by simp_all
  show "Validate (coalesceRanges ?s) = None"
    using spaced_valid[of _ _ d] g(2,3)
    by (cases "coalesceRanges ?s") (auto simp: Validate_def)
qed

subsection \<open>The greatest bound\<close>

text \<open>The order of \<open>Less\<close> on ranges of one scale: by both bounds.\<close>
definition not_after :: "yrange \<Rightarrow> yrange \<Rightarrow> bool" where
  "not_after a b \<longleftrightarrow> low a < low b \<or> low a = low b \<and> mantissa (yMax a) \<le> mantissa (yMax b)"

lemma range_less_not_after: "scale_range d a \<Longrightarrow> scale_range d b \<Longrightarrow> range_less b a \<longleftrightarrow> \<not> not_after a b"
  using scale_less[of d "yMin b" "yMin a"] scale_less[of d "yMin a" "yMin b"] scale_less[of d "yMax b" "yMax a"]
  by (auto simp: range_less_def not_after_def low_def scale_range_def)

lemma not_after_trans: "not_after a b \<Longrightarrow> not_after b c \<Longrightarrow> not_after a c"
  by (auto simp: not_after_def)

lemma insert_range_ordered:
  "scale_range d r \<Longrightarrow> \<forall>q \<in> set rs. scale_range d q \<Longrightarrow> sorted_wrt not_after rs \<Longrightarrow> sorted_wrt not_after (insert_range r rs)"
proof (induction rs)
  case (Cons s rs)
  have "range_less s r \<longleftrightarrow> \<not> not_after r s" using range_less_not_after[of d r s] Cons.prems by simp
  then show ?case using Cons not_after_trans[of r s] by (auto simp: not_after_def)
qed simp

lemma sort_ranges_ordered: "\<forall>q \<in> set rs. scale_range d q \<Longrightarrow> sorted_wrt not_after (sort_ranges rs)"
proof (induction rs)
  case (Cons r rs)
  then show ?case
    using insert_range_ordered[of d r "sort_ranges rs"] by (simp add: sort_ranges_def) (simp flip: sort_ranges_def)
qed (simp add: sort_ranges_def)

text \<open>Some range does not end before the next one begins.\<close>
fun touching_ranges :: "yang_range \<Rightarrow> bool" where
  "touching_ranges (a # b # rs) \<longleftrightarrow> low b \<le> mantissa (yMax a) \<or> touching_ranges (b # rs)"
| "touching_ranges _ \<longleftrightarrow> False"

lemma validate_touching:
  "\<forall>q \<in> set (p # rs). scale_range d q \<Longrightarrow> touching_ranges (p # rs) \<Longrightarrow> validate_from p rs = Some Overlapping"
proof (induction rs arbitrary: p)
  case (Cons r rs)
  then show ?case
    using scale_less[of d "yMax r" "yMin r"] scale_less[of d "yMax p" "yMin r"]
    by (auto simp: range_valid_def scale_range_def low_def)
qed simp

lemma ordered_sorted: "\<forall>q \<in> set rs. scale_range d q \<Longrightarrow> sorted_wrt not_after rs \<Longrightarrow> ranges_sorted rs"
  by (induction rs rule: ranges_sorted.induct) (auto simp: range_less_not_after)

text \<open>One step of the loop: the range is separate, or the growing range takes it in.\<close>
definition grown :: "yrange \<Rightarrow> yrange \<Rightarrow> yrange" where
  "grown cur r = (if num_less (yMax cur) (yMax r) then cur\<lparr>yMax := yMax r\<rparr> else cur)"

lemma grown_ordered: "sorted_wrt not_after (cur # r # rs) \<Longrightarrow> sorted_wrt not_after (grown cur r # rs)"
proof -
  assume a: "sorted_wrt not_after (cur # r # rs)"
  have "not_after (grown cur r) q" if "not_after cur r" "not_after cur q" "not_after r q" for q
    using that by (auto simp: grown_def not_after_def low_def)
  then show ?thesis using a by simp
qed

lemma grown_scale: "scale_range d cur \<Longrightarrow> scale_range d r \<Longrightarrow> scale_range d (grown cur r)"
  using scale_less[of d "yMax cur" "yMax r"] by (auto simp: grown_def scale_range_def)

lemma grown_not_after: "scale_range d cur \<Longrightarrow> scale_range d r \<Longrightarrow> not_after p cur \<Longrightarrow> not_after p (grown cur r)"
  using scale_less[of d "yMax cur" "yMax r"] by (auto simp: grown_def not_after_def low_def scale_range_def)

lemma coalesce_step:
  "coalesce_from cur (r # rs) =
     (if num_less (addQuantum (yMax cur) 1) (yMin r) then cur # coalesce_from r rs else coalesce_from (grown cur r) rs)"
  by (simp add: grown_def)

lemma coalesce_head: "\<exists>m os. coalesce_from cur rs = cur\<lparr>yMax := m\<rparr> # os"
proof (induction rs arbitrary: cur)
  case Nil
  then show ?case by (intro exI[of _ "yMax cur"]) simp
next
  case (Cons r rs)
  have "\<exists>m os. cur # coalesce_from r rs = cur\<lparr>yMax := m\<rparr> # os" by (intro exI[of _ "yMax cur"]) simp
  moreover have "\<exists>m os. coalesce_from (cur\<lparr>yMax := n\<rparr>) rs = cur\<lparr>yMax := m\<rparr> # os" for n
    using Cons[of "cur\<lparr>yMax := n\<rparr>"] by simp
  ultimately show ?case using Cons[of cur] by simp
qed

lemma coalesce_scale:
  "scale_range d cur \<Longrightarrow> \<forall>q \<in> set rs. scale_range d q \<Longrightarrow> \<forall>q \<in> set (coalesce_from cur rs). scale_range d q"
proof (induction rs arbitrary: cur)
  case (Cons r rs)
  then have r: "scale_range d r" "\<forall>q \<in> set rs. scale_range d q" by simp_all
  note ih = Cons.IH[OF r] Cons.IH[OF grown_scale[OF Cons.prems(1) r(1)] r(2)]
  show ?case
  proof (cases "num_less (addQuantum (yMax cur) 1) (yMin r)")
    case True
    show ?thesis unfolding coalesce_step if_P[OF True] using ih(1) Cons.prems(1) by simp
  next
    case False
    show ?thesis unfolding coalesce_step if_not_P[OF False] by (rule ih(2))
  qed
qed simp

lemma coalesce_not_after:
  "scale_range d cur \<Longrightarrow> \<forall>q \<in> set rs. scale_range d q \<Longrightarrow> not_after p cur \<Longrightarrow> \<forall>q \<in> set rs. not_after p q \<Longrightarrow>
     \<forall>q \<in> set (coalesce_from cur rs). not_after p q"
proof (induction rs arbitrary: cur)
  case (Cons r rs)
  then have r: "scale_range d r" "\<forall>q \<in> set rs. scale_range d q" "not_after p r" "\<forall>q \<in> set rs. not_after p q" by simp_all
  note ih = Cons.IH[OF r] Cons.IH[OF grown_scale[OF Cons.prems(1) r(1)] r(2) grown_not_after[OF Cons.prems(1) r(1) Cons.prems(3)] r(4)]
  show ?case
  proof (cases "num_less (addQuantum (yMax cur) 1) (yMin r)")
    case True
    show ?thesis unfolding coalesce_step if_P[OF True] using ih(1) Cons.prems(3) by simp
  next
    case False
    show ?thesis unfolding coalesce_step if_not_P[OF False] by (rule ih(2))
  qed
qed simp

lemma coalesce_ordered:
  "scale_range d cur \<Longrightarrow> \<forall>q \<in> set rs. scale_range d q \<Longrightarrow> sorted_wrt not_after (cur # rs) \<Longrightarrow>
     sorted_wrt not_after (coalesce_from cur rs)"
proof (induction rs arbitrary: cur)
  case (Cons r rs)
  have r: "scale_range d r" "\<forall>q \<in> set rs. scale_range d q" "sorted_wrt not_after (r # rs)" using Cons.prems by simp_all
  note ih = Cons.IH[OF r] Cons.IH[OF grown_scale[OF Cons.prems(1) r(1)] r(2) grown_ordered[OF Cons.prems(3)]]
  show ?case
  proof (cases "num_less (addQuantum (yMax cur) 1) (yMin r)")
    case True
    have "\<forall>q \<in> set (coalesce_from r rs). not_after cur q" by (rule coalesce_not_after[OF r(1,2)]) (use Cons.prems(3) in auto)
    then show ?thesis unfolding coalesce_step if_P[OF True] using ih(1) by simp
  next
    case False
    show ?thesis unfolding coalesce_step if_not_P[OF False] by (rule ih(2))
  qed
qed simp

lemma coalesce_wraps:
  "scale_range d cur \<Longrightarrow> \<forall>q \<in> set rs. scale_range d q \<Longrightarrow> wraps (cur # rs) \<Longrightarrow> touching_ranges (coalesce_from cur rs)"
proof (induction rs arbitrary: cur)
  case (Cons r rs)
  have c: "scale d (yMax cur)" "scale d (yMin r)" "scale d (yMax r)" "low r \<le> mantissa (yMax r)" "scale_range d r"
    "\<forall>q \<in> set rs. scale_range d q"
    using Cons.prems by (auto simp: scale_range_def low_def)
  note less = quantum_less[OF c(1,2)]
  show ?case
  proof (cases "num_less (addQuantum (yMax cur) 1) (yMin r)")
    case True
    obtain m os where os: "coalesce_from r rs = r\<lparr>yMax := m\<rparr> # os" using coalesce_head by blast
    have "low r \<le> mantissa (yMax cur)" if "full cur" using that c(4) mantissa_le[of "yMax r"] by (simp add: full_def)
    moreover have "touching_ranges (coalesce_from r rs)" if "\<not> full cur" using Cons.IH[OF c(5,6)] Cons.prems(3) that by simp
    ultimately show ?thesis using True os by (cases "full cur") (simp_all add: low_def)
  next
    case False
    have "mantissa (yMax (grown cur r)) = max (mantissa (yMax cur)) (mantissa (yMax r))"
      using scale_less[OF c(1,3)] by (simp add: grown_def)
    then have "full (grown cur r) \<longleftrightarrow> full cur \<or> full r"
      using mantissa_le[of "yMax cur"] mantissa_le[of "yMax r"] by (auto simp: full_def max_def)
    moreover have "\<not> (full cur \<and> 0 < low r)" using False unfolding less by (auto split: if_splits)
    ultimately have "wraps (grown cur r # rs)" using Cons.prems(3) unfolding wraps.simps by auto
    from Cons.IH[OF grown_scale[OF Cons.prems(1) c(5)] c(6) this] show ?thesis unfolding coalesce_step if_not_P[OF False] .
  qed
qed simp

theorem coalesce_overlaps:
  assumes "\<forall>q \<in> set rs. scale_range d q" "wraps (sort_ranges rs)"
  shows "Validate (coalesceRanges (sort_ranges rs)) = Some Overlapping"
proof -
  obtain cur r where s: "sort_ranges rs = cur # r" using assms(2) by (cases "sort_ranges rs") auto
  have "\<forall>q \<in> set (cur # r). scale_range d q" using assms(1) set_sort_ranges[of rs] unfolding s by simp
  then have q: "scale_range d cur" "\<forall>q \<in> set r. scale_range d q" by simp_all
  note out = coalesce_scale[OF q] coalesce_ordered[OF q sort_ranges_ordered[OF assms(1), unfolded s]]
  obtain m os where os: "coalesce_from cur r = cur\<lparr>yMax := m\<rparr> # os" using coalesce_head by blast
  have "range_valid (cur\<lparr>yMax := m\<rparr>)"
    using out(1) scale_less[of d m "yMin cur"] unfolding os by (auto simp: range_valid_def scale_range_def)
  moreover have "validate_from (cur\<lparr>yMax := m\<rparr>) os = Some Overlapping"
    using coalesce_wraps[OF q] assms(2) out(1) unfolding s os by (intro validate_touching) auto
  moreover have "ranges_sorted (cur\<lparr>yMax := m\<rparr> # os)" using ordered_sorted[OF out] unfolding os .
  ultimately show ?thesis by (simp add: coalesceRanges_def s Validate_def os)
qed

end
