(* ===== verification/Yang_Number_Text.thy ===== *)
theory Yang_Number_Text
  imports Yang_Ranges
begin

text \<open>
  The text of numbers and ranges: what is written reads back, and a range expression is read to
  the set its parts spell.
\<close>

subsection \<open>Integers\<close>

lemma digit_not_sign: "is_digit c \<Longrightarrow> c \<noteq> CHR ''-'' \<and> c \<noteq> CHR ''+'' \<and> c \<noteq> CHR ''.'' \<and> c \<noteq> CHR ''_'' \<and> c \<noteq> CHR ''|''"
  by (auto simp: is_digit_def)

lemma dec_text_plain: "c \<in> set (dec_of_nat n) \<Longrightarrow> is_digit c"
  using dec_of_nat_digits by blast

lemma parse_uint0_dec:
  assumes "n < 2 ^ 64"
  shows "parse_uint0 (dec_of_nat n) = Inr n"
proof (cases "n = 0")
  case True
  have "dec_of_nat 0 = ''0''" by (simp add: dec_of_nat.simps digit_char_def char_of_def bit_0)
  with True show ?thesis by (simp add: parse_uint0_def base_prefix_def)
next
  case False
  have "CHR ''_'' \<notin> set (dec_of_nat n)" using dec_text_plain digit_not_sign by blast
  moreover have "digits_loop True 10 0 (dec_of_nat n) = Inr n"
    using digits_loop_digits[of "dec_of_nat n" 0 True] dec_of_nat_digits assms
    by (simp add: nat_of_dec_def[symmetric] Let_def)
  ultimately show ?thesis
    using False by (simp add: parse_uint0_def base_prefix_def hd_dec_of_nat)
qed

lemma hd_last_digit: "hd (dec_of_nat n) \<in> set (dec_of_nat n)" "last (dec_of_nat n) \<in> set (dec_of_nat n)"
  by simp_all

theorem ParseInt_text:
  assumes "numFraction n = 0"
  shows "ParseInt (number_text n) = Inr n"
proof -
  let ?d = "dec_of_nat (unat (numValue n))"
  have dg: "is_digit (hd ?d)" "is_digit (last ?d)" using hd_last_digit dec_text_plain by blast+
  have ns: "hd ?d \<noteq> CHR ''-''" "hd ?d \<noteq> CHR ''+''" using digit_not_sign[OF dg(1)] by auto
  have t: "number_text n = (if numNegative n then CHR ''-'' # ?d else ?d)"
    using assms by (simp add: number_text_def IsDecimal_def)
  have trim: "trim_space (number_text n) = number_text n"
    unfolding t using dg visible_digit by (intro trim_space_visible) (auto simp: visible_def)
  have p: "parse_uint0 ?d = Inr (unat (numValue n))"
    by (rule parse_uint0_dec[OF unat_u64_less])
  have one: "?d \<noteq> ''+''" "?d \<noteq> ''-''" using ns by auto
  show ?thesis
    unfolding ParseInt_def trim Let_def
    unfolding t using p ns one assms by (cases "numNegative n") simp_all
qed

subsection \<open>Decimal values\<close>

lemma nat_of_dec_zeros: "nat_of_dec (replicate k CHR ''0'' @ s) = nat_of_dec s"
proof -
  have z: "foldl (\<lambda>n c. n * 10 + digit_val c) 0 (replicate k CHR ''0'') = 0"
    by (induction k) (auto simp: digit_val_def)
  show ?thesis by (simp add: nat_of_dec_def z)
qed

lemma parse_int10_unsigned:
  assumes "\<forall>c \<in> set s. is_digit c" "s \<noteq> []" "nat_of_dec s < 2 ^ 63"
  shows "parse_int10 s = Inr (int (nat_of_dec s))"
proof -
  have "hd s \<in> set s" using assms(2) by simp
  then have "is_digit (hd s)" using assms(1) by blast
  with digit_not_sign have "hd s \<noteq> CHR ''-''" "hd s \<noteq> CHR ''+''" by blast+
  with parse_uint10_digits[OF assms(1,2)] assms(2,3) show ?thesis
    by (simp add: parse_int10_def Let_def)
qed

lemma parse_int10_negative:
  assumes "\<forall>c \<in> set s. is_digit c" "s \<noteq> []" "nat_of_dec s \<le> 2 ^ 63"
  shows "parse_int10 (CHR ''-'' # s) = Inr (- int (nat_of_dec s))"
  using parse_uint10_digits[OF assms(1,2)] assms(3) by (simp add: parse_int10_def Let_def)

text \<open>The digits of a decimal, padded so that a digit stands before the point.\<close>
definition padded :: "number \<Rightarrow> string" where
  "padded n = (let d = dec_of_nat (unat (numValue n)); fd = unat (numFraction n) in
     replicate (fd + 1 - length d) CHR ''0'' @ d)"

lemma padded_digits: "c \<in> set (padded n) \<Longrightarrow> is_digit c"
  using dec_text_plain by (auto simp: padded_def Let_def is_digit_def)

lemma padded_length: "unat (numFraction n) < length (padded n)"
  by (simp add: padded_def Let_def)

lemma padded_value: "nat_of_dec (padded n) = unat (numValue n)"
  by (simp add: padded_def nat_of_dec_zeros Let_def)

lemma decimal_text:
  assumes "numFraction n \<noteq> 0"
  defines "k \<equiv> length (padded n) - unat (numFraction n)"
  shows "number_text n = (if numNegative n then ''-'' else []) @ take k (padded n) @ ''.'' @ drop k (padded n)"
proof -
  let ?d = "dec_of_nat (unat (numValue n))"
  have "padded n = (if length ?d \<le> unat (numFraction n)
      then replicate (unat (numFraction n) - length ?d + 1) CHR ''0'' @ ?d else ?d)"
    by (simp add: padded_def Let_def Suc_diff_le)
  then show ?thesis using assms(1) by (simp add: number_text_def IsDecimal_def k_def Let_def)
qed

text \<open>A value of the decimal64 kind: 1 to 18 fraction digits, a signed 64-bit mantissa, no \<open>-0\<close>.\<close>
definition decimal64_number :: "number \<Rightarrow> bool" where
  "decimal64_number n \<longleftrightarrow> 1 \<le> unat (numFraction n) \<and> unat (numFraction n) \<le> 18 \<and>
     (if numNegative n then 0 < numValue n \<and> unat (numValue n) \<le> 2 ^ 63 else unat (numValue n) < 2 ^ 63)"

lemma of_int_unat: "of_int (int (unat (w :: u64))) = w"
  by simp

lemma decimalValue_split:
  assumes "cut_at CHR ''.'' s = (whole, fr, True)" "length fr = unat fd" "1 \<le> unat fd" "unat fd \<le> 18"
    "parse_int10 (whole @ fr) = Inr v"
  shows "decimalValueFromString s fd = Inr \<lparr>numValue = (if v < 0 then of_int (- (v + 1)) + 1 else of_int v),
    numFraction = fd, numNegative = v < 0\<rparr>"
  using assms by (simp add: decimalValueFromString_def MaxFractionDigits_def)

theorem ParseDecimal_text:
  assumes n: "decimal64_number n"
  shows "ParseDecimal (number_text n) (numFraction n) = Inr n"
proof -
  define fd where "fd = unat (numFraction n)"
  define k where "k = length (padded n) - fd"
  let ?a = "take k (padded n)" and ?b = "drop k (padded n)"
  let ?sign = "if numNegative n then ''-'' else []"
  have fd: "1 \<le> fd" "fd \<le> 18" using n by (simp_all add: decimal64_number_def fd_def)
  then have nz: "numFraction n \<noteq> 0" by (auto simp: fd_def)
  have len: "fd < length (padded n)" using padded_length by (simp add: fd_def)
  then have k: "0 < k" "length ?b = fd" by (simp_all add: k_def)
  have t: "number_text n = ?sign @ ?a @ CHR ''.'' # ?b"
    using decimal_text[OF nz] by (simp add: k_def fd_def)
  have a: "\<forall>c \<in> set ?a. is_digit c" and b: "\<forall>c \<in> set ?b. is_digit c"
    using padded_digits by (auto dest: in_set_takeD in_set_dropD)
  have ne: "?a \<noteq> []" "?b \<noteq> []" using k fd len by auto
  then have "hd ?a \<in> set ?a" "last ?b \<in> set ?b" by (metis hd_in_set, metis last_in_set)
  then have vis: "visible (hd ?a)" "visible (last ?b)" using a b visible_digit by blast+
  have trim: "trim_space (number_text n) = number_text n"
    unfolding t using vis ne by (intro trim_space_visible) (auto simp: visible_def)
  have nosign: "number_text n \<noteq> []" "number_text n \<noteq> ''+''" "number_text n \<noteq> ''-''"
  proof -
    have "0 < length ?a" "0 < length ?b" using ne by blast+
    then have "2 < length (number_text n)" unfolding t by simp
    then show "number_text n \<noteq> []" "number_text n \<noteq> ''+''" "number_text n \<noteq> ''-''" by auto
  qed
  have cut: "cut_at CHR ''.'' (number_text n) = (?sign @ ?a, ?b, True)"
  proof -
    have "c \<noteq> CHR ''.''" if "c \<in> set ?a" for c using a digit_not_sign that by blast
    then have "\<forall>c \<in> set (?sign @ ?a). c \<noteq> CHR ''.''" by (cases "numNegative n") simp_all
    from cut_at_point[OF this] show ?thesis unfolding t by simp
  qed
  have dg: "\<forall>c \<in> set (padded n). is_digit c" "padded n \<noteq> []" using padded_digits len by auto
  have parse: "parse_int10 (?sign @ padded n) = Inr (mantissa n)"
    using parse_int10_unsigned[OF dg] parse_int10_negative[OF dg] n
    by (auto simp: padded_value mantissa_def decimal64_number_def)
  have neg: "mantissa n < 0 \<longleftrightarrow> numNegative n"
    using n by (auto simp: mantissa_def decimal64_number_def word_less_nat_alt simp del: of_nat_unat)
  have mag: "(if mantissa n < 0 then of_int (- (mantissa n + 1)) + 1 else of_int (mantissa n)) = numValue n"
    using neg by (simp add: mantissa_def)
  have val: "\<lparr>numValue = numValue n, numFraction = numFraction n, numNegative = numNegative n\<rparr> = n" by simp
  have "decimalValueFromString (number_text n) (numFraction n) =
      Inr \<lparr>numValue = (if mantissa n < 0 then of_int (- (mantissa n + 1)) + 1 else of_int (mantissa n)),
        numFraction = numFraction n, numNegative = mantissa n < 0\<rparr>"
  proof (rule decimalValue_split[OF cut])
    show "length ?b = unat (numFraction n)" using k(2) by (simp only: fd_def)
    show "1 \<le> unat (numFraction n)" "unat (numFraction n) \<le> 18" using fd by (simp_all only: fd_def)
    show "parse_int10 ((?sign @ ?a) @ ?b) = Inr (mantissa n)"
      using parse by (simp only: append_assoc append_take_drop_id)
  qed
  also have "\<dots> = Inr n" unfolding mag unfolding neg val ..
  finally show ?thesis
    unfolding ParseDecimal_def trim Let_def using nosign by simp
qed

subsection \<open>Range expressions\<close>

lemma parse_bound_scale:
  assumes "parse_bound parent decimal fd raw = Inr n" "decimal \<or> fd = 0"
  shows "numFraction n = fd"
proof -
  have int: "ParseInt raw = Inr n \<Longrightarrow> numFraction n = 0"
    by (auto simp: ParseInt_def Let_def split: if_splits sum.splits)
  have dec: "ParseDecimal raw fd = Inr n \<Longrightarrow> numFraction n = fd"
    by (auto simp: ParseDecimal_def decimalValueFromString_def Let_def split: if_splits sum.splits prod.splits)
  from assms int dec show ?thesis by (auto simp: parse_bound_def split: if_splits)
qed

lemma parse_part_scale:
  assumes "parse_part parent decimal fd part = Inr q" "decimal \<or> fd = 0" "unat fd \<le> 18"
  shows "scale_range d q \<longleftrightarrow> d = fd"
proof -
  from assms(1) obtain lo hi where lo: "parse_bound parent decimal fd (trim_space (hd (split_on ''..'' part))) = Inr lo"
    and hi: "hi = lo \<or> parse_bound parent decimal fd (trim_space (split_on ''..'' part ! 1)) = Inr hi"
    and q: "q = \<lparr>yMin = lo, yMax = hi\<rparr>" "\<not> num_less hi lo"
    by (auto simp: parse_part_def Let_def split: sum.splits if_splits)
  have sc: "scale fd lo" "scale fd hi"
    using parse_bound_scale[OF lo assms(2)] hi parse_bound_scale[OF _ assms(2)] assms(3)
    by (auto simp: scale_def)
  then show ?thesis
    using q scale_less[OF sc(2,1)] by (auto simp: scale_range_def scale_def)
qed

lemma parse_parts_scale:
  "parse_parts parent decimal fd ps = Inr rs \<Longrightarrow> decimal \<or> fd = 0 \<Longrightarrow> unat fd \<le> 18 \<Longrightarrow>
     \<forall>q \<in> set rs. scale_range fd q"
proof (induction ps arbitrary: rs)
  case (Cons p ps)
  then show ?case using parse_part_scale[of parent decimal fd p]
    by (auto split: sum.splits)
qed simp

theorem parseChildRanges_ok:
  assumes parts: "parse_parts parent decimal fd (split_on ''|'' s) = Inr rs"
    and fd: "decimal \<or> fd = 0" "unat fd \<le> 18" and head: "headroom rs"
  shows "\<exists>out. parseChildRanges parent s decimal fd = (if Contains parent out then Inr out else Inl (NotWithin s)) \<and>
    grid out = grid rs \<and> spaced out \<and> (\<forall>q \<in> set out. scale_range fd q)"
proof -
  note ok = coalesce_ok[OF parse_parts_scale[OF parts fd] headroom_wraps[OF head]]
  have "parseChildRanges parent s decimal fd =
      (if Contains parent (coalesceRanges (sort_ranges rs)) then Inr (coalesceRanges (sort_ranges rs)) else Inl (NotWithin s))"
    using parts ok(3) by (simp add: parseChildRanges_def Let_def)
  with ok show ?thesis by blast
qed

text \<open>Without a parent, an integer expression is refused exactly when a wrap keeps ranges apart that overlap.\<close>
theorem ParseRangesInt_exact:
  assumes "parse_parts [] False 0 (split_on ''|'' s) = Inr rs"
  shows "if wraps (sort_ranges rs) then ParseRangesInt s = Inl Overlapping
    else \<exists>out. ParseRangesInt s = Inr out \<and> grid out = grid rs \<and> spaced out"
proof -
  have sc: "\<forall>q \<in> set rs. scale_range 0 q" by (rule parse_parts_scale[OF assms]) simp_all
  have p: "ParseRangesInt s = (let out = coalesceRanges (sort_ranges rs) in case Validate out of Some e \<Rightarrow> Inl e | None \<Rightarrow> Inr out)"
    by (simp add: ParseRangesInt_def parseChildRanges_def assms Contains_def)
  show ?thesis
  proof (cases "wraps (sort_ranges rs)")
    case True
    then show ?thesis using coalesce_overlaps[OF sc True] p by simp
  next
    case False
    then show ?thesis using coalesce_ok[OF sc False] p by simp
  qed
qed

subsection \<open>Range texts\<close>

lemma split_from_clean:
  "sep \<noteq> [] \<Longrightarrow> hd sep \<notin> set t \<Longrightarrow> split_from sep acc (t @ s) = split_from sep (acc @ t) s"
proof (induction t arbitrary: acc)
  case (Cons c t)
  then have "\<not> has_prefix (c # t @ s) sep" by (cases sep) (auto simp: has_prefix_def)
  with Cons show ?case by (subst split_from.simps) simp
qed simp

lemma split_from_sep:
  "sep \<noteq> [] \<Longrightarrow> split_from sep acc (sep @ s) = acc # split_from sep [] s"
proof (cases sep)
  case (Cons c sep')
  then show ?thesis by (subst split_from.simps) (simp add: has_prefix_def)
qed simp

lemma split_from_Nil: "split_from sep acc [] = [acc]"
  by (simp add: split_from.simps)

lemma split_join:
  "sep \<noteq> [] \<Longrightarrow> ts \<noteq> [] \<Longrightarrow> \<forall>t \<in> set ts. hd sep \<notin> set t \<Longrightarrow> split_on sep (join_with sep ts) = ts"
proof (induction sep ts rule: join_with.induct)
  case (2 sep s)
  then show ?case using split_from_clean[of sep s "[]" "[]"] by (simp add: split_on_def split_from_Nil)
next
  case (3 sep s t ts)
  then show ?case
    using split_from_clean[of sep s "[]" "sep @ join_with sep (t # ts)"]
    by (simp add: split_on_def split_from_sep)
qed simp

text \<open>An integer range whose equal bounds are written alike, as parsing gives it.\<close>
definition int_range :: "yrange \<Rightarrow> bool" where
  "int_range q \<longleftrightarrow> scale_range 0 q \<and> (num_equal (yMin q) (yMax q) \<longrightarrow> yMin q = yMax q)"

lemma int_text_chars:
  assumes "numFraction n = 0"
  shows "c \<in> set (number_text n) \<Longrightarrow> is_digit c \<or> c = CHR ''-''" and "number_text n \<noteq> []"
    and "trim_space (number_text n) = number_text n"
proof -
  let ?d = "dec_of_nat (unat (numValue n))"
  have t: "number_text n = (if numNegative n then CHR ''-'' # ?d else ?d)"
    using assms by (simp add: number_text_def IsDecimal_def)
  have d: "visible (hd ?d)" "visible (last ?d)" using hd_last_digit dec_text_plain visible_digit by blast+
  show "c \<in> set (number_text n) \<Longrightarrow> is_digit c \<or> c = CHR ''-''"
    unfolding t using dec_text_plain by (auto split: if_splits)
  show "number_text n \<noteq> []" unfolding t by simp
  show "trim_space (number_text n) = number_text n"
    unfolding t using d by (intro trim_space_visible) (auto simp: visible_def)
qed

lemma parse_bound_text:
  assumes "numFraction n = 0"
  shows "parse_bound parent False 0 (number_text n) = Inr n"
proof -
  have "number_text n \<noteq> ''max''" "number_text n \<noteq> ''min''"
    using int_text_chars(1)[OF assms, of "CHR ''m''"] by (auto simp: is_digit_def)
  then show ?thesis by (simp add: parse_bound_def ParseInt_text[OF assms])
qed

lemma parse_part_text:
  assumes "int_range q"
  shows "parse_part parent False 0 (yrange_text q) = Inr q"
proof -
  have f: "numFraction (yMin q) = 0" "numFraction (yMax q) = 0" and ord: "\<not> num_less (yMax q) (yMin q)"
    using assms scale_less[of 0 "yMax q" "yMin q"] by (auto simp: int_range_def scale_range_def scale_def)
  have nd: "CHR ''.'' \<notin> set (number_text n)" if "numFraction n = 0" for n
    using int_text_chars(1)[OF that, of "CHR ''.''"] by (auto simp: is_digit_def)
  show ?thesis
  proof (cases "num_equal (yMin q) (yMax q)")
    case True
    then have eq: "yMin q = yMax q" using assms by (simp add: int_range_def)
    have "split_on ''..'' (number_text (yMin q)) = [number_text (yMin q)]"
      using split_join[of "''..''" "[number_text (yMin q)]"] nd[OF f(1)] by simp
    then show ?thesis
      using eq ord int_text_chars(3)[OF f(2)] parse_bound_text[OF f(2), of parent]
      by (cases q) (simp add: parse_part_def yrange_text_def num_equal_def Let_def)
  next
    case False
    have "split_on ''..'' (number_text (yMin q) @ ''..'' @ number_text (yMax q)) = [number_text (yMin q), number_text (yMax q)]"
      using split_join[of "''..''" "[number_text (yMin q), number_text (yMax q)]"] nd f by simp
    then show ?thesis
      using ord False int_text_chars(3)[OF f(1)] parse_bound_text[OF f(1), of parent]
        int_text_chars(3)[OF f(2)] parse_bound_text[OF f(2), of parent]
      by (cases q) (simp add: parse_part_def yrange_text_def Let_def)
  qed
qed

lemma parse_parts_text:
  "\<forall>q \<in> set rs. int_range q \<Longrightarrow> parse_parts parent False 0 (map yrange_text rs) = Inr rs"
  by (induction rs) (auto simp: parse_part_text)

lemma yrange_text_no_bar: "int_range q \<Longrightarrow> CHR ''|'' \<notin> set (yrange_text q)"
proof -
  assume "int_range q"
  then have f: "numFraction (yMin q) = 0" "numFraction (yMax q) = 0" by (auto simp: int_range_def scale_range_def scale_def)
  show ?thesis
    using int_text_chars(1)[OF f(1), of "CHR ''|''"] int_text_chars(1)[OF f(2), of "CHR ''|''"]
    by (auto simp: yrange_text_def is_digit_def split: if_splits)
qed

text \<open>Spaced ranges are already sorted and coalesced.\<close>

lemma spaced_sorted: "spaced rs \<Longrightarrow> \<forall>q \<in> set rs. scale_range d q \<Longrightarrow> sort_ranges rs = rs"
proof (induction rs)
  case (Cons r rs)
  then have IH: "foldr insert_range rs [] = rs" by (simp add: sort_ranges_def)
  show ?case
  proof (cases rs)
    case Nil
    then show ?thesis by (simp add: sort_ranges_def)
  next
    case (Cons q qs)
    have "ranges_sorted (r # rs)" using spaced_valid[of r rs d] Cons.prems by blast
    with Cons IH show ?thesis by (simp add: sort_ranges_def)
  qed
qed (simp add: sort_ranges_def)

lemma spaced_coalesced:
  "spaced (cur # rs) \<Longrightarrow> \<forall>q \<in> set (cur # rs). scale_range d q \<Longrightarrow> headroom (cur # rs) \<Longrightarrow> coalesce_from cur rs = cur # rs"
proof (induction rs arbitrary: cur)
  case (Cons r rs)
  then have "scale d (yMax cur)" "scale d (yMin r)" "mantissa (yMax cur) + 1 < mantissa (yMin r)"
    by (auto simp: scale_range_def)
  then have "num_less (addQuantum (yMax cur) 1) (yMin r)"
    using scale_less[OF addQuantum_scale] mantissa_addQuantum[of "yMax cur"] Cons.prems(3)
    by (auto simp: headroom_def)
  with Cons show ?case by (auto simp: headroom_def)
qed simp

theorem ParseRangesInt_text:
  assumes "rs \<noteq> []" "\<forall>q \<in> set rs. int_range q" "spaced rs" "headroom rs"
  shows "ParseRangesInt (yang_range_text rs) = Inr rs"
proof -
  have sc: "\<forall>q \<in> set rs. scale_range 0 q" using assms(2) by (simp add: int_range_def)
  have split: "split_on ''|'' (yang_range_text rs) = map yrange_text rs"
    unfolding yang_range_text_def using assms(1,2) yrange_text_no_bar by (intro split_join) auto
  have co: "coalesceRanges (sort_ranges rs) = rs"
    using spaced_sorted[OF assms(3) sc] spaced_coalesced[of _ _ 0] assms sc
    by (cases rs) (auto simp: coalesceRanges_def)
  moreover have "Validate rs = None" using coalesce_ok(3)[OF sc headroom_wraps[OF assms(4)]] co by simp
  ultimately show ?thesis
    using parse_parts_text[OF assms(2)]
    by (simp add: ParseRangesInt_def parseChildRanges_def split Contains_def)
qed

end
