(* ===== verification/Number_Properties.thy ===== *)
theory Number_Properties
  imports Yang_Number_Text
begin

text \<open>
  The properties of YANG numbers and range expressions (\<open>go/cambium/number.go\<close>).
\<close>

abbreviation whole_number :: "u64 \<Rightarrow> number" where
  "whole_number v \<equiv> \<lparr>numValue = v, numFraction = 0, numNegative = False\<rparr>"

abbreviation whole_range :: "u64 \<Rightarrow> u64 \<Rightarrow> yrange" where
  "whole_range a b \<equiv> \<lparr>yMin = whole_number a, yMax = whole_number b\<rparr>"

lemma whole_range_ok: "a \<le> b \<Longrightarrow> int_range (whole_range a b)"
  by (simp add: int_range_def scale_range_def scale_def mantissa_def num_equal_def scaledBigInt_def
    word_le_def word_uint_eq_iff)

subsection \<open>Order\<close>

text \<open>
  C15: \<open>Less\<close> and \<open>Equal\<close> are the order and the equality of the rational numbers that two
  numbers denote, whatever their numbers of fraction digits (up to the 18 of decimal64), and a
  negative zero is zero.
\<close>
theorem number_order_exact:
  assumes "small_fraction n" "small_fraction m"
  shows "(num_less n m \<longleftrightarrow> num_value n < num_value m) \<and> (num_equal n m \<longleftrightarrow> num_value n = num_value m)"
  using num_less_value[OF assms] num_equal_value[OF assms] by blast

lemma number_order_exact_witness:
  "num_less \<lparr>numValue = 15, numFraction = 1, numNegative = False\<rparr> (whole_number 2) \<and>
   num_value \<lparr>numValue = 15, numFraction = 1, numNegative = False\<rparr> < num_value (whole_number 2)"
  using number_order_exact[of "\<lparr>numValue = 15, numFraction = 1, numNegative = False\<rparr>" "whole_number 2"]
  by (simp add: small_fraction_def num_value_def mantissa_def)

subsection \<open>Ranges\<close>

text \<open>
  C16: on validated ranges the single merging pass of \<open>Contains\<close> decides inclusion: it answers true
  exactly when \<open>r\<close> has no range at all, which stands for no restriction, or every rational number that \<open>s\<close>
  permits is permitted by \<open>r\<close>.
\<close>
theorem contains_exact:
  assumes "Validate r = None" "Validate s = None" "small_ranges r" "small_ranges s"
  shows "Contains r s \<longleftrightarrow> r = [] \<or> admits s \<subseteq> admits r"
  using assms by (rule Contains_iff)

lemma contains_exact_witness:
  "\<not> Contains [whole_range 1 5, whole_range 8 9] [whole_range 2 3, whole_range 5 8] \<and>
   \<not> admits [whole_range 2 3, whole_range 5 8] \<subseteq> admits [whole_range 1 5, whole_range 8 9]"
  using contains_exact[of "[whole_range 1 5, whole_range 8 9]" "[whole_range 2 3, whole_range 5 8]"]
  by (simp add: Validate_def range_less_def num_less_def scaledBigInt_def range_valid_def small_ranges_def
    small_fraction_def Contains_def)

text \<open>The case of no range: something is contained in what permits nothing.\<close>
lemma empty_contains: "Contains [] [whole_range 1 5] \<and> \<not> admits [whole_range 1 5] \<subseteq> admits []"
proof -
  have "1 \<in> admits [whole_range 1 5]" by (simp add: admits_def num_value_def mantissa_def)
  then show ?thesis by (auto simp: Contains_def admits_def)
qed

text \<open>
  C17: a range expression whose parts parse to \<open>rs\<close> is read as the same set of numbers, in
  maximal intervals separated by at least one number (overlapping and adjacent parts are merged,
  order does not matter), and is refused exactly when the parent range does not contain it.  The
  one condition is that no upper bound is the greatest 64-bit magnitude.
\<close>
theorem range_expression_read:
  assumes "parse_parts parent decimal fd (split_on ''|'' s) = Inr rs"
    and "decimal \<or> fd = 0" "unat fd \<le> 18" "headroom rs"
  shows "\<exists>out. parseChildRanges parent s decimal fd = (if Contains parent out then Inr out else Inl (NotWithin s)) \<and>
    grid out = grid rs \<and> spaced out \<and> (\<forall>q \<in> set out. scale_range fd q)"
  using assms by (rule parseChildRanges_ok)

lemma range_expression_read_witness:
  "\<exists>out. parseChildRanges [whole_range 0 9] ''5..max|2|1'' False 0 =
      (if Contains [whole_range 0 9] out then Inr out else Inl (NotWithin ''5..max|2|1'')) \<and>
    grid out = grid [whole_range 5 9, whole_range 2 2, whole_range 1 1] \<and> spaced out \<and> (\<forall>q \<in> set out. scale_range 0 q)"
proof -
  have "parse_parts [whole_range 0 9] False 0 (split_on ''|'' ''5..max|2|1'') =
      Inr [whole_range 5 9, whole_range 2 2, whole_range 1 1]"
    by code_simp
  then show ?thesis by (rule range_expression_read) (simp_all add: headroom_def)
qed

text \<open>
  Printing ranges and parsing the text gives the ranges back, for any nonempty sequence of
  separated integer ranges.
\<close>
theorem range_text_roundtrip:
  assumes "rs \<noteq> []" "\<forall>q \<in> set rs. int_range q" "spaced rs" "headroom rs"
  shows "ParseRangesInt (yang_range_text rs) = Inr rs"
  using assms by (rule ParseRangesInt_text)

lemma range_text_roundtrip_witness:
  "ParseRangesInt (yang_range_text [whole_range 1 5, whole_range 8 9]) = Inr [whole_range 1 5, whole_range 8 9]"
  using range_text_roundtrip[of "[whole_range 1 5, whole_range 8 9]"] whole_range_ok[of 1 5] whole_range_ok[of 8 9]
  by (simp add: headroom_def mantissa_def)

text \<open>
  C18: an expression of integers is refused as overlapping exactly when, in the order of the sorted parts, a
  part that ends at 18446744073709551615 comes before a part that begins above zero: the quantum added to the
  greatest bound wraps to zero, so the two are not merged.  Every other expression is read as the numbers
  of its parts, overlapping parts merged.
\<close>
theorem full_range_not_coalesced:
  assumes "parse_parts [] False 0 (split_on ''|'' s) = Inr rs"
  shows "if wraps (sort_ranges rs) then ParseRangesInt s = Inl Overlapping
    else \<exists>out. ParseRangesInt s = Inr out \<and> grid out = grid rs \<and> spaced out"
  using assms by (rule ParseRangesInt_exact)

lemma full_range_not_coalesced_witness:
  "ParseRangesInt ''7..9|2..18446744073709551615'' = Inl Overlapping \<and>
   (\<exists>out. ParseRangesInt ''5..18446744073709551615|3..7'' = Inr out \<and>
      grid out = grid [whole_range 5 18446744073709551615, whole_range 3 7] \<and> spaced out)"
proof -
  have p: "parse_parts [] False 0 (split_on ''|'' ''7..9|2..18446744073709551615'') =
      Inr [whole_range 7 9, whole_range 2 18446744073709551615]"
    "parse_parts [] False 0 (split_on ''|'' ''5..18446744073709551615|3..7'') =
      Inr [whole_range 5 18446744073709551615, whole_range 3 7]"
    by code_simp+
  have w: "wraps (sort_ranges [whole_range 7 9, whole_range 2 18446744073709551615])"
    "\<not> wraps (sort_ranges [whole_range 5 18446744073709551615, whole_range 3 7])"
    by (simp_all add: sort_ranges_def range_less_def num_less_def scaledBigInt_def full_def mantissa_def low_def)
  show ?thesis using full_range_not_coalesced[OF p(1)] full_range_not_coalesced[OF p(2)] w by simp
qed

subsection \<open>Text\<close>

text \<open>
  every whole number, of either sign and any 64-bit magnitude, is read back from its text.
\<close>
theorem integer_text_roundtrip:
  assumes "numFraction n = 0"
  shows "ParseInt (number_text n) = Inr n"
  using assms by (rule ParseInt_text)

lemma integer_text_roundtrip_witness:
  "ParseInt (number_text \<lparr>numValue = 9223372036854775808, numFraction = 0, numNegative = True\<rparr>) =
     Inr \<lparr>numValue = 9223372036854775808, numFraction = 0, numNegative = True\<rparr>"
  by (rule integer_text_roundtrip) simp

text \<open>
  C19: every decimal64 value, from the least mantissa of the signed 64-bit range to the greatest
  and with 1 to 18 fraction digits, is read back from its text.
\<close>
theorem decimal_text_roundtrip:
  assumes "decimal64_number n"
  shows "ParseDecimal (number_text n) (numFraction n) = Inr n"
  using assms by (rule ParseDecimal_text)

lemma decimal_text_roundtrip_witness:
  "ParseDecimal (number_text \<lparr>numValue = 9223372036854775808, numFraction = 18, numNegative = True\<rparr>) 18 =
     Inr \<lparr>numValue = 9223372036854775808, numFraction = 18, numNegative = True\<rparr>"
  using decimal_text_roundtrip[of "\<lparr>numValue = 9223372036854775808, numFraction = 18, numNegative = True\<rparr>"]
  by (simp add: decimal64_number_def)

text \<open>
  the readers accept texts outside the YANG grammar: a binary prefix in an integer, a missing
  number on both sides of the decimal point.
\<close>
theorem lax_number_texts:
  "ParseInt ''0b11'' = Inr (whole_number 3) \<and>
   ParseDecimal ''.'' 2 = Inr \<lparr>numValue = 0, numFraction = 2, numNegative = False\<rparr>"
  by code_simp

end
