(* ===== verification/Yang_Scan.thy ===== *)
theory Yang_Scan
  imports Go_Regexp
begin

text \<open>
  The scanner of YANG source (\<open>go/internal/yangparse/native.go\<close>): positions, separators and
  comments, keywords, and the three kinds of strings with concatenation, escapes and the trimming
  of continuation lines.  The pair \<open>src\<close>, \<open>pos\<close> of the code is kept as the text from \<open>pos\<close> on.
  Errors carry the location and the kind of the message.
\<close>

subsection \<open>State and errors\<close>

datatype syntax_failure =
    UnexpectedBrace | UnterminatedComment | UnterminatedBlock | ExpectedEnd string | ExpectedKeyword
  | ExpectedQuoted | QuoteInUnquoted char | CommentCloseInUnquoted | ExpectedArgument
  | UnterminatedSingle | UnterminatedDouble | InvalidEscape char

datatype yang_error =
    SyntaxError string nat nat syntax_failure
  | InputTooLong string nat | InvalidUTF8 string nat | IllegalCharacter string rune nat | TooDeep string

record yang_warning =
  wFile :: string
  wLine :: nat
  wColumn :: nat
  wMessage :: string

record yparser =
  yRest :: string
  yName :: string
  yLine :: nat
  yCol :: nat
  yTcol :: nat
  yAllow :: bool
  yInPattern :: bool
  yWarnings :: "yang_warning list"

definition errf :: "yparser \<Rightarrow> nat \<Rightarrow> nat \<Rightarrow> syntax_failure \<Rightarrow> yang_error" where
  "errf p l c f = SyntaxError (yName p) l c f"

definition atEOF :: "yparser \<Rightarrow> bool" where
  "atEOF p \<longleftrightarrow> yRest p = []"

definition ypeek :: "yparser \<Rightarrow> char" where
  "ypeek p = (case yRest p of [] \<Rightarrow> CHR 0x00 | c # _ \<Rightarrow> c)"

definition ypeek2 :: "yparser \<Rightarrow> char" where
  "ypeek2 p = (case yRest p of _ # c # _ \<Rightarrow> c | _ \<Rightarrow> CHR 0x00)"

definition nextTabStop :: "nat \<Rightarrow> nat" where
  "nextTabStop c = c + 8 - (c - 1) mod 8"

text \<open>\<open>utf8.DecodeRuneInString\<close> on the rest: nothing is left to decode at the end.\<close>
definition next_rune :: "yparser \<Rightarrow> rune \<times> nat" where
  "next_rune p = (if atEOF p then (0xFFFD, 0) else decodeRune (yRest p))"

definition new_line :: "yparser \<Rightarrow> yparser" where
  "new_line p = p\<lparr>yLine := yLine p + 1, yCol := 1, yTcol := 1\<rparr>"

text \<open>\<open>advance\<close>; its callers do not use the rune it returns.\<close>
definition yadvance :: "yparser \<Rightarrow> yparser" where
  "yadvance p =
     (let (r, sz) = next_rune p; p = p\<lparr>yRest := drop sz (yRest p)\<rparr> in
      if r = 10 then new_line p
      else if r = 13 then
        new_line (if \<not> atEOF p \<and> ypeek p = CHR 0x0A then p\<lparr>yRest := tl (yRest p)\<rparr> else p)
      else if r = 9 then p\<lparr>yCol := yCol p + 1, yTcol := nextTabStop (yTcol p)\<rparr>
      else p\<lparr>yCol := yCol p + 1, yTcol := yTcol p + 1\<rparr>)"

definition isSeparatorByte :: "char \<Rightarrow> bool" where
  "isSeparatorByte c \<longleftrightarrow> c = CHR '' '' \<or> c = CHR 0x09 \<or> c = CHR 0x0D \<or> c = CHR 0x0A"

abbreviation yleft :: "yparser \<Rightarrow> nat" where
  "yleft p \<equiv> length (yRest p)"

lemma yadvance_less: "\<not> atEOF p \<Longrightarrow> yleft (yadvance p) < yleft p"
  using decodeRune_width[of "yRest p"]
  by (cases "yRest p")
    (auto simp: yadvance_def next_rune_def atEOF_def new_line_def Let_def split: prod.splits)

lemma yadvance_le: "yleft (yadvance p) \<le> yleft p"
proof (cases "atEOF p")
  case True
  then show ?thesis by (simp add: yadvance_def next_rune_def new_line_def atEOF_def)
qed (simp add: yadvance_less less_imp_le)

lemma next_rune_width: "\<not> atEOF p \<Longrightarrow> 0 < snd (next_rune p)"
  by (simp add: next_rune_def decodeRune_width)

subsection \<open>Separators\<close>

function skip_line :: "yparser \<Rightarrow> yparser" where
  "skip_line p =
     (if \<not> atEOF p \<and> ypeek p \<noteq> CHR 0x0A \<and> ypeek p \<noteq> CHR 0x0D then skip_line (yadvance p) else p)"
  by pat_completeness auto
termination by (relation "measure yleft") (auto simp: yadvance_less)

declare skip_line.simps [simp del]

text \<open>The text after the end of a block comment, if it ends.\<close>
function skip_block :: "yparser \<Rightarrow> yparser option" where
  "skip_block p =
     (if atEOF p then None
      else if ypeek p = CHR ''*'' \<and> ypeek2 p = CHR ''/'' then Some (yadvance (yadvance p))
      else skip_block (yadvance p))"
  by pat_completeness auto
termination by (relation "measure yleft") (auto simp: yadvance_less)

declare skip_block.simps [simp del]

lemma skip_line_le: "yleft (skip_line p) \<le> yleft p"
proof (induction p rule: skip_line.induct)
  case (1 p)
  then show ?case by (subst skip_line.simps) (use yadvance_le[of p] in auto)
qed

lemma skip_block_le: "skip_block p = Some q \<Longrightarrow> yleft q \<le> yleft p"
proof (induction p rule: skip_block.induct)
  case (1 p)
  then show ?case
    using yadvance_le[of p] yadvance_le[of "yadvance p"]
    by (subst (asm) (2) skip_block.simps) (fastforce split: if_splits)
qed

function skipSeparators :: "yparser \<Rightarrow> yang_error + yparser" where
  "skipSeparators p =
     (if atEOF p then Inr p
      else if isSeparatorByte (ypeek p) then skipSeparators (yadvance p)
      else if ypeek p = CHR ''/'' \<and> ypeek2 p = CHR ''/'' then
        skipSeparators (skip_line (yadvance (yadvance p)))
      else if ypeek p = CHR ''/'' \<and> ypeek2 p = CHR ''*'' then
        (case skip_block (yadvance (yadvance p)) of
           None \<Rightarrow> Inl (errf p (yLine p) (yCol p) UnterminatedComment)
         | Some q \<Rightarrow> skipSeparators q)
      else Inr p)"
  by pat_completeness auto
termination
proof (relation "measure yleft", simp, goal_cases)
  case (1 p)
  then show ?case by (simp add: yadvance_less)
next
  case (2 p)
  then show ?case
    using skip_line_le[of "yadvance (yadvance p)"] yadvance_le[of "yadvance p"] yadvance_less[of p] by simp
next
  case (3 p q)
  then show ?case
    using skip_block_le[of "yadvance (yadvance p)" q] yadvance_le[of "yadvance p"] yadvance_less[of p] by simp
qed

declare skipSeparators.simps [simp del]

lemma skipSeparators_le: "skipSeparators p = Inr q \<Longrightarrow> yleft q \<le> yleft p"
proof (induction p rule: skipSeparators.induct)
  case (1 p)
  let ?pp = "yadvance (yadvance p)"
  have "yleft ?pp \<le> yleft p" using yadvance_le[of p] yadvance_le[of "yadvance p"] by simp
  with 1 show ?case
    using yadvance_le[of p] skip_line_le[of ?pp] skip_block_le[of ?pp]
    by (subst (asm) (4) skipSeparators.simps) (fastforce split: if_splits option.splits)
qed

subsection \<open>Keywords and unquoted strings\<close>

text \<open>The text between two positions.\<close>
definition slice :: "yparser \<Rightarrow> yparser \<Rightarrow> string" where
  "slice p q = take (yleft p - yleft q) (yRest p)"

definition ends_word :: "yparser \<Rightarrow> bool" where
  "ends_word p \<longleftrightarrow>
     isSeparatorByte (ypeek p) \<or> ypeek p = CHR '';'' \<or> ypeek p = CHR ''{'' \<or> ypeek p = CHR ''}'' \<or>
     (ypeek p = CHR ''/'' \<and> (ypeek2 p = CHR ''/'' \<or> ypeek2 p = CHR ''*''))"

definition is_quote :: "char \<Rightarrow> bool" where
  "is_quote c \<longleftrightarrow> c = CHR 0x22 \<or> c = CHR 0x27"

function keyword_loop :: "yparser \<Rightarrow> yparser" where
  "keyword_loop p =
     (if \<not> atEOF p \<and> \<not> ends_word p \<and> \<not> is_quote (ypeek p) then keyword_loop (yadvance p) else p)"
  by pat_completeness auto
termination by (relation "measure yleft") (auto simp: yadvance_less)

declare keyword_loop.simps [simp del]

definition scanKeyword :: "yparser \<Rightarrow> yang_error + string \<times> yparser" where
  "scanKeyword p =
     (let q = keyword_loop p in
      if yleft q = yleft p then Inl (errf q (yLine p) (yCol p) ExpectedKeyword)
      else Inr (slice p q, q))"

function unquoted_loop :: "yparser \<Rightarrow> yang_error + yparser" where
  "unquoted_loop p =
     (if atEOF p \<or> ends_word p then Inr p
      else if is_quote (ypeek p) then Inl (errf p (yLine p) (yCol p) (QuoteInUnquoted (ypeek p)))
      else if ypeek p = CHR ''*'' \<and> ypeek2 p = CHR ''/'' then
        Inl (errf p (yLine p) (yCol p) CommentCloseInUnquoted)
      else unquoted_loop (yadvance p))"
  by pat_completeness auto
termination by (relation "measure yleft") (auto simp: yadvance_less)

declare unquoted_loop.simps [simp del]

definition scanUnquoted :: "yparser \<Rightarrow> yang_error + string \<times> yparser" where
  "scanUnquoted p =
     (case unquoted_loop p of
        Inl e \<Rightarrow> Inl e
      | Inr q \<Rightarrow>
          if yleft q = yleft p then Inl (errf q (yLine p) (yCol p) ExpectedArgument)
          else Inr (slice p q, q))"

subsection \<open>Quoted strings\<close>

function single_loop :: "yparser \<Rightarrow> yparser option" where
  "single_loop p =
     (if atEOF p then None else if ypeek p = CHR 0x27 then Some p else single_loop (yadvance p))"
  by pat_completeness auto
termination by (relation "measure yleft") (auto simp: yadvance_less)

declare single_loop.simps [simp del]

definition scanSingleQuoted :: "yparser \<Rightarrow> yang_error + string \<times> yparser" where
  "scanSingleQuoted p =
     (let p1 = yadvance p in
      case single_loop p1 of
        None \<Rightarrow> Inl (errf p (yLine p) (yCol p) UnterminatedSingle)
      | Some q \<Rightarrow> Inr (slice p1 q, yadvance q))"

text \<open>\<open>strings.TrimRight(line, " \t")\<close>\<close>
definition trim_blanks :: "string \<Rightarrow> string" where
  "trim_blanks s = rev (dropWhile (\<lambda>c. c = CHR '' '' \<or> c = CHR 0x09) (rev s))"

fun strip_columns :: "nat \<Rightarrow> nat \<Rightarrow> string \<Rightarrow> string" where
  "strip_columns cols indent [] = []"
| "strip_columns cols indent (c # s) =
     (if c = CHR '' '' then if cols + 1 > indent then c # s else strip_columns (cols + 1) indent s
      else if c = CHR 0x09 then
        let next = cols + (8 - cols mod 8) in
        if next > indent then c # s else strip_columns next indent s
      else c # s)"

definition stripLeadingColumns :: "string \<Rightarrow> nat \<Rightarrow> string" where
  "stripLeadingColumns s indent = strip_columns 0 indent s"

text \<open>The loop of \<open>trimDoubleQuoted\<close>: whether the line is the first, and the lines that remain.\<close>
fun trim_lines :: "bool \<Rightarrow> string list \<Rightarrow> string list \<Rightarrow> nat \<Rightarrow> string" where
  "trim_lines first [] endings quoteCol = []"
| "trim_lines first (line # lines) endings quoteCol =
     (let line = (if lines \<noteq> [] then trim_blanks line else line);
          line = (if \<not> first then stripLeadingColumns line quoteCol else line)
      in line @ (case endings of [] \<Rightarrow> [] | e # _ \<Rightarrow> e) @ trim_lines False lines (tl endings) quoteCol)"

definition trimDoubleQuoted :: "string list \<Rightarrow> string list \<Rightarrow> nat \<Rightarrow> string" where
  "trimDoubleQuoted texts endings quoteCol = trim_lines True texts endings quoteCol"

text \<open>The five escapes that stand for one character.\<close>
definition escaped :: "char \<Rightarrow> char option" where
  "escaped e =
     (if e = CHR ''n'' then Some (CHR 0x0A) else if e = CHR ''t'' then Some (CHR 0x09)
      else if e = CHR 0x22 \<or> e = CHR 0x27 \<or> e = CHR 0x5C then Some e else None)"

definition escape_warning :: "yparser \<Rightarrow> yang_warning" where
  "escape_warning p = \<lparr>wFile = yName p, wLine = yLine p, wColumn = yCol p,
     wMessage = ''invalid escape sequence: '' @ CHR 0x5C # encodeRune (fst (next_rune p)) @
       '' in pattern argument preserved as regex escape''\<rparr>"

text \<open>One ordinary rune, without the line counting of \<open>advance\<close>.\<close>
definition plain_step :: "yparser \<Rightarrow> yparser" where
  "plain_step p =
     (let (r, sz) = next_rune p in
      p\<lparr>yRest := drop sz (yRest p), yCol := yCol p + 1,
        yTcol := (if r = 9 then nextTabStop (yTcol p) else yTcol p + 1)\<rparr>)"

lemma plain_step_less: "\<not> atEOF p \<Longrightarrow> yleft (plain_step p) < yleft p"
  using next_rune_width[of p] by (cases "yRest p") (auto simp: plain_step_def atEOF_def split: prod.splits)

text \<open>The loop of \<open>scanDoubleQuoted\<close>; \<open>l\<close> and \<open>c\<close> are where the string started.\<close>
function double_loop ::
  "nat \<Rightarrow> nat \<Rightarrow> nat \<Rightarrow> string list \<Rightarrow> string list \<Rightarrow> string \<Rightarrow> yparser \<Rightarrow> yang_error + string \<times> yparser"
where
  "double_loop l c quoteCol texts endings cur p =
     (if atEOF p then Inl (errf p l c UnterminatedDouble)
      else if ypeek p = CHR 0x22 then
        Inr (trimDoubleQuoted (texts @ [cur]) endings quoteCol, yadvance p)
      else if ypeek p = CHR 0x5C then
        let p = yadvance p in
        if atEOF p then Inl (errf p l c UnterminatedDouble)
        else
          case escaped (ypeek p) of
            Some e \<Rightarrow> double_loop l c quoteCol texts endings (cur @ [e]) (yadvance p)
          | None \<Rightarrow>
              if \<not> yAllow p \<or> \<not> yInPattern p then Inl (errf p (yLine p) (yCol p) (InvalidEscape (ypeek p)))
              else double_loop l c quoteCol texts endings (cur @ CHR 0x5C # encodeRune (fst (next_rune p)))
                     (yadvance (p\<lparr>yWarnings := yWarnings p @ [escape_warning p]\<rparr>))
      else if ypeek p = CHR 0x0A then
        double_loop l c quoteCol (texts @ [cur]) (endings @ [[CHR 0x0A]]) [] (yadvance p)
      else double_loop l c quoteCol texts endings (cur @ encodeRune (fst (next_rune p))) (plain_step p))"
  by pat_completeness auto
termination
proof (relation "measure (\<lambda>(l, c, q, t, e, s, p). yleft p)", simp, goal_cases)
  case (1 l c quoteCol texts endings cur p x)
  then show ?case
    using yadvance_le[of "x\<lparr>yWarnings := yWarnings x @ [escape_warning x]\<rparr>"] yadvance_less[of p] by simp
next
  case (2 l c quoteCol texts endings cur p x e)
  then show ?case using yadvance_le[of x] yadvance_less[of p] by simp
qed (simp_all add: yadvance_less plain_step_less)

declare double_loop.simps [simp del]

definition scanDoubleQuoted :: "yparser \<Rightarrow> yang_error + string \<times> yparser" where
  "scanDoubleQuoted p = double_loop (yLine p) (yCol p) (yTcol p) [] [] [] (yadvance p)"

subsection \<open>Arguments\<close>

definition scanString :: "yparser \<Rightarrow> yang_error + (string \<times> bool) \<times> yparser" where
  "scanString p =
     (if ypeek p = CHR 0x22 then
        (case scanDoubleQuoted p of Inl e \<Rightarrow> Inl e | Inr (s, q) \<Rightarrow> Inr ((s, True), q))
      else if ypeek p = CHR 0x27 then
        (case scanSingleQuoted p of Inl e \<Rightarrow> Inl e | Inr (s, q) \<Rightarrow> Inr ((s, True), q))
      else (case scanUnquoted p of Inl e \<Rightarrow> Inl e | Inr (s, q) \<Rightarrow> Inr ((s, False), q)))"

lemma keyword_loop_le: "yleft (keyword_loop p) \<le> yleft p"
proof (induction p rule: keyword_loop.induct)
  case (1 p)
  then show ?case by (subst keyword_loop.simps) (use yadvance_le[of p] in auto)
qed

lemma unquoted_loop_le: "unquoted_loop p = Inr q \<Longrightarrow> yleft q \<le> yleft p"
proof (induction p rule: unquoted_loop.induct)
  case (1 p)
  then show ?case
    using yadvance_le[of p] by (subst (asm) (2) unquoted_loop.simps) (fastforce split: if_splits)
qed

lemma single_loop_le: "single_loop p = Some q \<Longrightarrow> yleft q \<le> yleft p"
proof (induction p rule: single_loop.induct)
  case (1 p)
  then show ?case
    using yadvance_le[of p] by (subst (asm) (2) single_loop.simps) (fastforce split: if_splits)
qed

lemma double_loop_le: "double_loop l c qc texts endings cur p = Inr (s, q) \<Longrightarrow> yleft q \<le> yleft p"
proof (induction l c qc texts endings cur p rule: double_loop.induct)
  case (1 l c qc texts endings cur p)
  show ?case
  proof (cases "atEOF p \<or> ypeek p = CHR 0x22 \<or> ypeek p = CHR 0x5C \<or> ypeek p = CHR 0x0A")
    case False
    with 1 plain_step_less[of p] show ?thesis by (simp add: double_loop.simps[of _ _ _ _ _ _ p])
  next
    case True
    let ?p = "yadvance p"
    let ?w = "?p\<lparr>yWarnings := yWarnings ?p @ [escape_warning ?p]\<rparr>"
    from True show ?thesis
      using 1 yadvance_le[of p] yadvance_le[of ?p] yadvance_le[of ?w]
      by (simp add: double_loop.simps[of _ _ _ _ _ _ p] Let_def split: if_splits option.splits)
        (fastforce dest: order_trans)+
  qed
qed

lemma scanString_le: "scanString p = Inr (v, q) \<Longrightarrow> yleft q \<le> yleft p"
proof -
  assume s: "scanString p = Inr (v, q)"
  have "yleft r \<le> yleft p" if "single_loop (yadvance p) = Some r'" "r = yadvance r'" for r r'
    using single_loop_le[OF that(1)] that(2) yadvance_le[of p] yadvance_le[of r'] by simp
  moreover have "yleft r \<le> yleft p" if "double_loop l c k t e w (yadvance p) = Inr (z, r)" for l c k t e w z r
    using double_loop_le[OF that] yadvance_le[of p] by simp
  ultimately show ?thesis
    using s unquoted_loop_le[of p]
    by (auto simp: scanString_def scanDoubleQuoted_def scanSingleQuoted_def scanUnquoted_def Let_def
        split: if_splits sum.splits option.splits)
qed

text \<open>The loop over \<open>+\<close>; a state that is no concatenation is left as it was.\<close>
function concat_loop :: "string \<Rightarrow> yparser \<Rightarrow> yang_error + string \<times> yparser" where
  "concat_loop val p =
     (case skipSeparators p of
        Inl e \<Rightarrow> Inl e
      | Inr p1 \<Rightarrow>
          if ypeek p1 \<noteq> CHR ''+'' then Inr (val, p)
          else
            case skipSeparators (yadvance p1) of
              Inl e \<Rightarrow> Inl e
            | Inr p2 \<Rightarrow>
              (case scanString p2 of
                 Inl e \<Rightarrow> Inl e
               | Inr ((next, quoted), p3) \<Rightarrow>
                   if \<not> quoted then Inl (errf p3 (yLine p3) (yCol p3) ExpectedQuoted)
                   else concat_loop (val @ next) p3))"
  by pat_completeness auto
termination
proof (relation "measure (\<lambda>(v, p). yleft p)", simp, goal_cases)
  case (1 val p p1 p2 x a p3 nxt quoted)
  then have "\<not> atEOF p1" by (auto simp: ypeek_def atEOF_def)
  with 1 show ?case
    using skipSeparators_le[of p p1] skipSeparators_le[of "yadvance p1" p2] yadvance_less[of p1]
      scanString_le[of p2 _ p3] by fastforce
qed

declare concat_loop.simps [simp del]

definition scanArgument :: "yparser \<Rightarrow> yang_error + string \<times> yparser" where
  "scanArgument p =
     (case scanString p of
        Inl e \<Rightarrow> Inl e
      | Inr ((val, quoted), q) \<Rightarrow> if \<not> quoted then Inr (val, q) else concat_loop val q)"

lemma concat_loop_le: "concat_loop val p = Inr (s, q) \<Longrightarrow> yleft q \<le> yleft p"
proof (induction val p rule: concat_loop.induct)
  case (1 val p)
  then show ?case
    using skipSeparators_le[of p] skipSeparators_le yadvance_le scanString_le
    by (subst (asm) (2) concat_loop.simps) (fastforce split: if_splits sum.splits prod.splits dest!: skipSeparators_le scanString_le intro: order_trans)
qed

lemma scanArgument_le: "scanArgument p = Inr (s, q) \<Longrightarrow> yleft q \<le> yleft p"
  by (auto simp: scanArgument_def dest!: scanString_le concat_loop_le split: sum.splits if_splits)

end
