(* ===== verification/Yang_Parse.thy ===== *)
theory Yang_Parse
  imports Yang_Scan
begin

text \<open>
  The statement builder of YANG source (\<open>go/internal/yangparse/native.go\<close>, \<open>statement.go\<close>) and
  the checks on the whole input that come before it (\<open>parser.go\<close>): its size, its characters and
  its nesting depth.  Reading a file from disk is not modelled.
\<close>

subsection \<open>Statements\<close>

text \<open>An argument that is absent is \<open>HasArgument = false\<close>, \<open>Argument = ""\<close> in the code.\<close>
datatype statement = Statement (sKeyword: string) (sArgument: "string option")
  (sStatements: "statement list") (sFile: string) (sLine: nat) (sCol: nat)

definition location_text :: "string \<Rightarrow> nat \<Rightarrow> nat \<Rightarrow> string" where
  "location_text file l c =
     (if file = [] \<and> l = 0 then ''unknown''
      else if file = [] then ''line '' @ dec_of_nat l @ '':'' @ dec_of_nat c
      else if l = 0 then file
      else file @ '':'' @ dec_of_nat l @ '':'' @ dec_of_nat c)"

definition SubStatements :: "statement \<Rightarrow> statement list" where
  "SubStatements s = sStatements s"

definition Position :: "statement option \<Rightarrow> string \<times> nat \<times> nat" where
  "Position s = (case s of None \<Rightarrow> ([], 0, 0) | Some s \<Rightarrow> (sFile s, sLine s, sCol s))"

subsection \<open>The builder\<close>

text \<open>The argument of a statement, if there is one, and the separators after it.\<close>
definition statement_argument :: "string \<Rightarrow> yparser \<Rightarrow> yang_error + string option \<times> yparser" where
  "statement_argument keyword p =
     (if \<not> atEOF p \<and> ypeek p \<noteq> CHR '';'' \<and> ypeek p \<noteq> CHR ''{'' then
        case scanArgument (p\<lparr>yInPattern := keyword = ''pattern''\<rparr>) of
          Inl e \<Rightarrow> Inl e
        | Inr (arg, q) \<Rightarrow>
            (case skipSeparators (q\<lparr>yInPattern := yInPattern p\<rparr>) of
               Inl e \<Rightarrow> Inl e | Inr r \<Rightarrow> Inr (Some arg, r))
      else Inr (None, p))"

lemma statement_argument_le: "statement_argument keyword p = Inr (a, q) \<Longrightarrow> yleft q \<le> yleft p"
  by (fastforce simp: statement_argument_def dest!: scanArgument_le skipSeparators_le
      split: if_splits sum.splits prod.splits)

lemma scanKeyword_less: "scanKeyword p = Inr (s, q) \<Longrightarrow> yleft q < yleft p"
  using keyword_loop_le[of p] by (auto simp: scanKeyword_def Let_def split: if_splits)

function (sequential,domintros) parse_statement :: "yparser \<Rightarrow> yang_error + statement \<times> yparser"
  and parse_children ::
    "nat \<Rightarrow> nat \<Rightarrow> statement list \<Rightarrow> yparser \<Rightarrow> yang_error + statement list \<times> yparser"
where
  "parse_statement p =
     (case scanKeyword p of
        Inl e \<Rightarrow> Inl e
      | Inr (keyword, p1) \<Rightarrow>
        (case skipSeparators p1 of
           Inl e \<Rightarrow> Inl e
         | Inr p2 \<Rightarrow>
           (case statement_argument keyword p2 of
              Inl e \<Rightarrow> Inl e
            | Inr (arg, p3) \<Rightarrow>
                if ypeek p3 = CHR '';'' then
                  Inr (Statement keyword arg [] (yName p) (yLine p) (yCol p), yadvance p3)
                else if ypeek p3 = CHR ''{'' then
                  (case parse_children (yLine p) (yCol p) [] (yadvance p3) of
                     Inl e \<Rightarrow> Inl e
                   | Inr (children, p4) \<Rightarrow>
                       Inr (Statement keyword arg children (yName p) (yLine p) (yCol p), p4))
                else Inl (errf p3 (yLine p3) (yCol p3) (ExpectedEnd keyword)))))"
| "parse_children l c children p =
     (case skipSeparators p of
        Inl e \<Rightarrow> Inl e
      | Inr p1 \<Rightarrow>
          if atEOF p1 then Inl (errf p1 l c UnterminatedBlock)
          else if ypeek p1 = CHR ''}'' then Inr (children, yadvance p1)
          else
            case parse_statement p1 of
              Inl e \<Rightarrow> Inl e
            | Inr (child, p2) \<Rightarrow> parse_children l c (children @ [child]) p2)"
  by pat_completeness auto

lemma parse_statement_shrinks:
  "parse_statement_parse_children_dom (Inl p) \<Longrightarrow> parse_statement p = Inr (st, q) \<Longrightarrow> yleft q < yleft p"
  "parse_statement_parse_children_dom (Inr (l, c, cs, p)) \<Longrightarrow> parse_children l c cs p = Inr (cs', q) \<Longrightarrow> yleft q \<le> yleft p"
proof (induction p and l c cs p arbitrary: st q and cs' q rule: parse_statement_parse_children.pinduct)
  case (1 p)
  from 1(1,3) obtain k p1 p2 a p3 where
    s: "scanKeyword p = Inr (k, p1)" "skipSeparators p1 = Inr p2" "statement_argument k p2 = Inr (a, p3)"
    by (auto simp: parse_statement.psimps split: sum.splits prod.splits)
  have le: "yleft p3 < yleft p"
    using scanKeyword_less[OF s(1)] skipSeparators_le[OF s(2)] statement_argument_le[OF s(3)] by simp
  show ?case
  proof (cases "ypeek p3 = CHR '';''")
    case True
    with 1(1,3) s le yadvance_le[of p3] show ?thesis by (auto simp: parse_statement.psimps)
  next
    case False
    with 1(1,3) s obtain cs where b: "ypeek p3 = CHR ''{''" "parse_children (yLine p) (yCol p) [] (yadvance p3) = Inr (cs, q)"
      by (auto simp: parse_statement.psimps split: sum.splits if_splits)
    from 1(2)[OF s(1) refl s(2,3) refl False b(1,2)] le yadvance_le[of p3] show ?thesis by simp
  qed
next
  case (2 l c cs p)
  from 2(1,4) obtain p1 where s: "skipSeparators p = Inr p1" "\<not> atEOF p1"
    by (auto simp: parse_children.psimps split: sum.splits if_splits)
  show ?case
  proof (cases "ypeek p1 = CHR ''}''")
    case True
    with 2(1,4) s yadvance_le[of p1] skipSeparators_le[OF s(1)] show ?thesis
      by (auto simp: parse_children.psimps)
  next
    case False
    with 2(1,4) s obtain st p2 where
      b: "parse_statement p1 = Inr (st, p2)" "parse_children l c (cs @ [st]) p2 = Inr (cs', q)"
      by (auto simp: parse_children.psimps split: sum.splits prod.splits)
    from 2(2)[OF s False b(1)] 2(3)[OF s False b(1) refl b(2)] skipSeparators_le[OF s(1)]
    show ?thesis by simp
  qed
qed

termination parse_statement
proof (relation "measures [\<lambda>x. case x of Inl p \<Rightarrow> yleft p | Inr (l, c, cs, p) \<Rightarrow> yleft p,
    \<lambda>x. case x of Inl p \<Rightarrow> 0 | Inr (l, c, cs, p) \<Rightarrow> Suc 0]", simp, goal_cases)
  case (1 p x kw p1 p2 y a p3)
  then show ?case
    using scanKeyword_less[of p kw p1] skipSeparators_le[of p1 p2] statement_argument_le[of kw p2 a p3]
      yadvance_le[of p3] by simp
next
  case (2 l c cs p p1)
  then show ?case using skipSeparators_le[of p p1] by auto
next
  case (3 l c cs p p1 r child p2)
  then show ?case using skipSeparators_le[of p p1] parse_statement_shrinks(1)[of p1 child p2] by auto
qed

lemma parse_all_dom:
  "parse_statement_parse_children_dom (Inl p)" "parse_statement_parse_children_dom (Inr (l, c, cs, p))"
proof (induction p and l c cs p rule: parse_statement_parse_children.induct)
  case (1 p)
  then show ?case by (intro parse_statement_parse_children.domintros(1)) simp
next
  case (2 l c cs p)
  show ?case
    by (rule parse_statement_parse_children.domintros(2)) (rule 2(1), assumption+, rule 2(2)[OF _ _ _ _ refl], assumption+)
qed

declare parse_statement.simps [simp del] parse_children.simps [simp del]

lemma parse_statement_less: "parse_statement p = Inr (st, q) \<Longrightarrow> yleft q < yleft p"
  by (rule parse_statement_shrinks(1)[OF parse_all_dom(1)])

lemma parse_children_le: "parse_children l c cs p = Inr (cs', q) \<Longrightarrow> yleft q \<le> yleft p"
  by (rule parse_statement_shrinks(2)[OF parse_all_dom(2)])

text \<open>The loop of \<open>parseDocument\<close>, with the statements so far.\<close>
function document_loop :: "statement list \<Rightarrow> yparser \<Rightarrow> yang_error + statement list \<times> yparser" where
  "document_loop stmts p =
     (case skipSeparators p of
        Inl e \<Rightarrow> Inl e
      | Inr p1 \<Rightarrow>
          if atEOF p1 then Inr (stmts, p1)
          else if ypeek p1 = CHR ''}'' then Inl (errf p1 (yLine p1) (yCol p1) UnexpectedBrace)
          else
            case parse_statement p1 of
              Inl e \<Rightarrow> Inl e
            | Inr (st, p2) \<Rightarrow> document_loop (stmts @ [st]) p2)"
  by pat_completeness auto
termination
proof (relation "measure (\<lambda>(stmts, p). yleft p)", simp, goal_cases)
  case (1 stmts p p1 x st p2)
  then show ?case using skipSeparators_le[of p p1] parse_statement_less[of p1 st p2] by auto
qed

declare document_loop.simps [simp del]

definition new_parser :: "string \<Rightarrow> string \<Rightarrow> bool \<Rightarrow> yparser" where
  "new_parser input name allow = \<lparr>yRest = input, yName = name, yLine = 1, yCol = 1, yTcol = 1,
     yAllow = allow, yInPattern = False, yWarnings = []\<rparr>"

definition parseDocument ::
  "string \<Rightarrow> string \<Rightarrow> bool \<Rightarrow> yang_error + statement list \<times> yang_warning list" where
  "parseDocument input name allow =
     (case document_loop [] (new_parser input name allow) of
        Inl e \<Rightarrow> Inl e
      | Inr (stmts, p) \<Rightarrow> Inr (stmts, yWarnings p))"

subsection \<open>Checks on the whole input\<close>

definition maxInputBytes :: nat where "maxInputBytes = 67108864"

definition maxStatementDepth :: nat where "maxStatementDepth = 10000"

definition displayName :: "string \<Rightarrow> string" where
  "displayName name = (if name = [] then ''<input>'' else name)"

definition isLegalYangSourceCharacter :: "rune \<Rightarrow> bool" where
  "isLegalYangSourceCharacter r =
     (if r = 9 \<or> r = 10 \<or> r = 13 then True
      else if r < 0x20 then False
      else if 0xD800 \<le> r \<and> r \<le> 0xDFFF then False
      else if 0xFDD0 \<le> r \<and> r \<le> 0xFDEF then False
      else if take_bit 16 r = 0xFFFE \<or> take_bit 16 r = 0xFFFF then False
      else True)"

text \<open>The loop from byte \<open>i\<close> on.\<close>
function check_characters :: "string \<Rightarrow> nat \<Rightarrow> string \<Rightarrow> yang_error option" where
  "check_characters name i s =
     (if s = [] then None
      else
        let (r, width) = decodeRune s in
        if r = 0xFFFD \<and> width = 1 then Some (InvalidUTF8 (displayName name) i)
        else if \<not> isLegalYangSourceCharacter r then Some (IllegalCharacter (displayName name) r i)
        else check_characters name (i + width) (drop width s))"
  by pat_completeness auto
termination
proof (relation "measure (\<lambda>(n, i, s). length s)", simp, goal_cases)
  case (1 name i s x r width)
  then have "0 < width" using decodeRune_width[of s] by (metis snd_conv)
  with 1(1) show ?case by (cases s) auto
qed

declare check_characters.simps [simp del]

definition checkYangSourceCharacters :: "string \<Rightarrow> string \<Rightarrow> yang_error option" where
  "checkYangSourceCharacters input name = check_characters name 0 input"

definition skipLine :: "string \<Rightarrow> string" where
  "skipLine s = dropWhile (\<lambda>c. c \<noteq> CHR 0x0A \<and> c \<noteq> CHR 0x0D) s"

text \<open>What follows the first \<open>*/\<close>.\<close>
fun after_close :: "string \<Rightarrow> string option" where
  "after_close (a # b # s) = (if a = CHR ''*'' \<and> b = CHR ''/'' then Some s else after_close (b # s))"
| "after_close _ = None"

text \<open>The text after the comment that starts here, if one does.\<close>
fun skipComment :: "string \<Rightarrow> string option" where
  "skipComment (a # b # s) =
     (if a = CHR ''/'' \<and> b = CHR ''/'' then Some (skipLine s)
      else if a = CHR ''/'' \<and> b = CHR ''*'' then after_close s
      else None)"
| "skipComment _ = None"

fun quoted_rest :: "char \<Rightarrow> string \<Rightarrow> string" where
  "quoted_rest q [] = []"
| "quoted_rest q [c] = []"
| "quoted_rest q (c # d # s) =
     (if q = CHR 0x22 \<and> c = CHR 0x5C then quoted_rest q s
      else if c = q then d # s
      else quoted_rest q (d # s))"

definition skipQuoted :: "string \<Rightarrow> string" where
  "skipQuoted s = quoted_rest (hd s) (tl s)"

lemma after_close_less: "after_close s = Some t \<Longrightarrow> length t < length s"
  by (induction s arbitrary: t rule: after_close.induct) (auto split: if_splits)

lemma skipComment_less: "skipComment s = Some t \<Longrightarrow> length t < length s"
proof (cases s rule: skipComment.cases)
  case (1 a b r)
  assume "skipComment s = Some t"
  with 1 show ?thesis
    using after_close_less[of r t] length_dropWhile_le[of "\<lambda>c. c \<noteq> CHR 0x0A \<and> c \<noteq> CHR 0x0D" r]
    by (auto simp: skipLine_def split: if_splits)
qed auto

lemma quoted_rest_le: "length (quoted_rest q s) \<le> length s"
  by (induction q s rule: quoted_rest.induct) auto

text \<open>The scan for the nesting depth.\<close>
function depth_scan :: "nat \<Rightarrow> string \<Rightarrow> bool" where
  "depth_scan depth s =
     (case s of
        [] \<Rightarrow> True
      | c # t \<Rightarrow>
          if c = CHR ''/'' then
            (case skipComment s of Some u \<Rightarrow> depth_scan depth u | None \<Rightarrow> depth_scan depth t)
          else if c = CHR 0x27 \<or> c = CHR 0x22 then depth_scan depth (skipQuoted s)
          else if c = CHR ''{'' then
            if depth + 1 > maxStatementDepth then False else depth_scan (depth + 1) t
          else if c = CHR ''}'' then depth_scan (depth - 1) t
          else depth_scan depth t)"
  by pat_completeness auto
termination
proof (relation "measure (\<lambda>(d, s). length s)", simp, goal_cases)
  case (1 depth s c t)
  then show ?case by simp
next
  case (2 depth s c t u)
  then show ?case using skipComment_less[of s u] by simp
next
  case (3 depth s c t)
  then show ?case using quoted_rest_le[of c t] by (simp add: skipQuoted_def less_Suc_eq_le)
qed simp_all

declare depth_scan.simps [simp del]

definition checkInputBounds :: "string \<Rightarrow> string \<Rightarrow> yang_error option" where
  "checkInputBounds input name =
     (if length input > maxInputBytes then Some (InputTooLong (displayName name) (length input))
      else case checkYangSourceCharacters input name of
        Some e \<Rightarrow> Some e
      | None \<Rightarrow> if depth_scan 0 input then None else Some (TooDeep (displayName name)))"

definition ParseWithOptions ::
  "string \<Rightarrow> string \<Rightarrow> bool \<Rightarrow> yang_error + statement list \<times> yang_warning list" where
  "ParseWithOptions input name allow =
     (case checkInputBounds input name of
        Some e \<Rightarrow> Inl e
      | None \<Rightarrow> parseDocument input name allow)"

definition parse_yang :: "string \<Rightarrow> string \<Rightarrow> yang_error + statement list" where
  "parse_yang input name = (case ParseWithOptions input name False of Inl e \<Rightarrow> Inl e | Inr (stmts, _) \<Rightarrow> Inr stmts)"

end
