(* ===== verification/Yang_Depth.thy ===== *)
theory Yang_Depth
  imports Yang_Parse
begin

text \<open>
  The depth check of \<open>checkInputBounds\<close> reads the text byte by byte and knows only comments,
  quoted strings and braces; the parser that runs after it reads runes and statements.  The
  lemmas show that the two agree on where blocks open and close, so that no accepted source
  parses to statements nested deeper than the limit.
\<close>

subsection \<open>Runes and bytes\<close>

lemma decode_ascii: "byte_at s 0 < 0x80 \<Longrightarrow> decodeRune s = (byte_at s 0, 1)"
  by (simp add: decodeRune_def Let_def)

text \<open>The four ways to decode a rune that does not start with an ASCII byte.\<close>

lemma decode_high_cases:
  assumes "0x80 \<le> byte_at s 0"
  obtains
    (two) "decodeRune s = ((byte_at s 0 - 0xC0) * 64 + (byte_at s 1 - 0x80), 2)"
      "0xC2 \<le> byte_at s 0" "byte_at s 0 \<le> 0xDF" "2 \<le> length s" "contByte (byte_at s 1)"
  | (three) "decodeRune s = ((byte_at s 0 - 0xE0) * 4096 + (byte_at s 1 - 0x80) * 64 + (byte_at s 2 - 0x80), 3)"
      "0xE0 \<le> byte_at s 0" "byte_at s 0 \<le> 0xEF" "3 \<le> length s" "contByte (byte_at s 1)"
      "byte_at s 0 = 0xE0 \<longrightarrow> 0xA0 \<le> byte_at s 1" "byte_at s 0 = 0xED \<longrightarrow> byte_at s 1 \<le> 0x9F" "contByte (byte_at s 2)"
  | (four) "decodeRune s = ((byte_at s 0 - 0xF0) * 262144 + (byte_at s 1 - 0x80) * 4096 + (byte_at s 2 - 0x80) * 64 + (byte_at s 3 - 0x80), 4)"
      "0xF0 \<le> byte_at s 0" "byte_at s 0 \<le> 0xF4" "4 \<le> length s" "contByte (byte_at s 1)"
      "byte_at s 0 = 0xF0 \<longrightarrow> 0x90 \<le> byte_at s 1" "byte_at s 0 = 0xF4 \<longrightarrow> byte_at s 1 \<le> 0x8F"
      "contByte (byte_at s 2)" "contByte (byte_at s 3)"
  | (bad) "decodeRune s = (0xFFFD, 1)"
proof -
  define b0 b1 b2 b3 where b_def: "b0 = byte_at s 0" "b1 = byte_at s 1" "b2 = byte_at s 2" "b3 = byte_at s 3"
  define A where "A \<longleftrightarrow> 0xC2 \<le> b0 \<and> b0 \<le> 0xDF \<and> 2 \<le> length s \<and> contByte b1"
  define B where "B \<longleftrightarrow> 0xE0 \<le> b0 \<and> b0 \<le> 0xEF \<and> 3 \<le> length s \<and> contByte b1 \<and> (b0 = 0xE0 \<longrightarrow> 0xA0 \<le> b1)
          \<and> (b0 = 0xED \<longrightarrow> b1 \<le> 0x9F) \<and> contByte b2"
  define C where "C \<longleftrightarrow> 0xF0 \<le> b0 \<and> b0 \<le> 0xF4 \<and> 4 \<le> length s \<and> contByte b1 \<and> (b0 = 0xF0 \<longrightarrow> 0x90 \<le> b1)
          \<and> (b0 = 0xF4 \<longrightarrow> b1 \<le> 0x8F) \<and> contByte b2 \<and> contByte b3"
  have "\<not> b0 < 0x80" using assms by (simp add: b_def)
  then have d: "decodeRune s = (if A then ((b0 - 0xC0) * 64 + (b1 - 0x80), 2)
      else if B then ((b0 - 0xE0) * 4096 + (b1 - 0x80) * 64 + (b2 - 0x80), 3)
      else if C then ((b0 - 0xF0) * 262144 + (b1 - 0x80) * 4096 + (b2 - 0x80) * 64 + (b3 - 0x80), 4)
      else (0xFFFD, 1))"
    unfolding decodeRune_def Let_def b_def[symmetric] A_def B_def C_def by (simp only: if_False)
  consider (a) A | (b) "\<not> A" B | (c) "\<not> A" "\<not> B" C | (n) "\<not> A" "\<not> B" "\<not> C" by blast
  then show thesis
  proof cases
    case a
    then have "A" .
    moreover from this d have "decodeRune s = ((b0 - 0xC0) * 64 + (b1 - 0x80), 2)" by (simp only: if_True)
    ultimately show ?thesis using two unfolding A_def b_def by blast
  next
    case b
    then have "B" by simp
    moreover from b d have "decodeRune s = ((b0 - 0xE0) * 4096 + (b1 - 0x80) * 64 + (b2 - 0x80), 3)" by (simp only: if_True if_False)
    ultimately show ?thesis using three unfolding B_def b_def by blast
  next
    case c
    then have "C" by simp
    moreover from c d have "decodeRune s = ((b0 - 0xF0) * 262144 + (b1 - 0x80) * 4096 + (b2 - 0x80) * 64 + (b3 - 0x80), 4)"
      by (simp only: if_True if_False)
    ultimately show ?thesis using four unfolding C_def b_def by blast
  next
    case n
    with d show ?thesis using bad by (simp only: if_False)
  qed
qed

lemma all_below: "(\<forall>k < 2. P k) \<longleftrightarrow> P 0 \<and> P (1 :: nat)" "(\<forall>k < 3. P k) \<longleftrightarrow> P 0 \<and> P (1 :: nat) \<and> P 2"
  "(\<forall>k < 4. P k) \<longleftrightarrow> P 0 \<and> P (1 :: nat) \<and> P 2 \<and> P 3"
proof -
  have "{..<2} = {0, 1 :: nat}" "{..<3} = {0, 1, 2 :: nat}" "{..<4} = {0, 1, 2, 3 :: nat}" by auto
  moreover have "(\<forall>k < n. P k) \<longleftrightarrow> (\<forall>k \<in> {..<n}. P k)" for n by auto
  ultimately show "(\<forall>k < 2. P k) \<longleftrightarrow> P 0 \<and> P (1 :: nat)" "(\<forall>k < 3. P k) \<longleftrightarrow> P 0 \<and> P (1 :: nat) \<and> P 2"
    "(\<forall>k < 4. P k) \<longleftrightarrow> P 0 \<and> P (1 :: nat) \<and> P 2 \<and> P 3" by simp_all
qed

lemma high_sums:
  fixes a b c d :: int
  assumes "0x80 \<le> b"
  shows "0xC2 \<le> a \<Longrightarrow> 0x80 \<le> (a - 0xC0) * 64 + (b - 0x80)"
    and "0xE0 \<le> a \<Longrightarrow> 0x80 \<le> c \<Longrightarrow> (a = 0xE0 \<longrightarrow> 0xA0 \<le> b) \<Longrightarrow>
      0x80 \<le> (a - 0xE0) * 4096 + (b - 0x80) * 64 + (c - 0x80)"
    and "0xF0 \<le> a \<Longrightarrow> 0x80 \<le> c \<Longrightarrow> 0x80 \<le> d \<Longrightarrow> (a = 0xF0 \<longrightarrow> 0x90 \<le> b) \<Longrightarrow>
      0x80 \<le> (a - 0xF0) * 262144 + (b - 0x80) * 4096 + (c - 0x80) * 64 + (d - 0x80)"
proof -
  show "0xC2 \<le> a \<Longrightarrow> 0x80 \<le> (a - 0xC0) * 64 + (b - 0x80)" using assms by simp
  show "0x80 \<le> (a - 0xE0) * 4096 + (b - 0x80) * 64 + (c - 0x80)"
    if "0xE0 \<le> a" "0x80 \<le> c" "a = 0xE0 \<longrightarrow> 0xA0 \<le> b"
    using that assms by (cases "a = 0xE0") auto
  show "0x80 \<le> (a - 0xF0) * 262144 + (b - 0x80) * 4096 + (c - 0x80) * 64 + (d - 0x80)"
    if "0xF0 \<le> a" "0x80 \<le> c" "0x80 \<le> d" "a = 0xF0 \<longrightarrow> 0x90 \<le> b"
    using that assms by (cases "a = 0xF0") auto
qed

text \<open>A rune that starts with a byte above the ASCII range has no ASCII byte.\<close>

lemma decode_high:
  assumes "0x80 \<le> byte_at s 0" "s \<noteq> []"
  shows "0x80 \<le> fst (decodeRune s)" "snd (decodeRune s) \<le> length s"
    "\<forall>c \<in> set (take (snd (decodeRune s)) s). 0x80 \<le> (of_char c :: int)"
proof -
  have all: "\<forall>c \<in> set (take n s). 0x80 \<le> (of_char c :: int)"
    if "n \<le> length s" "\<forall>k < n. 0x80 \<le> byte_at s k" for n
    using that by (auto simp: in_set_conv_nth)
  note below = all_below[of "\<lambda>k. 0x80 \<le> byte_at s k"]
  from assms(1) have "0x80 \<le> fst (decodeRune s) \<and> snd (decodeRune s) \<le> length s \<and>
    (\<forall>c \<in> set (take (snd (decodeRune s)) s). 0x80 \<le> (of_char c :: int))"
  proof (cases rule: decode_high_cases)
    case two
    have "\<forall>c \<in> set (take 2 s). 0x80 \<le> (of_char c :: int)"
      using all[of 2] below(1) two assms(1) by blast
    moreover have "0x80 \<le> (byte_at s 0 - 0xC0) * 64 + (byte_at s 1 - 0x80)" 
      by (rule high_sums(1)[OF conjunct1[OF two(5)] two(2)])
    ultimately show ?thesis using two(4) unfolding two(1) fst_conv snd_conv by blast
  next
    case three
    have "\<forall>c \<in> set (take 3 s). 0x80 \<le> (of_char c :: int)"
      using all[of 3] below(2) three assms(1) by blast
    moreover have "0x80 \<le> (byte_at s 0 - 0xE0) * 4096 + (byte_at s 1 - 0x80) * 64 + (byte_at s 2 - 0x80)"
      by (rule high_sums(2)[OF conjunct1[OF three(5)] three(2) conjunct1[OF three(8)] three(6)])
    ultimately show ?thesis using three(4) unfolding three(1) fst_conv snd_conv by blast
  next
    case four
    have "\<forall>c \<in> set (take 4 s). 0x80 \<le> (of_char c :: int)"
      using all[of 4] below(3) four assms(1) by blast
    moreover have "0x80 \<le> (byte_at s 0 - 0xF0) * 262144 + (byte_at s 1 - 0x80) * 4096 + (byte_at s 2 - 0x80) * 64 + (byte_at s 3 - 0x80)"
      by (rule high_sums(3)[OF conjunct1[OF four(5)] four(2) conjunct1[OF four(8)] conjunct1[OF four(9)] four(6)])
    ultimately show ?thesis using four(4) unfolding four(1) fst_conv snd_conv by blast
  next
    case bad
    then show ?thesis using assms by (cases s) auto
  qed
  then show "0x80 \<le> fst (decodeRune s)" "snd (decodeRune s) \<le> length s"
    "\<forall>c \<in> set (take (snd (decodeRune s)) s). 0x80 \<le> (of_char c :: int)" by blast+
qed

subsection \<open>One step of the depth check\<close>

abbreviation high :: "char \<Rightarrow> bool" where "high c \<equiv> 0x80 \<le> (of_char c :: int)"

definition plain_byte :: "char \<Rightarrow> bool" where
  "plain_byte c \<longleftrightarrow> c \<noteq> CHR ''/'' \<and> c \<noteq> CHR 0x27 \<and> c \<noteq> CHR 0x22 \<and> c \<noteq> CHR ''{'' \<and> c \<noteq> CHR ''}''"

lemma high_byte: "high c \<Longrightarrow> plain_byte c \<and> c \<noteq> CHR 0x5C \<and> c \<noteq> CHR ''*'' \<and> c \<noteq> CHR 0x0A \<and> c \<noteq> CHR 0x0D"
  by (auto simp: plain_byte_def)

lemma depth_plain: "plain_byte c \<Longrightarrow> depth_scan d (c # s) = depth_scan d s"
  by (simp add: depth_scan.simps[of d "c # s"] plain_byte_def)

lemma depth_plains: "\<forall>c \<in> set u. plain_byte c \<Longrightarrow> depth_scan d (u @ s) = depth_scan d s"
  by (induction u) (auto simp: depth_plain)

lemma depth_slash: "skipComment (CHR ''/'' # s) = None \<Longrightarrow> depth_scan d (CHR ''/'' # s) = depth_scan d s"
  by (simp add: depth_scan.simps[of d "CHR ''/'' # s"])

lemma depth_open: "depth_scan d (CHR ''{'' # s) \<longleftrightarrow> d + 1 \<le> maxStatementDepth \<and> depth_scan (d + 1) s"
  by (auto simp: depth_scan.simps[of d "CHR ''{'' # s"])

lemma depth_close: "depth_scan d (CHR ''}'' # s) \<longleftrightarrow> depth_scan (d - 1) s"
  by (simp add: depth_scan.simps[of d "CHR ''}'' # s"])

lemma in_set_tlD: "x \<in> set (tl xs) \<Longrightarrow> x \<in> set xs"
  by (cases xs) auto

text \<open>What one \<open>advance\<close> leaves of the text.\<close>
lemma yadvance_rest:
  assumes "yRest p = c # s"
  shows "yRest (yadvance p) =
    (if high c then drop (snd (decodeRune (c # s))) (c # s)
     else if c = CHR 0x0D \<and> s \<noteq> [] \<and> hd s = CHR 0x0A then tl s else s)"
proof (cases "high c")
  case True
  then have "byte_at (c # s) 0 \<ge> 0x80" by simp
  from decode_high[OF this] have "0x80 \<le> fst (decodeRune (c # s))" by simp
  with True assms show ?thesis
    by (auto simp: yadvance_def next_rune_def atEOF_def split: prod.splits)
next
  case False
  then have d: "decodeRune (c # s) = (of_char c, 1)" using decode_ascii[of "c # s"] by simp
  have "(of_char c :: int) = 13 \<longleftrightarrow> c = CHR 0x0D" using of_char_eq_iff[of c "CHR 0x0D", where ?'a = int] by simp
  then show ?thesis
    using False d assms
    by (cases s) (auto simp: yadvance_def next_rune_def atEOF_def new_line_def ypeek_def Let_def)
qed

lemma yadvance_drop:
  assumes "\<not> atEOF p"
  obtains u where "yRest p = u @ yRest (yadvance p)" "u \<noteq> []" "hd u = ypeek p"
    "\<forall>c \<in> set (tl u). high c \<or> c = CHR 0x0A"
proof (cases "yRest p")
  case Nil
  with assms show ?thesis by (simp add: atEOF_def)
next
  case (Cons c s)
  let ?k = "snd (decodeRune (c # s))"
  show ?thesis
  proof (cases "high c")
    case True
    have k: "0 < ?k" by (rule decodeRune_width)
    have "\<forall>x \<in> set (take ?k (c # s)). high x" using decode_high(3)[of "c # s"] True by simp
    then have "\<forall>x \<in> set (tl (take ?k (c # s))). high x" by (blast dest: in_set_tlD)
    have "yRest p = take ?k (c # s) @ yRest (yadvance p)"
      using True yadvance_rest[OF Cons] Cons by (simp only: if_True append_take_drop_id)
    moreover have "take ?k (c # s) \<noteq> []" "hd (take ?k (c # s)) = ypeek p"
      using k Cons by (simp_all add: ypeek_def hd_take)
    ultimately show ?thesis using that[of "take ?k (c # s)"] \<open>\<forall>x \<in> set (tl (take ?k (c # s))). high x\<close> by blast
  next
    case False
    show ?thesis
    proof (cases "c = CHR 0x0D \<and> s \<noteq> [] \<and> hd s = CHR 0x0A")
      case True
      then obtain t where t: "s = CHR 0x0A # t" by (cases s) auto
      with True have "yRest (yadvance p) = t" using yadvance_rest[OF Cons] by simp
      then show ?thesis using that[of "[c, CHR 0x0A]"] t Cons by (simp add: ypeek_def)
    next
      case f: False
      then have "yRest (yadvance p) = s" using False f yadvance_rest[OF Cons] by (simp only: if_False)
      then show ?thesis using that[of "[c]"] Cons by (simp add: ypeek_def)
    qed
  qed
qed

text \<open>An advance over an ASCII byte other than a carriage return takes that byte.\<close>
lemma yadvance_byte:
  assumes "yRest p = c # s" "\<not> high c" "c \<noteq> CHR 0x0D"
  shows "yRest (yadvance p) = s"
  using yadvance_rest[OF assms(1)] assms by simp

lemma depth_advance:
  assumes "\<not> atEOF p" "plain_byte (ypeek p)"
  shows "depth_scan d (yRest (yadvance p)) = depth_scan d (yRest p)"
proof -
  obtain u where u: "yRest p = u @ yRest (yadvance p)" "u \<noteq> []" "hd u = ypeek p"
    "\<forall>c \<in> set (tl u). high c \<or> c = CHR 0x0A" using yadvance_drop[OF assms(1)] by blast
  then have "\<forall>c \<in> set u. plain_byte c"
    using assms(2) high_byte by (cases u) (auto simp: plain_byte_def)
  then show ?thesis using depth_plains[of u d "yRest (yadvance p)"] u(1) by simp
qed

subsection \<open>Separators\<close>

lemma after_close_step:
  "after_close (c # s) = (if c = CHR ''*'' \<and> s \<noteq> [] \<and> hd s = CHR ''/'' then Some (tl s) else after_close s)"
  by (cases s) auto

lemma after_close_skip: "\<forall>c \<in> set u. c \<noteq> CHR ''*'' \<Longrightarrow> after_close (u @ s) = after_close s"
  by (induction u) (auto simp: after_close_step)

lemma peeks: "yRest p = c # s \<Longrightarrow> ypeek p = c \<and> ypeek2 p = (if s = [] then CHR 0x00 else hd s)"
  by (cases s) (auto simp: ypeek_def ypeek2_def)

lemma skip_block_text: "skip_block p = Some q \<Longrightarrow> after_close (yRest p) = Some (yRest q)"
proof (induction p rule: skip_block.induct)
  case (1 p)
  from 1(2) have ne: "\<not> atEOF p" by (auto simp: skip_block.simps)
  then obtain c s where cs: "yRest p = c # s" by (cases "yRest p") (auto simp: atEOF_def)
  show ?case
  proof (cases "ypeek p = CHR ''*'' \<and> ypeek2 p = CHR ''/''")
    case True
    then have c: "c = CHR ''*''" "s \<noteq> []" "hd s = CHR ''/''" using peeks[OF cs] by (auto split: if_splits)
    then have "yRest (yadvance p) = s" using yadvance_byte[OF cs] by simp
    then have "yRest (yadvance (yadvance p)) = tl s"
      using yadvance_byte[of "yadvance p" "hd s" "tl s"] c by (cases s) auto
    with 1(2) True ne c cs show ?thesis by (simp add: skip_block.simps[of p] after_close_step)
  next
    case False
    with 1 ne have IH: "after_close (yRest (yadvance p)) = Some (yRest q)" by (simp add: skip_block.simps[of p])
    obtain u where u: "yRest p = u @ yRest (yadvance p)" "u \<noteq> []" "hd u = ypeek p"
      "\<forall>c \<in> set (tl u). high c \<or> c = CHR 0x0A" using yadvance_drop[OF ne] by blast
    have "\<forall>c \<in> set (tl u). c \<noteq> CHR ''*''" using u(4) high_byte by auto
    then have "after_close (tl u @ yRest (yadvance p)) = Some (yRest q)" using IH by (simp add: after_close_skip)
    moreover have "c # s = ypeek p # (tl u @ yRest (yadvance p))" using u cs by (cases u) auto
    ultimately show ?thesis
      using False cs peeks[OF cs] by (auto simp: after_close_step split: if_splits)
  qed
qed

lemma skip_line_text: "yRest (skip_line p) = skipLine (yRest p)"
proof (induction p rule: skip_line.induct)
  case (1 p)
  show ?case
  proof (cases "\<not> atEOF p \<and> ypeek p \<noteq> CHR 0x0A \<and> ypeek p \<noteq> CHR 0x0D")
    case True
    then obtain c s where cs: "yRest p = c # s" by (cases "yRest p") (auto simp: atEOF_def)
    then have c: "c \<noteq> CHR 0x0A" "c \<noteq> CHR 0x0D" using True peeks by auto
    let ?k = "snd (decodeRune (c # s))"
    have "skipLine (yRest (yadvance p)) = skipLine (c # s)"
    proof (cases "high c")
      case h: True
      have "\<forall>x \<in> set (take ?k (c # s)). x \<noteq> CHR 0x0A \<and> x \<noteq> CHR 0x0D"
        using decode_high(3)[of "c # s"] h high_byte by auto
      then have "skipLine (take ?k (c # s) @ drop ?k (c # s)) = skipLine (drop ?k (c # s))"
        unfolding skipLine_def by (subst dropWhile_append2) auto
      then show ?thesis using h yadvance_rest[OF cs] by simp
    qed (use c yadvance_byte[OF cs] in \<open>simp add: skipLine_def\<close>)
    with 1 True cs show ?thesis by (simp add: skip_line.simps[of p])
  next
    case False
    then show ?thesis
      by (cases "yRest p") (auto simp: skip_line.simps[of p] skipLine_def atEOF_def ypeek_def)
  qed
qed

lemma depth_comment:
  assumes "yRest p = CHR ''/'' # s" "skipComment (CHR ''/'' # s) = Some t"
  shows "depth_scan d (CHR ''/'' # s) = depth_scan d t"
  using assms by (simp add: depth_scan.simps[of d "CHR ''/'' # s"])

lemma slash_advance:
  assumes "ypeek p = CHR ''/''" "ypeek2 p = c" "\<not> high c" "c \<noteq> CHR 0x00" "c \<noteq> CHR 0x0D"
  obtains s where "yRest p = CHR ''/'' # c # s" "yRest (yadvance (yadvance p)) = s"
proof -
  from assms obtain s where s: "yRest p = CHR ''/'' # c # s"
    by (auto simp: ypeek_def ypeek2_def split: list.splits)
  then have "yRest (yadvance p) = c # s" by (intro yadvance_byte) auto
  then have "yRest (yadvance (yadvance p)) = s" using assms(3,5) by (rule yadvance_byte)
  with s that show thesis by blast
qed

lemma depth_separators: "skipSeparators p = Inr q \<Longrightarrow> depth_scan d (yRest q) = depth_scan d (yRest p)"
proof (induction p rule: skipSeparators.induct)
  case (1 p)
  consider (stop) "q = p" | (sep) "\<not> atEOF p" "isSeparatorByte (ypeek p)"
    | (line) "\<not> atEOF p" "\<not> isSeparatorByte (ypeek p)" "ypeek p = CHR ''/''" "ypeek2 p = CHR ''/''"
    | (block) r where "\<not> atEOF p" "\<not> isSeparatorByte (ypeek p)" "ypeek p = CHR ''/''" "ypeek2 p = CHR ''*''"
      "skip_block (yadvance (yadvance p)) = Some r" "skipSeparators r = Inr q"
    using 1(4) by (auto simp: skipSeparators.simps[of p] split: if_splits option.splits)
  then show ?case
  proof cases
    case stop
    then show ?thesis by simp
  next
    case sep
    then have "plain_byte (ypeek p)" by (auto simp: isSeparatorByte_def plain_byte_def)
    with 1(1)[OF sep] 1(4) sep show ?thesis by (simp add: skipSeparators.simps[of p] depth_advance)
  next
    case line
    obtain s where s: "yRest p = CHR ''/'' # CHR ''/'' # s" "yRest (yadvance (yadvance p)) = s"
      using slash_advance[OF line(3,4)] by auto
    have "depth_scan d (yRest p) = depth_scan d (skipLine s)"
      unfolding s(1) by (rule depth_comment[OF s(1)]) simp
    with 1(2)[OF line(1,2)] 1(4) line s show ?thesis by (simp add: skipSeparators.simps[of p] skip_line_text)
  next
    case (block r)
    obtain s where s: "yRest p = CHR ''/'' # CHR ''*'' # s" "yRest (yadvance (yadvance p)) = s"
      using slash_advance[OF block(3,4)] by auto
    have "after_close s = Some (yRest r)" using skip_block_text[OF block(5)] s by simp
    then have "depth_scan d (yRest p) = depth_scan d (yRest r)"
      unfolding s(1) by (intro depth_comment[OF s(1)]) simp
    with 1(3)[OF block(1,2) _ _ block(5)] block show ?thesis by simp
  qed
qed

subsection \<open>Words\<close>

lemma depth_word:
  assumes "\<not> atEOF p" "\<not> ends_word p" "\<not> is_quote (ypeek p)"
  shows "depth_scan d (yRest (yadvance p)) = depth_scan d (yRest p)"
proof (cases "ypeek p = CHR ''/''")
  case False
  then have "plain_byte (ypeek p)" using assms by (auto simp: ends_word_def is_quote_def plain_byte_def)
  then show ?thesis using depth_advance[OF assms(1)] by simp
next
  case True
  with assms(1) obtain s where s: "yRest p = CHR ''/'' # s" by (cases "yRest p") (auto simp: atEOF_def ypeek_def)
  then have "yRest (yadvance p) = s" by (intro yadvance_byte) auto
  moreover have "skipComment (CHR ''/'' # s) = None"
    using assms(2) peeks[OF s] by (cases s) (auto simp: ends_word_def split: if_splits)
  ultimately show ?thesis using s by (simp add: depth_slash)
qed

lemma depth_keyword: "depth_scan d (yRest (keyword_loop p)) = depth_scan d (yRest p)"
proof (induction p rule: keyword_loop.induct)
  case (1 p)
  then show ?case using depth_word[of p d] by (subst keyword_loop.simps) auto
qed

lemma depth_unquoted: "unquoted_loop p = Inr q \<Longrightarrow> depth_scan d (yRest q) = depth_scan d (yRest p)"
proof (induction p rule: unquoted_loop.induct)
  case (1 p)
  show ?case
  proof (cases "atEOF p \<or> ends_word p")
    case True
    with 1 show ?thesis by (simp add: unquoted_loop.simps[of p])
  next
    case False
    with 1 show ?thesis using depth_word[of p d] by (simp add: unquoted_loop.simps[of p] split: if_splits)
  qed
qed

subsection \<open>Quoted strings\<close>

lemma quoted_step:
  "quoted_rest q (c # s) =
    (if q = CHR 0x22 \<and> c = CHR 0x5C then quoted_rest q (tl s) else if c = q then s else quoted_rest q s)"
  by (cases s) auto

lemma quoted_skip:
  assumes "\<not> high q" "q \<noteq> CHR 0x0A"
  shows "\<forall>c \<in> set u. high c \<or> c = CHR 0x0A \<Longrightarrow> quoted_rest q (u @ s) = quoted_rest q s"
proof (induction u)
  case (Cons c u)
  then have "c \<noteq> CHR 0x5C" "c \<noteq> q" using high_byte assms by auto
  with Cons show ?case by (simp add: quoted_step)
qed simp

text \<open>An advance skips what the byte scan skips, once its first byte is decided.\<close>
lemma quoted_tail:
  assumes "\<not> atEOF p" "\<not> high q" "q \<noteq> CHR 0x0A"
  shows "quoted_rest q (tl (yRest p)) = quoted_rest q (yRest (yadvance p))"
proof -
  obtain u where u: "yRest p = u @ yRest (yadvance p)" "u \<noteq> []" "\<forall>c \<in> set (tl u). high c \<or> c = CHR 0x0A"
    using yadvance_drop[OF assms(1)] by blast
  then have "tl (yRest p) = tl u @ yRest (yadvance p)" by (metis tl_append2)
  then show ?thesis using quoted_skip[OF assms(2,3) u(3)] by simp
qed

lemma quoted_advance:
  assumes "\<not> atEOF p" "\<not> high q" "q \<noteq> CHR 0x0A" "ypeek p \<noteq> q" "\<not> (q = CHR 0x22 \<and> ypeek p = CHR 0x5C)"
  shows "quoted_rest q (yRest p) = quoted_rest q (yRest (yadvance p))"
proof -
  obtain c s where cs: "yRest p = c # s" using assms(1) by (cases "yRest p") (auto simp: atEOF_def)
  then have "quoted_rest q (yRest p) = quoted_rest q (tl (yRest p))"
    using assms(4,5) peeks[OF cs] by (auto simp: quoted_step)
  then show ?thesis using quoted_tail[OF assms(1-3)] by simp
qed

lemma single_text: "single_loop p = Some q \<Longrightarrow> quoted_rest CHR 0x27 (yRest p) = tl (yRest q) \<and> ypeek q = CHR 0x27 \<and> \<not> atEOF q"
proof (induction p rule: single_loop.induct)
  case (1 p)
  from 1(2) have ne: "\<not> atEOF p" by (auto simp: single_loop.simps)
  show ?case
  proof (cases "ypeek p = CHR 0x27")
    case True
    with 1(2) ne show ?thesis
      by (cases "yRest p") (auto simp: single_loop.simps[of p] quoted_step ypeek_def atEOF_def)
  next
    case False
    with 1 ne quoted_advance[OF ne, of "CHR 0x27"] show ?thesis by (simp add: single_loop.simps[of p])
  qed
qed

lemma byte_after: "\<not> atEOF p \<Longrightarrow> ypeek p = c \<Longrightarrow> \<not> high c \<Longrightarrow> c \<noteq> CHR 0x0D \<Longrightarrow> yRest p = c # yRest (yadvance p)"
  using yadvance_byte[of p] by (cases "yRest p") (auto simp: atEOF_def ypeek_def)

lemma plain_step_rest: "ypeek p \<noteq> CHR 0x0D \<Longrightarrow> yRest (plain_step p) = yRest (yadvance p)"
proof (cases "yRest p")
  case (Cons c s)
  assume "ypeek p \<noteq> CHR 0x0D"
  then have "c \<noteq> CHR 0x0D" using peeks[OF Cons] by simp
  then show ?thesis
    using yadvance_rest[OF Cons] decode_ascii[of "c # s"] Cons
    by (auto simp: plain_step_def next_rune_def atEOF_def split: prod.splits)
qed (simp add: plain_step_def yadvance_def next_rune_def atEOF_def Let_def)

lemma quoted_plain_step:
  assumes "\<not> atEOF p" "ypeek p \<noteq> CHR 0x22" "ypeek p \<noteq> CHR 0x5C"
  shows "quoted_rest CHR 0x22 (yRest p) = quoted_rest CHR 0x22 (yRest (plain_step p))"
proof (cases "ypeek p = CHR 0x0D")
  case False
  then show ?thesis using quoted_advance[OF assms(1), of "CHR 0x22"] assms plain_step_rest by simp
next
  case True
  then obtain s where "yRest p = CHR 0x0D # s" using assms(1) by (cases "yRest p") (auto simp: atEOF_def ypeek_def)
  then show ?thesis
    using decode_ascii[of "yRest p"] by (simp add: plain_step_def next_rune_def atEOF_def quoted_step)
qed

lemma double_text: "double_loop l c qc texts endings cur p = Inr (s, q) \<Longrightarrow> quoted_rest CHR 0x22 (yRest p) = yRest q"
proof (induction l c qc texts endings cur p rule: double_loop.induct)
  case (1 l c qc texts endings cur p)
  note step = double_loop.simps[of l c qc texts endings cur p]
  from 1(5) have ne: "\<not> atEOF p" by (auto simp: step)
  consider (close) "ypeek p = CHR 0x22" | (esc) "ypeek p = CHR 0x5C" | (nl) "ypeek p = CHR 0x0A"
    | (plain) "ypeek p \<noteq> CHR 0x22" "ypeek p \<noteq> CHR 0x5C" "ypeek p \<noteq> CHR 0x0A" by blast
  then show ?case
  proof cases
    case close
    then have "yRest p = CHR 0x22 # yRest (yadvance p)" using byte_after[OF ne] by simp
    moreover have "q = yadvance p" using 1(5) close ne by (simp add: step)
    ultimately show ?thesis by (simp add: quoted_step)
  next
    case nl
    with 1(3)[OF ne] 1(5) ne quoted_advance[OF ne, of "CHR 0x22"] show ?thesis by (simp add: step)
  next
    case plain
    with 1(5) ne have "double_loop l c qc texts endings (cur @ encodeRune (fst (next_rune p))) (plain_step p) = Inr (s, q)"
      by (simp add: step)
    from 1(4)[OF ne plain(1,2,3) this] quoted_plain_step[OF ne plain(1,2)] show ?thesis by simp
  next
    case esc
    let ?p = "yadvance p"
    from 1(5) esc ne have ne': "\<not> atEOF ?p" by (auto simp: step Let_def split: if_splits)
    have "yRest p = CHR 0x5C # yRest ?p" using byte_after[OF ne esc] by simp
    then have rest: "quoted_rest CHR 0x22 (yRest p) = quoted_rest CHR 0x22 (yRest (yadvance ?p))"
      using quoted_tail[OF ne', of "CHR 0x22"] by (simp add: quoted_step)
    have w: "yRest (yadvance (?p\<lparr>yWarnings := ws\<rparr>)) = yRest (yadvance ?p)" for ws
      by (simp add: yadvance_def next_rune_def atEOF_def ypeek_def new_line_def Let_def split: prod.splits)
    show ?thesis
    proof (cases "escaped (ypeek ?p)")
      case (Some e)
      with 1(5) esc ne ne' have "double_loop l c qc texts endings (cur @ [e]) (yadvance ?p) = Inr (s, q)"
        by (simp add: step)
      from 1(2)[OF ne _ esc refl ne' Some this] esc rest show ?thesis by simp
    next
      case None
      with 1(5) esc ne ne' have a: "\<not> (\<not> yAllow ?p \<or> \<not> yInPattern ?p)" by (auto simp: step Let_def split: if_splits)
      with None 1(5) esc ne ne' have "double_loop l c qc texts endings (cur @ CHR 0x5C # encodeRune (fst (next_rune ?p)))
           (yadvance (?p\<lparr>yWarnings := yWarnings ?p @ [escape_warning ?p]\<rparr>)) = Inr (s, q)"
        by (simp add: step Let_def)
      from 1(1)[OF ne _ esc refl ne' None a this] esc rest w show ?thesis by simp
    qed
  qed
qed

lemma depth_quote: "yRest p = q # s \<Longrightarrow> q = CHR 0x27 \<or> q = CHR 0x22 \<Longrightarrow> depth_scan d (yRest p) = depth_scan d (quoted_rest q s)"
  by (auto simp: depth_scan.simps[of d "_ # _"] skipQuoted_def)

lemma depth_string: "scanString p = Inr (v, q) \<Longrightarrow> depth_scan d (yRest q) = depth_scan d (yRest p)"
proof -
  assume s: "scanString p = Inr (v, q)"
  consider (dq) "ypeek p = CHR 0x22" | (sq) "ypeek p = CHR 0x27" | (un) "ypeek p \<noteq> CHR 0x22" "ypeek p \<noteq> CHR 0x27" by blast
  then show ?thesis
  proof cases
    case dq
    then have ne: "\<not> atEOF p" by (auto simp: ypeek_def atEOF_def)
    from dq s have "quoted_rest CHR 0x22 (yRest (yadvance p)) = yRest q"
      by (auto simp: scanString_def scanDoubleQuoted_def dest: double_text split: sum.splits prod.splits)
    then show ?thesis using byte_after[OF ne dq] depth_quote[of p "CHR 0x22" "yRest (yadvance p)" d] by simp
  next
    case sq
    then have ne: "\<not> atEOF p" by (auto simp: ypeek_def atEOF_def)
    from sq s obtain r where r: "single_loop (yadvance p) = Some r" "q = yadvance r"
      by (auto simp: scanString_def scanSingleQuoted_def Let_def split: sum.splits prod.splits option.splits)
    from single_text[OF r(1)] have t: "quoted_rest CHR 0x27 (yRest (yadvance p)) = tl (yRest r)" "ypeek r = CHR 0x27" "\<not> atEOF r"
      by blast+
    then have "yRest r = CHR 0x27 # yRest q" using byte_after[OF t(3,2)] r(2) by simp
    with t show ?thesis using byte_after[OF ne sq] depth_quote[of p "CHR 0x27" "yRest (yadvance p)" d] by simp
  next
    case un
    with s have "unquoted_loop p = Inr q"
      by (auto simp: scanString_def scanUnquoted_def split: sum.splits prod.splits if_splits)
    then show ?thesis by (rule depth_unquoted)
  qed
qed

lemma depth_concat: "concat_loop val p = Inr (s, q) \<Longrightarrow> depth_scan d (yRest q) = depth_scan d (yRest p)"
proof (induction val p rule: concat_loop.induct)
  case (1 val p)
  from 1(2) obtain p1 where p1: "skipSeparators p = Inr p1"
    by (auto simp: concat_loop.simps[of val p] split: sum.splits)
  show ?case
  proof (cases "ypeek p1 = CHR ''+''")
    case False
    with 1(2) p1 show ?thesis by (simp add: concat_loop.simps[of val p])
  next
    case True
    with 1(2) p1 obtain p2 nxt p3 where p2: "skipSeparators (yadvance p1) = Inr p2" "scanString p2 = Inr ((nxt, True), p3)"
      "concat_loop (val @ nxt) p3 = Inr (s, q)"
      by (auto simp: concat_loop.simps[of val p] split: sum.splits prod.splits if_splits)
    have "\<not> atEOF p1" "plain_byte (ypeek p1)" using True by (auto simp: ypeek_def atEOF_def plain_byte_def)
    from depth_advance[OF this] have "depth_scan d (yRest (yadvance p1)) = depth_scan d (yRest p1)" .
    with 1(1)[OF p1 _ p2(1,2) refl refl _ p2(3)] True depth_separators[OF p1] depth_separators[OF p2(1)] depth_string[OF p2(2)]
    show ?thesis by simp
  qed
qed

lemma depth_argument: "statement_argument k p = Inr (a, q) \<Longrightarrow> depth_scan d (yRest q) = depth_scan d (yRest p)"
proof -
  assume s: "statement_argument k p = Inr (a, q)"
  show ?thesis
  proof (cases "\<not> atEOF p \<and> ypeek p \<noteq> CHR '';'' \<and> ypeek p \<noteq> CHR ''{''")
    case False
    with s show ?thesis by (auto simp: statement_argument_def)
  next
    case True
    with s obtain arg r where r: "scanArgument (p\<lparr>yInPattern := k = ''pattern''\<rparr>) = Inr (arg, r)"
      "skipSeparators (r\<lparr>yInPattern := yInPattern p\<rparr>) = Inr q"
      by (auto simp: statement_argument_def split: sum.splits prod.splits)
    have "depth_scan d (yRest r) = depth_scan d (yRest p)"
      using r(1) by (auto simp: scanArgument_def dest!: depth_string depth_concat split: sum.splits prod.splits if_splits)
    then show ?thesis using depth_separators[OF r(2), of d] by simp
  qed
qed

subsection \<open>Statements\<close>

text \<open>How deep blocks nest in a statement.\<close>
primrec nesting :: "statement \<Rightarrow> nat" where
  "nesting (Statement k a cs f l c) = (if cs = [] then 0 else Suc (foldr max (map nesting cs) 0))"

lemma foldr_max_le: "foldr max xs (0 :: nat) \<le> n \<longleftrightarrow> (\<forall>x \<in> set xs. x \<le> n)"
  by (induction xs) auto

lemma nesting_le: "nesting (Statement k a cs f l c) \<le> n \<longleftrightarrow> cs = [] \<or> (0 < n \<and> (\<forall>x \<in> set cs. Suc (nesting x) \<le> n))"
  by (cases n) (auto simp: foldr_max_le)

lemma depth_keyword': "scanKeyword p = Inr (k, q) \<Longrightarrow> depth_scan d (yRest q) = depth_scan d (yRest p)"
  by (auto simp: scanKeyword_def Let_def depth_keyword split: if_splits)

lemma depth_statement:
  "depth_scan d (yRest p) \<Longrightarrow> d \<le> maxStatementDepth \<Longrightarrow> parse_statement p = Inr (st, q) \<Longrightarrow>
     depth_scan d (yRest q) \<and> nesting st \<le> maxStatementDepth - d"
  "depth_scan (Suc d) (yRest p) \<Longrightarrow> Suc d \<le> maxStatementDepth \<Longrightarrow> parse_children l c cs p = Inr (cs', q) \<Longrightarrow>
     \<forall>x \<in> set cs. nesting x \<le> maxStatementDepth - Suc d \<Longrightarrow>
     depth_scan d (yRest q) \<and> (\<forall>x \<in> set cs'. nesting x \<le> maxStatementDepth - Suc d)"
proof (induction p and l c cs p arbitrary: d st q and d cs' q rule: parse_statement_parse_children.induct)
  case (1 p)
  from 1(4) obtain k p1 p2 a p3 where
    s: "scanKeyword p = Inr (k, p1)" "skipSeparators p1 = Inr p2" "statement_argument k p2 = Inr (a, p3)"
    by (auto simp: parse_statement.simps[of p] split: sum.splits prod.splits)
  have d3: "depth_scan d (yRest p3)"
    using 1(2) depth_keyword'[OF s(1)] depth_separators[OF s(2)] depth_argument[OF s(3)] by simp
  show ?case
  proof (cases "ypeek p3 = CHR '';''")
    case True
    then have "\<not> atEOF p3" "plain_byte (ypeek p3)" by (auto simp: ypeek_def atEOF_def plain_byte_def)
    from depth_advance[OF this] have "depth_scan d (yRest (yadvance p3))" using d3 by simp
    then show ?thesis using True 1(4) s by (auto simp: parse_statement.simps[of p])
  next
    case False
    with 1(4) s obtain cs where b: "ypeek p3 = CHR ''{''" "parse_children (yLine p) (yCol p) [] (yadvance p3) = Inr (cs, q)"
      and st: "st = Statement k a cs (yName p) (yLine p) (yCol p)"
      by (auto simp: parse_statement.simps[of p] split: sum.splits if_splits prod.splits)
    have "\<not> atEOF p3" using b(1) by (auto simp: ypeek_def atEOF_def)
    then have "yRest p3 = CHR ''{'' # yRest (yadvance p3)" using byte_after b(1) by simp
    with d3 have o: "depth_scan (Suc d) (yRest (yadvance p3))" "Suc d \<le> maxStatementDepth"
      by (auto simp: depth_open)
    from 1(1)[OF s(1) refl s(2,3) refl False b(1) o b(2)] st o(2) show ?thesis
      by (auto simp: nesting_le simp del: nesting.simps)
  qed
next
  case (2 l c cs p)
  from 2(5) obtain p1 where s: "skipSeparators p = Inr p1" "\<not> atEOF p1"
    by (auto simp: parse_children.simps[of l c cs p] split: sum.splits if_splits)
  have d1: "depth_scan (Suc d) (yRest p1)" using 2(3) depth_separators[OF s(1)] by simp
  show ?case
  proof (cases "ypeek p1 = CHR ''}''")
    case True
    have "yRest p1 = CHR ''}'' # yRest (yadvance p1)" using byte_after[OF s(2) True] by simp
    with d1 have "depth_scan d (yRest (yadvance p1))" by (simp add: depth_close)
    with 2(5,6) s True show ?thesis by (auto simp: parse_children.simps[of l c cs p])
  next
    case False
    with 2(5) s obtain st p2 where
      b: "parse_statement p1 = Inr (st, p2)" "parse_children l c (cs @ [st]) p2 = Inr (cs', q)"
      by (auto simp: parse_children.simps[of l c cs p] split: sum.splits prod.splits)
    from 2(1)[OF s False d1 2(4) b(1)] have st: "depth_scan (Suc d) (yRest p2)" "nesting st \<le> maxStatementDepth - Suc d"
      by blast+
    with 2(6) have "\<forall>x \<in> set (cs @ [st]). nesting x \<le> maxStatementDepth - Suc d" by simp
    from 2(2)[OF s False b(1) refl st(1) 2(4) b(2) this] show ?thesis .
  qed
qed

lemma depth_document:
  "document_loop stmts p = Inr (out, q) \<Longrightarrow> depth_scan 0 (yRest p) \<Longrightarrow> \<forall>x \<in> set stmts. nesting x \<le> maxStatementDepth \<Longrightarrow>
     \<forall>x \<in> set out. nesting x \<le> maxStatementDepth"
proof (induction stmts p rule: document_loop.induct)
  case (1 stmts p)
  from 1(2) obtain p1 where s: "skipSeparators p = Inr p1" by (auto simp: document_loop.simps[of stmts p] split: sum.splits)
  have d1: "depth_scan 0 (yRest p1)" using 1(3) depth_separators[OF s] by simp
  show ?case
  proof (cases "atEOF p1")
    case True
    with 1(2,4) s show ?thesis by (simp add: document_loop.simps[of stmts p])
  next
    case False
    with 1(2) s have nb: "ypeek p1 \<noteq> CHR ''}''" by (auto simp: document_loop.simps[of stmts p])
    with 1(2) s False obtain st p2 where b: "parse_statement p1 = Inr (st, p2)" "document_loop (stmts @ [st]) p2 = Inr (out, q)"
      by (auto simp: document_loop.simps[of stmts p] split: sum.splits prod.splits)
    from depth_statement(1)[OF d1 _ b(1)] have "depth_scan 0 (yRest p2)" "nesting st \<le> maxStatementDepth" by auto
    with 1(1)[OF s False nb b(1) refl b(2)] 1(4) show ?thesis by auto
  qed
qed

theorem accepted_depth:
  assumes "ParseWithOptions input name allow = Inr (stmts, ws)"
  shows "\<forall>st \<in> set stmts. nesting st \<le> maxStatementDepth"
proof -
  from assms have "depth_scan 0 input" "\<exists>q. document_loop [] (new_parser input name allow) = Inr (stmts, q)"
    by (auto simp: ParseWithOptions_def checkInputBounds_def parseDocument_def split: option.splits sum.splits if_splits prod.splits)
  then show ?thesis using depth_document[of "[]" "new_parser input name allow" stmts] by (auto simp: new_parser_def)
qed

end
