(* ===== verification/Yang_Print.thy ===== *)
theory Yang_Print
  imports Yang_Depth
begin

text \<open>
  A printer of statement trees, and the proof that the parser reads every printed tree back:
  keywords as they are, arguments in double quotes with the four escapes, blocks in braces.
  Only the locations differ.
\<close>

subsection \<open>UTF-8 both ways\<close>

definition scalar_value :: "rune \<Rightarrow> bool" where
  "scalar_value r \<longleftrightarrow> 0 \<le> r \<and> r \<le> maxRune \<and> \<not> (0xD800 \<le> r \<and> r \<le> 0xDFFF)"

lemma byte_char: "0 \<le> n \<Longrightarrow> n < 256 \<Longrightarrow> (of_char (char_of n) :: int) = n"
  by simp

lemma decode_two:
  assumes "of_char a = b0" "of_char b = b1" "0xC2 \<le> b0" "b0 \<le> 0xDF" "contByte b1"
  shows "decodeRune (a # b # t) = ((b0 - 0xC0) * 64 + (b1 - 0x80), 2)"
  using assms by (simp add: decodeRune_def Let_def)

lemma decode_three:
  assumes "of_char a = b0" "of_char b = b1" "of_char c = b2" "0xE0 \<le> b0" "b0 \<le> 0xEF" "contByte b1" "contByte b2"
    "b0 = 0xE0 \<longrightarrow> 0xA0 \<le> b1" "b0 = 0xED \<longrightarrow> b1 \<le> 0x9F"
  shows "decodeRune (a # b # c # t) = ((b0 - 0xE0) * 4096 + (b1 - 0x80) * 64 + (b2 - 0x80), 3)"
  using assms by (simp add: decodeRune_def Let_def)

lemma decode_four:
  assumes "of_char a = b0" "of_char b = b1" "of_char c = b2" "of_char d = b3" "0xF0 \<le> b0" "b0 \<le> 0xF4"
    "contByte b1" "contByte b2" "contByte b3" "b0 = 0xF0 \<longrightarrow> 0x90 \<le> b1" "b0 = 0xF4 \<longrightarrow> b1 \<le> 0x8F"
  shows "decodeRune (a # b # c # d # t) = ((b0 - 0xF0) * 262144 + (b1 - 0x80) * 4096 + (b2 - 0x80) * 64 + (b3 - 0x80), 4)"
  using assms by (simp add: decodeRune_def Let_def)

text \<open>The digits of a rune to the base 64.\<close>
lemma digits64:
  obtains q d where "(r :: int) div 64 = q" "r mod 64 = d" "r = q * 64 + d" "0 \<le> d" "d < 64"
  by (rule that[of "r div 64" "r mod 64"]) simp_all

lemma decode_encode:
  assumes "scalar_value r"
  shows "decodeRune (encodeRune r @ t) = (r, length (encodeRune r))"
proof -
  have r: "0 \<le> r" "r \<le> maxRune" "\<not> (0xD800 \<le> r \<and> r \<le> 0xDFFF)" using assms by (auto simp: scalar_value_def)
  obtain q u where q: "r div 64 = q" "r mod 64 = u" "r = q * 64 + u" "0 \<le> u" "u < 64" by (rule digits64)
  obtain p z where p: "q div 64 = p" "q mod 64 = z" "q = p * 64 + z" "0 \<le> z" "z < 64" by (rule digits64)
  obtain x y where x: "p div 64 = x" "p mod 64 = y" "p = x * 64 + y" "0 \<le> y" "y < 64" by (rule digits64)
  have "r div 4096 = r div 64 div 64" "r div 262144 = r div 64 div 64 div 64" by (simp_all add: zdiv_zmult2_eq[symmetric])
  then have d: "r div 4096 = p" "r div 262144 = x" by (simp_all only: q(1) p(1) x(1))
  consider "r < 0x80" | "0x80 \<le> r" "r < 0x800" | "0x800 \<le> r" "r < 0x10000" | "0x10000 \<le> r" by linarith
  then show ?thesis
  proof cases
    case 1
    then show ?thesis using r decode_ascii[of "char_of r # t"] by (simp add: encodeRune_def)
  next
    case 2
    have e: "encodeRune r = [char_of (0xC0 + q), char_of (0x80 + u)]"
      using 2 r by (simp add: encodeRune_def q(1,2))
    have "2 \<le> q" "q \<le> 0x1F" using 2 q(3-5) by linarith+
    then have "decodeRune (char_of (0xC0 + q) # char_of (0x80 + u) # t) = ((0xC0 + q - 0xC0) * 64 + (0x80 + u - 0x80), 2)"
      using q(4,5) by (intro decode_two byte_char) auto
    then show ?thesis unfolding e using q(3) by simp
  next
    case 3
    have e: "encodeRune r = [char_of (0xE0 + p), char_of (0x80 + z), char_of (0x80 + u)]"
      unfolding encodeRune_def using 3 r by (auto simp: d q(1,2) p(2))
    have "0 \<le> p" "p \<le> 15" using 3 q(3-5) p(3-5) by linarith+
    moreover have "p = 0 \<longrightarrow> 0x20 \<le> z" using 3 q(3-5) p(3-5) by linarith
    moreover have "p = 13 \<longrightarrow> z \<le> 0x1F"
    proof
      assume "p = 13"
      with q(3-5) p(3-5) have "0xD000 \<le> r" "r \<le> 0xDFFF" by linarith+
      with r have "r < 0xD800" by linarith
      with \<open>p = 13\<close> q(3-5) p(3-5) show "z \<le> 0x1F" by linarith
    qed
    ultimately have "decodeRune (char_of (0xE0 + p) # char_of (0x80 + z) # char_of (0x80 + u) # t) =
        ((0xE0 + p - 0xE0) * 4096 + (0x80 + z - 0x80) * 64 + (0x80 + u - 0x80), 3)"
      using q(4,5) p(4,5) by (intro decode_three byte_char) auto
    then show ?thesis unfolding e using q(3) p(3) by simp
  next
    case 4
    have e: "encodeRune r = [char_of (0xF0 + x), char_of (0x80 + y), char_of (0x80 + z), char_of (0x80 + u)]"
      unfolding encodeRune_def using 4 r by (auto simp: d q(1,2) p(2) x(2))
    have "0 \<le> x" "x \<le> 4" using 4 r q(3-5) p(3-5) x(3-5) by linarith+
    moreover have "x = 0 \<longrightarrow> 0x10 \<le> y" "x = 4 \<longrightarrow> y \<le> 0x0F" using 4 r q(3-5) p(3-5) x(3-5) by linarith+
    ultimately have "decodeRune (char_of (0xF0 + x) # char_of (0x80 + y) # char_of (0x80 + z) # char_of (0x80 + u) # t) =
        ((0xF0 + x - 0xF0) * 262144 + (0x80 + y - 0x80) * 4096 + (0x80 + z - 0x80) * 64 + (0x80 + u - 0x80), 4)"
      using q(4,5) p(4,5) x(4,5) by (intro decode_four byte_char) auto
    then show ?thesis unfolding e using q(3) p(3) x(3) by simp
  qed
qed

lemma encode_bytes:
  assumes "scalar_value r"
  shows "encodeRune r \<noteq> []" "0x80 \<le> r \<Longrightarrow> c \<in> set (encodeRune r) \<Longrightarrow> high c" "r < 0x80 \<Longrightarrow> encodeRune r = [char_of r]"
proof -
  show ne: "encodeRune r \<noteq> []" by (simp add: encodeRune_def)
  show "r < 0x80 \<Longrightarrow> encodeRune r = [char_of r]" using assms by (auto simp: encodeRune_def scalar_value_def)
  assume r: "0x80 \<le> r" and c: "c \<in> set (encodeRune r)"
  have d: "decodeRune (encodeRune r) = (r, length (encodeRune r))" using decode_encode[OF assms, of "[]"] by simp
  have "0x80 \<le> byte_at (encodeRune r) 0"
  proof (rule ccontr)
    assume "\<not> 0x80 \<le> byte_at (encodeRune r) 0"
    then show False using decode_ascii[of "encodeRune r"] d r by simp
  qed
  from decode_high(3)[OF this ne] d c show "high c" by simp
qed

subsection \<open>Printing\<close>

definition quote_char :: "char \<Rightarrow> string" where
  "quote_char c =
     (if c = CHR 0x0A then [CHR 0x5C, CHR ''n''] else if c = CHR 0x09 then [CHR 0x5C, CHR ''t'']
      else if c = CHR 0x22 \<or> c = CHR 0x5C then [CHR 0x5C, c] else [c])"

definition quoted :: "string \<Rightarrow> string" where
  "quoted s = CHR 0x22 # concat (map quote_char s) @ [CHR 0x22]"

primrec statement_text :: "statement \<Rightarrow> string" where
  "statement_text (Statement k a cs f l c) =
     k @ (case a of None \<Rightarrow> [] | Some s \<Rightarrow> CHR '' '' # quoted s) @
     (if cs = [] then '';'' else ''{'' @ concat (map statement_text cs) @ ''}'')"

text \<open>Keywords of ordinary characters, and arguments that are UTF-8.\<close>

definition keyword_char :: "char \<Rightarrow> bool" where
  "keyword_char c \<longleftrightarrow> \<not> high c \<and> \<not> isSeparatorByte c \<and> plain_byte c \<and> c \<noteq> CHR '';''"

definition utf8_text :: "string \<Rightarrow> bool" where
  "utf8_text s \<longleftrightarrow> (\<exists>rs. s = concat (map encodeRune rs) \<and> (\<forall>r \<in> set rs. scalar_value r))"

primrec printable :: "statement \<Rightarrow> bool" where
  "printable (Statement k a cs f l c) \<longleftrightarrow>
     k \<noteq> [] \<and> (\<forall>x \<in> set k. keyword_char x) \<and> (\<forall>s. a = Some s \<longrightarrow> utf8_text s) \<and> (\<forall>b \<in> set (map printable cs). b)"

text \<open>A statement without its location.\<close>
primrec erase :: "statement \<Rightarrow> statement" where
  "erase (Statement k a cs f l c) = Statement k a (map erase cs) [] 0 0"

subsection \<open>Reading quoted text\<close>

definition same_context :: "yparser \<Rightarrow> yparser \<Rightarrow> bool" where
  "same_context p q \<longleftrightarrow> yName q = yName p \<and> yAllow q = yAllow p \<and> yInPattern q = yInPattern p \<and> yWarnings q = yWarnings p"

lemma context_refl [simp]: "same_context p p"
  by (simp add: same_context_def)

lemma context_trans [trans]: "same_context p q \<Longrightarrow> same_context q r \<Longrightarrow> same_context p r"
  by (simp add: same_context_def)

lemma context_advance [simp]: "same_context p (yadvance p)"
  by (simp add: same_context_def yadvance_def new_line_def Let_def split: prod.splits)

lemma context_plain [simp]: "same_context p (plain_step p)"
  by (simp add: same_context_def plain_step_def split: prod.splits)

lemma double_escape:
  assumes "yRest p = CHR 0x5C # e # t" "escaped e = Some c"
  shows "double_loop l k qc texts endings cur p = double_loop l k qc texts endings (cur @ [c]) (yadvance (yadvance p))"
    and "yRest (yadvance (yadvance p)) = t"
proof -
  have a: "yRest (yadvance p) = e # t" using assms(1) by (intro yadvance_byte) auto
  have e: "\<not> high e" "e \<noteq> CHR 0x0D" using assms(2) by (auto simp: escaped_def split: if_splits)
  show "yRest (yadvance (yadvance p)) = t" using yadvance_byte[OF a e] .
  show "double_loop l k qc texts endings cur p = double_loop l k qc texts endings (cur @ [c]) (yadvance (yadvance p))"
    using assms a by (simp add: double_loop.simps[of l k qc texts endings cur p] atEOF_def ypeek_def Let_def)
qed

lemma double_plain:
  assumes "scalar_value r" "r \<noteq> 0x22" "r \<noteq> 0x5C" "r \<noteq> 0x0A" "yRest p = encodeRune r @ t"
  shows "double_loop l k qc texts endings cur p = double_loop l k qc texts endings (cur @ encodeRune r) (plain_step p)"
    and "yRest (plain_step p) = t"
proof -
  have ne: "\<not> atEOF p" using assms(5) encode_bytes(1)[OF assms(1)] by (simp add: atEOF_def)
  then have d: "next_rune p = (r, length (encodeRune r))"
    using decode_encode[OF assms(1), of t] assms(5) by (simp add: next_rune_def)
  then show "yRest (plain_step p) = t" using assms(5) by (simp add: plain_step_def)
  have "ypeek p = hd (encodeRune r)"
    using assms(5) encode_bytes(1)[OF assms(1)] by (cases "encodeRune r") (auto simp: ypeek_def)
  have "ypeek p \<noteq> CHR 0x22 \<and> ypeek p \<noteq> CHR 0x5C \<and> ypeek p \<noteq> CHR 0x0A"
  proof (cases "r < 0x80")
    case True
    define c :: char where "c = char_of r"
    have r: "of_char c = r" using True assms(1) by (simp add: scalar_value_def c_def)
    have "ypeek p = c" using encode_bytes(3)[OF assms(1) True] \<open>ypeek p = hd (encodeRune r)\<close> by (simp add: c_def)
    then show ?thesis using assms(2-4) r by auto
  next
    case False
    then have "high (ypeek p)"
      using encode_bytes(1,2)[OF assms(1)] \<open>ypeek p = hd (encodeRune r)\<close> by auto
    then show ?thesis by auto
  qed
  then show "double_loop l k qc texts endings cur p = double_loop l k qc texts endings (cur @ encodeRune r) (plain_step p)"
    using ne d by (simp add: double_loop.simps[of l k qc texts endings cur p])
qed

lemma concat_map_same: "(\<And>x. x \<in> set xs \<Longrightarrow> f x = [x]) \<Longrightarrow> concat (map f xs) = xs"
  by (induction xs) auto

lemma quote_encode:
  assumes "scalar_value r"
  obtains (esc) e c where "concat (map quote_char (encodeRune r)) = [CHR 0x5C, e]" "encodeRune r = [c]" "escaped e = Some c"
  | (plain) "concat (map quote_char (encodeRune r)) = encodeRune r" "r \<noteq> 0x22" "r \<noteq> 0x5C" "r \<noteq> 0x0A"
proof (cases "r < 0x80")
  case False
  then have "quote_char c = [c]" if "c \<in> set (encodeRune r)" for c
    using encode_bytes(2)[OF assms, of c] that by (auto simp: quote_char_def)
  then have "concat (map quote_char (encodeRune r)) = encodeRune r" by (intro concat_map_same) simp
  with False plain show ?thesis by simp
next
  case True
  define c :: char where "c = char_of r"
  have r: "of_char c = r" using True assms by (simp add: scalar_value_def c_def)
  have e: "encodeRune r = [c]" using encode_bytes(3)[OF assms True] by (simp add: c_def)
  consider "c = CHR 0x0A" | "c = CHR 0x09" | "c = CHR 0x22 \<or> c = CHR 0x5C"
    | "c \<noteq> CHR 0x0A" "c \<noteq> CHR 0x09" "c \<noteq> CHR 0x22" "c \<noteq> CHR 0x5C" by blast
  then show ?thesis
  proof cases
    case 1
    then show ?thesis using esc[of "CHR ''n''" c] e by (simp add: quote_char_def escaped_def)
  next
    case 2
    then show ?thesis using esc[of "CHR ''t''" c] e by (simp add: quote_char_def escaped_def)
  next
    case 3
    then show ?thesis using esc[of c c] e by (auto simp: quote_char_def escaped_def)
  next
    case 4
    then have "r \<noteq> 0x22" "r \<noteq> 0x5C" "r \<noteq> 0x0A" 
      using r of_char_eq_iff[of c "CHR 0x22", where ?'a = int] of_char_eq_iff[of c "CHR 0x5C", where ?'a = int]
        of_char_eq_iff[of c "CHR 0x0A", where ?'a = int] by auto
    then show ?thesis using plain 4 e by (simp add: quote_char_def)
  qed
qed

lemma double_text_read:
  assumes "\<forall>r \<in> set rs. scalar_value r" "yRest p = concat (map quote_char (concat (map encodeRune rs))) @ CHR 0x22 # t"
  shows "\<exists>q. double_loop l k qc [] [] cur p = Inr (cur @ concat (map encodeRune rs), q) \<and> yRest q = t \<and> same_context p q"
  using assms
proof (induction rs arbitrary: p cur)
  case Nil
  then have "yRest p = CHR 0x22 # t" by simp
  moreover from this have "yRest (yadvance p) = t" by (intro yadvance_byte) auto
  ultimately show ?case
    by (simp add: double_loop.simps[of l k qc] atEOF_def ypeek_def trimDoubleQuoted_def)
next
  case (Cons r rs)
  then have r: "scalar_value r" and rs: "\<forall>r \<in> set rs. scalar_value r" by auto
  let ?t = "concat (map quote_char (concat (map encodeRune rs))) @ CHR 0x22 # t"
  have rest: "yRest p = concat (map quote_char (encodeRune r)) @ ?t" using Cons(3) by simp
  from r show ?case
  proof (cases rule: quote_encode)
    case (esc e c)
    then have p: "yRest p = CHR 0x5C # e # ?t" using rest by simp
    note step = double_escape[OF p esc(3)]
    from Cons.IH[OF rs step(2), of "cur @ [c]"] step(1)[of l k qc "[]" "[]" cur] esc(2)
    show ?thesis using context_trans[OF context_trans[OF context_advance[of p] context_advance[of "yadvance p"]]] by auto
  next
    case plain
    then have p: "yRest p = encodeRune r @ ?t" using rest by simp
    note step = double_plain[OF r plain(2-4) p]
    from Cons.IH[OF rs step(2), of "cur @ encodeRune r"] step(1)[of l k qc "[]" "[]" cur]
    show ?thesis using context_trans[OF context_plain[of p]] by auto
  qed
qed

subsection \<open>Reading statements\<close>

lemma separators_stop: "yRest p = c # s \<Longrightarrow> \<not> isSeparatorByte c \<Longrightarrow> c \<noteq> CHR ''/'' \<Longrightarrow> skipSeparators p = Inr p"
  by (simp add: skipSeparators.simps[of p] atEOF_def ypeek_def)

lemma separators_space: "yRest p = CHR '' '' # c # s \<Longrightarrow> \<not> isSeparatorByte c \<Longrightarrow> c \<noteq> CHR ''/'' \<Longrightarrow>
    skipSeparators p = Inr (yadvance p) \<and> yRest (yadvance p) = c # s"
proof -
  assume a: "yRest p = CHR '' '' # c # s" "\<not> isSeparatorByte c" "c \<noteq> CHR ''/''"
  have r: "yRest (yadvance p) = c # s" using a(1) by (intro yadvance_byte) auto
  have "skipSeparators p = skipSeparators (yadvance p)"
    using a(1) by (simp add: skipSeparators.simps[of p] atEOF_def ypeek_def isSeparatorByte_def)
  then show ?thesis using separators_stop[OF r a(2,3)] r by simp
qed

definition word_end :: "string \<Rightarrow> bool" where
  "word_end t \<longleftrightarrow> t \<noteq> [] \<and> (hd t = CHR '' '' \<or> hd t = CHR '';'' \<or> hd t = CHR ''{'')"

lemma keyword_char_not_sep: "keyword_char c \<Longrightarrow> \<not> isSeparatorByte c"
  by (simp add: keyword_char_def)

lemma keyword_read:
  assumes "\<forall>x \<in> set k. keyword_char x" "word_end t" "yRest p = k @ t"
  shows "yRest (keyword_loop p) = t \<and> same_context p (keyword_loop p)"
  using assms
proof (induction k arbitrary: p)
  case Nil
  then have "ends_word p" by (cases t) (auto simp: word_end_def ends_word_def ypeek_def isSeparatorByte_def)
  with Nil show ?case by (simp add: keyword_loop.simps[of p])
next
  case (Cons c k)
  then have c: "keyword_char c" and r: "yRest p = c # (k @ t)" by simp_all
  then have "c \<noteq> CHR 0x0D" using keyword_char_not_sep[OF c] by (auto simp: isSeparatorByte_def)
  then have "yRest (yadvance p) = k @ t" using c by (intro yadvance_byte[OF r]) (simp add: keyword_char_def)
  with Cons have IH: "yRest (keyword_loop (yadvance p)) = t \<and> same_context (yadvance p) (keyword_loop (yadvance p))" by simp
  have "\<not> atEOF p" "ypeek p = c" using r by (auto simp: atEOF_def ypeek_def)
  moreover from this have "\<not> ends_word p \<and> \<not> is_quote (ypeek p)"
    using c by (auto simp: ends_word_def is_quote_def keyword_char_def plain_byte_def)
  ultimately have "keyword_loop p = keyword_loop (yadvance p)" by (simp add: keyword_loop.simps[of p])
  with IH show ?case using context_trans[OF context_advance[of p]] by simp
qed

lemma scanKeyword_read:
  assumes "k \<noteq> []" "\<forall>x \<in> set k. keyword_char x" "word_end t" "yRest p = k @ t"
  shows "\<exists>q. scanKeyword p = Inr (k, q) \<and> yRest q = t \<and> same_context p q"
  using keyword_read[OF assms(2-4)] assms(1,4) by (auto simp: scanKeyword_def slice_def Let_def)

lemma argument_read:
  assumes "utf8_text s" "yRest p = quoted s @ c # t" "c = CHR '';'' \<or> c = CHR ''{''"
  shows "\<exists>q. statement_argument k p = Inr (Some s, q) \<and> yRest q = c # t \<and> same_context p q"
proof -
  obtain rs where rs: "s = concat (map encodeRune rs)" "\<forall>r \<in> set rs. scalar_value r"
    using assms(1) by (auto simp: utf8_text_def)
  define p0 where "p0 = p\<lparr>yInPattern := (k = ''pattern'')\<rparr>"
  have rest: "yRest p0 = CHR 0x22 # (concat (map quote_char s) @ CHR 0x22 # c # t)"
    using assms(2) by (simp add: quoted_def p0_def)
  then have "yRest (yadvance p0) = concat (map quote_char s) @ CHR 0x22 # c # t" by (intro yadvance_byte) auto
  from double_text_read[OF rs(2) this[unfolded rs(1)], of "yLine p0" "yCol p0" "yTcol p0" "[]"] obtain q where
    q: "scanDoubleQuoted p0 = Inr (s, q)" "yRest q = c # t" "same_context (yadvance p0) q"
    by (auto simp: scanDoubleQuoted_def rs(1))
  have stop: "\<not> isSeparatorByte c" "c \<noteq> CHR ''/''" "c \<noteq> CHR ''+''" using assms(3) by (auto simp: isSeparatorByte_def)
  have "concat_loop s q = Inr (s, q)"
    using separators_stop[OF q(2) stop(1,2)] q(2) stop(3) by (simp add: concat_loop.simps[of s q] ypeek_def)
  then have "scanArgument p0 = Inr (s, q)"
    using q(1) rest by (simp add: scanArgument_def scanString_def ypeek_def)
  moreover have "skipSeparators (q\<lparr>yInPattern := yInPattern p\<rparr>) = Inr (q\<lparr>yInPattern := yInPattern p\<rparr>)"
    using q(2) stop by (intro separators_stop[of _ c t]) simp_all
  moreover have "same_context p (q\<lparr>yInPattern := yInPattern p\<rparr>)"
    using context_trans[OF context_advance[of p0] q(3)] by (simp add: same_context_def p0_def)
  moreover have "\<not> atEOF p" "ypeek p = CHR 0x22" using assms(2) by (auto simp: atEOF_def ypeek_def quoted_def)
  ultimately show ?thesis using q(2) by (simp add: statement_argument_def p0_def)
qed

definition opens_statement :: "string \<Rightarrow> bool" where
  "opens_statement s \<longleftrightarrow> s \<noteq> [] \<and> keyword_char (hd s)"

lemma statement_text_opens: "printable st \<Longrightarrow> opens_statement (statement_text st @ t)"
  by (cases st) (auto simp: opens_statement_def hd_append)

lemma opens_stop: "opens_statement (yRest p) \<Longrightarrow> skipSeparators p = Inr p \<and> \<not> atEOF p \<and> ypeek p \<noteq> CHR ''}''"
proof -
  assume "opens_statement (yRest p)"
  then obtain c s where cs: "yRest p = c # s" "keyword_char c" by (cases "yRest p") (auto simp: opens_statement_def)
  then have "c \<noteq> CHR ''/''" "c \<noteq> CHR ''}''" "\<not> isSeparatorByte c" by (auto simp: keyword_char_def plain_byte_def)
  then show ?thesis using separators_stop[OF cs(1)] cs(1) by (simp add: atEOF_def ypeek_def)
qed

definition reads :: "statement \<Rightarrow> bool" where
  "reads st \<longleftrightarrow> (\<forall>p t. yRest p = statement_text st @ t \<longrightarrow>
     (\<exists>st' q. parse_statement p = Inr (st', q) \<and> erase st' = erase st \<and> yRest q = t \<and> same_context p q))"

lemma children_read:
  assumes "\<forall>st \<in> set cs. reads st \<and> printable st" "yRest p = concat (map statement_text cs) @ CHR ''}'' # t"
  shows "\<exists>cs' q. parse_children l c acc p = Inr (acc @ cs', q) \<and> map erase cs' = map erase cs \<and> yRest q = t \<and> same_context p q"
  using assms
proof (induction cs arbitrary: p acc)
  case Nil
  then have r: "yRest p = CHR ''}'' # t" by simp
  have "yRest (yadvance p) = t" using r by (intro yadvance_byte) auto
  then show ?case
    using separators_stop[OF r] r by (simp add: parse_children.simps[of l c acc p] isSeparatorByte_def atEOF_def ypeek_def)
next
  case (Cons st cs)
  let ?t = "concat (map statement_text cs) @ CHR ''}'' # t"
  have r: "yRest p = statement_text st @ ?t" using Cons(3) by simp
  then have o: "opens_statement (yRest p)" using statement_text_opens Cons(2) by simp
  have "reads st" using Cons(2) by simp
  then obtain st' q where q: "parse_statement p = Inr (st', q)" "erase st' = erase st" "yRest q = ?t" "same_context p q"
    using r unfolding reads_def by blast
  from Cons.IH[OF _ q(3), of "acc @ [st']"] Cons(2) obtain cs' q' where
    "parse_children l c (acc @ [st']) q = Inr ((acc @ [st']) @ cs', q')" "map erase cs' = map erase cs" "yRest q' = t"
    "same_context q q'" by auto
  then show ?case
    using opens_stop[OF o] q context_trans[OF q(4)]
    by (intro exI[of _ "st' # cs'"]) (auto simp: parse_children.simps[of l c acc p])
qed

lemma statement_read: "printable st \<Longrightarrow> reads st"
proof (induction st)
  case (Statement k a cs f l c)
  then have k: "k \<noteq> []" "\<forall>x \<in> set k. keyword_char x" and a: "\<And>s. a = Some s \<Longrightarrow> utf8_text s"
    and cs: "\<forall>st \<in> set cs. reads st \<and> printable st" by auto
  show ?case
    unfolding reads_def
  proof (intro allI impI)
    fix p :: yparser and t assume rest: "yRest p = statement_text (Statement k a cs f l c) @ t"
    define b where "b = (if cs = [] then '';'' else ''{'' @ concat (map statement_text cs) @ ''}'')"
    define arg where "arg = (case a of None \<Rightarrow> [] | Some s \<Rightarrow> CHR '' '' # quoted s)"
    have rest: "yRest p = k @ (arg @ b @ t)" using rest by (simp add: b_def arg_def)
    obtain e u where e: "b @ t = e # u" "e = CHR '';'' \<or> e = CHR ''{''" by (cases "cs = []") (auto simp: b_def)
    have w: "word_end (arg @ b @ t)" using e by (cases a) (auto simp: arg_def word_end_def)
    obtain p1 where p1: "scanKeyword p = Inr (k, p1)" "yRest p1 = arg @ b @ t" "same_context p p1"
      using scanKeyword_read[OF k w rest] by blast
    have stop: "\<not> isSeparatorByte e" "e \<noteq> CHR ''/''" using e(2) by (auto simp: isSeparatorByte_def)
    have "\<exists>p2 p3. skipSeparators p1 = Inr p2 \<and> statement_argument k p2 = Inr (a, p3) \<and> yRest p3 = e # u \<and> same_context p1 p3"
    proof (cases a)
      case None
      then have r: "yRest p1 = e # u" using p1(2) e(1) by (simp add: arg_def)
      then show ?thesis
        using separators_stop[OF r stop] None e(2) by (auto simp: statement_argument_def ypeek_def)
    next
      case (Some s)
      then have r: "yRest p1 = CHR '' '' # quoted s @ e # u" using p1(2) e(1) by (simp add: arg_def)
      then have "skipSeparators p1 = Inr (yadvance p1) \<and> yRest (yadvance p1) = quoted s @ e # u"
        unfolding quoted_def append_Cons by (intro separators_space) (auto simp: isSeparatorByte_def)
      with argument_read[OF a[OF Some], of "yadvance p1" e u k] e(2) Some show ?thesis
        using context_trans[OF context_advance[of p1]] by auto
    qed
    then obtain p2 p3 where p3: "skipSeparators p1 = Inr p2" "statement_argument k p2 = Inr (a, p3)" "yRest p3 = e # u"
      "same_context p1 p3" by blast
    have c3: "same_context p (yadvance p3)"
      using context_trans[OF context_trans[OF p1(3) p3(4)] context_advance] .
    have u: "yRest (yadvance p3) = u" using e(2) by (intro yadvance_byte[OF p3(3)]) auto
    note head = parse_statement.simps[of p] p1(1) p3(1,2)
    show "\<exists>st' q. parse_statement p = Inr (st', q) \<and> erase st' = erase (Statement k a cs f l c) \<and> yRest q = t \<and> same_context p q"
    proof (cases "cs = []")
      case True
      then have "e = CHR '';''" "u = t" using e(1) by (auto simp: b_def)
      with True c3 u p3(3) show ?thesis by (simp add: head ypeek_def)
    next
      case False
      then have eu: "e = CHR ''{''" "u = concat (map statement_text cs) @ CHR ''}'' # t" using e(1) by (auto simp: b_def)
      from children_read[OF cs, of "yadvance p3" t "yLine p" "yCol p" "[]"] u eu(2) obtain cs' q where
        "parse_children (yLine p) (yCol p) [] (yadvance p3) = Inr (cs', q)" "map erase cs' = map erase cs" "yRest q = t"
        "same_context (yadvance p3) q" by auto
      with eu p3(3) show ?thesis using context_trans[OF c3] by (auto simp: head ypeek_def)
    qed
  qed
qed

lemma document_read:
  assumes "\<forall>st \<in> set sts. printable st" "yRest p = concat (map statement_text sts)"
  shows "\<exists>sts' q. document_loop acc p = Inr (acc @ sts', q) \<and> map erase sts' = map erase sts \<and> same_context p q"
  using assms
proof (induction sts arbitrary: p acc)
  case Nil
  then have "atEOF p" by (simp add: atEOF_def)
  then have "document_loop acc p = Inr (acc, p)" by (simp add: document_loop.simps[of acc p] skipSeparators.simps[of p])
  then show ?case by simp
next
  case (Cons st sts)
  have r: "yRest p = statement_text st @ concat (map statement_text sts)" using Cons(3) by simp
  then have o: "opens_statement (yRest p)" using statement_text_opens Cons(2) by simp
  have "reads st" using statement_read Cons(2) by simp
  then obtain st' q where q: "parse_statement p = Inr (st', q)" "erase st' = erase st" "yRest q = concat (map statement_text sts)"
    "same_context p q" using r unfolding reads_def by blast
  from Cons.IH[OF _ q(3), of "acc @ [st']"] Cons(2) obtain sts' q' where
    "document_loop (acc @ [st']) q = Inr ((acc @ [st']) @ sts', q')" "map erase sts' = map erase sts" "same_context q q'"
    by auto
  then show ?case
    using opens_stop[OF o] q context_trans[OF q(4)]
    by (intro exI[of _ "st' # sts'"]) (auto simp: document_loop.simps[of acc p])
qed

theorem printed_document:
  assumes "\<forall>st \<in> set sts. printable st"
  shows "\<exists>sts'. parseDocument (concat (map statement_text sts)) name allow = Inr (sts', []) \<and> map erase sts' = map erase sts"
proof -
  let ?p = "new_parser (concat (map statement_text sts)) name allow"
  from document_read[OF assms, of ?p "[]"] obtain sts' q where
    "document_loop [] ?p = Inr (sts', q)" "map erase sts' = map erase sts" "same_context ?p q"
    by (auto simp: new_parser_def)
  then show ?thesis by (auto simp: parseDocument_def same_context_def new_parser_def)
qed

end
