(* ===== verification/Yang_Properties.thy ===== *)
theory Yang_Properties
  imports Yang_Print
begin

text \<open>
  The properties of the YANG statement parser (\<open>go/internal/yangparse\<close>).
\<close>

subsection \<open>Reading statements\<close>

text \<open>
  C20: The parser reads every printed document back: for any sequence of statement trees with
  keywords of ordinary characters and arbitrary UTF-8 arguments (line breaks, tabs, quotes and
  backslashes included), the text of the trees parses, without a warning, to the same trees up to
  their locations.
\<close>
theorem document_roundtrip:
  assumes "\<forall>st \<in> set sts. printable st"
  shows "\<exists>sts'. parseDocument (concat (map statement_text sts)) name allow = Inr (sts', []) \<and> map erase sts' = map erase sts"
  using assms by (rule printed_document)

definition sample_leaf :: statement where
  "sample_leaf = Statement ''leaf'' (Some ''a'') [Statement ''description'' (Some [CHR 0x22, CHR 0x0A]) [] [] 0 0] [] 0 0"

lemma sample_leaf_printable: "printable sample_leaf"
proof -
  have "utf8_text ''a''" unfolding utf8_text_def by (rule exI[of _ "[97]"]) code_simp
  moreover have "utf8_text [CHR 0x22, CHR 0x0A]" unfolding utf8_text_def by (rule exI[of _ "[0x22, 0x0A]"]) code_simp
  ultimately show ?thesis
    by (simp add: sample_leaf_def keyword_char_def plain_byte_def isSeparatorByte_def)
qed

theorem document_roundtrip_witness:
  "\<exists>sts'. parseDocument (statement_text sample_leaf) ''m.yang'' False = Inr (sts', []) \<and> map erase sts' = [sample_leaf]"
  using document_roundtrip[of "[sample_leaf]" "''m.yang''" False] sample_leaf_printable
  by (simp add: sample_leaf_def)

text \<open>
  C21: Source that passes the checks and parses has no statement nested more than 10000 blocks deep,
  so the recursion of the parser and of every later walk over the tree is bounded: the byte-level
  scan of \<open>checkInputBounds\<close> agrees with the parser about comments, strings and braces.
\<close>
theorem nesting_bounded:
  assumes "ParseWithOptions input name allow = Inr (stmts, ws)" "st \<in> set stmts"
  shows "nesting st \<le> maxStatementDepth"
  using accepted_depth[OF assms(1)] assms(2) by blast

theorem nesting_bounded_witness:
  "nesting (Statement ''a'' None [Statement ''b'' None [] [] 1 3] [] 1 1) \<le> maxStatementDepth"
proof (rule nesting_bounded[where name = "[]" and allow = False and ws = "[]"])
  show "ParseWithOptions ''a{b;}'' [] False = Inr ([Statement ''a'' None [Statement ''b'' None [] [] 1 3] [] 1 1], [])"
    by code_simp
qed simp

subsection \<open>Strings\<close>

text \<open>The visual width of blanks after \<open>n\<close> columns; a tab goes on to the next multiple of 8.\<close>
fun columns :: "nat \<Rightarrow> string \<Rightarrow> nat" where
  "columns n [] = n"
| "columns n (c # s) = columns (if c = CHR 0x09 then n + (8 - n mod 8) else n + 1) s"

lemma columns_mono: "n \<le> columns n s"
  by (induction n s rule: columns.induct) (auto intro: order_trans[rotated])

lemma strip_columns_spec:
  "cols \<le> indent \<Longrightarrow> \<exists>u. s = u @ strip_columns cols indent s \<and> set u \<subseteq> {CHR '' '', CHR 0x09} \<and> columns cols u \<le> indent \<and>
     (\<forall>c t. strip_columns cols indent s = c # t \<longrightarrow> c \<in> {CHR '' '', CHR 0x09} \<longrightarrow> indent < columns cols (u @ [c]))"
proof (induction cols indent s rule: strip_columns.induct)
  case (2 cols indent c s)
  let ?next = "if c = CHR 0x09 then cols + (8 - cols mod 8) else cols + 1"
  show ?case
  proof (cases "c \<in> {CHR '' '', CHR 0x09} \<and> ?next \<le> indent")
    case False
    then have "strip_columns cols indent (c # s) = c # s" by (auto simp: Let_def)
    with False 2(3) show ?thesis by (intro exI[of _ "[]"]) auto
  next
    case True
    then have e: "strip_columns cols indent (c # s) = strip_columns ?next indent s" by (auto simp: Let_def)
    have "\<exists>u. s = u @ strip_columns ?next indent s \<and> set u \<subseteq> {CHR '' '', CHR 0x09} \<and> columns ?next u \<le> indent \<and>
       (\<forall>c t. strip_columns ?next indent s = c # t \<longrightarrow> c \<in> {CHR '' '', CHR 0x09} \<longrightarrow> indent < columns ?next (u @ [c]))"
      using 2(1,2) True by (cases "c = CHR '' ''") auto
    then obtain u where u: "s = u @ strip_columns ?next indent s" "set u \<subseteq> {CHR '' '', CHR 0x09}" "columns ?next u \<le> indent"
       "\<forall>c t. strip_columns ?next indent s = c # t \<longrightarrow> c \<in> {CHR '' '', CHR 0x09} \<longrightarrow> indent < columns ?next (u @ [c])" by blast
    have "c # s = (c # u) @ strip_columns cols indent (c # s)" using u(1) unfolding e by simp
    moreover have "set (c # u) \<subseteq> {CHR '' '', CHR 0x09}" using u(2) True by auto
    moreover have "columns cols (c # u) \<le> indent" using u(3) by simp
    moreover have "\<forall>x t. strip_columns cols indent (c # s) = x # t \<longrightarrow> x \<in> {CHR '' '', CHR 0x09} \<longrightarrow> indent < columns cols ((c # u) @ [x])"
      using u(4) unfolding e by simp
    ultimately show ?thesis by blast
  qed
qed simp

text \<open>
  The indentation rule of RFC 7950 section 6.1.3 for the lines of a quoted string:
  \<open>stripLeadingColumns\<close> removes blanks only, never past the column of the quote (with tab stops
  every 8 columns), and stops only at other text or at a blank that would reach past it.
\<close>
theorem indentation_stripped:
  "\<exists>u. s = u @ stripLeadingColumns s indent \<and> set u \<subseteq> {CHR '' '', CHR 0x09} \<and> columns 0 u \<le> indent \<and>
     (\<forall>c t. stripLeadingColumns s indent = c # t \<longrightarrow> c \<in> {CHR '' '', CHR 0x09} \<longrightarrow> indent < columns 0 (u @ [c]))"
  using strip_columns_spec[of 0 indent s] by (simp add: stripLeadingColumns_def)

theorem indentation_stripped_witness:
  "\<exists>u. '' x'' = u @ stripLeadingColumns '' x'' 4 \<and> set u \<subseteq> {CHR '' '', CHR 0x09} \<and> columns 0 u \<le> 4"
  using indentation_stripped[of "'' x''" 4] by blast

text \<open>
  A fifth escape is accepted: a backslash before an apostrophe in a double-quoted string is the
  apostrophe, in every statement and without the option for vendor patterns.
\<close>
theorem apostrophe_escape_accepted:
  "parse_yang ([CHR ''a'', CHR '' '', CHR 0x22, CHR 0x5C, CHR 0x27, CHR 0x22, CHR '';'']) [] =
     Inr [Statement ''a'' (Some [CHR 0x27]) [] [] 1 1]"
  by code_simp

end
