(* ===== verification/Feature_Expr.thy ===== *)
theory Feature_Expr
  imports Go_Strings
begin

text \<open>
  If-feature expressions (\<open>go/cambium/schema_iffeature.go\<close> and \<open>schema.go\<close>): identifiers and
  references, the tokeniser, and the recursive-descent evaluator.  The evaluator asks a parameter
  \<open>f\<close> about each reference; \<open>f\<close> answers with a value, whether it is known, and the state of the
  caches, which the evaluator only passes on.  The position of the parser is the list of the
  tokens that are left.
\<close>

subsection \<open>Identifiers\<close>

definition isYANGSpace :: "char \<Rightarrow> bool" where
  "isYANGSpace b \<longleftrightarrow> b = CHR '' '' \<or> b = CHR 0x09 \<or> b = CHR 0x0A \<or> b = CHR 0x0D"

definition yangTrimSpace :: "string \<Rightarrow> string" where
  "yangTrimSpace s = rev (dropWhile isYANGSpace (rev (dropWhile isYANGSpace s)))"

definition ascii_lower :: "char \<Rightarrow> bool" where
  "ascii_lower c \<longleftrightarrow> 97 \<le> (of_char c :: nat) \<and> (of_char c :: nat) \<le> 122"

definition ascii_upper :: "char \<Rightarrow> bool" where
  "ascii_upper c \<longleftrightarrow> 65 \<le> (of_char c :: nat) \<and> (of_char c :: nat) \<le> 90"

definition isYangIdentifierStart :: "char \<Rightarrow> bool" where
  "isYangIdentifierStart c \<longleftrightarrow> c = CHR ''_'' \<or> ascii_upper c \<or> ascii_lower c"

definition isYangIdentifierChar :: "char \<Rightarrow> bool" where
  "isYangIdentifierChar c \<longleftrightarrow> isYangIdentifierStart c \<or> is_digit c \<or> c = CHR ''-'' \<or> c = CHR ''.''"

definition validYangIdentifier :: "string \<Rightarrow> bool \<Rightarrow> bool" where
  "validYangIdentifier s allow =
     (if s = [] then False
      else if \<not> allow \<and> 3 \<le> length s \<and> s ! 0 \<in> set ''xX'' \<and> s ! 1 \<in> set ''mM'' \<and> s ! 2 \<in> set ''lL'' then False
      else isYangIdentifierStart (hd s) \<and> list_all isYangIdentifierChar (tl s))"

definition hasPrefix :: "string \<Rightarrow> bool" where
  "hasPrefix q = snd (snd (cut_at CHR '':'' q))"

definition localName :: "string \<Rightarrow> string" where
  "localName q = (case cut_at CHR '':'' q of (_, local, ok) \<Rightarrow> if ok then local else q)"

definition validYangIdentifierRef :: "string \<Rightarrow> bool \<Rightarrow> bool" where
  "validYangIdentifierRef s allow =
     (if \<not> hasPrefix s then validYangIdentifier s allow
      else let parts = split_on '':'' s in
        length parts = 2 \<and> validYangIdentifier (parts ! 0) allow \<and> validYangIdentifier (parts ! 1) allow)"

subsection \<open>Tokens\<close>

datatype if_token = TIdent string | TNot | TAnd | TOr | TLParen | TRParen

definition isIfFeatureExprSeparator :: "char \<Rightarrow> bool" where
  "isIfFeatureExprSeparator c \<longleftrightarrow> isYANGSpace c \<or> c = CHR ''('' \<or> c = CHR '')''"

definition ref_char :: "char \<Rightarrow> bool" where
  "ref_char c \<longleftrightarrow> ascii_lower c \<or> ascii_upper c \<or> is_digit c \<or> c = CHR ''_'' \<or> c = CHR ''-'' \<or> c = CHR ''.''"

definition validIfFeatureRef :: "string \<Rightarrow> bool" where
  "validIfFeatureRef ref =
     (if ref = [] \<or> count_list ref CHR '':'' > 1 then False
      else list_all (\<lambda>part. part \<noteq> [] \<and> list_all ref_char part) (split_on '':'' ref))"

definition word_token :: "string \<Rightarrow> if_token option" where
  "word_token w =
     (if w = ''not'' then Some TNot
      else if w = ''and'' then Some TAnd
      else if w = ''or'' then Some TOr
      else if \<not> validIfFeatureRef w then None
      else Some (TIdent w))"

text \<open>The loop of \<open>tokenizeIfFeatureExpr\<close>, on the bytes that are left, with the tokens so far.\<close>
function tokenize :: "string \<Rightarrow> if_token list \<Rightarrow> if_token list option" where
  "tokenize s tokens =
     (if s = [] then Some tokens
      else if isYANGSpace (hd s) then tokenize (tl s) tokens
      else if hd s = CHR ''('' then tokenize (tl s) (tokens @ [TLParen])
      else if hd s = CHR '')'' then tokenize (tl s) (tokens @ [TRParen])
      else
        (case word_token (takeWhile (\<lambda>c. \<not> isIfFeatureExprSeparator c) s) of
           None \<Rightarrow> None
         | Some t \<Rightarrow> tokenize (dropWhile (\<lambda>c. \<not> isIfFeatureExprSeparator c) s) (tokens @ [t])))"
  by pat_completeness auto
termination
proof (relation "measure (length \<circ> fst)", goal_cases)
  case (5 s tokens t)
  then obtain c r where s: "s = c # r" "\<not> isIfFeatureExprSeparator c"
    by (cases s) (auto simp: isIfFeatureExprSeparator_def)
  then show ?case using length_dropWhile_le[of "\<lambda>c. \<not> isIfFeatureExprSeparator c" r] by simp
qed auto

declare tokenize.simps [simp del]

definition tokenizeIfFeatureExpr :: "string \<Rightarrow> if_token list option" where
  "tokenizeIfFeatureExpr expr =
     (let expr = yangTrimSpace expr in
      if expr = [] then None
      else case tokenize expr [] of
        None \<Rightarrow> None
      | Some tokens \<Rightarrow> if tokens = [] then None else Some tokens)"

definition singleIfFeatureRefArg :: "string \<Rightarrow> bool \<Rightarrow> string option" where
  "singleIfFeatureRefArg expr allow =
     (let ref = yangTrimSpace expr in if \<not> validYangIdentifierRef ref allow then None else Some ref)"

definition ifFeatureExprRequiresYang11 :: "string \<Rightarrow> bool" where
  "ifFeatureExprRequiresYang11 expr =
     (case singleIfFeatureRefArg expr False of
        Some _ \<Rightarrow> False
      | None \<Rightarrow>
        (case tokenizeIfFeatureExpr expr of
           None \<Rightarrow> False
         | Some tokens \<Rightarrow> length tokens \<noteq> 1 \<or> (\<forall>x. hd tokens \<noteq> TIdent x)))"

subsection \<open>The evaluator\<close>

type_synonym 'm answer = "(bool \<times> bool) \<times> 'm"

datatype if_call = ParseOr | OrLoop bool | ParseAnd | AndLoop bool | ParseNot | ParsePrimary

abbreviation upcoming :: "if_token list \<Rightarrow> if_token \<Rightarrow> bool" where
  "upcoming ts t \<equiv> ts \<noteq> [] \<and> hd ts = t"

function (domintros) if_parse ::
  "(string \<Rightarrow> 'm \<Rightarrow> 'm answer) \<Rightarrow> if_call \<Rightarrow> if_token list \<Rightarrow> 'm \<Rightarrow> (bool \<times> bool) \<times> if_token list \<times> 'm" where
  "if_parse f ParseOr ts m =
     (case if_parse f ParseAnd ts m of ((left, ok), ts1, m1) \<Rightarrow>
        if \<not> ok then ((False, False), ts1, m1) else if_parse f (OrLoop left) ts1 m1)"
| "if_parse f (OrLoop left) ts m =
     (if upcoming ts TOr then
        (case if_parse f ParseAnd (tl ts) m of ((right, ok), ts1, m1) \<Rightarrow>
           if \<not> ok then ((False, False), ts1, m1) else if_parse f (OrLoop (left \<or> right)) ts1 m1)
      else ((left, True), ts, m))"
| "if_parse f ParseAnd ts m =
     (case if_parse f ParseNot ts m of ((left, ok), ts1, m1) \<Rightarrow>
        if \<not> ok then ((False, False), ts1, m1) else if_parse f (AndLoop left) ts1 m1)"
| "if_parse f (AndLoop left) ts m =
     (if upcoming ts TAnd then
        (case if_parse f ParseNot (tl ts) m of ((right, ok), ts1, m1) \<Rightarrow>
           if \<not> ok then ((False, False), ts1, m1) else if_parse f (AndLoop (left \<and> right)) ts1 m1)
      else ((left, True), ts, m))"
| "if_parse f ParseNot ts m =
     (if upcoming ts TNot then
        (case if_parse f ParseNot (tl ts) m of ((inner, ok), ts1, m1) \<Rightarrow> ((\<not> inner, ok), ts1, m1))
      else if_parse f ParsePrimary ts m)"
| "if_parse f ParsePrimary ts m =
     (case ts of
        TIdent x # rest \<Rightarrow> (case f x m of (r, m1) \<Rightarrow> (r, rest, m1))
      | TLParen # rest \<Rightarrow>
          (case if_parse f ParseOr rest m of ((v, ok), ts1, m1) \<Rightarrow>
             if \<not> ok \<or> \<not> upcoming ts1 TRParen then ((False, False), ts1, m1) else ((v, True), tl ts1, m1))
      | _ \<Rightarrow> ((False, False), ts, m))"
  by pat_completeness auto

lemma if_parse_shrinks:
  "if_parse_dom (f, call, ts, m) \<Longrightarrow> if_parse f call ts m = (r, ts', m') \<Longrightarrow> length ts' \<le> length ts"
proof (induction f call ts m arbitrary: r ts' m' rule: if_parse.pinduct)
  case (1 f ts m)
  obtain l ok ts1 m1 where a: "if_parse f ParseAnd ts m = ((l, ok), ts1, m1)" by (metis prod.exhaust)
  show ?case using 1(1,4) 1(2)[OF a] 1(3)[OF a[symmetric] refl refl] by (cases ok) (auto simp: if_parse.psimps a)
next
  case (2 f left ts m)
  obtain l ok ts1 m1 where a: "if_parse f ParseAnd (tl ts) m = ((l, ok), ts1, m1)" by (metis prod.exhaust)
  show ?case
  proof (cases "upcoming ts TOr")
    case True
    show ?thesis using 2(1,4) 2(2)[OF True a] 2(3)[OF True a[symmetric] refl refl] True
      by (cases ok) (auto simp: if_parse.psimps a)
  next
    case False
    then show ?thesis using 2(1,4) by (auto simp: if_parse.psimps)
  qed
next
  case (3 f ts m)
  obtain l ok ts1 m1 where a: "if_parse f ParseNot ts m = ((l, ok), ts1, m1)" by (metis prod.exhaust)
  show ?case using 3(1,4) 3(2)[OF a] 3(3)[OF a[symmetric] refl refl] by (cases ok) (auto simp: if_parse.psimps a)
next
  case (4 f left ts m)
  obtain l ok ts1 m1 where a: "if_parse f ParseNot (tl ts) m = ((l, ok), ts1, m1)" by (metis prod.exhaust)
  show ?case
  proof (cases "upcoming ts TAnd")
    case True
    show ?thesis using 4(1,4) 4(2)[OF True a] 4(3)[OF True a[symmetric] refl refl] True
      by (cases ok) (auto simp: if_parse.psimps a)
  next
    case False
    then show ?thesis using 4(1,4) by (auto simp: if_parse.psimps)
  qed
next
  case (5 f ts m)
  obtain l ok ts1 m1 where a: "if_parse f ParseNot (tl ts) m = ((l, ok), ts1, m1)" by (metis prod.exhaust)
  show ?case
  proof (cases "upcoming ts TNot")
    case True
    show ?thesis using 5(1,4) 5(2)[OF True a] True by (auto simp: if_parse.psimps a)
  next
    case False
    then show ?thesis using 5(1,4) 5(3)[OF False] by (cases r) (auto simp: if_parse.psimps)
  qed
next
  case (6 f ts m)
  show ?case
  proof (cases ts)
    case Nil
    then show ?thesis using 6(1,3) by (auto simp: if_parse.psimps)
  next
    case (Cons t rest)
    obtain v ok ts1 m1 where a: "if_parse f ParseOr rest m = ((v, ok), ts1, m1)" by (metis prod.exhaust)
    show ?thesis using 6(1,3) 6(2)[OF Cons _ a] Cons
      by (cases t) (auto simp: if_parse.psimps a split: prod.splits if_splits)
  qed
qed

fun call_rank :: "if_call \<Rightarrow> nat" where
  "call_rank ParseOr = 4"
| "call_rank ParseAnd = 3"
| "call_rank ParseNot = 2"
| "call_rank ParsePrimary = 1"
| "call_rank _ = 0"

termination if_parse
proof (relation "measures [\<lambda>(f, call, ts, m). length ts, \<lambda>(f, call, ts, m). call_rank call]", goal_cases)
  case (3 f ts m x y l ok ts1 m1)
  then show ?case using if_parse_shrinks[of f ParseAnd ts m "(l, ok)" ts1 m1] by fastforce
next
  case (5 f left ts m x y l ok ts1 m1)
  then show ?case using if_parse_shrinks[of f ParseAnd "tl ts" m "(l, ok)" ts1 m1] by (cases ts) fastforce+
next
  case (7 f ts m x y l ok ts1 m1)
  then show ?case using if_parse_shrinks[of f ParseNot ts m "(l, ok)" ts1 m1] by fastforce
next
  case (9 f left ts m x y l ok ts1 m1)
  then show ?case using if_parse_shrinks[of f ParseNot "tl ts" m "(l, ok)" ts1 m1] by (cases ts) fastforce+
qed (auto simp: neq_Nil_conv)

declare if_parse.simps [simp del]

end
