(* ===== verification/Feature_Grammar.thy ===== *)
theory Feature_Grammar
  imports Feature_Expr
begin

text \<open>
  The grammar of if-feature expressions with the trees it gives, the meaning of a tree over known
  references, and the proof that the evaluator accepts exactly the token sequences of the grammar
  whose references are known, with the value of the tree.
\<close>

datatype feature_expr = Ref string | Neg feature_expr | Both feature_expr feature_expr | Either feature_expr feature_expr

inductive or_expr and and_expr and not_expr and primary where
  or_one: "and_expr s e \<Longrightarrow> or_expr s e"
| or_more: "or_expr s e \<Longrightarrow> and_expr t e' \<Longrightarrow> or_expr (s @ TOr # t) (Either e e')"
| and_one: "not_expr s e \<Longrightarrow> and_expr s e"
| and_more: "and_expr s e \<Longrightarrow> not_expr t e' \<Longrightarrow> and_expr (s @ TAnd # t) (Both e e')"
| not_none: "primary s e \<Longrightarrow> not_expr s e"
| not_one: "not_expr s e \<Longrightarrow> not_expr (TNot # s) (Neg e)"
| reference: "primary [TIdent x] (Ref x)"
| parens: "or_expr s e \<Longrightarrow> primary (TLParen # s @ [TRParen]) e"

text \<open>The values of a tree, for references whose values are given by a relation.\<close>
fun evals :: "(string \<Rightarrow> bool \<Rightarrow> bool) \<Rightarrow> feature_expr \<Rightarrow> bool \<Rightarrow> bool" where
  "evals K (Ref x) v \<longleftrightarrow> K x v"
| "evals K (Neg e) v \<longleftrightarrow> evals K e (\<not> v)"
| "evals K (Both a b) v \<longleftrightarrow> (\<exists>x y. evals K a x \<and> evals K b y \<and> v = (x \<and> y))"
| "evals K (Either a b) v \<longleftrightarrow> (\<exists>x y. evals K a x \<and> evals K b y \<and> v = (x \<or> y))"

lemma evals_mono: "evals K e v \<Longrightarrow> (\<And>x v. K x v \<Longrightarrow> K' x v) \<Longrightarrow> evals K' e v"
  by (induction e arbitrary: v) auto

subsection \<open>What the evaluator accepts is in the grammar\<close>

fun accepted :: "(string \<Rightarrow> bool \<Rightarrow> bool) \<Rightarrow> if_call \<Rightarrow> if_token list \<Rightarrow> bool \<Rightarrow> bool" where
  "accepted K ParseOr s v \<longleftrightarrow> (\<exists>e. or_expr s e \<and> evals K e v)"
| "accepted K (OrLoop l) s v \<longleftrightarrow>
     (\<forall>s0 e0. or_expr s0 e0 \<longrightarrow> evals K e0 l \<longrightarrow> (\<exists>e. or_expr (s0 @ s) e \<and> evals K e v))"
| "accepted K ParseAnd s v \<longleftrightarrow> (\<exists>e. and_expr s e \<and> evals K e v)"
| "accepted K (AndLoop l) s v \<longleftrightarrow>
     (\<forall>s0 e0. and_expr s0 e0 \<longrightarrow> evals K e0 l \<longrightarrow> (\<exists>e. and_expr (s0 @ s) e \<and> evals K e v))"
| "accepted K ParseNot s v \<longleftrightarrow> (\<exists>e. not_expr s e \<and> evals K e v)"
| "accepted K ParsePrimary s v \<longleftrightarrow> (\<exists>e. primary s e \<and> evals K e v)"

definition answers :: "(string \<Rightarrow> bool \<Rightarrow> bool) \<Rightarrow> ('m \<Rightarrow> bool) \<Rightarrow> (string \<Rightarrow> 'm \<Rightarrow> 'm answer) \<Rightarrow> bool" where
  "answers K I f \<longleftrightarrow> (\<forall>x m b ok m'. I m \<longrightarrow> f x m = ((b, ok), m') \<longrightarrow> I m' \<and> (ok \<longrightarrow> K x b))"

definition sound_result :: "(string \<Rightarrow> bool \<Rightarrow> bool) \<Rightarrow> ('m \<Rightarrow> bool) \<Rightarrow> if_call \<Rightarrow> if_token list \<Rightarrow>
    (bool \<times> bool) \<times> if_token list \<times> 'm \<Rightarrow> bool" where
  "sound_result K I call ts r \<longleftrightarrow> I (snd (snd r)) \<and>
     (snd (fst r) \<longrightarrow> (\<exists>s. ts = s @ fst (snd r) \<and> accepted K call s (fst (fst r))))"

lemma upcomingE: "upcoming ts t \<Longrightarrow> ts = t # tl ts" by (cases ts) auto

lemma sound_resultD:
  "sound_result K I call ts ((v, ok), ts', m') \<Longrightarrow> I m'"
  "sound_result K I call ts ((v, ok), ts', m') \<Longrightarrow> ok \<Longrightarrow> \<exists>s. ts = s @ ts' \<and> accepted K call s v"
  by (simp_all add: sound_result_def)

lemma sound_resultI:
  "I m' \<Longrightarrow> (ok \<Longrightarrow> \<exists>s. ts = s @ ts' \<and> accepted K call s v) \<Longrightarrow> sound_result K I call ts ((v, ok), ts', m')"
  by (simp add: sound_result_def)

lemma sound_failed: "I m' \<Longrightarrow> sound_result K I call ts ((v, False), ts', m')"
  by (simp add: sound_result_def)

text \<open>One call after another, on the tokens the first one leaves.\<close>
lemma sound_then:
  assumes "sound_result K I next ts' r" "ts = s @ ts'"
    "\<And>t v. accepted K next t v \<Longrightarrow> accepted K call (s @ t) v"
  shows "sound_result K I call ts r"
  using assms unfolding sound_result_def by (metis append.assoc)

lemma if_parse_sound:
  "answers K I f \<Longrightarrow> I m \<Longrightarrow> sound_result K I call ts (if_parse f call ts m)"
proof (induction f call ts m rule: if_parse.induct)
  case (1 f ts m)
  obtain l ok ts1 m1 where a: "if_parse f ParseAnd ts m = ((l, ok), ts1, m1)" by (metis prod.exhaust)
  note s = 1(1)[OF 1(3,4), unfolded a] and rest = 1(2)[OF a[symmetric] refl refl _ 1(3)]
  show ?case
  proof (cases ok)
    case True
    then obtain u e where u: "ts = u @ ts1" "and_expr u e" "evals K e l" using sound_resultD(2)[OF s] by auto
    have "sound_result K I ParseOr ts (if_parse f (OrLoop l) ts1 m1)"
      by (rule sound_then[OF rest u(1)]) (use True sound_resultD(1)[OF s] u(3) or_one[OF u(2)] in \<open>fastforce+\<close>)
    with a True show ?thesis by (simp add: if_parse.simps(1))
  qed (use a s in \<open>auto simp: if_parse.simps(1) dest: sound_resultD intro: sound_failed\<close>)
next
  case (2 f left ts m)
  obtain l ok ts1 m1 where a: "if_parse f ParseAnd (tl ts) m = ((l, ok), ts1, m1)" by (metis prod.exhaust)
  show ?case
  proof (cases "upcoming ts TOr")
    case False
    then show ?thesis using 2(4) by (auto simp: if_parse.simps(2) intro!: sound_resultI)
  next
    case up: True
    note s = 2(1)[OF up 2(3,4), unfolded a] and rest = 2(2)[OF up a[symmetric] refl refl _ 2(3)]
    show ?thesis
    proof (cases ok)
      case True
      then obtain u e where u: "tl ts = u @ ts1" "and_expr u e" "evals K e l" using sound_resultD(2)[OF s] by auto
      have "sound_result K I (OrLoop left) ts (if_parse f (OrLoop (left \<or> l)) ts1 m1)"
      proof (rule sound_then[OF rest])
        show "ts = (TOr # u) @ ts1" using upcomingE[OF up] u(1) by simp
        fix t v assume t: "accepted K (OrLoop (left \<or> l)) t v"
        show "accepted K (OrLoop left) ((TOr # u) @ t) v"
        proof (simp, intro allI impI)
          fix s0 e0 assume "or_expr s0 e0" "evals K e0 left"
          then have "or_expr (s0 @ TOr # u) (Either e0 e)" "evals K (Either e0 e) (left \<or> l)"
            using u or_more by auto
          with t show "\<exists>e. or_expr (s0 @ TOr # u @ t) e \<and> evals K e v" by fastforce
        qed
      qed (use True s in \<open>auto dest: sound_resultD\<close>)
      with a True up show ?thesis by (simp add: if_parse.simps(2))
    qed (use a s up in \<open>auto simp: if_parse.simps(2) dest: sound_resultD intro: sound_failed\<close>)
  qed
next
  case (3 f ts m)
  obtain l ok ts1 m1 where a: "if_parse f ParseNot ts m = ((l, ok), ts1, m1)" by (metis prod.exhaust)
  note s = 3(1)[OF 3(3,4), unfolded a] and rest = 3(2)[OF a[symmetric] refl refl _ 3(3)]
  show ?case
  proof (cases ok)
    case True
    then obtain u e where u: "ts = u @ ts1" "not_expr u e" "evals K e l" using sound_resultD(2)[OF s] by auto
    have "sound_result K I ParseAnd ts (if_parse f (AndLoop l) ts1 m1)"
      by (rule sound_then[OF rest u(1)]) (use True sound_resultD(1)[OF s] u(3) and_one[OF u(2)] in \<open>fastforce+\<close>)
    with a True show ?thesis by (simp add: if_parse.simps(3))
  qed (use a s in \<open>auto simp: if_parse.simps(3) dest: sound_resultD intro: sound_failed\<close>)
next
  case (4 f left ts m)
  obtain l ok ts1 m1 where a: "if_parse f ParseNot (tl ts) m = ((l, ok), ts1, m1)" by (metis prod.exhaust)
  show ?case
  proof (cases "upcoming ts TAnd")
    case False
    then show ?thesis using 4(4) by (auto simp: if_parse.simps(4) intro!: sound_resultI)
  next
    case up: True
    note s = 4(1)[OF up 4(3,4), unfolded a] and rest = 4(2)[OF up a[symmetric] refl refl _ 4(3)]
    show ?thesis
    proof (cases ok)
      case True
      then obtain u e where u: "tl ts = u @ ts1" "not_expr u e" "evals K e l" using sound_resultD(2)[OF s] by auto
      have "sound_result K I (AndLoop left) ts (if_parse f (AndLoop (left \<and> l)) ts1 m1)"
      proof (rule sound_then[OF rest])
        show "ts = (TAnd # u) @ ts1" using upcomingE[OF up] u(1) by simp
        fix t v assume t: "accepted K (AndLoop (left \<and> l)) t v"
        show "accepted K (AndLoop left) ((TAnd # u) @ t) v"
        proof (simp, intro allI impI)
          fix s0 e0 assume "and_expr s0 e0" "evals K e0 left"
          then have "and_expr (s0 @ TAnd # u) (Both e0 e)" "evals K (Both e0 e) (left \<and> l)"
            using u and_more by auto
          with t show "\<exists>e. and_expr (s0 @ TAnd # u @ t) e \<and> evals K e v" by fastforce
        qed
      qed (use True s in \<open>auto dest: sound_resultD\<close>)
      with a True up show ?thesis by (simp add: if_parse.simps(4))
    qed (use a s up in \<open>auto simp: if_parse.simps(4) dest: sound_resultD intro: sound_failed\<close>)
  qed
next
  case (5 f ts m)
  obtain l ok ts1 m1 where a: "if_parse f ParseNot (tl ts) m = ((l, ok), ts1, m1)" by (metis prod.exhaust)
  show ?case
  proof (cases "upcoming ts TNot")
    case True
    note s = 5(1)[OF True 5(3,4), unfolded a]
    have "\<exists>u. ts = u @ ts1 \<and> accepted K ParseNot u (\<not> l)" if y: ok
    proof -
      obtain u e where "tl ts = u @ ts1" "not_expr u e" "evals K e l" using sound_resultD(2)[OF s y] by auto
      then show ?thesis using upcomingE[OF True] not_one
        by (intro exI[of _ "TNot # u"]) (auto intro!: exI[of _ "Neg e"])
    qed
    then have "sound_result K I ParseNot ts ((\<not> l, ok), ts1, m1)" using sound_resultD(1)[OF s] by (intro sound_resultI)
    then show ?thesis using True a by (subst if_parse.simps(5)) simp
  next
    case False
    have "sound_result K I ParseNot ts (if_parse f ParsePrimary ts m)"
      using 5(2)[OF False 5(3,4)] not_none unfolding sound_result_def accepted.simps by blast
    with False show ?thesis by (subst if_parse.simps(5)) auto
  qed
next
  case (6 f ts m)
  show ?case
  proof (cases ts)
    case Nil
    then show ?thesis using 6(3) by (auto simp: if_parse.simps(6) intro: sound_failed)
  next
    case (Cons t rest)
    show ?thesis
    proof (cases t)
      case (TIdent x)
      obtain b ok m' where f: "f x m = ((b, ok), m')" by (metis prod.exhaust)
      then have "I m' \<and> (ok \<longrightarrow> K x b)" using 6(2,3) by (simp add: answers_def)
      then show ?thesis using f Cons TIdent reference[of x]
        by (auto simp: if_parse.simps(6) intro!: sound_resultI exI[of _ "[TIdent x]"] exI[of _ "Ref x"])
    next
      case TLParen
      obtain v ok ts1 m1 where a: "if_parse f ParseOr rest m = ((v, ok), ts1, m1)" by (metis prod.exhaust)
      note s = 6(1)[OF Cons TLParen 6(2,3), unfolded a]
      show ?thesis
      proof (cases "ok \<and> upcoming ts1 TRParen")
        case True
        then obtain u e where u: "rest = u @ ts1" "or_expr u e" "evals K e v" using sound_resultD(2)[OF s] by auto
        then have "ts = (TLParen # u @ [TRParen]) @ tl ts1" using Cons TLParen upcomingE[of ts1 TRParen] True by simp
        moreover have "accepted K ParsePrimary (TLParen # u @ [TRParen]) v" using u parens by auto
        ultimately have "sound_result K I ParsePrimary ts ((v, True), tl ts1, m1)"
          using sound_resultD(1)[OF s] by (intro sound_resultI) blast+
        with True a Cons TLParen show ?thesis by (simp add: if_parse.simps(6))
      next
        case False
        then show ?thesis using a Cons TLParen sound_resultD(1)[OF s] by (auto simp: if_parse.simps(6) intro: sound_failed)
      qed
    qed (use Cons 6(3) in \<open>auto simp: if_parse.simps(6) intro: sound_failed\<close>)
  qed
qed

subsection \<open>What is in the grammar is accepted\<close>

definition answers_all :: "(string \<Rightarrow> bool \<Rightarrow> bool) \<Rightarrow> ('m \<Rightarrow> bool) \<Rightarrow> (string \<Rightarrow> 'm \<Rightarrow> 'm answer) \<Rightarrow> bool" where
  "answers_all K I f \<longleftrightarrow> (\<forall>x m b. I m \<longrightarrow> K x b \<longrightarrow> (\<exists>m'. f x m = ((b, True), m') \<and> I m'))"

lemma grammar_heads:
  "or_expr s e \<Longrightarrow> s \<noteq> []" "and_expr s e \<Longrightarrow> s \<noteq> []" "not_expr s e \<Longrightarrow> s \<noteq> []" "primary s e \<Longrightarrow> s \<noteq> [] \<and> hd s \<noteq> TNot"
  by (induction rule: or_expr_and_expr_not_expr_primary.inducts) auto

text \<open>
  A phrase followed by anything: a conjunction ends in its loop with the value of its tree, and so
  does a disjunction that no \<open>and\<close> follows.
\<close>
lemma if_parse_follows:
  assumes "answers_all K I f"
  shows "or_expr s e \<Longrightarrow> evals K e v \<Longrightarrow> I m \<Longrightarrow> \<not> upcoming rest TAnd \<Longrightarrow>
      \<exists>m'. I m' \<and> if_parse f ParseOr (s @ rest) m = if_parse f (OrLoop v) rest m'"
    "and_expr s e \<Longrightarrow> evals K e v \<Longrightarrow> I m \<Longrightarrow>
      \<exists>m'. I m' \<and> if_parse f ParseAnd (s @ rest) m = if_parse f (AndLoop v) rest m'"
    "not_expr s e \<Longrightarrow> evals K e v \<Longrightarrow> I m \<Longrightarrow> \<exists>m'. I m' \<and> if_parse f ParseNot (s @ rest) m = ((v, True), rest, m')"
    "primary s e \<Longrightarrow> evals K e v \<Longrightarrow> I m \<Longrightarrow> \<exists>m'. I m' \<and> if_parse f ParsePrimary (s @ rest) m = ((v, True), rest, m')"
proof (induction arbitrary: v m rest and v m rest and v m rest and v m rest rule: or_expr_and_expr_not_expr_primary.inducts)
  case (or_one s e)
  then obtain m' where "I m'" "if_parse f ParseAnd (s @ rest) m = if_parse f (AndLoop v) rest m'" by blast
  then show ?case using or_one.prems(3) by (auto simp: if_parse.simps(1,4))
next
  case (or_more s e t e')
  from or_more.prems(1) obtain x y where xy: "evals K e x" "evals K e' y" "v = (x \<or> y)" by auto
  have "\<not> upcoming (TOr # t @ rest) TAnd" by simp
  from or_more.IH(1)[OF xy(1) or_more.prems(2) this] obtain m1 where
    m1: "I m1" "if_parse f ParseOr (s @ TOr # t @ rest) m = if_parse f (OrLoop x) (TOr # t @ rest) m1" by blast
  obtain m2 where "I m2" "if_parse f ParseAnd (t @ rest) m1 = if_parse f (AndLoop y) rest m2"
    using or_more.IH(2)[OF xy(2) m1(1)] by blast
  then show ?case using m1(2) or_more.prems(3) xy(3) by (auto simp: if_parse.simps(2,4))
next
  case (and_one s e)
  then obtain m' where "I m'" "if_parse f ParseNot (s @ rest) m = ((v, True), rest, m')" by blast
  then show ?case by (auto simp: if_parse.simps(3))
next
  case (and_more s e t e')
  from and_more.prems(1) obtain x y where xy: "evals K e x" "evals K e' y" "v = (x \<and> y)" by auto
  from and_more.IH(1)[OF xy(1) and_more.prems(2)] obtain m1 where
    m1: "I m1" "if_parse f ParseAnd (s @ TAnd # t @ rest) m = if_parse f (AndLoop x) (TAnd # t @ rest) m1" by blast
  obtain m2 where "I m2" "if_parse f ParseNot (t @ rest) m1 = ((y, True), rest, m2)"
    using and_more.IH(2)[OF xy(2) m1(1)] by blast
  then show ?case using m1(2) xy(3) by (auto simp: if_parse.simps(4))
next
  case (not_none s e)
  then obtain m' where "I m'" "if_parse f ParsePrimary (s @ rest) m = ((v, True), rest, m')" by blast
  then show ?case using grammar_heads(4)[OF not_none.hyps(1)] by (auto simp: if_parse.simps(5))
next
  case (not_one s e)
  then obtain m' where "I m'" "if_parse f ParseNot (s @ rest) m = ((\<not> v, True), rest, m')" by fastforce
  then show ?case by (auto simp: if_parse.simps(5))
next
  case (reference x)
  then obtain m' where "f x m = ((v, True), m')" "I m'" 
    using assms reference unfolding answers_all_def evals.simps by blast
  then show ?case by (auto simp: if_parse.simps(6))
next
  case (parens s e)
  have "\<not> upcoming (TRParen # rest) TAnd" by simp
  from parens.IH[OF parens.prems this] obtain m' where
    "I m'" "if_parse f ParseOr (s @ TRParen # rest) m = if_parse f (OrLoop v) (TRParen # rest) m'" by blast
  then show ?case by (auto simp: if_parse.simps(2,6))
qed

lemma if_parse_complete:
  "answers_all K I f \<Longrightarrow> or_expr ts e \<Longrightarrow> evals K e v \<Longrightarrow> I m \<Longrightarrow>
     \<exists>m'. I m' \<and> if_parse f ParseOr ts m = ((v, True), [], m')"
  using if_parse_follows(1)[of K I f ts e v m "[]"] by (auto simp: if_parse.simps(2))

text \<open>A sequence of tokens has one value at most.\<close>
lemma evals_unique:
  assumes "\<And>x v v'. K x v \<Longrightarrow> K x v' \<Longrightarrow> v = v'"
    and "or_expr ts e" "or_expr ts e'" "evals K e v" "evals K e' v'"
  shows "v = v'"
proof -
  define f :: "string \<Rightarrow> unit \<Rightarrow> unit answer" where
    "f = (\<lambda>x m. ((K x True, K x True \<or> K x False), m))"
  have "answers_all K (\<lambda>_. True) f"
    using assms(1) by (auto simp: answers_all_def f_def) (metis (full_types))+
  from if_parse_complete[OF this assms(2,4)] if_parse_complete[OF this assms(3,5)] show ?thesis by auto
qed

end
