(* ===== verification/Feature_Eval.thy ===== *)
theory Feature_Eval
  imports Feature_Expr Yang_Parse
begin

text \<open>
  Features and their if-feature expressions in a context of modules (\<open>go/cambium/schema.go\<close>,
  \<open>schema_iffeature.go\<close>): which module a prefixed name means in a source file, which definitions
  are visible there, and the two recursive walks over features, one that evaluates and one that
  validates, with the features being resolved and the memo tables of the rebuild.

  A pointer to a module is its index in the context; a pointer to a statement from which a name is
  looked up is a site, of which only the source root above it matters: root \<open>0\<close> is the statement
  of the module and root \<open>k + 1\<close> that of its submodule \<open>k\<close>.
\<close>

subsection \<open>Statements\<close>

definition Argument :: "statement \<Rightarrow> string" where
  "Argument st = (case sArgument st of None \<Rightarrow> [] | Some a \<Rightarrow> a)"

definition direct :: "statement \<Rightarrow> string \<Rightarrow> statement list" where
  "direct st keyword = filter (\<lambda>c. sKeyword c = keyword) (SubStatements st)"

definition first_child :: "statement \<Rightarrow> string \<Rightarrow> statement option" where
  "first_child st keyword = find (\<lambda>c. sKeyword c = keyword) (SubStatements st)"

definition childArg :: "statement \<Rightarrow> string \<Rightarrow> string" where
  "childArg st keyword = (case first_child st keyword of None \<Rightarrow> [] | Some c \<Rightarrow> Argument c)"

definition ifFeatureArgs :: "statement \<Rightarrow> string list" where
  "ifFeatureArgs st = map Argument (direct st ''if-feature'')"

definition sourceRootYangVersion :: "statement option \<Rightarrow> string" where
  "sourceRootYangVersion root =
     (case root of
        None \<Rightarrow> ''1''
      | Some r \<Rightarrow> let v = childArg r ''yang-version'' in if v = [] then ''1'' else v)"

definition submoduleBelongsToPrefix :: "statement \<Rightarrow> string" where
  "submoduleBelongsToPrefix st =
     (if sKeyword st \<noteq> ''submodule'' then []
      else case first_child st ''belongs-to'' of None \<Rightarrow> [] | Some b \<Rightarrow> childArg b ''prefix'')"

subsection \<open>Modules\<close>

datatype site = NoSite | Detached | InRoot nat

record feature =
  fRoot :: site
  fStmt :: statement

record module_data =
  mdName :: string
  mdPrefix :: string
  mdStmt :: statement
  mdSubs :: "statement list"
  mdImportByPfx :: "string \<rightharpoonup> nat"
  mdSourceImports :: "nat \<rightharpoonup> string \<rightharpoonup> nat"
  mdFeatures :: "(string \<times> feature) list"

record context_data =
  cxModules :: "module_data list"
  cxEnabled :: "string \<Rightarrow> string list"

definition root_at :: "module_data \<Rightarrow> nat \<Rightarrow> statement" where
  "root_at m k = (mdStmt m # mdSubs m) ! k"

definition sourceRootForStatement :: "module_data \<Rightarrow> site \<Rightarrow> nat option" where
  "sourceRootForStatement m s =
     (case s of InRoot k \<Rightarrow> if k \<le> length (mdSubs m) then Some k else None | _ \<Rightarrow> None)"

definition yangVersionForStatement :: "module_data \<Rightarrow> site \<Rightarrow> string" where
  "yangVersionForStatement m s =
     sourceRootYangVersion (Some (root_at m (case sourceRootForStatement m s of None \<Rightarrow> 0 | Some k \<Rightarrow> k)))"

definition sourceRootPrefix :: "module_data \<Rightarrow> statement \<Rightarrow> string" where
  "sourceRootPrefix m root =
     (let own = (if sKeyword root = ''module'' then childArg root ''prefix''
                 else if sKeyword root = ''submodule'' then submoduleBelongsToPrefix root
                 else []) in
      if own \<noteq> [] then own else mdPrefix m)"

text \<open>The two lookups of a prefixed name; the module itself is index \<open>k\<close>.\<close>
definition resolveSourceQNameModule :: "module_data \<Rightarrow> nat \<Rightarrow> string \<Rightarrow> nat option" where
  "resolveSourceQNameModule m k qname =
     (case cut_at CHR '':'' qname of (pfx, _, has) \<Rightarrow>
        if \<not> has then Some k
        else if pfx = mdPrefix m then Some k
        else mdImportByPfx m pfx)"

definition resolveSourceQNameModuleFrom :: "module_data \<Rightarrow> nat \<Rightarrow> string \<Rightarrow> site \<Rightarrow> nat option" where
  "resolveSourceQNameModuleFrom m k qname from =
     (case cut_at CHR '':'' qname of (pfx, _, has) \<Rightarrow>
        if \<not> has then Some k
        else if from = NoSite then resolveSourceQNameModule m k qname
        else
          let root = (case sourceRootForStatement m from of None \<Rightarrow> 0 | Some r \<Rightarrow> r) in
          if pfx = sourceRootPrefix m (root_at m root) then Some k
          else case mdSourceImports m root of
            Some imports \<Rightarrow> imports pfx
          | None \<Rightarrow> mdImportByPfx m pfx)"

subsection \<open>Visibility between submodules\<close>

definition submoduleStatement :: "module_data \<Rightarrow> string \<Rightarrow> nat option" where
  "submoduleStatement m name =
     (case List.find (\<lambda>k. Argument (mdSubs m ! k) = name) [0..<length (mdSubs m)] of
        None \<Rightarrow> None | Some k \<Rightarrow> Some (Suc k))"

definition includes_of :: "module_data \<Rightarrow> nat \<Rightarrow> string list" where
  "includes_of m k = map Argument (direct (root_at m k) ''include'')"

lemma submoduleStatement_bound: "submoduleStatement m name = Some k \<Longrightarrow> k \<le> length (mdSubs m)"
  by (auto simp: submoduleStatement_def find_Some_iff split: option.splits)

text \<open>
  The loop of \<open>submoduleIncludes\<close> over the includes of a root already seen; the set of the roots
  seen is one map that the recursive calls share.
\<close>
function includes_scan :: "module_data \<Rightarrow> string \<Rightarrow> string list \<Rightarrow> nat set \<Rightarrow> bool \<times> nat set" where
  "includes_scan m target [] seen = (False, seen)"
| "includes_scan m target (inc # incs) seen =
     (if inc = target then (True, seen)
      else
        case (case submoduleStatement m inc of
                None \<Rightarrow> (False, seen)
              | Some k \<Rightarrow> if k \<in> seen then (False, seen)
                          else includes_scan m target (includes_of m k) (insert k seen)) of
          (True, seen) \<Rightarrow> (True, seen)
        | (False, seen) \<Rightarrow> includes_scan m target incs seen)"
  by pat_completeness auto

lemma includes_scan_grows:
  "includes_scan_dom (m, target, incs, seen) \<Longrightarrow> includes_scan m target incs seen = (b, seen') \<Longrightarrow> seen \<subseteq> seen'"
proof (induction m target incs seen arbitrary: b seen' rule: includes_scan.pinduct)
  case (1 m target seen)
  then show ?case by (auto simp: includes_scan.psimps)
next
  case (2 m target inc incs seen)
  obtain d seen1 where d: "(case submoduleStatement m inc of None \<Rightarrow> (False, seen)
      | Some k \<Rightarrow> if k \<in> seen then (False, seen) else includes_scan m target (includes_of m k) (insert k seen)) = (d, seen1)"
    by (metis prod.exhaust)
  have "seen \<subseteq> seen1" if "inc \<noteq> target"
    using d 2(2)[OF that] by (auto split: option.splits if_splits)
  then show ?case
    using 2(1,4) d 2(3)[OF _ d[symmetric]] by (cases d; cases "inc = target") (auto simp: includes_scan.psimps)
qed

termination includes_scan
proof (relation "measures [\<lambda>(m, t, incs, seen). card ({..length (mdSubs m)} - seen), \<lambda>(m, t, incs, seen). length incs]", goal_cases)
  case (2 m target inc incs seen k)
  then have "k \<in> {..length (mdSubs m)} - seen" using submoduleStatement_bound by auto
  then have "card ({..length (mdSubs m)} - insert k seen) < card ({..length (mdSubs m)} - seen)"
    by (intro psubset_card_mono) auto
  then show ?case by simp
next
  case (3 m target inc incs seen x seen1)
  then have "seen \<subseteq> seen1"
    by (auto split: option.splits if_splits dest!: includes_scan_grows[OF _ sym])
  then have "card ({..length (mdSubs m)} - seen1) \<le> card ({..length (mdSubs m)} - seen)" by (intro card_mono) auto
  then show ?case by auto
qed simp

definition submoduleIncludes :: "module_data \<Rightarrow> nat \<Rightarrow> string \<Rightarrow> bool" where
  "submoduleIncludes m k target = fst (includes_scan m target (includes_of m k) {k})"

definition definitionVisibleFrom :: "module_data \<Rightarrow> site \<Rightarrow> site \<Rightarrow> bool" where
  "definitionVisibleFrom m dfn from =
     (if dfn = NoSite \<or> from = NoSite then True
      else case (sourceRootForStatement m dfn, sourceRootForStatement m from) of
        (Some d, Some r) \<Rightarrow>
          if d = r then True
          else if sKeyword (root_at m r) \<noteq> ''submodule'' then True
          else if yangVersionForStatement m from = ''1.1'' then True
          else if sKeyword (root_at m d) \<noteq> ''submodule'' then False
          else submoduleIncludes m r (Argument (root_at m d))
      | _ \<Rightarrow> True)"

subsection \<open>Evaluation\<close>

text \<open>The memo tables of the rebuild; outside a rebuild there are none.\<close>
record build_state =
  bValid :: "(nat \<times> string) set option"
  bEnabled :: "(nat \<times> string \<rightharpoonup> bool) option"

definition yang10SingleIfFeatureRef :: "module_data \<Rightarrow> string \<Rightarrow> site \<Rightarrow> string option" where
  "yang10SingleIfFeatureRef m expr from =
     (if from = NoSite \<or> yangVersionForStatement m from = ''1.1'' then None
      else singleIfFeatureRefArg expr False)"

text \<open>An expression, given how references are answered.\<close>
definition eval_tokens :: "(string \<Rightarrow> 'm \<Rightarrow> 'm answer) \<Rightarrow> string \<Rightarrow> 'm \<Rightarrow> 'm answer" where
  "eval_tokens f expr b =
     (case tokenizeIfFeatureExpr expr of
        None \<Rightarrow> ((False, False), b)
      | Some tokens \<Rightarrow>
          (case if_parse f ParseOr tokens b of ((v, ok), rest, b1) \<Rightarrow>
             if \<not> ok \<or> rest \<noteq> [] then ((False, False), b1) else ((v, True), b1)))"

definition eval_expr :: "string option \<Rightarrow> (string \<Rightarrow> 'm \<Rightarrow> 'm answer) \<Rightarrow> string \<Rightarrow> 'm \<Rightarrow> 'm answer" where
  "eval_expr single f expr b = (case single of Some ref \<Rightarrow> f ref b | None \<Rightarrow> eval_tokens f expr b)"

text \<open>The loops over the if-feature statements of one feature.\<close>
fun eval_all :: "(string \<Rightarrow> 'm \<Rightarrow> 'm answer) \<Rightarrow> string list \<Rightarrow> 'm \<Rightarrow> 'm answer" where
  "eval_all ev [] b = ((True, True), b)"
| "eval_all ev (expr # exprs) b =
     (case ev expr b of ((included, ok), b1) \<Rightarrow>
        if \<not> ok \<or> \<not> included then ((False, ok), b1) else eval_all ev exprs b1)"

fun valid_all :: "(string \<Rightarrow> 'm \<Rightarrow> bool \<times> 'm) \<Rightarrow> string list \<Rightarrow> 'm \<Rightarrow> bool \<times> 'm" where
  "valid_all ev [] b = (True, b)"
| "valid_all ev (expr # exprs) b =
     (case ev expr b of (ok, b1) \<Rightarrow> if \<not> ok then (False, b1) else valid_all ev exprs b1)"

text \<open>The feature that a reference means, if it is defined and visible: module, name and feature.\<close>
definition target :: "context_data \<Rightarrow> nat \<Rightarrow> string \<Rightarrow> site \<Rightarrow> (nat \<times> string \<times> feature) option" where
  "target cx k qname from =
     (case resolveSourceQNameModuleFrom (cxModules cx ! k) k qname from of
        None \<Rightarrow> None
      | Some k' \<Rightarrow>
          if length (cxModules cx) \<le> k' then None
          else case map_of (mdFeatures (cxModules cx ! k')) (localName qname) of
            None \<Rightarrow> None
          | Some f \<Rightarrow>
              if k' = k \<and> \<not> definitionVisibleFrom (cxModules cx ! k) (fRoot f) from then None
              else Some (k', localName qname, f))"

definition feature_key :: "context_data \<Rightarrow> nat \<Rightarrow> string \<Rightarrow> string \<times> string" where
  "feature_key cx k lname = (mdName (cxModules cx ! k), lname)"

definition feature_keys :: "context_data \<Rightarrow> (string \<times> string) set" where
  "feature_keys cx = (\<Union>m \<in> set (cxModules cx). Pair (mdName m) ` fst ` set (mdFeatures m))"

lemma finite_feature_keys: "finite (feature_keys cx)"
  by (simp add: feature_keys_def)

lemma target_key: "target cx k qname from = Some (k', lname, f) \<Longrightarrow> feature_key cx k' lname \<in> feature_keys cx"
  by (force simp: target_def feature_key_def feature_keys_def dest: map_of_SomeD split: option.splits if_splits)

definition note_enabled :: "nat \<Rightarrow> string \<Rightarrow> bool \<Rightarrow> build_state \<Rightarrow> build_state" where
  "note_enabled k lname v b = b\<lparr>bEnabled := map_option (\<lambda>m. m((k, lname) \<mapsto> v)) (bEnabled b)\<rparr>"

definition known_enabled :: "nat \<Rightarrow> string \<Rightarrow> build_state \<Rightarrow> bool option" where
  "known_enabled k lname b = Option.bind (bEnabled b) (\<lambda>m. m (k, lname))"

text \<open>\<open>evalIfFeatureExprSeen\<close> of an if-feature statement at a site of module \<open>k\<close>.\<close>
abbreviation evalIfFeatureExprSeen ::
  "context_data \<Rightarrow> (string \<Rightarrow> build_state \<Rightarrow> build_state answer) \<Rightarrow> nat \<Rightarrow> site \<Rightarrow> string \<Rightarrow> build_state \<Rightarrow> build_state answer" where
  "evalIfFeatureExprSeen cx f k from expr \<equiv> eval_expr (yang10SingleIfFeatureRef (cxModules cx ! k) expr from) f expr"

function featureEnabledSeen ::
  "context_data \<Rightarrow> nat \<Rightarrow> site \<Rightarrow> (string \<times> string) set \<Rightarrow> string \<Rightarrow> build_state \<Rightarrow> build_state answer" where
  "featureEnabledSeen cx k from resolving qname b =
     (case target cx k qname from of
        None \<Rightarrow> ((False, False), b)
      | Some (k', lname, f) \<Rightarrow>
          let enabled = cxEnabled cx (mdName (cxModules cx ! k')); key = feature_key cx k' lname in
          if enabled = [] then ((False, True), b)
          else if lname \<notin> set enabled then ((False, True), b)
          else if key \<in> resolving then ((False, False), b)
          else case known_enabled k' lname b of
            Some v \<Rightarrow> ((v, True), b)
          | None \<Rightarrow>
              (case eval_all (evalIfFeatureExprSeen cx (featureEnabledSeen cx k' (fRoot f) (insert key resolving)) k' (fRoot f))
                      (ifFeatureArgs (fStmt f)) b of
                 ((v, ok), b1) \<Rightarrow> ((v, ok), if ok then note_enabled k' lname v b1 else b1)))"
  by pat_completeness auto
termination
proof (relation "measure (\<lambda>(cx, k, from, resolving, qname, b). card (feature_keys cx - resolving))", simp, goal_cases)
  case (1 cx k s resolving qname b x k' y lname f)
  then have "feature_key cx k' lname \<in> feature_keys cx - resolving" using target_key by auto
  then have "card (feature_keys cx - insert (feature_key cx k' lname) resolving) < card (feature_keys cx - resolving)"
    using finite_feature_keys by (intro psubset_card_mono) auto
  then show ?case using 1 by simp
qed

declare featureEnabledSeen.simps [simp del]

definition evalIfFeatureExprFrom :: "context_data \<Rightarrow> nat \<Rightarrow> string \<Rightarrow> site \<Rightarrow> build_state \<Rightarrow> build_state answer" where
  "evalIfFeatureExprFrom cx k expr from b = evalIfFeatureExprSeen cx (featureEnabledSeen cx k from {}) k from expr b"

definition evalIfFeatureExpr :: "context_data \<Rightarrow> nat \<Rightarrow> string \<Rightarrow> build_state \<Rightarrow> build_state answer" where
  "evalIfFeatureExpr cx k expr b = evalIfFeatureExprFrom cx k expr NoSite b"

definition featureEnabled :: "context_data \<Rightarrow> nat \<Rightarrow> string \<Rightarrow> build_state \<Rightarrow> bool \<times> build_state" where
  "featureEnabled cx k qname b = (case featureEnabledSeen cx k NoSite {} qname b of ((v, ok), b1) \<Rightarrow> (ok \<and> v, b1))"

text \<open>The loop of \<open>featureIncluded\<close>; the statement and its if-features are at one site.\<close>
definition featureIncluded :: "bool \<Rightarrow> context_data \<Rightarrow> nat \<Rightarrow> statement \<Rightarrow> site \<Rightarrow> build_state \<Rightarrow> bool \<times> build_state" where
  "featureIncluded retain_all cx k st from b =
     (if retain_all then (True, b)
      else case eval_all (\<lambda>expr. evalIfFeatureExprFrom cx k expr from) (ifFeatureArgs st) b of
        ((v, ok), b1) \<Rightarrow> (ok \<and> v, b1))"

subsection \<open>Validation\<close>

definition note_valid :: "nat \<Rightarrow> string \<Rightarrow> build_state \<Rightarrow> build_state" where
  "note_valid k lname b = b\<lparr>bValid := map_option (insert (k, lname)) (bValid b)\<rparr>"

definition known_valid :: "nat \<Rightarrow> string \<Rightarrow> build_state \<Rightarrow> bool" where
  "known_valid k lname b = (case bValid b of None \<Rightarrow> False | Some s \<Rightarrow> (k, lname) \<in> s)"

text \<open>With \<open>validateOnly\<close> set, a reference has the value true if it is valid.\<close>
definition validating :: "(string \<Rightarrow> 'm \<Rightarrow> bool \<times> 'm) \<Rightarrow> string \<Rightarrow> 'm \<Rightarrow> 'm answer" where
  "validating f ref b = (case f ref b of (ok, b1) \<Rightarrow> ((True, ok), b1))"

definition validateIfFeatureExprSeen :: "(string \<Rightarrow> 'm \<Rightarrow> bool \<times> 'm) \<Rightarrow> string \<Rightarrow> 'm \<Rightarrow> bool \<times> 'm" where
  "validateIfFeatureExprSeen f expr b = (case eval_tokens (validating f) expr b of ((_, ok), b1) \<Rightarrow> (ok, b1))"

function validateFeatureRefSeen ::
  "context_data \<Rightarrow> nat \<Rightarrow> site \<Rightarrow> (string \<times> string) set \<Rightarrow> string \<Rightarrow> build_state \<Rightarrow> bool \<times> build_state" where
  "validateFeatureRefSeen cx k from resolving qname b =
     (case target cx k qname from of
        None \<Rightarrow> (False, b)
      | Some (k', lname, f) \<Rightarrow>
          let key = feature_key cx k' lname in
          if key \<in> resolving then (False, b)
          else if known_valid k' lname b then (True, b)
          else
            (case valid_all (validateIfFeatureExprSeen (validateFeatureRefSeen cx k' (fRoot f) (insert key resolving)))
                    (ifFeatureArgs (fStmt f)) b of
               (ok, b1) \<Rightarrow> (ok, if ok then note_valid k' lname b1 else b1)))"
  by pat_completeness auto
termination
proof (relation "measure (\<lambda>(cx, k, from, resolving, qname, b). card (feature_keys cx - resolving))", simp, goal_cases)
  case (1 cx k s resolving qname b x k' y lname f)
  then have "feature_key cx k' lname \<in> feature_keys cx - resolving" using target_key by auto
  then have "card (feature_keys cx - insert (feature_key cx k' lname) resolving) < card (feature_keys cx - resolving)"
    using finite_feature_keys by (intro psubset_card_mono) auto
  then show ?case using 1 by simp
qed

declare validateFeatureRefSeen.simps [simp del]

definition validateIfFeatureExprFrom :: "context_data \<Rightarrow> nat \<Rightarrow> string \<Rightarrow> site \<Rightarrow> build_state \<Rightarrow> bool \<times> build_state" where
  "validateIfFeatureExprFrom cx k expr from b =
     (case yang10SingleIfFeatureRef (cxModules cx ! k) expr from of
        Some ref \<Rightarrow> validateFeatureRefSeen cx k from {} ref b
      | None \<Rightarrow> validateIfFeatureExprSeen (validateFeatureRefSeen cx k from {}) expr b)"

end
