(* ===== verification/Feature_Value.thy ===== *)
theory Feature_Value
  imports Feature_Grammar Feature_Eval
begin

text \<open>
  What the value of a feature is, apart from any walk or memo table: a reference has a value when
  finitely many steps derive it.  The walk of \<open>featureEnabledSeen\<close> finds exactly the values that
  can be derived, whatever its memo tables hold, and \<open>validateFeatureRefSeen\<close> accepts only
  references that have one.
\<close>

subsection \<open>Derived values\<close>

definition expr_value :: "string option \<Rightarrow> (string \<Rightarrow> bool \<Rightarrow> bool) \<Rightarrow> string \<Rightarrow> bool \<Rightarrow> bool" where
  "expr_value single K expr v \<longleftrightarrow>
     (case single of
        Some ref \<Rightarrow> K ref v
      | None \<Rightarrow> \<exists>ts e. tokenizeIfFeatureExpr expr = Some ts \<and> or_expr ts e \<and> evals K e v)"

text \<open>The if-features of one feature, in order: the first that is false decides.\<close>
fun all_value :: "(string \<Rightarrow> bool \<Rightarrow> bool) \<Rightarrow> string list \<Rightarrow> bool \<Rightarrow> bool" where
  "all_value E [] v \<longleftrightarrow> v"
| "all_value E (x # xs) v \<longleftrightarrow> (E x False \<and> \<not> v) \<or> (E x True \<and> all_value E xs v)"

fun ref_value :: "nat \<Rightarrow> context_data \<Rightarrow> nat \<Rightarrow> site \<Rightarrow> string \<Rightarrow> bool \<Rightarrow> bool" where
  "ref_value 0 cx k from q v \<longleftrightarrow> False"
| "ref_value (Suc n) cx k from q v \<longleftrightarrow>
     (case target cx k q from of
        None \<Rightarrow> False
      | Some (k', lname, f) \<Rightarrow>
          if lname \<notin> set (cxEnabled cx (mdName (cxModules cx ! k'))) then \<not> v
          else all_value (\<lambda>expr. expr_value (yang10SingleIfFeatureRef (cxModules cx ! k') expr (fRoot f))
                  (ref_value n cx k' (fRoot f)) expr) (ifFeatureArgs (fStmt f)) v)"

text \<open>The value of an enabled feature of module \<open>k\<close> by derivations of height \<open>n\<close>.\<close>
definition feature_value :: "nat \<Rightarrow> context_data \<Rightarrow> nat \<Rightarrow> feature \<Rightarrow> bool \<Rightarrow> bool" where
  "feature_value n cx k f =
     all_value (\<lambda>expr. expr_value (yang10SingleIfFeatureRef (cxModules cx ! k) expr (fRoot f)) (ref_value n cx k (fRoot f)) expr)
       (ifFeatureArgs (fStmt f))"

lemma ref_value_Suc:
  "ref_value (Suc n) cx k from q v \<longleftrightarrow>
     (\<exists>k' lname f. target cx k q from = Some (k', lname, f) \<and>
        (if lname \<notin> set (cxEnabled cx (mdName (cxModules cx ! k'))) then \<not> v else feature_value n cx k' f v))"
  by (auto simp: feature_value_def split: option.split)

declare ref_value.simps(2) [simp del]

lemma expr_value_None:
  "expr_value None K expr v \<longleftrightarrow> (\<exists>ts e. tokenizeIfFeatureExpr expr = Some ts \<and> or_expr ts e \<and> evals K e v)"
  by (simp add: expr_value_def)

lemma expr_value_Some: "expr_value (Some ref) K expr v \<longleftrightarrow> K ref v"
  by (simp add: expr_value_def)

lemma expr_value_mono: "expr_value s K expr v \<Longrightarrow> (\<And>q v. K q v \<Longrightarrow> K' q v) \<Longrightarrow> expr_value s K' expr v"
  using evals_mono[of K _ _ K'] by (cases s) (auto simp: expr_value_Some expr_value_None, blast)

lemma all_value_mono: "all_value E xs v \<Longrightarrow> (\<And>x v. E x v \<Longrightarrow> E' x v) \<Longrightarrow> all_value E' xs v"
  by (induction xs) auto

lemma feature_value_mono_step:
  "(\<And>k from q v. ref_value n cx k from q v \<Longrightarrow> ref_value m cx k from q v) \<Longrightarrow> feature_value n cx k f v \<Longrightarrow> feature_value m cx k f v"
  unfolding feature_value_def by (erule all_value_mono, erule expr_value_mono) blast

lemma ref_value_mono: "ref_value n cx k from q v \<Longrightarrow> n \<le> m \<Longrightarrow> ref_value m cx k from q v"
proof (induction m arbitrary: n k "from" q v)
  case (Suc m)
  obtain n' where n: "n = Suc n'" using Suc.prems(1) by (cases n) auto
  have up: "feature_value n' cx k' f v \<Longrightarrow> feature_value m cx k' f v" for k' f v
    by (rule feature_value_mono_step[of n']) (use Suc.prems(2) n Suc.IH[of n'] in auto)
  obtain k' lname f where "target cx k q from = Some (k', lname, f)"
    "if lname \<notin> set (cxEnabled cx (mdName (cxModules cx ! k'))) then \<not> v else feature_value n' cx k' f v"
    using Suc.prems(1) unfolding n ref_value_Suc by blast
  then show ?case unfolding ref_value_Suc using up
    by (intro exI[of _ k'] exI[of _ lname] exI[of _ f]) (simp split: if_splits)
qed simp

lemma feature_value_mono: "feature_value n cx k f v \<Longrightarrow> n \<le> m \<Longrightarrow> feature_value m cx k f v"
  by (rule feature_value_mono_step) (auto intro: ref_value_mono)

subsection \<open>Values are unique\<close>

lemma expr_value_unique:
  "(\<And>q v v'. K q v \<Longrightarrow> K q v' \<Longrightarrow> v = v') \<Longrightarrow> expr_value s K expr v \<Longrightarrow> expr_value s K expr v' \<Longrightarrow> v = v'"
  using evals_unique[of K] by (cases s) (auto simp only: expr_value_Some expr_value_None option.inject, blast+)

lemma all_value_unique:
  assumes "\<And>x v v'. E x v \<Longrightarrow> E x v' \<Longrightarrow> v = v'"
  shows "all_value E xs v \<Longrightarrow> all_value E xs v' \<Longrightarrow> v = v'"
proof (induction xs)
  case (Cons a xs)
  then show ?case using assms[of a True False] by auto
qed simp

lemma ref_value_unique_at: "ref_value n cx k from q v \<Longrightarrow> ref_value n cx k from q v' \<Longrightarrow> v = v'"
proof (induction n arbitrary: k "from" q v v')
  case (Suc n)
  have "feature_value n cx k f v \<Longrightarrow> feature_value n cx k f v' \<Longrightarrow> v = v'" for k f v v'
    unfolding feature_value_def
    by (erule (1) all_value_unique[rotated]) (rule expr_value_unique, rule Suc.IH, assumption+)
  then show ?case using Suc.prems unfolding ref_value_Suc by (fastforce split: if_splits)
qed simp

lemma feature_value_unique: "feature_value n cx k f v \<Longrightarrow> feature_value m cx k f v' \<Longrightarrow> v = v'"
proof -
  assume "feature_value n cx k f v" "feature_value m cx k f v'"
  then have "feature_value (max n m) cx k f v" "feature_value (max n m) cx k f v'"
    using feature_value_mono by auto
  then show ?thesis
    unfolding feature_value_def
    by (rule all_value_unique[rotated]) (rule expr_value_unique, rule ref_value_unique_at, assumption+)
qed

subsection \<open>One height for finitely many references\<close>

lemma evals_height:
  fixes P :: "nat \<Rightarrow> string \<Rightarrow> bool \<Rightarrow> bool"
  assumes "evals (\<lambda>x v. \<exists>n. P n x v) e v" "\<And>n m x v. P n x v \<Longrightarrow> n \<le> m \<Longrightarrow> P m x v"
  shows "\<exists>n. evals (P n) e v"
  using assms(1)
proof (induction e arbitrary: v)
  case (Neg e)
  then show ?case by simp
next
  case (Both a b)
  then obtain x y n m where h: "evals (P n) a x" "evals (P m) b y" "v = (x \<and> y)" by (fastforce simp del: evals.simps(1))
  have "evals (P (max n m)) a x" by (rule evals_mono[OF h(1)]) (rule assms(2), auto)
  moreover have "evals (P (max n m)) b y" by (rule evals_mono[OF h(2)]) (rule assms(2), auto)
  ultimately show ?case using h(3) by (intro exI[of _ "max n m"]) auto
next
  case (Either a b)
  then obtain x y n m where h: "evals (P n) a x" "evals (P m) b y" "v = (x \<or> y)" by (fastforce simp del: evals.simps(1))
  have "evals (P (max n m)) a x" by (rule evals_mono[OF h(1)]) (rule assms(2), auto)
  moreover have "evals (P (max n m)) b y" by (rule evals_mono[OF h(2)]) (rule assms(2), auto)
  ultimately show ?case using h(3) by (intro exI[of _ "max n m"]) auto
qed simp

lemma expr_value_height:
  fixes P :: "nat \<Rightarrow> string \<Rightarrow> bool \<Rightarrow> bool"
  assumes "expr_value s (\<lambda>x v. \<exists>n. P n x v) expr v" "\<And>n m x v. P n x v \<Longrightarrow> n \<le> m \<Longrightarrow> P m x v"
  shows "\<exists>n. expr_value s (P n) expr v"
proof (cases s)
  case None
  then obtain ts e where "tokenizeIfFeatureExpr expr = Some ts" "or_expr ts e" "evals (\<lambda>x v. \<exists>n. P n x v) e v"
    using assms(1) unfolding None expr_value_None by blast
  moreover from this(3) have "\<exists>n. evals (P n) e v" by (rule evals_height) (rule assms(2))
  ultimately show ?thesis unfolding None expr_value_None by blast
qed (use assms(1) in \<open>simp add: expr_value_Some\<close>)

lemma all_value_height:
  fixes E :: "nat \<Rightarrow> string \<Rightarrow> bool \<Rightarrow> bool"
  assumes "all_value (\<lambda>x v. \<exists>n. E n x v) xs v" "\<And>n m x v. E n x v \<Longrightarrow> n \<le> m \<Longrightarrow> E m x v"
  shows "\<exists>n. all_value (E n) xs v"
  using assms(1)
proof (induction xs)
  case (Cons a xs)
  then consider n where "E n a False" "\<not> v" | n m where "E n a True" "all_value (E m) xs v" by auto
  then show ?case
  proof cases
    case 1
    then show ?thesis by auto
  next
    case (2 n m)
    have "E (max n m) a True" by (rule assms(2)[OF 2(1)]) simp
    moreover have "all_value (E (max n m)) xs v" by (rule all_value_mono[OF 2(2)]) (rule assms(2), auto)
    ultimately show ?thesis by (intro exI[of _ "max n m"]) simp
  qed
qed simp

abbreviation has_value :: "context_data \<Rightarrow> nat \<Rightarrow> site \<Rightarrow> string \<Rightarrow> bool \<Rightarrow> bool" where
  "has_value cx k from q v \<equiv> \<exists>n. ref_value n cx k from q v"

lemma feature_value_limit:
  assumes "all_value (\<lambda>expr. expr_value (yang10SingleIfFeatureRef (cxModules cx ! k) expr (fRoot f)) (has_value cx k (fRoot f)) expr)
     (ifFeatureArgs (fStmt f)) v"
  shows "\<exists>n. feature_value n cx k f v"
proof -
  have "expr_value s (has_value cx k (fRoot f)) expr v \<Longrightarrow> \<exists>n. expr_value s (ref_value n cx k (fRoot f)) expr v" for s expr v
    by (rule expr_value_height[of s "\<lambda>n. ref_value n cx k (fRoot f)"]) (auto intro: ref_value_mono)
  then have "all_value (\<lambda>expr v. \<exists>n. expr_value (yang10SingleIfFeatureRef (cxModules cx ! k) expr (fRoot f)) (ref_value n cx k (fRoot f)) expr v)
     (ifFeatureArgs (fStmt f)) v" by (rule all_value_mono[OF assms])
  then show ?thesis unfolding feature_value_def
    by (rule all_value_height) (auto elim: expr_value_mono intro: ref_value_mono)
qed

subsection \<open>The walk is sound\<close>

definition memo_ok :: "context_data \<Rightarrow> build_state \<Rightarrow> bool" where
  "memo_ok cx b \<longleftrightarrow>
     (\<forall>k lname v. known_enabled k lname b = Some v \<longrightarrow>
        (\<exists>f n. map_of (mdFeatures (cxModules cx ! k)) lname = Some f \<and> feature_value n cx k f v))"

lemma memo_ok_note:
  "memo_ok cx b \<Longrightarrow> map_of (mdFeatures (cxModules cx ! k)) lname = Some f \<Longrightarrow> feature_value n cx k f v \<Longrightarrow>
     memo_ok cx (note_enabled k lname v b)"
  by (auto simp: memo_ok_def note_enabled_def known_enabled_def bind_eq_Some_conv split: if_splits)

lemma target_feature: "target cx k q from = Some (k', lname, f) \<Longrightarrow> k' < length (cxModules cx) \<and> map_of (mdFeatures (cxModules cx ! k')) lname = Some f"
  by (auto simp: target_def split: option.splits if_splits)

lemma eval_tokens_sound:
  assumes "answers K I f" "I b" "eval_tokens f expr b = ((v, ok), b')"
  shows "I b' \<and> (ok \<longrightarrow> expr_value None K expr v)"
proof (cases "tokenizeIfFeatureExpr expr")
  case None
  then show ?thesis using assms by (simp add: eval_tokens_def)
next
  case (Some ts)
  obtain w ok1 rest b1 where p: "if_parse f ParseOr ts b = ((w, ok1), rest, b1)" by (metis prod.exhaust)
  note s = if_parse_sound[OF assms(1,2), of ParseOr ts, unfolded p]
  show ?thesis
  proof (cases "ok1 \<and> rest = []")
    case True
    then show ?thesis using sound_resultD[OF s] assms(3) Some p by (auto simp: eval_tokens_def expr_value_None)
  next
    case False
    then show ?thesis using sound_resultD(1)[OF s] assms(3) Some p by (auto simp: eval_tokens_def)
  qed
qed

lemma eval_expr_sound:
  assumes "answers K I f" "I b" "eval_expr single f expr b = ((v, ok), b')"
  shows "I b' \<and> (ok \<longrightarrow> expr_value single K expr v)"
proof (cases single)
  case None
  then show ?thesis using eval_tokens_sound[OF assms(1,2)] assms(3) by (simp add: eval_expr_def)
next
  case (Some ref)
  then show ?thesis using assms by (auto simp: eval_expr_def expr_value_Some answers_def)
qed

lemma eval_all_sound:
  assumes "\<And>x b v ok b'. I b \<Longrightarrow> ev x b = ((v, ok), b') \<Longrightarrow> I b' \<and> (ok \<longrightarrow> E x v)"
  shows "I b \<Longrightarrow> eval_all ev xs b = ((v, ok), b') \<Longrightarrow> I b' \<and> (ok \<longrightarrow> all_value E xs v) \<and> (\<not> ok \<longrightarrow> \<not> v)"
proof (induction xs arbitrary: b)
  case (Cons x xs)
  obtain w ok1 b1 where e: "ev x b = ((w, ok1), b1)" by (metis prod.exhaust)
  with assms[OF Cons.prems(1) e] Cons show ?case by (auto split: if_splits)
qed simp

lemma exprs_sound:
  assumes "answers K I F" "I b" "eval_all (\<lambda>expr. eval_expr (sg expr) F expr) xs b = ((v, ok), b')"
  shows "I b' \<and> (ok \<longrightarrow> all_value (\<lambda>expr. expr_value (sg expr) K expr) xs v) \<and> (\<not> ok \<longrightarrow> \<not> v)"
proof (rule eval_all_sound[where I = I and b = b and ev = "\<lambda>expr. eval_expr (sg expr) F expr"])
  show "I b" "eval_all (\<lambda>expr. eval_expr (sg expr) F expr) xs b = ((v, ok), b')" by (rule assms)+
qed (rule eval_expr_sound[OF assms(1)])

lemma featureEnabledSeen_sound:
  "memo_ok cx b \<Longrightarrow> featureEnabledSeen cx k from R q b = ((v, ok), b') \<Longrightarrow>
     memo_ok cx b' \<and> (ok \<longrightarrow> has_value cx k from q v) \<and> (\<not> ok \<longrightarrow> \<not> v)"
proof (induction cx k "from" R q b arbitrary: v ok b' rule: featureEnabledSeen.induct)
  case (1 cx k "from" R q b)
  show ?case
  proof (cases "target cx k q from")
    case None
    then show ?thesis using 1(2,3) by (simp add: featureEnabledSeen.simps)
  next
    case (Some t)
    obtain k' lname f where t: "target cx k q from = Some (k', lname, f)" using Some by (metis prod.exhaust)
    note tf = target_feature[OF t]
    define key where "key = feature_key cx k' lname"
    define on where "on = (lname \<in> set (cxEnabled cx (mdName (cxModules cx ! k'))))"
    define walk where "walk = eval_all (evalIfFeatureExprSeen cx (featureEnabledSeen cx k' (fRoot f) (insert key R)) k' (fRoot f)) (ifFeatureArgs (fStmt f)) b"
    have step: "featureEnabledSeen cx k from R q b =
        (if \<not> on then ((False, True), b) else if key \<in> R then ((False, False), b)
         else case known_enabled k' lname b of Some v \<Rightarrow> ((v, True), b)
         | None \<Rightarrow> (case walk of ((v, ok), b1) \<Rightarrow> ((v, ok), if ok then note_enabled k' lname v b1 else b1)))"
      unfolding walk_def key_def by (subst featureEnabledSeen.simps) (auto simp: t Let_def on_def)
    have derived: "feature_value n cx k' f w \<Longrightarrow> on \<Longrightarrow> has_value cx k from q w" for n w
      using t by (intro exI[of _ "Suc n"]) (auto simp: ref_value_Suc on_def)
    consider "\<not> on" | "on" "key \<in> R" | w where "on" "key \<notin> R" "known_enabled k' lname b = Some w"
      | "on" "key \<notin> R" "known_enabled k' lname b = None" by (cases "known_enabled k' lname b") auto
    then show ?thesis
    proof cases
      case 1
      moreover have "has_value cx k from q False"
        using 1 t by (intro exI[of _ "Suc 0"]) (auto simp: ref_value_Suc on_def)
      ultimately show ?thesis using "1.prems" step by auto
    next
      case 2
      then show ?thesis using "1.prems" step by auto
    next
      case (3 w)
      then obtain n where "feature_value n cx k' f w" using "1.prems"(1) tf unfolding memo_ok_def by fastforce
      then show ?thesis using 3 "1.prems" step derived by auto
    next
      case 4
      have ne: "cxEnabled cx (mdName (cxModules cx ! k')) \<noteq> []" using 4 by (auto simp: on_def)
      have ans: "answers (has_value cx k' (fRoot f)) (memo_ok cx) (featureEnabledSeen cx k' (fRoot f) (insert key R))"
        using "1.IH"[OF t refl refl refl refl] 4 ne unfolding answers_def key_def on_def by simp
      obtain w ok1 b1 where w: "walk = ((w, ok1), b1)" by (metis prod.exhaust)
      have "memo_ok cx b1 \<and> (ok1 \<longrightarrow> all_value (\<lambda>expr. expr_value (yang10SingleIfFeatureRef (cxModules cx ! k') expr (fRoot f))
          (has_value cx k' (fRoot f)) expr) (ifFeatureArgs (fStmt f)) w) \<and> (\<not> ok1 \<longrightarrow> \<not> w)"
        by (rule exprs_sound[OF ans "1.prems"(1)]) (use w in \<open>simp add: walk_def\<close>)
      then have r: "memo_ok cx b1 \<and> (ok1 \<longrightarrow> (\<exists>n. feature_value n cx k' f w)) \<and> (\<not> ok1 \<longrightarrow> \<not> w)"
        using feature_value_limit by blast
      then show ?thesis using 4 "1.prems"(2) step w derived memo_ok_note tf by auto
    qed
  qed
qed

subsection \<open>The walk is complete\<close>

lemma eval_expr_complete:
  assumes "answers_all K I f" "I b" "expr_value single K expr v"
  shows "\<exists>b'. I b' \<and> eval_expr single f expr b = ((v, True), b')"
proof (cases single)
  case None
  then obtain ts e where "tokenizeIfFeatureExpr expr = Some ts" "or_expr ts e" "evals K e v"
    using assms(3) by (auto simp: expr_value_None)
  then show ?thesis using if_parse_complete[OF assms(1) _ _ assms(2)] None by (fastforce simp: eval_expr_def eval_tokens_def)
next
  case (Some ref)
  then show ?thesis using assms unfolding answers_all_def by (fastforce simp: eval_expr_def expr_value_Some)
qed

lemma eval_all_complete:
  assumes "\<And>x b v. I b \<Longrightarrow> E x v \<Longrightarrow> \<exists>b'. I b' \<and> ev x b = ((v, True), b')"
  shows "I b \<Longrightarrow> all_value E xs v \<Longrightarrow> \<exists>b'. I b' \<and> eval_all ev xs b = ((v, True), b')"
proof (induction xs arbitrary: b)
  case (Cons x xs)
  then consider "E x False" "\<not> v" | "E x True" "all_value E xs v" by auto
  then show ?case
  proof cases
    case 1
    then obtain b' where "I b'" "ev x b = ((False, True), b')" using assms Cons.prems(1) by blast
    with 1 show ?thesis by auto
  next
    case 2
    then obtain b1 where b1: "I b1" "ev x b = ((True, True), b1)" using assms Cons.prems(1) by blast
    with Cons.IH[OF b1(1) 2(2)] show ?thesis by auto
  qed
qed auto

lemma exprs_complete:
  assumes "answers_all K I F" "I b" "all_value (\<lambda>expr. expr_value (sg expr) K expr) xs v"
  shows "\<exists>b'. I b' \<and> eval_all (\<lambda>expr. eval_expr (sg expr) F expr) xs b = ((v, True), b')"
proof (rule eval_all_complete[where I = I and b = b and E = "\<lambda>expr. expr_value (sg expr) K expr"])
  show "I b" "all_value (\<lambda>expr. expr_value (sg expr) K expr) xs v" by (rule assms)+
qed (rule eval_expr_complete[OF assms(1)])

text \<open>
  While the features of \<open>R\<close> are being resolved, the walk still finds every value whose derivation
  is lower than any of theirs.
\<close>
definition above :: "context_data \<Rightarrow> (string \<times> string) set \<Rightarrow> nat \<Rightarrow> bool" where
  "above cx R n \<longleftrightarrow>
     (\<forall>k lname f m v. k < length (cxModules cx) \<longrightarrow> feature_key cx k lname \<in> R \<longrightarrow>
        map_of (mdFeatures (cxModules cx ! k)) lname = Some f \<longrightarrow> feature_value m cx k f v \<longrightarrow> n \<le> m)"

text \<open>
  A context may hold several revisions of a module, which have one name, and the walk refuses the features
  that are being resolved by the name of their module.  No feature has two revisions: two modules of one
  name do not define a feature of the same name.
\<close>
definition one_revision :: "context_data \<Rightarrow> bool" where
  "one_revision cx \<longleftrightarrow>
     (\<forall>j k. j < length (cxModules cx) \<longrightarrow> k < length (cxModules cx) \<longrightarrow> mdName (cxModules cx ! j) = mdName (cxModules cx ! k) \<longrightarrow>
        fst ` set (mdFeatures (cxModules cx ! j)) \<inter> fst ` set (mdFeatures (cxModules cx ! k)) \<noteq> {} \<longrightarrow> j = k)"

lemma one_revisionD:
  "one_revision cx \<Longrightarrow> j < length (cxModules cx) \<Longrightarrow> k < length (cxModules cx) \<Longrightarrow> mdName (cxModules cx ! j) = mdName (cxModules cx ! k) \<Longrightarrow>
     map_of (mdFeatures (cxModules cx ! j)) x = Some f \<Longrightarrow> map_of (mdFeatures (cxModules cx ! k)) x = Some g \<Longrightarrow> j = k"
proof -
  assume o: "one_revision cx" "j < length (cxModules cx)" "k < length (cxModules cx)" "mdName (cxModules cx ! j) = mdName (cxModules cx ! k)"
    and "map_of (mdFeatures (cxModules cx ! j)) x = Some f" "map_of (mdFeatures (cxModules cx ! k)) x = Some g"
  then have "x \<in> fst ` set (mdFeatures (cxModules cx ! j))" "x \<in> fst ` set (mdFeatures (cxModules cx ! k))"
    by (force dest: map_of_SomeD)+
  then have "fst ` set (mdFeatures (cxModules cx ! j)) \<inter> fst ` set (mdFeatures (cxModules cx ! k)) \<noteq> {}" by blast
  with o show "j = k" unfolding one_revision_def by simp
qed

lemma distinct_one_revision: "distinct (map mdName (cxModules cx)) \<Longrightarrow> one_revision cx"
  using nth_eq_iff_index_eq[of "map mdName (cxModules cx)"] by (auto simp: one_revision_def)

lemma above_insert:
  assumes "above cx R n" "m \<le> n" "one_revision cx" "k < length (cxModules cx)"
    "map_of (mdFeatures (cxModules cx ! k)) lname = Some f" "\<And>m' v. m' < m \<Longrightarrow> \<not> feature_value m' cx k f v"
  shows "above cx (insert (feature_key cx k lname) R) m"
proof -
  have "m \<le> m'" if j: "j < length (cxModules cx)" "feature_key cx j x \<in> insert (feature_key cx k lname) R"
      "map_of (mdFeatures (cxModules cx ! j)) x = Some g" "feature_value m' cx j g v" for j x g m' v
  proof (cases "feature_key cx j x \<in> R")
    case True
    then have "n \<le> m'" using assms(1) j(1,3,4) unfolding above_def by blast
    then show ?thesis using assms(2) by simp
  next
    case False
    then have e: "mdName (cxModules cx ! j) = mdName (cxModules cx ! k)" "x = lname" using j(2) by (simp_all add: feature_key_def)
    then have "j = k" using one_revisionD[OF assms(3) j(1) assms(4)] j(3) assms(5) by blast
    then have "feature_value m' cx k f v" using j(3,4) assms(5) e(2) by simp
    then show ?thesis using assms(6)[of m' v] by (meson not_le)
  qed
  then show ?thesis unfolding above_def by blast
qed

lemma featureEnabledSeen_complete:
  assumes "one_revision cx"
  shows "ref_value n cx k from q v \<Longrightarrow> memo_ok cx b \<Longrightarrow> above cx R n \<Longrightarrow>
     \<exists>b'. memo_ok cx b' \<and> featureEnabledSeen cx k from R q b = ((v, True), b')"
proof (induction n arbitrary: k "from" R q v b rule: less_induct)
  case (less n)
  obtain n' where n: "n = Suc n'" using less.prems(1) by (cases n) auto
  obtain k' lname f where t: "target cx k q from = Some (k', lname, f)"
    and v: "if lname \<notin> set (cxEnabled cx (mdName (cxModules cx ! k'))) then \<not> v else feature_value n' cx k' f v"
    using less.prems(1) unfolding n ref_value_Suc by blast
  note tf = target_feature[OF t]
  show ?case
  proof (cases "lname \<in> set (cxEnabled cx (mdName (cxModules cx ! k')))")
    case False
    then have "featureEnabledSeen cx k from R q b = ((v, True), b)"
      using v t by (subst featureEnabledSeen.simps) (auto simp: Let_def)
    then show ?thesis using less.prems(2) by blast
  next
    case True
    then have fv: "feature_value n' cx k' f v" and ne: "cxEnabled cx (mdName (cxModules cx ! k')) \<noteq> []" using v by auto
    have fresh: "feature_key cx k' lname \<notin> R"
      using less.prems(3) tf fv n unfolding above_def by fastforce
    show ?thesis
    proof (cases "known_enabled k' lname b")
      case (Some w)
      then obtain m where "feature_value m cx k' f w" using less.prems(2) tf unfolding memo_ok_def by fastforce
      then have "w = v" using fv feature_value_unique by blast
      then have "featureEnabledSeen cx k from R q b = ((v, True), b)"
        using True ne fresh Some t by (subst featureEnabledSeen.simps) (simp add: Let_def)
      then show ?thesis using less.prems(2) by blast
    next
      case None
      define m where "m = (LEAST m. feature_value m cx k' f v)"
      have m: "feature_value m cx k' f v" "m \<le> n'" unfolding m_def using fv by (auto intro: LeastI Least_le)
      have "\<not> feature_value m' cx k' f v'" if "m' < m" for m' v'
        using that not_less_Least[of m' "\<lambda>m. feature_value m cx k' f v"] feature_value_unique[OF m(1)] unfolding m_def by blast
      then have ab: "above cx (insert (feature_key cx k' lname) R) m"
        using less.prems(3) m(2) n assms tf by (intro above_insert[of cx R n]) auto
      have lt: "m < n" using m(2) n by simp
      have "answers_all (ref_value m cx k' (fRoot f)) (memo_ok cx) (featureEnabledSeen cx k' (fRoot f) (insert (feature_key cx k' lname) R))"
        using less.IH[OF lt _ _ ab] unfolding answers_all_def by blast
      from exprs_complete[OF this less.prems(2) m(1)[unfolded feature_value_def]]
      obtain b' where b': "memo_ok cx b'" "eval_all (evalIfFeatureExprSeen cx (featureEnabledSeen cx k' (fRoot f)
          (insert (feature_key cx k' lname) R)) k' (fRoot f)) (ifFeatureArgs (fStmt f)) b = ((v, True), b')" by blast
      then have "featureEnabledSeen cx k from R q b = ((v, True), note_enabled k' lname v b')"
        using True ne fresh None t by (subst featureEnabledSeen.simps) (simp add: Let_def)
      then show ?thesis using memo_ok_note[OF b'(1)] tf m(1) by blast
    qed
  qed
qed

text \<open>The completeness of a walk that starts fresh.\<close>
lemma featureEnabledSeen_finds:
  assumes "one_revision cx" "memo_ok cx b" "has_value cx k from q v"
  shows "\<exists>b'. memo_ok cx b' \<and> featureEnabledSeen cx k from {} q b = ((v, True), b')"
  using featureEnabledSeen_complete[OF assms(1) _ assms(2), of _ k "from" q v "{}"] assms(3) by (auto simp: above_def)

lemma featureEnabledSeen_answers:
  assumes "one_revision cx"
  shows "answers_all (has_value cx k from) (memo_ok cx) (featureEnabledSeen cx k from {})"
  using featureEnabledSeen_finds[OF assms] unfolding answers_all_def by blast

end
