(* ===== verification/Feature_Validity.thy ===== *)
theory Feature_Validity
  imports Feature_Value
begin

text \<open>
  Validation and evaluation of if-feature expressions agree: a reference that
  \<open>validateFeatureRefSeen\<close> accepts has a derived value.
\<close>

subsection \<open>A single reference\<close>

lemma single_token:
  "or_expr s e \<Longrightarrow> length s = 1 \<longrightarrow> (\<exists>x. s = [TIdent x] \<and> e = Ref x)"
  "and_expr s e \<Longrightarrow> length s = 1 \<longrightarrow> (\<exists>x. s = [TIdent x] \<and> e = Ref x)"
  "not_expr s e \<Longrightarrow> length s = 1 \<longrightarrow> (\<exists>x. s = [TIdent x] \<and> e = Ref x)"
  "primary s e \<Longrightarrow> length s = 1 \<longrightarrow> (\<exists>x. s = [TIdent x] \<and> e = Ref x)"
  by (induction rule: or_expr_and_expr_not_expr_primary.inducts) (auto dest: grammar_heads)

lemma split_from_chars:
  "set s \<subseteq> insert y (\<Union> (set ` set (split_from [y] acc s))) \<and> set acc \<subseteq> \<Union> (set ` set (split_from [y] acc s))"
proof (induction s arbitrary: acc)
  case Nil
  then show ?case by (simp add: split_from.simps)
next
  case (Cons c r)
  have "split_from [y] acc (c # r) = (if c = y then acc # split_from [y] [] r else split_from [y] (acc @ [c]) r)"
    by (subst split_from.simps) (simp add: has_prefix_def)
  then show ?case using Cons.IH[of "[]"] Cons.IH[of "acc @ [c]"] by auto
qed

lemma identifier_chars: "validYangIdentifier s a \<Longrightarrow> c \<in> set s \<Longrightarrow> \<not> isIfFeatureExprSeparator c"
proof -
  assume a: "validYangIdentifier s a" "c \<in> set s"
  then have "isYangIdentifierChar c"
    by (cases s) (auto simp: validYangIdentifier_def isYangIdentifierChar_def list_all_iff split: if_splits)
  then show ?thesis
    by (auto simp: isYangIdentifierChar_def isYangIdentifierStart_def isIfFeatureExprSeparator_def isYANGSpace_def
        ascii_lower_def ascii_upper_def is_digit_def)
qed

lemma reference_chars:
  assumes "validYangIdentifierRef s a"
  shows "s \<noteq> []" "\<forall>c \<in> set s. \<not> isIfFeatureExprSeparator c"
proof -
  show "s \<noteq> []" using assms by (auto simp: validYangIdentifierRef_def validYangIdentifier_def hasPrefix_def cut_at_def)
  show "\<forall>c \<in> set s. \<not> isIfFeatureExprSeparator c"
  proof (cases "hasPrefix s")
    case False
    then show ?thesis using assms identifier_chars by (auto simp: validYangIdentifierRef_def)
  next
    case True
    then obtain p q where "split_on '':'' s = [p, q]" "validYangIdentifier p a" "validYangIdentifier q a"
      using assms by (auto simp: validYangIdentifierRef_def Let_def length_Suc_conv numeral_2_eq_2)
    moreover from this have "set s \<subseteq> {CHR '':''} \<union> set p \<union> set q"
      using split_from_chars[of s "CHR '':''" "[]"] by (auto simp: split_on_def)
    ultimately show ?thesis using identifier_chars by (auto simp: isIfFeatureExprSeparator_def isYANGSpace_def subset_iff)
  qed
qed

lemma single_reference:
  assumes "singleIfFeatureRefArg expr a = Some ref" "tokenizeIfFeatureExpr expr = Some ts" "or_expr ts e"
  shows "e = Ref ref"
proof -
  from assms(1) have r: "ref = yangTrimSpace expr" "validYangIdentifierRef ref a"
    by (auto simp: singleIfFeatureRefArg_def Let_def split: if_splits)
  note rc = reference_chars[OF r(2)]
  then obtain c rest where c: "ref = c # rest" by (cases ref) auto
  have w: "takeWhile (\<lambda>c. \<not> isIfFeatureExprSeparator c) ref = ref" "dropWhile (\<lambda>c. \<not> isIfFeatureExprSeparator c) ref = []"
    using rc by (auto simp: takeWhile_eq_all_conv)
  have "\<not> isYANGSpace c" "c \<noteq> CHR ''(''" "c \<noteq> CHR '')''" using rc(2) c by (auto simp: isIfFeatureExprSeparator_def)
  then have "tokenize ref [] = (case word_token ref of None \<Rightarrow> None | Some t \<Rightarrow> Some [t])"
    using w c by (subst tokenize.simps) (auto simp: tokenize.simps[of "[]"] split: option.split)
  then obtain t where t: "ts = [t]" "word_token ref = Some t"
    using assms(2) rc(1) by (auto simp: tokenizeIfFeatureExpr_def Let_def r(1)[symmetric] split: option.splits)
  then obtain x where "t = TIdent x" "e = Ref x" using single_token[of ts e] assms(3) by auto
  with t(2) show ?thesis by (auto simp: word_token_def split: if_splits)
qed

subsection \<open>Validation is sound\<close>

lemma evals_exist: "evals (\<lambda>x _. \<exists>v. K x v) e w \<Longrightarrow> \<exists>v. evals K e v"
proof (induction e arbitrary: w)
  case (Neg e)
  then obtain v where "evals K e v" by auto
  then show ?case by (intro exI[of _ "\<not> v"]) simp
next
  case (Both a b)
  then obtain v v' where "evals K a v" "evals K b v'" by fastforce
  then show ?case by (intro exI[of _ "v \<and> v'"]) auto
next
  case (Either a b)
  then obtain v v' where "evals K a v" "evals K b v'" by fastforce
  then show ?case by (intro exI[of _ "v \<or> v'"]) auto
next
  case (Ref x)
  then obtain v where "K x v" by auto
  then show ?case by (intro exI[of _ v]) simp
qed

lemma validated_expr:
  assumes "answers (\<lambda>x _. \<exists>v. K x v) I (validating f)" "I b" "validateIfFeatureExprSeen f expr b = (ok, b')"
  shows "I b' \<and> (ok \<longrightarrow> (\<exists>v. expr_value None K expr v) \<and> (\<forall>a ref. singleIfFeatureRefArg expr a = Some ref \<longrightarrow> (\<exists>v. K ref v)))"
proof -
  obtain w where w: "eval_tokens (validating f) expr b = ((w, ok), b')"
    using assms(3) by (auto simp: validateIfFeatureExprSeen_def split: prod.splits)
  note s = eval_tokens_sound[OF assms(1,2) w]
  show ?thesis
  proof (cases ok)
    case True
    then obtain ts e where e: "tokenizeIfFeatureExpr expr = Some ts" "or_expr ts e" "evals (\<lambda>x _. \<exists>v. K x v) e w"
      using s unfolding expr_value_None by blast
    then show ?thesis using s evals_exist[OF e(3)] single_reference[OF _ e(1,2)] unfolding expr_value_None by fastforce
  qed (use s in simp)
qed

lemma valid_all_sound:
  assumes "\<And>x b ok b'. I b \<Longrightarrow> ev x b = (ok, b') \<Longrightarrow> I b' \<and> (ok \<longrightarrow> E x)"
  shows "I b \<Longrightarrow> valid_all ev xs b = (ok, b') \<Longrightarrow> I b' \<and> (ok \<longrightarrow> (\<forall>x \<in> set xs. E x))"
proof (induction xs arbitrary: b)
  case (Cons x xs)
  obtain ok1 b1 where e: "ev x b = (ok1, b1)" by (metis prod.exhaust)
  with assms[OF Cons.prems(1) e] Cons show ?case by (auto split: if_splits)
qed simp

lemma all_value_exists: "(\<forall>x \<in> set xs. \<exists>v. E x v) \<Longrightarrow> \<exists>v. all_value E xs v"
proof (induction xs)
  case (Cons a xs)
  then obtain v w where "E a v" "all_value E xs w" by auto
  then show ?case by (cases v) auto
qed auto

lemma validated_feature:
  assumes "\<forall>expr \<in> set (ifFeatureArgs (fStmt f)).
    \<exists>v. expr_value (yang10SingleIfFeatureRef (cxModules cx ! k) expr (fRoot f)) (has_value cx k (fRoot f)) expr v"
  shows "\<exists>n v. feature_value n cx k f v"
proof -
  obtain v where "all_value (\<lambda>expr. expr_value (yang10SingleIfFeatureRef (cxModules cx ! k) expr (fRoot f)) (has_value cx k (fRoot f)) expr)
     (ifFeatureArgs (fStmt f)) v" using all_value_exists[OF assms] by (rule exE)
  from feature_value_limit[OF this] show ?thesis by blast
qed

definition valid_memo_ok :: "context_data \<Rightarrow> build_state \<Rightarrow> bool" where
  "valid_memo_ok cx b \<longleftrightarrow>
     (\<forall>k lname. known_valid k lname b \<longrightarrow>
        (\<exists>f n v. map_of (mdFeatures (cxModules cx ! k)) lname = Some f \<and> feature_value n cx k f v))"

lemma valid_memo_ok_note:
  "valid_memo_ok cx b \<Longrightarrow> map_of (mdFeatures (cxModules cx ! k)) lname = Some f \<Longrightarrow> feature_value n cx k f v \<Longrightarrow>
     valid_memo_ok cx (note_valid k lname b)"
  unfolding valid_memo_ok_def note_valid_def known_valid_def by (auto split: option.splits)

lemma target_value:
  "target cx k q from = Some (k', lname, f) \<Longrightarrow> feature_value n cx k' f v \<Longrightarrow> \<exists>w. has_value cx k from q w"
  by (cases "lname \<in> set (cxEnabled cx (mdName (cxModules cx ! k')))")
    (auto simp: ref_value_Suc intro!: exI[of _ "Suc n"])

lemma validateFeatureRefSeen_sound:
  "valid_memo_ok cx b \<Longrightarrow> validateFeatureRefSeen cx k from R q b = (ok, b') \<Longrightarrow>
     valid_memo_ok cx b' \<and> (ok \<longrightarrow> (\<exists>v. has_value cx k from q v))"
proof (induction cx k "from" R q b arbitrary: ok b' rule: validateFeatureRefSeen.induct)
  case (1 cx k "from" R q b)
  show ?case
  proof (cases "target cx k q from")
    case None
    then show ?thesis using 1(2,3) by (simp add: validateFeatureRefSeen.simps)
  next
    case (Some t)
    obtain k' lname f where t: "target cx k q from = Some (k', lname, f)" using Some by (metis prod.exhaust)
    note tf = target_feature[OF t]
    let ?F = "validateFeatureRefSeen cx k' (fRoot f) (insert (feature_key cx k' lname) R)"
    obtain ok1 b1 where w: "valid_all (validateIfFeatureExprSeen ?F) (ifFeatureArgs (fStmt f)) b = (ok1, b1)" by (metis prod.exhaust)
    have step: "validateFeatureRefSeen cx k from R q b =
        (if feature_key cx k' lname \<in> R then (False, b) else if known_valid k' lname b then (True, b)
         else (ok1, if ok1 then note_valid k' lname b1 else b1))"
      by (subst validateFeatureRefSeen.simps) (simp add: t Let_def w)
    consider "feature_key cx k' lname \<in> R" | "feature_key cx k' lname \<notin> R" "known_valid k' lname b"
      | "feature_key cx k' lname \<notin> R" "\<not> known_valid k' lname b" by blast
    then show ?thesis
    proof cases
      case 1
      then show ?thesis using "1.prems" step by auto
    next
      case 2
      then show ?thesis using "1.prems" step t tf target_value unfolding valid_memo_ok_def by fastforce
    next
      case 3
      have ans: "answers (\<lambda>x _. \<exists>v. has_value cx k' (fRoot f) x v) (valid_memo_ok cx) (validating ?F)"
        using "1.IH"[OF t refl refl refl 3] unfolding answers_def validating_def by (fastforce split: prod.splits)
      have "valid_memo_ok cx b1 \<and> (ok1 \<longrightarrow> (\<forall>expr \<in> set (ifFeatureArgs (fStmt f)).
          \<exists>v. expr_value (yang10SingleIfFeatureRef (cxModules cx ! k') expr (fRoot f)) (has_value cx k' (fRoot f)) expr v))"
      proof (rule valid_all_sound[where I = "valid_memo_ok cx" and ev = "validateIfFeatureExprSeen ?F" and b = b])
        fix x b ok b'
        assume "valid_memo_ok cx b" "validateIfFeatureExprSeen ?F x b = (ok, b')"
        note r = validated_expr[OF ans this]
        let ?single = "yang10SingleIfFeatureRef (cxModules cx ! k') x (fRoot f)"
        show "valid_memo_ok cx b' \<and> (ok \<longrightarrow> (\<exists>v. expr_value ?single (has_value cx k' (fRoot f)) x v))"
        proof (cases ?single)
          case None
          then show ?thesis using r by simp
        next
          case (Some ref)
          then have "singleIfFeatureRefArg x False = Some ref" by (auto simp: yang10SingleIfFeatureRef_def split: if_splits)
          then show ?thesis using r unfolding Some expr_value_Some by blast
        qed
      qed (rule "1.prems"(1), rule w)
      then have r1: "valid_memo_ok cx b1" and r2: "ok1 \<Longrightarrow> \<forall>expr \<in> set (ifFeatureArgs (fStmt f)).
          \<exists>v. expr_value (yang10SingleIfFeatureRef (cxModules cx ! k') expr (fRoot f)) (has_value cx k' (fRoot f)) expr v"
        by blast+
      note r = r1 validated_feature[OF r2]
      have res: "ok = ok1" "b' = (if ok1 then note_valid k' lname b1 else b1)" using "1.prems"(2) 3 step by (auto split: if_splits)
      show ?thesis
      proof (cases ok1)
        case True
        then obtain n v where fv: "feature_value n cx k' f v" using r(2) by blast
        have "valid_memo_ok cx b'" using valid_memo_ok_note[OF r(1) _ fv] tf True res by simp
        with target_value[OF t fv] show ?thesis by blast
      qed (use r res in simp)
    qed
  qed
qed

end
