(* ===== verification/Feature_Text.thy ===== *)
theory Feature_Text
  imports Feature_Validity
begin

text \<open>
  The text of an if-feature tree with the fewest parentheses, and the proof that the tokeniser and
  the evaluator read it back: they give the value of the tree.
\<close>

fun token_text :: "if_token \<Rightarrow> string" where
  "token_text (TIdent x) = x"
| "token_text TNot = ''not''"
| "token_text TAnd = ''and''"
| "token_text TOr = ''or''"
| "token_text TLParen = ''(''"
| "token_text TRParen = '')''"

fun tokens_text :: "if_token list \<Rightarrow> string" where
  "tokens_text [] = []"
| "tokens_text [t] = token_text t"
| "tokens_text (t # ts) = token_text t @ CHR '' '' # tokens_text ts"

definition in_parens :: "bool \<Rightarrow> if_token list \<Rightarrow> if_token list" where
  "in_parens p s = (if p then TLParen # s @ [TRParen] else s)"

text \<open>Precedence \<open>0\<close> is that of a disjunction, \<open>1\<close> of a conjunction and \<open>2\<close> of a negation.\<close>
fun expr_tokens :: "nat \<Rightarrow> feature_expr \<Rightarrow> if_token list" where
  "expr_tokens p (Ref x) = [TIdent x]"
| "expr_tokens p (Neg e) = TNot # expr_tokens 2 e"
| "expr_tokens p (Both a b) = in_parens (1 < p) (expr_tokens 1 a @ TAnd # expr_tokens 2 b)"
| "expr_tokens p (Either a b) = in_parens (0 < p) (expr_tokens 0 a @ TOr # expr_tokens 1 b)"

definition expr_text :: "feature_expr \<Rightarrow> string" where
  "expr_text e = tokens_text (expr_tokens 0 e)"

primrec expr_refs :: "feature_expr \<Rightarrow> string set" where
  "expr_refs (Ref x) = {x}"
| "expr_refs (Neg e) = expr_refs e"
| "expr_refs (Both a b) = expr_refs a \<union> expr_refs b"
| "expr_refs (Either a b) = expr_refs a \<union> expr_refs b"

text \<open>The names that stand for a feature in an expression.\<close>
definition plain_ref :: "string \<Rightarrow> bool" where
  "plain_ref x \<longleftrightarrow> validIfFeatureRef x \<and> x \<notin> {''not'', ''and'', ''or''}"

subsection \<open>The tokens of a tree are in the grammar\<close>

lemma parens_all:
  assumes "or_expr s e"
  shows "not_expr (in_parens True s) e" "and_expr (in_parens True s) e" "or_expr (in_parens True s) e"
  using assms by (auto simp: in_parens_def intro: or_expr_and_expr_not_expr_primary.intros)

lemma expr_tokens_grammar:
  "or_expr (expr_tokens 0 e) e \<and> and_expr (expr_tokens 1 e) e \<and> not_expr (expr_tokens 2 e) e"
proof (induction e)
  case (Ref x)
  then show ?case by (simp add: or_one and_one not_none reference)
next
  case (Neg e)
  then have "not_expr (TNot # expr_tokens 2 e) (Neg e)" by (blast intro: not_one)
  then show ?case by (simp add: or_one and_one)
next
  case (Both a b)
  then have c: "and_expr (expr_tokens 1 a @ TAnd # expr_tokens 2 b) (Both a b)" by (blast intro: and_more)
  then show ?case using parens_all(1)[OF or_one[OF c]] by (simp add: in_parens_def or_one)
next
  case (Either a b)
  then have c: "or_expr (expr_tokens 0 a @ TOr # expr_tokens 1 b) (Either a b)" by (blast intro: or_more)
  then show ?case using parens_all[OF c] by (simp add: in_parens_def)
qed

lemma expr_tokens_refs:
  "TIdent x \<in> set (expr_tokens p e) \<Longrightarrow> x \<in> expr_refs e"
  by (induction p e rule: expr_tokens.induct) (auto simp: in_parens_def split: if_splits)

subsection \<open>The text of tokens is read back\<close>

lemma plain_ref_chars:
  assumes "validIfFeatureRef x"
  shows "x \<noteq> []" "\<forall>c \<in> set x. \<not> isIfFeatureExprSeparator c"
proof -
  show "x \<noteq> []" using assms by (auto simp: validIfFeatureRef_def)
  have r: "\<forall>part \<in> set (split_on '':'' x). \<forall>c \<in> set part. ref_char c"
    using assms by (simp add: validIfFeatureRef_def list_all_iff split: if_splits)
  have "c = CHR '':'' \<or> ref_char c" if m: "c \<in> set x" for c
  proof -
    have "set x \<subseteq> insert (CHR '':'') (\<Union> (set ` set (split_on '':'' x)))"
      using split_from_chars[of x "CHR '':''" "[]"] unfolding split_on_def by (rule conjunct1)
    then consider "c = CHR '':''" | part where "part \<in> set (split_on '':'' x)" "c \<in> set part" using m by auto
    then show ?thesis using r by cases simp_all
  qed
  then have "\<forall>c \<in> set x. c = CHR '':'' \<or> ref_char c" by simp
  moreover have "ref_char c \<Longrightarrow> \<not> isIfFeatureExprSeparator c" for c
    by (auto simp: ref_char_def isIfFeatureExprSeparator_def isYANGSpace_def ascii_lower_def ascii_upper_def is_digit_def)
  moreover have "\<not> isIfFeatureExprSeparator CHR '':''" by (simp add: isIfFeatureExprSeparator_def isYANGSpace_def)
  ultimately show "\<forall>c \<in> set x. \<not> isIfFeatureExprSeparator c" by metis
qed

definition readable :: "if_token \<Rightarrow> bool" where
  "readable t \<longleftrightarrow> (\<forall>x. t = TIdent x \<longrightarrow> plain_ref x)"

lemma word_read:
  assumes "\<forall>c \<in> set w. \<not> isIfFeatureExprSeparator c" "w \<noteq> []" "word_token w = Some t"
    "rest = [] \<or> isIfFeatureExprSeparator (hd rest)"
  shows "tokenize (w @ rest) acc = tokenize rest (acc @ [t])"
proof -
  obtain c v where c: "w = c # v" using assms(2) by (cases w) auto
  have "takeWhile (\<lambda>c. \<not> isIfFeatureExprSeparator c) (w @ rest) = w"
    "dropWhile (\<lambda>c. \<not> isIfFeatureExprSeparator c) (w @ rest) = rest"
    using assms(1,4) by (cases rest; simp add: takeWhile_append dropWhile_append takeWhile_eq_all_conv)+
  moreover have "\<not> isYANGSpace c" "c \<noteq> CHR ''(''" "c \<noteq> CHR '')''"
    using assms(1) c by (auto simp: isIfFeatureExprSeparator_def)
  ultimately show ?thesis using assms(3) c by (subst tokenize.simps) simp
qed

lemma token_read:
  assumes "readable t" "rest = [] \<or> hd rest = CHR '' ''"
  shows "tokenize (token_text t @ rest) acc = tokenize rest (acc @ [t])"
proof -
  have sep: "rest = [] \<or> isIfFeatureExprSeparator (hd rest)"
    using assms(2) by (auto simp: isIfFeatureExprSeparator_def isYANGSpace_def)
  have kw: "\<forall>c \<in> set w. \<not> isIfFeatureExprSeparator c" if "w \<in> {''not'', ''and'', ''or''}" for w
    using that by (auto simp: isIfFeatureExprSeparator_def isYANGSpace_def)
  show ?thesis
  proof (cases t)
    case (TIdent x)
    then have p: "plain_ref x" using assms(1) by (simp add: readable_def)
    then have "word_token x = Some t" using TIdent by (auto simp: plain_ref_def word_token_def)
    with p show ?thesis using word_read[OF plain_ref_chars(2,1) _ sep] TIdent by (simp add: plain_ref_def)
  next
    case TLParen
    then show ?thesis by (subst tokenize.simps) (simp add: isYANGSpace_def)
  next
    case TRParen
    then show ?thesis by (subst tokenize.simps) (simp add: isYANGSpace_def)
  qed (use word_read[OF kw _ _ sep, of "token_text t" t acc] in \<open>simp_all add: word_token_def\<close>)
qed

lemma tokens_read:
  "\<forall>t \<in> set ts. readable t \<Longrightarrow> tokenize (tokens_text ts) acc = Some (acc @ ts)"
proof (induction ts arbitrary: acc rule: tokens_text.induct)
  case 1
  then show ?case by (simp add: tokenize.simps)
next
  case (2 t)
  then show ?case using token_read[of t "[]" acc] by (simp add: tokenize.simps)
next
  case (3 t u ts)
  have "tokenize (CHR '' '' # s) a = tokenize s a" for s a by (subst tokenize.simps) (simp add: isYANGSpace_def)
  then show ?case using 3 token_read[of t "CHR '' '' # tokens_text (u # ts)" acc] by simp
qed

lemma token_text_ends:
  assumes "readable t"
  shows "token_text t \<noteq> [] \<and> \<not> isYANGSpace (hd (token_text t)) \<and> \<not> isYANGSpace (last (token_text t))"
proof (cases t)
  case (TIdent x)
  then have "x \<noteq> []" "\<forall>c \<in> set x. \<not> isYANGSpace c"
    using assms plain_ref_chars by (auto simp: readable_def plain_ref_def isIfFeatureExprSeparator_def)
  then show ?thesis using TIdent by simp
qed (simp_all add: isYANGSpace_def)

lemma tokens_text_ends:
  "ts \<noteq> [] \<Longrightarrow> \<forall>t \<in> set ts. readable t \<Longrightarrow>
     tokens_text ts \<noteq> [] \<and> \<not> isYANGSpace (hd (tokens_text ts)) \<and> \<not> isYANGSpace (last (tokens_text ts))"
  by (induction ts rule: tokens_text.induct) (auto dest: token_text_ends)

lemma dropWhile_nothing: "\<not> P (hd s) \<Longrightarrow> dropWhile P s = s"
  by (cases s) simp_all

lemma trim_nothing: "s \<noteq> [] \<Longrightarrow> \<not> isYANGSpace (hd s) \<Longrightarrow> \<not> isYANGSpace (last s) \<Longrightarrow> yangTrimSpace s = s"
  by (simp add: yangTrimSpace_def dropWhile_nothing hd_rev)

lemma tokenize_text:
  assumes "ts \<noteq> []" "\<forall>t \<in> set ts. readable t"
  shows "tokenizeIfFeatureExpr (tokens_text ts) = Some ts"
  using tokens_text_ends[OF assms] trim_nothing tokens_read[OF assms(2), of "[]"] assms(1)
  by (simp add: tokenizeIfFeatureExpr_def Let_def)

lemma expr_text_read:
  assumes "\<forall>x \<in> expr_refs e. plain_ref x"
  shows "\<exists>ts. tokenizeIfFeatureExpr (expr_text e) = Some ts \<and> or_expr ts e"
proof -
  have g: "or_expr (expr_tokens 0 e) e" using expr_tokens_grammar by blast
  moreover have "\<forall>t \<in> set (expr_tokens 0 e). readable t"
    using assms expr_tokens_refs by (auto simp: readable_def)
  ultimately show ?thesis using tokenize_text grammar_heads(1) unfolding expr_text_def by blast
qed

text \<open>The truth value of a tree.\<close>
primrec truth :: "(string \<Rightarrow> bool) \<Rightarrow> feature_expr \<Rightarrow> bool" where
  "truth V (Ref x) = V x"
| "truth V (Neg e) = (\<not> truth V e)"
| "truth V (Both a b) = (truth V a \<and> truth V b)"
| "truth V (Either a b) = (truth V a \<or> truth V b)"

lemma evals_truth: "\<forall>x \<in> expr_refs e. K x (V x) \<Longrightarrow> evals K e (truth V e)"
  by (induction e) auto

end
