(* ===== verification/Feature_Properties.thy ===== *)
theory Feature_Properties
  imports Feature_Text
begin

text \<open>
  The properties of if-feature expressions and of features: what the evaluator computes, what the
  walks over features find, and how validation and evaluation agree.  The concrete context of the
  witnesses is one module of four features.
\<close>

subsection \<open>A concrete context\<close>

definition leaf_statement :: "string \<Rightarrow> string \<Rightarrow> statement" where
  "leaf_statement keyword arg = Statement keyword (Some arg) [] [] 1 1"

definition feature_statement :: "string \<Rightarrow> string list \<Rightarrow> statement" where
  "feature_statement name exprs = Statement ''feature'' (Some name) (map (leaf_statement ''if-feature'') exprs) [] 1 1"

text \<open>A module whose version is given: \<open>a\<close> needs \<open>b\<close> without \<open>c\<close>, \<open>b\<close> and \<open>c\<close> need nothing, and \<open>d\<close> needs \<open>not\<close>.\<close>
definition example_module :: "string \<Rightarrow> module_data" where
  "example_module version =
     \<lparr>mdName = ''m'', mdPrefix = ''p'',
      mdStmt = Statement ''module'' (Some ''m'') [leaf_statement ''yang-version'' version, leaf_statement ''prefix'' ''p''] [] 1 1,
      mdSubs = [], mdImportByPfx = Map.empty, mdSourceImports = Map.empty,
      mdFeatures = map (\<lambda>(x, es). (x, \<lparr>fRoot = InRoot 0, fStmt = feature_statement x es\<rparr>))
        [(''a'', [''b and not p:c'']), (''b'', []), (''c'', []), (''d'', [''not'']), (''not'', [])]\<rparr>"

definition example_context :: "string \<Rightarrow> string list \<Rightarrow> context_data" where
  "example_context version enabled =
     \<lparr>cxModules = [example_module version], cxEnabled = (\<lambda>name. if name = ''m'' then enabled else [])\<rparr>"

definition fresh_build :: build_state where
  "fresh_build = \<lparr>bValid = Some {}, bEnabled = Some Map.empty\<rparr>"

lemma fresh_build_ok: "memo_ok cx fresh_build" "valid_memo_ok cx fresh_build"
  by (simp_all add: fresh_build_def memo_ok_def valid_memo_ok_def known_enabled_def known_valid_def)

subsection \<open>The evaluator\<close>

text \<open>
  C22: Every tree of \<open>not\<close>, \<open>and\<close> and \<open>or\<close> over feature references, written with the fewest
  parentheses, is read back by the tokeniser and evaluated to its truth value: the three levels of
  precedence and the two associations are right.
\<close>
theorem expression_text_evaluated:
  assumes "\<forall>x \<in> expr_refs e. plain_ref x" "\<forall>x \<in> expr_refs e. \<forall>m. f x m = ((V x, True), m)"
  shows "eval_tokens f (expr_text e) b = ((truth V e, True), b)"
proof -
  obtain ts where ts: "tokenizeIfFeatureExpr (expr_text e) = Some ts" "or_expr ts e" using expr_text_read[OF assms(1)] by blast
  have "answers_all (\<lambda>x v. x \<in> expr_refs e \<and> v = V x) (\<lambda>m. m = b) f"
    using assms(2) by (auto simp: answers_all_def)
  from if_parse_complete[OF this ts(2) evals_truth[of e _ V]] show ?thesis
    using ts(1) by (auto simp: eval_tokens_def)
qed

theorem expression_text_evaluated_witness:
  "expr_text (Either (Ref ''x'') (Both (Neg (Ref ''p:y'')) (Either (Ref ''z'') (Ref ''x'')))) = ''x or not p:y and ( z or x )'' \<and>
   eval_tokens (\<lambda>x m. ((x = ''z'', True), m)) ''x or not p:y and ( z or x )'' () = ((True, True), ())"
proof -
  let ?e = "Either (Ref ''x'') (Both (Neg (Ref ''p:y'')) (Either (Ref ''z'') (Ref ''x'')))"
  have t: "expr_text ?e = ''x or not p:y and ( z or x )''" by code_simp
  have "\<forall>x \<in> expr_refs ?e. plain_ref x" by code_simp
  from expression_text_evaluated[OF this, of "\<lambda>x m. ((x = ''z'', True), m)" "\<lambda>x. x = ''z''" "()"] show ?thesis
    using t by simp
qed

subsection \<open>The walk over features\<close>

text \<open>
  C23: What the walk over features finds is the value that is derived in finitely many steps, in every context,
  whatever its memo tables hold and wherever it starts, and the tables stay correct.  If no feature is
  defined by two revisions of a module, the walk finds every value that can be derived: remembering known
  results and refusing features that are being resolved lose nothing, and a cycle is unknown.
\<close>
theorem feature_walk_exact:
  assumes "memo_ok cx b" "featureEnabledSeen cx k from {} q b = ((v, known), b')"
  shows "memo_ok cx b' \<and> (known \<longrightarrow> has_value cx k from q v) \<and>
    (one_revision cx \<longrightarrow> known = (\<exists>w. has_value cx k from q w))"
  using featureEnabledSeen_sound[OF assms] featureEnabledSeen_finds[of cx, OF _ assms(1), of k "from" q] assms(2) by fastforce

lemma example_one_revision: "one_revision (example_context version enabled)"
  by (rule distinct_one_revision) (simp add: example_context_def)

theorem feature_walk_exact_witness:
  "fst (featureEnabledSeen (example_context ''1.1'' [''a'', ''b'']) 0 (InRoot 0) {} ''p:a'' fresh_build) = (True, True) \<and>
   has_value (example_context ''1.1'' [''a'', ''b'']) 0 (InRoot 0) ''p:a'' True"
proof -
  have w: "fst (featureEnabledSeen (example_context ''1.1'' [''a'', ''b'']) 0 (InRoot 0) {} ''p:a'' fresh_build) = (True, True)"
    by code_simp
  obtain r where r: "featureEnabledSeen (example_context ''1.1'' [''a'', ''b'']) 0 (InRoot 0) {} ''p:a'' fresh_build = ((True, True), r)"
    using w by (metis prod.exhaust_sel)
  from feature_walk_exact[OF fresh_build_ok(1) r] w show ?thesis by simp
qed

subsection \<open>Two revisions\<close>

text \<open>
  Feature \<open>f\<close> of one revision of \<open>m\<close> needs \<open>g\<close> of \<open>x\<close>, which needs \<open>f\<close> of another revision of \<open>m\<close>: the value is
  derived, but a fresh walk takes the second \<open>f\<close> for the first and finds none; once \<open>g\<close> is known, it does.
\<close>
definition revision_module :: "string \<Rightarrow> (string \<rightharpoonup> nat) \<Rightarrow> string \<Rightarrow> string list \<Rightarrow> module_data" where
  "revision_module name imports feat exprs =
     \<lparr>mdName = name, mdPrefix = name,
      mdStmt = Statement ''module'' (Some name) [leaf_statement ''yang-version'' ''1.1'', leaf_statement ''prefix'' name] [] 1 1,
      mdSubs = [], mdImportByPfx = imports, mdSourceImports = Map.empty,
      mdFeatures = [(feat, \<lparr>fRoot = InRoot 0, fStmt = feature_statement feat exprs\<rparr>)]\<rparr>"

definition revision_context :: context_data where
  "revision_context =
     \<lparr>cxModules = [revision_module ''m'' [''x'' \<mapsto> 1] ''f'' [''x:g''], revision_module ''x'' [''m'' \<mapsto> 2] ''g'' [''m:f''],
         revision_module ''m'' Map.empty ''f'' []],
      cxEnabled = (\<lambda>name. if name = ''m'' then [''f''] else [''g''])\<rparr>"

lemma two_revisions_unknown:
  "fst (featureEnabledSeen revision_context 0 (InRoot 0) {} ''f'' fresh_build) = (False, False) \<and>
   has_value revision_context 0 (InRoot 0) ''f'' True"
proof -
  let ?b = "snd (featureEnabledSeen revision_context 1 (InRoot 0) {} ''g'' fresh_build)"
  have f: "fst (featureEnabledSeen revision_context 0 (InRoot 0) {} ''f'' fresh_build) = (False, False)" by code_simp
  have "fst (featureEnabledSeen revision_context 0 (InRoot 0) {} ''f'' ?b) = (True, True)" by code_simp
  then obtain b' where b': "featureEnabledSeen revision_context 0 (InRoot 0) {} ''f'' ?b = ((True, True), b')"
    by (metis prod.exhaust_sel)
  obtain r g where "featureEnabledSeen revision_context 1 (InRoot 0) {} ''g'' fresh_build = ((r, g), ?b)" by (metis prod.exhaust_sel)
  from featureEnabledSeen_sound[OF fresh_build_ok(1) this] have "memo_ok revision_context ?b" by blast
  from featureEnabledSeen_sound[OF this b'] f show ?thesis by blast
qed

subsection \<open>Inclusion\<close>

lemma not_fst: "\<not> fst p \<Longrightarrow> \<exists>b. p = (False, b)"
  by (cases p) simp

abbreviation derived_true :: "context_data \<Rightarrow> nat \<Rightarrow> site \<Rightarrow> string \<Rightarrow> bool" where
  "derived_true cx k from expr \<equiv> expr_value (yang10SingleIfFeatureRef (cxModules cx ! k) expr from) (has_value cx k from) expr True"

lemma all_value_True: "all_value E exprs True \<longleftrightarrow> (\<forall>x \<in> set exprs. E x True)"
  by (induction exprs) auto

lemma exprs_exact:
  assumes "memo_ok cx b" "eval_all (\<lambda>expr. evalIfFeatureExprFrom cx k expr from) exprs b = ((v, ok), b1)"
  shows "memo_ok cx b1 \<and> (ok \<and> v \<longrightarrow> (\<forall>expr \<in> set exprs. derived_true cx k from expr)) \<and>
    (one_revision cx \<longrightarrow> (\<forall>expr \<in> set exprs. derived_true cx k from expr) \<longrightarrow> ok \<and> v)"
proof -
  let ?F = "featureEnabledSeen cx k from {}" and ?sg = "\<lambda>expr. yang10SingleIfFeatureRef (cxModules cx ! k) expr from"
  have s: "answers (has_value cx k from) (memo_ok cx) ?F"
    using featureEnabledSeen_sound unfolding answers_def by blast
  have e: "eval_all (\<lambda>expr. eval_expr (?sg expr) ?F expr) exprs b = ((v, ok), b1)"
    using assms(2) by (simp add: evalIfFeatureExprFrom_def[abs_def])
  let ?A = "all_value (\<lambda>expr. expr_value (?sg expr) (has_value cx k from) expr) exprs"
  note sound = exprs_sound[OF s assms(1) e]
  have "ok \<and> v" if one: "one_revision cx" and all: "?A True"
  proof -
    obtain b' where "eval_all (\<lambda>expr. eval_expr (?sg expr) ?F expr) exprs b = ((True, True), b')"
      using exprs_complete[OF featureEnabledSeen_answers[OF one] assms(1) all] by (elim exE conjE)
    with e show ?thesis by simp
  qed
  moreover have "?A True" if "ok \<and> v"
  proof -
    have "v = True" using that by simp
    with conjunct1[OF conjunct2[OF sound]] that show ?thesis by simp
  qed
  ultimately show ?thesis using conjunct1[OF sound] unfolding all_value_True by blast
qed

text \<open>
  C24: A statement is included only if every if-feature below it has the derived value true, in every context
  (all statements are, when the policy retains everything), and the memo tables stay correct; if no
  feature is defined by two revisions of a module, it is included exactly then.
\<close>
theorem inclusion_exact:
  assumes "memo_ok cx b" "featureIncluded retain cx k st from b = (included, b')"
  shows "memo_ok cx b' \<and> (included \<longrightarrow> retain \<or> (\<forall>expr \<in> set (ifFeatureArgs st). derived_true cx k from expr)) \<and>
    (one_revision cx \<longrightarrow> included = (retain \<or> (\<forall>expr \<in> set (ifFeatureArgs st). derived_true cx k from expr)))"
proof (cases retain)
  case True
  then show ?thesis using assms by (simp add: featureIncluded_def)
next
  case False
  obtain v ok b1 where r: "eval_all (\<lambda>expr. evalIfFeatureExprFrom cx k expr from) (ifFeatureArgs st) b = ((v, ok), b1)"
    by (metis prod.exhaust)
  have i: "included = (ok \<and> v)" "b' = b1" using False assms(2) r by (auto simp: featureIncluded_def)
  show ?thesis using exprs_exact[OF assms(1) r] False unfolding i by blast
qed

theorem inclusion_exact_witness:
  "\<not> fst (featureIncluded False (example_context ''1.1'' [''a'', ''b'', ''c'']) 0 (feature_statement ''x'' [''b'', ''a or c and not b'']) (InRoot 0) fresh_build) \<and>
   \<not> (\<forall>expr \<in> {''b'', ''a or c and not b''}. derived_true (example_context ''1.1'' [''a'', ''b'', ''c'']) 0 (InRoot 0) expr)"
proof -
  let ?cx = "example_context ''1.1'' [''a'', ''b'', ''c'']" and ?st = "feature_statement ''x'' [''b'', ''a or c and not b'']"
  have w: "\<not> fst (featureIncluded False ?cx 0 ?st (InRoot 0) fresh_build)" by code_simp
  obtain b' where b': "featureIncluded False ?cx 0 ?st (InRoot 0) fresh_build = (False, b')" using not_fst[OF w] by (elim exE)
  have a: "ifFeatureArgs ?st = [''b'', ''a or c and not b'']" by code_simp
  from inclusion_exact[OF fresh_build_ok(1) b'] example_one_revision
  have "\<not> (\<forall>expr \<in> set (ifFeatureArgs ?st). derived_true ?cx 0 (InRoot 0) expr)" by blast
  then show ?thesis using w unfolding a by simp
qed

subsection \<open>Validation\<close>

text \<open>
  C25: An if-feature expression that validation accepts has a derived value, in every context.  If no feature is
  defined by two revisions of a module, evaluating it from the same statement gives that value whatever
  the memo tables hold, so a validated schema never drops a statement because an if-feature could not be
  evaluated.
\<close>
theorem validated_is_known:
  assumes "valid_memo_ok cx b" "memo_ok cx b1" "fst (validateIfFeatureExprFrom cx k expr from b)"
  shows "\<exists>v. expr_value (yang10SingleIfFeatureRef (cxModules cx ! k) expr from) (has_value cx k from) expr v \<and>
    (one_revision cx \<longrightarrow> (\<exists>b2. evalIfFeatureExprFrom cx k expr from b1 = ((v, True), b2)))"
proof -
  let ?sg = "yang10SingleIfFeatureRef (cxModules cx ! k) expr from"
  obtain b' where b': "validateIfFeatureExprFrom cx k expr from b = (True, b')" using assms(3) by (metis fst_conv prod.exhaust)
  have "\<exists>v. expr_value ?sg (has_value cx k from) expr v"
  proof (cases ?sg)
    case None
    have "answers (\<lambda>x _. \<exists>v. has_value cx k from x v) (valid_memo_ok cx) (validating (validateFeatureRefSeen cx k from {}))"
      using validateFeatureRefSeen_sound unfolding answers_def validating_def by (fastforce split: prod.splits)
    from validated_expr[OF this assms(1)] show ?thesis
      using b' unfolding validateIfFeatureExprFrom_def None by auto
  next
    case (Some ref)
    then have "validateFeatureRefSeen cx k from {} ref b = (True, b')" using b' by (simp add: validateIfFeatureExprFrom_def)
    from validateFeatureRefSeen_sound[OF assms(1) this] show ?thesis unfolding Some expr_value_Some by blast
  qed
  then obtain v where v: "expr_value ?sg (has_value cx k from) expr v" by (rule exE)
  have "\<exists>b2. evalIfFeatureExprFrom cx k expr from b1 = ((v, True), b2)" if "one_revision cx"
    using eval_expr_complete[OF featureEnabledSeen_answers[OF that] assms(2) v] unfolding evalIfFeatureExprFrom_def by blast
  with v show ?thesis by blast
qed

theorem validated_is_known_witness:
  "fst (validateIfFeatureExprFrom (example_context ''1.1'' [''a'']) 0 ''p:a or not ( b and c )'' (InRoot 0) fresh_build) \<and>
   (\<exists>v b2. evalIfFeatureExprFrom (example_context ''1.1'' [''a'']) 0 ''p:a or not ( b and c )'' (InRoot 0) fresh_build = ((v, True), b2))"
proof -
  let ?cx = "example_context ''1.1'' [''a'']"
  have w: "fst (validateIfFeatureExprFrom ?cx 0 ''p:a or not ( b and c )'' (InRoot 0) fresh_build)" by code_simp
  from validated_is_known[OF fresh_build_ok(2,1) w] example_one_revision w show ?thesis by blast
qed

subsection \<open>Features named like operators\<close>

lemma keyword_refused:
  assumes "yangTrimSpace expr \<in> {''not'', ''and'', ''or''}"
  shows "validateIfFeatureExprSeen f expr b = (False, b)"
proof -
  have "tokenizeIfFeatureExpr ''not'' = Some [TNot]" "tokenizeIfFeatureExpr ''and'' = Some [TAnd]" "tokenizeIfFeatureExpr ''or'' = Some [TOr]"
    by code_simp+
  moreover have "yangTrimSpace (yangTrimSpace s) = yangTrimSpace s" if "yangTrimSpace s \<in> {''not'', ''and'', ''or''}" for s
  proof -
    have "yangTrimSpace ''not'' = ''not''" "yangTrimSpace ''and'' = ''and''" "yangTrimSpace ''or'' = ''or''" by code_simp+
    then show ?thesis using that by auto
  qed
  then have "tokenizeIfFeatureExpr expr = tokenizeIfFeatureExpr (yangTrimSpace expr)"
    using assms by (simp add: tokenizeIfFeatureExpr_def Let_def)
  ultimately show ?thesis
    using assms by (auto simp: validateIfFeatureExprSeen_def eval_tokens_def if_parse.simps)
qed

lemma refused_one: "expr \<in> set xs \<Longrightarrow> (\<And>b. \<not> fst (ev expr b)) \<Longrightarrow> \<not> fst (valid_all ev xs b)"
proof (induction xs arbitrary: b)
  case (Cons x xs)
  obtain ok b1 where "ev x b = (ok, b1)" by (metis prod.exhaust)
  then show ?case using Cons by (cases ok) (auto, metis fst_conv)
qed simp

text \<open>
  C26: In a module of YANG version 1 the whole argument of an if-feature names a feature, which may be called
  \<open>not\<close>, \<open>and\<close> or \<open>or\<close>; validation of a statement takes it so.  But it reads the if-features of a feature by the
  expression grammar of version 1.1: a reference to a feature with such an argument is refused, from every
  statement and in every context, unless the memo table already holds it, although it has a derived value
  whenever its arguments have.
\<close>
theorem keyword_feature_chain_rejected:
  assumes "target cx k q from = Some (k', x, f)" "expr \<in> set (ifFeatureArgs (fStmt f))" "yangTrimSpace expr \<in> {''not'', ''and'', ''or''}"
    "fRoot f \<noteq> NoSite" "yangVersionForStatement (cxModules cx ! k') (fRoot f) \<noteq> ''1.1''"
    "list_all (\<lambda>e. \<exists>v. expr_value (yang10SingleIfFeatureRef (cxModules cx ! k') e (fRoot f)) (has_value cx k' (fRoot f)) e v)
       (ifFeatureArgs (fStmt f))"
    "\<not> known_valid k' x b"
  shows "validateIfFeatureExprFrom cx k' expr (fRoot f) b = validateFeatureRefSeen cx k' (fRoot f) {} (yangTrimSpace expr) b \<and>
    \<not> fst (validateFeatureRefSeen cx k from R q b) \<and> (\<exists>v. has_value cx k from q v)"
proof -
  have "validYangIdentifierRef (yangTrimSpace expr) False"
  proof -
    have "validYangIdentifierRef ''not'' False" "validYangIdentifierRef ''and'' False" "validYangIdentifierRef ''or'' False" by code_simp+
    then show ?thesis using assms(3) by auto
  qed
  then have "yang10SingleIfFeatureRef (cxModules cx ! k') expr (fRoot f) = Some (yangTrimSpace expr)"
    using assms(4,5) by (simp add: yang10SingleIfFeatureRef_def singleIfFeatureRefArg_def Let_def)
  then have "validateIfFeatureExprFrom cx k' expr (fRoot f) b = validateFeatureRefSeen cx k' (fRoot f) {} (yangTrimSpace expr) b"
    by (simp add: validateIfFeatureExprFrom_def)
  moreover have "\<not> fst (validateFeatureRefSeen cx k from R q b)"
  proof -
    have "\<not> fst (valid_all (validateIfFeatureExprSeen (validateFeatureRefSeen cx k' (fRoot f) (insert (feature_key cx k' x) R)))
        (ifFeatureArgs (fStmt f)) b)"
      by (rule refused_one[OF assms(2)]) (simp add: keyword_refused[OF assms(3)])
    then show ?thesis using assms(1,7) by (subst validateFeatureRefSeen.simps) (auto simp: Let_def split: prod.splits)
  qed
  moreover have "\<exists>v. has_value cx k from q v"
    using validated_feature[of f cx k'] target_value[OF assms(1)] assms(6) unfolding list_all_iff by blast
  ultimately show ?thesis by blast
qed

theorem keyword_feature_chain_rejected_witness:
  "fst (validateIfFeatureExprFrom (example_context ''1'' [''d'', ''not'']) 0 ''not'' (InRoot 0) fresh_build) \<and>
   \<not> fst (validateFeatureRefSeen (example_context ''1'' [''d'', ''not'']) 0 (InRoot 0) {} ''d'' fresh_build)"
proof -
  let ?cx = "example_context ''1'' [''d'', ''not'']" and ?f = "\<lparr>fRoot = InRoot 0, fStmt = feature_statement ''d'' [''not'']\<rparr>"
  have v: "fst (validateIfFeatureExprFrom ?cx 0 ''not'' (InRoot 0) fresh_build)" by code_simp
  have t: "target ?cx 0 ''d'' (InRoot 0) = Some (0, ''d'', ?f)" by code_simp
  have a: "ifFeatureArgs (fStmt ?f) = [''not'']" by code_simp
  have k: "yangTrimSpace ''not'' \<in> {''not'', ''and'', ''or''}" "yangVersionForStatement (cxModules ?cx ! 0) (fRoot ?f) \<noteq> ''1.1''"
      "\<not> known_valid 0 ''d'' fresh_build" by code_simp+
  have sg: "yang10SingleIfFeatureRef (cxModules ?cx ! 0) ''not'' (InRoot 0) = Some ''not''" by code_simp
  have "fst (featureEnabledSeen ?cx 0 (InRoot 0) {} ''not'' fresh_build) = (True, True)" by code_simp
  then obtain b' where "featureEnabledSeen ?cx 0 (InRoot 0) {} ''not'' fresh_build = ((True, True), b')" by (metis prod.exhaust_sel)
  from featureEnabledSeen_sound[OF fresh_build_ok(1) this] have "has_value ?cx 0 (InRoot 0) ''not'' True" by blast
  then have "expr_value (Some ''not'') (has_value ?cx 0 (InRoot 0)) ''not'' True" unfolding expr_value_Some .
  then have l: "list_all (\<lambda>e. \<exists>v. expr_value (yang10SingleIfFeatureRef (cxModules ?cx ! 0) e (fRoot ?f)) (has_value ?cx 0 (fRoot ?f)) e v)
      (ifFeatureArgs (fStmt ?f))"
    unfolding a using sg by auto
  have m: "''not'' \<in> set (ifFeatureArgs (fStmt ?f))" unfolding a by simp
  have n: "fRoot ?f \<noteq> NoSite" by simp
  from keyword_feature_chain_rejected[OF t m k(1) n k(2) l k(3), of "{}"] v show ?thesis by blast
qed

end
