(* ===== verification/Leafref_Cycles.thy ===== *)
theory Leafref_Cycles
  imports Yang_Parse Go_Strings
begin

text \<open>
  The walk that rejects circular chains of leafrefs (\<open>go/cambium/schema_leafref_cycles.go\<close>).  A
  pointer to a schema node is its index in the table of all nodes; a pointer outside it stands for
  no node.  The depth-first walk keeps the stack and the map \<open>pos\<close>, which is \<open>0\<close> for a node not yet
  visited, its place on the stack plus one while it is there, and \<open>-1\<close> once it is finished.
\<close>

subsection \<open>Leafrefs of a type\<close>

datatype resolved = ResolvedLeafRef "nat option" | ResolvedUnion "resolved list" | ResolvedOther

function leafrefTargets :: "nat list \<Rightarrow> resolved \<Rightarrow> nat list" where
  "leafrefTargets out r =
     (case r of
        ResolvedLeafRef t \<Rightarrow> (case t of None \<Rightarrow> out | Some n \<Rightarrow> out @ [n])
      | ResolvedUnion members \<Rightarrow> foldl leafrefTargets out members
      | ResolvedOther \<Rightarrow> out)"
  by pat_completeness auto
termination by (relation "measure (size \<circ> snd)") (auto dest: size_list_estimation'[of _ _ _ size] simp: less_Suc_eq_le)

fun resolvedContainsLeafref :: "resolved \<Rightarrow> bool" where
  "resolvedContainsLeafref (ResolvedLeafRef t) = True"
| "resolvedContainsLeafref (ResolvedUnion members) = list_ex resolvedContainsLeafref members"
| "resolvedContainsLeafref ResolvedOther = False"

definition typeInfoContainsLeafref :: "resolved option \<Rightarrow> bool" where
  "typeInfoContainsLeafref info = (case info of None \<Rightarrow> False | Some r \<Rightarrow> resolvedContainsLeafref r)"

subsection \<open>The schema\<close>

record leafref_node =
  lnPath :: string
  lnType :: "resolved option"
  lnStmt :: statement

type_synonym node_table = "leafref_node list"

definition node_type :: "node_table \<Rightarrow> nat \<Rightarrow> resolved option" where
  "node_type tab n = (if n < length tab then lnType (tab ! n) else None)"

definition refers :: "node_table \<Rightarrow> nat \<Rightarrow> bool" where
  "refers tab n = typeInfoContainsLeafref (node_type tab n)"

definition node_targets :: "node_table \<Rightarrow> nat \<Rightarrow> nat list" where
  "node_targets tab n = (case node_type tab n of None \<Rightarrow> [] | Some r \<Rightarrow> leafrefTargets [] r)"

datatype schema_tree = SchemaTree nat "schema_tree list"

record schema_module =
  smImplemented :: bool
  smRoot :: "schema_tree option"

subsection \<open>The walk\<close>

type_synonym cycle_report = "nat \<times> nat list"

record cycle_state =
  csStack :: "nat list"
  csPos :: "nat \<Rightarrow> int"
  csErr :: "cycle_report option"
  csWarnings :: "cycle_report list"

definition leafrefCycleDone :: int where "leafrefCycleDone = -1"

definition push_node :: "nat \<Rightarrow> cycle_state \<Rightarrow> cycle_state" where
  "push_node n s =
     (let stack = csStack s @ [n] in s\<lparr>csStack := stack, csPos := (csPos s)(n := int (length stack))\<rparr>)"

definition pop_node :: "nat \<Rightarrow> cycle_state \<Rightarrow> cycle_state" where
  "pop_node n s = s\<lparr>csStack := butlast (csStack s), csPos := (csPos s)(n := leafrefCycleDone)\<rparr>"

text \<open>
  The loop of \<open>visit\<close> over the targets of one node; the result is whether the walk stops.  A target
  that is not visited yet is visited by a loop of its own.
\<close>
function (domintros) visit_targets ::
  "node_table \<Rightarrow> bool \<Rightarrow> nat \<Rightarrow> nat list \<Rightarrow> cycle_state \<Rightarrow> bool \<times> cycle_state" where
  "visit_targets tab vendor start [] s = (False, s)"
| "visit_targets tab vendor start (t # ts) s =
     (if \<not> refers tab t then visit_targets tab vendor start ts s
      else if csPos s t > 0 then
        let cycle = drop (nat (csPos s t - 1)) (csStack s) @ [t] in
        if \<not> vendor then (True, s\<lparr>csErr := Some (start, cycle)\<rparr>)
        else visit_targets tab vendor start ts (s\<lparr>csWarnings := csWarnings s @ [(start, cycle)]\<rparr>)
      else if csPos s t = 0 then
        (case visit_targets tab vendor start (node_targets tab t) (push_node t s) of
           (True, s) \<Rightarrow> (True, s)
         | (False, s) \<Rightarrow> visit_targets tab vendor start ts (pop_node t s))
      else visit_targets tab vendor start ts s)"
  by pat_completeness auto

text \<open>A node that has been visited stays visited, so every nested loop finds fewer nodes new.\<close>
definition unvisited :: "node_table \<Rightarrow> cycle_state \<Rightarrow> nat set" where
  "unvisited tab s = {n. n < length tab \<and> csPos s n = 0}"

lemma unvisited_simps [simp]:
  "unvisited tab (s\<lparr>csWarnings := w\<rparr>) = unvisited tab s"
  "unvisited tab (s\<lparr>csErr := e\<rparr>) = unvisited tab s"
  "unvisited tab (push_node n s) = unvisited tab s - {n}"
  "unvisited tab (pop_node n s) = unvisited tab s - {n}"
  by (auto simp: unvisited_def push_node_def pop_node_def leafrefCycleDone_def)

lemma finite_unvisited: "finite (unvisited tab s)"
  by (simp add: unvisited_def)

lemma refers_bound: "refers tab t \<Longrightarrow> t < length tab"
  by (auto simp: refers_def node_type_def typeInfoContainsLeafref_def split: if_splits)

lemma visit_targets_shrinks:
  "visit_targets_dom (tab, vendor, start, ts, s) \<Longrightarrow> visit_targets tab vendor start ts s = (b, s') \<Longrightarrow>
     unvisited tab s' \<subseteq> unvisited tab s"
proof (induction tab vendor start ts s arbitrary: b s' rule: visit_targets.pinduct)
  case (1 tab vendor start s)
  then show ?case by (auto simp: visit_targets.psimps)
next
  case (2 tab vendor start t ts s)
  obtain d s1 where d: "visit_targets tab vendor start (node_targets tab t) (push_node t s) = (d, s1)" by (metis prod.exhaust)
  consider "\<not> refers tab t" | "refers tab t" "csPos s t > 0" | "refers tab t" "csPos s t = 0" | "refers tab t" "csPos s t < 0"
    by linarith
  then show ?case
  proof cases
    case 1
    then show ?thesis using 2(1,7) 2(2) by (simp add: visit_targets.psimps)
  next
    case 2
    then show ?thesis using "2.hyps" "2.prems" "2.IH"(2)[OF _ 2(2) refl] by (cases vendor) (auto simp: visit_targets.psimps Let_def)
  next
    case 3
    then show ?thesis using "2.hyps" "2.prems" "2.IH"(3)[OF _ _ 3(2) d] "2.IH"(4)[OF _ _ 3(2) d[symmetric]]
      by (cases d) (fastforce simp: visit_targets.psimps d)+
  next
    case 4
    then show ?thesis using "2.hyps" "2.prems" "2.IH"(5) by (simp add: visit_targets.psimps)
  qed
qed

termination visit_targets
proof (relation "measures [\<lambda>(tab, v, st, ts, s). card (unvisited tab s), \<lambda>(tab, v, st, ts, s). length ts]", goal_cases)
  case (4 tab vendor start t ts s)
  then have "t \<in> unvisited tab s" using refers_bound by (auto simp: unvisited_def)
  then have "card (unvisited tab s - {t}) < card (unvisited tab s)" using finite_unvisited by (intro psubset_card_mono) auto
  then show ?case by simp
next
  case (5 tab vendor start t ts s d s1)
  have "unvisited tab s1 \<subseteq> unvisited tab s - {t}" using visit_targets_shrinks[OF 5(6) 5(4)[symmetric]] by simp
  then have "card (unvisited tab s1 - {t}) \<le> card (unvisited tab s)" using finite_unvisited by (intro card_mono) auto
  then show ?case by auto
qed auto

text \<open>The closure \<open>visit\<close> itself.\<close>
definition visit_leafref :: "node_table \<Rightarrow> bool \<Rightarrow> nat \<Rightarrow> nat \<Rightarrow> cycle_state \<Rightarrow> bool \<times> cycle_state" where
  "visit_leafref tab vendor start n s =
     (case visit_targets tab vendor start (node_targets tab n) (push_node n s) of
        (True, s) \<Rightarrow> (True, s)
      | (False, s) \<Rightarrow> (False, pop_node n s))"

fun walkSchemaNodes :: "(nat \<Rightarrow> 's \<Rightarrow> bool \<times> 's) \<Rightarrow> schema_tree \<Rightarrow> 's \<Rightarrow> bool \<times> 's"
  and walk_children :: "(nat \<Rightarrow> 's \<Rightarrow> bool \<times> 's) \<Rightarrow> schema_tree list \<Rightarrow> 's \<Rightarrow> bool \<times> 's" where
  "walkSchemaNodes f (SchemaTree n children) s = walk_children f children s"
| "walk_children f [] s = (True, s)"
| "walk_children f (SchemaTree n cs # children) s =
     (case f n s of
        (False, s) \<Rightarrow> (False, s)
      | (True, s) \<Rightarrow>
          (case walkSchemaNodes f (SchemaTree n cs) s of
             (False, s) \<Rightarrow> (False, s)
           | (True, s) \<Rightarrow> walk_children f children s))"

definition check_node_cycles :: "node_table \<Rightarrow> bool \<Rightarrow> nat \<Rightarrow> cycle_state \<Rightarrow> bool \<times> cycle_state" where
  "check_node_cycles tab vendor n s =
     (if csPos s n \<noteq> 0 \<or> \<not> refers tab n then (True, s)
      else case visit_leafref tab vendor n n s of (stop, s) \<Rightarrow> (\<not> stop, s))"

fun check_modules :: "node_table \<Rightarrow> bool \<Rightarrow> schema_module list \<Rightarrow> cycle_state \<Rightarrow> cycle_state" where
  "check_modules tab vendor [] s = s"
| "check_modules tab vendor (m # ms) s =
     (case (smImplemented m, smRoot m) of
        (True, Some root) \<Rightarrow>
          (case walkSchemaNodes (check_node_cycles tab vendor) root s of
             (False, s) \<Rightarrow> s
           | (True, s) \<Rightarrow> check_modules tab vendor ms s)
      | _ \<Rightarrow> check_modules tab vendor ms s)"

definition cycle_state0 :: cycle_state where
  "cycle_state0 = \<lparr>csStack = [], csPos = (\<lambda>_. 0), csErr = None, csWarnings = []\<rparr>"

subsection \<open>Reports\<close>

definition leafrefCyclePaths :: "node_table \<Rightarrow> nat list \<Rightarrow> string" where
  "leafrefCyclePaths tab cycle = join_with '' -> '' (map (\<lambda>n. lnPath (tab ! n)) cycle)"

definition leafrefCycleStatements :: "node_table \<Rightarrow> nat list \<Rightarrow> statement list" where
  "leafrefCycleStatements tab cycle = map (\<lambda>n. lnStmt (tab ! n)) (butlast (tl cycle))"

text \<open>The fields of the diagnostic that depend on the walk; its text is that of the cause and the chain.\<close>
record cycle_error =
  ceAt :: nat
  ceStartPath :: string
  ceRelated :: "statement list"
  ceChain :: string

definition leafrefCycleError :: "node_table \<Rightarrow> cycle_report \<Rightarrow> cycle_error" where
  "leafrefCycleError tab r =
     (case r of (start, cycle) \<Rightarrow>
        \<lparr>ceAt = hd cycle, ceStartPath = lnPath (tab ! start),
         ceRelated = leafrefCycleStatements tab cycle, ceChain = leafrefCyclePaths tab cycle\<rparr>)"

text \<open>The error, if any, and the warnings recorded in vendor-compatible mode.\<close>
definition validateLeafrefCycles :: "node_table \<Rightarrow> bool \<Rightarrow> schema_module list \<Rightarrow> cycle_error option \<times> cycle_error list" where
  "validateLeafrefCycles tab vendor modules =
     (let s = check_modules tab vendor modules cycle_state0 in
      (map_option (leafrefCycleError tab) (csErr s), map (leafrefCycleError tab) (csWarnings s)))"

end
