(* ===== verification/Leafref_Walk.thy ===== *)
theory Leafref_Walk
  imports Leafref_Cycles
begin

text \<open>
  The walk over leafrefs finds a cycle exactly when there is one, and what it reports is one.  The
  invariant of the walk: the stack is a path whose places \<open>pos\<close> records, and while nothing has been
  reported the finished nodes lead to finished nodes only and lie on no cycle.
\<close>

subsection \<open>The graph of leafrefs\<close>

definition leads :: "node_table \<Rightarrow> nat \<Rightarrow> nat \<Rightarrow> bool" where
  "leads tab n t \<longleftrightarrow> refers tab n \<and> refers tab t \<and> t \<in> set (node_targets tab n)"

definition real_cycle :: "node_table \<Rightarrow> cycle_report \<Rightarrow> bool" where
  "real_cycle tab r \<longleftrightarrow>
     (case r of (start, c) \<Rightarrow> 2 \<le> length c \<and> hd c = last c \<and> successively (leads tab) c \<and> (leads tab)\<^sup>*\<^sup>* start (hd c))"

definition closed_acyclic :: "node_table \<Rightarrow> nat set \<Rightarrow> bool" where
  "closed_acyclic tab D \<longleftrightarrow> (\<forall>n \<in> D. (\<forall>t. leads tab n t \<longrightarrow> t \<in> D) \<and> \<not> (leads tab)\<^sup>+\<^sup>+ n n)"

lemma closed_reach: "(leads tab)\<^sup>*\<^sup>* n m \<Longrightarrow> closed_acyclic tab D \<Longrightarrow> n \<in> D \<Longrightarrow> m \<in> D"
  by (induction rule: rtranclp_induct) (auto simp: closed_acyclic_def)

lemma closed_acyclic_insert:
  assumes "closed_acyclic tab D" "\<And>t. leads tab n t \<Longrightarrow> t \<in> D" "n \<notin> D"
  shows "closed_acyclic tab (insert n D)"
proof -
  have "\<not> (leads tab)\<^sup>+\<^sup>+ n n"
  proof
    assume "(leads tab)\<^sup>+\<^sup>+ n n"
    then obtain t where "leads tab n t" "(leads tab)\<^sup>*\<^sup>* t n" by (meson tranclpD)
    then show False using closed_reach[OF _ assms(1)] assms(2,3) by blast
  qed
  then show ?thesis using assms(1,2) by (simp add: closed_acyclic_def)
qed

lemma successively_reach: "successively P xs \<Longrightarrow> i < length xs \<Longrightarrow> P\<^sup>*\<^sup>* (hd xs) (xs ! i)"
proof (induction i)
  case 0
  then show ?case by (simp add: hd_conv_nth[symmetric])
next
  case (Suc i)
  then have "P (xs ! i) (xs ! Suc i)" by (simp add: successively_conv_nth)
  with Suc show ?case by (auto intro: rtranclp.rtrancl_into_rtrancl)
qed

lemma real_cycle_cyclic:
  assumes "real_cycle tab (start, c)"
  shows "(leads tab)\<^sup>*\<^sup>* start (hd c) \<and> (leads tab)\<^sup>+\<^sup>+ (hd c) (hd c)"
proof -
  obtain a b r where c: "c = a # b # r" using assms by (auto simp: real_cycle_def numeral_2_eq_2 Suc_le_length_iff)
  then have "leads tab a b" "successively (leads tab) (b # r)" "last (b # r) = a" "(leads tab)\<^sup>*\<^sup>* start a"
    using assms by (auto simp: real_cycle_def)
  moreover have "(b # r) ! length r = last (b # r)" by (simp add: last_conv_nth)
  ultimately have "(leads tab)\<^sup>*\<^sup>* b a" using successively_reach[of "leads tab" "b # r" "length r"] by simp
  with \<open>leads tab a b\<close> have "(leads tab)\<^sup>+\<^sup>+ a a" by (rule rtranclp_into_tranclp2)
  with \<open>(leads tab)\<^sup>*\<^sup>* start a\<close> show ?thesis by (simp add: c)
qed

subsection \<open>The stack\<close>

definition stack_ok :: "node_table \<Rightarrow> cycle_state \<Rightarrow> bool" where
  "stack_ok tab s \<longleftrightarrow> distinct (csStack s) \<and> (\<forall>n. 0 < csPos s n \<longleftrightarrow> n \<in> set (csStack s)) \<and>
     (\<forall>i < length (csStack s). csPos s (csStack s ! i) = int i + 1) \<and> successively (leads tab) (csStack s)"

lemma stack_ok_push:
  "stack_ok tab s \<Longrightarrow> csPos s t = 0 \<Longrightarrow> csStack s = [] \<or> leads tab (last (csStack s)) t \<Longrightarrow> stack_ok tab (push_node t s)"
  by (auto simp: stack_ok_def push_node_def Let_def successively_append_iff nth_append less_Suc_eq)
    (metis less_irrefl nth_mem)

lemma stack_ok_pop:
  assumes "stack_ok tab s" "csStack s = xs @ [t]"
  shows "stack_ok tab (pop_node t s)"
proof -
  have "csPos s (xs ! i) = int i + 1" if "i < length xs" for i
    using assms that unfolding stack_ok_def by (auto simp: nth_append dest!: spec[of _ i])
  moreover have "xs ! i \<noteq> t" if "i < length xs" for i
    using assms that by (auto simp: stack_ok_def)
  ultimately show ?thesis
    using assms by (auto simp: stack_ok_def pop_node_def leafrefCycleDone_def successively_append_iff)
qed

lemma cycle_found:
  assumes "stack_ok tab s" "csStack s \<noteq> []" "leads tab (last (csStack s)) t" "0 < csPos s t"
  shows "real_cycle tab (hd (csStack s), drop (nat (csPos s t - 1)) (csStack s) @ [t])"
proof -
  let ?st = "csStack s"
  obtain i where i: "i < length ?st" "?st ! i = t"
    using assms(1,4) by (auto simp: stack_ok_def in_set_conv_nth)
  then have "nat (csPos s t - 1) = i" using assms(1) by (auto simp: stack_ok_def)
  moreover have "successively (leads tab) (drop i ?st)"
    using assms(1) append_take_drop_id[of i ?st] by (metis stack_ok_def successively_append_iff)
  moreover have "(leads tab)\<^sup>*\<^sup>* (hd ?st) (?st ! i)"
    using successively_reach i(1) assms(1) by (auto simp: stack_ok_def)
  ultimately show ?thesis
    using i assms(2,3) by (auto simp: real_cycle_def successively_append_iff hd_drop_conv_nth hd_append last_drop)
qed

subsection \<open>The loop over targets\<close>

definition finished :: "cycle_state \<Rightarrow> nat set" where
  "finished s = {n. csPos s n < 0}"

definition reports :: "cycle_state \<Rightarrow> cycle_report list" where
  "reports s = csWarnings s @ (case csErr s of None \<Rightarrow> [] | Some r \<Rightarrow> [r])"

definition walk_ok :: "node_table \<Rightarrow> cycle_state \<Rightarrow> bool" where
  "walk_ok tab s \<longleftrightarrow> stack_ok tab s \<and> (reports s = [] \<longrightarrow> closed_acyclic tab (finished s))"

text \<open>What a walk from \<open>s\<close> to \<open>s'\<close> keeps.\<close>
definition walked :: "node_table \<Rightarrow> cycle_state \<Rightarrow> cycle_state \<Rightarrow> bool" where
  "walked tab s s' \<longleftrightarrow> walk_ok tab s' \<and> csStack s' = csStack s \<and> csErr s' = csErr s \<and> finished s \<subseteq> finished s' \<and>
     (reports s' = [] \<longrightarrow> reports s = [])"

lemma walked_refl: "walk_ok tab s \<Longrightarrow> walked tab s s"
  by (simp add: walked_def)

lemma walked_trans: "walked tab s s' \<Longrightarrow> walked tab s' s'' \<Longrightarrow> walked tab s s''"
  by (auto simp: walked_def)

lemma reports_simps [simp]:
  "reports (push_node n s) = reports s" "reports (pop_node n s) = reports s"
  by (simp_all add: reports_def push_node_def pop_node_def Let_def)

lemma finished_push: "csPos s t = 0 \<Longrightarrow> finished (push_node t s) = finished s"
  by (auto simp: finished_def push_node_def Let_def)

lemma finished_pop: "finished (pop_node n s) = insert n (finished s)"
  by (auto simp: finished_def pop_node_def leafrefCycleDone_def)

lemma push_fields [simp]: "csStack (push_node t s) = csStack s @ [t]" "csErr (push_node t s) = csErr s"
  by (simp_all add: push_node_def Let_def)

lemma pop_fields [simp]: "csStack (pop_node t s) = butlast (csStack s)" "csErr (pop_node t s) = csErr s"
  by (simp_all add: pop_node_def)

lemma walk_ok_push:
  "walk_ok tab s \<Longrightarrow> csPos s t = 0 \<Longrightarrow> csStack s = [] \<or> leads tab (last (csStack s)) t \<Longrightarrow> walk_ok tab (push_node t s)"
  using stack_ok_push[of tab s t] finished_push[of s t] by (simp add: walk_ok_def)

text \<open>A node is finished after a loop over all its targets.\<close>
lemma walked_pop:
  assumes w: "walk_ok tab s" and n: "csPos s n = 0"
    and w1: "walked tab (push_node n s) s1"
    and all: "reports s1 = [] \<Longrightarrow> \<forall>t \<in> set (node_targets tab n). refers tab t \<longrightarrow> t \<in> finished s1"
  shows "walked tab s (pop_node n s1)" "n \<in> finished (pop_node n s1)"
proof -
  have st: "csStack s1 = csStack s @ [n]" "csErr s1 = csErr s" "finished s \<subseteq> finished s1" "reports s1 = [] \<longrightarrow> reports s = []"
    "stack_ok tab s1" "reports s1 = [] \<longrightarrow> closed_acyclic tab (finished s1)"
    using w1 n by (simp_all add: walked_def walk_ok_def finished_push)
  then have pos: "n \<notin> finished s1" by (auto simp: stack_ok_def finished_def)
  show "n \<in> finished (pop_node n s1)" by (simp add: finished_pop)
  have "closed_acyclic tab (insert n (finished s1))" if "reports s1 = []"
    using st(6) that pos all[OF that] by (intro closed_acyclic_insert) (auto simp: leads_def)
  then show "walked tab s (pop_node n s1)"
    using stack_ok_pop[OF st(5,1)] st by (auto simp: walked_def walk_ok_def finished_pop)
qed

text \<open>Everything reported is a cycle that a node of \<open>U\<close> leads to, and the error is set in strict mode only, the warnings in vendor mode only.\<close>
definition reported :: "nat set \<Rightarrow> node_table \<Rightarrow> bool \<Rightarrow> cycle_state \<Rightarrow> bool" where
  "reported U tab vendor s \<longleftrightarrow> (\<forall>r \<in> set (reports s). real_cycle tab r \<and> fst r \<in> U) \<and>
     (if vendor then csErr s = None else csWarnings s = [])"

lemma reported_simps [simp]:
  "reported U tab vendor (push_node n s) = reported U tab vendor s"
  "reported U tab vendor (pop_node n s) = reported U tab vendor s"
  by (simp_all add: reported_def pop_node_def push_node_def Let_def reports_def)

lemma reported_add:
  "reported U tab vendor s \<Longrightarrow> csErr s = None \<Longrightarrow> real_cycle tab r \<Longrightarrow> fst r \<in> U \<Longrightarrow>
     reported U tab vendor (if vendor then s\<lparr>csWarnings := csWarnings s @ [r]\<rparr> else s\<lparr>csErr := Some r\<rparr>)"
  by (auto simp: reported_def reports_def)

definition good_stop :: "nat set \<Rightarrow> node_table \<Rightarrow> bool \<Rightarrow> nat list \<Rightarrow> cycle_state \<Rightarrow> bool \<times> cycle_state \<Rightarrow> bool" where
  "good_stop U tab vendor ts s r \<longleftrightarrow> reported U tab vendor (snd r) \<and>
     (if fst r then csErr (snd r) \<noteq> None
      else walked tab s (snd r) \<and>
        (reports (snd r) = [] \<longrightarrow> (\<forall>t \<in> set ts. refers tab t \<longrightarrow> t \<in> finished (snd r))))"

lemma good_stop_Cons:
  assumes "good_stop U tab vendor ts s1 r" "walked tab s s1"
    "refers tab t \<Longrightarrow> t \<in> finished s1 \<or> reports s1 \<noteq> []"
  shows "good_stop U tab vendor (t # ts) s r"
proof (cases "fst r")
  case False
  then have w: "walked tab s1 (snd r)" using assms(1) by (simp add: good_stop_def)
  then have "walked tab s (snd r)" using walked_trans[OF assms(2)] by blast
  moreover have "t \<in> finished (snd r)" if "refers tab t" "reports (snd r) = []"
    using assms(3)[OF that(1)] w that(2) by (auto simp: walked_def)
  ultimately show ?thesis using assms(1) False by (simp add: good_stop_def)
qed (use assms(1) in \<open>simp add: good_stop_def\<close>)

lemma visit_targets_good:
  "start \<in> U \<Longrightarrow> walk_ok tab s \<Longrightarrow> csStack s \<noteq> [] \<Longrightarrow> hd (csStack s) = start \<Longrightarrow> csErr s = None \<Longrightarrow> reported U tab vendor s \<Longrightarrow>
     refers tab (last (csStack s)) \<Longrightarrow> set ts \<subseteq> set (node_targets tab (last (csStack s))) \<Longrightarrow>
     good_stop U tab vendor ts s (visit_targets tab vendor start ts s)"
proof (induction tab vendor start ts s rule: visit_targets.induct)
  case (1 tab vendor start s)
  then show ?case by (simp add: good_stop_def walked_refl)
next
  case (2 tab vendor start t ts s)
  note U = "2.prems"(1) and prems = "2.prems"(2-)
  have sub: "set ts \<subseteq> set (node_targets tab (last (csStack s)))" using prems(7) by simp
  have lead: "leads tab (last (csStack s)) t" if "refers tab t" using prems(6,7) that by (simp add: leads_def)
  consider "\<not> refers tab t" | "refers tab t" "csPos s t > 0" | "refers tab t" "csPos s t = 0" | "refers tab t" "csPos s t < 0"
    by linarith
  then show ?case
  proof cases
    case 1
    then show ?thesis
      using good_stop_Cons[OF "2.IH"(1)[OF 1 U prems(1-6) sub] walked_refl[OF prems(1)], of t] by simp
  next
    case 2
    let ?r = "(start, drop (nat (csPos s t - 1)) (csStack s) @ [t])"
    have r: "real_cycle tab ?r"
      using cycle_found[OF _ prems(2) lead[OF 2(1)] 2(2)] prems(1,3) by (simp add: walk_ok_def)
    note added = reported_add[OF prems(5,4) r, simplified, OF U]
    show ?thesis
    proof (cases vendor)
      case False
      then show ?thesis using 2 added by (simp add: good_stop_def Let_def)
    next
      case True
      let ?s = "s\<lparr>csWarnings := csWarnings s @ [?r]\<rparr>"
      have w: "walked tab s ?s" "reports ?s \<noteq> []"
        using prems(1) by (auto simp: walked_def walk_ok_def stack_ok_def reports_def finished_def)
      have "good_stop U tab vendor ts ?s (visit_targets tab vendor start ts ?s)"
        using "2.IH"(2)[OF _ 2(2) refl] 2(1) True U prems sub w(1) added by (simp add: walked_def)
      from good_stop_Cons[OF this w(1)] w(2) show ?thesis using 2 True by (simp add: Let_def)
    qed
  next
    case 3
    let ?s = "push_node t s"
    obtain d s1 where d: "visit_targets tab vendor start (node_targets tab t) ?s = (d, s1)" by (metis prod.exhaust)
    have "good_stop U tab vendor (node_targets tab t) ?s (d, s1)"
      using "2.IH"(3)[OF _ _ 3(2)] 3 U prems walk_ok_push[OF prems(1) 3(2)] lead[OF 3(1)] unfolding d by simp
    then have g: "reported U tab vendor s1" "d \<Longrightarrow> csErr s1 \<noteq> None" "\<not> d \<Longrightarrow> walked tab ?s s1"
      "\<not> d \<Longrightarrow> reports s1 = [] \<Longrightarrow> \<forall>x \<in> set (node_targets tab t). refers tab x \<longrightarrow> x \<in> finished s1"
      by (auto simp: good_stop_def split: if_splits)
    show ?thesis
    proof (cases d)
      case True
      then show ?thesis using 3 d g by (simp add: good_stop_def)
    next
      case False
      note p = walked_pop[OF prems(1) 3(2) g(3)[OF False] g(4)[OF False]]
      have "good_stop U tab vendor ts (pop_node t s1) (visit_targets tab vendor start ts (pop_node t s1))"
        using "2.IH"(4)[OF _ _ 3(2) d[symmetric]] 3 False p(1) U prems sub g(1) by (simp add: walked_def)
      from good_stop_Cons[OF this p(1)] p(2) show ?thesis using 3 d False by simp
    qed
  next
    case 4
    have "good_stop U tab vendor ts s (visit_targets tab vendor start ts s)"
      using "2.IH"(5) 4 U prems sub by simp
    from good_stop_Cons[OF this walked_refl[OF prems(1)]] 4 show ?thesis by (simp add: finished_def)
  qed
qed

subsection \<open>The walk over modules\<close>

text \<open>Between visits the stack is empty.\<close>
definition idle :: "nat set \<Rightarrow> node_table \<Rightarrow> bool \<Rightarrow> cycle_state \<Rightarrow> bool" where
  "idle U tab vendor s \<longleftrightarrow> walk_ok tab s \<and> csStack s = [] \<and> csErr s = None \<and> reported U tab vendor s"

definition covered :: "node_table \<Rightarrow> nat set \<Rightarrow> cycle_state \<Rightarrow> bool" where
  "covered tab N s \<longleftrightarrow> (reports s = [] \<longrightarrow> (\<forall>n \<in> N. refers tab n \<longrightarrow> n \<in> finished s))"

text \<open>What a part of the walk that covers \<open>N\<close> ends with; the flag says whether it is complete.\<close>
definition part_ok :: "nat set \<Rightarrow> node_table \<Rightarrow> bool \<Rightarrow> nat set \<Rightarrow> cycle_state \<Rightarrow> bool \<times> cycle_state \<Rightarrow> bool" where
  "part_ok U tab vendor N s r \<longleftrightarrow> reported U tab vendor (snd r) \<and>
     (if fst r then idle U tab vendor (snd r) \<and> covered tab N (snd r) \<and> walked tab s (snd r) else csErr (snd r) \<noteq> None)"

lemma covered_later: "covered tab N s \<Longrightarrow> walked tab s s' \<Longrightarrow> covered tab N s'"
  by (auto simp: covered_def walked_def)

lemma part_ok_seq:
  assumes "part_ok U tab vendor N s (True, s1)" "part_ok U tab vendor M s1 r"
  shows "part_ok U tab vendor (N \<union> M) s r"
proof (cases "fst r")
  case True
  have "covered tab N (snd r)" using assms True covered_later by (auto simp: part_ok_def)
  then show ?thesis using assms True walked_trans by (auto simp: part_ok_def covered_def)
qed (use assms in \<open>simp add: part_ok_def\<close>)

lemma part_ok_mono: "part_ok U tab vendor N s r \<Longrightarrow> M \<subseteq> N \<Longrightarrow> part_ok U tab vendor M s r"
  by (auto simp: part_ok_def covered_def)

lemma part_ok_nothing: "idle U tab vendor s \<Longrightarrow> part_ok U tab vendor {} s (True, s)"
  by (simp add: part_ok_def idle_def covered_def walked_refl)

lemma check_node_cycles_part:
  assumes "idle U tab vendor s" "n \<in> U"
  shows "part_ok U tab vendor {n} s (check_node_cycles tab vendor n s)"
proof (cases "csPos s n \<noteq> 0 \<or> \<not> refers tab n")
  case True
  have "csPos s n \<le> 0" using assms by (auto simp: idle_def walk_ok_def stack_ok_def dest: spec[of _ n])
  then have "covered tab {n} s" using True by (auto simp: covered_def finished_def)
  then show ?thesis
    using True assms by (simp add: check_node_cycles_def part_ok_def idle_def walked_refl)
next
  case False
  then have n: "csPos s n = 0" "refers tab n" by auto
  let ?s = "push_node n s"
  obtain d s1 where d: "visit_targets tab vendor n (node_targets tab n) ?s = (d, s1)" by (metis prod.exhaust)
  have "walk_ok tab ?s" using assms walk_ok_push[OF _ n(1)] by (simp add: idle_def)
  then have "good_stop U tab vendor (node_targets tab n) ?s (d, s1)"
    using visit_targets_good[of n U tab ?s vendor "node_targets tab n"] assms n unfolding d by (simp add: idle_def)
  then have g: "reported U tab vendor s1" "d \<Longrightarrow> csErr s1 \<noteq> None" "\<not> d \<Longrightarrow> walked tab ?s s1"
    "\<not> d \<Longrightarrow> reports s1 = [] \<Longrightarrow> \<forall>x \<in> set (node_targets tab n). refers tab x \<longrightarrow> x \<in> finished s1"
    by (auto simp: good_stop_def split: if_splits)
  show ?thesis
  proof (cases d)
    case True
    then show ?thesis using n d g by (simp add: check_node_cycles_def visit_leafref_def part_ok_def)
  next
    case False
    have "walk_ok tab s" using assms by (simp add: idle_def)
    note p = walked_pop[OF this n(1) g(3)[OF False] g(4)[OF False]]
    have "idle U tab vendor (pop_node n s1)" using p(1) assms g(1) by (simp add: idle_def walked_def)
    then show ?thesis using n d False p g(1)
      by (simp add: check_node_cycles_def visit_leafref_def part_ok_def covered_def)
  qed
qed

text \<open>The nodes below the root of a tree.\<close>
fun below_root :: "schema_tree \<Rightarrow> nat set" and below_trees :: "schema_tree list \<Rightarrow> nat set" where
  "below_root (SchemaTree n children) = below_trees children"
| "below_trees [] = {}"
| "below_trees (SchemaTree n cs # children) = insert n (below_root (SchemaTree n cs)) \<union> below_trees children"

lemma part_ok_stop: "part_ok U tab vendor N s (False, s1) \<Longrightarrow> part_ok U tab vendor M s (False, s1)"
  by (simp add: part_ok_def)

lemma part_ok_top: "part_ok U tab vendor N s (True, s1) \<Longrightarrow> idle U tab vendor s1"
  by (simp add: part_ok_def)

lemma walk_part:
  fixes f :: "nat \<Rightarrow> cycle_state \<Rightarrow> bool \<times> cycle_state"
  assumes "\<And>n s. n \<in> U \<Longrightarrow> idle U tab vendor s \<Longrightarrow> part_ok U tab vendor {n} s (f n s)"
  shows "idle U tab vendor s \<Longrightarrow> below_root t \<subseteq> U \<Longrightarrow> part_ok U tab vendor (below_root t) s (walkSchemaNodes f t s)"
    "idle U tab vendor s \<Longrightarrow> below_trees ts \<subseteq> U \<Longrightarrow> part_ok U tab vendor (below_trees ts) s (walk_children f ts s)"
  using assms
proof (induction f t s and f ts s rule: walkSchemaNodes_walk_children.induct)
  case (2 f s)
  then show ?case by (simp add: part_ok_nothing)
next
  case (3 f n cs children s)
  obtain b s1 where f: "f n s = (b, s1)" by (metis prod.exhaust)
  have p1: "part_ok U tab vendor {n} s (b, s1)" using "3.prems"(3)[OF _ "3.prems"(1), of n] "3.prems"(2) f by simp
  show ?case
  proof (cases b)
    case False
    then show ?thesis using p1 f part_ok_stop by simp
  next
    case True
    then have b: "b = True" by simp
    obtain b2 s2 where w: "walkSchemaNodes f (SchemaTree n cs) s1 = (b2, s2)" by (metis prod.exhaust)
    have i1: "idle U tab vendor s1" by (rule part_ok_top[OF p1[unfolded b]])
    have p2: "part_ok U tab vendor (below_root (SchemaTree n cs)) s1 (b2, s2)"
      using "3.IH"(1)[OF f[symmetric, unfolded b] refl i1 _ "3.prems"(3)] "3.prems"(2) w by simp
    show ?thesis
    proof (cases b2)
      case False
      then have "walk_children f (SchemaTree n cs # children) s = (False, s2)" using f w b by simp
      then show ?thesis using part_ok_seq[OF p1[unfolded b] p2] False by (simp only:) (rule part_ok_stop)
    next
      case True
      then have b2: "b2 = True" by simp
      have i2: "idle U tab vendor s2" by (rule part_ok_top[OF p2[unfolded b2]])
      have "part_ok U tab vendor (below_trees children) s2 (walk_children f children s2)"
        using "3.IH"(2)[OF f[symmetric, unfolded b] refl w[symmetric, unfolded b2] refl i2 _ "3.prems"(3)] "3.prems"(2) by simp
      from part_ok_seq[OF p1[unfolded b] part_ok_seq[OF p2[unfolded b2] this]] show ?thesis
        using f w b b2 by simp
    qed
  qed
qed auto

definition schema_nodes :: "schema_module list \<Rightarrow> nat set" where
  "schema_nodes ms = (\<Union>m \<in> set ms. if smImplemented m then (case smRoot m of None \<Rightarrow> {} | Some t \<Rightarrow> below_root t) else {})"

lemma check_modules_part:
  "idle U tab vendor s \<Longrightarrow> schema_nodes ms \<subseteq> U \<Longrightarrow>
     \<exists>done. part_ok U tab vendor (schema_nodes ms) s (done, check_modules tab vendor ms s)"
proof (induction ms arbitrary: s)
  case Nil
  show ?case using part_ok_nothing[OF Nil(1)] by (intro exI[of _ True]) (simp add: schema_nodes_def)
next
  case (Cons m ms)
  show ?case
  proof (cases "smImplemented m \<and> smRoot m \<noteq> None")
    case False
    then have "schema_nodes (m # ms) = schema_nodes ms" by (auto simp: schema_nodes_def)
    moreover have "check_modules tab vendor (m # ms) s = check_modules tab vendor ms s"
      using False by (auto split: bool.splits option.splits)
    ultimately show ?thesis using Cons by simp
  next
    case True
    then obtain root where r: "smImplemented m" "smRoot m = Some root" by auto
    have n: "schema_nodes (m # ms) = below_root root \<union> schema_nodes ms" using r by (simp add: schema_nodes_def)
    obtain b s1 where w: "walkSchemaNodes (check_node_cycles tab vendor) root s = (b, s1)" by (metis prod.exhaust)
    have p: "part_ok U tab vendor (below_root root) s (b, s1)"
      using walk_part(1)[of U tab vendor "check_node_cycles tab vendor" s root] check_node_cycles_part Cons.prems n w by simp
    show ?thesis
    proof (cases b)
      case False
      then have c: "check_modules tab vendor (m # ms) s = s1" using r w by simp
      have "part_ok U tab vendor (schema_nodes (m # ms)) s (False, s1)" using part_ok_stop p False by simp
      then show ?thesis unfolding c by (rule exI)
    next
      case True
      then have b: "b = True" by simp
      obtain d where "part_ok U tab vendor (schema_nodes ms) s1 (d, check_modules tab vendor ms s1)"
        using Cons.IH[OF part_ok_top[OF p[unfolded b]]] Cons.prems(2) n by auto
      from part_ok_seq[OF p[unfolded b] this] show ?thesis using r w b n by auto
    qed
  qed
qed

text \<open>A chain of leafrefs from a node of an implemented module that comes back to itself.\<close>
definition circular :: "node_table \<Rightarrow> schema_module list \<Rightarrow> bool" where
  "circular tab ms \<longleftrightarrow> (\<exists>n \<in> schema_nodes ms. \<exists>m. refers tab n \<and> (leads tab)\<^sup>*\<^sup>* n m \<and> (leads tab)\<^sup>+\<^sup>+ m m)"

lemma real_cycle_circular:
  assumes "real_cycle tab r" "fst r \<in> schema_nodes ms"
  shows "circular tab ms"
proof -
  obtain start c where r: "r = (start, c)" by (cases r)
  then have w: "(leads tab)\<^sup>*\<^sup>* start (hd c)" "(leads tab)\<^sup>+\<^sup>+ (hd c) (hd c)" using real_cycle_cyclic assms(1) by simp_all
  then obtain t where "leads tab start t" by (metis converse_rtranclpE tranclpD)
  then have "refers tab start" by (simp add: leads_def)
  then show ?thesis using w assms(2) r unfolding circular_def by auto
qed

end
