(* ===== verification/Leafref_Properties.thy ===== *)
theory Leafref_Properties
  imports Leafref_Walk
begin

text \<open>
  The property of the leafref walk: it reports a circular chain exactly when one can be reached from
  a node of an implemented module, and what it reports is one.
\<close>

lemma idle_start: "idle U tab vendor cycle_state0"
  by (simp add: idle_def walk_ok_def stack_ok_def reported_def reports_def cycle_state0_def closed_acyclic_def finished_def)

lemma nothing_reported:
  assumes "idle U tab vendor s" "covered tab N s" "reports s = []" "n \<in> N" "refers tab n" "(leads tab)\<^sup>*\<^sup>* n m"
  shows "\<not> (leads tab)\<^sup>+\<^sup>+ m m"
proof -
  have c: "closed_acyclic tab (finished s)" using assms(1,3) by (simp add: idle_def walk_ok_def)
  have "n \<in> finished s" using assms(2-5) by (auto simp: covered_def)
  from closed_reach[OF assms(6) c this] c show ?thesis by (auto simp: closed_acyclic_def)
qed

text \<open>
  C27: The check for circular leafrefs is exact, on every schema and in both modes: it reports nothing
  exactly when no chain of leafrefs from a node of an implemented module comes back to itself, every
  cycle it reports is a chain of leafrefs that ends where it starts and that the walk can reach, strict
  mode gives an error and vendor-compatible mode warnings only.
\<close>
theorem leafref_cycles_exact:
  assumes "validateLeafrefCycles tab vendor modules = (err, warnings)"
  shows "(err = None \<and> warnings = [] \<longleftrightarrow> \<not> circular tab modules) \<and>
    (if vendor then err = None else warnings = []) \<and>
    (\<forall>e \<in> set (warnings @ (case err of None \<Rightarrow> [] | Some e \<Rightarrow> [e])).
       \<exists>r. real_cycle tab r \<and> e = leafrefCycleError tab r)"
proof -
  let ?U = "schema_nodes modules" and ?s = "check_modules tab vendor modules cycle_state0"
  obtain d where p: "part_ok ?U tab vendor ?U cycle_state0 (d, ?s)"
    using check_modules_part[OF idle_start subset_refl] by (rule exE)
  then have rep: "reported ?U tab vendor ?s" by (simp add: part_ok_def)
  have res: "err = map_option (leafrefCycleError tab) (csErr ?s)" "warnings = map (leafrefCycleError tab) (csWarnings ?s)"
    using assms by (simp_all add: validateLeafrefCycles_def Let_def)
  have e: "err = None \<and> warnings = [] \<longleftrightarrow> reports ?s = []"
    using res by (auto simp: reports_def split: option.splits)
  have "reports ?s = [] \<longleftrightarrow> \<not> circular tab modules"
  proof
    assume r: "reports ?s = []"
    then have "d" using p by (cases d) (auto simp: part_ok_def reports_def split: option.splits)
    then have "idle ?U tab vendor ?s" "covered tab ?U ?s" using p by (simp_all add: part_ok_def)
    with r show "\<not> circular tab modules" using nothing_reported unfolding circular_def by (metis (no_types, lifting))
  next
    assume n: "\<not> circular tab modules"
    show "reports ?s = []" using rep n real_cycle_circular by (cases "reports ?s") (auto simp: reported_def)
  qed
  moreover have "if vendor then err = None else warnings = []" using rep res by (simp add: reported_def split: if_splits)
  moreover have "\<exists>r. real_cycle tab r \<and> e = leafrefCycleError tab r"
    if e: "e \<in> set (warnings @ (case err of None \<Rightarrow> [] | Some e \<Rightarrow> [e]))" for e
  proof -
    have "warnings @ (case err of None \<Rightarrow> [] | Some e \<Rightarrow> [e]) = map (leafrefCycleError tab) (reports ?s)"
      using res by (simp add: reports_def split: option.split)
    then obtain r where "r \<in> set (reports ?s)" "e = leafrefCycleError tab r" using e by auto
    then show ?thesis using rep unfolding reported_def by blast
  qed
  ultimately show ?thesis using e by blast
qed

text \<open>Three leaves: the first refers to the second, and the second, through a union, to the third and to itself.\<close>
definition example_nodes :: node_table where
  "example_nodes =
     [\<lparr>lnPath = ''/a'', lnType = Some (ResolvedLeafRef (Some 1)), lnStmt = Statement ''leaf'' (Some ''a'') [] [] 1 1\<rparr>,
      \<lparr>lnPath = ''/b'', lnType = Some (ResolvedUnion [ResolvedOther, ResolvedLeafRef (Some 2), ResolvedLeafRef (Some 1)]),
       lnStmt = Statement ''leaf'' (Some ''b'') [] [] 2 1\<rparr>,
      \<lparr>lnPath = ''/c'', lnType = Some ResolvedOther, lnStmt = Statement ''leaf'' (Some ''c'') [] [] 3 1\<rparr>]"

theorem leafref_cycles_exact_witness:
  "validateLeafrefCycles example_nodes False [\<lparr>smImplemented = True, smRoot = Some (SchemaTree 9 [SchemaTree 0 [], SchemaTree 2 []])\<rparr>] =
     (Some \<lparr>ceAt = 1, ceStartPath = ''/a'', ceRelated = [], ceChain = ''/b -> /b''\<rparr>, []) \<and>
   circular example_nodes [\<lparr>smImplemented = True, smRoot = Some (SchemaTree 9 [SchemaTree 0 [], SchemaTree 2 []])\<rparr>]"
proof -
  have v: "validateLeafrefCycles example_nodes False [\<lparr>smImplemented = True, smRoot = Some (SchemaTree 9 [SchemaTree 0 [], SchemaTree 2 []])\<rparr>] =
     (Some \<lparr>ceAt = 1, ceStartPath = ''/a'', ceRelated = [], ceChain = ''/b -> /b''\<rparr>, [])" by code_simp
  from leafref_cycles_exact[OF v] v show ?thesis by simp
qed

end
