(* ===== verification/Xpath_Parse.thy ===== *)
theory Xpath_Parse
  imports Cambium_Prelude
begin

text \<open>
  The front end for XPath 1.0 (\<open>go/datatree/datatree_xpath.go\<close>): the lexer and the recursive-descent
  parser.  The text is its code points.  The position of the parser is the list of the tokens that are
  left; \<open>cur\<close> at the end of that list would be an index out of range, which is the result \<open>Panicked\<close>.
  The conversion of a number to a double (\<open>strconv.ParseFloat\<close>) is the parameter \<open>pf\<close>; it may fail.
\<close>

type_synonym xtext = "rune list"

datatype tok_kind =
    TkEOF | TkName | TkFunc | TkAxis | TkNumber | TkLiteral | TkSlash | TkDSlash | TkDotDot | TkDot
  | TkLParen | TkRParen | TkLBracket | TkRBracket | TkComma | TkPipe | TkStarTest | TkStarOp
  | TkOpName | TkRelOp | TkAddOp | TkColonColon | TkAt | TkDollar

datatype xtoken = Tok (tkKind: tok_kind) (tkText: xtext)

text \<open>The errors, by the place that makes them.\<close>
datatype xpath_error =
    UnterminatedLiteral | UnexpectedBang | UnexpectedCharacter rune | TrailingTokens xtext
  | ExpectedLParenAfter xtext | NodeTypeArguments xtext | NodeTypeUnsupported xtext | UnexpectedStep xtext
  | ExpectedRBracket | InvalidNumber xtext | ExpectedRParen | UnexpectedToken xtext
  | ExpectedCallLParen xtext | ExpectedCallRParen xtext

subsection \<open>The lexer\<close>

definition is_blank :: "rune \<Rightarrow> bool" where
  "is_blank c \<longleftrightarrow> c = 0x20 \<or> c = 0x09 \<or> c = 0x0A \<or> c = 0x0D"

definition digit_rune :: "rune \<Rightarrow> bool" where
  "digit_rune c \<longleftrightarrow> rn CHR ''0'' \<le> c \<and> c \<le> rn CHR ''9''"

definition isNameStart :: "rune \<Rightarrow> bool" where
  "isNameStart c \<longleftrightarrow> c = rn CHR ''_'' \<or> (rn CHR ''a'' \<le> c \<and> c \<le> rn CHR ''z'') \<or> (rn CHR ''A'' \<le> c \<and> c \<le> rn CHR ''Z'')"

definition isNameChar :: "rune \<Rightarrow> bool" where
  "isNameChar c \<longleftrightarrow> isNameStart c \<or> digit_rune c \<or> c = rn CHR ''-'' \<or> c = rn CHR ''.''"

definition prevAllowsOperand :: "xtoken list \<Rightarrow> bool" where
  "prevAllowsOperand toks \<longleftrightarrow> toks = [] \<or> tkKind (last toks) \<in>
     {TkAt, TkColonColon, TkLParen, TkLBracket, TkComma, TkStarOp, TkOpName, TkRelOp, TkAddOp, TkSlash, TkDSlash, TkPipe}"

definition classifyName :: "xtext \<Rightarrow> rune list \<Rightarrow> bool \<Rightarrow> xtoken" where
  "classifyName name rest operandPos =
     (let r = dropWhile is_blank rest in
      if r \<noteq> [] \<and> hd r = rn CHR ''('' then Tok TkFunc name
      else if 2 \<le> length r \<and> r ! 0 = rn CHR '':'' \<and> r ! 1 = rn CHR '':'' then Tok TkAxis name
      else if \<not> operandPos \<and> name \<in> {runes_of ''and'', runes_of ''or'', runes_of ''div'', runes_of ''mod''} then Tok TkOpName name
      else Tok TkName name)"

text \<open>The one-character tokens.\<close>
definition punctuation :: "rune \<Rightarrow> tok_kind option" where
  "punctuation c =
     (if c = rn CHR ''('' then Some TkLParen
      else if c = rn CHR '')'' then Some TkRParen
      else if c = rn CHR ''['' then Some TkLBracket
      else if c = rn CHR '']'' then Some TkRBracket
      else if c = rn CHR '','' then Some TkComma
      else if c = rn CHR ''|'' then Some TkPipe
      else if c = rn CHR ''@'' then Some TkAt
      else if c = rn CHR ''$'' then Some TkDollar
      else if c = rn CHR ''+'' \<or> c = rn CHR ''-'' then Some TkAddOp
      else if c = rn CHR ''='' then Some TkRelOp
      else None)"

text \<open>The next rune is \<open>d\<close>: the tests \<open>i+1 < len(rs) && rs[i+1] == d\<close>.\<close>
abbreviation next_is :: "rune list \<Rightarrow> char \<Rightarrow> bool" where
  "next_is r d \<equiv> r \<noteq> [] \<and> hd r = rn d"

text \<open>A name that starts the text \<open>s\<close>, with its prefix, and what follows it.\<close>
definition qname_at :: "rune list \<Rightarrow> xtext \<times> rune list" where
  "qname_at s =
     (let name = takeWhile isNameChar s; r = dropWhile isNameChar s in
      if 2 \<le> length r \<and> r ! 0 = rn CHR '':'' \<and> r ! 1 \<noteq> rn CHR '':'' \<and> isNameStart (r ! 1)
      then (name @ rn CHR '':'' # takeWhile isNameChar (tl r), dropWhile isNameChar (tl r))
      else (name, r))"

lemma qname_at_shorter:
  assumes "isNameStart c" "qname_at (c # s) = (name, r)"
  shows "length r \<le> length s"
proof -
  have c: "isNameChar c" using assms(1) by (simp add: isNameChar_def)
  have "length (dropWhile isNameChar (tl (dropWhile isNameChar s))) \<le> length (tl (dropWhile isNameChar s))"
    by (rule length_dropWhile_le)
  also have "\<dots> \<le> length s" using length_dropWhile_le[of isNameChar s] by simp
  finally show ?thesis
    using assms(2) c length_dropWhile_le[of isNameChar s] by (auto simp: qname_at_def Let_def split: if_splits)
qed

function lex_loop :: "rune list \<Rightarrow> xtoken list \<Rightarrow> xpath_error + xtoken list" where
  "lex_loop [] toks = Inr (toks @ [Tok TkEOF []])"
| "lex_loop (c # r) toks =
     (if is_blank c then lex_loop r toks
      else if c = 0x27 \<or> c = 0x22 then
        let s = takeWhile (\<lambda>x. x \<noteq> c) r; r' = dropWhile (\<lambda>x. x \<noteq> c) r in
        if r' = [] then Inl UnterminatedLiteral else lex_loop (tl r') (toks @ [Tok TkLiteral s])
      else if digit_rune c \<or> (c = rn CHR ''.'' \<and> r \<noteq> [] \<and> digit_rune (hd r)) then
        let num = (\<lambda>x. digit_rune x \<or> x = rn CHR ''.'') in
        lex_loop (dropWhile num r) (toks @ [Tok TkNumber (c # takeWhile num r)])
      else if c = rn CHR ''/'' then
        if next_is r CHR ''/'' then lex_loop (tl r) (toks @ [Tok TkDSlash (runes_of ''//'')])
        else lex_loop r (toks @ [Tok TkSlash (runes_of ''/'')])
      else if c = rn CHR ''.'' then
        if next_is r CHR ''.'' then lex_loop (tl r) (toks @ [Tok TkDotDot (runes_of ''..'')])
        else lex_loop r (toks @ [Tok TkDot (runes_of ''.'')])
      else case punctuation c of
        Some k \<Rightarrow> lex_loop r (toks @ [Tok k [c]])
      | None \<Rightarrow>
        if c = rn CHR ''!'' then
          if next_is r CHR ''='' then lex_loop (tl r) (toks @ [Tok TkRelOp (runes_of ''!='')])
          else Inl UnexpectedBang
        else if c = rn CHR ''<'' \<or> c = rn CHR ''>'' then
          if next_is r CHR ''='' then lex_loop (tl r) (toks @ [Tok TkRelOp [c, rn CHR ''='']])
          else lex_loop r (toks @ [Tok TkRelOp [c]])
        else if c = rn CHR ''*'' then
          lex_loop r (toks @ [Tok (if prevAllowsOperand toks then TkStarTest else TkStarOp) [c]])
        else if c = rn CHR '':'' \<and> next_is r CHR '':'' then
          lex_loop (tl r) (toks @ [Tok TkColonColon (runes_of ''::'')])
        else if isNameStart c then
          (case qname_at (c # r) of (name, r') \<Rightarrow> lex_loop r' (toks @ [classifyName name r' (prevAllowsOperand toks)]))
        else Inl (UnexpectedCharacter c))"
  by pat_completeness auto
termination
proof (relation "measure (length \<circ> fst)", goal_cases)
  case (3 c r toks x xa)
  then show ?case using length_dropWhile_le[of "\<lambda>x. x \<noteq> c" r] by simp
next
  case (4 c r toks x)
  then show ?case using length_dropWhile_le[of x r] by (simp add: le_imp_less_Suc)
qed (auto simp: le_imp_less_Suc dest!: qname_at_shorter[OF _ sym])

definition lexXPath :: "rune list \<Rightarrow> xpath_error + xtoken list" where
  "lexXPath input = lex_loop input []"

subsection \<open>Expressions\<close>

datatype 'n xexpr =
    XNumber 'n
  | XLiteral xtext
  | XBinary xtext "'n xexpr" "'n xexpr"
  | XNeg "'n xexpr"
  | XCall xtext "'n xexpr list"
  | XLocation bool "'n xexpr option" "'n xstep list"
and 'n xstep = XStep string xtext "'n xexpr list"

definition any_node :: xtext where "any_node = runes_of ''node()''"

definition descendant_step :: "'n xstep" where
  "descendant_step = XStep ''descendant-or-self'' any_node []"

subsection \<open>The parser\<close>

text \<open>
  The calls of the parser.  \<open>Level 0\<close> to \<open>Level 5\<close> are \<open>parseOr\<close>, \<open>parseAnd\<close>, \<open>parseEquality\<close>,
  \<open>parseRelational\<close>, \<open>parseAdditive\<close> and \<open>parseMultiplicative\<close>, which differ in their operators only.
  The loops carry what they have built: the steps of a location path under construction are arguments
  of \<open>Steps\<close> (\<open>parseStep\<close> in \<open>parseRelativeSteps\<close>), of \<open>Preds\<close> (the loop of \<open>finishStep\<close>) and of
  \<open>MoreSteps\<close> (the loop of \<open>parseRelativeSteps\<close>), and the arguments of a function of \<open>Args\<close>.
\<close>
datatype 'n xcall =
    Level nat | LevelLoop nat "'n xexpr" | Unary | Unions | UnionLoop "'n xexpr" | Path | Primary
  | Steps bool "'n xexpr option" "'n xstep list"
  | Preds bool "'n xexpr option" "'n xstep list" xtext "'n xexpr list"
  | MoreSteps bool "'n xexpr option" "'n xstep list"
  | Args xtext "'n xexpr list"

datatype 'n xresult = Parsed "'n xexpr" "xtoken list" | Failed xpath_error | Panicked

definition level_op :: "nat \<Rightarrow> xtoken \<Rightarrow> xtext option" where
  "level_op n t =
     (let k = tkKind t; x = tkText t in
      if n = 0 then (if k = TkOpName \<and> x = runes_of ''or'' then Some x else None)
      else if n = 1 then (if k = TkOpName \<and> x = runes_of ''and'' then Some x else None)
      else if n = 2 then (if k = TkRelOp \<and> (x = runes_of ''='' \<or> x = runes_of ''!='') then Some x else None)
      else if n = 3 then (if k = TkRelOp \<and> x \<noteq> runes_of ''='' \<and> x \<noteq> runes_of ''!='' then Some x else None)
      else if n = 4 then (if k = TkAddOp then Some x else None)
      else if k = TkStarOp \<or> (k = TkOpName \<and> (x = runes_of ''div'' \<or> x = runes_of ''mod''))
        then Some (if x = runes_of ''*'' then runes_of ''mul'' else x) else None)"

definition isStepStart :: "tok_kind \<Rightarrow> bool" where
  "isStepStart k \<longleftrightarrow> k \<in> {TkName, TkStarTest, TkDot, TkDotDot, TkFunc}"

text \<open>A call first, then what to do with its expression; an error or a panic goes through.\<close>
abbreviation and_then :: "'n xresult \<Rightarrow> ('n xexpr \<Rightarrow> xtoken list \<Rightarrow> 'n xresult) \<Rightarrow> 'n xresult" where
  "and_then r k \<equiv> (case r of Parsed e ts \<Rightarrow> k e ts | Failed x \<Rightarrow> Failed x | Panicked \<Rightarrow> Panicked)"

text \<open>The current token, and what is left after it.\<close>
abbreviation on_cur :: "xtoken list \<Rightarrow> (xtoken \<Rightarrow> xtoken list \<Rightarrow> 'n xresult) \<Rightarrow> 'n xresult" where
  "on_cur ts k \<equiv> (case ts of [] \<Rightarrow> Panicked | t # rest \<Rightarrow> k t rest)"

definition child_step :: "'n xstep list \<Rightarrow> xtext \<Rightarrow> 'n xexpr list \<Rightarrow> 'n xstep list" where
  "child_step acc test preds = acc @ [XStep ''child'' test preds]"

function (domintros) xparse :: "(xtext \<Rightarrow> 'n option) \<Rightarrow> 'n xcall \<Rightarrow> xtoken list \<Rightarrow> 'n xresult" where
  "xparse pf (Level n) ts =
     and_then (xparse pf (if n < 5 then Level (Suc n) else Unary) ts) (\<lambda>lhs ts. xparse pf (LevelLoop n lhs) ts)"
| "xparse pf (LevelLoop n lhs) ts = on_cur ts (\<lambda>t rest.
     case level_op n t of
       None \<Rightarrow> Parsed lhs ts
     | Some op \<Rightarrow> and_then (xparse pf (if n < 5 then Level (Suc n) else Unary) rest)
         (\<lambda>rhs ts. xparse pf (LevelLoop n (XBinary op lhs rhs)) ts))"
| "xparse pf Unary ts = on_cur ts (\<lambda>t rest.
     if tkKind t = TkAddOp \<and> tkText t = runes_of ''-'' then and_then (xparse pf Unary rest) (\<lambda>x ts. Parsed (XNeg x) ts)
     else xparse pf Unions ts)"
| "xparse pf Unions ts = and_then (xparse pf Path ts) (\<lambda>lhs ts. xparse pf (UnionLoop lhs) ts)"
| "xparse pf (UnionLoop lhs) ts = on_cur ts (\<lambda>t rest.
     if tkKind t = TkPipe then
       and_then (xparse pf Path rest) (\<lambda>rhs ts. xparse pf (UnionLoop (XBinary (runes_of ''|'') lhs rhs)) ts)
     else Parsed lhs ts)"
| "xparse pf Path ts = on_cur ts (\<lambda>t rest.
     if tkKind t \<in> {TkNumber, TkLiteral, TkFunc, TkLParen} then
       and_then (xparse pf Primary ts) (\<lambda>primary ts. on_cur ts (\<lambda>t rest.
         if tkKind t = TkDSlash then xparse pf (Steps False (Some primary) [descendant_step]) rest
         else if tkKind t = TkSlash then xparse pf (Steps False (Some primary) []) rest
         else Parsed primary ts))
     else if tkKind t = TkSlash then
       on_cur rest (\<lambda>u _. if isStepStart (tkKind u) then xparse pf (Steps True None []) rest
         else Parsed (XLocation True None []) rest)
     else if tkKind t = TkDSlash then xparse pf (Steps True None [descendant_step]) rest
     else xparse pf (Steps False None []) ts)"
| "xparse pf (Steps absolute start acc) ts = on_cur ts (\<lambda>t rest.
     if tkKind t = TkDot then xparse pf (MoreSteps absolute start (acc @ [XStep ''self'' any_node []])) rest
     else if tkKind t = TkDotDot then xparse pf (MoreSteps absolute start (acc @ [XStep ''parent'' any_node []])) rest
     else if tkKind t = TkName then xparse pf (Preds absolute start acc (tkText t) []) rest
     else if tkKind t = TkStarTest then xparse pf (Preds absolute start acc (runes_of ''*'') []) rest
     else if tkKind t = TkFunc then
       on_cur rest (\<lambda>u rest1.
         if tkKind u \<noteq> TkLParen then Failed (ExpectedLParenAfter (tkText t))
         else on_cur rest1 (\<lambda>v rest2.
           if tkKind v \<noteq> TkRParen then Failed (NodeTypeArguments (tkText t))
           else if tkText t \<noteq> runes_of ''node'' then Failed (NodeTypeUnsupported (tkText t))
           else xparse pf (Preds absolute start acc any_node []) rest2))
     else Failed (UnexpectedStep (tkText t)))"
| "xparse pf (Preds absolute start acc test preds) ts = on_cur ts (\<lambda>t rest.
     if tkKind t = TkLBracket then
       and_then (xparse pf (Level 0) rest) (\<lambda>pred ts. on_cur ts (\<lambda>u rest.
         if tkKind u \<noteq> TkRBracket then Failed ExpectedRBracket
         else xparse pf (Preds absolute start acc test (preds @ [pred])) rest))
     else xparse pf (MoreSteps absolute start (child_step acc test preds)) ts)"
| "xparse pf (MoreSteps absolute start acc) ts = on_cur ts (\<lambda>t rest.
     if tkKind t = TkDSlash then xparse pf (Steps absolute start (acc @ [descendant_step])) rest
     else if tkKind t = TkSlash then xparse pf (Steps absolute start acc) rest
     else Parsed (XLocation absolute start acc) ts)"
| "xparse pf Primary ts = on_cur ts (\<lambda>t rest.
     if tkKind t = TkNumber then (case pf (tkText t) of None \<Rightarrow> Failed (InvalidNumber (tkText t)) | Some v \<Rightarrow> Parsed (XNumber v) rest)
     else if tkKind t = TkLiteral then Parsed (XLiteral (tkText t)) rest
     else if tkKind t = TkLParen then
       and_then (xparse pf (Level 0) rest) (\<lambda>e ts. on_cur ts (\<lambda>u rest.
         if tkKind u \<noteq> TkRParen then Failed ExpectedRParen else Parsed e rest))
     else if tkKind t = TkFunc then
       on_cur rest (\<lambda>u rest1.
         if tkKind u \<noteq> TkLParen then Failed (ExpectedCallLParen (tkText t))
         else on_cur rest1 (\<lambda>v rest2.
           if tkKind v \<noteq> TkRParen then xparse pf (Args (tkText t) []) rest1
           else Parsed (XCall (tkText t) []) rest2))
     else Failed (UnexpectedToken (tkText t)))"
| "xparse pf (Args name acc) ts =
     and_then (xparse pf (Level 0) ts) (\<lambda>arg ts. on_cur ts (\<lambda>t rest.
       if tkKind t = TkComma then xparse pf (Args name (acc @ [arg])) rest
       else if tkKind t \<noteq> TkRParen then Failed (ExpectedCallRParen name)
       else Parsed (XCall name (acc @ [arg])) rest))"
  by pat_completeness auto

text \<open>What a call leaves is no longer than what it was given.\<close>
definition short :: "nat \<Rightarrow> 'n xresult \<Rightarrow> bool" where
  "short n r \<longleftrightarrow> (\<forall>e ts. r = Parsed e ts \<longrightarrow> length ts \<le> n)"

lemma short_simps [simp]: "short n (Failed x)" "short n Panicked" "short n (Parsed e ts) = (length ts \<le> n)"
  by (simp_all add: short_def)

lemma short_then: "short n r \<Longrightarrow> (\<And>e ts. r = Parsed e ts \<Longrightarrow> length ts \<le> n \<Longrightarrow> short m (k e ts)) \<Longrightarrow> short m (and_then r k)"
  by (cases r) (auto simp: short_def)

lemma short_cur: "(\<And>t rest. ts = t # rest \<Longrightarrow> short n (k t rest)) \<Longrightarrow> short n (on_cur ts k)"
  by (cases ts) auto

lemma short_mono: "short m r \<Longrightarrow> m \<le> n \<Longrightarrow> short n r"
  by (auto simp: short_def)

lemma short_if: "(P \<Longrightarrow> short n a) \<Longrightarrow> (\<not> P \<Longrightarrow> short n b) \<Longrightarrow> short n (if P then a else b)"
  by simp

lemma short_option: "(\<And>x. r = Some x \<Longrightarrow> short n (k x)) \<Longrightarrow> (r = None \<Longrightarrow> short n d) \<Longrightarrow> short n (case r of None \<Rightarrow> d | Some x \<Rightarrow> k x)"
  by (cases r) auto

lemmas short_rules = short_cur short_if short_option

lemma xparse_short: "xparse_dom (pf, call, ts) \<Longrightarrow> short (length ts) (xparse pf call ts)"
proof (induction pf call ts rule: xparse.pinduct)
  case (1 pf n ts)
  show ?case unfolding xparse.psimps(1)[OF 1(1)]
    by (rule short_then[OF 1(2)]) (rule short_mono[OF 1(3)], assumption+)
next
  case (2 pf n lhs ts)
  show ?case unfolding xparse.psimps(2)[OF 2(1)]
    by (intro short_rules, rule short_then[OF 2(2)], assumption+, rule short_mono[OF 2(3)], assumption+) simp_all
next
  case (3 pf ts)
  show ?case unfolding xparse.psimps(3)[OF 3(1)]
    by (intro short_rules, rule short_then[OF 3(2)], assumption+, simp, rule 3(3), assumption+)
next
  case (4 pf ts)
  show ?case unfolding xparse.psimps(4)[OF 4(1)]
    by (rule short_then[OF 4(2)]) (rule short_mono[OF 4(3)], assumption+)
next
  case (5 pf lhs ts)
  show ?case unfolding xparse.psimps(5)[OF 5(1)]
    by (intro short_rules, rule short_then[OF 5(2)], assumption+, rule short_mono[OF 5(3)], assumption+) simp_all
next
  case (6 pf ts)
  show ?case unfolding xparse.psimps(6)[OF 6(1)]
    apply (intro short_rules)
        apply (rule short_then[OF 6(2)], assumption+)
        apply (intro short_rules)
          apply (rule short_mono[OF 6(3)], assumption+, simp)
         apply (rule short_mono[OF 6(4)], assumption+, simp, simp)
       apply (rule short_mono[OF 6(5)], assumption+, simp, simp)
     apply (rule short_mono[OF 6(6)], assumption+, simp)
    apply (rule short_mono[OF 6(7)], assumption+, simp)
    done
next
  case (7 pf absolute start acc ts)
  show ?case unfolding xparse.psimps(7)[OF 7(1)]
    apply (intro short_rules)
            apply (rule short_mono[OF 7(2)], assumption+, simp)
           apply (rule short_mono[OF 7(3)], assumption+, simp)
          apply (rule short_mono[OF 7(4)], assumption+, simp)
         apply (rule short_mono[OF 7(5)], assumption+, simp)
        apply (simp_all)[3]
     apply (rule short_mono[OF 7(6)], assumption+, simp, simp)
    done
next
  case (8 pf absolute start acc test preds ts)
  show ?case unfolding xparse.psimps(8)[OF 8(1)]
    apply (intro short_rules)
     apply (rule short_then[OF 8(2)], assumption+)
     apply (intro short_rules, simp)
     apply (rule short_mono[OF 8(3)], assumption+, simp)
    apply (rule short_mono[OF 8(4)], assumption+, simp)
    done
next
  case (9 pf absolute start acc ts)
  show ?case unfolding xparse.psimps(9)[OF 9(1)]
    apply (intro short_rules)
      apply (rule short_mono[OF 9(2)], assumption+, simp)
     apply (rule short_mono[OF 9(3)], assumption+, simp, simp)
    done
next
  case (10 pf ts)
  show ?case unfolding xparse.psimps(10)[OF 10(1)]
    apply (intro short_rules)
          apply (simp_all)[3]
       apply (rule short_then[OF 10(2)], assumption+)
       apply (intro short_rules, simp, simp, simp)
     apply (rule short_mono[OF 10(3)], assumption+, simp)
     apply (simp_all)[2]
    done
next
  case (11 pf name acc ts)
  show ?case unfolding xparse.psimps(11)[OF 11(1)]
    apply (rule short_then[OF 11(2)])
    apply (intro short_rules)
      apply (rule short_mono[OF 11(3)], assumption+, simp)
     apply (simp_all)[2]
    done
qed

fun xcall_rank :: "'n xcall \<Rightarrow> nat" where
  "xcall_rank (Args name acc) = 30"
| "xcall_rank (Level n) = 20 - min n 5"
| "xcall_rank Unary = 10"
| "xcall_rank Unions = 9"
| "xcall_rank Path = 8"
| "xcall_rank Primary = 7"
| "xcall_rank (Steps absolute start acc) = 7"
| "xcall_rank (Preds absolute start acc test preds) = 6"
| "xcall_rank (MoreSteps absolute start acc) = 5"
| "xcall_rank _ = 0"

lemma xparse_shrinks: "xparse_dom (pf, call, ts) \<Longrightarrow> xparse pf call ts = Parsed e ts' \<Longrightarrow> length ts' \<le> length ts"
  using xparse_short[of pf call ts] by (simp add: short_def)

termination xparse
  by (relation "measures [\<lambda>(pf, call, ts). length ts, \<lambda>(pf, call, ts). xcall_rank call]")
    (auto dest!: xparse_shrinks simp: le_imp_less_Suc)

declare xparse.simps [simp del]

text \<open>On success the tokens left are those from the end token on.\<close>
definition parseXPath :: "(xtext \<Rightarrow> 'n option) \<Rightarrow> rune list \<Rightarrow> 'n xresult" where
  "parseXPath pf input =
     (case lexXPath input of
        Inl e \<Rightarrow> Failed e
      | Inr toks \<Rightarrow> and_then (xparse pf (Level 0) toks) (\<lambda>e ts. on_cur ts (\<lambda>t _.
          if tkKind t \<noteq> TkEOF then Failed (TrailingTokens (tkText t)) else Parsed e ts)))"

end
