(* ===== verification/Xpath_Grammar.thy ===== *)
theory Xpath_Grammar
  imports Xpath_Parse
begin

text \<open>
  The grammar of the expressions the parser reads, with the trees it gives, and the proofs that the
  parser never reads past its tokens and that it accepts exactly the sequences of the grammar.
\<close>

subsection \<open>The parser never reads past the end token\<close>

definition ends_eof :: "xtoken list \<Rightarrow> bool" where
  "ends_eof ts \<longleftrightarrow> ts \<noteq> [] \<and> tkKind (last ts) = TkEOF"

lemma ends_eof_Cons [simp]: "tkKind t \<noteq> TkEOF \<Longrightarrow> ends_eof (t # ts) = ends_eof ts"
  by (simp add: ends_eof_def)

lemma not_ends_eof [simp]: "\<not> ends_eof []"
  by (simp add: ends_eof_def)

definition safe :: "'n xresult \<Rightarrow> bool" where
  "safe r \<longleftrightarrow> r \<noteq> Panicked \<and> (\<forall>e ts. r = Parsed e ts \<longrightarrow> ends_eof ts)"

lemma safe_simps [simp]: "safe (Failed x)" "\<not> safe Panicked" "safe (Parsed e ts) = ends_eof ts"
  by (simp_all add: safe_def)

lemma safe_then: "safe r \<Longrightarrow> (\<And>e ts. r = Parsed e ts \<Longrightarrow> ends_eof ts \<Longrightarrow> safe (k e ts)) \<Longrightarrow> safe (and_then r k)"
  by (cases r) auto

lemma safe_cur: "ends_eof ts \<Longrightarrow> (\<And>t rest. ts = t # rest \<Longrightarrow> safe (k t rest)) \<Longrightarrow> safe (on_cur ts k)"
  by (cases ts) auto

lemma safe_if: "(P \<Longrightarrow> safe a) \<Longrightarrow> (\<not> P \<Longrightarrow> safe b) \<Longrightarrow> safe (if P then a else b)"
  by simp

lemma safe_option: "(\<And>x. r = Some x \<Longrightarrow> safe (k x)) \<Longrightarrow> (r = None \<Longrightarrow> safe d) \<Longrightarrow> safe (case r of None \<Rightarrow> d | Some x \<Rightarrow> k x)"
  by (cases r) auto

lemmas safe_rules = safe_cur safe_if safe_option

lemma level_op_not_eof: "level_op n t = Some op \<Longrightarrow> tkKind t \<noteq> TkEOF"
  by (auto simp: level_op_def Let_def split: if_splits)

lemma ends_tl: "ends_eof ts \<Longrightarrow> ts = t # rest \<Longrightarrow> tkKind t \<noteq> TkEOF \<Longrightarrow> ends_eof rest"
  by simp

lemma xparse_safe: "ends_eof ts \<Longrightarrow> safe (xparse pf call ts)"
proof (induction pf call ts rule: xparse.induct)
  case (1 pf n ts)
  show ?case
    by (subst xparse.simps(1), rule safe_then[OF 1(1)[OF 1(3)]]) (rule 1(2), assumption+)
next
  case (2 pf n lhs ts)
  note tl = ends_tl[OF 2(3)]
  show ?case
    apply (subst xparse.simps(2))
    apply (intro safe_rules 2(3))
     apply (rule safe_then[OF 2(1)], assumption+, rule tl, assumption, rule level_op_not_eof, assumption)
     apply (rule 2(2), assumption+)
    apply (use 2(3) in simp)
    done
next
  case (3 pf ts)
  note tl = ends_tl[OF 3(3)]
  show ?case
    apply (subst xparse.simps(3))
    apply (intro safe_rules 3(3))
     apply (rule safe_then[OF 3(1)], assumption+, rule tl, assumption, simp, simp)
    apply (rule 3(2), assumption+, rule 3(3))
    done
next
  case (4 pf ts)
  show ?case
    by (subst xparse.simps(4), rule safe_then[OF 4(1)[OF 4(3)]]) (rule 4(2), assumption+)
next
  case (5 pf lhs ts)
  note tl = ends_tl[OF 5(3)]
  show ?case
    apply (subst xparse.simps(5))
    apply (intro safe_rules 5(3))
     apply (rule safe_then[OF 5(1)], assumption+, rule tl, assumption, simp)
     apply (rule 5(2), assumption+)
    apply (use 5(3) in simp)
    done
next
  case (6 pf ts)
  note tl = ends_tl[OF 6(7)]
  show ?case
    apply (subst xparse.simps(6))
    apply (intro safe_cur[OF 6(7)] safe_if)
        apply (rule safe_then[OF 6(1)], assumption+, rule 6(7))
        apply (rule safe_cur, assumption, intro safe_if)
          apply (rule 6(2), assumption+, rule ends_tl, assumption+, simp)
         apply (rule 6(3), assumption+, rule ends_tl, assumption+, simp, simp)
       apply (rule safe_cur, rule tl, assumption, simp, intro safe_if)
        apply (rule 6(4), assumption+, rule tl, assumption, simp)
       apply (simp, rule tl, assumption, simp)
      apply (rule 6(5), assumption+, rule tl, assumption, simp)
     apply (rule 6(6), assumption+, rule 6(7))
    done
next
  case (7 pf absolute start acc ts)
  note tl = ends_tl[OF 7(6)]
  show ?case
    apply (subst xparse.simps(7))
    apply (intro safe_cur[OF 7(6)] safe_if)
         apply (rule 7(1), assumption+, rule tl, assumption, simp)
        apply (rule 7(2), assumption+, rule tl, assumption, simp)
       apply (rule 7(3), assumption+, rule tl, assumption, simp)
      apply (rule 7(4), assumption+, rule tl, assumption, simp)
     apply (rule safe_cur, rule tl, assumption, simp, intro safe_if, simp)
     apply (rule safe_cur, rule ends_tl, rule tl, assumption, simp, assumption, simp, intro safe_if, simp, simp)
     apply (rule 7(5), assumption+, rule ends_tl, rule ends_tl, rule tl, assumption, simp, assumption, simp, assumption, simp)
    apply simp
    done
next
  case (8 pf absolute start acc test preds ts)
  note tl = ends_tl[OF 8(4)]
  show ?case
    apply (subst xparse.simps(8))
    apply (intro safe_cur[OF 8(4)] safe_if)
     apply (rule safe_then[OF 8(1)], assumption+, rule tl, assumption, simp)
     apply (rule safe_cur, assumption, intro safe_if, simp)
     apply (rule 8(2), assumption+, rule ends_tl, assumption+, simp)
    apply (rule 8(3), assumption+, rule 8(4))
    done
next
  case (9 pf absolute start acc ts)
  note tl = ends_tl[OF 9(3)]
  show ?case
    apply (subst xparse.simps(9))
    apply (intro safe_cur[OF 9(3)] safe_if)
      apply (rule 9(1), assumption+, rule tl, assumption, simp)
     apply (rule 9(2), assumption+, rule tl, assumption, simp)
    apply (use 9(3) in simp)
    done
next
  case (10 pf ts)
  note tl = ends_tl[OF 10(3)]
  show ?case
    apply (subst xparse.simps(10))
    apply (intro safe_cur[OF 10(3)] safe_if safe_option)
          apply (simp, rule tl, assumption, simp)
         apply simp
        apply (simp, rule tl, assumption, simp)
       apply (rule safe_then[OF 10(1)], assumption+, rule tl, assumption, simp)
       apply (rule safe_cur, assumption, intro safe_if, simp, simp)
      apply (rule safe_cur, rule tl, assumption, simp, intro safe_if, simp)
      apply (rule safe_cur, rule ends_tl, rule tl, assumption, simp, assumption, simp, intro safe_if)
       apply (rule 10(2), assumption+, rule ends_tl, rule tl, assumption, simp, assumption, simp)
      apply (use 10(3) in simp)
     apply simp
    done
next
  case (11 pf name acc ts)
  show ?case
    apply (subst xparse.simps(11))
    apply (rule safe_then[OF 11(1)[OF 11(3)]])
    apply (rule safe_cur, assumption, intro safe_if)
      apply (rule 11(2), assumption+, rule ends_tl, assumption+, simp)
     apply simp
    apply simp
    done
qed

subsection \<open>The grammar\<close>

text \<open>
  \<open>lev n\<close> is the language of \<open>Level n\<close>, and \<open>lev 6\<close> that of \<open>Unary\<close>; \<open>more_steps\<close> is what may follow a step
  or a primary expression in a location path.
\<close>
inductive lev :: "(xtext \<Rightarrow> 'n option) \<Rightarrow> nat \<Rightarrow> xtoken list \<Rightarrow> 'n xexpr \<Rightarrow> bool"
  and unions :: "(xtext \<Rightarrow> 'n option) \<Rightarrow> xtoken list \<Rightarrow> 'n xexpr \<Rightarrow> bool"
  and path_expr :: "(xtext \<Rightarrow> 'n option) \<Rightarrow> xtoken list \<Rightarrow> 'n xexpr \<Rightarrow> bool"
  and primary_expr :: "(xtext \<Rightarrow> 'n option) \<Rightarrow> xtoken list \<Rightarrow> 'n xexpr \<Rightarrow> bool"
  and steps :: "(xtext \<Rightarrow> 'n option) \<Rightarrow> xtoken list \<Rightarrow> 'n xstep list \<Rightarrow> bool"
  and more_steps :: "(xtext \<Rightarrow> 'n option) \<Rightarrow> xtoken list \<Rightarrow> 'n xstep list \<Rightarrow> bool"
  and one_step :: "(xtext \<Rightarrow> 'n option) \<Rightarrow> xtoken list \<Rightarrow> 'n xstep \<Rightarrow> bool"
  and predicates :: "(xtext \<Rightarrow> 'n option) \<Rightarrow> xtoken list \<Rightarrow> 'n xexpr list \<Rightarrow> bool"
  and arguments :: "(xtext \<Rightarrow> 'n option) \<Rightarrow> xtoken list \<Rightarrow> 'n xexpr list \<Rightarrow> bool"
  for pf where
  lev_up: "n < 6 \<Longrightarrow> lev pf (Suc n) s e \<Longrightarrow> lev pf n s e"
| lev_op: "n < 6 \<Longrightarrow> lev pf n s e \<Longrightarrow> level_op n t = Some op \<Longrightarrow> lev pf (Suc n) s' e' \<Longrightarrow> lev pf n (s @ t # s') (XBinary op e e')"
| lev_neg: "tkKind t = TkAddOp \<Longrightarrow> tkText t = runes_of ''-'' \<Longrightarrow> lev pf 6 s e \<Longrightarrow> lev pf 6 (t # s) (XNeg e)"
| lev_union: "unions pf s e \<Longrightarrow> lev pf 6 s e"
| union_one: "path_expr pf s e \<Longrightarrow> unions pf s e"
| union_more: "unions pf s e \<Longrightarrow> tkKind t = TkPipe \<Longrightarrow> path_expr pf s' e' \<Longrightarrow> unions pf (s @ t # s') (XBinary (runes_of ''|'') e e')"
| path_primary: "primary_expr pf s e \<Longrightarrow> path_expr pf s e"
| path_from: "primary_expr pf s e \<Longrightarrow> more_steps pf s' l \<Longrightarrow> s' \<noteq> [] \<Longrightarrow> path_expr pf (s @ s') (XLocation False (Some e) l)"
| path_root: "tkKind t = TkSlash \<Longrightarrow> path_expr pf [t] (XLocation True None [])"
| path_abs: "more_steps pf s l \<Longrightarrow> s \<noteq> [] \<Longrightarrow> path_expr pf s (XLocation True None l)"
| path_rel: "steps pf s l \<Longrightarrow> tkKind (hd s) \<noteq> TkFunc \<Longrightarrow> path_expr pf s (XLocation False None l)"
| primary_number: "tkKind t = TkNumber \<Longrightarrow> pf (tkText t) = Some v \<Longrightarrow> primary_expr pf [t] (XNumber v)"
| primary_literal: "tkKind t = TkLiteral \<Longrightarrow> primary_expr pf [t] (XLiteral (tkText t))"
| primary_parens: "tkKind t = TkLParen \<Longrightarrow> lev pf 0 s e \<Longrightarrow> tkKind u = TkRParen \<Longrightarrow> primary_expr pf (t # s @ [u]) e"
| primary_call0: "tkKind t = TkFunc \<Longrightarrow> tkKind u = TkLParen \<Longrightarrow> tkKind v = TkRParen \<Longrightarrow> primary_expr pf [t, u, v] (XCall (tkText t) [])"
| primary_call: "tkKind t = TkFunc \<Longrightarrow> tkKind u = TkLParen \<Longrightarrow> arguments pf s es \<Longrightarrow> tkKind v = TkRParen \<Longrightarrow>
    primary_expr pf (t # u # s @ [v]) (XCall (tkText t) es)"
| steps_cons: "one_step pf s x \<Longrightarrow> more_steps pf s' l \<Longrightarrow> steps pf (s @ s') (x # l)"
| more_none: "more_steps pf [] []"
| more_slash: "tkKind t = TkSlash \<Longrightarrow> steps pf s l \<Longrightarrow> more_steps pf (t # s) l"
| more_dslash: "tkKind t = TkDSlash \<Longrightarrow> steps pf s l \<Longrightarrow> more_steps pf (t # s) (descendant_step # l)"
| step_self: "tkKind t = TkDot \<Longrightarrow> one_step pf [t] (XStep ''self'' any_node [])"
| step_parent: "tkKind t = TkDotDot \<Longrightarrow> one_step pf [t] (XStep ''parent'' any_node [])"
| step_name: "tkKind t = TkName \<Longrightarrow> predicates pf s ps \<Longrightarrow> one_step pf (t # s) (XStep ''child'' (tkText t) ps)"
| step_star: "tkKind t = TkStarTest \<Longrightarrow> predicates pf s ps \<Longrightarrow> one_step pf (t # s) (XStep ''child'' (runes_of ''*'') ps)"
| step_node: "tkKind t = TkFunc \<Longrightarrow> tkText t = runes_of ''node'' \<Longrightarrow> tkKind u = TkLParen \<Longrightarrow> tkKind v = TkRParen \<Longrightarrow>
    predicates pf s ps \<Longrightarrow> one_step pf (t # u # v # s) (XStep ''child'' any_node ps)"
| predicates_none: "predicates pf [] []"
| predicates_one: "tkKind t = TkLBracket \<Longrightarrow> lev pf 0 s e \<Longrightarrow> tkKind u = TkRBracket \<Longrightarrow> predicates pf s' ps \<Longrightarrow>
    predicates pf (t # s @ u # s') (e # ps)"
| arguments_one: "lev pf 0 s e \<Longrightarrow> arguments pf s [e]"
| arguments_more: "lev pf 0 s e \<Longrightarrow> tkKind t = TkComma \<Longrightarrow> arguments pf s' es \<Longrightarrow> arguments pf (s @ t # s') (e # es)"

lemmas grammar = lev_unions_path_expr_primary_expr_steps_more_steps_one_step_predicates_arguments.intros
lemmas grammar_induct = lev_unions_path_expr_primary_expr_steps_more_steps_one_step_predicates_arguments.inducts

subsection \<open>What the parser accepts is in the grammar\<close>

text \<open>The tokens that a call used, and the expression it gave, for what is in the grammar.\<close>
fun reads :: "(xtext \<Rightarrow> 'n option) \<Rightarrow> 'n xcall \<Rightarrow> xtoken list \<Rightarrow> 'n xexpr \<Rightarrow> bool" where
  "reads pf (Level n) s e \<longleftrightarrow> lev pf n s e"
| "reads pf (LevelLoop n lhs) s e \<longleftrightarrow> (\<forall>s0. lev pf n s0 lhs \<longrightarrow> lev pf n (s0 @ s) e)"
| "reads pf Unary s e \<longleftrightarrow> lev pf 6 s e"
| "reads pf Unions s e \<longleftrightarrow> unions pf s e"
| "reads pf (UnionLoop lhs) s e \<longleftrightarrow> (\<forall>s0. unions pf s0 lhs \<longrightarrow> unions pf (s0 @ s) e)"
| "reads pf Path s e \<longleftrightarrow> path_expr pf s e"
| "reads pf Primary s e \<longleftrightarrow> primary_expr pf s e"
| "reads pf (Steps absolute start acc) s e \<longleftrightarrow> (\<exists>l. steps pf s l \<and> e = XLocation absolute start (acc @ l))"
| "reads pf (Preds absolute start acc test preds) s e \<longleftrightarrow>
     (\<exists>s1 s2 ps l. s = s1 @ s2 \<and> predicates pf s1 ps \<and> more_steps pf s2 l \<and>
        e = XLocation absolute start (acc @ XStep ''child'' test (preds @ ps) # l))"
| "reads pf (MoreSteps absolute start acc) s e \<longleftrightarrow> (\<exists>l. more_steps pf s l \<and> e = XLocation absolute start (acc @ l))"
| "reads pf (Args name acc) s e \<longleftrightarrow>
     (\<exists>s1 v es. s = s1 @ [v] \<and> tkKind v = TkRParen \<and> arguments pf s1 es \<and> e = XCall name (acc @ es))"

definition leaves_rest :: "(xtoken list \<Rightarrow> 'n xexpr \<Rightarrow> bool) \<Rightarrow> xtoken list \<Rightarrow> 'n xresult \<Rightarrow> bool" where
  "leaves_rest A ts r \<longleftrightarrow> (\<forall>e ts'. r = Parsed e ts' \<longrightarrow> (\<exists>s. ts = s @ ts' \<and> A s e))"

lemma leaves_simps [simp]: "leaves_rest A ts (Failed x)" "leaves_rest A ts Panicked"
  by (simp_all add: leaves_rest_def)

lemma leaves_parsed: "A [] e \<Longrightarrow> leaves_rest A ts (Parsed e ts)"
  by (simp add: leaves_rest_def)

lemma leaves_tl: "ts = t # rest \<Longrightarrow> leaves_rest (\<lambda>s. A (t # s)) rest r \<Longrightarrow> leaves_rest A ts r"
  by (fastforce simp: leaves_rest_def)

lemma leaves_mono: "leaves_rest B ts r \<Longrightarrow> (\<And>s e. B s e \<Longrightarrow> A s e) \<Longrightarrow> leaves_rest A ts r"
  by (fastforce simp: leaves_rest_def)

lemma leaves_then:
  assumes "leaves_rest B ts r"
    "\<And>s e ts'. ts = s @ ts' \<Longrightarrow> B s e \<Longrightarrow> r = Parsed e ts' \<Longrightarrow> leaves_rest (\<lambda>s'. A (s @ s')) ts' (k e ts')"
  shows "leaves_rest A ts (and_then r k)"
proof (cases r)
  case (Parsed e ts')
  then obtain s where s: "ts = s @ ts'" "B s e" using assms(1) by (auto simp: leaves_rest_def)
  from assms(2)[OF s Parsed] s(1) show ?thesis by (fastforce simp: leaves_rest_def Parsed)
qed simp_all

lemma leaves_cur: "(\<And>t rest. ts = t # rest \<Longrightarrow> leaves_rest A ts (k t rest)) \<Longrightarrow> leaves_rest A ts (on_cur ts k)"
  by (cases ts) auto

lemma leaves_if: "(P \<Longrightarrow> leaves_rest A ts a) \<Longrightarrow> (\<not> P \<Longrightarrow> leaves_rest A ts b) \<Longrightarrow> leaves_rest A ts (if P then a else b)"
  by simp

lemma leaves_option: "(\<And>x. r = Some x \<Longrightarrow> leaves_rest A ts (k x)) \<Longrightarrow> (r = None \<Longrightarrow> leaves_rest A ts d) \<Longrightarrow>
    leaves_rest A ts (case r of None \<Rightarrow> d | Some x \<Rightarrow> k x)"
  by (cases r) auto

lemmas leaves_rules = leaves_cur leaves_if leaves_option

lemma leaves_mono_at: "leaves_rest B ts r \<Longrightarrow> (\<And>s e ts'. ts = s @ ts' \<Longrightarrow> B s e \<Longrightarrow> A s e) \<Longrightarrow> leaves_rest A ts r"
  by (fastforce simp: leaves_rest_def)

definition step_heads :: "tok_kind set" where
  "step_heads = {TkDot, TkDotDot, TkName, TkStarTest, TkFunc}"

lemma one_step_head: "one_step pf s x \<Longrightarrow> s \<noteq> [] \<and> tkKind (hd s) \<in> step_heads"
  by (erule one_step.cases) (auto simp: step_heads_def)

lemma steps_head: "steps pf s l \<Longrightarrow> s \<noteq> [] \<and> tkKind (hd s) \<in> step_heads"
  by (erule steps.cases) (auto dest: one_step_head)

lemma more_head: "more_steps pf s l \<Longrightarrow> s = [] \<and> l = [] \<or> s \<noteq> [] \<and> tkKind (hd s) \<in> {TkSlash, TkDSlash}"
  by (erule more_steps.cases) auto

lemma primary_head: "primary_expr pf s e \<Longrightarrow> s \<noteq> [] \<and> tkKind (hd s) \<in> {TkNumber, TkLiteral, TkFunc, TkLParen}"
  by (erule primary_expr.cases) auto

fun call_ok :: "'n xcall \<Rightarrow> bool" where
  "call_ok (Level n) = (n \<le> 5)"
| "call_ok (LevelLoop n lhs) = (n \<le> 5)"
| "call_ok _ = True"

lemma call_ok_operand: "n \<le> 5 \<Longrightarrow> call_ok (if n < 5 then Level (Suc n) else Unary)"
  by simp

lemma reads_operand: "n \<le> 5 \<Longrightarrow> reads pf (if n < 5 then Level (Suc n) else Unary) s e = lev pf (Suc n) s e"
  by (cases "n = 5") (auto simp: eval_nat_numeral)

lemma reads_predicate:
  assumes "tkKind t = TkLBracket" "lev pf 0 s e" "tkKind u = TkRBracket"
    "reads pf (Preds absolute start acc test (ps @ [e])) s' e'"
  shows "reads pf (Preds absolute start acc test ps) (t # s @ u # s') e'"
proof -
  obtain s1 s2 qs l where s: "s' = s1 @ s2" "predicates pf s1 qs" "more_steps pf s2 l"
    "e' = XLocation absolute start (acc @ XStep ''child'' test ((ps @ [e]) @ qs) # l)"
    using assms(4) by auto
  have "predicates pf (t # s @ u # s1) (e # qs)" using assms(1-3) s(2) by (rule predicates_one)
  then show ?thesis using s
    by (simp only: reads.simps) (intro exI[of _ "t # s @ u # s1"] exI[of _ s2] exI[of _ "e # qs"] exI[of _ l], simp)
qed

lemma xparse_sound: "call_ok call \<Longrightarrow> leaves_rest (reads pf call) ts (xparse pf call ts)"
proof (induction pf call ts rule: xparse.induct)
  case (1 pf n ts)
  then have n: "n \<le> 5" by simp
  show ?case
    apply (subst xparse.simps(1))
    apply (rule leaves_then[OF 1(1)[OF call_ok_operand[OF n]]])
    apply (rule leaves_mono[OF 1(2)], assumption, simp add: n)
    apply (use n in \<open>simp only: reads_operand reads.simps\<close>)
    apply (simp add: lev_up)
    done
next
  case (2 pf n lhs ts)
  then have n: "n \<le> 5" by simp
  show ?case
    apply (subst xparse.simps(2))
    apply (intro leaves_rules)
     apply (rule leaves_tl, assumption)
     apply (rule leaves_then[OF 2(1)[OF _ _ call_ok_operand[OF n]]], assumption+)
     apply (rule leaves_mono[OF 2(2)], assumption+, simp add: n)
     apply (use n in \<open>simp only: reads_operand reads.simps\<close>)
     apply (use lev_op[of n pf] in fastforce)
    apply (rule leaves_parsed, simp)
    done
next
  case (3 pf ts)
  show ?case
    apply (subst xparse.simps(3))
    apply (intro leaves_rules)
     apply (rule leaves_tl, assumption)
     apply (rule leaves_then[OF 3(1)], assumption+, simp)
     apply (rule leaves_parsed, simp add: lev_neg)
    apply (rule leaves_mono[OF 3(2)], assumption+, simp)
    apply (simp add: lev_union)
    done
next
  case (4 pf ts)
  show ?case
    apply (subst xparse.simps(4))
    apply (rule leaves_then[OF 4(1)], simp)
    apply (rule leaves_mono[OF 4(2)], assumption, simp)
    apply (simp add: union_one)
    done
next
  case (5 pf lhs ts)
  show ?case
    apply (subst xparse.simps(5))
    apply (intro leaves_rules)
     apply (rule leaves_tl, assumption)
     apply (rule leaves_then[OF 5(1)], assumption+, simp)
     apply (rule leaves_mono[OF 5(2)], assumption+, simp)
     apply (use union_more[of pf] in fastforce)
    apply (rule leaves_parsed, simp)
    done
next
  case (6 pf ts)
  show ?case
    apply (subst xparse.simps(6))
    apply (intro leaves_cur leaves_if)
        apply (rule leaves_then[OF 6(1)], assumption+, simp)
        apply (intro leaves_cur leaves_if)
          apply (rule leaves_tl, assumption)
          apply (rule leaves_mono[OF 6(2)], assumption+, simp)
          apply (use path_from[of pf] more_dslash[of _ pf] in fastforce)
         apply (rule leaves_tl, assumption)
         apply (rule leaves_mono[OF 6(3)], assumption+, simp, simp)
         apply (use path_from[of pf] more_slash[of _ pf] in fastforce)
        apply (rule leaves_parsed, simp add: path_primary)
       apply (rule leaves_tl, assumption)
       apply (intro leaves_cur leaves_if)
        apply (rule leaves_mono[OF 6(4)], assumption+, simp)
        apply (use path_abs[of pf] more_slash[of _ pf] in fastforce)
       apply (rule leaves_parsed, simp add: path_root)
      apply (rule leaves_tl, assumption)
      apply (rule leaves_mono[OF 6(5)], assumption+, simp)
      apply (use path_abs[of pf] more_dslash[of _ pf] in fastforce)
     apply (rule leaves_mono_at[OF 6(6)], assumption+, simp)
     apply (clarsimp, rule path_rel, assumption)
     apply (drule steps_head, auto simp: neq_Nil_conv)
    done
next
  case (7 pf absolute start acc ts)
  show ?case
    apply (subst xparse.simps(7))
    apply (intro leaves_cur leaves_if)
         apply (rule leaves_tl, assumption, rule leaves_mono[OF 7(1)], assumption+, simp)
         apply (use steps_cons[OF step_self] in fastforce)
        apply (rule leaves_tl, assumption, rule leaves_mono[OF 7(2)], assumption+, simp)
        apply (use steps_cons[OF step_parent] in fastforce)
       apply (rule leaves_tl, assumption, rule leaves_mono[OF 7(3)], assumption+, simp)
       apply (use steps_cons[OF step_name] in fastforce)
      apply (rule leaves_tl, assumption, rule leaves_mono[OF 7(4)], assumption+, simp)
      apply (use steps_cons[OF step_star] in fastforce)
     apply (rule leaves_tl, assumption, intro leaves_cur leaves_if, simp)
     apply (rule leaves_tl, assumption, intro leaves_cur leaves_if, simp, simp)
     apply (rule leaves_tl, assumption, rule leaves_mono[OF 7(5)], assumption+, simp)
     apply (use steps_cons[OF step_node] in fastforce)
    apply simp
    done
next
  case (8 pf absolute start acc test preds ts)
  show ?case
    apply (subst xparse.simps(8))
    apply (intro leaves_cur leaves_if)
     apply (rule leaves_tl, assumption, rule leaves_then[OF 8(1)], assumption+, simp)
     apply (intro leaves_cur leaves_if, simp)
     apply (rule leaves_tl, assumption, rule leaves_mono[OF 8(2)], assumption+, simp)
     apply (simp only: reads.simps(1) append_Cons append.assoc append_Nil not_not, rule reads_predicate, assumption+)
    apply (rule leaves_mono[OF 8(3)], assumption+, simp)
    apply (use predicates_none[of pf] in \<open>fastforce simp: child_step_def\<close>)
    done
next
  case (9 pf absolute start acc ts)
  show ?case
    apply (subst xparse.simps(9))
    apply (intro leaves_cur leaves_if)
      apply (rule leaves_tl, assumption, rule leaves_mono[OF 9(1)], assumption+, simp)
      apply (use more_dslash[of _ pf] in fastforce)
     apply (rule leaves_tl, assumption, rule leaves_mono[OF 9(2)], assumption+, simp)
     apply (use more_slash[of _ pf] in fastforce)
    apply (rule leaves_parsed, simp add: more_none)
    done
next
  case (10 pf ts)
  show ?case
    apply (subst xparse.simps(10))
    apply (intro leaves_cur leaves_if leaves_option)
          apply (rule leaves_tl, assumption, rule leaves_parsed, simp add: primary_number)
         apply simp
        apply (rule leaves_tl, assumption, rule leaves_parsed, simp add: primary_literal)
       apply (rule leaves_tl, assumption, rule leaves_then[OF 10(1)], assumption+, simp)
       apply (intro leaves_cur leaves_if, simp)
       apply (rule leaves_tl, assumption, rule leaves_parsed, simp add: primary_parens)
      apply (rule leaves_tl, assumption, intro leaves_cur leaves_if, simp)
      apply (rule leaves_tl, assumption, intro leaves_cur leaves_if)
       apply (rule leaves_mono[OF 10(2)], assumption+, simp)
       apply (use primary_call[of _ _ pf] in fastforce)
      apply (rule leaves_tl, assumption, rule leaves_parsed, simp add: primary_call0)
     apply simp
    done
next
  case (11 pf name acc ts)
  show ?case
    apply (subst xparse.simps(11))
    apply (rule leaves_then[OF 11(1)], simp)
    apply (intro leaves_cur leaves_if)
      apply (rule leaves_tl, assumption, rule leaves_mono[OF 11(2)], assumption+, simp)
      apply (use arguments_more[of pf] in fastforce)
     apply simp
    apply (rule leaves_tl, assumption, rule leaves_parsed)
    apply (use arguments_one[of pf] in fastforce)
    done
qed

end
