(* ===== verification/Xpath_Complete.thy ===== *)
theory Xpath_Complete
  imports Xpath_Grammar
begin

text \<open>
  The parser reads every sequence of the grammar as its tree: a phrase followed by a token that
  cannot continue it.  And the lexer ends its tokens with one end token.
\<close>

subsection \<open>What is in the grammar is accepted\<close>

text \<open>The token after a path, and the token after an operand of level \<open>n\<close>.\<close>
definition after_path :: "xtoken list \<Rightarrow> bool" where
  "after_path ts \<longleftrightarrow> ts \<noteq> [] \<and> tkKind (hd ts) \<notin> step_heads \<union> {TkSlash, TkDSlash, TkLBracket}"

definition after_level :: "nat \<Rightarrow> xtoken list \<Rightarrow> bool" where
  "after_level n ts \<longleftrightarrow> after_path ts \<and> tkKind (hd ts) \<noteq> TkPipe \<and> (\<forall>m. n \<le> m \<longrightarrow> m \<le> 5 \<longrightarrow> level_op m (hd ts) = None)"

lemma level_op_kind: "level_op n t = Some op \<Longrightarrow> tkKind t \<in> {TkOpName, TkRelOp, TkAddOp, TkStarOp}"
  by (auto simp: level_op_def Let_def split: if_splits)

lemma level_op_unique: "level_op n t = Some op \<Longrightarrow> n < m \<Longrightarrow> m \<le> 5 \<Longrightarrow> level_op m t = None"
proof -
  assume a: "level_op n t = Some op" "n < m" "m \<le> 5"
  have r: "runes_of ''or'' \<noteq> runes_of ''and''" "runes_of ''or'' \<noteq> runes_of ''div''" "runes_of ''or'' \<noteq> runes_of ''mod''"
    "runes_of ''and'' \<noteq> runes_of ''div''" "runes_of ''and'' \<noteq> runes_of ''mod''"
    by (simp_all add: runes_of_def)
  have "n \<in> {0,1,2,3,4}" "m \<in> {1,2,3,4,5}" using a by auto
  then show ?thesis using a r by (auto simp: level_op_def Let_def split: if_splits)
qed

lemma after_level_op: "level_op n t = Some op \<Longrightarrow> after_level (Suc n) (t # ts)"
  using level_op_kind[of n t op] level_op_unique[of n t op] by (auto simp: after_level_def after_path_def step_heads_def)

lemma after_level_mono: "after_level n ts \<Longrightarrow> n \<le> m \<Longrightarrow> after_level m ts"
  by (auto simp: after_level_def)

lemma after_closing:
  assumes "tkKind t \<in> {TkEOF, TkRParen, TkRBracket, TkComma}"
  shows "after_level n (t # ts)"
proof -
  have "level_op m t = None" for m using assms level_op_kind[of m t] by (cases "level_op m t") auto
  then show ?thesis using assms by (auto simp: after_level_def after_path_def step_heads_def)
qed

lemma after_pathE:
  assumes "after_path ts"
  obtains t rest where "ts = t # rest" "tkKind t \<notin> step_heads \<union> {TkSlash, TkDSlash, TkLBracket}"
  using assms by (cases ts) (auto simp: after_path_def)

lemma level_loop_ends: "after_level n ts \<Longrightarrow> n \<le> 5 \<Longrightarrow> xparse pf (LevelLoop n e) ts = Parsed e ts"
  by (cases ts) (auto simp: after_level_def after_path_def xparse.simps(2))

lemma path_head: "path_expr pf s e \<Longrightarrow> s \<noteq> [] \<and> tkKind (hd s) \<in> step_heads \<union> {TkSlash, TkDSlash, TkNumber, TkLiteral, TkLParen}"
  by (erule path_expr.cases) (auto dest!: primary_head steps_head more_head simp: step_heads_def)

lemma unions_head: "unions pf s e \<Longrightarrow> s \<noteq> [] \<and> tkKind (hd s) \<notin> {TkAddOp, TkRParen}"
  by (induction rule: grammar_induct(2)[where ?P1.0="\<lambda>_ _ _. True" and ?P3.0="\<lambda>_ _. True" and ?P4.0="\<lambda>_ _. True" and ?P5.0="\<lambda>_ _. True"
       and ?P6.0="\<lambda>_ _. True" and ?P7.0="\<lambda>_ _. True" and ?P8.0="\<lambda>_ _. True" and ?P9.0="\<lambda>_ _. True"])
   (auto dest!: path_head simp: step_heads_def)

lemma lev_head: "lev pf n s e \<Longrightarrow> s \<noteq> [] \<and> tkKind (hd s) \<noteq> TkRParen"
  by (induction rule: grammar_induct(1)[where ?P2.0="\<lambda>_ _. True" and ?P3.0="\<lambda>_ _. True" and ?P4.0="\<lambda>_ _. True" and ?P5.0="\<lambda>_ _. True"
       and ?P6.0="\<lambda>_ _. True" and ?P7.0="\<lambda>_ _. True" and ?P8.0="\<lambda>_ _. True" and ?P9.0="\<lambda>_ _. True"])
   (auto dest: unions_head)

lemma arguments_head: "arguments pf s es \<Longrightarrow> s \<noteq> [] \<and> tkKind (hd s) \<noteq> TkRParen"
  by (erule arguments.cases) (auto dest: lev_head)

lemma after_levelD: "after_level n ts \<Longrightarrow> after_path ts"
  by (simp add: after_level_def)

lemma after_more: "more_steps pf s l \<Longrightarrow> after_path ts \<Longrightarrow> s @ ts \<noteq> [] \<and> tkKind (hd (s @ ts)) \<noteq> TkLBracket"
  by (drule more_head) (auto simp: after_path_def)

abbreviation operand_call :: "nat \<Rightarrow> 'n xcall" where
  "operand_call n \<equiv> (if n < 5 then Level (Suc n) else Unary)"

lemma level_by_operand:
  "xparse pf (operand_call n) ts = Parsed e ts' \<Longrightarrow> xparse pf (Level n) ts = xparse pf (LevelLoop n e) ts'"
  by (subst xparse.simps(1)) simp

lemma loop_by_operand:
  "level_op n t = Some op \<Longrightarrow> xparse pf (operand_call n) ts = Parsed e' ts' \<Longrightarrow>
     xparse pf (LevelLoop n e) (t # ts) = xparse pf (LevelLoop n (XBinary op e e')) ts'"
  by (subst xparse.simps(2)) simp

lemma operand_read:
  assumes "n < 6"
    "Suc n \<le> 5 \<Longrightarrow> after_level (Suc (Suc n)) ts \<Longrightarrow> xparse pf (Level (Suc n)) (s @ ts) = xparse pf (LevelLoop (Suc n) e) ts"
    "Suc n = 6 \<Longrightarrow> after_level 6 ts \<Longrightarrow> xparse pf Unary (s @ ts) = Parsed e ts"
    "after_level (Suc n) ts"
  shows "xparse pf (operand_call n) (s @ ts) = Parsed e ts"
proof (cases "n < 5")
  case True
  then have "xparse pf (Level (Suc n)) (s @ ts) = xparse pf (LevelLoop (Suc n) e) ts"
    using assms(2) after_level_mono[OF assms(4), of "Suc (Suc n)"] by simp
  also have "\<dots> = Parsed e ts" using level_loop_ends[OF assms(4)] True by simp
  finally show ?thesis using True by simp
next
  case False
  then have "n = 5" using assms(1) by simp
  then show ?thesis using assms(3,4) by simp
qed

lemma level0_read:
  assumes "(0 \<le> (5 :: nat) \<longrightarrow> (\<forall>ts. after_level (Suc 0) ts \<longrightarrow> xparse pf (Level 0) (s @ ts) = xparse pf (LevelLoop 0 e) ts)) \<and> Q"
    "tkKind u \<in> {TkEOF, TkRParen, TkRBracket, TkComma}"
  shows "xparse pf (Level 0) (s @ u # ts) = Parsed e (u # ts)"
  using assms(1) after_closing[OF assms(2)] level_loop_ends[of 0 "u # ts"] by simp

lemma xparse_complete:
  "lev pf n s e \<Longrightarrow> (n \<le> 5 \<longrightarrow> (\<forall>ts. after_level (Suc n) ts \<longrightarrow> xparse pf (Level n) (s @ ts) = xparse pf (LevelLoop n e) ts)) \<and>
     (n = 6 \<longrightarrow> (\<forall>ts. after_level 6 ts \<longrightarrow> xparse pf Unary (s @ ts) = Parsed e ts))"
  "unions pf s e \<Longrightarrow> \<forall>ts. after_path ts \<longrightarrow> xparse pf Unions (s @ ts) = xparse pf (UnionLoop e) ts"
  "path_expr pf s e \<Longrightarrow> \<forall>ts. after_path ts \<longrightarrow> xparse pf Path (s @ ts) = Parsed e ts"
  "primary_expr pf s e \<Longrightarrow> \<forall>ts. xparse pf Primary (s @ ts) = Parsed e ts"
  "steps pf s l \<Longrightarrow> \<forall>ts absolute start acc. after_path ts \<longrightarrow>
     xparse pf (Steps absolute start acc) (s @ ts) = Parsed (XLocation absolute start (acc @ l)) ts"
  "more_steps pf s l \<Longrightarrow> \<forall>ts absolute start acc. after_path ts \<longrightarrow>
     xparse pf (MoreSteps absolute start acc) (s @ ts) = Parsed (XLocation absolute start (acc @ l)) ts"
  "one_step pf s x \<Longrightarrow> \<forall>ts absolute start acc. ts \<noteq> [] \<and> tkKind (hd ts) \<noteq> TkLBracket \<longrightarrow>
     xparse pf (Steps absolute start acc) (s @ ts) = xparse pf (MoreSteps absolute start (acc @ [x])) ts"
  "predicates pf s ps \<Longrightarrow> \<forall>ts absolute start acc test qs. ts \<noteq> [] \<and> tkKind (hd ts) \<noteq> TkLBracket \<longrightarrow>
     xparse pf (Preds absolute start acc test qs) (s @ ts) = xparse pf (MoreSteps absolute start (child_step acc test (qs @ ps))) ts"
  "arguments pf s es \<Longrightarrow> \<forall>v ts name acc. tkKind v = TkRParen \<longrightarrow>
     xparse pf (Args name acc) (s @ v # ts) = Parsed (XCall name (acc @ es)) ts"
proof (induction rule: grammar_induct)
  case (lev_up n s e)
  have "xparse pf (operand_call n) (s @ ts) = Parsed e ts" if "after_level (Suc n) ts" for ts
    using operand_read[OF lev_up(1) _ _ that] lev_up.IH by blast
  from level_by_operand[OF this] show ?case using lev_up(1) by simp
next
  case (lev_op n s e t op s' e')
  have o: "xparse pf (operand_call n) (s' @ ts) = Parsed e' ts" if "after_level (Suc n) ts" for ts
    using operand_read[OF lev_op(1) _ _ that] lev_op(6) by blast
  have "xparse pf (Level n) ((s @ t # s') @ ts) = xparse pf (LevelLoop n (XBinary op e e')) ts" if "after_level (Suc n) ts" for ts
  proof -
    have "xparse pf (Level n) (s @ t # s' @ ts) = xparse pf (LevelLoop n e) (t # s' @ ts)"
      using lev_op(4) lev_op(1) after_level_op[OF lev_op(2)] by simp
    also have "\<dots> = xparse pf (LevelLoop n (XBinary op e e')) ts" by (rule loop_by_operand[OF lev_op(2) o[OF that]])
    finally show ?thesis by simp
  qed
  then show ?case using lev_op(1) by simp
next
  case (lev_neg t s e)
  then show ?case by (auto simp: xparse.simps(3))
next
  case (lev_union s e)
  have "xparse pf Unary (s @ ts) = Parsed e ts" if a: "after_level 6 ts" for ts
  proof -
    obtain t r where t: "s = t # r" "tkKind t \<noteq> TkAddOp" using unions_head[OF lev_union(1)] by (cases s) auto
    have "xparse pf Unary (s @ ts) = xparse pf Unions (s @ ts)" using t by (simp add: xparse.simps(3))
    also have "\<dots> = xparse pf (UnionLoop e) ts" using lev_union.IH after_levelD[OF a] by blast
    also have "\<dots> = Parsed e ts" using a by (cases ts) (auto simp: xparse.simps(5) after_level_def after_path_def)
    finally show ?thesis .
  qed
  then show ?case by simp
next
  case (union_one s e)
  then show ?case by (auto simp: xparse.simps(4))
next
  case (union_more s e t s' e')
  then show ?case by (auto simp: xparse.simps(5) after_path_def step_heads_def)
next
  case (path_primary s e)
  obtain t r where t: "s = t # r" "tkKind t \<in> {TkNumber, TkLiteral, TkFunc, TkLParen}"
    using primary_head[OF path_primary(1)] by (cases s) auto
  show ?case
  proof (intro allI impI)
    fix ts assume "after_path ts"
    then obtain u q where "ts = u # q" "tkKind u \<notin> step_heads \<union> {TkSlash, TkDSlash, TkLBracket}" by (rule after_pathE)
    then show "xparse pf Path (s @ ts) = Parsed e ts" using t path_primary.IH by (simp add: xparse.simps(6))
  qed
next
  case (path_from s e s' l)
  obtain t r where t: "s = t # r" "tkKind t \<in> {TkNumber, TkLiteral, TkFunc, TkLParen}"
    using primary_head[OF path_from(1)] by (cases s) auto
  show ?case
  proof (intro allI impI)
    fix ts assume a: "after_path ts"
    obtain u q where u: "s' = u # q" "tkKind u \<in> {TkSlash, TkDSlash}" using more_head[OF path_from(3)] path_from(5) by (cases s') auto
    have p: "xparse pf Primary (t # r @ u # q @ ts) = Parsed e (u # q @ ts)" using path_from(2) t(1) by simp
    have "xparse pf (MoreSteps False (Some e) []) (u # q @ ts) = Parsed (XLocation False (Some e) l) ts"
      using path_from(4) a u(1) by simp
    then show "xparse pf Path ((s @ s') @ ts) = Parsed (XLocation False (Some e) l) ts"
      using t u p by (auto simp: xparse.simps(6) xparse.simps(9))
  qed
next
  case (path_root t)
  then show ?case by (auto simp: xparse.simps(6) isStepStart_def step_heads_def elim!: after_pathE)
next
  case (path_abs s l)
  show ?case
  proof (intro allI impI)
    fix ts assume a: "after_path ts"
    obtain u q where u: "s = u # q" "tkKind u \<in> {TkSlash, TkDSlash}" using more_head[OF path_abs(1)] path_abs(3) by (cases s) auto
    have "xparse pf (MoreSteps True None []) (u # q @ ts) = Parsed (XLocation True None l) ts"
      using path_abs(2) a u(1) by simp
    moreover have "q \<noteq> [] \<and> tkKind (hd q) \<in> step_heads" if "tkKind u = TkSlash"
      using path_abs(1) u(1) that by (cases rule: more_steps.cases) (auto dest: steps_head)
    ultimately show "xparse pf Path (s @ ts) = Parsed (XLocation True None l) ts"
      using u by (cases q) (auto simp: xparse.simps(6) xparse.simps(9) isStepStart_def step_heads_def)
  qed
next
  case (path_rel s l)
  obtain t r where t: "s = t # r" "tkKind t \<in> step_heads - {TkFunc}" using steps_head[OF path_rel(1)] path_rel(3) by (cases s) auto
  then show ?case using path_rel(2) by (auto simp: xparse.simps(6) step_heads_def)
next
  case (primary_number t v)
  then show ?case by (simp add: xparse.simps(10))
next
  case (primary_literal t)
  then show ?case by (simp add: xparse.simps(10))
next
  case (primary_parens t s e u)
  have "xparse pf (Level 0) (s @ u # ts) = Parsed e (u # ts)" for ts
    using level0_read[OF primary_parens(4)] primary_parens(2) by simp
  then show ?case using primary_parens by (simp add: xparse.simps(10))
next
  case (primary_call0 t u v)
  then show ?case by (simp add: xparse.simps(10))
next
  case (primary_call t u s es v)
  then show ?case using arguments_head[OF primary_call(4)] primary_call by (cases s) (auto simp: xparse.simps(10))
next
  case (steps_cons s x s' l)
  show ?case
  proof (intro allI impI)
    fix ts absolute start acc assume a: "after_path ts"
    have "xparse pf (Steps absolute start acc) (s @ s' @ ts) = xparse pf (MoreSteps absolute start (acc @ [x])) (s' @ ts)"
      using steps_cons(2) after_more[OF steps_cons(3) a] by blast
    also have "\<dots> = Parsed (XLocation absolute start ((acc @ [x]) @ l)) ts" using steps_cons(4) a by blast
    finally show "xparse pf (Steps absolute start acc) ((s @ s') @ ts) = Parsed (XLocation absolute start (acc @ x # l)) ts" by simp
  qed
next
  case more_none
  then show ?case by (auto simp: xparse.simps(9) elim!: after_pathE)
next
  case (more_slash t s l)
  then show ?case by (simp add: xparse.simps(9))
next
  case (more_dslash t s l)
  then show ?case by (simp add: xparse.simps(9))
next
  case (predicates_one t s e u s' ps)
  have "xparse pf (Level 0) (s @ u # ts) = Parsed e (u # ts)" for ts
    using level0_read[OF predicates_one(4)] predicates_one(2) by simp
  then show ?case using predicates_one by (simp add: xparse.simps(8))
next
  case predicates_none
  then show ?case by (auto simp: xparse.simps(8) neq_Nil_conv)
next
  case (arguments_one s e)
  have "xparse pf (Level 0) (s @ u # ts) = Parsed e (u # ts)" if "tkKind u = TkRParen" for u ts
    using level0_read[OF arguments_one(2)] that by simp
  then show ?case by (simp add: xparse.simps(11))
next
  case (arguments_more s e t s' es)
  have "xparse pf (Level 0) (s @ t # ts) = Parsed e (t # ts)" for ts
    using level0_read[OF arguments_more(2)] arguments_more(5) by simp
  then show ?case using arguments_more by (simp add: xparse.simps(11))
qed (simp_all add: xparse.simps(7) child_step_def)

subsection \<open>The lexer\<close>

definition adds_tokens :: "xtoken list \<Rightarrow> xpath_error + xtoken list \<Rightarrow> bool" where
  "adds_tokens acc r \<longleftrightarrow>
     (\<forall>toks. r = Inr toks \<longrightarrow> (\<exists>us. toks = acc @ us @ [Tok TkEOF []] \<and> (\<forall>t \<in> set us. tkKind t \<noteq> TkEOF)))"

lemma adds_error: "adds_tokens acc (Inl x)"
  by (simp add: adds_tokens_def)

lemma adds_end: "adds_tokens acc (Inr (acc @ [Tok TkEOF []]))"
  by (auto simp: adds_tokens_def)

lemma adds_one: "adds_tokens (acc @ [t]) r \<Longrightarrow> tkKind t \<noteq> TkEOF \<Longrightarrow> adds_tokens acc r"
  by (fastforce simp: adds_tokens_def)

lemma adds_if: "(P \<Longrightarrow> adds_tokens acc a) \<Longrightarrow> (\<not> P \<Longrightarrow> adds_tokens acc b) \<Longrightarrow> adds_tokens acc (if P then a else b)"
  by simp

lemma adds_option: "(\<And>x. r = Some x \<Longrightarrow> adds_tokens acc (k x)) \<Longrightarrow> (r = None \<Longrightarrow> adds_tokens acc d) \<Longrightarrow>
    adds_tokens acc (case r of None \<Rightarrow> d | Some x \<Rightarrow> k x)"
  by (cases r) auto

lemma adds_pair: "(\<And>x y. r = (x, y) \<Longrightarrow> adds_tokens acc (k x y)) \<Longrightarrow> adds_tokens acc (case r of (x, y) \<Rightarrow> k x y)"
  by (cases r) auto

lemmas adds_rules = adds_if adds_option adds_pair adds_error

lemma punctuation_kind: "punctuation c = Some k \<Longrightarrow> k \<noteq> TkEOF"
  by (auto simp: punctuation_def split: if_splits)

lemma classifyName_kind: "tkKind (classifyName name rest b) \<noteq> TkEOF"
  by (simp add: classifyName_def Let_def)

lemma lex_loop_ends: "adds_tokens acc (lex_loop s acc)"
proof (induction s acc rule: lex_loop.induct)
  case (1 toks)
  show ?case by (simp add: adds_end)
next
  case (2 c r acc)
  show ?case
    apply (subst lex_loop.simps(2))
    apply (simp only: Let_def)
    apply (intro adds_rules)
             apply (rule 2, assumption+)
            apply (rule adds_one, rule 2, (assumption | rule refl)+, simp)+
          apply (erule punctuation_kind)
         apply (rule adds_one, rule 2, (assumption | rule refl | erule sym)+, simp add: classifyName_kind)+
    done
qed

subsection \<open>The end token\<close>

lemma lexed:
  assumes "lexXPath input = Inr toks"
  obtains us where "toks = us @ [Tok TkEOF []]" "\<forall>t \<in> set us. tkKind t \<noteq> TkEOF"
  using assms lex_loop_ends[of "[]" input] by (auto simp: lexXPath_def adds_tokens_def)

text \<open>The parser ends at the end token or with an error.\<close>
lemma parseXPath_ends:
  "(\<exists>e. parseXPath pf input = Parsed e [Tok TkEOF []]) \<or> (\<exists>x. parseXPath pf input = Failed x)"
proof (cases "lexXPath input")
  case (Inr toks)
  then obtain us where us: "toks = us @ [Tok TkEOF []]" "\<forall>t \<in> set us. tkKind t \<noteq> TkEOF" by (rule lexed)
  have s: "safe (xparse pf (Level 0) toks)" by (rule xparse_safe) (simp add: us(1) ends_eof_def)
  show ?thesis
  proof (cases "xparse pf (Level 0) toks")
    case (Parsed e ts)
    then obtain t q where t: "ts = t # q" "ends_eof ts" using s by (cases ts) auto
    obtain s' where s': "toks = s' @ t # q" using xparse_sound[of "Level 0" pf toks] Parsed t(1) by (auto simp: leaves_rest_def)
    have r: "parseXPath pf input = (if tkKind t \<noteq> TkEOF then Failed (TrailingTokens (tkText t)) else Parsed e ts)"
      using Inr Parsed t(1) by (simp add: parseXPath_def)
    show ?thesis
    proof (cases "tkKind t = TkEOF")
      case True
      then have "q = []" using s' us by (cases q rule: rev_cases) auto
      moreover from this have "t = Tok TkEOF []" using s' us(1) by simp
      ultimately show ?thesis using r t(1) \<open>q = []\<close> by simp
    qed (use r in simp)
  qed (use Inr s in \<open>simp_all add: parseXPath_def\<close>)
qed (simp add: parseXPath_def)

end
