(* ===== verification/Xpath_Properties.thy ===== *)
theory Xpath_Properties
  imports Xpath_Complete
begin

text \<open>
  The properties of the XPath front end: it never reads past its tokens, it always returns, and it
  accepts exactly the expressions of the grammar, with the tree the grammar gives.
\<close>

text \<open>
  C29: The front end is safe on every input: no index of the parser is out of range, since the end
  token is never consumed, and on success exactly the end token is left.
\<close>
theorem parse_xpath_safe:
  "(\<exists>e. parseXPath pf input = Parsed e [Tok TkEOF []]) \<or> (\<exists>x. parseXPath pf input = Failed x)"
  by (rule parseXPath_ends)

text \<open>
  C28: The front end accepts exactly the texts whose tokens are in the grammar of XPath expressions,
  and gives the tree of the grammar: six levels of left-associative binary operators, negation, unions
  and location paths with predicates, for every treatment of numbers.
\<close>
theorem parse_xpath_exact:
  "parseXPath pf input = Parsed e [Tok TkEOF []] \<longleftrightarrow>
     (\<exists>s. lexXPath input = Inr (s @ [Tok TkEOF []]) \<and> lev pf 0 s e)"
proof
  assume p: "parseXPath pf input = Parsed e [Tok TkEOF []]"
  then obtain toks where l: "lexXPath input = Inr toks" by (cases "lexXPath input") (auto simp: parseXPath_def)
  then have x: "xparse pf (Level 0) toks = Parsed e [Tok TkEOF []]"
    using p by (auto simp: parseXPath_def split: xresult.splits list.splits if_splits)
  then obtain s where "toks = s @ [Tok TkEOF []]" "lev pf 0 s e"
    using xparse_sound[of "Level 0" pf toks] by (auto simp: leaves_rest_def)
  with l show "\<exists>s. lexXPath input = Inr (s @ [Tok TkEOF []]) \<and> lev pf 0 s e" by blast
next
  assume "\<exists>s. lexXPath input = Inr (s @ [Tok TkEOF []]) \<and> lev pf 0 s e"
  then obtain s where s: "lexXPath input = Inr (s @ [Tok TkEOF []])" "lev pf 0 s e" by blast
  have "xparse pf (Level 0) (s @ [Tok TkEOF []]) = Parsed e [Tok TkEOF []]"
    using level0_read[OF xparse_complete(1)[OF s(2)], of "Tok TkEOF []" "[]"] by simp
  then show "parseXPath pf input = Parsed e [Tok TkEOF []]" using s(1) by (simp add: parseXPath_def)
qed

end
