(* ===== verification/Xpath_Values.thy ===== *)
theory Xpath_Values
  imports Xpath_Parse Go_Strings
begin

text \<open>
  The values of XPath expressions over the data tree and the operators on them
  (\<open>go/datatree/datatree_xpath_eval.go\<close>).  Strings are bytes, as in Go.  A pointer to a node of the tree is
  the path of child positions from the root; \<open>Copy p\<close> is the childless copy that \<open>dummyConstraintNode\<close>
  makes of the node at \<open>p\<close>.  The operations of \<open>float64\<close> are the parameter record \<open>floats\<close>.
\<close>

subsection \<open>The tree\<close>

datatype xnode = XNode (xnName: string) (xnNS: string) (xnValue: string) (xnLeaf: bool) (xnSchema: "nat option") (xnKids: "xnode list")

datatype xref = Real "nat list" | Copy "nat list"

fun stringValue :: "xnode \<Rightarrow> string" where
  "stringValue (XNode name ns val leaf schema kids) = (if leaf then val else concat (map stringValue kids))"

fun node_at :: "xnode \<Rightarrow> nat list \<Rightarrow> xnode" where
  "node_at n [] = n"
| "node_at n (i # p) = node_at (xnKids n ! i) p"

definition bare :: "xnode \<Rightarrow> xnode" where
  "bare n = XNode (xnName n) (xnNS n) [] (xnLeaf n) (xnSchema n) []"

fun deref :: "xnode \<Rightarrow> xref \<Rightarrow> xnode" where
  "deref root (Real p) = node_at root p"
| "deref root (Copy p) = bare (node_at root p)"

text \<open>The parent pointer; the root has none.\<close>
fun parent_ref :: "xref \<Rightarrow> xref option" where
  "parent_ref (Real p) = (if p = [] then None else Some (Real (butlast p)))"
| "parent_ref (Copy p) = (if p = [] then None else Some (Real (butlast p)))"

fun kid_refs :: "xnode \<Rightarrow> xref \<Rightarrow> xref list" where
  "kid_refs root (Real p) = map (\<lambda>i. Real (p @ [i])) [0..<length (xnKids (node_at root p))]"
| "kid_refs root (Copy p) = []"

text \<open>A node and its descendants in document order (the walk of the descendant axis).\<close>
fun subtree :: "nat list \<Rightarrow> xnode \<Rightarrow> nat list list" and subtrees :: "nat list \<Rightarrow> nat \<Rightarrow> xnode list \<Rightarrow> nat list list" where
  "subtree p (XNode _ _ _ _ _ kids) = p # subtrees p 0 kids"
| "subtrees p i [] = []"
| "subtrees p i (k # ks) = subtree (p @ [i]) k @ subtrees p (Suc i) ks"

fun walk_refs :: "xnode \<Rightarrow> xref \<Rightarrow> xref list" where
  "walk_refs root (Real p) = map Real (subtree p (node_at root p))"
| "walk_refs root (Copy p) = [Copy p]"

subsection \<open>Values\<close>

record 'n floats =
  fAdd :: "'n \<Rightarrow> 'n \<Rightarrow> 'n"
  fSub :: "'n \<Rightarrow> 'n \<Rightarrow> 'n"
  fMul :: "'n \<Rightarrow> 'n \<Rightarrow> 'n"
  fDiv :: "'n \<Rightarrow> 'n \<Rightarrow> 'n"
  fMod :: "'n \<Rightarrow> 'n \<Rightarrow> 'n"
  fNeg :: "'n \<Rightarrow> 'n"
  fFloor :: "'n \<Rightarrow> 'n"
  fCeil :: "'n \<Rightarrow> 'n"
  fTrunc :: "'n \<Rightarrow> 'n"
  fEq :: "'n \<Rightarrow> 'n \<Rightarrow> bool"
  fLess :: "'n \<Rightarrow> 'n \<Rightarrow> bool"
  fLeq :: "'n \<Rightarrow> 'n \<Rightarrow> bool"
  fIsNaN :: "'n \<Rightarrow> bool"
  fIsInf :: "'n \<Rightarrow> bool"
  fNaN :: 'n
  fInf :: 'n
  fHalf :: 'n
  fOfNat :: "nat \<Rightarrow> 'n"
  fParse :: "string \<Rightarrow> 'n option"
  fFormatF :: "'n \<Rightarrow> string"
  fFormatG :: "'n \<Rightarrow> string"

datatype 'n xval = NodeSet "xref list" | Str string | Num 'n | Boolean bool

definition formatXPathNumber :: "'n floats \<Rightarrow> 'n \<Rightarrow> string" where
  "formatXPathNumber fl n =
     (if fIsNaN fl n then ''NaN''
      else if fEq fl n (fTrunc fl n) \<and> \<not> fIsInf fl n then fFormatF fl n else fFormatG fl n)"

definition parseXPathNumber :: "'n floats \<Rightarrow> string \<Rightarrow> 'n" where
  "parseXPathNumber fl s = (case fParse fl (trim_space s) of None \<Rightarrow> fNaN fl | Some f \<Rightarrow> f)"

definition string_at :: "xnode \<Rightarrow> xref \<Rightarrow> string" where
  "string_at root r = stringValue (deref root r)"

fun toBool :: "'n floats \<Rightarrow> 'n xval \<Rightarrow> bool" where
  "toBool fl (NodeSet ns) = (ns \<noteq> [])"
| "toBool fl (Str s) = (s \<noteq> [])"
| "toBool fl (Num n) = (\<not> fEq fl n (fOfNat fl 0) \<and> \<not> fIsNaN fl n)"
| "toBool fl (Boolean b) = b"

fun toStr :: "'n floats \<Rightarrow> xnode \<Rightarrow> 'n xval \<Rightarrow> string" where
  "toStr fl root (NodeSet ns) = (case ns of [] \<Rightarrow> [] | n # _ \<Rightarrow> string_at root n)"
| "toStr fl root (Str s) = s"
| "toStr fl root (Num n) = formatXPathNumber fl n"
| "toStr fl root (Boolean b) = (if b then ''true'' else ''false'')"

fun toNum :: "'n floats \<Rightarrow> xnode \<Rightarrow> 'n xval \<Rightarrow> 'n" where
  "toNum fl root (Num n) = n"
| "toNum fl root (Boolean b) = (if b then fOfNat fl 1 else fOfNat fl 0)"
| "toNum fl root v = parseXPathNumber fl (toStr fl root v)"

subsection \<open>Operators\<close>

text \<open>The loop of \<open>unionNodes\<close> over both sets; what was seen is what was kept.\<close>
fun union_loop :: "xref list \<Rightarrow> xref list \<Rightarrow> xref list" where
  "union_loop out [] = out"
| "union_loop out (n # ns) = union_loop (if n \<in> set out then out else out @ [n]) ns"

definition unionNodes :: "xref list \<Rightarrow> xref list \<Rightarrow> xref list" where
  "unionNodes a b = union_loop [] (a @ b)"

definition arith :: "'n floats \<Rightarrow> xtext \<Rightarrow> 'n \<Rightarrow> 'n \<Rightarrow> 'n" where
  "arith fl op a b =
     (if op = runes_of ''+'' then fAdd fl a b
      else if op = runes_of ''-'' then fSub fl a b
      else if op = runes_of ''mul'' then fMul fl a b
      else if op = runes_of ''div'' then fDiv fl a b
      else if op = runes_of ''mod'' then fMod fl a b
      else fNaN fl)"

definition numCompare :: "'n floats \<Rightarrow> xtext \<Rightarrow> 'n \<Rightarrow> 'n \<Rightarrow> bool" where
  "numCompare fl op a b =
     (if op = runes_of ''<'' then fLess fl a b
      else if op = runes_of ''<='' then fLeq fl a b
      else if op = runes_of ''>'' then fLess fl b a
      else if op = runes_of ''>='' then fLeq fl b a
      else False)"

definition applyNumOp :: "'n floats \<Rightarrow> xtext \<Rightarrow> 'n \<Rightarrow> 'n \<Rightarrow> bool" where
  "applyNumOp fl op a b =
     (if op = runes_of ''='' then fEq fl a b
      else if op = runes_of ''!='' then \<not> fEq fl a b
      else numCompare fl op a b)"

definition cmpStrings :: "'n floats \<Rightarrow> xtext \<Rightarrow> string \<Rightarrow> string \<Rightarrow> bool" where
  "cmpStrings fl op a b =
     (if op = runes_of ''='' then a = b
      else if op = runes_of ''!='' then a \<noteq> b
      else applyNumOp fl op (parseXPathNumber fl a) (parseXPathNumber fl b))"

definition boolEq :: "xtext \<Rightarrow> bool \<Rightarrow> bool \<Rightarrow> bool" where
  "boolEq op a b = (if op = runes_of ''='' then a = b else if op = runes_of ''!='' then a \<noteq> b else False)"

text \<open>A node-set and another value; \<open>swapped\<close> if the node-set is the second operand.\<close>
definition compare_with_nodes :: "'n floats \<Rightarrow> xnode \<Rightarrow> xtext \<Rightarrow> xref list \<Rightarrow> 'n xval \<Rightarrow> bool \<Rightarrow> bool" where
  "compare_with_nodes fl root op ns other swapped =
     (case other of
        Boolean b \<Rightarrow> boolEq op (ns \<noteq> []) b
      | Num v \<Rightarrow> list_ex (\<lambda>n. let lo = parseXPathNumber fl (string_at root n) in
          if swapped then applyNumOp fl op v lo else applyNumOp fl op lo v) ns
      | Str s \<Rightarrow> list_ex (\<lambda>n. let lo = string_at root n in
          if swapped then cmpStrings fl op s lo else cmpStrings fl op lo s) ns
      | NodeSet ms \<Rightarrow> False)"

fun compareNodeset :: "'n floats \<Rightarrow> xnode \<Rightarrow> xtext \<Rightarrow> 'n xval \<Rightarrow> 'n xval \<Rightarrow> bool" where
  "compareNodeset fl root op (NodeSet as) (NodeSet bs) =
     list_ex (\<lambda>a. list_ex (\<lambda>b. cmpStrings fl op (string_at root a) (string_at root b)) bs) as"
| "compareNodeset fl root op a (NodeSet bs) = compare_with_nodes fl root op bs a True"
| "compareNodeset fl root op (NodeSet as) b = compare_with_nodes fl root op as b False"
| "compareNodeset fl root op a b = False"

definition is_nodes :: "'n xval \<Rightarrow> bool" where
  "is_nodes v = (case v of NodeSet _ \<Rightarrow> True | _ \<Rightarrow> False)"

definition is_number :: "'n xval \<Rightarrow> bool" where
  "is_number v = (case v of Num _ \<Rightarrow> True | _ \<Rightarrow> False)"

definition is_boolean :: "'n xval \<Rightarrow> bool" where
  "is_boolean v = (case v of Boolean _ \<Rightarrow> True | _ \<Rightarrow> False)"

definition compareValues :: "'n floats \<Rightarrow> xnode \<Rightarrow> xtext \<Rightarrow> 'n xval \<Rightarrow> 'n xval \<Rightarrow> bool" where
  "compareValues fl root op a b =
     (if is_nodes a \<or> is_nodes b then compareNodeset fl root op a b
      else if op = runes_of ''='' \<or> op = runes_of ''!='' then
        let eq = (if is_boolean a \<or> is_boolean b then toBool fl a = toBool fl b
                  else if is_number a \<or> is_number b then fEq fl (toNum fl root a) (toNum fl root b)
                  else toStr fl root a = toStr fl root b)
        in if op = runes_of ''='' then eq else \<not> eq
      else numCompare fl op (toNum fl root a) (toNum fl root b))"

end
