(* ===== verification/Xpath_Eval.thy ===== *)
theory Xpath_Eval
  imports Xpath_Values Pattern_Parser Pattern_Match
begin

text \<open>
  The evaluator of XPath expressions (\<open>go/datatree/datatree_xpath_eval.go\<close>) and its function library
  (\<open>datatree_xpath_func.go\<close>).  A module is its index in the table of modules, a schema node its index in the
  table of schema nodes; the record \<open>schema_node\<close> is what the evaluator asks of one.
\<close>

subsection \<open>Modules, identities and schema nodes\<close>

datatype identity = Identity (idModule: string) (idName: string) (idDerived: "identity list")

datatype leaf_type = IdentityRefType "identity list" | LeafRefType "leaf_type option" | OtherType

record xmodule =
  xmName :: string
  xmPrefix :: string
  xmNamespace :: string
  xmImports :: "string \<Rightarrow> nat option"
  xmIdentities :: "string \<Rightarrow> identity option"

record schema_node =
  snModule :: nat
  snAncestors :: "nat list"
  snLeafType :: "leaf_type option"

record 'n evaluator =
  evRoot :: xnode
  evModule :: nat
  evUnprefixedNS :: string
  evExcluded :: "nat list"
  evCurrent :: "xref option"
  evPrefixNS :: "string \<Rightarrow> string option"
  evModules :: "nat \<Rightarrow> xmodule"
  evSchema :: "nat \<Rightarrow> schema_node"
  evFloats :: "'n floats"
  evCats :: categories
  evEngine :: engine

record ectx =
  ecNode :: xref
  ecPos :: nat
  ecSize :: nat

text \<open>\<open>NoReturn\<close> stands for a call of the pattern engine that does not return.\<close>
datatype eval_error =
    UnknownPrefix string | UnionOfNonNodeSets | StepOnNonNodeSet | UnsupportedAxis string
  | WrongArity string | RequiresNodeSet string | UnsupportedFunction string | UnknownIdentityPrefix string
  | PatternEvaluation "pattern_error + match_error" | NoReturn

type_synonym 'a outcome = "eval_error + 'a"

abbreviation bind_ok :: "'a outcome \<Rightarrow> ('a \<Rightarrow> 'b outcome) \<Rightarrow> 'b outcome" where
  "bind_ok r k \<equiv> (case r of Inl e \<Rightarrow> Inl e | Inr v \<Rightarrow> k v)"

definition resolvePrefix :: "(nat \<Rightarrow> xmodule) \<Rightarrow> nat \<Rightarrow> string \<Rightarrow> nat option" where
  "resolvePrefix ms k pfx =
     (if pfx = [] \<or> pfx = xmPrefix (ms k) \<or> pfx = xmName (ms k) then Some k
      else xmImports (ms k) pfx)"

text \<open>A text of the expression as a Go string.\<close>
definition go_string :: "xtext \<Rightarrow> string" where
  "go_string s = concat (map encodeRune s)"

definition resolveName :: "'n evaluator \<Rightarrow> string \<Rightarrow> (string \<times> string) outcome" where
  "resolveName ev qname =
     (case cut_at CHR '':'' qname of (pfx, part, prefixed) \<Rightarrow>
        if prefixed then
          (case evPrefixNS ev pfx of
             Some ns \<Rightarrow> Inr (ns, part)
           | None \<Rightarrow>
               case resolvePrefix (evModules ev) (evModule ev) pfx of
                 None \<Rightarrow> Inl (UnknownPrefix pfx)
               | Some m \<Rightarrow> Inr (xmNamespace (evModules ev m), part))
        else if evUnprefixedNS ev \<noteq> [] then Inr (evUnprefixedNS ev, qname)
        else Inr (xmNamespace (evModules ev (evModule ev)), qname))"

abbreviation node_of :: "'n evaluator \<Rightarrow> xref \<Rightarrow> xnode" where
  "node_of ev r \<equiv> deref (evRoot ev) r"

definition matchTest :: "'n evaluator \<Rightarrow> xref \<Rightarrow> xtext \<Rightarrow> bool outcome" where
  "matchTest ev r test =
     (if test = runes_of ''*'' \<or> test = any_node then Inr True
      else bind_ok (resolveName ev (go_string test)) (\<lambda>(ns, part).
        Inr (xnName (node_of ev r) = part \<and> xnNS (node_of ev r) = ns)))"

definition isExcluded :: "'n evaluator \<Rightarrow> xref \<Rightarrow> bool" where
  "isExcluded ev r =
     (case xnSchema (node_of ev r) of
        None \<Rightarrow> False
      | Some s \<Rightarrow> evExcluded ev \<noteq> [] \<and>
          (s \<in> set (evExcluded ev) \<or> list_ex (\<lambda>a. a \<in> set (evExcluded ev)) (snAncestors (evSchema ev s))))"

subsection \<open>Identities\<close>

definition identityQName :: "identity \<Rightarrow> string" where
  "identityQName i = idModule i @ '':'' @ idName i"

fun identityDerivedFrom :: "identity \<Rightarrow> identity \<Rightarrow> bool \<Rightarrow> bool" where
  "identityDerivedFrom actual (Identity m n derived) orSelf =
     (if identityQName actual = identityQName (Identity m n derived) then orSelf
      else list_ex (\<lambda>d. identityQName actual = identityQName d \<or> identityDerivedFrom actual d True) derived)"

definition identityRefValueMatches :: "identity \<Rightarrow> string \<Rightarrow> string \<Rightarrow> bool" where
  "identityRefValueMatches i val leafModule =
     (if CHR '':'' \<in> set val then val = identityQName i else idModule i = leafModule \<and> idName i = val)"

fun findIdentityRefValue :: "identity \<Rightarrow> string \<Rightarrow> string \<Rightarrow> identity option"
  and find_derived :: "identity list \<Rightarrow> string \<Rightarrow> string \<Rightarrow> identity option" where
  "findIdentityRefValue (Identity m n derived) val leafModule =
     (if identityRefValueMatches (Identity m n derived) val leafModule then Some (Identity m n derived)
      else find_derived derived val leafModule)"
| "find_derived [] val leafModule = None"
| "find_derived (d # ds) val leafModule =
     (case findIdentityRefValue d val leafModule of Some i \<Rightarrow> Some i | None \<Rightarrow> find_derived ds val leafModule)"

fun identityRefType :: "leaf_type \<Rightarrow> identity list option" where
  "identityRefType (IdentityRefType bases) = Some bases"
| "identityRefType (LeafRefType (Some rt)) = identityRefType rt"
| "identityRefType _ = None"

definition identityRefIdentity :: "'n evaluator \<Rightarrow> xref \<Rightarrow> identity option" where
  "identityRefIdentity ev r =
     (let n = node_of ev r in
      case xnSchema n of
        None \<Rightarrow> None
      | Some s \<Rightarrow>
          if \<not> xnLeaf n then None
          else Option.bind (snLeafType (evSchema ev s)) (\<lambda>t. Option.bind (identityRefType t) (\<lambda>bases.
            find_derived bases (xnValue n) (xmName (evModules ev (snModule (evSchema ev s)))))))"

definition identityForQName :: "'n evaluator \<Rightarrow> string \<Rightarrow> identity option outcome" where
  "identityForQName ev qname =
     (case cut_at CHR '':'' qname of (pre, post, prefixed) \<Rightarrow>
        let pfx = (if prefixed then pre else []); part = (if prefixed then post else qname) in
        case resolvePrefix (evModules ev) (evModule ev) pfx of
          None \<Rightarrow> Inl (UnknownIdentityPrefix pfx)
        | Some m \<Rightarrow> Inr (xmIdentities (evModules ev m) part))"

definition evalDerivedFrom :: "'n evaluator \<Rightarrow> 'n xval \<Rightarrow> string \<Rightarrow> bool \<Rightarrow> 'n xval outcome" where
  "evalDerivedFrom ev val targetQName orSelf =
     (case val of
        NodeSet ns \<Rightarrow> bind_ok (identityForQName ev targetQName) (\<lambda>t.
          case t of
            None \<Rightarrow> Inr (Boolean False)
          | Some target \<Rightarrow> Inr (Boolean (list_ex (\<lambda>n.
              case identityRefIdentity ev n of None \<Rightarrow> False | Some actual \<Rightarrow> identityDerivedFrom actual target orSelf) ns)))
      | _ \<Rightarrow> Inl (RequiresNodeSet ''derived-from''))"

subsection \<open>The functions\<close>

text \<open>\<open>strings.Contains\<close> and \<open>strings.Fields\<close>\<close>
fun contains_text :: "string \<Rightarrow> string \<Rightarrow> bool" where
  "contains_text s t = (has_prefix s t \<or> (case s of [] \<Rightarrow> False | _ # s' \<Rightarrow> contains_text s' t))"

function fields_from :: "string \<Rightarrow> string \<Rightarrow> string list" where
  "fields_from field s =
     (let done = (if field = [] then [] else [field]) in
      if s = [] then done
      else case space_prefix space_texts s of
        Some t \<Rightarrow> done @ fields_from [] (drop (length t) s)
      | None \<Rightarrow> fields_from (field @ [hd s]) (tl s))"
  by pat_completeness auto
termination
proof (relation "measure (\<lambda>(field, s). length s)")
  have "[] \<notin> set space_texts" using space_texts_ends by auto
  note shorter = space_prefix_shorter[OF this]
  fix field s :: string and x t
  show "s \<noteq> [] \<Longrightarrow> space_prefix space_texts s = Some t \<Longrightarrow> (([], drop (length t) s), (field, s)) \<in> measure (\<lambda>(field, s). length s)"
    using shorter[of s t] by simp
qed auto

declare fields_from.simps [simp del]

definition string_fields :: "string \<Rightarrow> string list" where
  "string_fields s = fields_from [] s"

definition xpathRound :: "'n floats \<Rightarrow> 'n \<Rightarrow> 'n" where
  "xpathRound fl x = (if fIsNaN fl x \<or> fIsInf fl x then x else fFloor fl (fAdd fl x (fHalf fl)))"

definition xpathSubstring :: "'n floats \<Rightarrow> xnode \<Rightarrow> 'n xval list \<Rightarrow> string" where
  "xpathSubstring fl root args =
     (let rs = utf8_runes (toStr fl root (args ! 0));
          start = xpathRound fl (toNum fl root (args ! 1));
          end = (if length args = 3 then xpathRound fl (fAdd fl (toNum fl root (args ! 1)) (toNum fl root (args ! 2)))
                 else fInf fl)
      in concat (map (\<lambda>i. if fLeq fl start (fOfNat fl (i + 1)) \<and> fLess fl (fOfNat fl (i + 1)) end then encodeRune (rs ! i) else [])
           [0..<length rs]))"

definition re_match :: "'n evaluator \<Rightarrow> string \<Rightarrow> string \<Rightarrow> 'n xval outcome" where
  "re_match ev s pattern =
     (case Compile (evCats ev) (evEngine ev) pattern of
        None \<Rightarrow> Inl NoReturn
      | Some (Inl e) \<Rightarrow> Inl (PatternEvaluation (Inl e))
      | Some (Inr p) \<Rightarrow>
          case MatchString (evEngine ev) p s of
            None \<Rightarrow> Inl NoReturn
          | Some (_, Some e) \<Rightarrow> Inl (PatternEvaluation (Inr e))
          | Some (matched, None) \<Rightarrow> Inr (Boolean matched))"

definition local_name :: "'n evaluator \<Rightarrow> ectx \<Rightarrow> 'n xval list \<Rightarrow> 'n xval outcome" where
  "local_name ev c args =
     (case args of
        [] \<Rightarrow> Inr (Str (xnName (node_of ev (ecNode c))))
      | NodeSet ns # _ \<Rightarrow> Inr (Str (case ns of [] \<Rightarrow> [] | n # _ \<Rightarrow> xnName (node_of ev n)))
      | _ \<Rightarrow> Inl (RequiresNodeSet ''local-name''))"

text \<open>The switch of \<open>evalCall\<close> on the name of the function, its arguments evaluated.\<close>
definition call_function :: "'n evaluator \<Rightarrow> ectx \<Rightarrow> string \<Rightarrow> 'n xval list \<Rightarrow> 'n xval outcome" where
  "call_function ev c name args =
     (let fl = evFloats ev; root = evRoot ev;
          arity = (\<lambda>want r. if length args \<noteq> want then Inl (WrongArity name) else r);
          str = toStr fl root; num = toNum fl root; here = string_at root (ecNode c)
      in
      if name = ''true'' then arity 0 (Inr (Boolean True))
      else if name = ''false'' then arity 0 (Inr (Boolean False))
      else if name = ''not'' then arity 1 (Inr (Boolean (\<not> toBool fl (args ! 0))))
      else if name = ''boolean'' then arity 1 (Inr (Boolean (toBool fl (args ! 0))))
      else if name = ''string'' then (if args = [] then Inr (Str here) else arity 1 (Inr (Str (str (args ! 0)))))
      else if name = ''number'' then
        (if args = [] then Inr (Num (parseXPathNumber fl here)) else arity 1 (Inr (Num (num (args ! 0)))))
      else if name = ''count'' then arity 1
        (case args ! 0 of NodeSet ns \<Rightarrow> Inr (Num (fOfNat fl (length ns))) | _ \<Rightarrow> Inl (RequiresNodeSet name))
      else if name = ''sum'' then arity 1
        (case args ! 0 of
           NodeSet ns \<Rightarrow> Inr (Num (foldl (\<lambda>total n. fAdd fl total (parseXPathNumber fl (string_at root n))) (fOfNat fl 0) ns))
         | _ \<Rightarrow> Inl (RequiresNodeSet name))
      else if name = ''position'' then arity 0 (Inr (Num (fOfNat fl (ecPos c))))
      else if name = ''last'' then arity 0 (Inr (Num (fOfNat fl (ecSize c))))
      else if name = ''contains'' then arity 2 (Inr (Boolean (contains_text (str (args ! 0)) (str (args ! 1)))))
      else if name = ''starts-with'' then arity 2 (Inr (Boolean (has_prefix (str (args ! 0)) (str (args ! 1)))))
      else if name = ''string-length'' then
        (if 1 < length args then Inl (WrongArity name)
         else Inr (Num (fOfNat fl (length (utf8_runes (if args = [] then here else str (args ! 0)))))))
      else if name = ''concat'' then
        (if length args < 2 then Inl (WrongArity name) else Inr (Str (concat (map str args))))
      else if name = ''substring'' then
        (if length args < 2 \<or> 3 < length args then Inl (WrongArity name) else Inr (Str (xpathSubstring fl root args)))
      else if name = ''floor'' then arity 1 (Inr (Num (fFloor fl (num (args ! 0)))))
      else if name = ''ceiling'' then arity 1 (Inr (Num (fCeil fl (num (args ! 0)))))
      else if name = ''round'' then arity 1 (Inr (Num (xpathRound fl (num (args ! 0)))))
      else if name = ''current'' then arity 0
        (Inr (NodeSet (case evCurrent ev of None \<Rightarrow> [] | Some n \<Rightarrow> [n])))
      else if name = ''local-name'' then (if 1 < length args then Inl (WrongArity name) else local_name ev c args)
      else if name = ''re-match'' then arity 2 (re_match ev (str (args ! 0)) (str (args ! 1)))
      else if name = ''bit-is-set'' then arity 2 (Inr (Boolean (str (args ! 1) \<in> set (string_fields (str (args ! 0))))))
      else if name = ''derived-from'' then arity 2 (evalDerivedFrom ev (args ! 0) (str (args ! 1)) False)
      else if name = ''derived-from-or-self'' then arity 2 (evalDerivedFrom ev (args ! 0) (str (args ! 1)) True)
      else Inl (UnsupportedFunction name))"

subsection \<open>Location steps\<close>

text \<open>The closure \<open>add\<close> of \<open>evalStep\<close>, for one node after another; \<open>seen\<close> holds what \<open>cand\<close> holds.\<close>
fun add_nodes :: "'n evaluator \<Rightarrow> xtext \<Rightarrow> xref list \<Rightarrow> xref list \<Rightarrow> xref list outcome" where
  "add_nodes ev test [] cand = Inr cand"
| "add_nodes ev test (n # ns) cand =
     (if n \<in> set cand \<or> isExcluded ev n then add_nodes ev test ns cand
      else bind_ok (matchTest ev n test) (\<lambda>ok. add_nodes ev test ns (if ok then cand @ [n] else cand)))"

text \<open>The nodes that a step offers from one node, in order; none for an axis that is not supported.\<close>
definition axis_nodes :: "xnode \<Rightarrow> string \<Rightarrow> xref \<Rightarrow> xref list option" where
  "axis_nodes root axis r =
     (if axis = ''self'' then Some [r]
      else if axis = ''parent'' then Some (case parent_ref r of None \<Rightarrow> [] | Some p \<Rightarrow> [p])
      else if axis = ''child'' then Some (kid_refs root r)
      else if axis = ''descendant-or-self'' then Some (walk_refs root r)
      else None)"

fun candidates :: "'n evaluator \<Rightarrow> string \<Rightarrow> xtext \<Rightarrow> xref list \<Rightarrow> xref list \<Rightarrow> xref list outcome" where
  "candidates ev axis test [] cand = Inr cand"
| "candidates ev axis test (c # cs) cand =
     (case axis_nodes (evRoot ev) axis c of
        None \<Rightarrow> Inl (UnsupportedAxis axis)
      | Some ns \<Rightarrow> bind_ok (add_nodes ev test ns cand) (candidates ev axis test cs))"

subsection \<open>Evaluation\<close>

text \<open>
  The operators that evaluate both operands.  The names \<open>or\<close> and \<open>and\<close>, which may skip the second, are
  treated in \<open>eval\<close>.
\<close>
definition binary_value :: "'n evaluator \<Rightarrow> xtext \<Rightarrow> 'n xval \<Rightarrow> 'n xval \<Rightarrow> 'n xval outcome" where
  "binary_value ev op l r =
     (let fl = evFloats ev; root = evRoot ev in
      if op = runes_of ''|'' then
        (case (l, r) of (NodeSet a, NodeSet b) \<Rightarrow> Inr (NodeSet (unionNodes a b)) | _ \<Rightarrow> Inl UnionOfNonNodeSets)
      else if op \<in> {runes_of ''='', runes_of ''!='', runes_of ''<'', runes_of ''<='', runes_of ''>'', runes_of ''>=''} then
        Inr (Boolean (compareValues fl root op l r))
      else Inr (Num (arith fl op (toNum fl root l) (toNum fl root r))))"

text \<open>Whether a predicate of this value keeps the node at position \<open>i\<close>.\<close>
definition keeps :: "'n floats \<Rightarrow> nat \<Rightarrow> 'n xval \<Rightarrow> bool" where
  "keeps fl i v = (case v of Num n \<Rightarrow> fEq fl n (fOfNat fl i) | _ \<Rightarrow> toBool fl v)"

text \<open>
  \<open>keep_nodes\<close> is the inner loop of \<open>applyPredicates\<close> from position \<open>i\<close> on, \<open>apply_preds\<close> the outer one;
  \<open>eval_steps\<close> is the loop of \<open>evalPath\<close> over the steps with the body of \<open>evalStep\<close>.
\<close>
function eval :: "'n evaluator \<Rightarrow> 'n xexpr \<Rightarrow> ectx \<Rightarrow> 'n xval outcome"
  and eval_args :: "'n evaluator \<Rightarrow> 'n xexpr list \<Rightarrow> ectx \<Rightarrow> 'n xval list outcome"
  and eval_steps :: "'n evaluator \<Rightarrow> 'n xstep list \<Rightarrow> xref list \<Rightarrow> xref list outcome"
  and apply_preds :: "'n evaluator \<Rightarrow> 'n xexpr list \<Rightarrow> xref list \<Rightarrow> xref list outcome"
  and keep_nodes :: "'n evaluator \<Rightarrow> 'n xexpr \<Rightarrow> nat \<Rightarrow> nat \<Rightarrow> xref list \<Rightarrow> xref list outcome" where
  "eval ev (XNumber v) c = Inr (Num v)"
| "eval ev (XLiteral s) c = Inr (Str (go_string s))"
| "eval ev (XNeg x) c = bind_ok (eval ev x c) (\<lambda>v. Inr (Num (fNeg (evFloats ev) (toNum (evFloats ev) (evRoot ev) v))))"
| "eval ev (XCall name args) c = bind_ok (eval_args ev args c) (\<lambda>vs. call_function ev c (go_string name) vs)"
| "eval ev (XLocation absolute start steps) c =
     bind_ok (case start of
         Some e \<Rightarrow> bind_ok (eval ev e c) (\<lambda>v. case v of NodeSet ns \<Rightarrow> Inr ns | _ \<Rightarrow> Inl StepOnNonNodeSet)
       | None \<Rightarrow> Inr [if absolute then Real [] else ecNode c])
     (\<lambda>cur. bind_ok (eval_steps ev steps cur) (\<lambda>ns. Inr (NodeSet ns)))"
| "eval ev (XBinary op l r) c =
     bind_ok (eval ev l c) (\<lambda>v.
       if op = runes_of ''or'' \<and> toBool (evFloats ev) v then Inr (Boolean True)
       else if op = runes_of ''and'' \<and> \<not> toBool (evFloats ev) v then Inr (Boolean False)
       else bind_ok (eval ev r c) (\<lambda>w.
         if op = runes_of ''or'' \<or> op = runes_of ''and'' then Inr (Boolean (toBool (evFloats ev) w))
         else binary_value ev op v w))"
| "eval_args ev [] c = Inr []"
| "eval_args ev (a # as) c = bind_ok (eval ev a c) (\<lambda>v. bind_ok (eval_args ev as c) (\<lambda>vs. Inr (v # vs)))"
| "eval_steps ev [] cur = Inr cur"
| "eval_steps ev (XStep axis test preds # steps) cur =
     bind_ok (candidates ev axis test cur []) (\<lambda>cand.
       bind_ok (apply_preds ev preds cand) (\<lambda>ns. eval_steps ev steps ns))"
| "apply_preds ev [] nodes = Inr nodes"
| "apply_preds ev (p # ps) nodes = bind_ok (keep_nodes ev p 1 (length nodes) nodes) (\<lambda>ns. apply_preds ev ps ns)"
| "keep_nodes ev p i sz [] = Inr []"
| "keep_nodes ev p i sz (n # ns) =
     bind_ok (eval ev p \<lparr>ecNode = n, ecPos = i, ecSize = sz\<rparr>) (\<lambda>v.
       bind_ok (keep_nodes ev p (Suc i) sz ns) (\<lambda>kept. Inr (if keeps (evFloats ev) i v then n # kept else kept)))"
  by pat_completeness auto

termination
  by (relation "measures [\<lambda>x. case x of
        Inl (Inl (ev, e, c)) \<Rightarrow> 2 * size e
      | Inl (Inr (ev, es, c)) \<Rightarrow> 2 * size_list size es
      | Inr (Inl (ev, ss, cur)) \<Rightarrow> 2 * size_list size ss
      | Inr (Inr (Inl (ev, ps, nodes))) \<Rightarrow> 2 * size_list size ps
      | Inr (Inr (Inr (ev, p, i, sz, nodes))) \<Rightarrow> 2 * size p + 1,
     \<lambda>x. case x of Inr (Inr (Inr (ev, p, i, sz, nodes))) \<Rightarrow> length nodes | _ \<Rightarrow> 0]") auto

end
