(* ===== verification/Xpath_Nodes.thy ===== *)
theory Xpath_Nodes
  imports Xpath_Eval
begin

text \<open>
  What the evaluator does with nodes: pointers stay inside the tree, node-sets hold no node twice, and a
  location path whose predicates do not count positions selects the nodes of the relation its steps
  describe.
\<close>

subsection \<open>Pointers into the tree\<close>

fun valid_path :: "xnode \<Rightarrow> nat list \<Rightarrow> bool" where
  "valid_path n [] = True"
| "valid_path n (i # p) = (i < length (xnKids n) \<and> valid_path (xnKids n ! i) p)"

fun valid_ref :: "xnode \<Rightarrow> xref \<Rightarrow> bool" where
  "valid_ref root (Real p) = valid_path root p"
| "valid_ref root (Copy p) = valid_path root p"

lemma valid_path_append [simp]: "valid_path n (p @ q) = (valid_path n p \<and> valid_path (node_at n p) q)"
  by (induction p arbitrary: n) auto

lemma node_at_append [simp]: "node_at n (p @ q) = node_at (node_at n p) q"
  by (induction p arbitrary: n) auto

lemma valid_butlast: "valid_path n p \<Longrightarrow> valid_path n (butlast p)"
  by (cases p rule: rev_cases) auto

lemma valid_parent: "valid_ref root r \<Longrightarrow> parent_ref r = Some p \<Longrightarrow> valid_ref root p"
  by (cases r) (auto split: if_splits simp: valid_butlast)

lemma kid_refs_set: "set (kid_refs root (Real p)) = {Real (p @ [i]) | i. i < length (xnKids (node_at root p))}"
  by auto

lemma subtree_set:
  "set (subtree p n) = {p @ q | q. valid_path n q}"
  "set (subtrees p i ks) = {p @ (i + j) # q | j q. j < length ks \<and> valid_path (ks ! j) q}"
proof (induction p n and p i ks rule: subtree_subtrees.induct)
  case (1 p a b c d e kids)
  have "{p @ q | q. valid_path (XNode a b c d e kids) q} = insert p {p @ j # q | j q. j < length kids \<and> valid_path (kids ! j) q}"
    (is "?l = ?r")
  proof
    show "?l \<subseteq> ?r"
    proof
      fix x assume "x \<in> ?l"
      then obtain q where "x = p @ q" "valid_path (XNode a b c d e kids) q" by blast
      then show "x \<in> ?r" by (cases q) auto
    qed
    show "?r \<subseteq> ?l"
    proof
      fix x assume "x \<in> ?r"
      then consider "x = p" | j q where "x = p @ j # q" "j < length kids" "valid_path (kids ! j) q" by blast
      then show "x \<in> ?l"
      proof cases
        case 1
        then have "x = p @ [] \<and> valid_path (XNode a b c d e kids) []" by simp
        then show ?thesis by blast
      next
        case (2 j q)
        then have "x = p @ (j # q) \<and> valid_path (XNode a b c d e kids) (j # q)" by simp
        then show ?thesis by blast
      qed
    qed
  qed
  then show ?case using 1 by simp
next
  case (2 p i)
  then show ?case by simp
next
  case (3 p i k ks)
  have "{p @ (i + j) # q | j q. j < length (k # ks) \<and> valid_path ((k # ks) ! j) q} =
      {p @ i # q | q. valid_path k q} \<union> {p @ (Suc i + j) # q | j q. j < length ks \<and> valid_path (ks ! j) q}" (is "?l = ?r")
  proof
    show "?l \<subseteq> ?r"
    proof
      fix x assume "x \<in> ?l"
      then obtain j q where "x = p @ (i + j) # q" "j < length (k # ks)" "valid_path ((k # ks) ! j) q" by blast
      then show "x \<in> ?r" by (cases j) auto
    qed
    show "?r \<subseteq> ?l"
    proof
      fix x assume "x \<in> ?r"
      then consider q where "x = p @ (i + 0) # q" "valid_path ((k # ks) ! 0) q"
        | j q where "x = p @ (i + Suc j) # q" "Suc j < length (k # ks)" "valid_path ((k # ks) ! Suc j) q" by auto
      then show "x \<in> ?l" by cases blast+
    qed
  qed
  then show ?case using 3 by simp
qed

lemma subtree_distinct: "distinct (subtree p n)" "distinct (subtrees p i ks)"
  by (induction p n and p i ks rule: subtree_subtrees.induct) (auto simp: subtree_set)

subsection \<open>The axes as relations\<close>

fun on_axis :: "xnode \<Rightarrow> string \<Rightarrow> xref \<Rightarrow> xref \<Rightarrow> bool" where
  "on_axis root axis c n =
     (if axis = ''self'' then n = c
      else if axis = ''parent'' then parent_ref c = Some n
      else if axis = ''child'' then \<exists>p i. c = Real p \<and> n = Real (p @ [i]) \<and> valid_path (node_at root p) [i]
      else axis = ''descendant-or-self'' \<and>
        (n = c \<or> (\<exists>p q. c = Real p \<and> n = Real (p @ q) \<and> valid_path (node_at root p) q)))"

declare on_axis.simps [simp del]

lemma axis_nodes_set: "axis_nodes root axis c = Some ns \<Longrightarrow> set ns = {n. on_axis root axis c n}"
proof -
  assume a: "axis_nodes root axis c = Some ns"
  have "set (walk_refs root c) = {n. n = c \<or> (\<exists>p q. c = Real p \<and> n = Real (p @ q) \<and> valid_path (node_at root p) q)}"
  proof (cases c)
    case (Real p)
    have "c = Real (p @ []) \<and> valid_path (node_at root p) []" using Real by simp
    then show ?thesis using Real by (auto simp: subtree_set)
  qed simp
  moreover have "set (kid_refs root c) = {n. \<exists>p i. c = Real p \<and> n = Real (p @ [i]) \<and> valid_path (node_at root p) [i]}"
    by (cases c) auto
  ultimately show ?thesis using a by (auto simp: axis_nodes_def on_axis.simps split: if_splits option.splits)
qed

lemma on_axis_valid: "valid_ref root c \<Longrightarrow> on_axis root axis c n \<Longrightarrow> valid_ref root n"
  by (auto simp: on_axis.simps valid_parent split: if_splits)

subsection \<open>One step\<close>

text \<open>The node is there for the expression and has the name of the test.\<close>
definition passes :: "'n evaluator \<Rightarrow> xtext \<Rightarrow> xref \<Rightarrow> bool" where
  "passes ev test n \<longleftrightarrow> \<not> isExcluded ev n \<and> matchTest ev n test = Inr True"

lemma add_nodes_exact:
  "add_nodes ev test ns cand = Inr out \<Longrightarrow> distinct cand \<Longrightarrow>
    distinct out \<and> set out = set cand \<union> {n \<in> set ns. passes ev test n}"
proof (induction ns arbitrary: cand)
  case (Cons n ns)
  show ?case
  proof (cases "n \<in> set cand \<or> isExcluded ev n")
    case True
    then show ?thesis using Cons by (auto simp: passes_def)
  next
    case False
    then obtain ok where ok: "matchTest ev n test = Inr ok" using Cons.prems by (auto split: sum.splits)
    then show ?thesis using False Cons.prems Cons.IH[of "if ok then cand @ [n] else cand"] by (auto simp: passes_def)
  qed
qed simp

lemma candidates_exact:
  "candidates ev axis test cs cand = Inr out \<Longrightarrow> distinct cand \<Longrightarrow>
    distinct out \<and> set out = set cand \<union> {n. passes ev test n \<and> (\<exists>c \<in> set cs. on_axis (evRoot ev) axis c n)}"
proof (induction cs arbitrary: cand)
  case (Cons c cs)
  then obtain ns where ns: "axis_nodes (evRoot ev) axis c = Some ns" by (auto split: option.splits)
  then obtain mid where mid: "add_nodes ev test ns cand = Inr mid" using Cons.prems by (auto split: sum.splits)
  have "distinct mid" "set mid = set cand \<union> {n \<in> set ns. passes ev test n}"
    using add_nodes_exact[OF mid Cons.prems(2)] by blast+
  moreover have "distinct out \<and> set out = set mid \<union> {n. passes ev test n \<and> (\<exists>c \<in> set cs. on_axis (evRoot ev) axis c n)}"
    using Cons.IH[of mid] Cons.prems(1) ns mid calculation(1) by simp
  ultimately show ?case using axis_nodes_set[OF ns] by auto
qed simp

lemma union_loop_exact: "distinct out \<Longrightarrow> distinct (union_loop out ns) \<and> set (union_loop out ns) = set out \<union> set ns"
  by (induction out ns rule: union_loop.induct) auto

subsection \<open>Node-sets\<close>

text \<open>A value is sound if it is no node-set, or its nodes are in the tree and none is there twice.\<close>
definition sound_nodes :: "xnode \<Rightarrow> xref list \<Rightarrow> bool" where
  "sound_nodes root ns \<longleftrightarrow> distinct ns \<and> (\<forall>n \<in> set ns. valid_ref root n)"

definition sound_value :: "xnode \<Rightarrow> 'n xval \<Rightarrow> bool" where
  "sound_value root v \<longleftrightarrow> (\<forall>ns. v = NodeSet ns \<longrightarrow> sound_nodes root ns)"

definition sound_context :: "'n evaluator \<Rightarrow> xref \<Rightarrow> bool" where
  "sound_context ev n \<longleftrightarrow> valid_ref (evRoot ev) n \<and> (\<forall>c. evCurrent ev = Some c \<longrightarrow> valid_ref (evRoot ev) c)"

lemma sound_value_simps [simp]:
  "sound_value root (NodeSet ns) = sound_nodes root ns" "sound_value root (Str s)" "sound_value root (Num n)"
  "sound_value root (Boolean b)"
  by (simp_all add: sound_value_def)

definition sound_outcome :: "xnode \<Rightarrow> 'n xval outcome \<Rightarrow> bool" where
  "sound_outcome root r \<longleftrightarrow> (\<forall>v. r = Inr v \<longrightarrow> sound_value root v)"

lemma sound_outcome_simps [simp]:
  "sound_outcome root (Inl e)" "sound_outcome root (Inr v) = sound_value root v"
  by (simp_all add: sound_outcome_def)

lemma sound_if: "(P \<Longrightarrow> sound_outcome root a) \<Longrightarrow> (\<not> P \<Longrightarrow> sound_outcome root b) \<Longrightarrow> sound_outcome root (if P then a else b)"
  by simp

lemma sound_parts:
  "sound_outcome root (re_match ev s t)" "sound_outcome root (local_name ev c args)" "sound_outcome root (evalDerivedFrom ev v q b)"
  by (auto simp: sound_outcome_def re_match_def local_name_def evalDerivedFrom_def
      split: option.splits xval.splits sum.splits list.splits if_splits)

lemma sound_count: "(\<And>ns. sound_outcome root (k ns)) \<Longrightarrow> sound_outcome root (case v of NodeSet ns \<Rightarrow> k ns | _ \<Rightarrow> Inl e)"
  by (cases v) simp_all

lemma call_function_sound:
  assumes "sound_context ev (ecNode c)"
  shows "sound_outcome (evRoot ev) (call_function ev c name args)"
proof -
  have "sound_nodes (evRoot ev) (case evCurrent ev of None \<Rightarrow> [] | Some n \<Rightarrow> [n])"
    using assms by (cases "evCurrent ev") (auto simp: sound_context_def sound_nodes_def)
  then show ?thesis
    unfolding call_function_def Let_def by (intro sound_if sound_parts sound_count) simp_all
qed

lemma binary_value_sound:
  "binary_value ev op l r = Inr v \<Longrightarrow> sound_value (evRoot ev) l \<Longrightarrow> sound_value (evRoot ev) r \<Longrightarrow> sound_value (evRoot ev) v"
  unfolding binary_value_def Let_def
  by (cases l; cases r) (auto simp: sound_nodes_def unionNodes_def union_loop_exact split: if_splits)

lemma candidates_sound:
  "candidates ev axis test cs [] = Inr out \<Longrightarrow> \<forall>c \<in> set cs. valid_ref (evRoot ev) c \<Longrightarrow> sound_nodes (evRoot ev) out"
  using candidates_exact[of ev axis test cs "[]" out] on_axis_valid by (auto simp: sound_nodes_def)

lemma eval_sound:
  "eval ev e c = Inr v \<Longrightarrow> sound_context ev (ecNode c) \<Longrightarrow> sound_value (evRoot ev) v"
  "eval_args ev es c = Inr vs \<Longrightarrow> True"
  "eval_steps ev steps cur = Inr out \<Longrightarrow> sound_nodes (evRoot ev) cur \<Longrightarrow> sound_nodes (evRoot ev) out"
  "apply_preds ev ps nodes = Inr out \<Longrightarrow> sound_nodes (evRoot ev) nodes \<Longrightarrow> sound_nodes (evRoot ev) out"
  "keep_nodes ev p i sz nodes = Inr out \<Longrightarrow> sound_nodes (evRoot ev) nodes \<Longrightarrow> sound_nodes (evRoot ev) out \<and> set out \<subseteq> set nodes"
proof (induction ev e c and ev es c and ev steps cur and ev ps nodes and ev p i sz nodes
    arbitrary: v and vs and out and out and out rule: eval_eval_args_eval_steps_apply_preds_keep_nodes.induct)
  case (4 ev name args c)
  then show ?case using call_function_sound[of ev c "go_string name"] by (auto simp: sound_outcome_def split: sum.splits)
next
  case (5 ev absolute start steps c)
  show ?case
  proof (cases start)
    case None
    then have "sound_nodes (evRoot ev) [if absolute then Real [] else ecNode c]"
      using 5 by (auto simp: sound_nodes_def sound_context_def)
    then show ?thesis using 5 None by (auto split: sum.splits)
  next
    case (Some e)
    then obtain ns where ns: "eval ev e c = Inr (NodeSet ns)" using 5(3) by (auto split: sum.splits xval.splits)
    then have "sound_nodes (evRoot ev) ns" using 5(1)[OF Some ns] 5(4) by simp
    then show ?thesis using 5(2)[of ns] 5(3) Some ns by (auto split: sum.splits)
  qed
next
  case (6 ev op l r c)
  then show ?case by (auto split: sum.splits if_splits dest: binary_value_sound)
next
  case (10 ev axis test preds steps cur)
  then show ?case using candidates_sound[of ev axis test cur] by (auto simp: sound_nodes_def split: sum.splits)
next
  case (14 ev p i sz n ns)
  then obtain v where v: "eval ev p \<lparr>ecNode = n, ecPos = i, ecSize = sz\<rparr> = Inr v" by (auto split: sum.splits)
  then obtain kept where k: "keep_nodes ev p (Suc i) sz ns = Inr kept" using 14(3) by (auto split: sum.splits)
  have ns: "sound_nodes (evRoot ev) ns" using 14(4) by (simp add: sound_nodes_def)
  have "sound_nodes (evRoot ev) kept \<and> set kept \<subseteq> set ns" using 14(2)[OF v k ns] .
  then show ?case using 14(3,4) v k by (auto simp: sound_nodes_def split: if_splits)
qed (auto split: sum.splits)

subsection \<open>Predicates that do not count\<close>

text \<open>The expression does not ask for the position or the size of its own context.\<close>
fun uncounted :: "'n xexpr \<Rightarrow> bool" where
  "uncounted (XNumber v) = True"
| "uncounted (XLiteral s) = True"
| "uncounted (XNeg x) = uncounted x"
| "uncounted (XCall name args) =
     (go_string name \<noteq> ''position'' \<and> go_string name \<noteq> ''last'' \<and> list_all uncounted args)"
| "uncounted (XLocation absolute start steps) = (case start of None \<Rightarrow> True | Some e \<Rightarrow> uncounted e)"
| "uncounted (XBinary op l r) = (uncounted l \<and> uncounted r)"

text \<open>The value of the expression is not a number.\<close>
fun not_number :: "'n xexpr \<Rightarrow> bool" where
  "not_number (XNumber v) = False"
| "not_number (XNeg x) = False"
| "not_number (XCall name args) =
     (go_string name \<notin> {''number'', ''count'', ''sum'', ''position'', ''last'', ''string-length'', ''floor'', ''ceiling'', ''round''})"
| "not_number (XBinary op l r) =
     (op \<in> runes_of ` {''or'', ''and'', ''|'', ''='', ''!='', ''<'', ''<='', ''>'', ''>=''})"
| "not_number e = True"

lemma local_name_uncounted:
  "local_name ev \<lparr>ecNode = n, ecPos = i, ecSize = sz\<rparr> args = local_name ev \<lparr>ecNode = n, ecPos = j, ecSize = tz\<rparr> args"
  by (cases args) (simp_all add: local_name_def)

lemma call_uncounted:
  "name \<noteq> ''position'' \<Longrightarrow> name \<noteq> ''last'' \<Longrightarrow>
    call_function ev \<lparr>ecNode = n, ecPos = i, ecSize = sz\<rparr> name args = call_function ev \<lparr>ecNode = n, ecPos = j, ecSize = tz\<rparr> name args"
  by (simp add: call_function_def local_name_uncounted[of ev n i sz _ j tz] Let_def cong: if_cong)

lemma eval_uncounted:
  "uncounted e \<Longrightarrow> eval ev e \<lparr>ecNode = n, ecPos = i, ecSize = sz\<rparr> = eval ev e \<lparr>ecNode = n, ecPos = j, ecSize = tz\<rparr>"
proof (induction e rule: uncounted.induct)
  case (4 name args)
  have "eval_args ev as \<lparr>ecNode = n, ecPos = i, ecSize = sz\<rparr> = eval_args ev as \<lparr>ecNode = n, ecPos = j, ecSize = tz\<rparr>"
    if "set as \<subseteq> set args" for as
    using that 4 by (induction as) (auto simp: list_all_iff cong: sum.case_cong)
  moreover have "call_function ev \<lparr>ecNode = n, ecPos = i, ecSize = sz\<rparr> (go_string name) =
      call_function ev \<lparr>ecNode = n, ecPos = j, ecSize = tz\<rparr> (go_string name)"
    using 4(2) call_uncounted[of "go_string name" ev n i sz _ j tz] by (intro ext) simp
  ultimately show ?case by (simp cong: sum.case_cong)
next
  case (5 absolute start steps)
  then show ?case by (cases start) auto
qed (simp_all cong: sum.case_cong if_cong)

definition not_num :: "'n xval outcome \<Rightarrow> bool" where
  "not_num r \<longleftrightarrow> (\<forall>x. r \<noteq> Inr (Num x))"

lemma not_num_simps [simp]:
  "not_num (Inl e)" "not_num (Inr (NodeSet ns))" "not_num (Inr (Str s))" "not_num (Inr (Boolean b))"
  by (simp_all add: not_num_def)

lemma not_num_if: "(P \<Longrightarrow> not_num a) \<Longrightarrow> (\<not> P \<Longrightarrow> not_num b) \<Longrightarrow> not_num (if P then a else b)"
  by simp

lemma not_num_parts: "not_num (re_match ev s t)" "not_num (local_name ev c args)" "not_num (evalDerivedFrom ev v q b)"
  by (auto simp: not_num_def re_match_def local_name_def evalDerivedFrom_def
      split: option.splits xval.splits sum.splits list.splits if_splits)

lemma call_not_number:
  "name \<notin> {''number'', ''count'', ''sum'', ''position'', ''last'', ''string-length'', ''floor'', ''ceiling'', ''round''} \<Longrightarrow>
    not_num (call_function ev c name args)"
  unfolding call_function_def Let_def by (intro not_num_if not_num_parts) simp_all

lemma eval_not_number: "not_number e \<Longrightarrow> not_num (eval ev e c)"
proof (cases e)
  case (XBinary op l r)
  assume e: "not_number e"
  have "not_num (binary_value ev op v w)" if "op \<noteq> runes_of ''or''" "op \<noteq> runes_of ''and''" for v w
    using e XBinary that by (auto simp: binary_value_def Let_def not_num_def split: xval.splits if_splits)
  then show ?thesis using XBinary by (auto simp: not_num_def split: sum.splits if_splits)
next
  case (XCall name args)
  assume "not_number e"
  then show ?thesis using XCall call_not_number[of "go_string name" ev c] by (auto simp: not_num_def split: sum.splits)
qed (auto simp: not_num_def split: sum.splits)

text \<open>The predicate holds of a node.\<close>
definition holds_at :: "'n evaluator \<Rightarrow> 'n xexpr \<Rightarrow> xref \<Rightarrow> bool" where
  "holds_at ev p n \<longleftrightarrow> (\<exists>v. eval ev p \<lparr>ecNode = n, ecPos = 1, ecSize = 1\<rparr> = Inr v \<and> toBool (evFloats ev) v)"

definition plain_predicate :: "'n xexpr \<Rightarrow> bool" where
  "plain_predicate p \<longleftrightarrow> uncounted p \<and> not_number p"

lemma keep_plain: "plain_predicate p \<Longrightarrow> keep_nodes ev p i sz ns = Inr out \<Longrightarrow> out = filter (holds_at ev p) ns"
proof (induction ns arbitrary: i out)
  case (Cons n ns)
  then obtain v where v: "eval ev p \<lparr>ecNode = n, ecPos = i, ecSize = sz\<rparr> = Inr v" by (auto split: sum.splits)
  then obtain kept where k: "keep_nodes ev p (Suc i) sz ns = Inr kept" using Cons.prems(2) by (auto split: sum.splits)
  have "eval ev p \<lparr>ecNode = n, ecPos = 1, ecSize = 1\<rparr> = Inr v"
    using v eval_uncounted[of p ev n i sz 1 1] Cons.prems(1) by (simp add: plain_predicate_def)
  moreover have "keeps (evFloats ev) i v = toBool (evFloats ev) v"
    using eval_not_number[of p ev "\<lparr>ecNode = n, ecPos = i, ecSize = sz\<rparr>"] Cons.prems(1) v
    by (cases v) (auto simp: plain_predicate_def not_num_def keeps_def)
  ultimately show ?case using Cons v k by (auto simp: holds_at_def)
qed simp

lemma apply_plain: "list_all plain_predicate ps \<Longrightarrow> apply_preds ev ps ns = Inr out \<Longrightarrow>
    out = filter (\<lambda>n. list_all (\<lambda>p. holds_at ev p n) ps) ns"
proof (induction ps arbitrary: ns)
  case (Cons p ps)
  then obtain kept where "keep_nodes ev p 1 (length ns) ns = Inr kept" by (auto split: sum.splits)
  then show ?case using Cons.prems Cons.IH[of kept] keep_plain[of p ev 1 "length ns" ns kept] by (simp add: filter_filter)
qed simp

subsection \<open>Location paths as relations\<close>

text \<open>The nodes a step selects from a set of nodes, and those a path selects.\<close>
fun step_set :: "'n evaluator \<Rightarrow> 'n xstep \<Rightarrow> xref set \<Rightarrow> xref set" where
  "step_set ev (XStep axis test preds) S =
     {n. (\<exists>c \<in> S. on_axis (evRoot ev) axis c n) \<and> passes ev test n \<and> (\<forall>p \<in> set preds. holds_at ev p n)}"

fun plain_xstep :: "'n xstep \<Rightarrow> bool" where
  "plain_xstep (XStep axis test preds) = list_all plain_predicate preds"

definition path_set :: "'n evaluator \<Rightarrow> 'n xstep list \<Rightarrow> xref set \<Rightarrow> xref set" where
  "path_set ev steps S = foldl (\<lambda>T step. step_set ev step T) S steps"

lemma eval_steps_exact: "list_all plain_xstep steps \<Longrightarrow> eval_steps ev steps cur = Inr out \<Longrightarrow> set out = path_set ev steps (set cur)"
proof (induction steps arbitrary: cur)
  case (Cons step steps)
  obtain axis test preds where s: "step = XStep axis test preds" by (cases step)
  then obtain cand where cand: "candidates ev axis test cur [] = Inr cand" using Cons.prems(2) by (auto split: sum.splits)
  then obtain kept where kept: "apply_preds ev preds cand = Inr kept" using Cons.prems(2) s by (auto split: sum.splits)
  have "set kept = step_set ev step (set cur)"
    using candidates_exact[OF cand] apply_plain[OF _ kept] Cons.prems(1) s by (auto simp: list_all_iff)
  then show ?case using Cons s cand kept by (simp add: path_set_def)
qed (simp add: path_set_def)

end
