(* ===== verification/Xpath_Constraints.thy ===== *)
theory Xpath_Constraints
  imports Xpath_Nodes Xpath_Complete
begin

text \<open>
  The \<open>when\<close> and \<open>must\<close> constraints of the nodes of a tree (\<open>go/datatree/datatree_mustwhen.go\<close>): the context
  of a constraint, its evaluation, and the loops over the constraints of one node.  The messages keep
  their arguments.
\<close>

text \<open>A constraint: its expression, the module it was written in if that is known, and the rest of its data.\<close>
record constraint =
  coExpr :: xtext
  coSource :: "nat option"

record when_constraint = constraint +
  coDepth :: nat
  coExcluded :: "nat list"

record must_constraint = constraint +
  coMessage :: "string option"

datatype violation = WhenViolated string xtext | MustViolated string string | MustFailed string xtext

datatype predicate_result = PredicateFalse | PredicateTrue | LegacyUnsupported

text \<open>The error of an expression is that of the parser or that of the evaluator.\<close>
definition evalConstraint :: "'n evaluator \<Rightarrow> xtext \<Rightarrow> ectx \<Rightarrow> (xpath_error + eval_error) + bool" where
  "evalConstraint ev expr c =
     (case parseXPath (\<lambda>t. fParse (evFloats ev) (go_string t)) expr of
        Parsed ast _ \<Rightarrow> (case eval ev ast c of Inl e \<Rightarrow> Inl (Inr e) | Inr v \<Rightarrow> Inr (toBool (evFloats ev) v))
      | Failed e \<Rightarrow> Inl (Inl e)
      | Panicked \<Rightarrow> Inl (Inr NoReturn))"

text \<open>An error of the pattern engine, or a call that does not return, is not a result.\<close>
definition constraintDisposition :: "'n evaluator \<Rightarrow> xtext \<Rightarrow> ectx \<Rightarrow> predicate_result outcome" where
  "constraintDisposition ev expr c =
     (case evalConstraint ev expr c of
        Inl (Inr (PatternEvaluation e)) \<Rightarrow> Inl (PatternEvaluation e)
      | Inl (Inr NoReturn) \<Rightarrow> Inl NoReturn
      | Inl _ \<Rightarrow> Inr LegacyUnsupported
      | Inr b \<Rightarrow> Inr (if b then PredicateTrue else PredicateFalse))"

fun constraintContextNode :: "xref \<Rightarrow> nat \<Rightarrow> xref option" where
  "constraintContextNode n 0 = Some n"
| "constraintContextNode n (Suc k) = Option.bind (parent_ref n) (\<lambda>p. constraintContextNode p k)"

text \<open>The childless copy; the nodes of the tree only are copied.\<close>
fun dummyConstraintNode :: "xref \<Rightarrow> xref" where
  "dummyConstraintNode (Real p) = Copy p"
| "dummyConstraintNode (Copy p) = Copy p"

text \<open>The evaluator of a constraint, from what is common to all (the tree, the modules and the schema).\<close>
definition constraintEvaluator :: "'n evaluator \<Rightarrow> xref \<Rightarrow> xref \<Rightarrow> nat option \<Rightarrow> nat \<Rightarrow> nat list \<Rightarrow> 'n evaluator" where
  "constraintEvaluator base contextNode current source fallback excluded =
     base\<lparr>evModule := (case source of None \<Rightarrow> fallback | Some m \<Rightarrow> m), evUnprefixedNS := xnNS (deref (evRoot base) contextNode),
       evExcluded := excluded, evCurrent := Some current, evPrefixNS := Map.empty\<rparr>"

text \<open>The names from the root down, without the nameless root.\<close>
definition xnodePath :: "xnode \<Rightarrow> nat list \<Rightarrow> string" where
  "xnodePath root p = ''/'' @ join_with ''/'' (map (\<lambda>k. xnName (node_at root (take (Suc k) p))) [0..<length p])"

definition mustMessage :: "string \<Rightarrow> must_constraint \<Rightarrow> violation" where
  "mustMessage path m =
     (case coMessage m of
        Some msg \<Rightarrow> if msg \<noteq> [] then MustViolated path msg else MustFailed path (coExpr m)
      | None \<Rightarrow> MustFailed path (coExpr m))"

text \<open>The two loops of \<open>walkMustWhen\<close> over the constraints of the node at \<open>p\<close>.\<close>
fun check_whens :: "'n evaluator \<Rightarrow> nat list \<Rightarrow> nat \<Rightarrow> when_constraint list \<Rightarrow> violation list \<Rightarrow> violation list outcome" where
  "check_whens base p module [] out = Inr out"
| "check_whens base p module (w # ws) out =
     (case constraintContextNode (Real p) (coDepth w) of
        None \<Rightarrow> check_whens base p module ws out
      | Some n \<Rightarrow>
          let n = (if coDepth w = 0 then dummyConstraintNode (Real p) else n);
              ev = constraintEvaluator base n n (coSource w) module (coExcluded w) in
          bind_ok (constraintDisposition ev (coExpr w) \<lparr>ecNode = n, ecPos = 1, ecSize = 1\<rparr>) (\<lambda>d.
            check_whens base p module ws
              (if d = PredicateFalse then out @ [WhenViolated (xnodePath (evRoot base) p) (coExpr w)] else out)))"

fun check_musts :: "'n evaluator \<Rightarrow> nat list \<Rightarrow> nat \<Rightarrow> must_constraint list \<Rightarrow> violation list \<Rightarrow> violation list outcome" where
  "check_musts base p module [] out = Inr out"
| "check_musts base p module (m # ms) out =
     (let ev = constraintEvaluator base (Real p) (Real p) (coSource m) module [] in
      bind_ok (constraintDisposition ev (coExpr m) \<lparr>ecNode = Real p, ecPos = 1, ecSize = 1\<rparr>) (\<lambda>d.
        check_musts base p module ms
          (if d = PredicateFalse then out @ [mustMessage (xnodePath (evRoot base) p) m] else out)))"

subsection \<open>What the loop reports\<close>

text \<open>
  The value of the expression of a \<open>must\<close> constraint at its node, or the error of its evaluation; none if the
  expression is not an XPath expression.
\<close>
definition must_value :: "'n evaluator \<Rightarrow> nat list \<Rightarrow> nat \<Rightarrow> must_constraint \<Rightarrow> 'n xval outcome option" where
  "must_value base p module m =
     (let ev = constraintEvaluator base (Real p) (Real p) (coSource m) module [] in
      case parseXPath (\<lambda>t. fParse (evFloats ev) (go_string t)) (coExpr m) of
        Parsed ast _ \<Rightarrow> Some (eval ev ast \<lparr>ecNode = Real p, ecPos = 1, ecSize = 1\<rparr>)
      | _ \<Rightarrow> None)"

text \<open>The errors of the pattern engine: a failure of the compiler or the matcher, or a call that does not return.\<close>
definition engine_error :: "eval_error \<Rightarrow> bool" where
  "engine_error e \<longleftrightarrow> (case e of PatternEvaluation _ \<Rightarrow> True | NoReturn \<Rightarrow> True | _ \<Rightarrow> False)"

definition must_stops :: "'n evaluator \<Rightarrow> nat list \<Rightarrow> nat \<Rightarrow> must_constraint \<Rightarrow> eval_error option" where
  "must_stops base p module m =
     (case must_value base p module m of Some (Inl e) \<Rightarrow> if engine_error e then Some e else None | _ \<Rightarrow> None)"

definition must_false :: "'n evaluator \<Rightarrow> nat list \<Rightarrow> nat \<Rightarrow> must_constraint \<Rightarrow> bool" where
  "must_false base p module m \<longleftrightarrow> (\<exists>v. must_value base p module m = Some (Inr v) \<and> \<not> toBool (evFloats base) v)"

lemma disposition_of_must:
  "constraintDisposition (constraintEvaluator base (Real p) (Real p) (coSource m) module []) (coExpr m)
      \<lparr>ecNode = Real p, ecPos = 1, ecSize = 1\<rparr> =
    (case must_stops base p module m of
       Some e \<Rightarrow> Inl e
     | None \<Rightarrow> Inr (case must_value base p module m of
         Some (Inr v) \<Rightarrow> if toBool (evFloats base) v then PredicateTrue else PredicateFalse
       | _ \<Rightarrow> LegacyUnsupported))"
proof -
  let ?ev = "constraintEvaluator base (Real p) (Real p) (coSource m) module []"
  let ?p = "parseXPath (\<lambda>t. fParse (evFloats ?ev) (go_string t)) (coExpr m)"
  have f: "evFloats ?ev = evFloats base" by (simp add: constraintEvaluator_def)
  note defs = constraintDisposition_def evalConstraint_def must_stops_def must_value_def engine_error_def Let_def
  show ?thesis
  proof (cases ?p)
    case Panicked
    then show ?thesis using parseXPath_ends[of "\<lambda>t. fParse (evFloats ?ev) (go_string t)" "coExpr m"] by auto
  next
    case (Parsed ast ts)
    then show ?thesis
      by (cases "eval ?ev ast \<lparr>ecNode = Real p, ecPos = 1, ecSize = 1\<rparr>") (auto simp: defs f split: eval_error.splits)
  qed (simp add: defs)
qed

text \<open>The first constraint that stops the loop.\<close>
fun first_stop :: "(must_constraint \<Rightarrow> eval_error option) \<Rightarrow> must_constraint list \<Rightarrow> eval_error option" where
  "first_stop f [] = None"
| "first_stop f (m # ms) = (case f m of Some e \<Rightarrow> Some e | None \<Rightarrow> first_stop f ms)"

lemma check_musts_exact:
  "check_musts base p module ms out =
    (case first_stop (must_stops base p module) ms of
       Some e \<Rightarrow> Inl e
     | None \<Rightarrow> Inr (out @ map (mustMessage (xnodePath (evRoot base) p)) (filter (must_false base p module) ms)))"
proof (induction ms arbitrary: out)
  case (Cons m ms)
  let ?d = "case must_value base p module m of Some (Inr v) \<Rightarrow> if toBool (evFloats base) v then PredicateTrue else PredicateFalse
      | _ \<Rightarrow> LegacyUnsupported"
  have f: "?d = PredicateFalse \<longleftrightarrow> must_false base p module m" by (auto simp: must_false_def split: option.splits sum.splits)
  have "check_musts base p module (m # ms) out = bind_ok (case must_stops base p module m of Some e \<Rightarrow> Inl e | None \<Rightarrow> Inr ?d)
      (\<lambda>d. check_musts base p module ms (if d = PredicateFalse then out @ [mustMessage (xnodePath (evRoot base) p) m] else out))"
    unfolding check_musts.simps Let_def disposition_of_must ..
  then show ?case using Cons f by (cases "must_stops base p module m") (simp_all del: check_musts.simps split: option.split)
qed simp

end
