(* ===== verification/Xpath_Eval_Properties.thy ===== *)
theory Xpath_Eval_Properties
  imports Xpath_Constraints Compiler_Properties
begin

text \<open>
  The properties of the XPath evaluator: node-sets, location paths, positional predicates, the
  function \<open>re-match\<close> with the pattern compiler and matcher behind it, and the reports of constraints.
\<close>

subsection \<open>A small tree\<close>

text \<open>Integers in place of doubles, for the examples.\<close>
definition int_floats :: "int floats" where
  "int_floats = \<lparr>fAdd = (+), fSub = (-), fMul = (*), fDiv = (div), fMod = (mod), fNeg = uminus, fFloor = id, fCeil = id,
     fTrunc = id, fEq = (=), fLess = (<), fLeq = (\<le>), fIsNaN = (\<lambda>_. False), fIsInf = (\<lambda>_. False), fNaN = 0, fInf = 1000000,
     fHalf = 0, fOfNat = int,
     fParse = (\<lambda>s. if s \<noteq> [] \<and> list_all is_digit s then Some (int (nat_of_dec s)) else None),
     fFormatF = (\<lambda>n. dec_of_nat (nat n)), fFormatG = (\<lambda>n. dec_of_nat (nat n))\<rparr>"

definition sample_leaf :: "string \<Rightarrow> xnode" where
  "sample_leaf val = XNode ''b'' ''u'' val True (Some 1) []"

definition sample_tree :: xnode where
  "sample_tree = XNode [] [] [] False None
     [XNode ''l'' ''u'' [] False (Some 0) [sample_leaf ''1'', sample_leaf ''2''],
      XNode ''l'' ''u'' [] False (Some 0) [sample_leaf ''3'', sample_leaf ''4'']]"

definition sample_ev :: "int evaluator" where
  "sample_ev = \<lparr>evRoot = sample_tree, evModule = 0, evUnprefixedNS = ''u'', evExcluded = [], evCurrent = None,
     evPrefixNS = (\<lambda>_. None),
     evModules = (\<lambda>_. \<lparr>xmName = ''m'', xmPrefix = ''p'', xmNamespace = ''u'', xmImports = (\<lambda>_. None), xmIdentities = (\<lambda>_. None)\<rparr>),
     evSchema = (\<lambda>_. \<lparr>snModule = 0, snAncestors = [], snLeafType = None\<rparr>),
     evFloats = int_floats, evCats = sample_cats, evEngine = sample_engine\<rparr>"

abbreviation sample_context :: ectx where
  "sample_context \<equiv> \<lparr>ecNode = Real [], ecPos = 1, ecSize = 1\<rparr>"

text \<open>The path \<open>/l/b\<close> with predicates on its second step.\<close>
definition sample_steps :: "int xexpr list \<Rightarrow> int xstep list" where
  "sample_steps preds = [XStep ''child'' (runes_of ''l'') [], XStep ''child'' (runes_of ''b'') preds]"

text \<open>The predicate \<open>. = '3'\<close>\<close>
definition sample_predicate :: "int xexpr" where
  "sample_predicate = XBinary (runes_of ''='') (XLocation False None [XStep ''self'' any_node []]) (XLiteral (runes_of ''3''))"

lemma sample_path: "eval sample_ev (XLocation True None (sample_steps [sample_predicate])) sample_context = Inr (NodeSet [Real [1, 0]])"
  by code_simp

lemma sample_positions: "eval_steps sample_ev (sample_steps [XNumber 1]) [Real []] = Inr [Real [0, 0]]"
  by code_simp

subsection \<open>Node-sets and paths\<close>

text \<open>
  C31: Whatever expression is evaluated, a node-set in its value holds pointers into the tree only, and no
  node twice, if the context node and the current node are in the tree.
\<close>
theorem node_sets_sound:
  assumes "eval ev e c = Inr (NodeSet ns)" "valid_ref (evRoot ev) (ecNode c)"
    "case evCurrent ev of None \<Rightarrow> True | Some n \<Rightarrow> valid_ref (evRoot ev) n"
  shows "distinct ns \<and> (\<forall>n \<in> set ns. valid_ref (evRoot ev) n)"
proof -
  have "sound_context ev (ecNode c)" using assms(2,3) by (auto simp: sound_context_def split: option.splits)
  then show ?thesis using eval_sound(1)[OF assms(1)] by (simp add: sound_nodes_def)
qed

theorem node_sets_sound_witness:
  "eval sample_ev (XLocation True None (sample_steps [sample_predicate])) sample_context = Inr (NodeSet [Real [1, 0]]) \<and>
    valid_ref sample_tree (Real [1, 0])"
proof -
  have "evCurrent sample_ev = None" "evRoot sample_ev = sample_tree" by (simp_all add: sample_ev_def)
  then show ?thesis using node_sets_sound[OF sample_path] sample_path by simp
qed

text \<open>
  C30: A location path whose predicates do not count positions selects exactly the nodes of the relation its
  steps describe: from each selected node, the nodes on the axis that the expression may see, that
  have the name of the test, and of which every predicate holds.
\<close>
theorem path_selects_relation:
  assumes "list_all plain_xstep path" "eval ev (XLocation absolute None path) c = Inr v"
  shows "\<exists>ns. v = NodeSet ns \<and> set ns = path_set ev path {if absolute then Real [] else ecNode c}"
proof -
  obtain ns where "eval_steps ev path [if absolute then Real [] else ecNode c] = Inr ns" "v = NodeSet ns"
    using assms(2) by (auto split: sum.splits)
  then show ?thesis using eval_steps_exact[OF assms(1)] by force
qed

theorem path_selects_relation_witness:
  "path_set sample_ev (sample_steps [sample_predicate]) {Real []} = {Real [1, 0]}"
proof -
  have "list_all plain_xstep (sample_steps [sample_predicate])" by code_simp
  from path_selects_relation[OF this sample_path] show ?thesis by simp
qed

subsection \<open>Positions\<close>

lemma keep_number:
  "keep_nodes ev (XNumber v) i sz ns =
    Inr (map snd (filter (\<lambda>(j, n). fEq (evFloats ev) v (fOfNat (evFloats ev) j)) (zip [i..<i + length ns] ns)))"
proof (induction ns arbitrary: i)
  case (Cons n ns)
  have "[i..<i + length (n # ns)] = i # [Suc i..<Suc i + length ns]" by (simp add: upt_rec[of i] Suc_le_eq)
  then show ?case using Cons by (simp add: keeps_def)
qed simp

text \<open>
  C34: A number as predicate of a step counts positions in the nodes the step finds from all context nodes
  together: it keeps at most one node in all, not one per context node as XPath 1.0 has it.
\<close>
theorem positional_predicate_counts_all:
  assumes "eval_steps ev [XStep axis test [XNumber v]] cur = Inr out"
    "\<And>i j. fEq (evFloats ev) v (fOfNat (evFloats ev) i) \<Longrightarrow> fEq (evFloats ev) v (fOfNat (evFloats ev) j) \<Longrightarrow> i = j"
  shows "\<exists>cand. candidates ev axis test cur [] = Inr cand \<and>
    out = map snd (filter (\<lambda>(j, n). fEq (evFloats ev) v (fOfNat (evFloats ev) j)) (zip [1..<Suc (length cand)] cand)) \<and>
    length out \<le> 1"
proof -
  obtain cand where c: "candidates ev axis test cur [] = Inr cand" using assms(1) by (auto split: sum.splits)
  let ?P = "\<lambda>(j, n :: xref). fEq (evFloats ev) v (fOfNat (evFloats ev) j)"
  let ?z = "zip [1..<Suc (length cand)] cand"
  have out: "out = map snd (filter ?P ?z)" using assms(1) c by (simp add: keep_number)
  have "distinct (map fst ?z)" by simp
  then have "distinct (map fst (filter ?P ?z))" by (rule distinct_map_filter)
  moreover have "j = k" if "j \<in> set (map fst (filter ?P ?z))" "k \<in> set (map fst (filter ?P ?z))" for j k
    using that assms(2) by auto
  ultimately have "length (map fst (filter ?P ?z)) \<le> 1"
    using distinct_card[of "map fst (filter ?P ?z)"] card_le_Suc0_iff_eq[of "set (map fst (filter ?P ?z))"] by (metis One_nat_def List.finite_set)
  then show ?thesis using c out by simp
qed

text \<open>The path \<open>/l/b[1]\<close> with two nodes \<open>l\<close>: only the first \<open>b\<close> of the first is found.\<close>
theorem positional_predicate_counts_all_witness:
  "candidates sample_ev ''child'' (runes_of ''b'') [Real [0], Real [1]] [] = Inr [Real [0, 0], Real [0, 1], Real [1, 0], Real [1, 1]] \<and>
    eval_steps sample_ev [XStep ''child'' (runes_of ''b'') [XNumber 1]] [Real [0], Real [1]] = Inr [Real [0, 0]] \<and>
    length [Real [0, 0]] \<le> 1"
proof -
  have e: "eval_steps sample_ev [XStep ''child'' (runes_of ''b'') [XNumber 1]] [Real [0], Real [1]] = Inr [Real [0, 0]]" by code_simp
  have c: "candidates sample_ev ''child'' (runes_of ''b'') [Real [0], Real [1]] [] = Inr [Real [0, 0], Real [0, 1], Real [1, 0], Real [1, 1]]"
    by code_simp
  have "fEq (evFloats sample_ev) 1 (fOfNat (evFloats sample_ev) i) \<Longrightarrow> fEq (evFloats sample_ev) 1 (fOfNat (evFloats sample_ev) j) \<Longrightarrow> i = j" for i j
    by (simp add: sample_ev_def int_floats_def)
  then have "length [Real [0, 0]] \<le> 1" using positional_predicate_counts_all[OF e] by blast
  then show ?thesis using c e by blast
qed

subsection \<open>Patterns in expressions\<close>

lemma compiled_match:
  assumes "length (utf8_runes s) < 2 ^ 63"
  shows "(\<exists>e. Compile cats eng pattern = Some (Inl e)) \<or>
    (\<exists>p L err matched. Compile cats eng pattern = Some (Inr p) \<and> xsd_expr cats (utf8_runes pattern) L \<and>
      MatchString eng p s = Some (matched, err) \<and> (err = None \<longrightarrow> (matched \<longleftrightarrow> utf8_runes s \<in> L)))"
proof -
  obtain r where r: "Compile cats eng pattern = Some r" "\<forall>p. r = Inr p \<longrightarrow> (\<exists>c root k. kinv c \<and> kvalid c root \<and>
      xsd_expr cats (utf8_runes pattern) (klang c root) \<and>
      RestoreWithLimits eng \<lparr>pVersion = FormatVersion, pSource = pattern, pNodes = kNodes c, pRoot = root\<rparr> k = Some (Inr p))"
    using compile_ok[of cats eng pattern compile_limits0] unfolding Compile_def by blast
  show ?thesis
  proof (cases r)
    case (Inr p)
    then obtain c root k where c: "xsd_expr cats (utf8_runes pattern) (klang c root)"
      "RestoreWithLimits eng \<lparr>pVersion = FormatVersion, pSource = pattern, pNodes = kNodes c, pRoot = root\<rparr> k = Some (Inr p)"
      using r(2) by blast
    have p: "restored p" "gData p = \<lparr>pVersion = FormatVersion, pSource = pattern, pNodes = kNodes c, pRoot = root\<rparr>"
      using RestoreWithLimits_restored[of eng "\<lparr>pVersion = FormatVersion, pSource = pattern, pNodes = kNodes c, pRoot = root\<rparr>" k] c(2)
      by auto
    have "\<exists>matched err. MatchString eng p s = Some (matched, err) \<and> (err = None \<longrightarrow> (matched \<longleftrightarrow> utf8_runes s \<in> klang c root))"
      using match_runes_ok[OF p(1) assms, of eng match_limits0] p(2)
      by (auto simp: MatchString_def MatchStringWithLimits_def match_value_def klang_def)
    then show ?thesis using r(1) Inr c(1) by blast
  qed (use r(1) in simp)
qed

text \<open>
  C32: The XPath function \<open>re-match\<close>, through the pattern compiler and the matcher: it returns, and unless
  the pattern engine reports an error the value is whether the runes of the first argument are in
  the language that the grammar of XSD expressions gives to the second.
\<close>
theorem re_match_decides_grammar:
  assumes "eval ev a c = Inr v" "eval ev b c = Inr w"
    "length (utf8_runes (toStr (evFloats ev) (evRoot ev) v)) < 2 ^ 63"
  shows "(\<exists>e. eval ev (XCall (runes_of ''re-match'') [a, b]) c = Inl (PatternEvaluation e)) \<or>
    (\<exists>L. xsd_expr (evCats ev) (utf8_runes (toStr (evFloats ev) (evRoot ev) w)) L \<and>
      eval ev (XCall (runes_of ''re-match'') [a, b]) c = Inr (Boolean (utf8_runes (toStr (evFloats ev) (evRoot ev) v) \<in> L)))"
proof -
  let ?s = "toStr (evFloats ev) (evRoot ev) v" and ?p = "toStr (evFloats ev) (evRoot ev) w"
  have n: "go_string (runes_of ''re-match'') = ''re-match''" by code_simp
  have e: "eval ev (XCall (runes_of ''re-match'') [a, b]) c = re_match ev ?s ?p"
    by (simp add: assms(1,2) n call_function_def Let_def)
  consider (error) e where "Compile (evCats ev) (evEngine ev) ?p = Some (Inl e)"
    | (ran) q L err matched where "Compile (evCats ev) (evEngine ev) ?p = Some (Inr q)" "xsd_expr (evCats ev) (utf8_runes ?p) L"
        "MatchString (evEngine ev) q ?s = Some (matched, err)" "err = None \<longrightarrow> (matched \<longleftrightarrow> utf8_runes ?s \<in> L)"
    using compiled_match[OF assms(3), of "evCats ev" "evEngine ev" ?p] by blast
  then show ?thesis
  proof cases
    case error
    then show ?thesis unfolding e by (simp add: re_match_def)
  next
    case ran
    show ?thesis
    proof (cases err)
      case None
      then have "re_match ev ?s ?p = Inr (Boolean (utf8_runes ?s \<in> L))" using ran by (simp add: re_match_def)
      then show ?thesis unfolding e using ran(2) by blast
    next
      case (Some x)
      then show ?thesis unfolding e using ran(1,3) by (simp add: re_match_def)
    qed
  qed
qed

theorem re_match_decides_grammar_witness:
  "(\<exists>e. eval sample_ev (XCall (runes_of ''re-match'') [XLiteral (runes_of ''abc''), XLiteral (runes_of ''a'')]) sample_context =
      Inl (PatternEvaluation e)) \<or>
    (\<exists>L. xsd_expr sample_cats (utf8_runes ''a'') L \<and>
      eval sample_ev (XCall (runes_of ''re-match'') [XLiteral (runes_of ''abc''), XLiteral (runes_of ''a'')]) sample_context =
        Inr (Boolean (utf8_runes ''abc'' \<in> L)))"
proof -
  have s: "eval sample_ev (XLiteral (runes_of ''abc'')) sample_context = Inr (Str ''abc'')"
    "eval sample_ev (XLiteral (runes_of ''a'')) sample_context = Inr (Str ''a'')" by code_simp+
  have "evCats sample_ev = sample_cats" by (simp add: sample_ev_def)
  then show ?thesis using re_match_decides_grammar[OF s] by (simp add: sample_runes)
qed

subsection \<open>Constraints\<close>

text \<open>
  C33: The loop over the \<open>must\<close> constraints of a node stops exactly when the evaluation of a constraint ends in an
  error of the pattern engine (or a call of it does not return), with the error of the first such
  constraint.  Otherwise it succeeds and reports, in order, exactly the constraints whose expression is
  parsed and evaluated to false: an expression that is no XPath, or whose evaluation has any other error,
  is skipped.
\<close>
theorem musts_reported_exactly:
  "check_musts base p module ms out =
    (case first_stop (must_stops base p module) ms of
       Some e \<Rightarrow> Inl e
     | None \<Rightarrow> Inr (out @ map (mustMessage (xnodePath (evRoot base) p)) (filter (must_false base p module) ms)))"
  by (rule check_musts_exact)

end
