(* ===== verification/Instance_Id.thy ===== *)
theory Instance_Id
  imports Go_Strings
begin

text \<open>
  Instance-identifier values (\<open>go/datatree/datatree_instanceid.go\<close>): the reader of a path with its
  predicates, and the two writers, of the JSON form with module names and of the form with declared
  prefixes.  The position of the reader is the text that is left.  Which identity a value names
  (\<open>identityValue\<close>, a question to the types of the schema, which may fail) is the argument \<open>idv\<close>.
\<close>

subsection \<open>Reading\<close>

datatype iid_kind = IidKey | IidLeafList | IidPos

record iid_pred =
  ipKind :: iid_kind
  ipQual :: string
  ipName :: string
  ipValue :: string

record iid_step =
  isQual :: string
  isName :: string
  isPreds :: "iid_pred list"

text \<open>\<open>eat\<close>: what is left after the byte, if it is next.\<close>
definition eat :: "char \<Rightarrow> string \<Rightarrow> string option" where
  "eat c s = (case s of x # t \<Rightarrow> if x = c then Some t else None | [] \<Rightarrow> None)"

definition iid_space :: "char \<Rightarrow> bool" where
  "iid_space c \<longleftrightarrow> c \<in> {CHR '' '', CHR 0x09, CHR 0x0A, CHR 0x0D}"

definition skipWS :: "string \<Rightarrow> string" where
  "skipWS s = dropWhile iid_space s"

definition ident_letter :: "char \<Rightarrow> bool" where
  "ident_letter c \<longleftrightarrow> (let n = of_char c :: nat in
     97 \<le> n \<and> n \<le> 122 \<or> 65 \<le> n \<and> n \<le> 90 \<or> c = CHR ''_'')"

definition ident_char :: "char \<Rightarrow> bool" where
  "ident_char c \<longleftrightarrow> ident_letter c \<or> is_digit c \<or> c = CHR ''-'' \<or> c = CHR ''.''"

text \<open>The identifier at the front, if there is one, and what is left.\<close>
definition ident :: "string \<Rightarrow> (string \<times> string) option" where
  "ident s = (if s = [] \<or> \<not> ident_letter (hd s) then None else Some (takeWhile ident_char s, dropWhile ident_char s))"

definition iid_qname :: "string \<Rightarrow> (string \<times> string \<times> string) option" where
  "iid_qname s =
     (case ident s of
        None \<Rightarrow> None
      | Some (name, r) \<Rightarrow>
          case eat CHR '':'' r of
            None \<Rightarrow> Some ([], name, r)
          | Some r' \<Rightarrow> map_option (\<lambda>(name', r''). (name, name', r'')) (ident r'))"

definition quoted :: "string \<Rightarrow> (string \<times> string) option" where
  "quoted s =
     (case s of
        [] \<Rightarrow> None
      | q # t \<Rightarrow>
          if q \<noteq> CHR 0x27 \<and> q \<noteq> CHR 0x22 then None
          else if q \<in> set t then Some (takeWhile (\<lambda>c. c \<noteq> q) t, tl (dropWhile (\<lambda>c. c \<noteq> q) t)) else None)"

text \<open>The value of a predicate: \<open>=\<close> and a quoted text, with white space around.\<close>
definition pred_value :: "string \<Rightarrow> (string \<times> string) option" where
  "pred_value s = Option.bind (eat CHR ''='' (skipWS s)) (\<lambda>r. quoted (skipWS r))"

definition pred_end :: "iid_pred \<Rightarrow> string \<Rightarrow> (iid_pred \<times> string) option" where
  "pred_end p s = map_option (\<lambda>r. (p, r)) (eat CHR '']'' (skipWS s))"

definition pos_start :: "char \<Rightarrow> bool" where
  "pos_start c \<longleftrightarrow> is_digit c \<and> c \<noteq> CHR ''0''"

text \<open>One predicate, after its opening bracket.\<close>
definition parse_pred :: "string \<Rightarrow> (iid_pred \<times> string) option" where
  "parse_pred s0 =
     (let s = skipWS s0 in
      case eat CHR ''.'' s of
        Some r \<Rightarrow> Option.bind (pred_value r) (\<lambda>(v, r). pred_end \<lparr>ipKind = IidLeafList, ipQual = [], ipName = [], ipValue = v\<rparr> r)
      | None \<Rightarrow>
          if s \<noteq> [] \<and> pos_start (hd s) then
            pred_end \<lparr>ipKind = IidPos, ipQual = [], ipName = [], ipValue = takeWhile is_digit s\<rparr> (dropWhile is_digit s)
          else Option.bind (iid_qname s) (\<lambda>(qual, name, r). Option.bind (pred_value r) (\<lambda>(v, r).
            pred_end \<lparr>ipKind = IidKey, ipQual = qual, ipName = name, ipValue = v\<rparr> r)))"

text \<open>No part of the reader gives back more than it was given.\<close>
lemma eat_shorter: "eat c s = Some r \<Longrightarrow> length r < length s"
  by (auto simp: eat_def split: list.splits if_splits)

lemma skipWS_shorter: "length (skipWS s) \<le> length s"
  by (simp add: skipWS_def length_dropWhile_le)

lemma ident_shorter: "ident s = Some (name, r) \<Longrightarrow> length r \<le> length s"
  using length_dropWhile_le[of ident_char s] by (auto simp: ident_def split: if_splits)

lemma iid_qname_shorter: "iid_qname s = Some (qual, name, r) \<Longrightarrow> length r \<le> length s"
  by (auto simp: iid_qname_def split: option.splits dest!: ident_shorter eat_shorter)

lemma quoted_shorter: "quoted s = Some (v, r) \<Longrightarrow> length r \<le> length s"
proof -
  assume "quoted s = Some (v, r)"
  then obtain q t where "s = q # t" "r = tl (dropWhile (\<lambda>c. c \<noteq> q) t)" by (auto simp: quoted_def split: list.splits if_splits)
  then show ?thesis using length_dropWhile_le[of "\<lambda>c. c \<noteq> q" t] by simp
qed

lemma pred_value_shorter: "pred_value s = Some (v, r) \<Longrightarrow> length r \<le> length s"
proof -
  assume "pred_value s = Some (v, r)"
  then obtain t where "eat CHR ''='' (skipWS s) = Some t" "quoted (skipWS t) = Some (v, r)"
    by (auto simp: pred_value_def Option.bind_eq_Some_conv)
  then show ?thesis using eat_shorter quoted_shorter skipWS_shorter[of s] skipWS_shorter[of t] by fastforce
qed

lemma pred_end_shorter: "pred_end p s = Some (p', r) \<Longrightarrow> length r < length s"
  using skipWS_shorter[of s] by (auto simp: pred_end_def dest!: eat_shorter)

lemma parse_pred_shorter: "parse_pred s = Some (p, r) \<Longrightarrow> length r < length s"
  using skipWS_shorter[of s] length_dropWhile_le[of is_digit "skipWS s"]
  by (fastforce simp: parse_pred_def Let_def Option.bind_eq_Some_conv split: option.splits if_splits
      dest!: pred_end_shorter pred_value_shorter iid_qname_shorter eat_shorter)

text \<open>The loop over the predicates of a node, and the loop over the nodes.\<close>
function parse_preds :: "string \<Rightarrow> (iid_pred list \<times> string) option" where
  "parse_preds s =
     (case eat CHR ''['' s of
        None \<Rightarrow> Some ([], s)
      | Some r \<Rightarrow>
          case parse_pred r of
            None \<Rightarrow> None
          | Some (p, r) \<Rightarrow> map_option (\<lambda>(ps, r). (p # ps, r)) (parse_preds r))"
  by pat_completeness auto
termination
  by (relation "measure length") (auto dest!: eat_shorter parse_pred_shorter)

declare parse_preds.simps [simp del]

lemma parse_preds_shorter: "parse_preds s = Some (ps, r) \<Longrightarrow> length r \<le> length s"
proof (induction s arbitrary: ps r rule: parse_preds.induct)
  case (1 s)
  show ?case
  proof (cases "eat CHR ''['' s")
    case None
    then show ?thesis using 1 by (simp add: parse_preds.simps[of s])
  next
    case (Some t)
    then obtain p u where p: "parse_pred t = Some (p, u)" using 1(2) by (auto simp: parse_preds.simps[of s] split: option.splits)
    then obtain ps' where "parse_preds u = Some (ps', r)" using 1(2) Some by (auto simp: parse_preds.simps[of s])
    then show ?thesis using 1(1)[OF Some p] eat_shorter[OF Some] parse_pred_shorter[OF p] by fastforce
  qed
qed

function parse_nodes :: "string \<Rightarrow> iid_step list option" where
  "parse_nodes s =
     (if s = [] then Some []
      else case eat CHR ''/'' s of
        None \<Rightarrow> None
      | Some r \<Rightarrow>
          case iid_qname r of
            None \<Rightarrow> None
          | Some (qual, name, r) \<Rightarrow>
              case parse_preds r of
                None \<Rightarrow> None
              | Some (ps, r) \<Rightarrow> map_option (Cons \<lparr>isQual = qual, isName = name, isPreds = ps\<rparr>) (parse_nodes r))"
  by pat_completeness auto
termination
  by (relation "measure length") (fastforce dest!: eat_shorter iid_qname_shorter parse_preds_shorter)+

declare parse_nodes.simps [simp del]

definition parseInstanceIdentifier :: "string \<Rightarrow> iid_step list option" where
  "parseInstanceIdentifier s = (case parse_nodes s of Some steps \<Rightarrow> if steps \<noteq> [] then Some steps else None | None \<Rightarrow> None)"

subsection \<open>Writing\<close>

record iid_module =
  imName :: string
  imPrefix :: string
  imNamespace :: string

record iid_value_pred =
  ivKind :: iid_kind
  ivModule :: iid_module
  ivLeaf :: string
  ivText :: string
  ivPos :: string

record iid_node =
  inModule :: iid_module
  inName :: string
  inPreds :: "iid_value_pred list"

type_synonym identity_of = "iid_value_pred \<Rightarrow> string + (iid_module \<times> string) option"

text \<open>A predicate, or nothing if its value has quotes of both kinds.\<close>
definition writeIIDPred :: "iid_value_pred \<Rightarrow> string \<Rightarrow> string \<Rightarrow> string option" where
  "writeIIDPred p keyPrefix val =
     (if ivKind p = IidPos then Some (''['' @ ivPos p @ '']'')
      else
        let name = (if ivKind p = IidLeafList then ''.'' else (if keyPrefix \<noteq> [] then keyPrefix @ '':'' else []) @ ivLeaf p);
            single = CHR 0x27 \<in> set val in
        if single \<and> CHR 0x22 \<in> set val then None
        else let q = (if single then CHR 0x22 else CHR 0x27) in Some (''['' @ name @ ''='' @ [q] @ val @ [q] @ '']''))"

text \<open>The value of a predicate in the JSON form; a value that names an identity is qualified.\<close>
definition json_value :: "identity_of \<Rightarrow> iid_value_pred \<Rightarrow> string + string" where
  "json_value idv p =
     (if ivKind p = IidPos then Inr []
      else case idv p of
        Inl e \<Rightarrow> Inl e
      | Inr None \<Rightarrow> Inr (ivText p)
      | Inr (Some (m, name)) \<Rightarrow> Inr (imName m @ '':'' @ name))"

text \<open>The result of a writer: an error, no form, or the text.\<close>
fun json_preds :: "identity_of \<Rightarrow> iid_value_pred list \<Rightarrow> string + string option" where
  "json_preds idv [] = Inr (Some [])"
| "json_preds idv (p # ps) =
     (case json_value idv p of
        Inl e \<Rightarrow> Inl e
      | Inr v \<Rightarrow>
          case writeIIDPred p [] v of
            None \<Rightarrow> Inr None
          | Some t \<Rightarrow> map_sum id (map_option (\<lambda>r. t @ r)) (json_preds idv ps))"

fun json_nodes :: "identity_of \<Rightarrow> string \<Rightarrow> iid_node list \<Rightarrow> string + string option" where
  "json_nodes idv prev [] = Inr (Some [])"
| "json_nodes idv prev (n # ns) =
     (let m = imName (inModule n) in
      case json_preds idv (inPreds n) of
        Inl e \<Rightarrow> Inl e
      | Inr None \<Rightarrow> Inr None
      | Inr (Some t) \<Rightarrow>
          map_sum id (map_option (\<lambda>r. ''/'' @ (if m \<noteq> prev then m @ '':'' else []) @ inName n @ t @ r)) (json_nodes idv m ns))"

definition renderInstanceIdentifierJSON :: "identity_of \<Rightarrow> iid_node list \<Rightarrow> string + string option" where
  "renderInstanceIdentifierJSON idv nodes = json_nodes idv [] nodes"

text \<open>The declarations so far, and whether two modules share a prefix.\<close>
record prefix_state =
  psDecls :: "(string \<times> string) list"
  psConflict :: bool

text \<open>The closure \<open>prefix\<close>; its result is the prefix of the module.\<close>
definition declare_prefix :: "iid_module \<Rightarrow> prefix_state \<Rightarrow> prefix_state" where
  "declare_prefix m st =
     (case map_of (psDecls st) (imPrefix m) of
        Some uri \<Rightarrow> st\<lparr>psConflict := psConflict st \<or> uri \<noteq> imNamespace m\<rparr>
      | None \<Rightarrow> st\<lparr>psDecls := psDecls st @ [(imPrefix m, imNamespace m)]\<rparr>)"

definition prefixed_value :: "identity_of \<Rightarrow> bool \<Rightarrow> iid_value_pred \<Rightarrow> prefix_state \<Rightarrow> string + string \<times> prefix_state" where
  "prefixed_value idv forXPath p st =
     (if ivKind p = IidPos then Inr ([], st)
      else case idv p of
        Inl e \<Rightarrow> Inl e
      | Inr None \<Rightarrow> Inr (ivText p, st)
      | Inr (Some (m, name)) \<Rightarrow>
          if forXPath then Inr (ivText p, st) else Inr (imPrefix m @ '':'' @ name, declare_prefix m st))"

fun prefixed_preds :: "identity_of \<Rightarrow> bool \<Rightarrow> iid_value_pred list \<Rightarrow> prefix_state \<Rightarrow> string + (string \<times> prefix_state) option" where
  "prefixed_preds idv forXPath [] st = Inr (Some ([], st))"
| "prefixed_preds idv forXPath (p # ps) st =
     (case prefixed_value idv forXPath p st of
        Inl e \<Rightarrow> Inl e
      | Inr (v, st) \<Rightarrow>
          let (key, st) = (if ivKind p = IidKey then (imPrefix (ivModule p), declare_prefix (ivModule p) st) else ([], st)) in
          case writeIIDPred p key v of
            None \<Rightarrow> Inr None
          | Some t \<Rightarrow> map_sum id (map_option (\<lambda>(r, st). (t @ r, st))) (prefixed_preds idv forXPath ps st))"

fun prefixed_nodes :: "identity_of \<Rightarrow> bool \<Rightarrow> iid_node list \<Rightarrow> prefix_state \<Rightarrow> string + (string \<times> prefix_state) option" where
  "prefixed_nodes idv forXPath [] st = Inr (Some ([], st))"
| "prefixed_nodes idv forXPath (n # ns) st =
     (case prefixed_preds idv forXPath (inPreds n) (declare_prefix (inModule n) st) of
        Inl e \<Rightarrow> Inl e
      | Inr None \<Rightarrow> Inr None
      | Inr (Some (t, st)) \<Rightarrow>
          map_sum id (map_option (\<lambda>(r, st). (''/'' @ imPrefix (inModule n) @ '':'' @ inName n @ t @ r, st))) (prefixed_nodes idv forXPath ns st))"

definition renderInstanceIdentifierPrefixed ::
  "identity_of \<Rightarrow> iid_node list \<Rightarrow> bool \<Rightarrow> string + (string \<times> (string \<times> string) list) option" where
  "renderInstanceIdentifierPrefixed idv nodes forXPath =
     map_sum id (\<lambda>r. Option.bind r (\<lambda>(text, st). if psConflict st then None else Some (text, psDecls st)))
       (prefixed_nodes idv forXPath nodes \<lparr>psDecls = [], psConflict = False\<rparr>)"

end
