(* ===== verification/Instance_Text.thy ===== *)
theory Instance_Text
  imports Instance_Id
begin

text \<open>
  What the writers of instance-identifiers write, the reader reads: piece by piece, for the JSON form with
  inherited module names, and for the form with declared prefixes.
\<close>

subsection \<open>Pieces\<close>

definition is_ident :: "string \<Rightarrow> bool" where
  "is_ident s \<longleftrightarrow> s \<noteq> [] \<and> ident_letter (hd s) \<and> list_all ident_char s"

text \<open>The text is empty or goes on with one of these bytes.\<close>
definition goes_on :: "char set \<Rightarrow> string \<Rightarrow> bool" where
  "goes_on C s \<longleftrightarrow> s = [] \<or> hd s \<in> C"

lemma not_ident_chars: "c \<in> {CHR '':'', CHR ''['', CHR ''='', CHR ''/''} \<Longrightarrow> \<not> ident_char c"
  by (auto simp: ident_char_def ident_letter_def is_digit_def)

lemma ident_letter_plain: "ident_letter c \<Longrightarrow> \<not> iid_space c \<and> c \<noteq> CHR ''.'' \<and> \<not> is_digit c"
  by (auto simp: iid_space_def ident_letter_def Let_def is_digit_def)

lemma ident_read:
  assumes "is_ident a" "goes_on {CHR '':'', CHR ''['', CHR ''='', CHR ''/''} r"
  shows "ident (a @ r) = Some (a, r)"
proof -
  have "\<forall>c \<in> set a. ident_char c" using assms(1) by (simp add: is_ident_def list_all_iff)
  moreover have "r = [] \<or> \<not> ident_char (hd r)" using assms(2) not_ident_chars by (auto simp: goes_on_def)
  ultimately have "takeWhile ident_char (a @ r) = a" "dropWhile ident_char (a @ r) = r"
    by (cases r; simp add: takeWhile_append2 dropWhile_append2)+
  then show ?thesis using assms(1) by (simp add: ident_def is_ident_def)
qed

definition qual_name :: "string \<Rightarrow> string \<Rightarrow> string" where
  "qual_name q a = (if q \<noteq> [] then q @ '':'' else []) @ a"

lemma iid_qname_read:
  assumes "is_ident a" "q = [] \<or> is_ident q" "goes_on {CHR ''['', CHR ''='', CHR ''/''} r"
  shows "iid_qname (qual_name q a @ r) = Some (q, a, r)"
proof -
  have a: "ident (a @ r) = Some (a, r)" using assms(1,3) by (intro ident_read) (auto simp: goes_on_def)
  have e: "eat CHR '':'' r = None" using assms(3) by (cases r) (auto simp: goes_on_def eat_def)
  show ?thesis
  proof (cases "q = []")
    case False
    then have "ident (q @ CHR '':'' # a @ r) = Some (q, CHR '':'' # a @ r)" using assms(2) by (intro ident_read) (auto simp: goes_on_def)
    then show ?thesis using False a by (simp add: qual_name_def iid_qname_def eat_def)
  qed (use a e in \<open>simp add: qual_name_def iid_qname_def\<close>)
qed

lemma quoted_read:
  "q = CHR 0x27 \<or> q = CHR 0x22 \<Longrightarrow> q \<notin> set v \<Longrightarrow> quoted (q # v @ q # r) = Some (v, r)"
proof -
  assume "q = CHR 0x27 \<or> q = CHR 0x22" "q \<notin> set v"
  moreover from this(2) have "\<forall>c \<in> set v. c \<noteq> q" by auto
  then have "takeWhile (\<lambda>c. c \<noteq> q) (v @ q # r) = v" "dropWhile (\<lambda>c. c \<noteq> q) (v @ q # r) = q # r"
    by (simp_all add: takeWhile_append2 dropWhile_append2)
  ultimately show ?thesis by (auto simp: quoted_def)
qed

lemma skipWS_plain: "s \<noteq> [] \<Longrightarrow> \<not> iid_space (hd s) \<Longrightarrow> skipWS s = s"
  by (cases s) (simp_all add: skipWS_def)

lemma pred_value_read:
  assumes "q = CHR 0x27 \<or> q = CHR 0x22" "q \<notin> set v"
  shows "pred_value (CHR ''='' # q # v @ q # r) = Some (v, r)"
proof -
  have "skipWS (CHR ''='' # q # v @ q # r) = CHR ''='' # q # v @ q # r" by (rule skipWS_plain) (simp_all add: iid_space_def)
  moreover have "skipWS (q # v @ q # r) = q # v @ q # r" using assms(1) by (intro skipWS_plain) (auto simp: iid_space_def)
  ultimately show ?thesis using quoted_read[OF assms, of r] by (simp add: pred_value_def eat_def)
qed

lemma pred_end_read: "pred_end p (CHR '']'' # r) = Some (p, r)"
  using skipWS_plain[of "CHR '']'' # r"] by (simp add: pred_end_def eat_def iid_space_def)

subsection \<open>Predicates\<close>

text \<open>A predicate as the reader returns it, with the qualifier and the value it was written with.\<close>
definition read_pred :: "iid_value_pred \<Rightarrow> string \<Rightarrow> string \<Rightarrow> iid_pred" where
  "read_pred p key val =
     (case ivKind p of
        IidKey \<Rightarrow> \<lparr>ipKind = IidKey, ipQual = key, ipName = ivLeaf p, ipValue = val\<rparr>
      | IidLeafList \<Rightarrow> \<lparr>ipKind = IidLeafList, ipQual = [], ipName = [], ipValue = val\<rparr>
      | IidPos \<Rightarrow> \<lparr>ipKind = IidPos, ipQual = [], ipName = [], ipValue = ivPos p\<rparr>)"

definition pred_ok :: "iid_value_pred \<Rightarrow> bool" where
  "pred_ok p \<longleftrightarrow>
     (case ivKind p of
        IidKey \<Rightarrow> is_ident (ivLeaf p) \<and> is_ident (imPrefix (ivModule p))
      | IidLeafList \<Rightarrow> True
      | IidPos \<Rightarrow> ivPos p \<noteq> [] \<and> pos_start (hd (ivPos p)) \<and> list_all is_digit (ivPos p))"

lemma pred_read:
  assumes "writeIIDPred p key v = Some t" "pred_ok p" "key = [] \<or> is_ident key"
  shows "\<exists>u. t = CHR ''['' # u \<and> (\<forall>r. parse_pred (u @ r) = Some (read_pred p key v, r))"
proof (cases "ivKind p")
  case IidPos
  let ?s = "\<lambda>r. ivPos p @ CHR '']'' # r"
  have n: "ivPos p \<noteq> []" "pos_start (hd (ivPos p))" "\<forall>c \<in> set (ivPos p). is_digit c"
    using assms(2) IidPos by (simp_all add: pred_ok_def list_all_iff)
  have d: "takeWhile is_digit (?s r) = ivPos p" "dropWhile is_digit (?s r) = CHR '']'' # r" for r
    using n(3) by (simp_all add: takeWhile_append2 dropWhile_append2 is_digit_def)
  have h: "\<not> iid_space (hd (ivPos p))" "hd (ivPos p) \<noteq> CHR ''.''"
    using n(2) by (auto simp: pos_start_def is_digit_def iid_space_def)
  then have "skipWS (?s r) = ?s r" for r using n(1) by (intro skipWS_plain) simp_all
  moreover have "eat CHR ''.'' (?s r) = None" for r using n(1) h(2) by (cases "ivPos p") (simp_all add: eat_def)
  ultimately have "parse_pred (?s r) = Some (read_pred p key v, r)" for r
    using n(1,2) by (simp add: parse_pred_def d pred_end_read read_pred_def IidPos)
  then show ?thesis using assms(1) IidPos by (auto simp: writeIIDPred_def)
next
  case IidLeafList
  obtain q where q: "q = CHR 0x27 \<or> q = CHR 0x22" "q \<notin> set v" "t = ''[.='' @ [q] @ v @ [q] @ '']''"
    using assms(1) IidLeafList by (auto simp: writeIIDPred_def Let_def split: if_splits)
  have "skipWS (CHR ''.'' # s) = CHR ''.'' # s" for s by (rule skipWS_plain) (simp_all add: iid_space_def)
  then have "parse_pred (CHR ''.'' # CHR ''='' # q # v @ q # CHR '']'' # r) = Some (read_pred p key v, r)" for r
    using pred_value_read[OF q(1,2)] by (simp add: parse_pred_def eat_def pred_end_read read_pred_def IidLeafList)
  then show ?thesis using q(3) by simp
next
  case IidKey
  obtain q where q: "q = CHR 0x27 \<or> q = CHR 0x22" "q \<notin> set v" "t = CHR ''['' # qual_name key (ivLeaf p) @ CHR ''='' # q # v @ q # '']''"
    using assms(1) IidKey by (auto simp: writeIIDPred_def Let_def qual_name_def split: if_splits)
  have l: "is_ident (ivLeaf p)" using assms(2) IidKey by (simp add: pred_ok_def)
  let ?n = "qual_name key (ivLeaf p)"
  have n: "?n \<noteq> []" "ident_letter (hd ?n)" using l assms(3) by (auto simp: qual_name_def is_ident_def)
  note h = ident_letter_plain[OF n(2)]
  have "skipWS (?n @ s) = ?n @ s" for s using n(1) h by (intro skipWS_plain) simp_all
  moreover have "eat CHR ''.'' (?n @ s) = None" for s using n(1) h by (cases ?n) (simp_all add: eat_def)
  moreover have "iid_qname (?n @ CHR ''='' # s) = Some (key, ivLeaf p, CHR ''='' # s)" for s
    by (rule iid_qname_read[OF l assms(3)]) (simp add: goes_on_def)
  ultimately have "parse_pred (?n @ CHR ''='' # q # v @ q # CHR '']'' # r) = Some (read_pred p key v, r)" for r
    using n(1) h pred_value_read[OF q(1,2)] by (simp add: parse_pred_def pos_start_def pred_end_read read_pred_def IidKey)
  then show ?thesis using q(3) by simp
qed

lemma preds_end: "goes_on {CHR ''/''} r \<Longrightarrow> parse_preds r = Some ([], r)"
  by (subst parse_preds.simps) (cases r; auto simp: goes_on_def eat_def)

lemma preds_more: "t = CHR ''['' # u \<Longrightarrow> \<forall>r. parse_pred (u @ r) = Some (p, r) \<Longrightarrow>
    parse_preds (t @ r) = map_option (\<lambda>(ps, r). (p # ps, r)) (parse_preds r)"
  by (subst parse_preds.simps) (simp add: eat_def)

subsection \<open>Nodes\<close>

lemma node_read:
  assumes "is_ident a" "q = [] \<or> is_ident q" "goes_on {CHR ''[''} t" "goes_on {CHR ''/''} r" "parse_preds (t @ r) = Some (ps, r)"
  shows "parse_nodes (CHR ''/'' # qual_name q a @ t @ r) = map_option (Cons \<lparr>isQual = q, isName = a, isPreds = ps\<rparr>) (parse_nodes r)"
proof -
  have "goes_on {CHR ''['', CHR ''='', CHR ''/''} (t @ r)" using assms(3,4) by (cases t) (auto simp: goes_on_def)
  from iid_qname_read[OF assms(1,2) this] show ?thesis
    using assms(5) by (simp add: parse_nodes.simps[of "CHR ''/'' # s" for s] eat_def)
qed

subsection \<open>The JSON form\<close>

definition node_ok :: "iid_node \<Rightarrow> bool" where
  "node_ok n \<longleftrightarrow> is_ident (inName n) \<and> is_ident (imName (inModule n)) \<and> is_ident (imPrefix (inModule n)) \<and> list_all pred_ok (inPreds n)"

lemma written_bracket: "writeIIDPred p key v = Some t \<Longrightarrow> t \<noteq> [] \<and> hd t = CHR ''[''"
  by (auto simp: writeIIDPred_def Let_def split: if_splits)

text \<open>The predicates that are read back, with their values as written.\<close>
definition json_read :: "identity_of \<Rightarrow> iid_value_pred list \<Rightarrow> iid_pred list" where
  "json_read idv ps = map (\<lambda>p. read_pred p [] (projr (json_value idv p))) ps"

lemma json_preds_read:
  "json_preds idv ps = Inr (Some t) \<Longrightarrow> list_all pred_ok ps \<Longrightarrow> goes_on {CHR ''/''} r \<Longrightarrow>
    goes_on {CHR ''[''} t \<and> parse_preds (t @ r) = Some (json_read idv ps, r)"
proof (induction ps arbitrary: t)
  case Nil
  then show ?case by (simp add: preds_end json_read_def goes_on_def)
next
  case (Cons p ps)
  obtain v where v: "json_value idv p = Inr v" using Cons.prems(1) by (cases "json_value idv p") auto
  obtain w where w: "writeIIDPred p [] v = Some w" using Cons.prems(1) v by (cases "writeIIDPred p [] v") auto
  obtain s where s: "json_preds idv ps = Inr (Some s)" "t = w @ s"
    using Cons.prems(1) v w by (cases "json_preds idv ps") auto
  obtain u where u: "w = CHR ''['' # u" "\<forall>r. parse_pred (u @ r) = Some (read_pred p [] v, r)"
    using pred_read[OF w] Cons.prems(2) by auto
  have "parse_preds (s @ r) = Some (json_read idv ps, r)" using Cons.IH[OF s(1)] Cons.prems(2,3) by simp
  then show ?case using preds_more[OF u, of "s @ r"] s(2) u(1) v by (simp add: json_read_def goes_on_def)
qed

text \<open>The nodes that are read back: a module name where it changes.\<close>
fun json_steps :: "identity_of \<Rightarrow> string \<Rightarrow> iid_node list \<Rightarrow> iid_step list" where
  "json_steps idv prev [] = []"
| "json_steps idv prev (n # ns) =
     (let m = imName (inModule n) in
      \<lparr>isQual = if m \<noteq> prev then m else [], isName = inName n, isPreds = json_read idv (inPreds n)\<rparr> # json_steps idv m ns)"

lemma json_nodes_read:
  "json_nodes idv prev ns = Inr (Some t) \<Longrightarrow> list_all node_ok ns \<Longrightarrow> goes_on {CHR ''/''} t \<and> parse_nodes t = Some (json_steps idv prev ns)"
proof (induction ns arbitrary: prev t)
  case Nil
  then show ?case by (simp add: parse_nodes.simps[of "[]"] goes_on_def)
next
  case (Cons n ns)
  let ?m = "imName (inModule n)"
  obtain w where w: "json_preds idv (inPreds n) = Inr (Some w)"
    using Cons.prems(1) by (auto simp: Let_def split: sum.splits option.splits)
  obtain s where s: "json_nodes idv ?m ns = Inr (Some s)" "t = CHR ''/'' # qual_name (if ?m \<noteq> prev then ?m else []) (inName n) @ w @ s"
    using Cons.prems w by (cases "json_nodes idv ?m ns") (auto simp: Let_def qual_name_def node_ok_def is_ident_def)
  have ih: "goes_on {CHR ''/''} s" "parse_nodes s = Some (json_steps idv ?m ns)" using Cons.IH[OF s(1)] Cons.prems(2) by simp_all
  have "goes_on {CHR ''[''} w" "parse_preds (w @ s) = Some (json_read idv (inPreds n), s)"
    using json_preds_read[OF w _ ih(1)] Cons.prems(2) by (simp_all add: node_ok_def)
  from node_read[OF _ _ this(1) ih(1) this(2), of "inName n" "if ?m \<noteq> prev then ?m else []"]
  show ?case using Cons.prems(2) ih(2) s(2) by (simp add: node_ok_def goes_on_def Let_def)
qed

text \<open>The module and the name of each node, a missing module name inherited (\<open>jsonNames.matches\<close>).\<close>
fun inherited :: "string \<Rightarrow> iid_step list \<Rightarrow> (string \<times> string) list" where
  "inherited prev [] = []"
| "inherited prev (s # ss) = (let m = (if isQual s = [] then prev else isQual s) in (m, isName s) # inherited m ss)"

lemma json_steps_inherited: "list_all node_ok ns \<Longrightarrow> inherited prev (json_steps idv prev ns) = map (\<lambda>n. (imName (inModule n), inName n)) ns"
  by (induction ns arbitrary: prev) (auto simp: Let_def node_ok_def is_ident_def)

subsection \<open>The form with prefixes\<close>

definition declares :: "prefix_state \<Rightarrow> iid_module \<Rightarrow> bool" where
  "declares st m \<longleftrightarrow> map_of (psDecls st) (imPrefix m) = Some (imNamespace m)"

text \<open>No declaration is lost, and no conflict is forgotten.\<close>
definition grows :: "prefix_state \<Rightarrow> prefix_state \<Rightarrow> bool" where
  "grows st st' \<longleftrightarrow> (map_of (psDecls st) \<subseteq>\<^sub>m map_of (psDecls st')) \<and> (psConflict st \<longrightarrow> psConflict st')"

lemma grows_refl [simp]: "grows st st" by (simp add: grows_def)

lemma grows_trans: "grows a b \<Longrightarrow> grows b c \<Longrightarrow> grows a c"
  by (auto simp: grows_def intro: map_le_trans)

lemma grows_declares: "grows st st' \<Longrightarrow> declares st m \<Longrightarrow> declares st' m"
  by (auto simp: grows_def declares_def map_le_def dom_def)

lemma declare_grows: "grows st (declare_prefix m st)"
  by (auto simp: declare_prefix_def grows_def map_le_def map_add_def split: option.splits)

lemma declare_declares: "\<not> psConflict (declare_prefix m st) \<Longrightarrow> declares (declare_prefix m st) m"
  by (auto simp: declare_prefix_def declares_def map_add_def split: option.splits if_splits)

lemma declared_later: "grows (declare_prefix m st) st' \<Longrightarrow> \<not> psConflict st' \<Longrightarrow> declares st' m"
  using declare_declares[of m st] grows_declares by (auto simp: grows_def)

lemma prefixed_value_grows: "prefixed_value idv x p st = Inr (v, st') \<Longrightarrow> grows st st'"
  by (auto simp: prefixed_value_def declare_grows split: if_splits sum.splits option.splits)

text \<open>
  The value that was read back: a value that names an identity is written with a prefix declared for the
  module of the identity, except for the XPath engine; any other value is as it was.
\<close>
definition value_named :: "identity_of \<Rightarrow> bool \<Rightarrow> prefix_state \<Rightarrow> iid_value_pred \<Rightarrow> string \<Rightarrow> bool" where
  "value_named idv forXPath st p v \<longleftrightarrow>
     (case idv p of
        Inr (Some (m, name)) \<Rightarrow>
          if forXPath then v = ivText p else v = imPrefix m @ '':'' @ name \<and> map_of (psDecls st) (imPrefix m) = Some (imNamespace m)
      | _ \<Rightarrow> v = ivText p)"

text \<open>A predicate that was read back has its value, and names its key, with a prefix declared for the module of the key.\<close>
definition pred_named :: "identity_of \<Rightarrow> bool \<Rightarrow> prefix_state \<Rightarrow> iid_pred \<Rightarrow> iid_value_pred \<Rightarrow> bool" where
  "pred_named idv x st q p \<longleftrightarrow> ipKind q = ivKind p \<and>
     (case ivKind p of
        IidPos \<Rightarrow> ipValue q = ivPos p
      | IidLeafList \<Rightarrow> value_named idv x st p (ipValue q)
      | IidKey \<Rightarrow> value_named idv x st p (ipValue q) \<and> ipName q = ivLeaf p \<and>
          map_of (psDecls st) (ipQual q) = Some (imNamespace (ivModule p)))"

definition node_named :: "identity_of \<Rightarrow> bool \<Rightarrow> prefix_state \<Rightarrow> iid_step \<Rightarrow> iid_node \<Rightarrow> bool" where
  "node_named idv x st s n \<longleftrightarrow> isName s = inName n \<and> map_of (psDecls st) (isQual s) = Some (imNamespace (inModule n)) \<and>
     list_all2 (pred_named idv x st) (isPreds s) (inPreds n)"

lemma value_named_grows: "grows st st' \<Longrightarrow> value_named idv x st p v \<Longrightarrow> value_named idv x st' p v"
  by (auto simp: value_named_def grows_def map_le_def dom_def split: sum.splits option.splits)

lemma prefixed_value_named:
  assumes "prefixed_value idv x p st = Inr (v, st1)" "grows st1 st'" "\<not> psConflict st'" "ivKind p \<noteq> IidPos"
  shows "value_named idv x st' p v"
proof (cases "\<exists>m name. idv p = Inr (Some (m, name))")
  case True
  then obtain m name where i: "idv p = Inr (Some (m, name))" by blast
  show ?thesis
  proof (cases x)
    case False
    then have "v = imPrefix m @ '':'' @ name" "st1 = declare_prefix m st" using assms(1,4) i by (auto simp: prefixed_value_def)
    moreover from this(2) have "declares st' m" using assms(2) by (intro declared_later[OF _ assms(3)]) simp
    ultimately show ?thesis using False i by (simp add: value_named_def declares_def)
  qed (use assms(1,4) i in \<open>simp add: prefixed_value_def value_named_def\<close>)
qed (use assms(1,4) in \<open>auto simp: prefixed_value_def value_named_def split: sum.splits option.splits\<close>)

lemma pred_named_grows: "grows st st' \<Longrightarrow> pred_named idv x st q p \<Longrightarrow> pred_named idv x st' q p"
  using value_named_grows[of st st'] by (auto simp: pred_named_def grows_def map_le_def dom_def split: iid_kind.splits)

lemma prefixed_preds_read:
  "prefixed_preds idv x ps st = Inr (Some (t, st')) \<Longrightarrow> list_all pred_ok ps \<Longrightarrow>
    grows st st' \<and> goes_on {CHR ''[''} t \<and>
    (\<not> psConflict st' \<longrightarrow> (\<exists>qs. list_all2 (pred_named idv x st') qs ps \<and>
      (\<forall>r. goes_on {CHR ''/''} r \<longrightarrow> parse_preds (t @ r) = Some (qs, r))))"
proof (induction ps arbitrary: t st)
  case Nil
  then show ?case by (auto simp: preds_end goes_on_def)
next
  case (Cons p ps)
  obtain v st1 where v: "prefixed_value idv x p st = Inr (v, st1)" using Cons.prems(1) by (cases "prefixed_value idv x p st") auto
  define key where "key = (if ivKind p = IidKey then imPrefix (ivModule p) else [])"
  define st2 where "st2 = (if ivKind p = IidKey then declare_prefix (ivModule p) st1 else st1)"
  have e: "(if ivKind p = IidKey then (imPrefix (ivModule p), declare_prefix (ivModule p) st1) else ([], st1)) = (key, st2)"
    by (simp add: key_def st2_def)
  obtain w where w: "writeIIDPred p key v = Some w" using Cons.prems(1) v e by (cases "writeIIDPred p key v") auto
  obtain s where s: "prefixed_preds idv x ps st2 = Inr (Some (s, st'))" "t = w @ s"
    using Cons.prems(1) v e w by (cases "prefixed_preds idv x ps st2") auto
  have ih: "grows st2 st'" "goes_on {CHR ''[''} s" "\<not> psConflict st' \<longrightarrow> (\<exists>qs. list_all2 (pred_named idv x st') qs ps \<and>
      (\<forall>r. goes_on {CHR ''/''} r \<longrightarrow> parse_preds (s @ r) = Some (qs, r)))" using Cons.IH[OF s(1)] Cons.prems(2) by simp_all
  have g2: "grows st1 st2" by (simp add: st2_def declare_grows)
  have g: "grows st st2" using prefixed_value_grows[OF v] declare_grows grows_trans by (auto simp: st2_def)
  have ok: "pred_ok p" "key = [] \<or> is_ident key" using Cons.prems(2) by (auto simp: key_def pred_ok_def)
  obtain u where u: "w = CHR ''['' # u" "\<forall>r. parse_pred (u @ r) = Some (read_pred p key v, r)" using pred_read[OF w ok] by blast
  have "\<exists>qs. list_all2 (pred_named idv x st') qs (p # ps) \<and> (\<forall>r. goes_on {CHR ''/''} r \<longrightarrow> parse_preds (t @ r) = Some (qs, r))"
    if c: "\<not> psConflict st'"
  proof -
    obtain qs where qs: "list_all2 (pred_named idv x st') qs ps" "\<forall>r. goes_on {CHR ''/''} r \<longrightarrow> parse_preds (s @ r) = Some (qs, r)"
      using ih(3) c by blast
    have "ivKind p = IidKey \<Longrightarrow> declares st' (ivModule p)" using declared_later[OF _ c] ih(1) by (simp add: st2_def)
    moreover have "ivKind p \<noteq> IidPos \<Longrightarrow> value_named idv x st' p v"
      by (rule prefixed_value_named[OF v grows_trans[OF g2 ih(1)] c])
    ultimately have "pred_named idv x st' (read_pred p key v) p"
      by (auto simp: pred_named_def read_pred_def declares_def key_def split: iid_kind.split)
    moreover have "parse_preds (t @ r) = Some (read_pred p key v # qs, r)" if "goes_on {CHR ''/''} r" for r
      using preds_more[OF u, of "s @ r"] qs(2) that s(2) by simp
    ultimately show ?thesis using qs(1) by (intro exI[of _ "read_pred p key v # qs"]) simp
  qed
  then show ?case using grows_trans[OF g ih(1)] s(2) u(1) by (simp add: goes_on_def)
qed

lemma prefixed_nodes_read:
  "prefixed_nodes idv x ns st = Inr (Some (t, st')) \<Longrightarrow> list_all node_ok ns \<Longrightarrow>
    grows st st' \<and> goes_on {CHR ''/''} t \<and>
    (\<not> psConflict st' \<longrightarrow> (\<exists>steps. list_all2 (node_named idv x st') steps ns \<and> parse_nodes t = Some steps))"
proof (induction ns arbitrary: t st)
  case Nil
  then show ?case by (simp add: parse_nodes.simps[of "[]"] goes_on_def)
next
  case (Cons n ns)
  let ?p = "imPrefix (inModule n)"
  obtain w st1 where w: "prefixed_preds idv x (inPreds n) (declare_prefix (inModule n) st) = Inr (Some (w, st1))"
    using Cons.prems(1) by (auto split: sum.splits option.splits)
  obtain s where s: "prefixed_nodes idv x ns st1 = Inr (Some (s, st'))" "t = CHR ''/'' # qual_name ?p (inName n) @ w @ s"
    using Cons.prems w by (cases "prefixed_nodes idv x ns st1") (auto simp: qual_name_def node_ok_def is_ident_def)
  have ih: "grows st1 st'" "goes_on {CHR ''/''} s"
    "\<not> psConflict st' \<longrightarrow> (\<exists>steps. list_all2 (node_named idv x st') steps ns \<and> parse_nodes s = Some steps)"
    using Cons.IH[OF s(1)] Cons.prems(2) by simp_all
  have ok: "list_all pred_ok (inPreds n)" "is_ident (inName n)" "is_ident ?p" using Cons.prems(2) by (simp_all add: node_ok_def)
  note pr = prefixed_preds_read[OF w ok(1)]
  have g: "grows (declare_prefix (inModule n) st) st'" using pr ih(1) grows_trans by blast
  have "\<exists>steps. list_all2 (node_named idv x st') steps (n # ns) \<and> parse_nodes t = Some steps" if c: "\<not> psConflict st'"
  proof -
    obtain steps where steps: "list_all2 (node_named idv x st') steps ns" "parse_nodes s = Some steps" using ih(3) c by blast
    have "\<not> psConflict st1" using ih(1) c by (auto simp: grows_def)
    then obtain qs where qs: "list_all2 (pred_named idv x st1) qs (inPreds n)" "parse_preds (w @ s) = Some (qs, s)" using pr ih(2) by blast
    have "list_all2 (pred_named idv x st') qs (inPreds n)" using qs(1) by (rule list_all2_mono) (rule pred_named_grows[OF ih(1)])
    moreover have "declares st' (inModule n)" by (rule declared_later[OF g c])
    ultimately have "node_named idv x st' \<lparr>isQual = ?p, isName = inName n, isPreds = qs\<rparr> n" by (simp add: node_named_def declares_def)
    moreover have "parse_nodes t = Some (\<lparr>isQual = ?p, isName = inName n, isPreds = qs\<rparr> # steps)"
      using node_read[OF ok(2) _ _ ih(2) qs(2), of ?p] pr ok(3) s(2) steps(2) by simp
    ultimately show ?thesis using steps(1) by (intro exI[of _ "\<lparr>isQual = ?p, isName = inName n, isPreds = qs\<rparr> # steps"]) simp
  qed
  then show ?case using grows_trans[OF declare_grows g] s(2) by (simp add: goes_on_def)
qed

end
