(* ===== verification/Instance_Properties.thy ===== *)
theory Instance_Properties
  imports Instance_Text
begin

text \<open>
  The properties of instance-identifiers: both written forms are read back.
\<close>

text \<open>
  C35: The canonical JSON form of an instance-identifier reads back: as many nodes, each with its module
  (a missing module name inherited from the node before) and its name, and every predicate with its
  key and its value, whatever quotes the value holds.
\<close>
theorem instance_json_roundtrip:
  assumes "renderInstanceIdentifierJSON idv nodes = Inr (Some text)" "nodes \<noteq> []" "list_all node_ok nodes"
  shows "\<exists>steps. parseInstanceIdentifier text = Some steps \<and>
    inherited [] steps = map (\<lambda>n. (imName (inModule n), inName n)) nodes \<and>
    map isPreds steps = map (\<lambda>n. json_read idv (inPreds n)) nodes"
proof -
  have p: "parse_nodes text = Some (json_steps idv [] nodes)"
    using json_nodes_read[of idv "[]" nodes "text"] assms by (simp add: renderInstanceIdentifierJSON_def)
  have "map isPreds (json_steps idv prev ns) = map (\<lambda>n. json_read idv (inPreds n)) ns" for prev ns
    by (induction ns arbitrary: prev) (simp_all add: Let_def)
  moreover have "json_steps idv [] nodes \<noteq> []" using assms(2) by (cases nodes) (simp_all add: Let_def)
  ultimately show ?thesis
    using p json_steps_inherited[OF assms(3)] by (simp add: parseInstanceIdentifier_def)
qed

definition sample_module :: "string \<Rightarrow> iid_module" where
  "sample_module name = \<lparr>imName = name, imPrefix = name, imNamespace = ''urn:'' @ name\<rparr>"

definition sample_key :: iid_value_pred where
  "sample_key = \<lparr>ivKind = IidKey, ivModule = sample_module ''m'', ivLeaf = ''k'', ivText = [CHR ''a'', CHR 0x27, CHR '']''], ivPos = []\<rparr>"

definition sample_nodes :: "iid_node list" where
  "sample_nodes = [\<lparr>inModule = sample_module ''m'', inName = ''l'', inPreds = [sample_key]\<rparr>,
     \<lparr>inModule = sample_module ''m'', inName = ''c'', inPreds = []\<rparr>, \<lparr>inModule = sample_module ''o'', inName = ''x'', inPreds = []\<rparr>]"

lemma sample_nodes_ok: "list_all node_ok sample_nodes" by code_simp

lemma sample_json:
  "renderInstanceIdentifierJSON (\<lambda>_. Inr None) sample_nodes =
    Inr (Some (''/m:l[k='' @ [CHR 0x22, CHR ''a'', CHR 0x27, CHR '']'', CHR 0x22] @ '']/c/o:x''))"
  by code_simp

theorem instance_json_roundtrip_witness:
  "\<exists>steps. parseInstanceIdentifier (''/m:l[k='' @ [CHR 0x22, CHR ''a'', CHR 0x27, CHR '']'', CHR 0x22] @ '']/c/o:x'') = Some steps \<and>
    inherited [] steps = [(''m'', ''l''), (''m'', ''c''), (''o'', ''x'')]"
proof -
  have n: "map (\<lambda>n. (imName (inModule n), inName n)) sample_nodes = [(''m'', ''l''), (''m'', ''c''), (''o'', ''x'')]" "sample_nodes \<noteq> []"
    by (simp_all add: sample_nodes_def sample_module_def)
  show ?thesis using instance_json_roundtrip[OF sample_json n(2) sample_nodes_ok] unfolding n(1) by blast
qed

text \<open>
  C36: The form with prefixes reads back under its own declarations, node by node and predicate by predicate:
  every node, every key and every value that names an identity has a prefix that the declarations bind to
  the namespace of its module, with its own name behind the prefix; other values and positions are as they
  were, and so is a value written for the XPath engine.  A form with one prefix for two namespaces is not written.
\<close>
theorem instance_prefixes_declared:
  assumes "renderInstanceIdentifierPrefixed idv nodes forXPath = Inr (Some (text, decls))" "nodes \<noteq> []" "list_all node_ok nodes"
  shows "\<exists>steps. parseInstanceIdentifier text = Some steps \<and>
    list_all2 (node_named idv forXPath \<lparr>psDecls = decls, psConflict = False\<rparr>) steps nodes"
proof -
  obtain st where st: "prefixed_nodes idv forXPath nodes \<lparr>psDecls = [], psConflict = False\<rparr> = Inr (Some (text, st))"
    "\<not> psConflict st" "decls = psDecls st"
    using assms(1) unfolding renderInstanceIdentifierPrefixed_def
    by (cases "prefixed_nodes idv forXPath nodes \<lparr>psDecls = [], psConflict = False\<rparr>") (auto simp: Option.bind_eq_Some_conv split: if_splits)
  then have "st = \<lparr>psDecls = decls, psConflict = False\<rparr>" by (cases st) simp
  then obtain steps where "list_all2 (node_named idv forXPath \<lparr>psDecls = decls, psConflict = False\<rparr>) steps nodes" "parse_nodes text = Some steps"
    using prefixed_nodes_read[OF st(1) assms(3)] st(2) by auto
  moreover from this(1) have "steps \<noteq> []" using assms(2) by auto
  ultimately show ?thesis by (simp add: parseInstanceIdentifier_def)
qed

text \<open>The value of the key names the identity \<open>id\<close> of module \<open>o\<close>.\<close>
definition sample_identity :: identity_of where
  "sample_identity p = (if ivLeaf p = ''k'' then Inr (Some (sample_module ''o'', ''id'')) else Inr None)"

lemma sample_prefixed:
  "renderInstanceIdentifierPrefixed sample_identity sample_nodes False =
    Inr (Some (''/m:l[m:k='' @ [CHR 0x27] @ ''o:id'' @ [CHR 0x27] @ '']/m:c/o:x'', [(''m'', ''urn:m''), (''o'', ''urn:o'')]))"
  by code_simp

theorem instance_prefixes_declared_witness:
  "\<exists>steps. parseInstanceIdentifier (''/m:l[m:k='' @ [CHR 0x27] @ ''o:id'' @ [CHR 0x27] @ '']/m:c/o:x'') = Some steps \<and>
    list_all2 (node_named sample_identity False \<lparr>psDecls = [(''m'', ''urn:m''), (''o'', ''urn:o'')], psConflict = False\<rparr>) steps sample_nodes"
  by (rule instance_prefixes_declared[OF sample_prefixed _ sample_nodes_ok]) (simp add: sample_nodes_def)

end
