(* ===== verification/Leafref_Target.thy ===== *)
theory Leafref_Target
  imports Xpath_Eval
begin

text \<open>
  Whether the value of a leafref exists in the tree (\<open>go/datatree/datatree_leafref.go\<close>): the path of names, the
  walk through containers and list entries, and the comparison of values.  The comparison key of a value
  whose type may name an identity (\<open>valueKey\<close>, \<open>valueKeyQualifies\<close>) is the argument \<open>keys\<close>: by schema node, none
  if the type does not qualify; the key of a token may fail.
\<close>

datatype dnode = DNode (dnModule: string) (dnName: string) (dnSchema: nat) (dnData: dnode_data)
and dnode_data = DLeaf string | DLeafList "string list" | DContainer "dnode list" | DList "dnode list list" | DOpaque

type_synonym frame = "dnode list"
type_synonym key_of = "nat \<Rightarrow> (string \<Rightarrow> string \<Rightarrow> string + string) option"

record leafref_step =
  lsModule :: string
  lsName :: string

definition findByLeafRefStep :: "frame \<Rightarrow> leafref_step \<Rightarrow> dnode option" where
  "findByLeafRefStep nodes step = find (\<lambda>n. dnModule n = lsModule step \<and> dnName n = lsName step) nodes"

definition leafRefValueMatches :: "key_of \<Rightarrow> dnode \<Rightarrow> string \<Rightarrow> string \<Rightarrow> string + bool" where
  "leafRefValueMatches keys n val want =
     (if val = want then Inr True
      else case keys (dnSchema n) of
        None \<Rightarrow> Inr False
      | Some key \<Rightarrow> map_sum id (\<lambda>k. k = want) (key val (dnModule n)))"

text \<open>The loop over the values of a leaf-list.\<close>
fun any_matches :: "key_of \<Rightarrow> dnode \<Rightarrow> string list \<Rightarrow> string \<Rightarrow> string + bool" where
  "any_matches keys n [] want = Inr False"
| "any_matches keys n (v # vs) want =
     (case leafRefValueMatches keys n v want of
        Inl e \<Rightarrow> Inl e
      | Inr True \<Rightarrow> Inr True
      | Inr False \<Rightarrow> any_matches keys n vs want)"

text \<open>The result is whether the value was found and whether the path is supported, or the error of a key.\<close>
function navigateLeafRef :: "key_of \<Rightarrow> leafref_step list \<Rightarrow> frame list \<Rightarrow> string \<Rightarrow> string + bool \<times> bool" where
  "navigateLeafRef keys [] frames want = Inr (False, True)"
| "navigateLeafRef keys (step # steps) [] want = Inr (False, True)"
| "navigateLeafRef keys (step # steps) (frame # frames) want =
     (let continue = (\<lambda>r. case r of
            Inl e \<Rightarrow> Inl e
          | Inr True \<Rightarrow> Inr (True, True)
          | Inr False \<Rightarrow> navigateLeafRef keys (step # steps) frames want);
          descend = (\<lambda>r. case r of
            Inl e \<Rightarrow> Inl e
          | Inr (found, supported) \<Rightarrow>
              if found \<or> \<not> supported then Inr (found, supported) else navigateLeafRef keys (step # steps) frames want)
      in
      case findByLeafRefStep frame step of
        None \<Rightarrow> navigateLeafRef keys (step # steps) frames want
      | Some n \<Rightarrow>
          (case dnData n of
             DLeaf v \<Rightarrow> if steps = [] then continue (leafRefValueMatches keys n v want) else Inr (False, False)
           | DLeafList vs \<Rightarrow> if steps = [] then continue (any_matches keys n vs want) else Inr (False, False)
           | DContainer children \<Rightarrow>
               if steps = [] then Inr (False, False) else descend (navigateLeafRef keys steps [children] want)
           | DList entries \<Rightarrow>
               if steps = [] then Inr (False, False) else descend (navigateLeafRef keys steps entries want)
           | DOpaque \<Rightarrow> Inr (False, False)))"
  by pat_completeness auto
termination
  by (relation "measures [\<lambda>(keys, steps, frames, want). length steps, \<lambda>(keys, steps, frames, want). length frames]") auto

declare navigateLeafRef.simps [simp del]

text \<open>The text after the last colon and the text before it, if there is one.\<close>
definition last_colon :: "string \<Rightarrow> (string \<times> string) option" where
  "last_colon s =
     (if CHR '':'' \<in> set s then
        let k = length (takeWhile (\<lambda>c. c \<noteq> CHR '':'') (rev s)) in
        Some (take (length s - Suc k) s, drop (length s - k) s)
      else None)"

fun leafref_steps :: "(nat \<Rightarrow> xmodule) \<Rightarrow> nat \<Rightarrow> nat \<Rightarrow> string list \<Rightarrow> leafref_step list option" where
  "leafref_steps ms module current [] = Some []"
| "leafref_steps ms module current (s # ss) =
     (if s = [] then leafref_steps ms module current ss
      else
        case (case last_colon s of None \<Rightarrow> Some (current, s) | Some (pfx, name) \<Rightarrow>
            map_option (\<lambda>m. (m, name)) (resolvePrefix ms module pfx)) of
          None \<Rightarrow> None
        | Some (m, name) \<Rightarrow>
            if name = [] then None
            else map_option (Cons \<lparr>lsModule = xmName (ms m), lsName = name\<rparr>) (leafref_steps ms module current ss))"

definition splitLeafRefSteps :: "(nat \<Rightarrow> xmodule) \<Rightarrow> string \<Rightarrow> nat \<Rightarrow> nat \<Rightarrow> leafref_step list option" where
  "splitLeafRefSteps ms rest module current = leafref_steps ms module current (split_on ''/'' rest)"

text \<open>The prefixes \<open>../\<close>: how many, and what follows.\<close>
function climb :: "string \<Rightarrow> nat \<Rightarrow> nat \<times> string" where
  "climb s up = (if has_prefix s ''../'' then climb (drop 3 s) (Suc up) else (up, s))"
  by pat_completeness auto
termination
proof (relation "measure (\<lambda>(s, up). length s)")
  fix s :: string and up :: nat
  assume "has_prefix s ''../''"
  then have "s \<noteq> []" by (auto simp: has_prefix_def)
  then show "((drop 3 s, Suc up), (s, up)) \<in> measure (\<lambda>(s, up). length s)" by (cases s) auto
qed simp

declare climb.simps [simp del]

text \<open>The frame a path starts from, and the rest of the path; the first ancestor is the frame of the root.
  The walks over the tree always pass that frame, so \<open>ancestors\<close> is not empty.\<close>
definition leafref_start :: "string \<Rightarrow> frame list \<Rightarrow> (frame \<times> string) option" where
  "leafref_start expr ancestors =
     (if has_prefix expr ''/'' then Some (hd ancestors, dropWhile (\<lambda>c. c = CHR ''/'') expr)
      else case climb expr 0 of (up, rest) \<Rightarrow>
        if up = 0 \<or> length ancestors < up then None else Some (ancestors ! (length ancestors - up), rest))"

definition leafRefTargetExists ::
  "key_of \<Rightarrow> (nat \<Rightarrow> xmodule) \<Rightarrow> string \<Rightarrow> frame list \<Rightarrow> nat \<Rightarrow> nat \<Rightarrow> string \<Rightarrow> string + bool \<times> bool" where
  "leafRefTargetExists keys ms pathExpr ancestors module current want =
     (let expr = trim_space pathExpr; unsupported = Inr (False, False) in
      if expr = [] \<or> list_ex (\<lambda>c. c \<in> set ''[]()'') expr then unsupported
      else case leafref_start expr ancestors of
        None \<Rightarrow> unsupported
      | Some (frame, rest) \<Rightarrow>
          case splitLeafRefSteps ms rest module current of
            None \<Rightarrow> unsupported
          | Some steps \<Rightarrow> if steps = [] then unsupported else navigateLeafRef keys steps [frame] want)"

subsection \<open>What is reached\<close>

text \<open>The nodes the names lead to from a frame, through containers and all entries of lists.\<close>
inductive reaches :: "frame \<Rightarrow> leafref_step list \<Rightarrow> dnode \<Rightarrow> bool" where
  reaches_last: "findByLeafRefStep frame step = Some n \<Longrightarrow> reaches frame [step] n"
| reaches_container:
    "findByLeafRefStep frame step = Some n \<Longrightarrow> dnData n = DContainer children \<Longrightarrow> reaches children steps m \<Longrightarrow>
      reaches frame (step # steps) m"
| reaches_list:
    "findByLeafRefStep frame step = Some n \<Longrightarrow> dnData n = DList entries \<Longrightarrow> entry \<in> set entries \<Longrightarrow>
      reaches entry steps m \<Longrightarrow> reaches frame (step # steps) m"

inductive_simps reaches_Cons: "reaches frame (step # steps) m"
inductive_simps reaches_Nil [simp]: "reaches frame [] m"

text \<open>The values of a node, and whether one of them is the wanted one.\<close>
fun node_values :: "dnode \<Rightarrow> string list option" where
  "node_values (DNode m n s (DLeaf v)) = Some [v]"
| "node_values (DNode m n s (DLeafList vs)) = Some vs"
| "node_values (DNode m n s d) = None"

definition holds_value :: "key_of \<Rightarrow> dnode \<Rightarrow> string \<Rightarrow> bool" where
  "holds_value keys n want \<longleftrightarrow> (\<exists>vs v. node_values n = Some vs \<and> v \<in> set vs \<and> leafRefValueMatches keys n v want = Inr True)"

lemma any_matches_exact: "any_matches keys n vs want = Inr b \<Longrightarrow> b \<longleftrightarrow> (\<exists>v \<in> set vs. leafRefValueMatches keys n v want = Inr True)"
  by (induction vs arbitrary: b) (auto split: sum.splits bool.splits)

end
