(* ===== verification/Leafref_Target_Properties.thy ===== *)
theory Leafref_Target_Properties
  imports Leafref_Target
begin

text \<open>
  The verdict on a leafref value is right: a value that is reported missing is held by no node that the
  path reaches, and a value that is accepted is held by one.
\<close>

text \<open>What the walk owes for one frame: of a value that was found, and of one that was not.\<close>
definition found_in :: "key_of \<Rightarrow> leafref_step list \<Rightarrow> string \<Rightarrow> frame \<Rightarrow> bool" where
  "found_in keys steps want frame \<longleftrightarrow> (\<exists>n. reaches frame steps n \<and> holds_value keys n want)"

definition missing_in :: "key_of \<Rightarrow> leafref_step list \<Rightarrow> string \<Rightarrow> frame \<Rightarrow> bool" where
  "missing_in keys steps want frame \<longleftrightarrow> (\<forall>n. reaches frame steps n \<longrightarrow> node_values n \<noteq> None \<and> \<not> holds_value keys n want)"

lemma none_here:
  assumes "findByLeafRefStep frame step = None"
  shows "missing_in keys (step # steps) want frame"
  using assms by (auto simp: missing_in_def reaches_Cons)

lemma last_here:
  assumes "findByLeafRefStep frame step = Some n"
  shows "found_in keys [step] want frame \<longleftrightarrow> holds_value keys n want"
    "missing_in keys [step] want frame \<longleftrightarrow> node_values n \<noteq> None \<and> \<not> holds_value keys n want"
  using assms by (auto simp: found_in_def missing_in_def reaches_Cons)

lemma container_here:
  assumes "findByLeafRefStep frame step = Some n" "dnData n = DContainer children" "steps \<noteq> []"
  shows "found_in keys (step # steps) want frame \<longleftrightarrow> found_in keys steps want children"
    "missing_in keys (step # steps) want frame \<longleftrightarrow> missing_in keys steps want children"
  using assms by (auto simp: found_in_def missing_in_def reaches_Cons)

lemma list_here:
  assumes "findByLeafRefStep frame step = Some n" "dnData n = DList entries" "steps \<noteq> []"
  shows "found_in keys (step # steps) want frame \<longleftrightarrow> (\<exists>entry \<in> set entries. found_in keys steps want entry)"
    "missing_in keys (step # steps) want frame \<longleftrightarrow> (\<forall>entry \<in> set entries. missing_in keys steps want entry)"
  using assms by (auto simp: found_in_def missing_in_def reaches_Cons)

lemma holds_values: "node_values n = Some vs \<Longrightarrow> holds_value keys n want \<longleftrightarrow> (\<exists>v \<in> set vs. leafRefValueMatches keys n v want = Inr True)"
  by (auto simp: holds_value_def)

lemma node_values_data: "dnData n = DLeaf v \<Longrightarrow> node_values n = Some [v]" "dnData n = DLeafList vs \<Longrightarrow> node_values n = Some vs"
  by (cases n; simp)+

text \<open>The verdict of the walk over some frames.\<close>
definition verdict :: "key_of \<Rightarrow> leafref_step list \<Rightarrow> string \<Rightarrow> frame list \<Rightarrow> bool \<times> bool \<Rightarrow> bool" where
  "verdict keys steps want frames r \<longleftrightarrow>
     (fst r \<longrightarrow> (\<exists>frame \<in> set frames. found_in keys steps want frame)) \<and>
     (\<not> fst r \<and> snd r \<longrightarrow> (\<forall>frame \<in> set frames. missing_in keys steps want frame))"

text \<open>The result for one frame, and what the loop makes of it.\<close>
definition frame_result :: "key_of \<Rightarrow> leafref_step \<Rightarrow> leafref_step list \<Rightarrow> frame \<Rightarrow> string \<Rightarrow> string + bool \<times> bool" where
  "frame_result keys step steps frame want =
     (case findByLeafRefStep frame step of
        None \<Rightarrow> Inr (False, True)
      | Some n \<Rightarrow>
          (case dnData n of
             DLeaf v \<Rightarrow> if steps = [] then map_sum id (\<lambda>b. (b, True)) (leafRefValueMatches keys n v want) else Inr (False, False)
           | DLeafList vs \<Rightarrow> if steps = [] then map_sum id (\<lambda>b. (b, True)) (any_matches keys n vs want) else Inr (False, False)
           | DContainer children \<Rightarrow> if steps = [] then Inr (False, False) else navigateLeafRef keys steps [children] want
           | DList entries \<Rightarrow> if steps = [] then Inr (False, False) else navigateLeafRef keys steps entries want
           | DOpaque \<Rightarrow> Inr (False, False)))"

definition more_frames :: "string + bool \<times> bool \<Rightarrow> string + bool \<times> bool \<Rightarrow> string + bool \<times> bool" where
  "more_frames r rest =
     (case r of Inl e \<Rightarrow> Inl e | Inr (found, supported) \<Rightarrow> if found \<or> \<not> supported then Inr (found, supported) else rest)"

lemma navigate_step:
  "navigateLeafRef keys (step # steps) (frame # frames) want =
    more_frames (frame_result keys step steps frame want) (navigateLeafRef keys (step # steps) frames want)"
  by (auto simp: navigateLeafRef.simps(3) Let_def frame_result_def more_frames_def
      split: option.split dnode_data.split sum.split bool.split)

lemma frame_verdict:
  assumes ih: "\<And>frames r. navigateLeafRef keys steps frames want = Inr r \<Longrightarrow> steps \<noteq> [] \<Longrightarrow> verdict keys steps want frames r"
    and r: "frame_result keys step steps frame want = Inr r"
  shows "verdict keys (step # steps) want [frame] r"
proof (cases "findByLeafRefStep frame step")
  case None
  then show ?thesis using r none_here[OF None] by (auto simp: frame_result_def verdict_def)
next
  case n: (Some n)
  show ?thesis
  proof (cases "steps = []")
    case True
    have "(\<exists>vs b. node_values n = Some vs \<and> b = (\<exists>v \<in> set vs. leafRefValueMatches keys n v want = Inr True) \<and> r = (b, True)) \<or>
        r = (False, False)"
    proof (cases "dnData n")
      case (DLeaf v)
      then obtain b where "leafRefValueMatches keys n v want = Inr b" "r = (b, True)"
        using r n True by (cases "leafRefValueMatches keys n v want") (auto simp: frame_result_def)
      then show ?thesis using node_values_data(1)[OF DLeaf] by auto
    next
      case (DLeafList vs)
      then obtain b where b: "any_matches keys n vs want = Inr b" "r = (b, True)"
        using r n True by (cases "any_matches keys n vs want") (auto simp: frame_result_def)
      show ?thesis using node_values_data(2)[OF DLeafList] any_matches_exact[OF b(1)] b(2) by simp
    qed (use r n True in \<open>auto simp: frame_result_def\<close>)
    then consider (values_known) vs b where "node_values n = Some vs" "b = (\<exists>v \<in> set vs. leafRefValueMatches keys n v want = Inr True)" "r = (b, True)"
      | (other) "r = (False, False)" by blast
    then show ?thesis
    proof cases
      case values_known
      then show ?thesis using last_here[OF n] holds_values[OF values_known(1)] True by (simp add: verdict_def)
    qed (simp add: verdict_def)
  next
    case False
    show ?thesis
    proof (cases "dnData n")
      case (DContainer children)
      then have "verdict keys steps want [children] r" using r n False ih by (simp add: frame_result_def)
      then show ?thesis using container_here[OF n DContainer False] by (simp add: verdict_def)
    next
      case (DList entries)
      then have "verdict keys steps want entries r" using r n False ih by (simp add: frame_result_def)
      then show ?thesis using list_here[OF n DList False] by (simp add: verdict_def)
    qed (use r n False in \<open>auto simp: frame_result_def verdict_def\<close>)
  qed
qed

lemma navigate_verdict:
  "navigateLeafRef keys steps frames want = Inr r \<Longrightarrow> steps \<noteq> [] \<Longrightarrow> verdict keys steps want frames r"
proof (induction steps arbitrary: frames r)
  case (Cons step steps)
  note outer = Cons
  from Cons.prems(1) show ?case
  proof (induction frames arbitrary: r)
    case Nil
    then show ?case by (auto simp: navigateLeafRef.simps verdict_def)
  next
    case (Cons frame frames)
    obtain f s where fs: "frame_result keys step steps frame want = Inr (f, s)"
      using Cons.prems by (cases "frame_result keys step steps frame want") (auto simp: navigate_step more_frames_def)
    have v: "verdict keys (step # steps) want [frame] (f, s)" by (rule frame_verdict[OF outer(1) fs])
    then show ?case using Cons.prems fs Cons.IH[of r]
      by (auto simp: navigate_step more_frames_def verdict_def split: if_splits)
  qed
qed simp

text \<open>
  C37: The verdict on a leafref value: if the value is found, a node reached by the path from its starting
  frame holds it; if it is reported missing, every node the path reaches is a leaf or a leaf-list
  and none holds it.
\<close>
theorem leafref_verdict_exact:
  assumes "leafRefTargetExists keys ms path ancestors module current want = Inr (found, supported)" "found \<or> supported"
  shows "\<exists>frame rest steps. leafref_start (trim_space path) ancestors = Some (frame, rest) \<and>
    splitLeafRefSteps ms rest module current = Some steps \<and>
    (found \<longleftrightarrow> (\<exists>n. reaches frame steps n \<and> holds_value keys n want)) \<and>
    (found \<or> (\<forall>n. reaches frame steps n \<longrightarrow> node_values n \<noteq> None))"
proof -
  obtain frame rest steps where s: "leafref_start (trim_space path) ancestors = Some (frame, rest)"
    "splitLeafRefSteps ms rest module current = Some steps" "steps \<noteq> []"
    "navigateLeafRef keys steps [frame] want = Inr (found, supported)"
    using assms unfolding leafRefTargetExists_def Let_def
    by (auto split: if_splits option.splits prod.splits)
  have "verdict keys steps want [frame] (found, supported)" by (rule navigate_verdict[OF s(4,3)])
  then show ?thesis using s(1,2) assms(2) by (auto simp: verdict_def found_in_def missing_in_def)
qed

definition sample_frame :: frame where
  "sample_frame = [DNode ''m'' ''c'' 0 (DList [[DNode ''m'' ''k'' 1 (DLeaf ''1'')], [DNode ''m'' ''k'' 1 (DLeaf ''2'')]])]"

definition sample_modules :: "nat \<Rightarrow> xmodule" where
  "sample_modules = (\<lambda>_. \<lparr>xmName = ''m'', xmPrefix = ''p'', xmNamespace = ''u'', xmImports = (\<lambda>_. None), xmIdentities = (\<lambda>_. None)\<rparr>)"

theorem leafref_verdict_exact_witness:
  "leafRefTargetExists (\<lambda>_. None) sample_modules ''/p:c/p:k'' [sample_frame] 0 0 ''2'' = Inr (True, True) \<and>
    (\<exists>frame rest steps. leafref_start (trim_space ''/p:c/p:k'') [sample_frame] = Some (frame, rest) \<and>
      splitLeafRefSteps sample_modules rest 0 0 = Some steps \<and>
      (\<exists>n. reaches frame steps n \<and> holds_value (\<lambda>_. None) n ''2''))"
proof -
  have e: "leafRefTargetExists (\<lambda>_. None) sample_modules ''/p:c/p:k'' [sample_frame] 0 0 ''2'' = Inr (True, True)" by code_simp
  from leafref_verdict_exact[OF e] e show ?thesis by blast
qed

end
