(* ===== verification/Value_Decimal.thy ===== *)
theory Value_Decimal
  imports Go_Strings
begin

text \<open>
  Decimal64 values of the data tree (\<open>go/datatree/datatree_canonical.go\<close>): the scaled integer a text
  denotes and the canonical text of a scaled integer.  An \<open>int64\<close> is an integer; that it stays in the
  range of 64 bits is what \<open>strconv.ParseInt\<close> checks.
\<close>

definition maxNumericLexicalLen :: nat where "maxNumericLexicalLen = 256"

definition fits_int64 :: "int \<Rightarrow> bool" where
  "fits_int64 v \<longleftrightarrow> - (2 ^ 63) \<le> v \<and> v < 2 ^ 63"

text \<open>The sign of a text and what follows it.\<close>
definition signed_rest :: "string \<Rightarrow> bool \<times> string" where
  "signed_rest s =
     (case s of
        [] \<Rightarrow> (False, [])
      | c # t \<Rightarrow> if c = CHR ''-'' then (True, t) else if c = CHR ''+'' then (False, t) else (False, s))"

text \<open>\<open>^[+-]?\d+(\.\d+)?$\<close>\<close>
definition decimal64Lexical :: "string \<Rightarrow> bool" where
  "decimal64Lexical s =
     (case cut_at CHR ''.'' (snd (signed_rest s)) of (whole, part, dot) \<Rightarrow>
        whole \<noteq> [] \<and> list_all is_digit whole \<and> (dot \<longrightarrow> part \<noteq> [] \<and> list_all is_digit part))"

text \<open>\<open>strconv.ParseInt\<close> in base 10, on a sign and digits.\<close>
definition parse_int64 :: "bool \<Rightarrow> string \<Rightarrow> int option" where
  "parse_int64 neg digits =
     (let n = int (nat_of_dec digits); v = (if neg then - n else n) in if fits_int64 v then Some v else None)"

definition parseDecimal64 :: "string \<Rightarrow> nat \<Rightarrow> int option" where
  "parseDecimal64 s fractionDigits =
     (if maxNumericLexicalLen < length s \<or> \<not> decimal64Lexical s then None
      else
        let (neg, s) = signed_rest s; (intPart, part, _) = cut_at CHR ''.'' s in
        if fractionDigits < length part then None
        else
          let digits = dropWhile (\<lambda>c. c = CHR ''0'') (intPart @ part @ replicate (fractionDigits - length part) CHR ''0'') in
          if digits = [] then Some 0 else parse_int64 neg digits)"

definition trim_zeros :: "string \<Rightarrow> string" where
  "trim_zeros s = rev (dropWhile (\<lambda>c. c = CHR ''0'') (rev s))"

definition formatDecimal64 :: "int \<Rightarrow> nat \<Rightarrow> string" where
  "formatDecimal64 num fractionDigits =
     (if num = 0 then ''0.0''
      else
        let digits = dec_of_nat (nat \<bar>num\<bar>);
            sign = (if num < 0 then ''-'' else []);
            digits = (if length digits \<le> fractionDigits
                      then replicate (fractionDigits - length digits + 1) CHR ''0'' @ digits else digits);
            cut = length digits - fractionDigits;
            part = trim_zeros (drop cut digits);
            part = (if part = [] then ''0'' else part)
        in sign @ take cut digits @ ''.'' @ part)"

subsection \<open>What a text denotes\<close>

lemma nat_of_dec_append: "nat_of_dec (a @ b) = nat_of_dec a * 10 ^ length b + nat_of_dec b"
  by (induction b rule: rev_induct) (simp_all add: append.assoc[symmetric] algebra_simps del: append_assoc)

lemma nat_of_dec_replicate [simp]: "nat_of_dec (replicate k CHR ''0'') = 0"
proof (induction k)
  case (Suc k)
  have "nat_of_dec (replicate k CHR ''0'' @ [CHR ''0'']) = 0" unfolding nat_of_dec_snoc Suc by (simp add: digit_val_def)
  then show ?case by (simp only: replicate_append_same replicate_Suc)
qed simp

lemma nat_of_dec_drop_zeros: "nat_of_dec (dropWhile (\<lambda>c. c = CHR ''0'') s) = nat_of_dec s"
proof -
  have z: "\<forall>c \<in> set t. c = CHR ''0'' \<Longrightarrow> nat_of_dec t = 0" for t
    using replicate_length_same[of t "CHR ''0''"] nat_of_dec_replicate[of "length t"] by simp
  have "nat_of_dec s = nat_of_dec (takeWhile (\<lambda>c. c = CHR ''0'') s @ dropWhile (\<lambda>c. c = CHR ''0'') s)" by simp
  also have "\<dots> = nat_of_dec (dropWhile (\<lambda>c. c = CHR ''0'') s)"
    unfolding nat_of_dec_append using z[of "takeWhile (\<lambda>c. c = CHR ''0'') s"] by (auto dest: set_takeWhileD)
  finally show ?thesis ..
qed

text \<open>The scaled value of sign, whole part and fraction.\<close>
definition scaled_value :: "bool \<Rightarrow> string \<Rightarrow> string \<Rightarrow> nat \<Rightarrow> int" where
  "scaled_value neg whole part fd =
     (let n = int (nat_of_dec whole * 10 ^ fd + nat_of_dec part * 10 ^ (fd - length part)) in if neg then - n else n)"

lemma parseDecimal64_parts:
  assumes "signed_rest s = (neg, r)" "cut_at CHR ''.'' r = (whole, part, dot)"
  shows "parseDecimal64 s fd =
    (if length s \<le> 256 \<and> decimal64Lexical s \<and> length part \<le> fd \<and> fits_int64 (scaled_value neg whole part fd)
     then Some (scaled_value neg whole part fd) else None)"
proof -
  let ?all = "whole @ part @ replicate (fd - length part) CHR ''0''"
  define d where "d = dropWhile (\<lambda>c. c = CHR ''0'') ?all"
  have p: "parseDecimal64 s fd = (if 256 < length s \<or> \<not> decimal64Lexical s then None else if fd < length part then None
      else if d = [] then Some 0 else parse_int64 neg d)"
    by (simp only: parseDecimal64_def maxNumericLexicalLen_def assms Let_def prod.case d_def[symmetric])
  have v: "scaled_value neg whole part fd = (if neg then - int (nat_of_dec d) else int (nat_of_dec d))" if "length part \<le> fd"
    using that by (simp add: d_def scaled_value_def nat_of_dec_drop_zeros nat_of_dec_append power_add[symmetric])
  show ?thesis
  proof (cases "length s \<le> 256 \<and> decimal64Lexical s \<and> length part \<le> fd")
    case True
    show ?thesis
    proof (cases "d = []")
      case d: True
      then have "scaled_value neg whole part fd = 0" using v True by simp
      then show ?thesis using p True d by (simp add: fits_int64_def)
    next
      case False
      then show ?thesis using p True v by (simp add: parse_int64_def Let_def)
    qed
  qed (use p in auto)
qed

subsection \<open>The canonical text\<close>

lemma trim_zeros_replicate: "\<exists>k. s = trim_zeros s @ replicate k CHR ''0''"
proof -
  let ?p = "\<lambda>c. c = CHR ''0''"
  have "rev s = takeWhile ?p (rev s) @ dropWhile ?p (rev s)" by simp
  then have "s = trim_zeros s @ rev (takeWhile ?p (rev s))" unfolding trim_zeros_def by (metis rev_append rev_rev_ident)
  moreover have "takeWhile ?p (rev s) = replicate (length (takeWhile ?p (rev s))) CHR ''0''"
    by (rule replicate_length_same[symmetric]) (auto dest: set_takeWhileD)
  ultimately show ?thesis by (metis rev_replicate)
qed

lemma trim_zeros_value: "length s \<le> n \<Longrightarrow> nat_of_dec (trim_zeros s) * 10 ^ (n - length (trim_zeros s)) = nat_of_dec s * 10 ^ (n - length s)"
proof -
  assume n: "length s \<le> n"
  obtain k where k: "s = trim_zeros s @ replicate k CHR ''0''" using trim_zeros_replicate by blast
  then have l: "length s = length (trim_zeros s) + k" by (metis length_append length_replicate)
  have "nat_of_dec s = nat_of_dec (trim_zeros s) * 10 ^ k" by (subst k) (simp add: nat_of_dec_append)
  then show ?thesis using l n by (simp add: power_add[symmetric])
qed

lemma length_dec_of_nat: "n < 10 ^ k \<Longrightarrow> 0 < k \<Longrightarrow> length (dec_of_nat n) \<le> k"
proof (induction k arbitrary: n)
  case (Suc k)
  then show ?case by (cases "n < 10"; cases k) (auto simp: dec_of_nat.simps[of n])
qed simp

text \<open>The canonical text of a non-zero value: its sign, its whole part and its fraction.\<close>
lemma formatDecimal64_parts:
  assumes "num \<noteq> 0" "1 \<le> fd"
  obtains whole part where "formatDecimal64 num fd = (if num < 0 then ''-'' else []) @ whole @ CHR ''.'' # part"
    "whole \<noteq> []" "part \<noteq> []" "list_all is_digit whole" "list_all is_digit part" "length part \<le> fd"
    "nat_of_dec whole * 10 ^ fd + nat_of_dec part * 10 ^ (fd - length part) = nat \<bar>num\<bar>"
    "length whole \<le> max 1 (length (dec_of_nat (nat \<bar>num\<bar>)))"
proof -
  let ?n = "nat \<bar>num\<bar>"
  let ?d0 = "dec_of_nat ?n"
  define d where "d = (if length ?d0 \<le> fd then replicate (fd - length ?d0 + 1) CHR ''0'' @ ?d0 else ?d0)"
  have dl: "fd < length d" by (simp add: d_def)
  have dv: "nat_of_dec d = ?n"
    unfolding d_def by (cases "length ?d0 \<le> fd") (simp_all add: nat_of_dec_append del: replicate_Suc append_Cons)
  have dd: "\<forall>c \<in> set d. is_digit c" using dec_of_nat_digits[of ?n] by (auto simp: d_def is_digit_def)
  define whole where "whole = take (length d - fd) d"
  define t where "t = trim_zeros (drop (length d - fd) d)"
  define part where "part = (if t = [] then ''0'' else t)"
  obtain k where k: "drop (length d - fd) d = t @ replicate k CHR ''0''" using trim_zeros_replicate unfolding t_def by blast
  have ld: "length (drop (length d - fd) d) = fd" using dl by simp
  have tl: "length t \<le> fd" using k ld by (metis length_append le_add1)
  have "nat_of_dec t * 10 ^ (fd - length t) = nat_of_dec (drop (length d - fd) d)"
    using trim_zeros_value[of "drop (length d - fd) d" fd] ld unfolding t_def by simp
  then have pv: "nat_of_dec part * 10 ^ (fd - length part) = nat_of_dec (drop (length d - fd) d)"
    by (auto simp: part_def digit_val_def)
  have "nat_of_dec d = nat_of_dec (whole @ drop (length d - fd) d)" by (simp add: whole_def)
  then have wv: "nat_of_dec whole * 10 ^ fd + nat_of_dec (drop (length d - fd) d) = ?n"
    using dv ld by (simp add: nat_of_dec_append)
  show ?thesis
  proof (rule that[of whole part])
    show "formatDecimal64 num fd = (if num < 0 then ''-'' else []) @ whole @ CHR ''.'' # part"
      using assms(1) by (simp add: formatDecimal64_def d_def[symmetric] whole_def t_def[symmetric] part_def Let_def)
    show "whole \<noteq> []" using dl by (auto simp: whole_def)
    show "part \<noteq> []" by (simp add: part_def)
    show "list_all is_digit whole" using dd by (auto simp: whole_def list_all_iff dest: in_set_takeD)
    have "set t \<subseteq> set (drop (length d - fd) d)" using k by (metis set_append Un_upper1)
    then have "\<forall>c \<in> set t. is_digit c" using dd by (auto dest: in_set_dropD)
    then show "list_all is_digit part" by (auto simp: part_def list_all_iff is_digit_def)
    show "length part \<le> fd" using tl assms(2) by (simp add: part_def)
    show "nat_of_dec whole * 10 ^ fd + nat_of_dec part * 10 ^ (fd - length part) = ?n" using wv pv by simp
    show "length whole \<le> max 1 (length ?d0)" using dl by (auto simp: whole_def d_def)
  qed
qed

lemma lexical_parts:
  assumes "signed_rest s = (neg, whole @ CHR ''.'' # part)" "whole \<noteq> []" "part \<noteq> []" "list_all is_digit whole" "list_all is_digit part"
  shows "cut_at CHR ''.'' (whole @ CHR ''.'' # part) = (whole, part, True)" "decimal64Lexical s"
proof -
  show c: "cut_at CHR ''.'' (whole @ CHR ''.'' # part) = (whole, part, True)"
    using assms(4) by (intro cut_at_point) (auto simp: list_all_iff is_digit_def)
  show "decimal64Lexical s" using assms c by (simp add: decimal64Lexical_def)
qed

lemma signed_rest_format:
  assumes "whole \<noteq> []" "list_all is_digit whole"
  shows "signed_rest ((if neg then ''-'' else []) @ whole @ r) = (neg, whole @ r)"
  using assms by (cases whole) (auto simp: signed_rest_def is_digit_def)

lemma parse_format:
  assumes "fits_int64 v" "1 \<le> fd" "fd \<le> 18"
  shows "parseDecimal64 (formatDecimal64 v fd) fd = Some v"
proof (cases "v = 0")
  case True
  have s: "signed_rest ''0.0'' = (False, ''0.0'')" by (simp add: signed_rest_def)
  have "cut_at CHR ''.'' ''0.0'' = (''0'', ''0'', True)" by (simp add: cut_at_def)
  moreover have "decimal64Lexical ''0.0''" by code_simp
  ultimately show ?thesis using True parseDecimal64_parts[OF s] assms
    by (simp add: formatDecimal64_def scaled_value_def digit_val_def fits_int64_def)
next
  case False
  obtain whole part where f: "formatDecimal64 v fd = (if v < 0 then ''-'' else []) @ whole @ CHR ''.'' # part"
    "whole \<noteq> []" "part \<noteq> []" "list_all is_digit whole" "list_all is_digit part" "length part \<le> fd"
    "nat_of_dec whole * 10 ^ fd + nat_of_dec part * 10 ^ (fd - length part) = nat \<bar>v\<bar>"
    "length whole \<le> max 1 (length (dec_of_nat (nat \<bar>v\<bar>)))"
    using formatDecimal64_parts[OF False assms(2)] by blast
  have s: "signed_rest (formatDecimal64 v fd) = (v < 0, whole @ CHR ''.'' # part)"
    unfolding f(1) by (rule signed_rest_format[OF f(2,4)])
  note l = lexical_parts[OF s f(2,3,4,5)]
  have "nat \<bar>v\<bar> < 10 ^ 19" using assms(1) by (auto simp: fits_int64_def)
  then have "length (dec_of_nat (nat \<bar>v\<bar>)) \<le> 19" by (rule length_dec_of_nat) simp
  then have "length whole \<le> 19" using f(8) by (simp add: max_def split: if_splits)
  then have "length (formatDecimal64 v fd) \<le> 256" using f(1,6) assms(3) by simp
  moreover have "scaled_value (v < 0) whole part fd = v" using f(7) by (simp add: scaled_value_def Let_def)
  ultimately show ?thesis using parseDecimal64_parts[OF s l(1)] l(2) f(6) assms(1) by simp
qed

end
