(* ===== verification/Value_Order.thy ===== *)
theory Value_Order
  imports Value_Decimal "HOL-Library.Multiset"
begin

unbundle bit_operations_syntax

text \<open>
  The canonical order of system-ordered data (\<open>go/datatree/datatree_order.go\<close>): the comparison of
  order keys, the keys of values by type, and the stable sort.  Decoding a JSON token into a string
  or a boolean (\<open>encoding/json\<close>) and base64 are parameters, the codec; so is the validator of union
  members, \<open>accepts\<close>.  Bytes are characters, compared by their codes.
\<close>

subsection \<open>Comparisons\<close>

definition cmp_Compare :: "'a :: linorder \<Rightarrow> 'a \<Rightarrow> int" where
  "cmp_Compare x y = (if x < y then -1 else if y < x then 1 else 0)"

fun bytes_Compare :: "string \<Rightarrow> string \<Rightarrow> int" where
  "bytes_Compare [] [] = 0"
| "bytes_Compare [] (_ # _) = -1"
| "bytes_Compare (_ # _) [] = 1"
| "bytes_Compare (x # xs) (y # ys) =
     (let c = cmp_Compare (of_char x :: nat) (of_char y) in if c \<noteq> 0 then c else bytes_Compare xs ys)"

text \<open>The loop of \<open>compareSparseBitmaps\<close> over both lists; an element is an index and a byte.\<close>
fun compareSparseBitmaps :: "u64 list \<Rightarrow> u64 list \<Rightarrow> int" where
  "compareSparseBitmaps [] [] = 0"
| "compareSparseBitmaps [] (_ # _) = -1"
| "compareSparseBitmaps (_ # _) [] = 1"
| "compareSparseBitmaps (x # xs) (y # ys) =
     (let ai = drop_bit 8 x; bi = drop_bit 8 y in
      if ai \<noteq> bi then (if ai < bi then 1 else -1)
      else let c = cmp_Compare (x AND 0xff) (y AND 0xff) in if c \<noteq> 0 then c else compareSparseBitmaps xs ys)"

datatype order_kind = OrderBytes | OrderSigned | OrderUnsigned | OrderSizedBytes | OrderBits

record order_key =
  okValid :: bool
  okMember :: nat
  okKind :: order_kind
  okI :: int
  okU :: u64
  okB :: string
  okBits :: "u64 list"

definition compareOrderKeys :: "order_key \<Rightarrow> order_key \<Rightarrow> int" where
  "compareOrderKeys a b =
     (if okValid a \<noteq> okValid b then (if okValid a then -1 else 1)
      else if \<not> okValid a then bytes_Compare (okB a) (okB b)
      else if okMember a \<noteq> okMember b then cmp_Compare (okMember b) (okMember a)
      else case okKind a of
        OrderSigned \<Rightarrow> cmp_Compare (okI a) (okI b)
      | OrderUnsigned \<Rightarrow> cmp_Compare (okU a) (okU b)
      | OrderSizedBytes \<Rightarrow>
          (let c = cmp_Compare (length (okB a)) (length (okB b)) in if c \<noteq> 0 then c else bytes_Compare (okB a) (okB b))
      | OrderBits \<Rightarrow> compareSparseBitmaps (okBits a) (okBits b)
      | OrderBytes \<Rightarrow> bytes_Compare (okB a) (okB b))"

subsection \<open>The keys of values\<close>

datatype int_kind = I8 | I16 | I32 | I64 | U8 | U16 | U32 | U64

datatype value_type =
    TInt int_kind | TDecimal64 nat | TBoolean | TEnumeration "(string \<times> int) list" | TBits "(string \<times> int) list"
  | TBinary | TIdentityRef | TString | TInstanceIdentifier | TEmpty
  | TLeafRef "value_type option" | TUnion "value_type list" | TUnknown

record token_codec =
  tcString :: "string \<Rightarrow> string option"
  tcBool :: "string \<Rightarrow> bool option"
  tcBinary :: "string \<Rightarrow> string option"

definition integerJSONQuoted :: "int_kind \<Rightarrow> bool" where
  "integerJSONQuoted k \<longleftrightarrow> k = I64 \<or> k = U64"

definition unsignedIntKind :: "int_kind \<Rightarrow> bool" where
  "unsignedIntKind k \<longleftrightarrow> k \<in> {U8, U16, U32, U64}"

text \<open>\<open>^-?(0|[1-9]\d*)$\<close>\<close>
definition jsonIntegerNumberLexical :: "string \<Rightarrow> bool" where
  "jsonIntegerNumberLexical s =
     (let d = (case s of c # t \<Rightarrow> if c = CHR ''-'' then t else s | [] \<Rightarrow> []) in
      d = ''0'' \<or> (d \<noteq> [] \<and> hd d \<noteq> CHR ''0'' \<and> list_all is_digit d))"

definition integerText :: "token_codec \<Rightarrow> string \<Rightarrow> int_kind \<Rightarrow> string option" where
  "integerText tc raw k =
     (if integerJSONQuoted k then tcString tc raw
      else let t = trim_space raw in if jsonIntegerNumberLexical t then Some t else None)"

text \<open>\<open>strconv.ParseUint\<close> and \<open>strconv.ParseInt\<close> in base 10 and 64 bits.\<close>
definition uint_of_text :: "string \<Rightarrow> u64 option" where
  "uint_of_text s =
     (if s \<noteq> [] \<and> list_all is_digit s \<and> nat_of_dec s < 2 ^ 64 then Some (of_nat (nat_of_dec s)) else None)"

definition int_of_text :: "string \<Rightarrow> int option" where
  "int_of_text s =
     (case signed_rest s of (neg, d) \<Rightarrow> if d \<noteq> [] \<and> list_all is_digit d then parse_int64 neg d else None)"

definition bitPosition :: "(string \<times> int) list \<Rightarrow> string \<Rightarrow> u64 option" where
  "bitPosition values name =
     (case map_of values name of None \<Rightarrow> None | Some pos \<Rightarrow> if pos < 0 then None else Some (of_int pos))"

text \<open>The loop over the names of a bits value: the positions, or none for an undefined or repeated name.\<close>
fun bit_positions :: "(string \<times> int) list \<Rightarrow> string list \<Rightarrow> string set \<Rightarrow> u64 list option" where
  "bit_positions values [] seen = Some []"
| "bit_positions values (name # names) seen =
     (if name = [] then bit_positions values names seen
      else case bitPosition values name of
        None \<Rightarrow> None
      | Some pos \<Rightarrow>
          if name \<in> seen then None else map_option (Cons pos) (bit_positions values names (insert name seen)))"

definition byte_of :: "u64 list \<Rightarrow> u64 \<Rightarrow> u64" where
  "byte_of ps k = foldr (\<lambda>p b. if p div 8 = k then b OR push_bit (unat (p mod 8)) 1 else b) ps 0"

definition bitsOrderBitmap :: "token_codec \<Rightarrow> string \<Rightarrow> (string \<times> int) list \<Rightarrow> u64 list option" where
  "bitsOrderBitmap tc raw values =
     (case tcString tc raw of
        None \<Rightarrow> None
      | Some s \<Rightarrow> map_option
          (\<lambda>ps. map (\<lambda>k. push_bit 8 k OR byte_of ps k) (sort (remdups (map (\<lambda>p. p div 8) ps))))
          (bit_positions values (split_on '' '' s) {}))"

definition order_key0 :: order_key where
  "order_key0 = \<lparr>okValid = False, okMember = 0, okKind = OrderBytes, okI = 0, okU = 0, okB = [], okBits = []\<rparr>"

fun flattenUnionMembers :: "value_type list \<Rightarrow> value_type list" where
  "flattenUnionMembers [] = []"
| "flattenUnionMembers (TUnion ms # rest) = flattenUnionMembers ms @ flattenUnionMembers rest"
| "flattenUnionMembers (m # rest) = m # flattenUnionMembers rest"

text \<open>The text after the last colon, if there is one (\<open>strings.CutLast\<close>).\<close>
definition after_last_colon :: "string \<Rightarrow> string" where
  "after_last_colon s = rev (takeWhile (\<lambda>c. c \<noteq> CHR '':'') (rev s))"

lemma flatten_size: "size_list size (flattenUnionMembers ms) \<le> size_list size ms"
  by (induction ms rule: flattenUnionMembers.induct) auto

text \<open>
  The key of a token, or the error of the validator; \<open>accepts\<close> answers whether a token is valid for
  a member, or fails.  \<open>try_members\<close> is the loop over the flattened members of a union.
\<close>
function valueOrderKey ::
    "token_codec \<Rightarrow> (value_type \<Rightarrow> string \<Rightarrow> string + bool) \<Rightarrow> value_type \<Rightarrow> string \<Rightarrow> string + order_key"
  and try_members ::
    "token_codec \<Rightarrow> (value_type \<Rightarrow> string \<Rightarrow> string + bool) \<Rightarrow> nat \<Rightarrow> value_type list \<Rightarrow> string \<Rightarrow> string + order_key" where
  "valueOrderKey tc accepts ti raw =
     (let invalid = order_key0\<lparr>okB := raw\<rparr>; valid = order_key0\<lparr>okValid := True\<rparr>;
          text = (\<lambda>k. case tcString tc raw of None \<Rightarrow> invalid | Some s \<Rightarrow> k s) in
      case ti of
        TInt kind \<Rightarrow> Inr
          (case integerText tc raw kind of
             None \<Rightarrow> invalid
           | Some t \<Rightarrow>
               if maxNumericLexicalLen < length t then invalid
               else if unsignedIntKind kind then
                 (case uint_of_text t of None \<Rightarrow> invalid | Some u \<Rightarrow> valid\<lparr>okKind := OrderUnsigned, okU := u\<rparr>)
               else (case int_of_text t of None \<Rightarrow> invalid | Some i \<Rightarrow> valid\<lparr>okKind := OrderSigned, okI := i\<rparr>))
      | TDecimal64 fd \<Rightarrow> Inr (text (\<lambda>s.
          case parseDecimal64 s fd of None \<Rightarrow> invalid | Some v \<Rightarrow> valid\<lparr>okKind := OrderSigned, okI := v\<rparr>))
      | TBoolean \<Rightarrow> Inr
          (case tcBool tc raw of None \<Rightarrow> invalid | Some v \<Rightarrow> valid\<lparr>okKind := OrderSigned, okI := if v then 1 else 0\<rparr>)
      | TEnumeration values \<Rightarrow> Inr (text (\<lambda>s.
          case map_of values s of None \<Rightarrow> invalid | Some v \<Rightarrow> valid\<lparr>okKind := OrderSigned, okI := v\<rparr>))
      | TBits values \<Rightarrow> Inr
          (case bitsOrderBitmap tc raw values of None \<Rightarrow> invalid | Some bits \<Rightarrow> valid\<lparr>okKind := OrderBits, okBits := bits\<rparr>)
      | TBinary \<Rightarrow> Inr (text (\<lambda>s.
          case tcBinary tc s of None \<Rightarrow> invalid | Some data \<Rightarrow> valid\<lparr>okKind := OrderSizedBytes, okB := data\<rparr>))
      | TIdentityRef \<Rightarrow> Inr (text (\<lambda>s. valid\<lparr>okB := after_last_colon s\<rparr>))
      | TString \<Rightarrow> Inr (text (\<lambda>s. valid\<lparr>okB := s\<rparr>))
      | TInstanceIdentifier \<Rightarrow> Inr (text (\<lambda>s. valid\<lparr>okB := s\<rparr>))
      | TEmpty \<Rightarrow> Inr valid
      | TLeafRef (Some rt) \<Rightarrow> valueOrderKey tc accepts rt raw
      | TUnion members \<Rightarrow> try_members tc accepts 0 (flattenUnionMembers members) raw
      | _ \<Rightarrow> Inr (valid\<lparr>okB := raw\<rparr>))"
| "try_members tc accepts i [] raw = Inr (order_key0\<lparr>okB := raw\<rparr>)"
| "try_members tc accepts i (m # ms) raw =
     (case accepts m raw of
        Inl e \<Rightarrow> Inl e
      | Inr False \<Rightarrow> try_members tc accepts (Suc i) ms raw
      | Inr True \<Rightarrow> map_sum id (okMember_update (\<lambda>_. i)) (valueOrderKey tc accepts m raw))"
  by pat_completeness auto

termination
  by (relation "measure (\<lambda>x. case x of Inl (tc, a, ti, raw) \<Rightarrow> size ti | Inr (tc, a, i, ms, raw) \<Rightarrow> size_list size ms)")
    (auto simp: le_imp_less_Suc flatten_size)

declare valueOrderKey.simps [simp del]

subsection \<open>The stable sort\<close>

text \<open>
  One step of the insertion sort of \<open>slices.SortStableFunc\<close>: the new element moves towards the front
  past the elements it is less than.
\<close>
definition sift :: "('a \<Rightarrow> 'a \<Rightarrow> int) \<Rightarrow> 'a \<Rightarrow> 'a list \<Rightarrow> 'a list" where
  "sift c x front =
     (let after = rev (takeWhile (\<lambda>y. c x y < 0) (rev front)) in
      take (length front - length after) front @ x # after)"

definition SortStableFunc :: "('a \<Rightarrow> 'a \<Rightarrow> int) \<Rightarrow> 'a list \<Rightarrow> 'a list" where
  "SortStableFunc c xs = foldl (\<lambda>front x. sift c x front) [] xs"

text \<open>The values of a system-ordered leaf-list (\<open>sortSystemOrdered\<close>), or the error of a key.\<close>
fun keyed_values :: "(string \<Rightarrow> string + order_key) \<Rightarrow> string list \<Rightarrow> string + (order_key \<times> string) list" where
  "keyed_values key [] = Inr []"
| "keyed_values key (v # vs) =
     (case key v of
        Inl e \<Rightarrow> Inl e
      | Inr k \<Rightarrow> map_sum id (Cons (k, v)) (keyed_values key vs))"

definition sort_leaf_list ::
  "token_codec \<Rightarrow> (value_type \<Rightarrow> string \<Rightarrow> string + bool) \<Rightarrow> value_type \<Rightarrow> string list \<Rightarrow> string + string list" where
  "sort_leaf_list tc accepts ti values =
     (if length values < 2 then Inr values
      else map_sum id (\<lambda>items. map snd (SortStableFunc (\<lambda>a b. compareOrderKeys (fst a) (fst b)) items))
             (keyed_values (valueOrderKey tc accepts ti) values))"

text \<open>The comparison of two list entries by the keys of their key leaves.\<close>
fun compare_entry_keys :: "order_key list \<Rightarrow> order_key list \<Rightarrow> int" where
  "compare_entry_keys (a # as) (b # bs) = (let c = compareOrderKeys a b in if c \<noteq> 0 then c else compare_entry_keys as bs)"
| "compare_entry_keys _ _ = 0"

end
