(* ===== verification/Codegen_Names.thy ===== *)
theory Codegen_Names
  imports Go_Regexp Value_Order
begin

text \<open>
  The names of generated declarations (\<open>go/codegen/names.go\<close>, with \<open>safeVariantIdent\<close> and \<open>toPascalCase\<close> of
  \<open>codegen.go\<close>): every declaration is a family of identifiers, and the allocator gives each entity a name
  whose family is free.  The tables behind \<open>unicode.IsLetter\<close> and \<open>unicode.IsDigit\<close> are the argument \<open>uni\<close>.  The loops over
  numeric suffixes have no bound of their own, so they are partial functions; that they end is proved.
\<close>

subsection \<open>Identifiers of names\<close>

record unicode_tables =
  uniLetter :: "rune \<Rightarrow> bool"
  uniDigit :: "rune \<Rightarrow> bool"

definition toUpper :: "rune \<Rightarrow> rune" where
  "toUpper r = (if rn CHR ''a'' \<le> r \<and> r \<le> rn CHR ''z'' then r - rn CHR ''a'' + rn CHR ''A'' else r)"

fun pascal_runes :: "unicode_tables \<Rightarrow> bool \<Rightarrow> rune list \<Rightarrow> string" where
  "pascal_runes uni upper [] = []"
| "pascal_runes uni upper (c # cs) =
     (if \<not> uniLetter uni c \<and> \<not> uniDigit uni c then pascal_runes uni True cs
      else encodeRune (if upper then toUpper c else c) @ pascal_runes uni False cs)"

definition toPascalCase :: "unicode_tables \<Rightarrow> string \<Rightarrow> string" where
  "toPascalCase uni s = (let out = pascal_runes uni True (utf8_runes s) in if out = [] then ''Node'' else out)"

subsection \<open>Suffixes\<close>

text \<open>
  The loop that appends 2, 3 and so on to \<open>base\<close> until no member of the family of the name is used.  The
  loop of \<open>safeVariantIdent\<close> is the same with the family of the name alone.
\<close>
partial_function (option) free_name ::
    "(string \<Rightarrow> string list) \<Rightarrow> string \<Rightarrow> string list \<Rightarrow> nat \<Rightarrow> string \<Rightarrow> string option" where
  "free_name family base used k name =
     (if list_all (\<lambda>m. m \<notin> set used) (family name) then Some name
      else free_name family base used (Suc k) (base @ dec_of_nat k))"

text \<open>The identifier of a variant before its suffix.\<close>
definition variant_base :: "unicode_tables \<Rightarrow> string \<Rightarrow> string" where
  "variant_base uni name =
     (let ident = toPascalCase uni name;
          ident = (if ident = [] then ''Value'' else ident);
          first = hd (utf8_runes ident);
          ident = (if rn CHR ''0'' \<le> first \<and> first \<le> rn CHR ''9'' then ''Value'' @ ident else ident)
      in if ident = ''Iota'' then ident @ ''_'' else ident)"

definition safeVariantIdent :: "unicode_tables \<Rightarrow> string \<Rightarrow> string list \<Rightarrow> (string \<times> string list) option" where
  "safeVariantIdent uni name used =
     (let base = variant_base uni name in
      map_option (\<lambda>ident. (ident, ident # used)) (free_name (\<lambda>n. [n]) base used 2 base))"

fun variant_idents :: "unicode_tables \<Rightarrow> string list \<Rightarrow> string list \<Rightarrow> string list option" where
  "variant_idents uni [] used = Some []"
| "variant_idents uni (n # ns) used =
     Option.bind (safeVariantIdent uni n used) (\<lambda>(ident, used). map_option (Cons ident) (variant_idents uni ns used))"

subsection \<open>Families\<close>

definition rootFamily :: "string \<Rightarrow> string list" where
  "rootFamily name = [name, name @ ''FieldOrder'', name @ ''ModuleNS'', name @ ''ModuleName'']"

definition structFamily :: "string \<Rightarrow> string list" where
  "structFamily name = [name, name @ ''FieldOrder'']"

definition operationFamily :: "string \<Rightarrow> string list" where
  "operationFamily name = [name, name @ ''FieldOrder'', ''From'' @ name @ ''JSONIETF'']"

definition restrictedScalarFamily :: "string \<Rightarrow> string list" where
  "restrictedScalarFamily name = [name, ''New'' @ name, ''Default'' @ name]"

definition bitsFamily :: "string \<Rightarrow> string list" where
  "bitsFamily name = [name, name @ ''BitPositions'', ''New'' @ name]"

text \<open>The family of an enumeration, from the identifiers of its values; none if a loop did not end.\<close>
definition enumFamily :: "unicode_tables \<Rightarrow> string list \<Rightarrow> string \<Rightarrow> string list option" where
  "enumFamily uni values name = map_option (\<lambda>vs. [name, ''Parse'' @ name] @ map (\<lambda>v. name @ v) vs) (variant_idents uni values [])"

definition identityrefFamily :: "string list \<Rightarrow> string \<Rightarrow> string list" where
  "identityrefFamily variants name = [name, ''Parse'' @ name] @ map (\<lambda>v. name @ v) variants"

text \<open>
  The types of union members, as far as names depend on them: whether an integer has a range and a string a
  length, the identifiers of the identities below the bases (none without a base), the real type of a leafref.
\<close>
datatype member_type = MemberType (mtTypedef: "string option") (mtResolved: resolved_type)
and resolved_type =
    RBoolean | RInt int_kind bool | RDecimal64 | REnumeration "string list" | RBits | RIdentityRef "string list option" | RString bool
  | RBinary | RInstanceIdentifier | REmpty | RLeafRef "member_type option" | RUnion "member_type list" | RUnknown

fun intKindLabel :: "int_kind \<Rightarrow> string" where
  "intKindLabel I8 = ''Int8''"
| "intKindLabel I16 = ''Int16''"
| "intKindLabel I32 = ''Int32''"
| "intKindLabel I64 = ''Int64''"
| "intKindLabel U8 = ''Uint8''"
| "intKindLabel U16 = ''Uint16''"
| "intKindLabel U32 = ''Uint32''"
| "intKindLabel U64 = ''Uint64''"

fun goTypeForIntKind :: "int_kind \<Rightarrow> string" where
  "goTypeForIntKind I8 = ''int8''"
| "goTypeForIntKind I16 = ''int16''"
| "goTypeForIntKind I32 = ''int32''"
| "goTypeForIntKind I64 = ''int64''"
| "goTypeForIntKind U8 = ''uint8''"
| "goTypeForIntKind U16 = ''uint16''"
| "goTypeForIntKind U32 = ''uint32''"
| "goTypeForIntKind U64 = ''uint64''"

definition unionMemberLabel :: "unicode_tables \<Rightarrow> member_type \<Rightarrow> string" where
  "unionMemberLabel uni info =
     (case mtTypedef info of
        Some name \<Rightarrow> toPascalCase uni name
      | None \<Rightarrow>
          (case mtResolved info of
             RBoolean \<Rightarrow> ''Boolean''
           | RInt kind _ \<Rightarrow> intKindLabel kind
           | RDecimal64 \<Rightarrow> ''Decimal64''
           | REnumeration _ \<Rightarrow> ''Enumeration''
           | RBits \<Rightarrow> ''Bits''
           | RIdentityRef _ \<Rightarrow> ''Identityref''
           | RString _ \<Rightarrow> ''String''
           | RBinary \<Rightarrow> ''Binary''
           | RInstanceIdentifier \<Rightarrow> ''InstanceIdentifier''
           | REmpty \<Rightarrow> ''Empty''
           | RLeafRef _ \<Rightarrow> ''Leafref''
           | RUnion _ \<Rightarrow> ''Union''
           | RUnknown \<Rightarrow> ''Unknown''))"

fun unionPayloadTypeName :: "string \<Rightarrow> string \<Rightarrow> member_type \<Rightarrow> string" where
  "unionPayloadTypeName unionName variant (MemberType _ r) =
     (case r of
        RLeafRef (Some realtype) \<Rightarrow> unionPayloadTypeName unionName variant realtype
      | RLeafRef None \<Rightarrow> ''string''
      | RBoolean \<Rightarrow> ''bool''
      | RInt kind restricted \<Rightarrow> if restricted then unionName @ variant @ ''Range'' else goTypeForIntKind kind
      | RDecimal64 \<Rightarrow> ''Decimal64''
      | RString restricted \<Rightarrow> if restricted then unionName @ variant @ ''Length'' else ''string''
      | RBinary \<Rightarrow> ''string''
      | RUnknown \<Rightarrow> ''string''
      | REmpty \<Rightarrow> ''struct{}''
      | REnumeration _ \<Rightarrow> unionName @ variant @ ''Enum''
      | RBits \<Rightarrow> unionName @ variant @ ''Bits''
      | RIdentityRef _ \<Rightarrow> unionName @ variant @ ''Enum''
      | RInstanceIdentifier \<Rightarrow> ''InstanceIdentifier''
      | RUnion _ \<Rightarrow> unionName @ variant @ ''Union'')"

text \<open>The family of a union, the loop over its members, and the identifiers derived from one member.\<close>
fun unionFamily :: "unicode_tables \<Rightarrow> member_type list \<Rightarrow> string \<Rightarrow> string list option"
and union_members :: "unicode_tables \<Rightarrow> member_type list \<Rightarrow> string \<Rightarrow> string list \<Rightarrow> string list option"
and unionPayloadFamily :: "unicode_tables \<Rightarrow> string \<Rightarrow> string \<Rightarrow> member_type \<Rightarrow> string list option" where
  "unionFamily uni members name =
     (if members = [] then Some [name, name @ ''String''] else map_option (Cons name) (union_members uni members name []))"
| "union_members uni [] name used = Some []"
| "union_members uni (member # members) name used =
     Option.bind (safeVariantIdent uni (unionMemberLabel uni member) used) (\<lambda>(variant, used).
     Option.bind (unionPayloadFamily uni name variant member) (\<lambda>payloads.
     map_option (\<lambda>rest. (name @ variant) # payloads @ rest) (union_members uni members name used)))"
| "unionPayloadFamily uni unionName variant (MemberType t r) =
     (let payload = unionPayloadTypeName unionName variant (MemberType t r) in
      case r of
        RLeafRef (Some realtype) \<Rightarrow> unionPayloadFamily uni unionName variant realtype
      | RInt _ True \<Rightarrow> Some (restrictedScalarFamily payload)
      | RString True \<Rightarrow> Some (restrictedScalarFamily payload)
      | REnumeration values \<Rightarrow> enumFamily uni values payload
      | RBits \<Rightarrow> Some (bitsFamily payload)
      | RIdentityRef (Some variants) \<Rightarrow> Some (identityrefFamily variants payload)
      | RUnion members \<Rightarrow> unionFamily uni members payload
      | _ \<Rightarrow> Some [])"

declare unionFamily.simps [simp del] union_members.simps [simp del] unionPayloadFamily.simps [simp del]

subsection \<open>The allocator\<close>

definition runtimeIdentifiers :: "string list" where
  "runtimeIdentifiers =
     [''AnyData'', ''CambiumStruct'', ''Decimal64'', ''FromJSONIETF'', ''InstanceIdentifier'', ''MetadataAnnotation'',
      ''NewAnyData'', ''NewDecimal64'', ''NewInstanceIdentifier'', ''NewInstanceIdentifierWithXMLNS'',
      ''NewMetadataAnnotation'', ''NewUserOrderedVec'', ''UserOrderedVec'', ''ValidationError'', ''WithDefaultsAll'',
      ''WithDefaultsAllTagged'', ''WithDefaultsExplicit'', ''WithDefaultsMode'', ''WithDefaultsTrim'']"

record 'k ident_allocator =
  iaUsed :: "string list"
  iaNames :: "'k \<Rightarrow> string option"

definition newIdentAllocator :: "string list \<Rightarrow> 'k ident_allocator" where
  "newIdentAllocator patternIdentifiers = \<lparr>iaUsed = runtimeIdentifiers @ patternIdentifiers, iaNames = Map.empty\<rparr>"

definition allocate ::
  "'k ident_allocator \<Rightarrow> 'k \<Rightarrow> string \<Rightarrow> (string \<Rightarrow> string list) \<Rightarrow> (string \<times> 'k ident_allocator) option" where
  "allocate a key base family =
     (case iaNames a key of
        Some name \<Rightarrow> Some (name, a)
      | None \<Rightarrow> map_option
          (\<lambda>name. (name, a\<lparr>iaUsed := iaUsed a @ family name, iaNames := (iaNames a)(key \<mapsto> name)\<rparr>))
          (free_name family base (iaUsed a) 2 base))"

text \<open>A request of the emitter, and the requests one after another.\<close>
type_synonym 'k request = "'k \<times> string \<times> (string \<Rightarrow> string list)"

fun allocate_all :: "'k ident_allocator \<Rightarrow> 'k request list \<Rightarrow> (string list \<times> 'k ident_allocator) option" where
  "allocate_all a [] = Some ([], a)"
| "allocate_all a ((key, base, family) # rs) =
     Option.bind (allocate a key base family) (\<lambda>(name, a). map_option (\<lambda>(names, a). (name # names, a)) (allocate_all a rs))"

subsection \<open>The loops end\<close>

text \<open>Every member of the family of a name is at least as long as the name.\<close>
definition stretches :: "(string \<Rightarrow> string list) \<Rightarrow> bool" where
  "stretches family \<longleftrightarrow> (\<forall>name. \<forall>m \<in> set (family name). length name \<le> length m)"

lemma families_stretch:
  "stretches (\<lambda>n. [n])" "stretches rootFamily" "stretches structFamily" "stretches operationFamily" "stretches restrictedScalarFamily"
  "stretches bitsFamily" "stretches (identityrefFamily variants)"
  by (auto simp: stretches_def rootFamily_def structFamily_def operationFamily_def restrictedScalarFamily_def bitsFamily_def identityrefFamily_def)

lemma dec_of_nat_length: "k < length (dec_of_nat (10 ^ k))"
proof (induction k)
  case (Suc k)
  have "dec_of_nat (10 ^ Suc k) = dec_of_nat (10 ^ k) @ [digit_char 0]" by (subst dec_of_nat.simps) simp
  then show ?case using Suc by simp
qed (simp add: dec_of_nat.simps)

lemma dec_of_nat_mono: "m \<le> n \<Longrightarrow> length (dec_of_nat m) \<le> length (dec_of_nat n)"
proof (induction n arbitrary: m rule: less_induct)
  case (less n)
  show ?case
  proof (cases "n < 10 \<or> m < 10")
    case True
    then show ?thesis using less.prems by (auto simp: dec_of_nat.simps[of m] dec_of_nat.simps[of n])
  next
    case False
    then have "length (dec_of_nat (m div 10)) \<le> length (dec_of_nat (n div 10))"
      using less.prems by (intro less.IH) (auto simp: div_le_mono)
    then show ?thesis using False by (simp add: dec_of_nat.simps[of m] dec_of_nat.simps[of n])
  qed
qed

text \<open>From some suffix on, every name is longer than anything used.\<close>
lemma long_names_free:
  assumes "stretches family" "\<forall>m \<in> set used. length m \<le> k" "10 ^ k \<le> n"
  shows "list_all (\<lambda>m. m \<notin> set used) (family (base @ dec_of_nat n))"
proof -
  have "k < length (base @ dec_of_nat n)" using dec_of_nat_length[of k] dec_of_nat_mono[OF assms(3)] by simp
  then show ?thesis using assms(1,2) by (fastforce simp: stretches_def list_all_iff)
qed

lemma free_name_ends:
  assumes "stretches family"
  shows "\<exists>name'. free_name family base used n name = Some name' \<and> list_all (\<lambda>m. m \<notin> set used) (family name')"
proof -
  define k where "k = Max (insert 0 (length ` set used))"
  have k: "\<forall>m \<in> set used. length m \<le> k" by (simp add: k_def)
  let ?free = "\<lambda>name. list_all (\<lambda>m. m \<notin> set used) (family name)"
  have "\<exists>name'. free_name family base used n name = Some name' \<and> ?free name'" if "10 ^ k \<le> n + d" for d n name
    using that
  proof (induction d arbitrary: n name)
    case 0
    then have l: "?free (base @ dec_of_nat n)" by (intro long_names_free[OF assms k]) simp
    then have "free_name family base used (Suc n) (base @ dec_of_nat n) = Some (base @ dec_of_nat n)" by (subst free_name.simps) simp
    then show ?case using l by (subst free_name.simps) simp
  next
    case (Suc d)
    then have "\<exists>name'. free_name family base used (Suc n) (base @ dec_of_nat n) = Some name' \<and> ?free name'" by simp
    then show ?case by (subst free_name.simps) simp
  qed
  from this[of n "10 ^ k"] show ?thesis by simp
qed

subsection \<open>Enumerations\<close>

lemma safeVariantIdent_ends:
  "\<exists>ident. safeVariantIdent uni name used = Some (ident, ident # used) \<and> ident \<notin> set used"
  using free_name_ends[OF families_stretch(1), of "variant_base uni name" used 2 "variant_base uni name"]
  by (auto simp: safeVariantIdent_def Let_def)

lemma variant_idents_ends: "\<exists>vs. variant_idents uni ns used = Some vs \<and> length vs = length ns \<and> distinct vs \<and> set vs \<inter> set used = {}"
proof (induction ns arbitrary: used)
  case (Cons n ns)
  obtain ident where i: "safeVariantIdent uni n used = Some (ident, ident # used)" "ident \<notin> set used"
    using safeVariantIdent_ends by blast
  obtain vs where "variant_idents uni ns (ident # used) = Some vs" "length vs = length ns" "distinct vs" "set vs \<inter> set (ident # used) = {}"
    using Cons by blast
  then show ?case using i by auto
qed simp

lemma enumFamily_stretches: "\<exists>family. (\<forall>name. enumFamily uni values name = Some (family name)) \<and> stretches family"
proof -
  obtain vs where vs: "variant_idents uni values [] = Some vs" using variant_idents_ends by blast
  have "\<forall>name. enumFamily uni values name = Some (identityrefFamily vs name)" by (simp add: enumFamily_def vs identityrefFamily_def)
  then show ?thesis using families_stretch(7) by blast
qed

text \<open>The families of a member of a union start with the name of the union, whatever the union holds.\<close>
lemma union_families_stretch:
  "\<exists>ms. unionFamily uni members name = Some ms \<and> list_all (\<lambda>m. length name \<le> length m) ms"
  "\<exists>ms. union_members uni members name used = Some ms \<and> list_all (\<lambda>m. length name \<le> length m) ms"
  "\<exists>ms. unionPayloadFamily uni name variant member = Some ms \<and> list_all (\<lambda>m. length name \<le> length m) ms"
proof (induction uni members name and uni members name used and uni name variant member
    rule: unionFamily_union_members_unionPayloadFamily.induct)
  case (1 uni members name)
  then show ?case by (cases "members = []") (auto simp: unionFamily.simps)
next
  case (3 uni member members name used)
  obtain ident where i: "safeVariantIdent uni (unionMemberLabel uni member) used = Some (ident, ident # used)"
    using safeVariantIdent_ends by blast
  obtain ms ns where "unionPayloadFamily uni name ident member = Some ms" "list_all (\<lambda>m. length name \<le> length m) ms"
      "union_members uni members name (ident # used) = Some ns" "list_all (\<lambda>m. length name \<le> length m) ns"
    using 3 i by fastforce
  then show ?case by (simp add: union_members.simps i)
next
  case (4 uni name variant t r)
  have enum: "\<exists>ms. enumFamily uni vs (name @ x) = Some ms \<and> list_all (\<lambda>m. length name \<le> length m) ms" for vs x
    using variant_idents_ends[of uni vs "[]"] by (auto simp: enumFamily_def list_all_iff)
  show ?case
  proof (cases r)
    case (RUnion members)
    then show ?thesis using 4 by (fastforce simp: unionPayloadFamily.simps Let_def list_all_iff)
  next
    case (RInt kind restricted)
    then show ?thesis by (cases restricted) (auto simp: unionPayloadFamily.simps Let_def restrictedScalarFamily_def)
  next
    case (RString restricted)
    then show ?thesis by (cases restricted) (auto simp: unionPayloadFamily.simps Let_def restrictedScalarFamily_def)
  next
    case (RIdentityRef vs)
    then show ?thesis by (cases vs) (auto simp: unionPayloadFamily.simps Let_def identityrefFamily_def list_all_iff)
  next
    case (RLeafRef m)
    then show ?thesis using 4 by (cases m) (auto simp: unionPayloadFamily.simps Let_def)
  qed (use enum[of _ "variant @ ''Enum''"] in \<open>auto simp: unionPayloadFamily.simps Let_def bitsFamily_def\<close>)
qed (simp add: union_members.simps)

lemma unionFamily_stretches: "\<exists>family. (\<forall>name. unionFamily uni members name = Some (family name)) \<and> stretches family"
proof -
  have "\<forall>name. \<exists>ms. unionFamily uni members name = Some ms \<and> list_all (\<lambda>m. length name \<le> length m) ms"
    using union_families_stretch(1) by blast
  then obtain family where "\<forall>name. unionFamily uni members name = Some (family name) \<and> list_all (\<lambda>m. length name \<le> length m) (family name)"
    by metis
  then show ?thesis by (auto simp: stretches_def list_all_iff)
qed

text \<open>The families the emitter asks for: fixed ones, and those of an enumeration, of identities and of a union.\<close>
inductive generator_family :: "unicode_tables \<Rightarrow> (string \<Rightarrow> string list) \<Rightarrow> bool" for uni where
  "generator_family uni rootFamily"
| "generator_family uni structFamily"
| "generator_family uni operationFamily"
| "generator_family uni restrictedScalarFamily"
| "generator_family uni bitsFamily"
| "generator_family uni (identityrefFamily variants)"
| "(\<And>name. enumFamily uni evs name = Some (family name)) \<Longrightarrow> generator_family uni family"
| "(\<And>name. unionFamily uni members name = Some (family name)) \<Longrightarrow> generator_family uni family"

lemma generator_family_stretches: "generator_family uni family \<Longrightarrow> stretches family"
proof (induction rule: generator_family.induct)
  case (7 evs family)
  then show ?case using enumFamily_stretches[of uni evs] by (auto simp: stretches_def)
next
  case (8 members family)
  then show ?case using unionFamily_stretches[of uni members] by (auto simp: stretches_def)
qed (rule families_stretch)+

subsection \<open>Families do not overlap\<close>

text \<open>What the allocator keeps: the families it has given out, by entity, are used, and no two overlap.\<close>
definition keeps_apart :: "string set \<Rightarrow> 'k ident_allocator \<Rightarrow> ('k \<Rightarrow> string list option) \<Rightarrow> bool" where
  "keeps_apart R a F \<longleftrightarrow> dom F = dom (iaNames a) \<and> R \<subseteq> set (iaUsed a) \<and>
     (\<forall>k ms. F k = Some ms \<longrightarrow> set ms \<subseteq> set (iaUsed a) \<and> set ms \<inter> R = {}) \<and>
     (\<forall>k l ms ns. F k = Some ms \<longrightarrow> F l = Some ns \<longrightarrow> k \<noteq> l \<longrightarrow> set ms \<inter> set ns = {})"

lemma allocate_apart:
  assumes "stretches family" "keeps_apart R a F" "\<forall>ms name. F key = Some ms \<longrightarrow> iaNames a key = Some name \<longrightarrow> ms = family name"
  shows "\<exists>name b G. allocate a key base family = Some (name, b) \<and> keeps_apart R b G \<and> F \<subseteq>\<^sub>m G \<and> iaNames a \<subseteq>\<^sub>m iaNames b \<and>
    iaNames b key = Some name \<and> G key = Some (family name) \<and> (\<forall>k. k \<noteq> key \<longrightarrow> iaNames b k = iaNames a k \<and> G k = F k)"
proof (cases "iaNames a key")
  case (Some name)
  then have "key \<in> dom F" using assms(2) unfolding keeps_apart_def by auto
  then obtain ms where "F key = Some ms" by blast
  then show ?thesis using Some assms(2,3) by (auto simp: allocate_def)
next
  case None
  obtain name where n: "free_name family base (iaUsed a) 2 base = Some name" "list_all (\<lambda>m. m \<notin> set (iaUsed a)) (family name)"
    using free_name_ends[OF assms(1)] by blast
  let ?b = "a\<lparr>iaUsed := iaUsed a @ family name, iaNames := (iaNames a)(key \<mapsto> name)\<rparr>" and ?G = "F(key \<mapsto> family name)"
  have "key \<notin> dom F" using None assms(2) unfolding keeps_apart_def by auto
  then have "F key = None" by blast
  then have "keeps_apart R ?b ?G"
    using assms(2) n(2) unfolding keeps_apart_def list_all_iff by (auto simp: dom_def split: if_splits) blast+
  then show ?thesis using None n(1) \<open>F key = None\<close>
    by (intro exI[of _ name] exI[of _ ?b] exI[of _ ?G]) (auto simp: allocate_def map_le_def dom_def)
qed

text \<open>The requests of the emitter agree when one entity is always asked for with one family.\<close>
definition one_family :: "'k request list \<Rightarrow> bool" where
  "one_family rs \<longleftrightarrow> (\<forall>(k, b, f) \<in> set rs. \<forall>(l, c, g) \<in> set rs. k = l \<longrightarrow> f = g)"

text \<open>What holds between the requests, the names they got and the families given out.\<close>
definition served :: "'k request list \<Rightarrow> string list \<Rightarrow> 'k ident_allocator \<Rightarrow> ('k \<Rightarrow> string list option) \<Rightarrow> bool" where
  "served rs names a F \<longleftrightarrow> list_all2 (\<lambda>(k, b, f) name. iaNames a k = Some name \<and> F k = Some (f name)) rs names"

lemma allocate_all_apart:
  assumes "\<forall>(k, b, f) \<in> set rs. stretches f" "one_family rs" "keeps_apart R a F"
    "\<forall>(k, b, f) \<in> set rs. \<forall>ms name. F k = Some ms \<longrightarrow> iaNames a k = Some name \<longrightarrow> ms = f name"
  shows "\<exists>names b G. allocate_all a rs = Some (names, b) \<and> keeps_apart R b G \<and> served rs names b G \<and> F \<subseteq>\<^sub>m G \<and> iaNames a \<subseteq>\<^sub>m iaNames b"
  using assms
proof (induction rs arbitrary: a F)
  case Nil
  then show ?case by (auto simp: served_def)
next
  case (Cons r rs)
  obtain key base family where r: "r = (key, base, family)" by (cases r)
  obtain name b G where b: "allocate a key base family = Some (name, b)" "keeps_apart R b G" "F \<subseteq>\<^sub>m G" "iaNames a \<subseteq>\<^sub>m iaNames b"
      "iaNames b key = Some name" "G key = Some (family name)" "\<forall>k. k \<noteq> key \<longrightarrow> iaNames b k = iaNames a k \<and> G k = F k"
    using allocate_apart[of family R a F key base] Cons.prems r by auto
  have one: "one_family rs" using Cons.prems(2) by (auto simp: one_family_def)
  have same: "\<forall>(k, b, f) \<in> set rs. k = key \<longrightarrow> f = family" using Cons.prems(2) r by (fastforce simp: one_family_def)
  have "\<forall>(k, c, f) \<in> set rs. \<forall>ms n. G k = Some ms \<longrightarrow> iaNames b k = Some n \<longrightarrow> ms = f n"
  proof (clarify)
    fix k c f ms n assume a: "(k, c, f) \<in> set rs" "G k = Some ms" "iaNames b k = Some n"
    show "ms = f n"
    proof (cases "k = key")
      case True
      then show ?thesis using a b(5,6) same by auto
    next
      case False
      then show ?thesis using a b(7) Cons.prems(4) by fastforce
    qed
  qed
  then obtain names c H where c: "allocate_all b rs = Some (names, c)" "keeps_apart R c H" "served rs names c H" "G \<subseteq>\<^sub>m H" "iaNames b \<subseteq>\<^sub>m iaNames c"
    using Cons.IH[of b G] Cons.prems(1) one b(2) by auto
  have "iaNames c key = Some name" "H key = Some (family name)" using b(5,6) c(4,5) by (auto simp: map_le_def dom_def)
  then have "served (r # rs) (name # names) c H" using c(3) by (simp add: r served_def)
  moreover have "allocate_all a (r # rs) = Some (name # names, c)" using b(1) c(1) by (simp add: r)
  moreover have "F \<subseteq>\<^sub>m H" "iaNames a \<subseteq>\<^sub>m iaNames c" using b(3,4) c(4,5) map_le_trans by blast+
  ultimately show ?case using c(2) by blast
qed

subsection \<open>Names of a generated file\<close>

text \<open>The letters and digits of the ASCII range.\<close>
definition ascii_tables :: unicode_tables where
  "ascii_tables = \<lparr>uniLetter = (\<lambda>r. (65 \<le> r \<and> r \<le> 90) \<or> (97 \<le> r \<and> r \<le> 122)), uniDigit = (\<lambda>r. 48 \<le> r \<and> r \<le> 57)\<rparr>"

text \<open>
  Inside one family a name can repeat: the payload type of a member \<open>a\<close> and the type of a member \<open>a-enum\<close>.
\<close>
lemma union_family_repeats:
  "unionFamily ascii_tables
     [MemberType (Some ''a'') (REnumeration [''x'']), MemberType (Some ''a-enum'') (RInt U8 False)] ''U'' =
   Some [''U'', ''UA'', ''UAEnum'', ''ParseUAEnum'', ''UAEnumX'', ''UAEnum'']"
proof -
  have p: "toPascalCase ascii_tables ''a'' = ''A''" "toPascalCase ascii_tables ''x'' = ''X''" "toPascalCase ascii_tables ''a-enum'' = ''AEnum''"
      "toPascalCase ascii_tables ''A'' = ''A''" "toPascalCase ascii_tables ''AEnum'' = ''AEnum''"
    by code_simp+
  have "variant_base ascii_tables ''A'' = ''A''" "variant_base ascii_tables ''AEnum'' = ''AEnum''" "variant_base ascii_tables ''x'' = ''X''"
    unfolding variant_base_def p by code_simp+
  then show ?thesis
    by (simp add: unionFamily.simps union_members.simps unionPayloadFamily.simps unionMemberLabel_def p safeVariantIdent_def free_name.simps enumFamily_def Let_def)
qed

lemma served_at:
  assumes "served rs names a F" "i < length rs" "rs ! i = (key, base, family)"
  shows "iaNames a key = Some (names ! i)" "F key = Some (family (names ! i))"
  using assms list_all2_nthD[of _ rs names i] by (auto simp: served_def)

text \<open>
  C38: The allocator of a new file always returns, also for enumerations and unions of any depth.  When one entity is
  always asked for with one of the families of the generator, an entity always gets the same name, the families of two
  entities have no identifier in common, and no family has an identifier of the runtime or of a pattern.
\<close>
theorem families_never_overlap:
  assumes "list_all (\<lambda>(key, base, family). generator_family uni family) rs" "one_family rs"
  shows "\<exists>names a. allocate_all (newIdentAllocator pats) rs = Some (names, a) \<and> length names = length rs \<and>
    (\<forall>i j key base family key' base' family'. i < length rs \<longrightarrow> j < length rs \<longrightarrow>
       rs ! i = (key, base, family) \<longrightarrow> rs ! j = (key', base', family') \<longrightarrow>
       set (family (names ! i)) \<inter> set (runtimeIdentifiers @ pats) = {} \<and>
       (if key = key' then names ! i = names ! j else set (family (names ! i)) \<inter> set (family' (names ! j)) = {}))"
proof -
  let ?R = "set (runtimeIdentifiers @ pats)"
  have "keeps_apart ?R (newIdentAllocator pats) Map.empty" by (simp add: keeps_apart_def newIdentAllocator_def)
  then obtain names a F where a: "allocate_all (newIdentAllocator pats) rs = Some (names, a)" "keeps_apart ?R a F" "served rs names a F"
    using allocate_all_apart[of rs ?R "newIdentAllocator pats" Map.empty] assms generator_family_stretches by (fastforce simp: list_all_iff)
  have "length names = length rs" using a(3) by (auto simp: served_def dest: list_all2_lengthD)
  moreover have "set (family (names ! i)) \<inter> ?R = {} \<and>
      (if key = key' then names ! i = names ! j else set (family (names ! i)) \<inter> set (family' (names ! j)) = {})"
    if "i < length rs" "j < length rs" "rs ! i = (key, base, family)" "rs ! j = (key', base', family')"
    for i j key base family key' base' family'
  proof -
    note i = served_at[OF a(3) that(1,3)] and j = served_at[OF a(3) that(2,4)]
    have "set (family (names ! i)) \<inter> ?R = {}" using a(2) i(2) unfolding keeps_apart_def by blast
    moreover have "key \<noteq> key' \<Longrightarrow> set (family (names ! i)) \<inter> set (family' (names ! j)) = {}"
      using a(2) i(2) j(2) unfolding keeps_apart_def by blast
    moreover have "key = key' \<Longrightarrow> names ! i = names ! j" using i(1) j(1) by simp
    ultimately show ?thesis by simp
  qed
  ultimately show ?thesis using a(1) by blast
qed

theorem families_never_overlap_witness:
  "map_option fst (allocate_all (newIdentAllocator []) [(0::nat, ''A'', rootFamily), (1, ''AFieldOrder'', structFamily)]) = Some [''A'', ''AFieldOrder2''] \<and>
   set (rootFamily ''A'') \<inter> set (structFamily ''AFieldOrder2'') = {}"
proof -
  let ?rs = "[(0::nat, ''A'', rootFamily), (1, ''AFieldOrder'', structFamily)]"
  have "digit_char 2 = CHR ''2''" by code_simp
  then have names: "map_option fst (allocate_all (newIdentAllocator []) ?rs) = Some [''A'', ''AFieldOrder2'']"
    by (simp add: allocate_def newIdentAllocator_def free_name.simps rootFamily_def structFamily_def runtimeIdentifiers_def dec_of_nat.simps)
  have "list_all (\<lambda>(key, base, family). generator_family ascii_tables family) ?rs" "one_family ?rs"
    by (auto simp: generator_family.intros one_family_def)
  from families_never_overlap[OF this, of "[]"] obtain ns a where ns: "allocate_all (newIdentAllocator []) ?rs = Some (ns, a)"
      "\<forall>i j key base family key' base' family'. i < length ?rs \<longrightarrow> j < length ?rs \<longrightarrow>
         ?rs ! i = (key, base, family) \<longrightarrow> ?rs ! j = (key', base', family') \<longrightarrow>
         set (family (ns ! i)) \<inter> set (runtimeIdentifiers @ []) = {} \<and>
         (if key = key' then ns ! i = ns ! j else set (family (ns ! i)) \<inter> set (family' (ns ! j)) = {})" by blast
  have "ns = [''A'', ''AFieldOrder2'']" using names unfolding ns(1) by simp
  then have "set (rootFamily ''A'') \<inter> set (structFamily ''AFieldOrder2'') = {}"
    using ns(2)[rule_format, of 0 1 0 "''A''" rootFamily 1 "''AFieldOrder''" structFamily] by simp
  then show ?thesis using names by blast
qed

end
