(* ===== verification/Value_Sorting.thy ===== *)
theory Value_Sorting
  imports Value_Order
begin

text \<open>
  Comparators and what the stable sort promises for them: the interface of every ordering of the data
  tree, its laws, and the proof that the comparison of order keys obeys them among the keys of one type.
\<close>

subsection \<open>The interface\<close>

locale comparator =
  fixes K :: "'a set" and c :: "'a \<Rightarrow> 'a \<Rightarrow> int"
  assumes antisym: "a \<in> K \<Longrightarrow> b \<in> K \<Longrightarrow> c a b = - c b a"
    and trans: "a \<in> K \<Longrightarrow> b \<in> K \<Longrightarrow> d \<in> K \<Longrightarrow> c a b \<le> 0 \<Longrightarrow> c b d \<le> 0 \<Longrightarrow> c a d \<le> 0"
begin

lemma refl: "a \<in> K \<Longrightarrow> c a a = 0"
  using antisym[of a a] by simp

lemma total: "a \<in> K \<Longrightarrow> b \<in> K \<Longrightarrow> \<not> c a b < 0 \<Longrightarrow> c b a \<le> 0"
  using antisym[of a b] by simp

lemma equal_sym: "a \<in> K \<Longrightarrow> b \<in> K \<Longrightarrow> c a b = 0 \<Longrightarrow> c b a = 0"
  using antisym[of b a] by simp

lemma equal_trans: "a \<in> K \<Longrightarrow> b \<in> K \<Longrightarrow> d \<in> K \<Longrightarrow> c a b = 0 \<Longrightarrow> c b d = 0 \<Longrightarrow> c a d = 0"
proof -
  assume a: "a \<in> K" "b \<in> K" "d \<in> K" "c a b = 0" "c b d = 0"
  then have "c a d \<le> 0" "c d a \<le> 0" using trans[of a b d] trans[of d b a] equal_sym[of a b] equal_sym[of b d] by simp_all
  then show "c a d = 0" using antisym[of a d] a by simp
qed

abbreviation ordered :: "'a list \<Rightarrow> bool" where
  "ordered \<equiv> sorted_wrt (\<lambda>a b. c a b \<le> 0)"

lemma sift_parts:
  assumes "set xs \<subseteq> K" "x \<in> K" "ordered xs"
  obtains front behind where "xs = front @ behind" "sift c x xs = front @ x # behind" "\<forall>y \<in> set front. c y x \<le> 0" "\<forall>y \<in> set behind. c x y < 0"
proof -
  let ?rear = "rev (takeWhile (\<lambda>y. c x y < 0) (rev xs))" and ?front = "rev (dropWhile (\<lambda>y. c x y < 0) (rev xs))"
  have xs: "xs = ?front @ ?rear" by (metis rev_append rev_rev_ident takeWhile_dropWhile_id)
  have "sift c x xs = take (length xs - length ?rear) xs @ x # ?rear" by (simp add: sift_def Let_def)
  also have "take (length xs - length ?rear) xs = ?front"
    by (subst (2) xs) (metis append_eq_conv_conj diff_add_inverse2 length_append xs)
  finally have s: "sift c x xs = ?front @ x # ?rear" .
  have "c y x \<le> 0" if y: "y \<in> set ?front" for y
  proof -
    obtain l r where l: "dropWhile (\<lambda>y. c x y < 0) (rev xs) = l # r" using y by (cases "dropWhile (\<lambda>y. c x y < 0) (rev xs)") auto
    have lk: "l \<in> set xs" by (metis l list.set_intros(1) set_dropWhileD set_rev)
    have "\<not> c x l < 0" using l by (metis dropWhile_eq_Cons_conv)
    then have lx: "c l x \<le> 0" using total[of x l] lk assms(1,2) by auto
    have "y = l \<or> c y l \<le> 0"
    proof -
      have "ordered (rev r @ [l])" using assms(3) xs l by (metis rev.simps(2) sorted_wrt_append)
      moreover have "y \<in> set r \<or> y = l" using y l by auto
      ultimately show ?thesis by (auto simp: sorted_wrt_append)
    qed
    moreover have "y \<in> K" using y assms(1) by (metis (no_types) set_dropWhileD set_rev subsetD)
    ultimately show "c y x \<le> 0" using trans[of y l x] lx lk assms(1,2) by auto
  qed
  moreover have "\<forall>y \<in> set ?rear. c x y < 0" by (auto dest: set_takeWhileD)
  ultimately show ?thesis using that[OF xs s] by blast
qed

lemma sift_ordered:
  assumes "set xs \<subseteq> K" "x \<in> K" "ordered xs"
  shows "ordered (sift c x xs)" "mset (sift c x xs) = add_mset x (mset xs)"
    "\<And>z. z \<in> K \<Longrightarrow> filter (\<lambda>y. c z y = 0) (sift c x xs) = filter (\<lambda>y. c z y = 0) (xs @ [x])"
proof -
  obtain front behind where p: "xs = front @ behind" "sift c x xs = front @ x # behind" "\<forall>y \<in> set front. c y x \<le> 0"
    "\<forall>y \<in> set behind. c x y < 0" using sift_parts[OF assms] by blast
  show "mset (sift c x xs) = add_mset x (mset xs)" using p by simp
  show "ordered (sift c x xs)" using p assms(3) by (auto simp: sorted_wrt_append less_imp_le)
  show "filter (\<lambda>y. c z y = 0) (sift c x xs) = filter (\<lambda>y. c z y = 0) (xs @ [x])" if z: "z \<in> K" for z
  proof (cases "c z x = 0")
    case True
    have "c z y \<noteq> 0" if "y \<in> set behind" for y
    proof
      assume "c z y = 0"
      then have "c x y = 0" using equal_trans[of x z y] equal_sym[of z x] True z assms(1,2) p(1) that by auto
      then show False using p(4) that by auto
    qed
    then show ?thesis using p True by (simp add: filter_empty_conv)
  qed (use p in simp)
qed

lemma sort_stable:
  assumes "set xs \<subseteq> K"
  shows "ordered (SortStableFunc c xs) \<and> mset (SortStableFunc c xs) = mset xs \<and>
    (\<forall>z \<in> K. filter (\<lambda>y. c z y = 0) (SortStableFunc c xs) = filter (\<lambda>y. c z y = 0) xs)"
  using assms
proof (induction xs rule: rev_induct)
  case (snoc x xs)
  let ?s = "SortStableFunc c xs"
  have e: "SortStableFunc c (xs @ [x]) = sift c x ?s" by (simp add: SortStableFunc_def)
  have s: "set ?s \<subseteq> K" "x \<in> K" "ordered ?s" using snoc by (metis mset_eq_setD butlast_snoc in_set_butlastD le_supE set_append subsetI subset_iff, simp_all)
  show ?case unfolding e using sift_ordered[OF s] snoc by simp
qed (simp add: SortStableFunc_def)

text \<open>An ordered list is determined by what it holds of each class of equal elements.\<close>
lemma ordered_unique:
  assumes "set xs \<subseteq> K" "set ys \<subseteq> K" "ordered xs" "ordered ys"
    "\<forall>z \<in> K. filter (\<lambda>y. c z y = 0) xs = filter (\<lambda>y. c z y = 0) ys"
  shows "xs = ys"
  using assms
proof (induction xs arbitrary: ys)
  case Nil
  then show ?case using refl by (cases ys) force+
next
  case (Cons x xs)
  have fx: "filter (\<lambda>y. c x y = 0) (x # xs) = filter (\<lambda>y. c x y = 0) ys" using Cons.prems(1,5) by auto
  have "x \<in> set (filter (\<lambda>y. c x y = 0) ys)" unfolding fx[symmetric] using refl[of x] Cons.prems(1) by simp
  then have x: "x \<in> set ys" by simp
  then obtain y zs where ys: "ys = y # zs" by (cases ys) auto
  have yK: "y \<in> K" "x \<in> K" using Cons.prems(1,2) ys by auto
  have "y \<in> set (filter (\<lambda>z. c y z = 0) (x # xs))" using Cons.prems(5) yK refl[of y] ys by auto
  then have "y \<in> set (x # xs)" by (simp only: set_filter mem_Collect_eq)
  then have "y = x \<or> c x y \<le> 0" using Cons.prems(3) by auto
  moreover have "x = y \<or> c y x \<le> 0" using x ys Cons.prems(4) by auto
  ultimately have "c x y = 0" using refl yK antisym[of x y] by auto
  then have "x = y" using fx ys refl yK by simp
  moreover have "xs = zs"
  proof (rule Cons.IH)
    show "\<forall>z \<in> K. filter (\<lambda>y. c z y = 0) xs = filter (\<lambda>y. c z y = 0) zs"
    proof
      fix z assume "z \<in> K"
      then have "filter (\<lambda>y. c z y = 0) (x # xs) = filter (\<lambda>y. c z y = 0) (x # zs)"
        using Cons.prems(5) unfolding ys \<open>x = y\<close>[symmetric] by (rule bspec[rotated])
      then show "filter (\<lambda>y. c z y = 0) xs = filter (\<lambda>y. c z y = 0) zs" by (simp split: if_splits)
    qed
  qed (use Cons.prems ys in auto)
  ultimately show ?case using ys by simp
qed

text \<open>If equal elements are the same, the order of the input does not matter.\<close>
lemma sort_order_independent:
  assumes "set xs \<subseteq> K" "mset xs = mset ys" "\<And>a b. a \<in> set xs \<Longrightarrow> b \<in> set xs \<Longrightarrow> c a b = 0 \<Longrightarrow> a = b"
  shows "SortStableFunc c xs = SortStableFunc c ys"
proof -
  have sx: "set xs = set ys" using assms(2) by (rule mset_eq_setD)
  have f: "filter (\<lambda>y. c z y = 0) zs = replicate (length (filter (\<lambda>y. c z y = 0) zs)) w"
    if "z \<in> K" "set zs \<subseteq> set xs" "w \<in> set xs" "c z w = 0" for z zs w
  proof (rule replicate_eqI)
    fix y assume "y \<in> set (filter (\<lambda>y. c z y = 0) zs)"
    then have "y \<in> set xs" "c z y = 0" using that(2) by auto
    then show "y = w" using assms(3)[of y w] equal_trans[of y z w] equal_sym[of z y] that assms(1) by auto
  qed simp
  have "filter (\<lambda>y. c z y = 0) xs = filter (\<lambda>y. c z y = 0) ys" if z: "z \<in> K" for z
  proof (cases "\<exists>w \<in> set xs. c z w = 0")
    case True
    then obtain w where w: "w \<in> set xs" "c z w = 0" by blast
    have "length (filter (\<lambda>y. c z y = 0) xs) = length (filter (\<lambda>y. c z y = 0) ys)"
      using assms(2) by (metis mset_filter size_mset)
    then show ?thesis using f[OF z _ w, of xs] f[OF z _ w, of ys] sx by (metis order_refl)
  next
    case False
    then show ?thesis using sx by (simp add: filter_empty_conv)
  qed
  moreover note sort_stable[OF assms(1)] sort_stable[of ys]
  ultimately show ?thesis
    using assms(1) sx by (intro ordered_unique) (metis mset_eq_setD, metis mset_eq_setD, auto)
qed

lemma less_trans: "a \<in> K \<Longrightarrow> b \<in> K \<Longrightarrow> d \<in> K \<Longrightarrow> c a b < 0 \<Longrightarrow> c b d \<le> 0 \<Longrightarrow> c a d < 0"
proof -
  assume a: "a \<in> K" "b \<in> K" "d \<in> K" "c a b < 0" "c b d \<le> 0"
  have "c a d \<le> 0" using trans[of a b d] a by simp
  moreover have "c a d \<noteq> 0"
  proof
    assume "c a d = 0"
    then have "c b a \<le> 0" using trans[of b d a] equal_sym[of a d] a by simp
    then show False using antisym[of a b] a by simp
  qed
  ultimately show ?thesis by simp
qed

lemma trans_less: "a \<in> K \<Longrightarrow> b \<in> K \<Longrightarrow> d \<in> K \<Longrightarrow> c a b \<le> 0 \<Longrightarrow> c b d < 0 \<Longrightarrow> c a d < 0"
  using less_trans[of a b d] less_trans[of b d a] trans[of a b d] antisym[of a d] antisym[of a b] antisym[of b d]
  by (cases "c a d = 0") force+

end

subsection \<open>Lists of comparable elements\<close>

fun lex_compare :: "('a \<Rightarrow> 'a \<Rightarrow> int) \<Rightarrow> 'a list \<Rightarrow> 'a list \<Rightarrow> int" where
  "lex_compare e [] [] = 0"
| "lex_compare e [] (_ # _) = -1"
| "lex_compare e (_ # _) [] = 1"
| "lex_compare e (x # xs) (y # ys) = (if e x y \<noteq> 0 then e x y else lex_compare e xs ys)"

lemma lex_compare_comparator:
  assumes "comparator UNIV e"
  shows "comparator UNIV (lex_compare e)"
proof -
  note e = comparator.antisym[OF assms] comparator.trans[OF assms] comparator.less_trans[OF assms] comparator.trans_less[OF assms]
    comparator.equal_trans[OF assms]
  show ?thesis
  proof
    fix a b :: "'a list"
    show "lex_compare e a b = - lex_compare e b a"
    proof (induction a arbitrary: b)
      case Nil
      then show ?case by (cases b) simp_all
    next
      case (Cons x xs)
      show ?case using Cons e(1)[of x] by (cases b) (auto simp: e(1)[of x])
    qed
  next
    fix a b d :: "'a list"
    assume "lex_compare e a b \<le> 0" "lex_compare e b d \<le> 0"
    then show "lex_compare e a d \<le> 0"
    proof (induction a arbitrary: b d)
      case Nil
      then show ?case by (cases d) simp_all
    next
      case (Cons x xs)
      obtain y ys where b: "b = y # ys" using Cons.prems(1) by (cases b) auto
      obtain z zs where d: "d = z # zs" using Cons.prems(2) b by (cases d) auto
      consider "e x y = 0" "e y z = 0" | "e x y < 0" "e y z \<le> 0" | "e x y \<le> 0" "e y z < 0"
        using Cons.prems b d by (auto split: if_splits)
      then show ?case
      proof cases
        case 1
        then have "e x z = 0" using e(5)[of x y z] by simp
        then show ?thesis using Cons 1 b d by auto
      next
        case 2
        then show ?thesis using e(3)[of x y z] d by simp
      next
        case 3
        then show ?thesis using e(4)[of x y z] d by simp
      qed
    qed
  qed
qed


lemma cmp_Compare_comparator: "comparator UNIV cmp_Compare"
  by unfold_locales (auto simp: cmp_Compare_def split: if_splits)

lemma cmp_Compare_0 [simp]: "cmp_Compare x y = 0 \<longleftrightarrow> x = y"
  by (auto simp: cmp_Compare_def)

lemma comparator_on:
  assumes "comparator UNIV c"
  shows "comparator UNIV (\<lambda>x y. c (f x) (f y))"
  by (rule comparator.intro) (rule comparator.antisym[OF assms] comparator.trans[OF assms]; simp)+

lemmas compare_on = comparator_on[OF cmp_Compare_comparator]

lemma comparator_swap:
  assumes "comparator K c"
  shows "comparator K (\<lambda>x y. c y x)"
proof
  fix x y assume "x \<in> K" "y \<in> K"
  then show "c y x = - c x y" by (intro comparator.antisym[OF assms])
next
  fix x y z assume "x \<in> K" "y \<in> K" "z \<in> K" "c y x \<le> 0" "c z y \<le> 0"
  then show "c z x \<le> 0" by (intro comparator.trans[OF assms, of z y x])
qed

text \<open>Comparing by one order, and by a second one where the first is equal.\<close>
lemma comparator_then:
  assumes c: "comparator K c" and d: "comparator K d"
  shows "comparator K (\<lambda>x y. if c x y \<noteq> 0 then c x y else d x y)"
proof
  fix x y assume "x \<in> K" "y \<in> K"
  then show "(if c x y \<noteq> 0 then c x y else d x y) = - (if c y x \<noteq> 0 then c y x else d y x)"
    using comparator.antisym[OF c, of x y] comparator.antisym[OF d, of x y] by simp
next
  fix x y z assume k: "x \<in> K" "y \<in> K" "z \<in> K"
    and "(if c x y \<noteq> 0 then c x y else d x y) \<le> 0" "(if c y z \<noteq> 0 then c y z else d y z) \<le> 0"
  then consider "c x y = 0" "c y z = 0" "d x y \<le> 0" "d y z \<le> 0" | "c x y < 0" "c y z \<le> 0" | "c x y \<le> 0" "c y z < 0"
    by (auto split: if_splits)
  then show "(if c x z \<noteq> 0 then c x z else d x z) \<le> 0"
    by cases (use comparator.equal_trans[OF c k] comparator.trans[OF d k] comparator.less_trans[OF c k]
        comparator.trans_less[OF c k] in auto)
qed

lemma bytes_Compare_lex: "bytes_Compare = lex_compare (\<lambda>x y. cmp_Compare (of_char x :: nat) (of_char y))"
proof (intro ext)
  fix xs ys
  show "bytes_Compare xs ys = lex_compare (\<lambda>x y. cmp_Compare (of_char x :: nat) (of_char y)) xs ys"
    by (induction xs ys rule: bytes_Compare.induct) (auto simp: Let_def)
qed

definition bitmap_element :: "u64 \<Rightarrow> u64 \<Rightarrow> int" where
  "bitmap_element x y =
     (let c = cmp_Compare (drop_bit 8 y) (drop_bit 8 x) in if c \<noteq> 0 then c else cmp_Compare (x AND 0xff) (y AND 0xff))"

lemma compareSparseBitmaps_lex: "compareSparseBitmaps = lex_compare bitmap_element"
proof (intro ext)
  fix xs ys
  show "compareSparseBitmaps xs ys = lex_compare bitmap_element xs ys"
    by (induction xs ys rule: compareSparseBitmaps.induct) (auto simp: Let_def bitmap_element_def cmp_Compare_def)
qed

interpretation bytes: comparator UNIV bytes_Compare
  unfolding bytes_Compare_lex by (rule lex_compare_comparator) (rule compare_on)

interpretation bitmaps: comparator UNIV compareSparseBitmaps
  unfolding compareSparseBitmaps_lex
proof (rule lex_compare_comparator)
  have "comparator UNIV (\<lambda>x y. if cmp_Compare (drop_bit 8 y) (drop_bit 8 x) \<noteq> 0
      then cmp_Compare (drop_bit 8 y) (drop_bit 8 x) else cmp_Compare (x AND 0xff) (y AND (0xff :: u64)))"
    by (rule comparator_then) (rule comparator_swap, rule compare_on, rule compare_on)
  then show "comparator UNIV bitmap_element" by (simp only: bitmap_element_def[abs_def] Let_def)
qed

subsection \<open>The keys of one type\<close>

text \<open>
  The keys whose kind depends on the member alone: \<open>f\<close> gives the kind of the keys of each member.
\<close>
definition keys_of :: "(nat \<Rightarrow> order_kind) \<Rightarrow> order_key set" where
  "keys_of f = {k. okValid k \<longrightarrow> okKind k = f (okMember k)}"

definition kind_compare :: "order_kind \<Rightarrow> order_key \<Rightarrow> order_key \<Rightarrow> int" where
  "kind_compare kind a b =
     (case kind of
        OrderSigned \<Rightarrow> cmp_Compare (okI a) (okI b)
      | OrderUnsigned \<Rightarrow> cmp_Compare (okU a) (okU b)
      | OrderSizedBytes \<Rightarrow>
          (let c = cmp_Compare (length (okB a)) (length (okB b)) in if c \<noteq> 0 then c else bytes_Compare (okB a) (okB b))
      | OrderBits \<Rightarrow> compareSparseBitmaps (okBits a) (okBits b)
      | OrderBytes \<Rightarrow> bytes_Compare (okB a) (okB b))"

lemma kind_compare_comparator: "comparator UNIV (kind_compare kind)"
proof (cases kind)
  case OrderBytes
  then show ?thesis unfolding kind_compare_def[abs_def] order_kind.case by (simp only: order_kind.case) (rule comparator_on, rule bytes.comparator_axioms)
next
  case OrderSigned
  then show ?thesis unfolding kind_compare_def[abs_def] by (simp only: order_kind.case) (rule compare_on)
next
  case OrderUnsigned
  then show ?thesis unfolding kind_compare_def[abs_def] by (simp only: order_kind.case) (rule compare_on)
next
  case OrderSizedBytes
  then show ?thesis unfolding kind_compare_def[abs_def]
    by (simp only: order_kind.case Let_def) (rule comparator_then, rule compare_on, rule comparator_on, rule bytes.comparator_axioms)
next
  case OrderBits
  then show ?thesis unfolding kind_compare_def[abs_def] by (simp only: order_kind.case) (rule comparator_on, rule bitmaps.comparator_axioms)
qed

lemma compareOrderKeys_valid:
  "okValid a \<Longrightarrow> okValid b \<Longrightarrow> okMember a = okMember b \<Longrightarrow> compareOrderKeys a b = kind_compare (okKind a) a b"
  by (simp add: compareOrderKeys_def kind_compare_def)

lemma compareOrderKeys_invalid:
  "\<not> okValid a \<Longrightarrow> \<not> okValid b \<Longrightarrow> compareOrderKeys a b = bytes_Compare (okB a) (okB b)"
  "okValid a \<Longrightarrow> \<not> okValid b \<Longrightarrow> compareOrderKeys a b = -1"
  "\<not> okValid a \<Longrightarrow> okValid b \<Longrightarrow> compareOrderKeys a b = 1"
  "okValid a \<Longrightarrow> okValid b \<Longrightarrow> okMember a \<noteq> okMember b \<Longrightarrow> compareOrderKeys a b = cmp_Compare (okMember b) (okMember a)"
  by (simp_all add: compareOrderKeys_def)

lemma cmp_Compare_sign [simp]:
  "cmp_Compare x y \<le> 0 \<longleftrightarrow> x \<le> y"
  by (auto simp: cmp_Compare_def)

interpretation keys: comparator "keys_of f" compareOrderKeys for f
proof
  fix a b assume "a \<in> keys_of f" "b \<in> keys_of f"
  note k = this[unfolded keys_of_def mem_Collect_eq]
  consider "\<not> okValid a" "\<not> okValid b" | "okValid a \<noteq> okValid b" | "okValid a" "okValid b" "okMember a \<noteq> okMember b"
    | "okValid a" "okValid b" "okMember a = okMember b" by blast
  then show "compareOrderKeys a b = - compareOrderKeys b a"
  proof cases
    case 1
    then show ?thesis using bytes.antisym[of "okB a" "okB b"] by (simp add: compareOrderKeys_invalid)
  next
    case 2
    then show ?thesis by (auto simp: compareOrderKeys_def)
  next
    case 3
    then show ?thesis by (simp add: compareOrderKeys_invalid cmp_Compare_def)
  next
    case 4
    then show ?thesis using comparator.antisym[OF kind_compare_comparator[of "okKind a"], of a b] k
      by (simp add: compareOrderKeys_valid)
  qed
next
  fix a b d assume "a \<in> keys_of f" "b \<in> keys_of f" "d \<in> keys_of f"
  note k = this[unfolded keys_of_def mem_Collect_eq]
  assume le: "compareOrderKeys a b \<le> 0" "compareOrderKeys b d \<le> 0"
  show "compareOrderKeys a d \<le> 0"
  proof (cases "okValid a \<and> okValid d")
    case False
    then show ?thesis using le bytes.trans[of "okB a" "okB b" "okB d"]
      by (cases "okValid a"; cases "okValid b"; cases "okValid d") (simp_all add: compareOrderKeys_invalid)
  next
    case True
    then have b: "okValid b" using le by (cases "okValid b") (simp_all add: compareOrderKeys_invalid)
    have m: "okMember y \<le> okMember x" if "okValid x" "okValid y" "compareOrderKeys x y \<le> 0" for x y
      using that by (cases "okMember x = okMember y") (simp_all add: compareOrderKeys_invalid)
    show ?thesis
    proof (cases "okMember a = okMember d")
      case eq: True
      then have "okMember b = okMember d" using m[of a b] m[of b d] True b le by simp
      then show ?thesis using True b eq k le comparator.trans[OF kind_compare_comparator[of "okKind a"], of a b d]
        by (simp add: compareOrderKeys_valid)
    next
      case ne: False
      have "okMember d \<le> okMember a" using m[of a b] m[of b d] True b le by simp
      then show ?thesis using True ne by (simp add: compareOrderKeys_invalid)
    qed
  qed
qed

end
