(* ===== verification/Value_Keys.thy ===== *)
theory Value_Keys
  imports Value_Sorting
begin

text \<open>
  The keys of the values of one type: which kind a key has, why the comparison of keys is a comparator
  among them, and what the sorted leaf-list is.
\<close>

subsection \<open>The kind of a key is the kind of its type\<close>

text \<open>The kind of the valid keys of a type; none for a union, whose members have keys of their own.\<close>
fun leaf_kind :: "value_type \<Rightarrow> order_kind option" where
  "leaf_kind (TInt k) = Some (if unsignedIntKind k then OrderUnsigned else OrderSigned)"
| "leaf_kind (TDecimal64 _) = Some OrderSigned"
| "leaf_kind TBoolean = Some OrderSigned"
| "leaf_kind (TEnumeration _) = Some OrderSigned"
| "leaf_kind (TBits _) = Some OrderBits"
| "leaf_kind TBinary = Some OrderSizedBytes"
| "leaf_kind (TUnion _) = None"
| "leaf_kind (TLeafRef (Some rt)) = leaf_kind rt"
| "leaf_kind _ = Some OrderBytes"

text \<open>
  A type is steady when no member of a union is a leafref to another union: then a key's member
  determines its kind.
\<close>
fun steady :: "value_type \<Rightarrow> bool" where
  "steady (TUnion ms) = list_all (\<lambda>m. leaf_kind m \<noteq> None) (flattenUnionMembers ms)"
| "steady (TLeafRef (Some rt)) = steady rt"
| "steady _ = True"

text \<open>The kinds of the keys of a type, by member.\<close>
fun member_kind :: "value_type \<Rightarrow> nat \<Rightarrow> order_kind" where
  "member_kind (TUnion ms) i = the (leaf_kind (flattenUnionMembers ms ! i))"
| "member_kind (TLeafRef (Some rt)) i = member_kind rt i"
| "member_kind ti i = the (leaf_kind ti)"

lemma order_key0_sel [simp]:
  "okValid order_key0 = False" "okMember order_key0 = 0" "okKind order_key0 = OrderBytes"
  by (simp_all add: order_key0_def)

lemma reference_key [simp]:
  "valueOrderKey tc accepts (TLeafRef (Some rt)) raw = valueOrderKey tc accepts rt raw"
  "valueOrderKey tc accepts (TLeafRef None) raw = Inr (order_key0\<lparr>okValid := True, okB := raw\<rparr>)"
  "valueOrderKey tc accepts (TUnion ms) raw = try_members tc accepts 0 (flattenUnionMembers ms) raw"
  by (simp_all add: valueOrderKey.simps[of tc accepts "TLeafRef r" for r] valueOrderKey.simps[of tc accepts "TUnion ms"] Let_def)

lemma leaf_key:
  "leaf_kind ti = Some kind \<Longrightarrow> valueOrderKey tc accepts ti raw = Inr key \<Longrightarrow>
    okMember key = 0 \<and> (okValid key \<longrightarrow> okKind key = kind)"
proof (induction ti arbitrary: kind key)
  case (TLeafRef r)
  then show ?case by (cases r) auto
qed (subst (asm) valueOrderKey.simps, auto simp: Let_def split: option.splits if_splits)+

lemma members_key:
  "list_all (\<lambda>m. leaf_kind m \<noteq> None) ms \<Longrightarrow> try_members tc accepts i ms raw = Inr key \<Longrightarrow> okValid key \<Longrightarrow>
    \<exists>j < length ms. okMember key = i + j \<and> leaf_kind (ms ! j) = Some (okKind key)"
proof (induction ms arbitrary: i)
  case (Cons m ms)
  have "accepts m raw = Inr True \<or> accepts m raw = Inr False"
    using Cons.prems(2) by (auto split: sum.splits)
  then show ?case
  proof
    assume "accepts m raw = Inr True"
    then obtain k where k: "valueOrderKey tc accepts m raw = Inr k" "key = k\<lparr>okMember := i\<rparr>"
      using Cons.prems(2) by (cases "valueOrderKey tc accepts m raw") auto
    then show ?thesis using Cons.prems leaf_key[OF _ k(1)] by force
  next
    assume "accepts m raw = Inr False"
    then obtain j where "j < length ms" "okMember key = Suc i + j" "leaf_kind (ms ! j) = Some (okKind key)"
      using Cons by fastforce
    then show ?thesis by (intro exI[of _ "Suc j"]) simp
  qed
next
  case Nil
  then show ?case by auto
qed

lemma steady_key: "steady ti \<Longrightarrow> valueOrderKey tc accepts ti raw = Inr key \<Longrightarrow> key \<in> keys_of (member_kind ti)"
proof (induction ti arbitrary: key)
  case (TUnion ms)
  then have "try_members tc accepts 0 (flattenUnionMembers ms) raw = Inr key"
    by simp
  then show ?case using TUnion.prems(1) members_key[of "flattenUnionMembers ms" tc accepts 0 raw key] by (auto simp: keys_of_def)
next
  case (TLeafRef r)
  show ?case
  proof (cases r)
    case None
    then show ?thesis using TLeafRef.prems by (auto simp: keys_of_def)
  next
    case (Some rt)
    then show ?thesis using TLeafRef.IH[of rt key] TLeafRef.prems by (simp add: keys_of_def)
  qed
qed (unfold keys_of_def mem_Collect_eq, (drule leaf_key[rotated], simp, simp)+)

subsection \<open>The sorted leaf-list\<close>

lemma keyed_values_exact:
  "keyed_values key vs = Inr items \<Longrightarrow> map snd items = vs \<and> (\<forall>(k, v) \<in> set items. key v = Inr k)"
proof (induction vs arbitrary: items)
  case (Cons v vs)
  then obtain k where k: "key v = Inr k" by (auto split: sum.splits)
  then obtain rest where "keyed_values key vs = Inr rest" "items = (k, v) # rest"
    using Cons.prems by (cases "keyed_values key vs") auto
  then show ?case using Cons.IH k by auto
qed simp

lemma keyed_values_ok: "\<forall>v \<in> set vs. \<exists>k. key v = Inr k \<Longrightarrow> \<exists>items. keyed_values key vs = Inr items"
  by (induction vs) auto

lemma keyed_values_map:
  "keyed_values key vs = Inr items \<Longrightarrow> items = map (\<lambda>v. (projr (key v), v)) vs"
proof (induction vs arbitrary: items)
  case (Cons v vs)
  then obtain k where k: "key v = Inr k" by (auto split: sum.splits)
  then show ?case using Cons by (cases "keyed_values key vs") auto
qed simp

lemma sift_map: "sift c (f x) (map f ys) = map f (sift (\<lambda>a b. c (f a) (f b)) x ys)"
  by (simp add: sift_def Let_def rev_map takeWhile_map take_map comp_def)

lemma sort_map: "SortStableFunc c (map f xs) = map f (SortStableFunc (\<lambda>a b. c (f a) (f b)) xs)"
  by (induction xs rule: rev_induct) (simp_all add: SortStableFunc_def sift_map)

text \<open>The comparison of two tokens of a type by their keys.\<close>
definition value_compare ::
  "token_codec \<Rightarrow> (value_type \<Rightarrow> string \<Rightarrow> string + bool) \<Rightarrow> value_type \<Rightarrow> string \<Rightarrow> string \<Rightarrow> int" where
  "value_compare tc accepts ti v w = compareOrderKeys (projr (valueOrderKey tc accepts ti v)) (projr (valueOrderKey tc accepts ti w))"

definition has_key :: "token_codec \<Rightarrow> (value_type \<Rightarrow> string \<Rightarrow> string + bool) \<Rightarrow> value_type \<Rightarrow> string \<Rightarrow> bool" where
  "has_key tc accepts ti v \<longleftrightarrow> (\<exists>key. valueOrderKey tc accepts ti v = Inr key)"

lemma value_compare_comparator:
  assumes "steady ti"
  shows "comparator {v. has_key tc accepts ti v} (value_compare tc accepts ti)"
proof -
  have "projr (valueOrderKey tc accepts ti v) \<in> keys_of (member_kind ti)" if "has_key tc accepts ti v" for v
    using that steady_key[OF assms] by (auto simp: has_key_def)
  note k = this
  show ?thesis
  proof
    fix v w assume "v \<in> {v. has_key tc accepts ti v}" "w \<in> {v. has_key tc accepts ti v}"
    then show "value_compare tc accepts ti v w = - value_compare tc accepts ti w v"
      unfolding value_compare_def mem_Collect_eq by (rule keys.antisym[OF k k])
  next
    fix v w u assume m: "v \<in> {v. has_key tc accepts ti v}" "w \<in> {v. has_key tc accepts ti v}" "u \<in> {v. has_key tc accepts ti v}"
      and le: "value_compare tc accepts ti v w \<le> 0" "value_compare tc accepts ti w u \<le> 0"
    show "value_compare tc accepts ti v u \<le> 0"
      unfolding value_compare_def
      by (rule keys.trans[OF k[of v] k[of w] k[of u]]) (use m le in \<open>simp_all add: value_compare_def\<close>)
  qed
qed

lemma sort_leaf_list_sort:
  assumes "sort_leaf_list tc accepts ti values = Inr out"
  shows "out = SortStableFunc (value_compare tc accepts ti) values"
    "length values < 2 \<or> (\<forall>v \<in> set values. has_key tc accepts ti v)"
proof -
  show "out = SortStableFunc (value_compare tc accepts ti) values"
  proof (cases "length values < 2")
    case True
    then have "values = [] \<or> (\<exists>v. values = [v])" by (cases "values"; cases "tl values") auto
    then show ?thesis using assms by (auto simp: sort_leaf_list_def SortStableFunc_def sift_def)
  next
    case False
    then obtain items where i: "keyed_values (valueOrderKey tc accepts ti) values = Inr items"
      "out = map snd (SortStableFunc (\<lambda>a b. compareOrderKeys (fst a) (fst b)) items)"
      using assms by (cases "keyed_values (valueOrderKey tc accepts ti) values") (auto simp: sort_leaf_list_def)
    then show ?thesis using keyed_values_map[OF i(1)] by (simp add: sort_map comp_def value_compare_def[abs_def])
  qed
  show "length values < 2 \<or> (\<forall>v \<in> set values. has_key tc accepts ti v)"
  proof (cases "length values < 2")
    case False
    then obtain items where "keyed_values (valueOrderKey tc accepts ti) values = Inr items"
      using assms by (cases "keyed_values (valueOrderKey tc accepts ti) values") (auto simp: sort_leaf_list_def)
    from keyed_values_exact[OF this] show ?thesis by (fastforce simp: has_key_def)
  qed simp
qed

lemma keys_sort_leaf_list:
  "\<forall>v \<in> set values. has_key tc accepts ti v \<Longrightarrow> \<exists>out. sort_leaf_list tc accepts ti values = Inr out"
  using keyed_values_ok[of "values" "valueOrderKey tc accepts ti"] by (auto simp: sort_leaf_list_def has_key_def)

end
