(* ===== verification/Value_Properties.thy ===== *)
theory Value_Properties
  imports Value_Keys Complex_Main
begin

text \<open>
  The properties of canonical values: decimal64 texts and the canonical order of leaf-lists.
\<close>

text \<open>The number a decimal text denotes.\<close>
definition decimal_text_value :: "string \<Rightarrow> rat" where
  "decimal_text_value s =
     (case signed_rest s of (neg, r) \<Rightarrow> case cut_at CHR ''.'' r of (whole, part, _) \<Rightarrow>
        let q = rat_of_nat (nat_of_dec whole) + rat_of_nat (nat_of_dec part) / 10 ^ length part in if neg then - q else q)"

lemma parse_decimal_value:
  assumes "parseDecimal64 s fd = Some v"
  shows "rat_of_int v = decimal_text_value s * 10 ^ fd" "fits_int64 v"
proof -
  obtain neg r where s: "signed_rest s = (neg, r)" by fastforce
  obtain whole part dot where c: "cut_at CHR ''.'' r = (whole, part, dot)" by (cases "cut_at CHR ''.'' r") auto
  have p: "length part \<le> fd" "v = scaled_value neg whole part fd" "fits_int64 v"
    using assms unfolding parseDecimal64_parts[OF s c] by (auto split: if_splits)
  have "(10 :: rat) ^ fd = 10 ^ length part * 10 ^ (fd - length part)" using p(1) by (simp add: power_add[symmetric])
  then show "rat_of_int v = decimal_text_value s * 10 ^ fd"
    using p(2) by (simp add: decimal_text_value_def s c scaled_value_def Let_def field_simps)
  show "fits_int64 v" by (rule p(3))
qed

text \<open>
  C39: A decimal64 text is read as the number it denotes, scaled by its fraction digits; the canonical text
  written for the value reads back as that value; and two texts have the same canonical text exactly when
  they denote the same number.
\<close>
theorem decimal64_canonical:
  assumes "1 \<le> fd" "fd \<le> 18" "parseDecimal64 s fd = Some v" "parseDecimal64 t fd = Some w"
  shows "rat_of_int v = decimal_text_value s * 10 ^ fd \<and>
    parseDecimal64 (formatDecimal64 v fd) fd = Some v \<and>
    (formatDecimal64 v fd = formatDecimal64 w fd \<longleftrightarrow> decimal_text_value s = decimal_text_value t)"
proof -
  note v = parse_decimal_value[OF assms(3)] and w = parse_decimal_value[OF assms(4)]
  have rv: "parseDecimal64 (formatDecimal64 v fd) fd = Some v" and rw: "parseDecimal64 (formatDecimal64 w fd) fd = Some w"
    using parse_format v(2) w(2) assms(1,2) by blast+
  have "formatDecimal64 v fd = formatDecimal64 w fd \<longleftrightarrow> v = w" using rv rw by (metis option.inject)
  also have "\<dots> \<longleftrightarrow> rat_of_int v = rat_of_int w" by simp
  also have "\<dots> \<longleftrightarrow> decimal_text_value s = decimal_text_value t" unfolding v(1) w(1) by simp
  finally show ?thesis using v(1) rv by simp
qed

theorem decimal64_canonical_witness:
  "parseDecimal64 ''+1.50'' 3 = Some 1500 \<and> parseDecimal64 ''01.5'' 3 = Some 1500 \<and>
    rat_of_int 1500 = decimal_text_value ''+1.50'' * 10 ^ 3 \<and> formatDecimal64 1500 3 = ''1.5'' \<and>
    decimal_text_value ''+1.50'' = decimal_text_value ''01.5''"
proof -
  have p: "parseDecimal64 ''+1.50'' 3 = Some 1500" "parseDecimal64 ''01.5'' 3 = Some 1500" "formatDecimal64 1500 3 = ''1.5''"
    by code_simp+
  show ?thesis using decimal64_canonical[OF _ _ p(1,2)] p by simp
qed

text \<open>
  C40: The canonical order of a leaf-list whose type is steady (no member of a union is a leafref to another
  union): the sorted list holds the same tokens, ordered by their keys, tokens of equal keys stay in their
  order, and when only equal tokens have equal keys the result does not depend on the order of the input.
\<close>
theorem leaf_list_order_canonical:
  assumes "steady ti" "sort_leaf_list tc accepts ti vs = Inr out"
  shows "mset out = mset vs \<and> sorted_wrt (\<lambda>v w. value_compare tc accepts ti v w \<le> 0) out \<and>
    (\<forall>v \<in> set vs. filter (\<lambda>w. value_compare tc accepts ti v w = 0) out = filter (\<lambda>w. value_compare tc accepts ti v w = 0) vs) \<and>
    ((\<forall>v \<in> set vs. \<forall>w \<in> set vs. value_compare tc accepts ti v w = 0 \<longrightarrow> v = w) \<longrightarrow>
      (\<forall>ws. mset ws = mset vs \<longrightarrow> sort_leaf_list tc accepts ti ws = Inr out))"
proof -
  let ?c = "value_compare tc accepts ti"
  note out = sort_leaf_list_sort[OF assms(2)]
  note c = value_compare_comparator[OF assms(1), of tc accepts]
  show ?thesis
  proof (cases "length vs < 2")
    case True
    then have vs: "vs = [] \<or> (\<exists>v. vs = [v])" by (cases vs; cases "tl vs") auto
    then have "out = vs" by (auto simp: out(1) SortStableFunc_def sift_def)
    moreover have "sort_leaf_list tc accepts ti ws = Inr vs" if "mset ws = mset vs" for ws
      using that vs assms(2) \<open>out = vs\<close> by auto
    ultimately show ?thesis using vs by auto
  next
    case False
    then have k: "set vs \<subseteq> {v. has_key tc accepts ti v}" using out(2) by auto
    have "sort_leaf_list tc accepts ti ws = Inr out"
      if e: "\<forall>v \<in> set vs. \<forall>w \<in> set vs. ?c v w = 0 \<longrightarrow> v = w" and m: "mset ws = mset vs" for ws
    proof -
      have "set ws = set vs" using m by (rule mset_eq_setD)
      then obtain o' where o': "sort_leaf_list tc accepts ti ws = Inr o'" using keys_sort_leaf_list[of ws tc accepts ti] k by auto
      have "SortStableFunc ?c vs = SortStableFunc ?c ws"
        using comparator.sort_order_independent[OF c k m[symmetric]] e by blast
      then show ?thesis using o' out(1) sort_leaf_list_sort(1)[OF o'] by simp
    qed
    then show ?thesis using comparator.sort_stable[OF c k] k unfolding out(1)[symmetric] by blast
  qed
qed

definition plain_codec :: token_codec where
  "plain_codec = \<lparr>tcString = Some, tcBool = (\<lambda>s. if s = ''true'' then Some True else if s = ''false'' then Some False else None),
    tcBinary = Some\<rparr>"

text \<open>A union of small integers and strings: the strings come first, then the integers by value.\<close>
theorem leaf_list_order_canonical_witness:
  "sort_leaf_list plain_codec (\<lambda>t s. Inr (t = TString \<or> list_all is_digit s)) (TUnion [TInt U8, TString]) [''12'', ''x'', ''7'', ''a''] =
     Inr [''a'', ''x'', ''7'', ''12''] \<and>
   sorted_wrt (\<lambda>v w. value_compare plain_codec (\<lambda>t s. Inr (t = TString \<or> list_all is_digit s)) (TUnion [TInt U8, TString]) v w \<le> 0)
     [''a'', ''x'', ''7'', ''12'']"
proof -
  let ?a = "\<lambda>t s. Inr (t = TString \<or> list_all is_digit s)"
  have s: "steady (TUnion [TInt U8, TString])" by code_simp
  have r: "sort_leaf_list plain_codec ?a (TUnion [TInt U8, TString]) [''12'', ''x'', ''7'', ''a''] = Inr [''a'', ''x'', ''7'', ''12'']"
    by code_simp
  show ?thesis using leaf_list_order_canonical[OF s r] r by simp
qed

text \<open>
  For a type that is not steady the order of the input shows in the sorted list: two keys of different
  kinds under one member are compared as if they had the kind of the first.
\<close>
lemma unsteady_order:
  "sort_leaf_list plain_codec (\<lambda>t s. Inr (t \<noteq> TInt I8 \<or> list_all is_digit s)) (TUnion [TLeafRef (Some (TUnion [TInt I8, TString]))]) [''5'', ''x''] =
     Inr [''5'', ''x''] \<and>
   sort_leaf_list plain_codec (\<lambda>t s. Inr (t \<noteq> TInt I8 \<or> list_all is_digit s)) (TUnion [TLeafRef (Some (TUnion [TInt I8, TString]))]) [''x'', ''5''] =
     Inr [''x'', ''5'']"
  by code_simp

end
