(* ===== verification/Spec2Isabelle.thy ===== *)
theory Spec2Isabelle
  imports Pattern_Properties Compiler_Properties Xsd_Properties Number_Properties Yang_Properties Feature_Properties Leafref_Properties Xpath_Properties Xpath_Eval_Properties Instance_Properties Leafref_Target_Properties Codegen_Names Value_Properties
begin

text \<open>
  Cambium: YANG schema tooling in Go.  The modelled part is the language-processing core under
  \<open>src/go\<close>: the regular expression engine of YANG patterns, the reader of YANG source, the numbers and
  ranges of types, if-feature expressions, leafref cycles, and of the data tree the XPath engine,
  instance-identifiers, leafref values and the canonical values, and the names of generated
  code.  Every definition keeps the name of its Go function
  where there is one; a loop is a recursive function of its own beside the function it belongs to.

  \<^bold>\<open>Conventions.\<close>  A Go struct is a record, a tagged union a datatype, a \<open>uint64\<close> a 64-bit word; an \<open>int\<close>
  that cannot leave its range by the checks before it is a \<open>nat\<close> or an \<open>int\<close>.  A string of bytes is a list of
  characters, decoded to runes as Go does (invalid UTF-8 included, \<open>decodeRune\<close> in Go_Regexp); \<open>Cambium_Prelude\<close>
  and \<open>Go_Strings\<close> hold what is shared.  An error is the left side of a sum, in an error datatype of
  the component.  A pointer into a table is an index.  What the Go code calls outside the repository
  is a parameter: \<open>cats\<close> (\<open>unicode.Categories\<close>), \<open>engine\<close> (\<open>regexp.Compile\<close> and its instruction count),
  \<open>pf\<close> (\<open>strconv.ParseFloat\<close>), the operations of \<open>float64\<close>, \<open>codec\<close>
  (\<open>encoding/json\<close> and base64 on one token), the tables of letters and digits of \<open>unicode\<close>.  A function of the
  repository that is not modelled and that a modelled one calls is a parameter as well: the validator of
  union members, the key of a value that may name an identity, the identities a value names.

  \<^bold>\<open>Patterns\<close> (\<open>go/yangpattern\<close>, \<open>go/internal/xsdregex\<close>).
  \<^item> Pattern_Limits: \<open>runtime_limits.go\<close>, the resource policy and its ledger.
  \<^item> Pattern_Lang: languages of runes, what a node of a table denotes.
  \<^item> Pattern_Program, Pattern_Restore: \<open>runtime_program.go\<close>; RestoreWithLimits accepts only acyclic
    tables with exact nullability and a lower bound on lengths, and always returns.
  \<^item> Pattern_Derivative, Pattern_Residuals, Pattern_Quotient: \<open>runtime_derivative.go\<close>, the
    hash-consed arena, its smart constructors and the memoised derivative, proved to be the left quotient.
  \<^item> Pattern_Store: the locale \<open>node_store\<close>, the interface of a table of languages that only grows; it is
    interpreted on the arena (\<open>ar\<close>, Pattern_Residuals) and on the compiler (\<open>kc\<close>, Pattern_Compiling).
  \<^item> Pattern_Native, Go_Regexp: \<open>runtime_native.go\<close> and the fragment of Go's regular expression syntax it writes.
  \<^item> Pattern_Match, Pattern_Properties: \<open>runtime_match.go\<close>; every route decides the language of the table.
  \<^item> Xsd_Ranges, Xsd_Class, Xsd_Atoms, Xsd_Syntax, Xsd_Properties: \<open>internal/xsdregex\<close>, intervals of
    code points, classes, escapes, the translation to Go's syntax.
  \<^item> Pattern_Compiler, Pattern_Parser, Pattern_Compiling, Pattern_Parsing, Compiler_Properties:
    \<open>compiler.go\<close>; what the compiler accepts is in the grammar and its program has the language of the grammar.

  The three parts compose: \<open>compile_decides_grammar\<close> goes from source text through the compiler, the
  node table and every matching route to the language of the grammar.

  \<^bold>\<open>YANG source and types\<close> (\<open>go/internal/yangparse\<close>, \<open>go/cambium\<close>).
  \<^item> Yang_Scan, Yang_Parse, Yang_Depth, Yang_Print, Yang_Properties: \<open>native.go\<close>, \<open>parser.go\<close> and
    \<open>statement.go\<close>; a printer of statement trees, which the parser inverts, and the bound on nesting.
  \<^item> Yang_Number, Yang_Ranges, Yang_Number_Text, Number_Properties: \<open>number.go\<close>, numbers as
    rationals and range expressions as sets, with the one case in which overlapping parts are not merged
    (\<open>wraps\<close>: the number after the greatest 64-bit bound).
  \<^item> Feature_Expr, Feature_Grammar, Feature_Eval, Feature_Value, Feature_Validity, Feature_Text,
    Feature_Properties: \<open>schema_iffeature.go\<close> and its callees in \<open>schema.go\<close>.  The specification is the least
    relation of derivable values; what the memoised walk finds is in it, and it finds all of it when no
    feature is defined by two revisions of a module (\<open>one_revision\<close>; \<open>two_revisions_unknown\<close> shows the need).
  \<^item> Leafref_Cycles, Leafref_Walk, Leafref_Properties: \<open>schema_leafref_cycles.go\<close>, the depth-first walk.

  \<^bold>\<open>Data tree\<close> (\<open>go/datatree\<close>).
  \<^item> Xpath_Parse, Xpath_Grammar, Xpath_Complete, Xpath_Properties: \<open>datatree_xpath.go\<close>; the parser accepts
    exactly the grammar and never runs past its tokens.
  \<^item> Xpath_Values, Xpath_Eval: \<open>datatree_xpath_eval.go\<close> and \<open>datatree_xpath_func.go\<close>, the values, axes, predicates,
    operators and functions of the evaluator; \<open>re-match\<close> calls the pattern compiler and the matcher modelled above.
  \<^item> Xpath_Nodes, Xpath_Constraints, Xpath_Eval_Properties: node-sets hold nodes of the tree without
    repetition, paths select the relation of their axes, tests and predicates; the must and when loops of
    \<open>datatree_mustwhen.go\<close>; what a number as predicate selects.
  \<^item> Instance_Id, Instance_Text, Instance_Properties: \<open>datatree_instanceid.go\<close>, the reader and the two writers of
    instance-identifiers, which the reader inverts.
  \<^item> Leafref_Target, Leafref_Target_Properties: \<open>datatree_leafref.go\<close>, the verdict on the value of a leafref
    against the relation of the nodes its path reaches.
  \<^item> Value_Decimal, Value_Order, Value_Sorting, Value_Keys, Value_Properties: canonical decimal64 texts and
    the canonical order of \<open>datatree_order.go\<close>.  The locale \<open>comparator\<close> states what a comparison owes to a sort; it is
    interpreted on byte strings, sparse bitmaps and order keys (\<open>bytes\<close>, \<open>bitmaps\<close>, \<open>keys\<close> in Value_Sorting).

  \<^bold>\<open>Generated names\<close> (\<open>go/codegen\<close>).
  \<^item> Codegen_Names: \<open>names.go\<close> and the naming functions of \<open>codegen.go\<close>; the families of identifiers and the allocator
    that keeps them apart.

  \<^bold>\<open>Termination and fuel.\<close>  Most loops are total functions with a measure; the XPath and if-feature parsers
  take the tokens that are left.  Where the end of a loop rests on an invariant of its state, the
  definition is a partial function with values in the option type, and its ending is a theorem:
  \<open>measure_node\<close> and \<open>emit_node\<close> (\<open>restore_returns\<close>, \<open>native_text_exact\<close>), \<open>build\<close> (\<open>specialize_agrees\<close>), \<open>parse\<close> and \<open>norm\<close>
  (\<open>compile_returns\<close>), \<open>free_name\<close> (\<open>free_name_ends\<close>).  Counters that the code itself keeps (the recursion counter of
  the arena, the work ledgers) are arguments as in the code; no definition has fuel of its own.

  \<^bold>\<open>Not modelled.\<close>  FromFloat and Frac of \<open>number.go\<close> (IEEE arithmetic); file access, locks and the loading of
  modules; the schema compiler (\<open>schema.go\<close> and its companions), which mutates one large context, beyond
  the functions named above; the decoding and encoding of whole documents and their validation
  against the schema; code generation beyond the names, the goyang compatibility layer, the libyang bindings, commands
  and the conformance runner.
\<close>

end
